(* ===== verification/Prelude.thy ===== *)
theory Prelude
  imports Main "HOL-Library.Word"
begin

text \<open>
  Shared vocabulary of the development: the machine integers of the zlib sources
  (\<open>Byte\<close>, \<open>ush\<close>, \<open>ulg\<close>, see \<open>src/src/zlib/zconf.h\<close>), and the generic facts on
  lists, words and bits that several components need.
\<close>

unbundle bit_operations_syntax

type_synonym u8 = "8 word"
type_synonym u16 = "16 word"
type_synonym u32 = "32 word"
type_synonym u64 = "64 word"

named_theorems defs \<open>definitions that proofs unfold together\<close>

section \<open>Words read as numbers\<close>

lemma unat_u8_lt: "unat (b :: u8) < 256"
proof -
  have "unat b < 2 ^ LENGTH(8)" by (rule unsigned_less)
  then show ?thesis by simp
qed

lemma unat_u8_le: "unat (b :: u8) \<le> 255"
  using unat_u8_lt [of b] by linarith

lemma unat_u16_lt: "unat (w :: u16) < 65536"
proof -
  have "unat w < 2 ^ LENGTH(16)" by (rule unsigned_less)
  then show ?thesis by simp
qed

lemma unat_ucast_u8_u32 [simp]: "unat (ucast (b :: u8) :: u32) = unat b"
proof -
  have "unat b < 4294967296"
    using unat_u8_lt [of b] by linarith
  then show ?thesis by (simp add: unsigned_ucast_eq take_bit_nat_eq_self)
qed

lemma unat_add_less:
  fixes x y :: "'a::len word"
  assumes "unat x + unat y < 2 ^ LENGTH('a)"
  shows "unat (x + y) = unat x + unat y"
  using assms by (simp add: unat_word_ariths)

lemma unat_sub_le:
  fixes x y :: "'a::len word"
  assumes "unat y \<le> unat x"
  shows "unat (x - y) = unat x - unat y"
  using assms by (simp add: unat_sub word_le_nat_alt)

lemma unat_and_mask: "unat (w AND mask n) = unat w mod 2 ^ n"
  by (simp flip: take_bit_eq_mask add: unsigned_take_bit_eq) (simp add: take_bit_eq_mod)

lemma unat_drop_bit: "unat (drop_bit n w) = unat w div 2 ^ n"
  by (simp add: unat_drop_bit_eq) (simp add: drop_bit_eq_div)

lemma word_eq_unat: "(x = y) = (unat x = unat y)"
  by (simp add: word_unat_eq_iff)

lemma unat_cond_sub:
  fixes x y :: "'a::len word"
  shows "unat (if y \<le> x then x - y else x) = (if unat y \<le> unat x then unat x - unat y else unat x)"
  by (simp add: unat_sub word_le_nat_alt)

text \<open>One conditional subtraction of a multiple of \<open>m\<close> keeps the residue and lowers the bound.\<close>

lemma cond_sub_step:
  fixes x y :: "'a::len word"
  assumes "unat y = k * m" and "unat x < 2 * (k * m)"
  shows "unat (if y \<le> x then x - y else x) < k * m"
    and "unat (if y \<le> x then x - y else x) mod m = unat x mod m"
proof -
  show "unat (if y \<le> x then x - y else x) < k * m"
    unfolding unat_cond_sub using assms by auto
  have "(a - k * m) mod m = a mod m" if "k * m \<le> a" for a
    using that by (metis add.commute le_add_diff_inverse mod_mult_self3)
  then show "unat (if y \<le> x then x - y else x) mod m = unat x mod m"
    unfolding unat_cond_sub using assms(1) by auto
qed

lemma cond_sub_loose:
  fixes x y :: "'a::len word"
  assumes "unat y = m" and "unat x < n + m" and "m \<le> n"
  shows "unat (if y \<le> x then x - y else x) < n"
    and "unat (if y \<le> x then x - y else x) mod m = unat x mod m"
  unfolding unat_cond_sub using assms by (auto simp: le_mod_geq)

lemma cond_sub_mod:
  fixes x y :: "'a::len word"
  assumes "unat y = m" and "unat x < 2 * m"
  shows "unat (if y \<le> x then x - y else x) = unat x mod m"
  unfolding unat_cond_sub using assms by (auto simp: le_mod_geq)

lemma mod_add_inner:
  fixes a x k m :: nat
  shows "(a + (x mod m + k)) mod m = (a + (x + k)) mod m"
proof -
  have "(a + (x mod m + k)) mod m = ((a + k) + x mod m) mod m" by (simp add: ac_simps)
  also have "\<dots> = ((a + k) + x) mod m" by (rule mod_add_right_eq)
  finally show ?thesis by (simp add: ac_simps)
qed

lemma unat_u32_lt: "unat (w :: u32) < 4294967296"
proof -
  have "unat w < 2 ^ LENGTH(32)" by (rule unsigned_less)
  then show ?thesis by simp
qed

lemma take_bit_0_iff: "take_bit n c = (0 :: 'a::len word) \<longleftrightarrow> (\<forall>i < n. \<not> bit c i)"
  by (auto simp: bit_eq_iff bit_take_bit_iff dest: bit_imp_le_length)

lemma unat_less_bit: "unat (b :: 'a::len word) < 2 ^ n \<Longrightarrow> bit b i \<Longrightarrow> i < n"
proof -
  assume "unat b < 2 ^ n" "bit b i"
  then have "b = take_bit n b"
    by (simp add: word_unat_eq_iff unsigned_take_bit_eq take_bit_nat_eq_self)
  then show ?thesis using \<open>bit b i\<close> by (metis bit_take_bit_iff)
qed

section \<open>Ranges of indices\<close>

lemma map_upt_split: "m \<le> n \<Longrightarrow> map f [0..<m] @ map f [m..<n] = map f [0..<n]"
  by (metis le_add_diff_inverse map_append upt_add_eq_append zero_le)

lemma map_upt_shift: "map f [m..<n] = map (\<lambda>i. f (m + i)) [0..<n - m]"
  by (intro nth_equalityI) simp_all

section \<open>Evaluation of lists at literal indices\<close>

lemma list_update_Cons_numeral: "(x # xs)[numeral k := y] = x # xs[pred_numeral k := y]"
  by (simp add: numeral_eq_Suc)

lemma replicate_numeral_Cons: "replicate (numeral k) x = x # replicate (pred_numeral k) x"
  by (simp add: numeral_eq_Suc)

lemmas list_eval = list_update_Cons_numeral replicate_numeral_Cons

end
