(* ===== verification/Adler32.thy ===== *)
theory Adler32
  imports Prelude
begin

text \<open>
  The Adler-32 checksum, \<open>src/src/zlib/adler32.c\<close>, in the build the project makes
  (\<open>NO_DIVIDE\<close> undefined, so \<open>MOD\<close>, \<open>MOD28\<close> and \<open>MOD63\<close> are all \<open>%= BASE\<close>).
  \<open>uLong\<close> is kept at 32 bits, its width on x86 and on 64-bit Windows: the block length
  \<open>NMAX\<close> is the largest one for which the deferred sums fit in 32 bits, so the bound is part
  of what is proved.  A C buffer with its length is a byte list; \<open>Z_NULL\<close> is \<open>None\<close>.
\<close>

definition BASE :: u32 where
  "BASE = 65521"

definition NMAX :: nat where
  "NMAX = 5552"

text \<open>The two running sums \<open>adler\<close> and \<open>sum2\<close>.\<close>

type_synonym sums = "u32 \<times> u32"

fun DO1 :: "sums \<Rightarrow> u8 \<Rightarrow> sums" where
  "DO1 (adler, sum2) b = (let adler = adler + ucast b in (adler, sum2 + adler))"

definition DO16 :: "sums \<Rightarrow> u8 list \<Rightarrow> sums" where
  "DO16 st buf = foldl DO1 st (take 16 buf)"

text \<open>\<open>do { DO16(buf); buf += 16; } while (--n);\<close> started with a positive \<open>n\<close>.\<close>

fun do16_loop :: "nat \<Rightarrow> sums \<Rightarrow> u8 list \<Rightarrow> sums \<times> u8 list" where
  "do16_loop 0 st buf = (st, buf)"
| "do16_loop (Suc n) st buf = do16_loop n (DO16 st buf) (drop 16 buf)"

fun MOD_sums :: "sums \<Rightarrow> sums" where
  "MOD_sums (adler, sum2) = (adler mod BASE, sum2 mod BASE)"

text \<open>\<open>while (len >= NMAX)\<close>: whole blocks, one modulo each.\<close>

lemma do16_loop_snd: "snd (do16_loop n st buf) = drop (16 * n) buf"
  by (induction n arbitrary: st buf) (auto simp: add.commute)

lemma do16_loop_length: "do16_loop n st buf = (st', buf') \<Longrightarrow> length buf' = length buf - 16 * n"
  using do16_loop_snd [of n st buf] by simp

lemma do16_loop_length': "(st', buf') = do16_loop n st buf \<Longrightarrow> length buf' = length buf - 16 * n"
  by (metis do16_loop_length)

function nmax_loop :: "sums \<Rightarrow> u8 list \<Rightarrow> sums \<times> u8 list" where
  "nmax_loop st buf =
     (if NMAX \<le> length buf
      then (case do16_loop (NMAX div 16) st buf of (st, buf) \<Rightarrow> nmax_loop (MOD_sums st) buf)
      else (st, buf))"
  by pat_completeness auto
termination
  by (relation "measure (\<lambda>(st, buf). length buf)")
     (auto simp: NMAX_def dest: do16_loop_length')

declare nmax_loop.simps [simp del]

text \<open>\<open>while (len >= 16)\<close> of the remainder.\<close>

function sixteens_loop :: "sums \<Rightarrow> u8 list \<Rightarrow> sums \<times> u8 list" where
  "sixteens_loop st buf =
     (if 16 \<le> length buf then sixteens_loop (DO16 st buf) (drop 16 buf) else (st, buf))"
  by pat_completeness auto
termination
  by (relation "measure (\<lambda>(st, buf). length buf)") auto

declare sixteens_loop.simps [simp del]

text \<open>The recombination \<open>adler | (sum2 << 16)\<close>.\<close>

fun adler_pack :: "sums \<Rightarrow> u32" where
  "adler_pack (adler, sum2) = adler OR push_bit 16 sum2"

declare adler_pack.simps [simp del]

text \<open>The three bodies of \<open>adler32_z\<close>: one byte, fewer than 16 bytes, and the blocks.\<close>

fun adler32_one :: "sums \<Rightarrow> u8 \<Rightarrow> u32" where
  "adler32_one (adler, sum2) b =
     (let adler = adler + ucast b;
          adler = (if BASE \<le> adler then adler - BASE else adler);
          sum2 = sum2 + adler;
          sum2 = (if BASE \<le> sum2 then sum2 - BASE else sum2)
      in adler_pack (adler, sum2))"

definition adler32_short :: "sums \<Rightarrow> u8 list \<Rightarrow> u32" where
  "adler32_short st buf =
     (case foldl DO1 st buf of (adler, sum2) \<Rightarrow>
        adler_pack (if BASE \<le> adler then adler - BASE else adler, sum2 mod BASE))"

definition adler32_blocks :: "sums \<Rightarrow> u8 list \<Rightarrow> u32" where
  "adler32_blocks st buf =
     (case nmax_loop st buf of (st, buf) \<Rightarrow>
        (if buf = [] then adler_pack st
         else (case sixteens_loop st buf of (st, buf) \<Rightarrow>
                 adler_pack (MOD_sums (foldl DO1 st buf)))))"

definition adler32_z :: "u32 \<Rightarrow> u8 list option \<Rightarrow> u32" where
  "adler32_z adler buf =
     (let sum2 = drop_bit 16 adler AND 0xffff;
          adler = adler AND 0xffff
      in case buf of
           None \<Rightarrow> 1
         | Some buf \<Rightarrow>
             if length buf = 1 then adler32_one (adler, sum2) (buf ! 0)
             else if length buf < 16 then adler32_short (adler, sum2) buf
             else adler32_blocks (adler, sum2) buf)"

definition adler32 :: "u32 \<Rightarrow> u8 list option \<Rightarrow> u32" where
  "adler32 adler buf = adler32_z adler buf"

definition adler32_combine_local :: "u32 \<Rightarrow> u32 \<Rightarrow> int \<Rightarrow> u32" where
  "adler32_combine_local adler1 adler2 len2 =
     (if len2 < 0 then 0xffffffff
      else (let len2 = len2 mod 65521;
                rem = (word_of_int len2 :: u32);
                sum1 = adler1 AND 0xffff;
                sum2 = rem * sum1;
                sum2 = sum2 mod BASE;
                sum1 = sum1 + ((adler2 AND 0xffff) + BASE - 1);
                sum2 = sum2 + ((drop_bit 16 adler1 AND 0xffff)
                        + (drop_bit 16 adler2 AND 0xffff) + BASE - rem);
                sum1 = (if BASE \<le> sum1 then sum1 - BASE else sum1);
                sum1 = (if BASE \<le> sum1 then sum1 - BASE else sum1);
                sum2 = (if push_bit 1 BASE \<le> sum2 then sum2 - push_bit 1 BASE else sum2);
                sum2 = (if BASE \<le> sum2 then sum2 - BASE else sum2)
            in adler_pack (sum1, sum2)))"

definition adler32_combine :: "u32 \<Rightarrow> u32 \<Rightarrow> int \<Rightarrow> u32" where
  "adler32_combine adler1 adler2 len2 = adler32_combine_local adler1 adler2 len2"

definition adler32_combine64 :: "u32 \<Rightarrow> u32 \<Rightarrow> int \<Rightarrow> u32" where
  "adler32_combine64 adler1 adler2 len2 = adler32_combine_local adler1 adler2 len2"

section \<open>The specification: sums modulo 65521 over unbounded numbers\<close>

text \<open>
  RFC 1950: the low half is the sum of the bytes, the high half the sum of the successive
  values of the low half, both modulo 65521, with no deferral and no machine width.
\<close>

fun adler_spec :: "nat \<times> nat \<Rightarrow> u8 list \<Rightarrow> nat \<times> nat" where
  "adler_spec (a, b) [] = (a, b)"
| "adler_spec (a, b) (x # xs) =
     (let a = (a + unat x) mod 65521 in adler_spec (a, (b + a) mod 65521) xs)"

definition adler_halves :: "u32 \<Rightarrow> nat \<times> nat" where
  "adler_halves w = (unat w mod 65536, unat w div 65536)"

definition adler_valid :: "u32 \<Rightarrow> bool" where
  "adler_valid w \<longleftrightarrow> fst (adler_halves w) < 65521 \<and> snd (adler_halves w) < 65521"

definition adler_join :: "nat \<times> nat \<Rightarrow> u32" where
  "adler_join p = word_of_nat (fst p + 65536 * snd p)"


section \<open>The deferred sums do not overflow within a block\<close>

text \<open>The same sums over natural numbers, without the modulo.\<close>

fun nat_sums :: "nat \<times> nat \<Rightarrow> u8 list \<Rightarrow> nat \<times> nat" where
  "nat_sums (a, b) [] = (a, b)"
| "nat_sums (a, b) (x # xs) = nat_sums (a + unat x, b + (a + unat x)) xs"

fun unat_sums :: "sums \<Rightarrow> nat \<times> nat" where
  "unat_sums (adler, sum2) = (unat adler, unat sum2)"

fun mod_pair :: "nat \<times> nat \<Rightarrow> nat \<times> nat" where
  "mod_pair (a, b) = (a mod 65521, b mod 65521)"

definition sums_fit :: "nat \<times> nat \<Rightarrow> nat \<Rightarrow> bool" where
  "sums_fit p n \<longleftrightarrow>
     fst p + 255 * n < 2 ^ 32 \<and> 2 * snd p + 2 * n * fst p + 255 * (n * (n + 1)) < 2 ^ 33"

lemma sums_fit_step:
  assumes "sums_fit (a, b) (Suc n)" and "x \<le> 255"
  shows "sums_fit (a + x, b + (a + x)) n"
proof -
  have nx: "n * x \<le> 255 * n" using assms(2) by simp
  have e1: "2 * (b + (a + x)) + 2 * n * (a + x) + 255 * (n * (n + 1))
      = (2 * b + 2 * a + 2 * (n * a) + 255 * (n * n) + 255 * n) + 2 * (x + n * x)"
    by (simp add: algebra_simps)
  have e2: "2 * b + 2 * Suc n * a + 255 * (Suc n * (Suc n + 1))
      = (2 * b + 2 * a + 2 * (n * a) + 255 * (n * n) + 255 * n) + 2 * (255 + 255 * n)"
    by (simp add: algebra_simps)
  have "x + n * x \<le> 255 + 255 * n" using nx assms(2) by (rule add_mono [rotated])
  then have "2 * (b + (a + x)) + 2 * n * (a + x) + 255 * (n * (n + 1))
      \<le> 2 * b + 2 * Suc n * a + 255 * (Suc n * (Suc n + 1))"
    unfolding e1 e2 by simp
  moreover have "a + x + 255 * n \<le> a + 255 * Suc n" using assms(2) by simp
  ultimately show ?thesis using assms(1) by (simp only: sums_fit_def fst_conv snd_conv) (meson le_less_trans)
qed

lemma DO1_unat:
  assumes "sums_fit (unat a, unat b) (Suc n)"
  shows "unat_sums (DO1 (a, b) x) = (unat a + unat x, unat b + (unat a + unat x))"
proof -
  have "unat a + 255 * Suc n < 2 ^ 32"
    using assms unfolding sums_fit_def fst_conv by (rule conjunct1)
  then have "unat a + unat x < 2 ^ 32"
    using unat_u8_le [of x] by auto
  then have 1: "unat (a + ucast x) = unat a + unat x"
    by (subst unat_add_less) auto
  have "unat b + (unat a + unat x) < 2 ^ 32"
    using assms unat_u8_le [of x] unfolding sums_fit_def by (auto simp: algebra_simps)
  then have "unat (b + (a + ucast x)) = unat b + (unat a + unat x)"
    by (subst unat_add_less) (auto simp: 1)
  with 1 show ?thesis by (simp add: Let_def)
qed

lemma foldl_DO1_unat:
  "sums_fit (unat_sums st) (length xs) \<Longrightarrow> unat_sums (foldl DO1 st xs) = nat_sums (unat_sums st) xs"
proof (induction xs arbitrary: st)
  case Nil
  then show ?case by (cases st) simp
next
  case (Cons x xs)
  obtain a b where st: "st = (a, b)" by (cases st)
  have step: "unat_sums (DO1 st x) = (unat a + unat x, unat b + (unat a + unat x))"
    using Cons.prems by (simp add: st DO1_unat del: DO1.simps)
  have "sums_fit (unat_sums (DO1 st x)) (length xs)"
    unfolding step using Cons.prems by (intro sums_fit_step) (simp_all add: st unat_u8_le)
  from Cons.IH [OF this] have
    "unat_sums (foldl DO1 (DO1 st x) xs) = nat_sums (unat_sums (DO1 st x)) xs" .
  then show ?case unfolding step by (simp add: st del: DO1.simps)
qed

lemma adler_spec_nat_sums:
  "adler_spec (mod_pair p) xs = mod_pair (nat_sums p xs)"
proof (induction xs arbitrary: p)
  case Nil
  then show ?case by (cases p) simp
next
  case (Cons x xs)
  obtain a b where p: "p = (a, b)" by (cases p)
  have "adler_spec (mod_pair p) (x # xs) = adler_spec (mod_pair (a + unat x, b + (a + unat x))) xs"
    by (simp add: p Let_def mod_simps)
  then show ?case by (simp only: Cons.IH) (simp add: p)
qed

lemma adler_spec_append: "adler_spec p (xs @ ys) = adler_spec (adler_spec p xs) ys"
  by (induction p xs rule: adler_spec.induct) (auto simp: Let_def)

lemma adler_spec_bounded:
  "fst p < 65521 \<and> snd p < 65521 \<Longrightarrow>
   fst (adler_spec p xs) < 65521 \<and> snd (adler_spec p xs) < 65521"
  by (induction p xs rule: adler_spec.induct) (auto simp: Let_def)

section \<open>The unrolled loops are the byte loop\<close>

lemma do16_loop_fst: "fst (do16_loop n st buf) = foldl DO1 st (take (16 * n) buf)"
proof (induction n arbitrary: st buf)
  case (Suc n)
  have "take (16 * Suc n) buf = take 16 buf @ take (16 * n) (drop 16 buf)"
    by (metis add.commute mult_Suc_right take_add)
  then show ?case by (simp add: Suc DO16_def)
qed simp

lemma sixteens_loop_foldl:
  "sixteens_loop st buf = (st', buf') \<Longrightarrow> foldl DO1 st' buf' = foldl DO1 st buf"
proof (induction st buf rule: sixteens_loop.induct)
  case (1 st buf)
  show ?case
  proof (cases "16 \<le> length buf")
    case True
    have "foldl DO1 st' buf' = foldl DO1 (DO16 st buf) (drop 16 buf)"
      using 1 True by (simp add: sixteens_loop.simps [of st buf])
    then show ?thesis
      by (metis DO16_def append_take_drop_id foldl_append)
  next
    case False
    then show ?thesis using 1 by (simp add: sixteens_loop.simps [of st buf])
  qed
qed

lemma MOD_sums_unat: "unat_sums (MOD_sums st) = mod_pair (unat_sums st)"
  by (cases st) (simp add: BASE_def unat_mod)

lemma sums_fit_NMAX:
  assumes "fst p < 65521" and "snd p < 65521" and "n \<le> 5552"
  shows "sums_fit p n"
proof -
  have "n * fst p \<le> 5552 * 65520" using assms by (intro mult_mono) auto
  moreover have "n * (n + 1) \<le> 5552 * 5553" using assms by (intro mult_mono) auto
  ultimately show ?thesis using assms by (simp add: sums_fit_def)
qed

lemma nmax_loop_spec:
  assumes "nmax_loop st buf = (st', buf')"
    and "fst (unat_sums st) < 65521" and "snd (unat_sums st) < 65521"
  shows "adler_spec (unat_sums st') buf' = adler_spec (unat_sums st) buf
    \<and> fst (unat_sums st') < 65521 \<and> snd (unat_sums st') < 65521 \<and> length buf' < NMAX"
  using assms
proof (induction st buf rule: nmax_loop.induct)
  case (1 st buf)
  show ?case
  proof (cases "NMAX \<le> length buf")
    case True
    define st1 where "st1 = foldl DO1 st (take NMAX buf)"
    have loop: "do16_loop (NMAX div 16) st buf = (st1, drop NMAX buf)"
      using do16_loop_fst [of "NMAX div 16" st buf] do16_loop_snd [of "NMAX div 16" st buf]
      by (simp add: st1_def NMAX_def prod_eq_iff)
    have st1: "unat_sums st1 = nat_sums (unat_sums st) (take NMAX buf)"
      unfolding st1_def using 1(3,4) True
      by (intro foldl_DO1_unat sums_fit_NMAX) (auto simp: NMAX_def)
    have self: "mod_pair (unat_sums st) = unat_sums st"
      using 1(3,4) by (cases "unat_sums st") simp
    have block: "unat_sums (MOD_sums st1) = adler_spec (unat_sums st) (take NMAX buf)"
      by (metis MOD_sums_unat adler_spec_nat_sums self st1)
    have "nmax_loop (MOD_sums st1) (drop NMAX buf) = (st', buf')"
      using 1(2) True by (simp add: nmax_loop.simps [of st buf] loop)
    moreover have "fst (unat_sums (MOD_sums st1)) < 65521 \<and> snd (unat_sums (MOD_sums st1)) < 65521"
      unfolding block using 1(3,4) by (intro adler_spec_bounded) simp
    ultimately have
      "adler_spec (unat_sums st') buf' = adler_spec (unat_sums (MOD_sums st1)) (drop NMAX buf)
       \<and> fst (unat_sums st') < 65521 \<and> snd (unat_sums st') < 65521 \<and> length buf' < NMAX"
      using 1(1) [OF True loop [symmetric]] by simp
    moreover have "adler_spec (unat_sums (MOD_sums st1)) (drop NMAX buf) = adler_spec (unat_sums st) buf"
      unfolding block by (metis adler_spec_append append_take_drop_id)
    ultimately show ?thesis by simp
  next
    case False
    then show ?thesis using 1 by (auto simp: nmax_loop.simps [of st buf])
  qed
qed

section \<open>Packing the halves\<close>

lemma adler_pack_join:
  assumes "unat a < 65536" and "unat b < 65536"
  shows "adler_pack (a, b) = adler_join (unat a, unat b)"
proof -
  have "a = take_bit 16 a"
    using assms(1) by (simp add: word_unat_eq_iff unsigned_take_bit_eq take_bit_nat_eq_self)
  then have "a AND push_bit 16 b = 0"
    by (metis (no_types, opaque_lifting) and.commute and_zero_eq take_bit_and take_bit_push_bit
        bit.conj_zero_left diff_self_eq_0 order.refl push_bit_0_id take_bit_0 take_bit_eq_mask and.assoc)
  then have "adler_pack (a, b) = a + push_bit 16 b"
    by (simp add: adler_pack.simps disjunctive_add_eq_or)
  also have "\<dots> = adler_join (unat a, unat b)"
    by (simp add: adler_join_def push_bit_eq_mult)
  finally show ?thesis .
qed

lemma adler_halves_words:
  "unat (w AND 0xffff :: u32) = fst (adler_halves w)"
  "unat (drop_bit 16 w AND 0xffff :: u32) = snd (adler_halves w)"
proof -
  have m: "(0xffff :: u32) = mask 16" by (simp add: mask_eq_exp_minus_1)
  show "unat (w AND 0xffff :: u32) = fst (adler_halves w)"
    unfolding m unat_and_mask by (simp add: adler_halves_def)
  have "unat w < 2 ^ LENGTH(32)" by (rule unsigned_less)
  then have "unat w div 65536 < 65536" by simp
  then show "unat (drop_bit 16 w AND 0xffff :: u32) = snd (adler_halves w)"
    unfolding m unat_and_mask by (simp add: adler_halves_def Prelude.unat_drop_bit)
qed

lemma adler_halves_join:
  assumes "a < 65536" and "b < 65536"
  shows "adler_halves (adler_join (a, b)) = (a, b)"
proof -
  have "unat (adler_join (a, b)) = a + 65536 * b"
    using assms unfolding adler_join_def
    by (simp only: unat_of_nat fst_conv snd_conv) (simp add: take_bit_nat_eq_self)
  then show ?thesis using assms by (simp add: adler_halves_def)
qed


section \<open>The checksum is the specified one\<close>

lemma adler_validD:
  assumes "adler_valid w"
  shows "unat (w AND 0xffff) < 65521" and "unat (drop_bit 16 w AND 0xffff) < 65521"
  using assms by (simp_all only: adler_valid_def adler_halves_words(1) [of w] adler_halves_words(2) [of w])

lemma unat_sums_halves:
  "unat_sums (w AND 0xffff, drop_bit 16 w AND 0xffff) = adler_halves w"
  by (simp only: unat_sums.simps adler_halves_words(1) [of w] adler_halves_words(2) [of w]) simp

lemma adler_pack_sums:
  assumes "unat_sums st = p" and "fst p < 65521" and "snd p < 65521"
  shows "adler_pack st = adler_join p"
proof -
  obtain a b where st: "st = (a, b)" by (cases st)
  with assms have p: "p = (unat a, unat b)" by simp
  with assms have "unat a < 65536" and "unat b < 65536" by simp_all
  then show ?thesis unfolding st p by (rule adler_pack_join)
qed

lemma adler32_one_spec:
  assumes "fst (unat_sums st) < 65521" and "snd (unat_sums st) < 65521"
  shows "adler32_one st x = adler_join (adler_spec (unat_sums st) [x])"
proof -
  obtain adler sum2 where st: "st = (adler, sum2)" by (cases st)
  with assms have lt: "unat adler < 65521" "unat sum2 < 65521" by simp_all
  define s where "s = (unat adler + unat x) mod 65521"
  have s: "s < 65521" by (simp add: s_def)
  define a where "a = (if BASE \<le> adler + ucast x then adler + ucast x - BASE else adler + ucast x)"
  define b where "b = (if BASE \<le> sum2 + a then sum2 + a - BASE else sum2 + a)"
  have "unat (adler + ucast x) = unat adler + unat x"
    using lt unat_u8_le [of x] by (subst unat_add_less) auto
  then have a: "unat a = s"
    unfolding a_def unat_cond_sub s_def using lt unat_u8_le [of x] by (simp add: BASE_def mod_if)
  have "unat (sum2 + a) = unat sum2 + s"
    using lt s a by (subst unat_add_less) auto
  then have b: "unat b = (unat sum2 + s) mod 65521"
    unfolding b_def unat_cond_sub using lt s by (simp add: BASE_def mod_if)
  have "adler32_one st x = adler_pack (a, b)"
    by (simp only: st adler32_one.simps Let_def a_def b_def)
  also have "\<dots> = adler_join (s, (unat sum2 + s) mod 65521)"
    using s by (intro adler_pack_sums) (simp_all add: a b)
  also have "\<dots> = adler_join (adler_spec (unat_sums st) [x])"
    by (simp add: st Let_def s_def)
  finally show ?thesis .
qed

lemma adler_spec_self:
  assumes "fst p < 65521" and "snd p < 65521"
  shows "adler_spec p xs = mod_pair (nat_sums p xs)"
proof -
  have "mod_pair p = p" using assms by (cases p) simp
  then show ?thesis using adler_spec_nat_sums [of p xs] by simp
qed

lemma nat_sums_fst: "fst (nat_sums p xs) \<le> fst p + 255 * length xs"
proof (induction p xs rule: nat_sums.induct)
  case (2 a b x xs)
  then show ?case using unat_u8_le [of x] by simp
qed simp

lemma adler32_short_spec:
  assumes "fst (unat_sums st) < 65521" and "snd (unat_sums st) < 65521" and "length buf < 16"
  shows "adler32_short st buf = adler_join (adler_spec (unat_sums st) buf)"
proof -
  obtain a b where f: "foldl DO1 st buf = (a, b)" by fastforce
  have "sums_fit (unat_sums st) (length buf)"
    using assms by (intro sums_fit_NMAX) auto
  from foldl_DO1_unat [OF this] have n: "nat_sums (unat_sums st) buf = (unat a, unat b)"
    by (simp add: f)
  then have "unat a < 65521 + 65521"
    using nat_sums_fst [of "unat_sums st" buf] assms by simp
  then have "unat (if BASE \<le> a then a - BASE else a) = unat a mod 65521"
    unfolding unat_cond_sub by (simp add: BASE_def mod_if)
  then have "adler32_short st buf = adler_join (mod_pair (unat a, unat b))"
    unfolding adler32_short_def f prod.case
    by (intro adler_pack_sums) (simp_all add: BASE_def unat_mod)
  then show ?thesis
    using assms by (simp only: adler_spec_self n)
qed

lemma adler32_blocks_spec:
  assumes "fst (unat_sums st) < 65521" and "snd (unat_sums st) < 65521"
  shows "adler32_blocks st buf = adler_join (adler_spec (unat_sums st) buf)"
proof -
  obtain st1 buf1 where l1: "nmax_loop st buf = (st1, buf1)" by fastforce
  from nmax_loop_spec [OF l1 assms] have
    s1: "adler_spec (unat_sums st) buf = adler_spec (unat_sums st1) buf1"
    and b1: "fst (unat_sums st1) < 65521" "snd (unat_sums st1) < 65521" and "length buf1 < NMAX"
    by simp_all
  show ?thesis
  proof (cases "buf1 = []")
    case True
    then have "adler_spec (unat_sums st1) buf1 = unat_sums st1" by (cases st1) simp
    then show ?thesis
      unfolding s1 adler32_blocks_def l1 using True b1 by (simp add: adler_pack_sums)
  next
    case False
    obtain st2 buf2 where l2: "sixteens_loop st1 buf1 = (st2, buf2)" by fastforce
    have "sums_fit (unat_sums st1) (length buf1)"
      using b1 \<open>length buf1 < NMAX\<close> by (intro sums_fit_NMAX) (auto simp: NMAX_def)
    from foldl_DO1_unat [OF this] have
      "unat_sums (MOD_sums (foldl DO1 st2 buf2)) = adler_spec (unat_sums st1) buf1"
      using b1 by (simp add: MOD_sums_unat sixteens_loop_foldl [OF l2] adler_spec_self)
    then have "adler_pack (MOD_sums (foldl DO1 st2 buf2)) = adler_join (adler_spec (unat_sums st1) buf1)"
      using b1 by (intro adler_pack_sums) (simp_all add: adler_spec_bounded)
    then show ?thesis
      unfolding s1 adler32_blocks_def l1 using False by (simp add: l2)
  qed
qed

lemma adler32_z_Some:
  assumes "adler_valid w"
  shows "adler32_z w (Some buf) = adler_join (adler_spec (adler_halves w) buf)"
proof -
  note halves = unat_sums_halves [of w]
  have lt: "fst (adler_halves w) < 65521" "snd (adler_halves w) < 65521"
    using assms by (simp_all add: adler_valid_def)
  have "buf = [buf ! 0]" if "length buf = 1"
    using that by (auto simp: length_Suc_conv)
  then have "length buf = 1 \<Longrightarrow> adler32_one (w AND 0xffff, drop_bit 16 w AND 0xffff) (buf ! 0)
      = adler_join (adler_spec (adler_halves w) buf)"
    using lt by (metis adler32_one_spec halves)
  then show ?thesis
    using lt by (simp add: adler32_z_def Let_def adler32_short_spec adler32_blocks_spec halves
      del: adler32_one.simps unat_sums.simps)
qed

lemma adler_halves_adler32_z:
  assumes "adler_valid w"
  shows "adler_halves (adler32_z w (Some buf)) = adler_spec (adler_halves w) buf"
proof -
  obtain a b where ab: "adler_spec (adler_halves w) buf = (a, b)" by fastforce
  then have "a < 65521" "b < 65521"
    using adler_spec_bounded [of "adler_halves w" buf] assms by (simp_all add: adler_valid_def)
  then show ?thesis by (simp add: adler32_z_Some assms ab adler_halves_join)
qed

lemma adler_valid_adler32_z:
  assumes "adler_valid w"
  shows "adler_valid (adler32_z w (Some buf))"
  using adler_spec_bounded [of "adler_halves w" buf] assms
  unfolding adler_valid_def adler_halves_adler32_z [OF assms] by simp

section \<open>Combining the checksums of two pieces\<close>

lemma nat_sums_closed:
  "nat_sums (a, b) ys
     = (a + fst (nat_sums (0, 0) ys), b + length ys * a + snd (nat_sums (0, 0) ys))"
proof (induction ys arbitrary: a b)
  case (Cons y ys)
  show ?case
    using Cons [of "a + unat y" "b + (a + unat y)"] Cons [of "unat y" "unat y"]
    by (simp add: algebra_simps)
qed simp

lemma adler_spec_closed:
  assumes "a < 65521" and "b < 65521"
  shows "adler_spec (a, b) ys = ((a + fst (nat_sums (0, 0) ys)) mod 65521,
    (b + length ys * a + snd (nat_sums (0, 0) ys)) mod 65521)"
  using assms adler_spec_self [of "(a, b)" ys] nat_sums_closed [of a b ys] by simp

lemma unat_BASE [simp]: "unat BASE = 65521"
  by (simp add: BASE_def)

text \<open>The low half of \<open>adler32_combine_\<close>.\<close>

lemma combine_sum1:
  assumes "unat s1 < 65521" and "unat s2 < 65521"
  defines "x \<equiv> s1 + (s2 + BASE - 1)"
  defines "y \<equiv> (if BASE \<le> x then x - BASE else x)"
  shows "unat (if BASE \<le> y then y - BASE else y) = (unat s1 + (unat s2 + 65520)) mod 65521"
proof -
  have "unat (s2 + 65520) = unat s2 + 65520"
    using assms(2) by (subst unat_add_less) auto
  then have "unat x = unat s1 + (unat s2 + 65520)"
    using assms(1,2) unfolding x_def BASE_def by (simp add: unat_add_less)
  with assms(1,2) have x: "unat x = unat s1 + (unat s2 + 65520)" "unat x < 131042 + 65521"
    by simp_all
  have "unat y < 131042" and "unat y mod 65521 = unat x mod 65521"
    unfolding y_def by (rule cond_sub_loose [OF unat_BASE x(2)], simp)+
  then show ?thesis by (simp add: cond_sub_mod x(1))
qed

text \<open>The high half.\<close>

lemma combine_sum2:
  assumes "unat s1 < 65521" and "unat t1 < 65521" and "unat t2 < 65521" and "unat r < 65521"
  defines "x \<equiv> r * s1 mod BASE + (t1 + t2 + BASE - r)"
  defines "y \<equiv> (if push_bit 1 BASE \<le> x then x - push_bit 1 BASE else x)"
  shows "unat (if BASE \<le> y then y - BASE else y)
    = (unat r * unat s1 + (unat t1 + unat t2 + (65521 - unat r))) mod 65521"
proof -
  have "unat r * unat s1 \<le> 65520 * 65520"
    using assms(1,4) by (intro mult_le_mono) auto
  then have "unat (r * s1) = unat r * unat s1"
    by (simp add: unat_word_ariths)
  then have p: "unat (r * s1 mod BASE) = unat r * unat s1 mod 65521"
    by (simp add: unat_mod BASE_def)
  have "unat (t1 + t2) = unat t1 + unat t2"
    using assms(2,3) by (subst unat_add_less) auto
  then have q0: "unat (t1 + t2 + BASE) = unat t1 + unat t2 + 65521"
    using assms(2,3) by (subst unat_add_less) (auto simp: BASE_def)
  then have q: "unat (t1 + t2 + BASE - r) = unat t1 + unat t2 + (65521 - unat r)"
    using assms(4) by (subst unat_sub_le) auto
  have lt: "unat r * unat s1 mod 65521 < 65521" by simp
  have x: "unat x = unat r * unat s1 mod 65521 + (unat t1 + unat t2 + (65521 - unat r))"
    unfolding x_def using assms(2,3) lt by (subst unat_add_less) (simp_all add: p q)
  have "unat (push_bit 1 BASE) = 2 * 65521"
    by (simp add: BASE_def)
  moreover have "unat x < 2 * (2 * 65521)"
    using x lt assms(2,3) by linarith
  ultimately have "unat y < 2 * 65521" and "unat y mod 65521 = unat x mod 65521"
    unfolding y_def by (rule cond_sub_step)+
  then have "unat (if BASE \<le> y then y - BASE else y) = unat x mod 65521"
    by (simp add: cond_sub_mod)
  then show ?thesis by (simp add: x mod_simps)
qed

lemma combine_arith:
  fixes n r m t b :: nat
  assumes "r = n mod m" and "0 < m"
  shows "(r * a + (b + (n + t) mod m + (m - r))) mod m = (b + n * a + t) mod m"
proof -
  have "r < m" using assms by simp
  have n: "n + (m - r) = m * (n div m) + m"
    using assms \<open>r < m\<close> by (metis Nat.add_diff_assoc2 add.assoc add.commute add_diff_cancel_right'
        less_imp_le mult_div_mod_eq)
  have "(r * a + (b + (n + t) mod m + (m - r))) mod m = (n * a + (b + (n + t) + (m - r))) mod m"
    unfolding assms(1) by (metis (no_types, lifting) mod_add_cong mod_add_left_eq mod_add_right_eq
        mod_mult_left_eq)
  also have "n * a + (b + (n + t) + (m - r)) = (b + n * a + t) + m * (n div m + 1)"
    using n by (simp add: algebra_simps)
  also have "\<dots> mod m = (b + n * a + t) mod m" by (rule mod_mult_self2)
  finally show ?thesis .
qed

lemma adler_one: "adler_valid 1" "adler_halves 1 = (1, 0)"
  by (simp_all add: adler_valid_def adler_halves_def)

lemma adler32_combine_spec:
  assumes "adler_valid a1"
  shows "adler32_combine_local a1 (adler32_z 1 (Some ys)) (int (length ys))
    = adler_join (adler_spec (adler_halves a1) ys)"
proof -
  obtain A1 B1 where h1: "adler_halves a1 = (A1, B1)" by fastforce
  obtain S T where st: "nat_sums (0, 0) ys = (S, T)" by fastforce
  define a2 where "a2 = adler32_z 1 (Some ys)"
  define r where "r = (word_of_int (int (length ys) mod 65521) :: u32)"
  have lt1: "A1 < 65521" "B1 < 65521" using assms h1 by (simp_all add: adler_valid_def)
  have v2: "adler_valid a2" unfolding a2_def by (simp add: adler_valid_adler32_z adler_one)
  have h2: "adler_halves a2 = ((1 + S) mod 65521, (length ys + T) mod 65521)"
    unfolding a2_def using adler_spec_closed [of 1 0 ys]
    by (simp add: adler_halves_adler32_z adler_one st)
  note s1 = adler_halves_words [of a1, unfolded h1, simplified]
  note s2 = adler_halves_words [of a2, unfolded h2, simplified]
  have r: "unat r = length ys mod 65521"
  proof -
    have "int (length ys) mod 65521 = int (length ys mod 65521)" by (simp add: zmod_int)
    moreover have "length ys mod 65521 < 65521" by simp
    ultimately show ?thesis
      unfolding r_def by (simp only: of_int_of_nat_eq unat_of_nat) (simp add: take_bit_nat_eq_self)
  qed
  have c1: "unat (a1 AND 0xffff) < 65521" "unat (a2 AND 0xffff) < 65521"
    "unat (drop_bit 16 a1 AND 0xffff) < 65521" "unat (drop_bit 16 a2 AND 0xffff) < 65521"
    "unat r < 65521"
    using adler_validD [OF assms] adler_validD [OF v2] r by simp_all
  let ?s1 = "a1 AND 0xffff" and ?t1 = "drop_bit 16 a1 AND 0xffff"
  let ?s2 = "a2 AND 0xffff" and ?t2 = "drop_bit 16 a2 AND 0xffff"
  let ?x = "?s1 + (?s2 + BASE - 1)" and ?y = "r * ?s1 mod BASE + (?t1 + ?t2 + BASE - r)"
  define x where "x = (if BASE \<le> ?x then ?x - BASE else ?x)"
  define x' where "x' = (if BASE \<le> x then x - BASE else x)"
  define y where "y = (if push_bit 1 BASE \<le> ?y then ?y - push_bit 1 BASE else ?y)"
  define y' where "y' = (if BASE \<le> y then y - BASE else y)"
  have "unat x' = (A1 + ((1 + S) mod 65521 + 65520)) mod 65521"
    unfolding x'_def x_def combine_sum1 [OF c1(1,2)] by (simp add: s1 s2)
  also have "\<dots> = (A1 + (1 + S + 65520)) mod 65521"
    by (rule mod_add_inner)
  also have "A1 + (1 + S + 65520) = A1 + S + 65521" by simp
  finally have x': "unat x' = (A1 + S) mod 65521" by (simp only: mod_add_self2)
  have y': "unat y' = (B1 + length ys * A1 + T) mod 65521"
    unfolding y'_def y_def combine_sum2 [OF c1(1,3,4,5)] s1 s2 r
    by (rule combine_arith) simp_all
  have "adler32_combine_local a1 a2 (int (length ys)) = adler_pack (x', y')"
    unfolding adler32_combine_local_def Let_def r_def [symmetric] x'_def x_def y'_def y_def
    by simp
  also have "\<dots> = adler_join (adler_spec (A1, B1) ys)"
    by (rule adler_pack_sums) (simp_all add: adler_spec_closed lt1 st x' y')
  finally show ?thesis by (simp add: a2_def h1)
qed

lemma adler32_z_append:
  assumes "adler_valid w"
  shows "adler32_z (adler32_z w (Some xs)) (Some ys) = adler32_z w (Some (xs @ ys))"
proof -
  have "adler32_z (adler32_z w (Some xs)) (Some ys)
      = adler_join (adler_spec (adler_halves (adler32_z w (Some xs))) ys)"
    using assms by (intro adler32_z_Some adler_valid_adler32_z)
  also have "\<dots> = adler32_z w (Some (xs @ ys))"
    unfolding adler_halves_adler32_z [OF assms] adler_spec_append [symmetric]
    by (simp only: adler32_z_Some [OF assms])
  finally show ?thesis .
qed

section \<open>Properties\<close>

text \<open>C8: \<open>adler32\<close> of a buffer is the RFC 1950 checksum: from any valid checksum value, the
  deferred, unrolled 32-bit code returns the two sums modulo 65521 of the specification, packed in
  one word, for buffers of every length (one byte, short, and across any number of \<open>NMAX\<close> blocks).\<close>

theorem adler32_meets_spec:
  assumes "adler_valid adler"
  shows "adler_halves (adler32 adler (Some buf)) = adler_spec (adler_halves adler) buf"
  using assms by (simp add: adler32_def adler_halves_adler32_z)

theorem adler32_meets_spec_witness:
  "adler_valid 1 \<and>
   adler_halves (adler32 1 (Some [87, 105])) = adler_spec (adler_halves 1) [87, 105] \<and>
   adler32 1 (Some [87, 105]) = 0x11900c1"
  using adler32_meets_spec [OF adler_one(1), of "[87, 105]"] adler_one
  by (simp add: adler32_def adler32_z_def adler32_short_def adler_pack.simps BASE_def)

text \<open>Streaming: feeding a buffer in two pieces gives the checksum of the whole buffer, so
  the many calls of \<open>inflate\<close> and \<open>deflate\<close> accumulate the checksum of the stream.\<close>

theorem adler32_append:
  assumes "adler_valid adler"
  shows "adler32 (adler32 adler (Some xs)) (Some ys) = adler32 adler (Some (xs @ ys))"
  using assms by (simp only: adler32_def adler32_z_append)

theorem adler32_append_witness:
  "adler_valid 1 \<and> adler32 (adler32 1 (Some [1, 2])) (Some [3]) = adler32 1 (Some ([1, 2] @ [3]))"
  using adler32_append [OF adler_one(1), of "[1, 2]" "[3]"] adler_one(1) by simp

text \<open>C15: \<open>adler32_combine\<close> is correct: from the checksum of a first piece, the checksum of a second
  piece started afresh (at 1) and the second piece's length, it computes the checksum of the
  concatenation, without reading either piece.\<close>

theorem adler32_combine_correct:
  assumes "adler_valid adler"
  shows "adler32_combine (adler32 adler (Some xs)) (adler32 1 (Some ys)) (int (length ys))
    = adler32 adler (Some (xs @ ys))"
  unfolding adler32_def adler32_combine_def adler32_combine_spec [OF adler_valid_adler32_z [OF assms]]
    adler_halves_adler32_z [OF assms] adler_spec_append [symmetric]
  by (simp only: adler32_z_Some [OF assms])

theorem adler32_combine_correct_witness:
  "adler_valid 1 \<and>
   adler32_combine (adler32 1 (Some [1, 2])) (adler32 1 (Some [3])) (int (length [3 :: u8]))
     = adler32 1 (Some ([1, 2] @ [3]))"
  using adler32_combine_correct [OF adler_one(1), of "[1, 2]" "[3]"] adler_one(1) by simp

end
