(* ===== verification/Crc32.thy ===== *)
theory Crc32
  imports Crc32_Tables
begin

text \<open>
  The CRC-32 routines of \<open>src/src/zlib/crc32.c\<close>: the byte-at-a-time loop, the four-bytes-at-a-time
  loops for little- and big-endian machines (\<open>BYFOUR\<close>, the build in use), and the combination of two
  CRCs by 32x32 matrices over GF(2).  Values are the 32 bits of \<open>z_crc_t\<close>.  A C pointer is an address
  (its low bits decide the alignment loop) and the bytes it points to; the 32-bit read of a
  misaligned-free pointer is \<open>read_le\<close> or \<open>read_be\<close>, the machine's byte order.
\<close>

section \<open>Specification\<close>

text \<open>The shift register of the comment above \<open>make_crc_table\<close>: every byte is added to the low end
  of the register, which is then stepped once per bit.\<close>

definition crc_spec_byte :: "u32 \<Rightarrow> u8 \<Rightarrow> u32" where
  "crc_spec_byte c b = (crc_bit ^^ 8) (c XOR ucast b)"

definition crc_spec :: "u32 \<Rightarrow> u8 list \<Rightarrow> u32" where
  "crc_spec crc buf = NOT (foldl crc_spec_byte (NOT crc) buf)"

section \<open>One byte at a time\<close>

definition crc_DO1 :: "u32 \<Rightarrow> u8 \<Rightarrow> u32" where
  "crc_DO1 crc b = (crc_table ! 0) ! unat ((crc XOR ucast b) AND 0xff) XOR drop_bit 8 crc"

function crc_by8 :: "u32 \<Rightarrow> u8 list \<Rightarrow> u32 \<times> u8 list" where
  "crc_by8 crc buf =
     (if 8 \<le> length buf then crc_by8 (foldl crc_DO1 crc (take 8 buf)) (drop 8 buf) else (crc, buf))"
  by pat_completeness auto
termination
  by (relation "measure (\<lambda>(crc, buf). length buf)") auto

declare crc_by8.simps [simp del]

definition crc32_bytes :: "u32 \<Rightarrow> u8 list \<Rightarrow> u32" where
  "crc32_bytes crc buf =
     (case crc_by8 (crc XOR 0xffffffff) buf of (crc, buf) \<Rightarrow> foldl crc_DO1 crc buf XOR 0xffffffff)"

section \<open>Four bytes at a time, little-endian\<close>

text \<open>\<open>*buf4\<close> on a little-endian machine.\<close>

definition read_le :: "u8 list \<Rightarrow> u32" where
  "read_le b = ucast (b ! 0) OR push_bit 8 (ucast (b ! 1))
     OR push_bit 16 (ucast (b ! 2)) OR push_bit 24 (ucast (b ! 3))"

text \<open>\<open>while (len && ((ptrdiff_t)buf & 3))\<close>, with the byte step of the variant as an argument.\<close>

fun crc_align :: "(u32 \<Rightarrow> u8 \<Rightarrow> u32) \<Rightarrow> nat \<Rightarrow> u32 \<Rightarrow> u8 list \<Rightarrow> u32 \<times> u8 list" where
  "crc_align step addr c [] = (c, [])"
| "crc_align step addr c (b # buf) =
     (if addr mod 4 \<noteq> 0 then crc_align step (addr + 1) (step c b) buf else (c, b # buf))"

definition DOLIT4 :: "u32 \<Rightarrow> u8 list \<Rightarrow> u32" where
  "DOLIT4 c b =
     (let c = c XOR read_le b
      in (crc_table ! 3) ! unat (c AND 0xff) XOR (crc_table ! 2) ! unat (drop_bit 8 c AND 0xff) XOR
         (crc_table ! 1) ! unat (drop_bit 16 c AND 0xff) XOR (crc_table ! 0) ! unat (drop_bit 24 c))"

text \<open>The word loops: \<open>while (len >= 32) DO32\<close>, eight words per turn, then
  \<open>while (len >= 4) DO4\<close>.\<close>

fun crc_words :: "(u32 \<Rightarrow> u8 list \<Rightarrow> u32) \<Rightarrow> nat \<Rightarrow> u32 \<Rightarrow> u8 list \<Rightarrow> u32 \<times> u8 list" where
  "crc_words do4 0 c buf = (c, buf)"
| "crc_words do4 (Suc n) c buf = crc_words do4 n (do4 c (take 4 buf)) (drop 4 buf)"

lemma crc_words_snd: "snd (crc_words do4 n c buf) = drop (4 * n) buf"
  by (induction n arbitrary: c buf) (auto simp: add.commute)

lemma crc_words_length: "(c', buf') = crc_words do4 n c buf \<Longrightarrow> length buf' = length buf - 4 * n"
  using crc_words_snd [of do4 n c buf] by (metis length_drop snd_conv)

function crc_loop :: "(u32 \<Rightarrow> u8 list \<Rightarrow> u32) \<Rightarrow> nat \<Rightarrow> u32 \<Rightarrow> u8 list \<Rightarrow> u32 \<times> u8 list" where
  "crc_loop do4 n c buf =
     (if 0 < n \<and> 4 * n \<le> length buf
      then (case crc_words do4 n c buf of (c, buf) \<Rightarrow> crc_loop do4 n c buf)
      else (c, buf))"
  by pat_completeness auto
termination
  by (relation "measure (\<lambda>(do4, n, c, buf). length buf)")
     (auto dest!: crc_words_length [OF sym] split: prod.splits)

declare crc_loop.simps [simp del]

definition crc32_little :: "nat \<Rightarrow> u32 \<Rightarrow> u8 list \<Rightarrow> u32" where
  "crc32_little addr crc buf =
     (case crc_align crc_DO1 addr (NOT crc) buf of (c, buf) \<Rightarrow>
        (case crc_loop DOLIT4 8 c buf of (c, buf) \<Rightarrow>
           (case crc_loop DOLIT4 1 c buf of (c, buf) \<Rightarrow> NOT (foldl crc_DO1 c buf))))"

section \<open>Four bytes at a time, big-endian\<close>

definition read_be :: "u8 list \<Rightarrow> u32" where
  "read_be b = push_bit 24 (ucast (b ! 0)) OR push_bit 16 (ucast (b ! 1))
     OR push_bit 8 (ucast (b ! 2)) OR ucast (b ! 3)"

definition crc_BIG1 :: "u32 \<Rightarrow> u8 \<Rightarrow> u32" where
  "crc_BIG1 c b = (crc_table ! 4) ! unat (drop_bit 24 c XOR ucast b) XOR push_bit 8 c"

definition DOBIG4 :: "u32 \<Rightarrow> u8 list \<Rightarrow> u32" where
  "DOBIG4 c b =
     (let c = c XOR read_be b
      in (crc_table ! 4) ! unat (c AND 0xff) XOR (crc_table ! 5) ! unat (drop_bit 8 c AND 0xff) XOR
         (crc_table ! 6) ! unat (drop_bit 16 c AND 0xff) XOR (crc_table ! 7) ! unat (drop_bit 24 c))"

definition crc32_big :: "nat \<Rightarrow> u32 \<Rightarrow> u8 list \<Rightarrow> u32" where
  "crc32_big addr crc buf =
     (case crc_align crc_BIG1 addr (NOT (ZSWAP32 crc)) buf of (c, buf) \<Rightarrow>
        (case crc_loop DOBIG4 8 c buf of (c, buf) \<Rightarrow>
           (case crc_loop DOBIG4 1 c buf of (c, buf) \<Rightarrow> ZSWAP32 (NOT (foldl crc_BIG1 c buf)))))"

text \<open>\<open>crc32_z\<close> picks the variant by the byte order; \<open>Z_NULL\<close> gives the initial value.\<close>

definition crc32_z :: "bool \<Rightarrow> nat \<Rightarrow> u32 \<Rightarrow> u8 list option \<Rightarrow> u32" where
  "crc32_z little addr crc buf =
     (case buf of None \<Rightarrow> 0
      | Some buf \<Rightarrow> if little then crc32_little addr crc buf else crc32_big addr crc buf)"

definition crc32 :: "bool \<Rightarrow> nat \<Rightarrow> u32 \<Rightarrow> u8 list option \<Rightarrow> u32" where
  "crc32 little addr crc buf = crc32_z little addr crc buf"

section \<open>Combination\<close>

definition GF2_DIM :: nat where
  "GF2_DIM = 32"

text \<open>\<open>while (vec) { if (vec & 1) sum ^= *mat; vec >>= 1; mat++; }\<close>, with the
  index of \<open>mat\<close>.\<close>

function gf2_times_loop :: "u32 list \<Rightarrow> nat \<Rightarrow> u32 \<Rightarrow> u32 \<Rightarrow> u32" where
  "gf2_times_loop mat i vec acc =
     (if vec \<noteq> 0
      then gf2_times_loop mat (Suc i) (drop_bit 1 vec) (if vec AND 1 \<noteq> 0 then acc XOR mat ! i else acc)
      else acc)"
  by pat_completeness auto
termination
  by (relation "measure (\<lambda>(mat, i, vec, acc). unat vec)")
     (auto simp: Prelude.unat_drop_bit unat_gt_0)

declare gf2_times_loop.simps [simp del]

definition gf2_matrix_times :: "u32 list \<Rightarrow> u32 \<Rightarrow> u32" where
  "gf2_matrix_times mat vec = gf2_times_loop mat 0 vec 0"

definition gf2_matrix_square :: "u32 list \<Rightarrow> u32 list" where
  "gf2_matrix_square mat = map (\<lambda>n. gf2_matrix_times mat (mat ! n)) [0..<GF2_DIM]"

text \<open>The operator for one zero bit: the polynomial, then the powers of two.\<close>

definition crc_odd_init :: "u32 list" where
  "crc_odd_init = 0xedb88320 # map (\<lambda>n. push_bit n 1) [0..<GF2_DIM - 1]"

function crc_combine_loop :: "u32 list \<Rightarrow> u32 \<Rightarrow> nat \<Rightarrow> u32" where
  "crc_combine_loop odd_mat crc1 len2 =
     (let even_mat = gf2_matrix_square odd_mat;
          crc1 = (if odd len2 then gf2_matrix_times even_mat crc1 else crc1);
          len2 = len2 div 2
      in if len2 = 0 then crc1
         else (let odd_mat = gf2_matrix_square even_mat;
                   crc1 = (if odd len2 then gf2_matrix_times odd_mat crc1 else crc1);
                   len2 = len2 div 2
               in if len2 \<noteq> 0 then crc_combine_loop odd_mat crc1 len2 else crc1))"
  by pat_completeness auto
termination
  by (relation "measure (\<lambda>(odd_mat, crc1, len2). len2)") auto

declare crc_combine_loop.simps [simp del]

definition crc32_combine_local :: "u32 \<Rightarrow> u32 \<Rightarrow> int \<Rightarrow> u32" where
  "crc32_combine_local crc1 crc2 len2 =
     (if len2 \<le> 0 then crc1
      else (let even_mat = gf2_matrix_square crc_odd_init;
                odd_mat = gf2_matrix_square even_mat
            in crc_combine_loop odd_mat crc1 (nat len2) XOR crc2))"

definition crc32_combine :: "u32 \<Rightarrow> u32 \<Rightarrow> int \<Rightarrow> u32" where
  "crc32_combine crc1 crc2 len2 = crc32_combine_local crc1 crc2 len2"

definition crc32_combine64 :: "u32 \<Rightarrow> u32 \<Rightarrow> int \<Rightarrow> u32" where
  "crc32_combine64 crc1 crc2 len2 = crc32_combine_local crc1 crc2 len2"

section \<open>The byte step is eight register steps\<close>

lemma crc_table_simps [simp]:
  "crc_table ! 0 = crc_table_0" "crc_table ! Suc 0 = crc_table_1" "crc_table ! 2 = crc_table_2"
  "crc_table ! 3 = crc_table_3" "crc_table ! 4 = crc_table_4" "crc_table ! 5 = crc_table_5"
  "crc_table ! 6 = crc_table_6" "crc_table ! 7 = crc_table_7"
  by (simp_all add: crc_table_def eval_nat_numeral)

lemma ucast_drop_8: "drop_bit 8 (c XOR ucast (b :: u8)) = drop_bit 8 (c :: u32)"
  by (auto simp: bit_eq_iff bit_simps dest: bit_imp_le_length)

lemma crc_DO1_byte: "crc_DO1 c b = crc_byte (c XOR ucast b)"
  by (simp add: crc_DO1_def crc_byte_split [of "c XOR ucast b"] ucast_drop_8 del: drop_bit_xor)

lemma crc_spec_byte_byte: "crc_spec_byte c b = crc_byte (c XOR ucast b)"
  by (simp add: crc_spec_byte_def crc_byte_pow)

lemma crc_DO1_spec: "crc_DO1 = crc_spec_byte"
  by (intro ext) (simp add: crc_DO1_byte crc_spec_byte_byte)

lemma crc_by8_foldl: "crc_by8 c buf = (c', buf') \<Longrightarrow> foldl crc_DO1 c' buf' = foldl crc_DO1 c buf"
proof (induction c buf rule: crc_by8.induct)
  case (1 c buf)
  show ?case
  proof (cases "8 \<le> length buf")
    case True
    then have "foldl crc_DO1 c' buf' = foldl crc_DO1 (foldl crc_DO1 c (take 8 buf)) (drop 8 buf)"
      using 1 by (simp add: crc_by8.simps [of c buf])
    then show ?thesis by (metis append_take_drop_id foldl_append)
  next
    case False
    then show ?thesis using 1 by (simp add: crc_by8.simps [of c buf])
  qed
qed

lemma xor_all_ones: "c XOR 0xffffffff = NOT (c :: u32)"
proof -
  have "(0xffffffff :: u32) = - 1" by simp
  then show ?thesis by (metis bit.xor_one_right)
qed

lemma crc32_bytes_spec: "crc32_bytes crc buf = crc_spec crc buf"
  unfolding crc32_bytes_def crc_spec_def
  by (auto split: prod.split dest!: crc_by8_foldl simp: crc_DO1_spec xor_all_ones)

section \<open>The little-endian loops\<close>

lemma unat_ucast_u8_lt: "unat (ucast (b :: u8) :: u32) < 2 ^ 8"
  using unat_u8_lt [of b] by simp

lemma unat_drop_24: "unat (drop_bit 24 (c :: u32)) < 2 ^ 8"
  using unat_u32_lt [of c] by (simp add: Prelude.unat_drop_bit)

lemma linear_crc_byte_pow: "linear (crc_byte ^^ n)"
  by (rule linear_funpow [OF linear_crc_byte])

lemmas crc_byte_xor = linear_XOR [OF linear_crc_byte]
lemmas crc_byte_pow_xor = linear_XOR [OF linear_crc_byte_pow]

lemma crc_table_nth:
  "unat x < 256 \<Longrightarrow> crc_table_0 ! unat x = (crc_byte ^^ 1) x"
  "unat x < 256 \<Longrightarrow> crc_table_1 ! unat x = (crc_byte ^^ 2) x"
  "unat x < 256 \<Longrightarrow> crc_table_2 ! unat x = (crc_byte ^^ 3) x"
  "unat x < 256 \<Longrightarrow> crc_table_3 ! unat x = (crc_byte ^^ 4) x"
  by (simp_all only: crc_tables_map nth_map_byte)

lemma word_four_bytes:
  "c = (c AND 0xff) XOR push_bit 8 (drop_bit 8 c AND 0xff) XOR push_bit 16 (drop_bit 16 c AND 0xff)
     XOR push_bit 24 (drop_bit 24 c)" for c :: u32
  unfolding byte_masks by (auto simp: bit_eq_iff bit_simps)

lemma crc_byte_pow_push:
  assumes "k \<le> n" "8 * k + 8 \<le> 32" "unat b < 256"
  shows "(crc_byte ^^ n) (push_bit (8 * k) b) = (crc_byte ^^ (n - k)) b"
proof -
  have "(crc_byte ^^ n) (push_bit (8 * k) b) = (crc_byte ^^ (n - k)) ((crc_byte ^^ k) (push_bit (8 * k) b))"
    using assms(1) by (metis comp_apply funpow_add le_add_diff_inverse2)
  then show ?thesis using push_bit_pow [of k 8 b] assms by simp
qed

lemma crc_byte_4_tables:
  "(crc_byte ^^ 4) c = crc_table_3 ! unat (c AND 0xff) XOR crc_table_2 ! unat (drop_bit 8 c AND 0xff) XOR
     crc_table_1 ! unat (drop_bit 16 c AND 0xff) XOR crc_table_0 ! unat (drop_bit 24 c)"
proof -
  note p = crc_byte_pow_push [of 1 4, simplified] crc_byte_pow_push [of 2 4, simplified]
    crc_byte_pow_push [of 3 4, simplified]
  have "(crc_byte ^^ 4) c = (crc_byte ^^ 4) (c AND 0xff) XOR (crc_byte ^^ 3) (drop_bit 8 c AND 0xff)
      XOR (crc_byte ^^ 2) (drop_bit 16 c AND 0xff) XOR crc_byte (drop_bit 24 c)"
    using unat_drop_24 [of c]
    by (subst word_four_bytes) (simp only: crc_byte_pow_xor p unat_AND_ff, simp add: p)
  then show ?thesis
    using unat_drop_24 [of c] by (simp add: crc_table_nth unat_AND_ff)
qed

lemma not_bit_u32: "32 \<le> n \<Longrightarrow> \<not> bit (c :: u32) n"
  by (auto dest: bit_imp_le_length)

lemma not_bit_u8: "8 \<le> n \<Longrightarrow> \<not> bit (b :: u8) n"
  by (auto dest: bit_imp_le_length)

lemma read_le_xor:
  "read_le b = ucast (b ! 0) XOR push_bit 8 (ucast (b ! 1)) XOR push_bit 16 (ucast (b ! 2))
     XOR push_bit 24 (ucast (b ! 3))"
proof (rule bit_word_eqI)
  fix n :: nat
  consider "n < 8" | "8 \<le> n" "n < 16" | "16 \<le> n" "n < 24" | "24 \<le> n" by linarith
  then show "bit (read_le b) n = bit (ucast (b ! 0) XOR push_bit 8 (ucast (b ! 1)) XOR
      push_bit 16 (ucast (b ! 2)) XOR push_bit 24 (ucast (b ! 3)) :: u32) n"
    by cases (auto simp: read_le_def bit_simps not_bit_u8)
qed

lemma four_elems: "4 \<le> length b \<Longrightarrow> take 4 b = [b ! 0, b ! 1, b ! 2, b ! 3]"
  by (intro nth_equalityI) (auto simp: nth_Cons eval_nat_numeral less_Suc_eq split: nat.splits)

lemma DOLIT4_bytes: "4 \<le> length b \<Longrightarrow> DOLIT4 c b = foldl crc_spec_byte c (take 4 b)"
proof -
  assume b: "4 \<le> length b"
  note p = crc_byte_pow_push [of 1 4, simplified] crc_byte_pow_push [of 2 4, simplified]
    crc_byte_pow_push [of 3 4, simplified]
  have u: "unat (ucast (x :: u8) :: u32) < 256" for x using unat_ucast_u8_lt [of x] by simp
  have "DOLIT4 c b = (crc_byte ^^ 4) (c XOR read_le b)"
    by (simp add: DOLIT4_def Let_def crc_byte_4_tables)
  also have "\<dots> = (crc_byte ^^ 4) c XOR (crc_byte ^^ 4) (ucast (b ! 0)) XOR (crc_byte ^^ 3) (ucast (b ! 1))
      XOR (crc_byte ^^ 2) (ucast (b ! 2)) XOR crc_byte (ucast (b ! 3))"
    unfolding read_le_xor crc_byte_pow_xor by (simp only: p u xor.assoc)
  also have "\<dots> = foldl crc_spec_byte c (take 4 b)"
    unfolding four_elems [OF b] by (simp add: crc_spec_byte_byte crc_byte_xor eval_nat_numeral xor.assoc)
  finally show ?thesis .
qed

text \<open>What every variant of the step must do, on a representation \<open>r\<close> of the register.\<close>

lemma crc_align_foldl: "crc_align step addr c buf = (c', buf') \<Longrightarrow> foldl step c' buf' = foldl step c buf"
  by (induction step addr c buf rule: crc_align.induct) (auto split: if_splits)

lemma crc_words_foldl:
  assumes "\<And>c b. 4 \<le> length b \<Longrightarrow> do4 c b = foldl step c (take 4 b)"
  shows "4 * n \<le> length buf \<Longrightarrow> crc_words do4 n c buf = (c', buf') \<Longrightarrow> foldl step c' buf' = foldl step c buf"
proof (induction n arbitrary: c buf)
  case (Suc n)
  then have "foldl step c' buf' = foldl step (do4 c (take 4 buf)) (drop 4 buf)" by simp
  also have "\<dots> = foldl step (foldl step c (take 4 buf)) (drop 4 buf)"
    using Suc.prems(1) assms [of "take 4 buf"] by simp
  finally show ?case by (metis append_take_drop_id foldl_append)
qed simp

lemma crc_loop_foldl:
  assumes "\<And>c b. 4 \<le> length b \<Longrightarrow> do4 c b = foldl step c (take 4 b)"
  shows "crc_loop do4 n c buf = (c', buf') \<Longrightarrow> foldl step c' buf' = foldl step c buf"
proof (induction "length buf" arbitrary: c buf rule: less_induct)
  case less
  show ?case
  proof (cases "0 < n \<and> 4 * n \<le> length buf")
    case True
    obtain c1 buf1 where w: "crc_words do4 n c buf = (c1, buf1)" by fastforce
    then have "length buf1 < length buf"
      using crc_words_length [OF w [symmetric]] True by auto
    then show ?thesis
      using less w True crc_words_foldl [OF assms _ w] by (simp add: crc_loop.simps [of do4 n c buf])
  next
    case False
    then show ?thesis using less.prems by (subst (asm) crc_loop.simps) (auto split: if_splits)
  qed
qed

lemma crc_loop_DOLIT4:
  "crc_loop DOLIT4 n c buf = (c', buf') \<Longrightarrow> foldl crc_spec_byte c' buf' = foldl crc_spec_byte c buf"
  using crc_loop_foldl [of DOLIT4 crc_spec_byte] by (simp add: DOLIT4_bytes)

lemma crc32_little_spec: "crc32_little addr crc buf = crc_spec crc buf"
  unfolding crc32_little_def crc_spec_def
  by (auto split: prod.split simp: crc_DO1_spec
      dest!: crc_align_foldl crc_loop_DOLIT4)

section \<open>The big-endian loops\<close>

lemma ZSWAP32_invol [simp]: "ZSWAP32 (ZSWAP32 c) = c"
  by (rule bit_word_eqI) (auto simp: bit_ZSWAP32)

lemma ZSWAP32_not: "ZSWAP32 (NOT c) = NOT (ZSWAP32 c)"
  by (auto simp: bit_eq_iff bit_ZSWAP32 bit_simps)

lemmas ZSWAP32_xor = linear_XOR [OF linear_ZSWAP32]

lemma ZSWAP32_bytes:
  "ZSWAP32 c AND 0xff = drop_bit 24 c" "drop_bit 8 (ZSWAP32 c) AND 0xff = drop_bit 16 c AND 0xff"
  "drop_bit 16 (ZSWAP32 c) AND 0xff = drop_bit 8 c AND 0xff" "drop_bit 24 (ZSWAP32 c) = c AND 0xff"
  unfolding byte_masks
  by (rule bit_word_eqI; auto simp: bit_ZSWAP32 bit_simps not_bit_u32 add.commute)+

lemma ZSWAP32_drop_8: "ZSWAP32 (drop_bit 8 c) = push_bit 8 (ZSWAP32 c)"
  by (rule bit_word_eqI) (auto simp: bit_ZSWAP32 bit_simps not_bit_u32 add.commute)

lemma read_be_swap: "read_be b = ZSWAP32 (read_le b)"
  unfolding read_be_def read_le_def
proof (rule bit_word_eqI)
  fix n :: nat
  assume "n < LENGTH(32)"
  then consider "n < 8" | "8 \<le> n" "n < 16" | "16 \<le> n" "n < 24" | "24 \<le> n" "n < 32" by fastforce
  then show "bit (push_bit 24 (ucast (b ! 0)) OR push_bit 16 (ucast (b ! 1))
     OR push_bit 8 (ucast (b ! 2)) OR ucast (b ! 3) :: u32) n
    = bit (ZSWAP32 (ucast (b ! 0) OR push_bit 8 (ucast (b ! 1))
     OR push_bit 16 (ucast (b ! 2)) OR push_bit 24 (ucast (b ! 3)))) n"
    by cases (auto simp: bit_ZSWAP32 bit_simps not_bit_u8)
qed

lemma crc_table_length [simp]:
  "length crc_table_0 = 256" "length crc_table_1 = 256" "length crc_table_2 = 256"
  "length crc_table_3 = 256"
  by (simp_all add: crc_tables_map byte_values_upt)

lemma crc_table_swap:
  "n < 256 \<Longrightarrow> crc_table_4 ! n = ZSWAP32 (crc_table_0 ! n)"
  "n < 256 \<Longrightarrow> crc_table_5 ! n = ZSWAP32 (crc_table_1 ! n)"
  "n < 256 \<Longrightarrow> crc_table_6 ! n = ZSWAP32 (crc_table_2 ! n)"
  "n < 256 \<Longrightarrow> crc_table_7 ! n = ZSWAP32 (crc_table_3 ! n)"
  by (simp_all add: crc_table_4_gen crc_table_5_gen crc_table_6_gen crc_table_7_gen)

lemma DOBIG4_swap: "DOBIG4 (ZSWAP32 c) b = ZSWAP32 (DOLIT4 c b)"
proof -
  have u: "unat (drop_bit 24 (x :: u32)) < 256" for x using unat_drop_24 [of x] by simp
  show ?thesis
    unfolding DOBIG4_def DOLIT4_def Let_def read_be_swap ZSWAP32_xor [symmetric] ZSWAP32_bytes
    by (simp add: crc_table_swap unat_AND_ff u ZSWAP32_xor del: drop_bit_xor) (simp only: ac_simps)
qed

lemma crc_BIG1_swap: "crc_BIG1 (ZSWAP32 c) b = ZSWAP32 (crc_DO1 c b)"
proof -
  have "drop_bit 24 (ZSWAP32 c) XOR ucast b = (c XOR ucast b) AND 0xff"
    unfolding ZSWAP32_bytes byte_masks
    by (rule bit_word_eqI) (auto simp: bit_simps not_bit_u32 add.commute dest: bit_imp_le_length)
  then show ?thesis
    by (simp add: crc_BIG1_def crc_DO1_def crc_table_swap unat_AND_ff ZSWAP32_xor ZSWAP32_drop_8)
qed

lemma crc_BIG1_spec: "crc_BIG1 c b = ZSWAP32 (crc_spec_byte (ZSWAP32 c) b)"
  using crc_BIG1_swap [of "ZSWAP32 c" b] by (simp add: crc_DO1_spec)

lemma foldl_crc_BIG1: "foldl crc_BIG1 c b = ZSWAP32 (foldl crc_spec_byte (ZSWAP32 c) b)"
  by (induction b arbitrary: c) (simp_all add: crc_BIG1_spec)

lemma DOBIG4_bytes: "4 \<le> length b \<Longrightarrow> DOBIG4 c b = foldl crc_BIG1 c (take 4 b)"
  using DOBIG4_swap [of "ZSWAP32 c" b] by (simp add: DOLIT4_bytes foldl_crc_BIG1)

lemma crc_loop_DOBIG4:
  "crc_loop DOBIG4 n c buf = (c', buf') \<Longrightarrow> foldl crc_BIG1 c' buf' = foldl crc_BIG1 c buf"
  using crc_loop_foldl [of DOBIG4 crc_BIG1] by (simp add: DOBIG4_bytes)

lemma crc32_big_spec: "crc32_big addr crc buf = crc_spec crc buf"
proof -
  have "crc32_big addr crc buf = ZSWAP32 (NOT (foldl crc_BIG1 (NOT (ZSWAP32 crc)) buf))"
    unfolding crc32_big_def
    by (auto split: prod.split dest!: crc_align_foldl crc_loop_DOBIG4)
  then show ?thesis by (simp add: foldl_crc_BIG1 ZSWAP32_not crc_spec_def)
qed

lemma crc32_z_spec: "crc32_z little addr crc (Some buf) = crc_spec crc buf"
  by (simp add: crc32_z_def crc32_little_spec crc32_big_spec)

lemma crc_spec_append: "crc_spec crc (xs @ ys) = crc_spec (crc_spec crc xs) ys"
  by (simp add: crc_spec_def)

section \<open>Matrices over GF(2)\<close>

text \<open>\<open>mat\<close> is the matrix of the linear map \<open>f\<close>: column \<open>i\<close> is the image of bit \<open>i\<close>.\<close>

definition matrix_of :: "u32 list \<Rightarrow> (u32 \<Rightarrow> u32) \<Rightarrow> bool" where
  "matrix_of mat f \<longleftrightarrow> linear f \<and> length mat = 32 \<and> (\<forall>i<32. mat ! i = f (push_bit i 1))"

lemma push_bit_split:
  "push_bit i vec = (if vec AND 1 \<noteq> 0 then push_bit i 1 else 0) XOR push_bit (Suc i) (drop_bit 1 vec)"
  for vec :: u32
proof (rule bit_word_eqI)
  fix n :: nat
  assume "n < LENGTH(32)"
  have one: "(vec AND 1 \<noteq> 0) = bit vec 0"
    by (simp add: and_one_eq mod_2_eq_odd bit_0)
  consider "n < i" | "n = i" | "i < n" by linarith
  then show "bit (push_bit i vec) n =
      bit ((if vec AND 1 \<noteq> 0 then push_bit i 1 else 0) XOR push_bit (Suc i) (drop_bit 1 vec)) n"
    unfolding one by cases (auto simp: bit_simps Suc_diff_Suc simp del: push_bit_Suc)
qed

lemma gf2_times_loop_linear:
  "matrix_of mat f \<Longrightarrow> i \<le> 32 \<Longrightarrow> unat vec < 2 ^ (32 - i)
    \<Longrightarrow> gf2_times_loop mat i vec acc = acc XOR f (push_bit i vec)"
proof (induction mat i vec acc rule: gf2_times_loop.induct)
  case (1 mat i vec acc)
  then have f: "linear f" "f 0 = 0" using linear_0 by (auto simp: matrix_of_def)
  show ?case
  proof (cases "vec = 0")
    case False
    then have i: "i < 32"
      using 1(3,4) unat_gt_0 [of vec] by (cases "i = 32") auto
    then have "unat vec < 2 ^ (32 - Suc i) * 2"
      using 1(4) i by (metis Suc_diff_Suc power_Suc2)
    then have "unat (drop_bit 1 vec) < 2 ^ (32 - Suc i)"
      by (simp add: Prelude.unat_drop_bit less_mult_imp_div_less)
    moreover have "mat ! i = f (push_bit i 1)"
      using 1(2) i by (simp add: matrix_of_def)
    moreover have "f (push_bit i vec) =
        (if vec AND 1 \<noteq> 0 then f (push_bit i 1) else 0) XOR f (push_bit (Suc i) (drop_bit 1 vec))"
      by (subst push_bit_split) (simp add: linear_XOR f del: push_bit_Suc)
    ultimately show ?thesis
      using 1(1) [OF False 1(2)] i False
      by (subst gf2_times_loop.simps) (simp add: xor.assoc del: push_bit_Suc)
  qed (simp add: gf2_times_loop.simps f)
qed

lemma gf2_matrix_times_linear: "matrix_of mat f \<Longrightarrow> gf2_matrix_times mat vec = f vec"
  using gf2_times_loop_linear [of mat f 0 vec 0] unat_u32_lt [of vec]
  by (simp add: gf2_matrix_times_def)

lemma gf2_matrix_square_linear: "matrix_of mat f \<Longrightarrow> matrix_of (gf2_matrix_square mat) (f \<circ> f)"
  by (auto simp: matrix_of_def gf2_matrix_square_def GF2_DIM_def gf2_matrix_times_linear [unfolded matrix_of_def]
      linear_comp comp_def)

lemma crc_bit_1: "crc_bit 1 = 0xedb88320"
  by (simp add: crc_bit_eval)

lemma crc_odd_init_matrix: "matrix_of crc_odd_init crc_bit"
proof -
  have "crc_odd_init ! i = crc_bit (push_bit i 1)" if "i < 32" for i
  proof (cases i)
    case 0
    then show ?thesis by (simp add: crc_odd_init_def crc_bit_1 [simplified])
  next
    case (Suc n)
    have "crc_bit (push_bit (Suc n) 1) = drop_bit 1 (push_bit (Suc n) 1)"
      by (rule crc_bit_even) (simp add: bit_simps del: push_bit_Suc)
    also have "\<dots> = push_bit n 1"
      using that Suc by (intro bit_word_eqI) (auto simp: bit_simps simp del: push_bit_Suc)
    finally show ?thesis
      using that Suc by (simp add: crc_odd_init_def GF2_DIM_def del: push_bit_Suc)
  qed
  then show ?thesis by (simp add: matrix_of_def linear_crc_bit crc_odd_init_def GF2_DIM_def)
qed

lemma funpow_parity:
  "(f ^^ n) x = ((f \<circ> f) ^^ (n div 2)) (if odd n then f x else x)"
proof -
  have sq: "(f \<circ> f) ^^ m = f ^^ (2 * m)" for m by (induction m) simp_all
  show ?thesis
  proof (cases "even n")
    case False
    then have "n = Suc (2 * (n div 2))" by simp
    then have "(f ^^ n) x = (f ^^ (2 * (n div 2))) (f x)" by (metis comp_apply funpow_Suc_right)
    then show ?thesis using False by (simp add: sq)
  qed (simp add: sq)
qed

lemma crc_combine_loop_pow:
  "matrix_of odd_mat g \<Longrightarrow> 0 < len2 \<Longrightarrow> crc_combine_loop odd_mat crc1 len2 = ((g \<circ> g) ^^ len2) crc1"
proof (induction len2 arbitrary: odd_mat crc1 g rule: less_induct)
  case (less len2)
  define h where "h = g \<circ> g"
  define e where "e = gf2_matrix_square odd_mat"
  define o' where "o' = gf2_matrix_square e"
  define c1 where "c1 = (if odd len2 then h crc1 else crc1)"
  define c2 where "c2 = (if odd (len2 div 2) then (h \<circ> h) c1 else c1)"
  have e: "matrix_of e h" and o': "matrix_of o' (h \<circ> h)"
    unfolding e_def o'_def h_def by (intro gf2_matrix_square_linear less.prems)+
  have "crc_combine_loop odd_mat crc1 len2 =
      (if len2 div 2 = 0 then c1
       else if len2 div 2 div 2 \<noteq> 0 then crc_combine_loop o' c2 (len2 div 2 div 2) else c2)"
    by (subst crc_combine_loop.simps)
      (simp add: Let_def c1_def c2_def e_def [symmetric] o'_def [symmetric]
        gf2_matrix_times_linear [OF e] gf2_matrix_times_linear [OF o'])
  also have "\<dots> = (h ^^ len2) crc1"
  proof -
    have "(h ^^ len2) crc1 = ((h \<circ> h) ^^ (len2 div 2)) c1"
      unfolding c1_def by (rule funpow_parity)
    moreover have "((h \<circ> h) ^^ (len2 div 2)) c1 = (((h \<circ> h) \<circ> (h \<circ> h)) ^^ (len2 div 2 div 2)) c2"
      unfolding c2_def by (rule funpow_parity)
    moreover have "len2 div 2 div 2 \<noteq> 0 \<Longrightarrow>
        crc_combine_loop o' c2 (len2 div 2 div 2) = (((h \<circ> h) \<circ> (h \<circ> h)) ^^ (len2 div 2 div 2)) c2"
      using less.prems(2) by (intro less.IH o') auto
    ultimately show ?thesis by (auto simp: c2_def)
  qed
  finally show ?case unfolding h_def .
qed

lemma crc32_combine_local_pow:
  "crc32_combine_local crc1 crc2 (int n) = (if n = 0 then crc1 else (crc_byte ^^ n) crc1 XOR crc2)"
proof -
  have "((f \<circ> f) \<circ> (f \<circ> f)) \<circ> ((f \<circ> f) \<circ> (f \<circ> f)) = f ^^ 8" for f :: "u32 \<Rightarrow> u32"
    by (simp add: eval_nat_numeral fun_eq_iff)
  then show ?thesis
    by (simp add: crc32_combine_local_def Let_def crc_combine_loop_pow
        [OF gf2_matrix_square_linear [OF gf2_matrix_square_linear [OF crc_odd_init_matrix]]] crc_byte_pow)
qed

lemma foldl_crc_linear:
  "foldl crc_spec_byte (a XOR b) ys = (crc_byte ^^ length ys) a XOR foldl crc_spec_byte b ys"
proof (induction ys arbitrary: a b)
  case (Cons y ys)
  have "crc_spec_byte (a XOR b) y = crc_byte a XOR crc_spec_byte b y"
    by (simp add: crc_spec_byte_byte crc_byte_xor xor.assoc)
  then show ?case by (simp add: Cons.IH funpow_swap1)
qed simp

lemma crc_spec_combine:
  "crc32_combine_local (crc_spec crc xs) (crc_spec 0 ys) (int (length ys)) = crc_spec crc (xs @ ys)"
proof (cases "ys = []")
  case False
  have ones: "NOT (c :: u32) = c XOR NOT 0" for c by simp
  have "crc_spec c ys = (crc_byte ^^ length ys) c XOR crc_spec 0 ys" for c
    unfolding crc_spec_def ones [of c] foldl_crc_linear by (simp only: bit.xor_compl_right)
  note split = this [of "crc_spec crc xs"]
  show ?thesis
    unfolding crc32_combine_local_pow crc_spec_append split using False by (simp only: length_0_conv if_False)
qed (simp add: crc32_combine_local_def)

section \<open>Properties\<close>

text \<open>C7: \<open>crc32\<close> computes the CRC-32 of RFC 1952 on every machine: whatever the byte order, the
  alignment of the buffer and its length, the table-driven loops give what the bit-serial shift
  register of the specification gives.\<close>

theorem crc32_meets_spec: "crc32 little addr crc (Some buf) = crc_spec crc buf"
  by (simp add: crc32_def crc32_z_spec)

text \<open>The CRC of a buffer fed in two pieces is the CRC of the whole, whatever the alignments of
  the two pieces.\<close>

theorem crc32_append:
  "crc32 l a2 (crc32 l a1 crc (Some xs)) (Some ys) = crc32 l a crc (Some (xs @ ys))"
  by (simp add: crc32_def crc32_z_spec crc_spec_append)

text \<open>C14: \<open>crc32_combine\<close> is correct: from the CRC of a first piece, the CRC of a second piece and
  the second piece's length it computes the CRC of the concatenation, by repeated squaring of the
  operator for one zero bit.\<close>

theorem crc32_combine_correct:
  "crc32_combine (crc32 l a1 crc (Some xs)) (crc32 l a2 0 (Some ys)) (int (length ys))
     = crc32 l a crc (Some (xs @ ys))"
  by (simp add: crc32_def crc32_z_spec crc32_combine_def crc_spec_combine)

end
