(* ===== verification/Checksum.thy ===== *)
theory Checksum
  imports Adler32 Crc32
begin

text \<open>
  The contract the stream code relies on when it calls a checksum (the \<open>UPDATE\<close> macro of
  \<open>inflate.c\<close>, \<open>read_buf\<close> of \<open>deflate.c\<close>): a start value, an update by a buffer and a combination of
  two values.  The locale states its laws once; \<open>adler32\<close> and \<open>crc32\<close> both satisfy it.
\<close>

locale checksum =
  fixes start :: u32
    and upd :: "u32 \<Rightarrow> u8 list \<Rightarrow> u32"
    and comb :: "u32 \<Rightarrow> u32 \<Rightarrow> int \<Rightarrow> u32"
    and valid :: "u32 \<Rightarrow> bool"
  assumes valid_start: "valid start"
    and valid_upd: "valid c \<Longrightarrow> valid (upd c xs)"
    and upd_Nil: "valid c \<Longrightarrow> upd c [] = c"
    and upd_append: "valid c \<Longrightarrow> upd (upd c xs) ys = upd c (xs @ ys)"
    and comb_append: "valid c \<Longrightarrow> comb (upd c xs) (upd start ys) (int (length ys)) = upd c (xs @ ys)"
begin

lemma upd_chunks: "valid c \<Longrightarrow> foldl upd c xss = upd c (concat xss)"
  by (induction xss arbitrary: c) (simp_all add: upd_Nil valid_upd upd_append)

lemma comb_chunks:
  "valid c \<Longrightarrow> foldl (\<lambda>c ys. comb c (upd start ys) (int (length ys))) c xss = upd c (concat xss)"
proof (induction xss rule: rev_induct)
  case (snoc xs xss)
  then show ?case by (simp add: comb_append)
qed (simp add: upd_Nil)

lemma upd_same_concat: "valid c \<Longrightarrow> concat xss = concat yss \<Longrightarrow> foldl upd c xss = foldl upd c yss"
  by (simp add: upd_chunks)

end

lemma adler32_z_Nil: "adler_valid c \<Longrightarrow> adler32_z c (Some []) = c"
  by (simp add: adler32_z_Some adler_halves_def adler_join_def)

interpretation adler: checksum 1 "\<lambda>c xs. adler32 c (Some xs)" adler32_combine adler_valid
proof
  show "adler_valid 1" by (rule adler_one(1))
  show "adler_valid c \<Longrightarrow> adler_valid (adler32 c (Some xs))" for c xs
    by (simp add: adler32_def adler_valid_adler32_z)
  show "adler_valid c \<Longrightarrow> adler32 c (Some []) = c" for c
    by (simp add: adler32_def adler32_z_Nil)
  show "adler_valid c \<Longrightarrow> adler32 (adler32 c (Some xs)) (Some ys) = adler32 c (Some (xs @ ys))" for c xs ys
    by (simp add: adler32_def adler32_z_append)
  show "adler32_combine (adler32 c (Some xs)) (adler32 1 (Some ys)) (int (length ys)) = adler32 c (Some (xs @ ys))"
    if "adler_valid c" for c xs ys
    unfolding adler32_def adler32_combine_def adler32_combine_spec [OF adler_valid_adler32_z [OF that]]
      adler_halves_adler32_z [OF that] adler_spec_append [symmetric]
    by (simp only: adler32_z_Some [OF that])
qed

interpretation crc: checksum 0 "\<lambda>c xs. crc32 l a c (Some xs)" crc32_combine "\<lambda>_. True" for l a
  by unfold_locales
    (simp_all add: crc32_def crc32_z_spec crc_spec_append crc32_combine_def crc_spec_combine,
     simp add: crc_spec_def)

text \<open>A stream cut into any pieces, each checksummed on its own by \<open>adler32\<close> from 1, has the
  checksum of the whole when the pieces' values are folded with \<open>adler32_combine\<close>.\<close>

theorem adler32_combine_pieces:
  "foldl (\<lambda>c ys. adler32_combine c (adler32 1 (Some ys)) (int (length ys))) 1 xss
     = adler32 1 (Some (concat xss))"
  by (rule adler.comb_chunks [OF adler_one(1)])

text \<open>The same for \<open>crc32\<close> and \<open>crc32_combine\<close>, on either byte order.\<close>

theorem crc32_combine_pieces:
  "foldl (\<lambda>c ys. crc32_combine c (crc32 little addr 0 (Some ys)) (int (length ys))) 0 xss
     = crc32 little addr 0 (Some (concat xss))"
  by (rule crc.comb_chunks) simp

end
