(* ===== verification/Bit_Output.thy ===== *)
theory Bit_Output
  imports Prelude
begin

text \<open>
  The bit buffer of \<open>src/src/zlib/trees.c\<close>: bits go into the 16-bit \<open>bi_buf\<close> from the low end and
  leave it two bytes at a time for \<open>pending_buf\<close>.  \<open>pending_buf\<close> is the list of the
  \<open>pending\<close> bytes from \<open>pending_out\<close> on, so \<open>pending\<close> is its length; the room in the array is the IN
  assertion of \<open>put_byte\<close>, and the lemmas on \<open>length\<close> bound what an operation adds to it.
\<close>

record bit_state =
  pending_buf :: "u8 list"
  bi_buf :: u16
  bi_valid :: nat

definition Buf_size :: nat where
  "Buf_size = 16"

definition put_byte :: "'a bit_state_scheme \<Rightarrow> u8 \<Rightarrow> 'a bit_state_scheme" where
  "put_byte s c = s\<lparr>pending_buf := pending_buf s @ [c]\<rparr>"

definition put_short :: "'a bit_state_scheme \<Rightarrow> u16 \<Rightarrow> 'a bit_state_scheme" where
  "put_short s w = put_byte (put_byte s (ucast (w AND 0xff))) (ucast (drop_bit 8 w))"

text \<open>\<open>(ush)val << bi_valid\<close> is an \<open>int\<close> that the assignment to \<open>bi_buf\<close> cuts to 16 bits, which
  is the shift on 16 bits.\<close>

definition send_bits :: "'a bit_state_scheme \<Rightarrow> int \<Rightarrow> nat \<Rightarrow> 'a bit_state_scheme" where
  "send_bits s value len =
     (if bi_valid s + len > Buf_size then
        (let val = word_of_int value;
             s = s\<lparr>bi_buf := bi_buf s OR push_bit (bi_valid s) val\<rparr>;
             s = put_short s (bi_buf s);
             s = s\<lparr>bi_buf := drop_bit (Buf_size - bi_valid s) val\<rparr>
         in s\<lparr>bi_valid := bi_valid s + len - Buf_size\<rparr>)
      else
        (let s = s\<lparr>bi_buf := bi_buf s OR push_bit (bi_valid s) (word_of_int value)\<rparr>
         in s\<lparr>bi_valid := bi_valid s + len\<rparr>))"

definition bi_flush :: "'a bit_state_scheme \<Rightarrow> 'a bit_state_scheme" where
  "bi_flush s =
     (if bi_valid s = 16 then (put_short s (bi_buf s))\<lparr>bi_buf := 0, bi_valid := 0\<rparr>
      else if bi_valid s \<ge> 8 then
        (let s = put_byte s (ucast (bi_buf s))
         in s\<lparr>bi_buf := drop_bit 8 (bi_buf s), bi_valid := bi_valid s - 8\<rparr>)
      else s)"

definition bi_windup :: "'a bit_state_scheme \<Rightarrow> 'a bit_state_scheme" where
  "bi_windup s =
     (let s = (if bi_valid s > 8 then put_short s (bi_buf s)
               else if bi_valid s > 0 then put_byte s (ucast (bi_buf s)) else s)
      in s\<lparr>bi_buf := 0, bi_valid := 0\<rparr>)"

text \<open>\<open>do { res |= code & 1; code >>= 1, res <<= 1; } while (--len > 0); return res >> 1;\<close>
  The body runs once even when \<open>len\<close> is not positive.\<close>

fun bi_reverse_loop :: "u32 \<Rightarrow> u32 \<Rightarrow> nat \<Rightarrow> u32" where
  "bi_reverse_loop res code len =
     (let res = res OR (code AND 1); code = drop_bit 1 code; res = push_bit 1 res
      in if 1 < len then bi_reverse_loop res code (len - 1) else res)"

declare bi_reverse_loop.simps [simp del]

definition bi_reverse :: "u32 \<Rightarrow> nat \<Rightarrow> u32" where
  "bi_reverse code len = drop_bit 1 (bi_reverse_loop 0 code len)"

section \<open>The stream of bits\<close>

text \<open>What the buffer holds: the bits of the pending bytes, each from its low end, then the valid
  bits of \<open>bi_buf\<close>.  "All bits above the last valid bit are always zero" is the invariant.\<close>

definition byte_bits :: "u8 \<Rightarrow> bool list" where
  "byte_bits b = map (bit b) [0..<8]"

definition stream_bits :: "'a bit_state_scheme \<Rightarrow> bool list" where
  "stream_bits s = concat (map byte_bits (pending_buf s)) @ map (bit (bi_buf s)) [0..<bi_valid s]"

definition value_bits :: "int \<Rightarrow> nat \<Rightarrow> bool list" where
  "value_bits value len = map (bit value) [0..<len]"

definition bit_inv :: "'a bit_state_scheme \<Rightarrow> bool" where
  "bit_inv s \<longleftrightarrow> bi_valid s \<le> 16 \<and> (\<forall>i<16. bi_valid s \<le> i \<longrightarrow> \<not> bit (bi_buf s) i)"

lemma bit_inv_high: "bit_inv s \<Longrightarrow> bi_valid s \<le> i \<Longrightarrow> \<not> bit (bi_buf s) i"
  unfolding bit_inv_def by (cases "i < 16") (auto dest: bit_imp_le_length)

lemma ff_mask_u16: "(0xff :: u16) = mask 8"
  by (simp add: mask_eq_exp_minus_1)

lemma byte_bits_low: "byte_bits (ucast (w AND 0xff :: u16)) = map (bit w) [0..<8]"
  unfolding byte_bits_def ff_mask_u16 by (auto simp: bit_simps)

lemma byte_bits_ucast: "byte_bits (ucast (w :: u16)) = map (bit w) [0..<8]"
  unfolding byte_bits_def by (auto simp: bit_simps)

lemma byte_bits_high: "byte_bits (ucast (drop_bit 8 (w :: u16))) = map (bit w) [8..<16]"
  unfolding byte_bits_def map_upt_shift [of _ 8] by (auto simp: bit_simps)

lemma short_bits: "map (bit (w :: u16)) [0..<8] @ map (bit w) [8..<16] = map (bit w) [0..<16]"
  by (rule map_upt_split) simp

lemma stream_bits_put_short:
  "concat (map byte_bits (pending_buf (put_short s w)))
     = concat (map byte_bits (pending_buf s)) @ map (bit w) [0..<16]"
  unfolding put_short_def put_byte_def
  by (simp add: byte_bits_low byte_bits_high short_bits del: upt_rec_numeral)

lemma put_byte_simps [simp]:
  "bi_buf (put_byte s c) = bi_buf s" "bi_valid (put_byte s c) = bi_valid s"
  "pending_buf (put_byte s c) = pending_buf s @ [c]" "bit_state.more (put_byte s c) = bit_state.more s"
  by (simp_all add: put_byte_def)

lemma put_short_simps [simp]:
  "bi_buf (put_short s w) = bi_buf s" "bi_valid (put_short s w) = bi_valid s"
  "length (pending_buf (put_short s w)) = length (pending_buf s) + 2"
  "bit_state.more (put_short s w) = bit_state.more s"
  by (simp_all add: put_short_def)

lemma send_bits_more [simp]: "bit_state.more (send_bits s v n) = bit_state.more s"
  by (simp add: send_bits_def Let_def)

lemma bi_flush_more [simp]: "bit_state.more (bi_flush s) = bit_state.more s"
  by (simp add: bi_flush_def Let_def)

lemma bi_windup_more [simp]: "bit_state.more (bi_windup s) = bit_state.more s"
  by (simp add: bi_windup_def Let_def)

lemma length_pending_send_bits:
  "length (pending_buf (send_bits s v n)) = length (pending_buf s) + (if bi_valid s + n > 16 then 2 else 0)"
  by (simp add: send_bits_def Let_def Buf_size_def)

text \<open>\<open>send_bits\<close> appends the bits of the value, low bit first.\<close>

lemma word_buffer_bits:
  fixes b :: u16
  assumes "\<And>i. v \<le> i \<Longrightarrow> \<not> bit b i" and "k \<le> 16" "v \<le> k"
  shows "map (bit (b OR push_bit v (word_of_int val))) [0..<k]
    = map (bit b) [0..<v] @ map (bit val) [0..<k - v]"
proof (rule nth_equalityI)
  fix i assume i: "i < length (map (bit (b OR push_bit v (word_of_int val))) [0..<k])"
  then show "map (bit (b OR push_bit v (word_of_int val))) [0..<k] ! i
      = (map (bit b) [0..<v] @ map (bit val) [0..<k - v]) ! i"
    using assms by (cases "i < v") (auto simp: bit_simps nth_append)
qed (use assms in simp)

lemma send_bits_correct:
  assumes inv: "bit_inv s" and len: "len \<le> 16" and val: "0 \<le> val" "val < 2 ^ len"
  shows "bit_inv (send_bits s val len)"
    and "stream_bits (send_bits s val len) = stream_bits s @ value_bits val len"
proof -
  have high: "\<not> bit val i" if "len \<le> i" for i
    using val that by (metis bit_take_bit_iff linorder_not_le take_bit_int_eq_self)
  have v: "bi_valid s \<le> 16" using inv by (simp add: bit_inv_def)
  note b = bit_inv_high [OF inv]
  show "bit_inv (send_bits s val len)"
    using v len b high
    by (auto simp: send_bits_def Let_def Buf_size_def bit_inv_def bit_simps)
  show "stream_bits (send_bits s val len) = stream_bits s @ value_bits val len"
  proof (cases "bi_valid s + len > 16")
    case True
    let ?n = "16 - bi_valid s"
    have "map (bit (drop_bit ?n (word_of_int val :: u16))) [0..<bi_valid s + len - 16]
        = map (bit val) [?n..<len]"
      using True v len by (intro nth_equalityI) (auto simp: bit_simps)
    moreover have "map (bit val) [0..<?n] @ map (bit val) [?n..<len] = value_bits val len"
      using True v unfolding value_bits_def by (intro map_upt_split) simp
    ultimately show ?thesis
      using True word_buffer_bits [where k = 16 and val = val, OF b] v
      by (simp add: send_bits_def Let_def Buf_size_def stream_bits_def stream_bits_put_short
        del: upt_rec_numeral)
  next
    case False
    then show ?thesis
      using word_buffer_bits [where k = "bi_valid s + len" and val = val, OF b]
      by (simp add: send_bits_def Let_def Buf_size_def stream_bits_def value_bits_def)
  qed
qed


lemmas send_bits_inv = send_bits_correct(1)
lemmas stream_bits_send_bits = send_bits_correct(2)

text \<open>\<open>bi_flush\<close> moves whole bytes out and leaves at most seven bits.\<close>

lemma bi_flush_correct:
  assumes inv: "bit_inv s"
  shows "bit_inv (bi_flush s)" and "stream_bits (bi_flush s) = stream_bits s" and "bi_valid (bi_flush s) < 8"
proof -
  have v: "bi_valid s \<le> 16" using inv by (simp add: bit_inv_def)
  note b = bit_inv_high [OF inv]
  show "bit_inv (bi_flush s)"
    using b inv by (auto simp: bi_flush_def Let_def bit_inv_def bit_simps)
  show "bi_valid (bi_flush s) < 8"
    using v by (auto simp: bi_flush_def Let_def)
  have "map (bit (bi_buf s)) [0..<8] @ map (bit (drop_bit 8 (bi_buf s))) [0..<bi_valid s - 8]
      = map (bit (bi_buf s)) [0..<bi_valid s]" if "8 \<le> bi_valid s"
    using map_upt_split [OF that, of "bit (bi_buf s)"] map_upt_shift [of "bit (bi_buf s)" 8]
    by (simp add: bit_drop_bit_eq comp_def del: upt_rec_numeral)
  then show "stream_bits (bi_flush s) = stream_bits s"
    by (auto simp: bi_flush_def Let_def stream_bits_def stream_bits_put_short byte_bits_ucast
        simp del: upt_rec_numeral)
qed

text \<open>\<open>bi_windup\<close> fills the last byte with zero bits.\<close>

definition pad_bits :: "nat \<Rightarrow> nat" where
  "pad_bits v = (if v > 8 then 16 - v else if v > 0 then 8 - v else 0)"

lemma bi_windup_correct:
  assumes inv: "bit_inv s"
  shows "bit_inv (bi_windup s)" and "bi_valid (bi_windup s) = 0"
    and "stream_bits (bi_windup s) = stream_bits s @ replicate (pad_bits (bi_valid s)) False"
proof -
  have v: "bi_valid s \<le> 16" using inv by (simp add: bit_inv_def)
  note b = bit_inv_high [OF inv]
  show "bit_inv (bi_windup s)" and "bi_valid (bi_windup s) = 0"
    by (auto simp: bi_windup_def Let_def bit_inv_def)
  have "map (bit (bi_buf s)) [0..<n] = map (bit (bi_buf s)) [0..<bi_valid s] @ replicate (n - bi_valid s) False"
    if "bi_valid s \<le> n" for n
    using that b by (intro nth_equalityI) (auto simp: nth_append)
  from this [of 16] this [of 8] v
  show "stream_bits (bi_windup s) = stream_bits s @ replicate (pad_bits (bi_valid s)) False"
    by (auto simp: bi_windup_def Let_def stream_bits_def stream_bits_put_short byte_bits_ucast pad_bits_def
        simp del: upt_rec_numeral)
qed

lemma stream_bits_aligned:
  "bi_valid s = 0 \<Longrightarrow> stream_bits s = concat (map byte_bits (pending_buf s))"
  by (simp add: stream_bits_def)

lemma pending_length:
  "length (stream_bits s) = 8 * length (pending_buf s) + bi_valid s"
proof -
  have "length (concat (map byte_bits xs)) = 8 * length xs" for xs
    by (induction xs) (simp_all add: byte_bits_def)
  then show ?thesis by (simp add: stream_bits_def)
qed

lemma bi_windup_aligned: "bit_inv s \<Longrightarrow> (length (stream_bits s) + pad_bits (bi_valid s)) mod 8 = 0"
  unfolding pending_length by (auto simp: pad_bits_def bit_inv_def)

section \<open>Bit reversal\<close>

text \<open>The low \<open>len\<close> bits of the result are those of \<open>code\<close> backwards, and nothing else is set.\<close>

lemma bi_reverse_loop_bits:
  "1 \<le> len \<Longrightarrow> \<not> bit res 0 \<Longrightarrow>
    bit (bi_reverse_loop res code len) i \<longleftrightarrow>
      i < 32 \<and> i \<noteq> 0 \<and> (if i \<le> len then bit code (len - i) else bit res (i - len))"
proof (induction res code len arbitrary: i rule: bi_reverse_loop.induct)
  case (1 res code len)
  let ?res = "push_bit 1 (res OR (code AND 1))"
  have b0: "bit (res OR (code AND 1)) 0 = bit code 0"
    using 1(3) by (simp add: bit_or_iff bit_and_iff)
  have b: "bit ?res j \<longleftrightarrow> j < 32 \<and> j \<noteq> 0 \<and> (if j = 1 then bit code 0 else bit res (j - 1))" for j
    using b0 1(3) by (cases j) (auto simp: bit_simps simp del: push_bit_Suc)
  show ?case
  proof (cases "1 < len")
    case True
    have "\<not> bit ?res 0" using b [of 0] by blast
    then have "bit (bi_reverse_loop ?res (drop_bit 1 code) (len - 1)) i \<longleftrightarrow>
      i < 32 \<and> i \<noteq> 0 \<and> (if i \<le> len - 1 then bit (drop_bit 1 code) (len - 1 - i) else bit ?res (i - (len - 1)))"
      using 1(1) [OF refl refl refl True] True by simp
    also have "\<dots> \<longleftrightarrow> i < 32 \<and> i \<noteq> 0 \<and> (if i \<le> len then bit code (len - i) else bit res (i - len))"
    proof (cases "i \<le> len - 1")
      case False
      then show ?thesis using b [of "i - (len - 1)"] True by auto
    qed (use True in \<open>auto simp: bit_drop_bit_eq Suc_diff_Suc\<close>)
    finally show ?thesis
      using True by (subst bi_reverse_loop.simps) (simp only: Let_def if_True)
  next
    case False
    then have "len = 1" using 1(2) by simp
    have "bi_reverse_loop res code len = ?res"
      using False by (subst bi_reverse_loop.simps) (simp only: Let_def if_False)
    moreover have "(if i \<le> len then bit code (len - i) else bit res (i - len))
        = (if i = 1 then bit code 0 else bit res (i - 1))" if "i \<noteq> 0"
      using \<open>len = 1\<close> that by auto
    ultimately show ?thesis using b [of i] by metis
  qed
qed

lemma bit_bi_reverse:
  "1 \<le> len \<Longrightarrow> len \<le> 16 \<Longrightarrow> bit (bi_reverse code len) i \<longleftrightarrow> i < len \<and> bit code (len - 1 - i)"
  using bi_reverse_loop_bits [of len 0 code "Suc i"]
  by (auto simp: bi_reverse_def bit_drop_bit_eq)

lemma bi_reverse_bits:
  "1 \<le> len \<Longrightarrow> len \<le> 16 \<Longrightarrow>
    map (bit (bi_reverse code len)) [0..<len] = rev (map (bit code) [0..<len])"
  by (intro nth_equalityI) (auto simp: bit_bi_reverse rev_nth)

lemma bi_reverse_loop_step:
  "1 < len \<Longrightarrow> bi_reverse_loop res code len
     = bi_reverse_loop (push_bit 1 (res OR (code AND 1))) (drop_bit 1 code) (len - 1)"
  "bi_reverse_loop res code 1 = push_bit 1 (res OR (code AND 1))"
  by (subst bi_reverse_loop.simps, simp only: Let_def if_True) (subst bi_reverse_loop.simps, simp only: Let_def less_irrefl if_False)

lemmas bi_reverse_eval = bi_reverse_def bi_reverse_loop_step bi_reverse_loop_step(2) [simplified]

section \<open>Sending a sequence of values\<close>

text \<open>What the emitters of \<open>trees.c\<close> rely on: a writer with an invariant and an abstract stream of
  bits to which every accepted value appends its bits.\<close>

locale bit_writer =
  fixes put :: "'s \<Rightarrow> int \<Rightarrow> nat \<Rightarrow> 's"
    and inv :: "'s \<Rightarrow> bool"
    and bits :: "'s \<Rightarrow> bool list"
  assumes put_inv: "inv s \<Longrightarrow> n \<le> 16 \<Longrightarrow> 0 \<le> v \<Longrightarrow> v < 2 ^ n \<Longrightarrow> inv (put s v n)"
    and put_bits: "inv s \<Longrightarrow> n \<le> 16 \<Longrightarrow> 0 \<le> v \<Longrightarrow> v < 2 ^ n \<Longrightarrow> bits (put s v n) = bits s @ value_bits v n"
begin

definition fits :: "(int \<times> nat) list \<Rightarrow> bool" where
  "fits vs \<longleftrightarrow> (\<forall>(v, n) \<in> set vs. n \<le> 16 \<and> 0 \<le> v \<and> v < 2 ^ n)"

lemma put_list_inv: "inv s \<Longrightarrow> fits vs \<Longrightarrow> inv (foldl (\<lambda>s (v, n). put s v n) s vs)"
  by (induction vs arbitrary: s) (auto simp: fits_def put_inv)

lemma put_list_bits:
  "inv s \<Longrightarrow> fits vs \<Longrightarrow>
    bits (foldl (\<lambda>s (v, n). put s v n) s vs) = bits s @ concat (map (\<lambda>(v, n). value_bits v n) vs)"
  by (induction vs arbitrary: s) (auto simp: fits_def put_inv put_bits)

end

interpretation bi: bit_writer send_bits bit_inv stream_bits
  by unfold_locales (simp_all add: send_bits_correct)

section \<open>Properties\<close>

text \<open>C18: \<open>send_bits\<close> appends exactly the \<open>length\<close> low bits of the value to the stream of bits, low
  bit first, whether or not the 16-bit buffer overflows into the pending bytes, and keeps the
  invariant that the bits above \<open>bi_valid\<close> are zero.\<close>

theorem send_bits_appends:
  assumes "bit_inv s" "len \<le> 16" "0 \<le> v" "v < 2 ^ len"
  shows "bit_inv (send_bits s v len) \<and> stream_bits (send_bits s v len) = stream_bits s @ value_bits v len"
  using send_bits_correct [OF assms] by simp

theorem send_bits_appends_witness:
  "bit_inv (send_bits \<lparr>pending_buf = [7], bi_buf = 0x1234, bi_valid = 13\<rparr> 21 5) \<and>
   stream_bits (send_bits \<lparr>pending_buf = [7], bi_buf = 0x1234, bi_valid = 13\<rparr> 21 5)
     = stream_bits \<lparr>pending_buf = [7], bi_buf = 0x1234, bi_valid = 13\<rparr> @ value_bits 21 5"
proof (rule send_bits_appends)
  have "\<not> bit (0x1234 :: u16) 13" "\<not> bit (0x1234 :: u16) 14" "\<not> bit (0x1234 :: u16) 15" by simp_all
  then show "bit_inv \<lparr>pending_buf = [7], bi_buf = 0x1234, bi_valid = 13\<rparr>"
    by (auto simp: bit_inv_def eval_nat_numeral less_Suc_eq)
qed simp_all

end
