(* ===== verification/Tree_Tables.thy ===== *)
theory Tree_Tables
  imports Bit_Output
begin

text \<open>
  The constants and static tables of \<open>src/src/zlib/trees.c\<close> and \<open>trees.h\<close> (the header that
  \<open>gen_trees_header\<close> prints), the generator \<open>tr_static_init\<close>, and \<open>gen_codes\<close>, which turns code
  lengths into codes and is used for the static and the dynamic trees alike.  The \<open>uch\<close> and \<open>int\<close>
  tables hold small constants and are lists of numbers; the 16-bit fields of \<open>ct_data\<close> keep their width.
\<close>

section \<open>Constants\<close>

definition MAX_BITS :: nat where "MAX_BITS = 15"
definition MAX_BL_BITS :: nat where "MAX_BL_BITS = 7"
definition LENGTH_CODES :: nat where "LENGTH_CODES = 29"
definition LITERALS :: nat where "LITERALS = 256"
definition L_CODES :: nat where "L_CODES = LITERALS + 1 + LENGTH_CODES"
definition D_CODES :: nat where "D_CODES = 30"
definition BL_CODES :: nat where "BL_CODES = 19"
definition HEAP_SIZE :: nat where "HEAP_SIZE = 2 * L_CODES + 1"
definition END_BLOCK :: nat where "END_BLOCK = 256"
definition REP_3_6 :: nat where "REP_3_6 = 16"
definition REPZ_3_10 :: nat where "REPZ_3_10 = 17"
definition REPZ_11_138 :: nat where "REPZ_11_138 = 18"

lemmas tree_consts = MAX_BITS_def MAX_BL_BITS_def LENGTH_CODES_def LITERALS_def L_CODES_def D_CODES_def
  BL_CODES_def HEAP_SIZE_def END_BLOCK_def REP_3_6_def REPZ_3_10_def REPZ_11_138_def

definition extra_lbits :: "nat list" where
  "extra_lbits = [0,0,0,0,0,0,0,0,1,1,1,1,2,2,2,2,3,3,3,3,4,4,4,4,5,5,5,5,0]"

definition extra_dbits :: "nat list" where
  "extra_dbits = [0,0,0,0,1,1,2,2,3,3,4,4,5,5,6,6,7,7,8,8,9,9,10,10,11,11,12,12,13,13]"

definition extra_blbits :: "nat list" where
  "extra_blbits = [0,0,0,0,0,0,0,0,0,0,0,0,0,0,0,0,2,3,7]"

definition bl_order :: "nat list" where
  "bl_order = [16,17,18,0,8,7,9,6,10,5,11,4,12,3,13,2,14,1,15]"

text \<open>The two unions of \<open>ct_data\<close>: \<open>Freq\<close> and \<open>Code\<close> name one field, \<open>Dad\<close> and \<open>Len\<close> the other.\<close>

record ct_data =
  fc :: u16
  dl :: u16

abbreviation "ct c l \<equiv> \<lparr>fc = c, dl = l\<rparr>"
abbreviation "Freq \<equiv> fc"
abbreviation "Code \<equiv> fc"
abbreviation "Dad \<equiv> dl"
abbreviation "Len \<equiv> dl"

section \<open>The tables of trees.h\<close>

definition static_ltree :: "ct_data list" where
  "static_ltree = [
     ct 12 8, ct 140 8, ct 76 8, ct 204 8, ct 44 8, ct 172 8, ct 108 8, ct 236 8,
     ct 28 8, ct 156 8, ct 92 8, ct 220 8, ct 60 8, ct 188 8, ct 124 8, ct 252 8,
     ct 2 8, ct 130 8, ct 66 8, ct 194 8, ct 34 8, ct 162 8, ct 98 8, ct 226 8,
     ct 18 8, ct 146 8, ct 82 8, ct 210 8, ct 50 8, ct 178 8, ct 114 8, ct 242 8,
     ct 10 8, ct 138 8, ct 74 8, ct 202 8, ct 42 8, ct 170 8, ct 106 8, ct 234 8,
     ct 26 8, ct 154 8, ct 90 8, ct 218 8, ct 58 8, ct 186 8, ct 122 8, ct 250 8,
     ct 6 8, ct 134 8, ct 70 8, ct 198 8, ct 38 8, ct 166 8, ct 102 8, ct 230 8,
     ct 22 8, ct 150 8, ct 86 8, ct 214 8, ct 54 8, ct 182 8, ct 118 8, ct 246 8,
     ct 14 8, ct 142 8, ct 78 8, ct 206 8, ct 46 8, ct 174 8, ct 110 8, ct 238 8,
     ct 30 8, ct 158 8, ct 94 8, ct 222 8, ct 62 8, ct 190 8, ct 126 8, ct 254 8,
     ct 1 8, ct 129 8, ct 65 8, ct 193 8, ct 33 8, ct 161 8, ct 97 8, ct 225 8,
     ct 17 8, ct 145 8, ct 81 8, ct 209 8, ct 49 8, ct 177 8, ct 113 8, ct 241 8,
     ct 9 8, ct 137 8, ct 73 8, ct 201 8, ct 41 8, ct 169 8, ct 105 8, ct 233 8,
     ct 25 8, ct 153 8, ct 89 8, ct 217 8, ct 57 8, ct 185 8, ct 121 8, ct 249 8,
     ct 5 8, ct 133 8, ct 69 8, ct 197 8, ct 37 8, ct 165 8, ct 101 8, ct 229 8,
     ct 21 8, ct 149 8, ct 85 8, ct 213 8, ct 53 8, ct 181 8, ct 117 8, ct 245 8,
     ct 13 8, ct 141 8, ct 77 8, ct 205 8, ct 45 8, ct 173 8, ct 109 8, ct 237 8,
     ct 29 8, ct 157 8, ct 93 8, ct 221 8, ct 61 8, ct 189 8, ct 125 8, ct 253 8,
     ct 19 9, ct 275 9, ct 147 9, ct 403 9, ct 83 9, ct 339 9, ct 211 9, ct 467 9,
     ct 51 9, ct 307 9, ct 179 9, ct 435 9, ct 115 9, ct 371 9, ct 243 9, ct 499 9,
     ct 11 9, ct 267 9, ct 139 9, ct 395 9, ct 75 9, ct 331 9, ct 203 9, ct 459 9,
     ct 43 9, ct 299 9, ct 171 9, ct 427 9, ct 107 9, ct 363 9, ct 235 9, ct 491 9,
     ct 27 9, ct 283 9, ct 155 9, ct 411 9, ct 91 9, ct 347 9, ct 219 9, ct 475 9,
     ct 59 9, ct 315 9, ct 187 9, ct 443 9, ct 123 9, ct 379 9, ct 251 9, ct 507 9,
     ct 7 9, ct 263 9, ct 135 9, ct 391 9, ct 71 9, ct 327 9, ct 199 9, ct 455 9,
     ct 39 9, ct 295 9, ct 167 9, ct 423 9, ct 103 9, ct 359 9, ct 231 9, ct 487 9,
     ct 23 9, ct 279 9, ct 151 9, ct 407 9, ct 87 9, ct 343 9, ct 215 9, ct 471 9,
     ct 55 9, ct 311 9, ct 183 9, ct 439 9, ct 119 9, ct 375 9, ct 247 9, ct 503 9,
     ct 15 9, ct 271 9, ct 143 9, ct 399 9, ct 79 9, ct 335 9, ct 207 9, ct 463 9,
     ct 47 9, ct 303 9, ct 175 9, ct 431 9, ct 111 9, ct 367 9, ct 239 9, ct 495 9,
     ct 31 9, ct 287 9, ct 159 9, ct 415 9, ct 95 9, ct 351 9, ct 223 9, ct 479 9,
     ct 63 9, ct 319 9, ct 191 9, ct 447 9, ct 127 9, ct 383 9, ct 255 9, ct 511 9,
     ct 0 7, ct 64 7, ct 32 7, ct 96 7, ct 16 7, ct 80 7, ct 48 7, ct 112 7,
     ct 8 7, ct 72 7, ct 40 7, ct 104 7, ct 24 7, ct 88 7, ct 56 7, ct 120 7,
     ct 4 7, ct 68 7, ct 36 7, ct 100 7, ct 20 7, ct 84 7, ct 52 7, ct 116 7,
     ct 3 8, ct 131 8, ct 67 8, ct 195 8, ct 35 8, ct 163 8, ct 99 8, ct 227 8]"

definition static_dtree :: "ct_data list" where
  "static_dtree = [
     ct 0 5, ct 16 5, ct 8 5, ct 24 5, ct 4 5, ct 20 5, ct 12 5, ct 28 5,
     ct 2 5, ct 18 5, ct 10 5, ct 26 5, ct 6 5, ct 22 5, ct 14 5, ct 30 5,
     ct 1 5, ct 17 5, ct 9 5, ct 25 5, ct 5 5, ct 21 5, ct 13 5, ct 29 5,
     ct 3 5, ct 19 5, ct 11 5, ct 27 5, ct 7 5, ct 23 5]"

definition dist_code :: "nat list" where
  "dist_code = [
     0, 1, 2, 3, 4, 4, 5, 5, 6, 6, 6, 6, 7, 7, 7, 7, 8, 8, 8, 8, 8, 8, 8, 8,
     9, 9, 9, 9, 9, 9, 9, 9, 10, 10, 10, 10, 10, 10, 10, 10, 10, 10, 10, 10, 10, 10, 10, 10,
     11, 11, 11, 11, 11, 11, 11, 11, 11, 11, 11, 11, 11, 11, 11, 11, 12, 12, 12, 12, 12, 12, 12, 12,
     12, 12, 12, 12, 12, 12, 12, 12, 12, 12, 12, 12, 12, 12, 12, 12, 12, 12, 12, 12, 12, 12, 12, 12,
     13, 13, 13, 13, 13, 13, 13, 13, 13, 13, 13, 13, 13, 13, 13, 13, 13, 13, 13, 13, 13, 13, 13, 13,
     13, 13, 13, 13, 13, 13, 13, 13, 14, 14, 14, 14, 14, 14, 14, 14, 14, 14, 14, 14, 14, 14, 14, 14,
     14, 14, 14, 14, 14, 14, 14, 14, 14, 14, 14, 14, 14, 14, 14, 14, 14, 14, 14, 14, 14, 14, 14, 14,
     14, 14, 14, 14, 14, 14, 14, 14, 14, 14, 14, 14, 14, 14, 14, 14, 14, 14, 14, 14, 14, 14, 14, 14,
     15, 15, 15, 15, 15, 15, 15, 15, 15, 15, 15, 15, 15, 15, 15, 15, 15, 15, 15, 15, 15, 15, 15, 15,
     15, 15, 15, 15, 15, 15, 15, 15, 15, 15, 15, 15, 15, 15, 15, 15, 15, 15, 15, 15, 15, 15, 15, 15,
     15, 15, 15, 15, 15, 15, 15, 15, 15, 15, 15, 15, 15, 15, 15, 15, 0, 0, 16, 17, 18, 18, 19, 19,
     20, 20, 20, 20, 21, 21, 21, 21, 22, 22, 22, 22, 22, 22, 22, 22, 23, 23, 23, 23, 23, 23, 23, 23,
     24, 24, 24, 24, 24, 24, 24, 24, 24, 24, 24, 24, 24, 24, 24, 24, 25, 25, 25, 25, 25, 25, 25, 25,
     25, 25, 25, 25, 25, 25, 25, 25, 26, 26, 26, 26, 26, 26, 26, 26, 26, 26, 26, 26, 26, 26, 26, 26,
     26, 26, 26, 26, 26, 26, 26, 26, 26, 26, 26, 26, 26, 26, 26, 26, 27, 27, 27, 27, 27, 27, 27, 27,
     27, 27, 27, 27, 27, 27, 27, 27, 27, 27, 27, 27, 27, 27, 27, 27, 27, 27, 27, 27, 27, 27, 27, 27,
     28, 28, 28, 28, 28, 28, 28, 28, 28, 28, 28, 28, 28, 28, 28, 28, 28, 28, 28, 28, 28, 28, 28, 28,
     28, 28, 28, 28, 28, 28, 28, 28, 28, 28, 28, 28, 28, 28, 28, 28, 28, 28, 28, 28, 28, 28, 28, 28,
     28, 28, 28, 28, 28, 28, 28, 28, 28, 28, 28, 28, 28, 28, 28, 28, 29, 29, 29, 29, 29, 29, 29, 29,
     29, 29, 29, 29, 29, 29, 29, 29, 29, 29, 29, 29, 29, 29, 29, 29, 29, 29, 29, 29, 29, 29, 29, 29,
     29, 29, 29, 29, 29, 29, 29, 29, 29, 29, 29, 29, 29, 29, 29, 29, 29, 29, 29, 29, 29, 29, 29, 29,
     29, 29, 29, 29, 29, 29, 29, 29]"

definition length_code :: "nat list" where
  "length_code = [
     0, 1, 2, 3, 4, 5, 6, 7, 8, 8, 9, 9, 10, 10, 11, 11, 12, 12, 12, 12, 13, 13, 13, 13,
     14, 14, 14, 14, 15, 15, 15, 15, 16, 16, 16, 16, 16, 16, 16, 16, 17, 17, 17, 17, 17, 17, 17, 17,
     18, 18, 18, 18, 18, 18, 18, 18, 19, 19, 19, 19, 19, 19, 19, 19, 20, 20, 20, 20, 20, 20, 20, 20,
     20, 20, 20, 20, 20, 20, 20, 20, 21, 21, 21, 21, 21, 21, 21, 21, 21, 21, 21, 21, 21, 21, 21, 21,
     22, 22, 22, 22, 22, 22, 22, 22, 22, 22, 22, 22, 22, 22, 22, 22, 23, 23, 23, 23, 23, 23, 23, 23,
     23, 23, 23, 23, 23, 23, 23, 23, 24, 24, 24, 24, 24, 24, 24, 24, 24, 24, 24, 24, 24, 24, 24, 24,
     24, 24, 24, 24, 24, 24, 24, 24, 24, 24, 24, 24, 24, 24, 24, 24, 25, 25, 25, 25, 25, 25, 25, 25,
     25, 25, 25, 25, 25, 25, 25, 25, 25, 25, 25, 25, 25, 25, 25, 25, 25, 25, 25, 25, 25, 25, 25, 25,
     26, 26, 26, 26, 26, 26, 26, 26, 26, 26, 26, 26, 26, 26, 26, 26, 26, 26, 26, 26, 26, 26, 26, 26,
     26, 26, 26, 26, 26, 26, 26, 26, 27, 27, 27, 27, 27, 27, 27, 27, 27, 27, 27, 27, 27, 27, 27, 27,
     27, 27, 27, 27, 27, 27, 27, 27, 27, 27, 27, 27, 27, 27, 27, 28]"

definition base_length :: "nat list" where
  "base_length = [
     0, 1, 2, 3, 4, 5, 6, 7, 8, 10, 12, 14, 16, 20, 24, 28, 32, 40, 48, 56, 64, 80, 96, 112,
     128, 160, 192, 224, 0]"

definition base_dist :: "nat list" where
  "base_dist = [
     0, 1, 2, 3, 4, 6, 8, 12, 16, 24, 32, 48, 64, 96, 128,
     192, 256, 384, 512, 768, 1024, 1536, 2048, 3072, 4096, 6144, 8192, 12288, 16384, 24576]"

text \<open>\<open>d_code(dist)\<close> of \<open>deflate.h\<close>.\<close>

definition d_code :: "nat \<Rightarrow> nat" where
  "d_code dist = (if dist < 256 then dist_code ! dist else dist_code ! (256 + dist div 2 ^ 7))"

section \<open>Codes from lengths\<close>

text \<open>The first loop of \<open>gen_codes\<close>: \<open>code\<close> is 32 bits, \<open>next_code\<close> 16; entry 0 is never set
  by the code and never read.\<close>

definition next_code_step :: "u16 list \<Rightarrow> u32 \<times> u16 list \<Rightarrow> nat \<Rightarrow> u32 \<times> u16 list" where
  "next_code_step bl_count st bits =
     (case st of (code, next_code) \<Rightarrow>
        let code = push_bit 1 (code + ucast (bl_count ! (bits - 1)))
        in (code, next_code[bits := ucast code]))"

definition gen_next_code :: "u16 list \<Rightarrow> u16 list" where
  "gen_next_code bl_count =
     snd (foldl (next_code_step bl_count) (0, replicate (MAX_BITS + 1) 0) [1..<MAX_BITS + 1])"

definition gen_codes_step :: "ct_data list \<times> u16 list \<Rightarrow> nat \<Rightarrow> ct_data list \<times> u16 list" where
  "gen_codes_step st n =
     (case st of (tree, next_code) \<Rightarrow>
        let len = unat (Len (tree ! n))
        in if len = 0 then (tree, next_code)
           else (tree[n := (tree ! n)\<lparr>fc := ucast (bi_reverse (ucast (next_code ! len)) len)\<rparr>],
                 next_code[len := next_code ! len + 1]))"

text \<open>\<open>max_code\<close> is -1 when no code is used; \<open>n \<le> max_code\<close> then fails at once.\<close>

definition gen_codes :: "ct_data list \<Rightarrow> int \<Rightarrow> u16 list \<Rightarrow> ct_data list" where
  "gen_codes tree max_code bl_count =
     fst (foldl gen_codes_step (tree, gen_next_code bl_count) [0..<nat (max_code + 1)])"

section \<open>The generator of the tables\<close>

text \<open>\<open>tr_static_init\<close> (\<open>GEN_TREES_H\<close>): the length and distance mappings are filled run by run;
  entry 255 of \<open>_length_code\<close> is overwritten by the last code.\<close>

definition init_length_step :: "nat list \<times> nat list \<Rightarrow> nat \<Rightarrow> nat list \<times> nat list" where
  "init_length_step st code =
     (case st of (bases, codes) \<Rightarrow>
        (bases[code := length codes], codes @ replicate (2 ^ (extra_lbits ! code)) code))"

definition init_length_tables :: "nat list \<times> nat list" where
  "init_length_tables =
     (case foldl init_length_step (replicate LENGTH_CODES 0, []) [0..<LENGTH_CODES - 1] of
        (bases, codes) \<Rightarrow> (bases, codes[length codes - 1 := LENGTH_CODES - 1]))"

definition init_dist_step :: "nat list \<times> nat list \<Rightarrow> nat \<Rightarrow> nat list \<times> nat list" where
  "init_dist_step st code =
     (case st of (bases, codes) \<Rightarrow>
        (bases[code := length codes], codes @ replicate (2 ^ (extra_dbits ! code)) code))"

text \<open>From code 16 on, \<open>dist\<close> counts units of 128: it starts at \<open>256 >> 7 = 2\<close> and entries 256 and 257
  keep the zero of static storage.\<close>

definition init_dist_step_128 :: "nat list \<times> nat list \<Rightarrow> nat \<Rightarrow> nat list \<times> nat list" where
  "init_dist_step_128 st code =
     (case st of (bases, codes) \<Rightarrow>
        (bases[code := (length codes - 256) * 2 ^ 7], codes @ replicate (2 ^ (extra_dbits ! code - 7)) code))"

definition init_dist_tables :: "nat list \<times> nat list" where
  "init_dist_tables =
     (case foldl init_dist_step (replicate D_CODES 0, []) [0..<16] of
        (bases, codes) \<Rightarrow>
          foldl init_dist_step_128 (bases, codes @ replicate (length codes div 2 ^ 7) 0) [16..<D_CODES])"

definition static_lens :: "u16 list" where
  "static_lens = replicate 144 8 @ replicate 112 9 @ replicate 24 7 @ replicate 8 8"

definition static_bl_count :: "u16 list" where
  "static_bl_count = (replicate (MAX_BITS + 1) 0)[8 := 144 + 8, 9 := 112, 7 := 24]"

definition init_static_ltree :: "ct_data list" where
  "init_static_ltree = gen_codes (map (ct 0) static_lens) (int L_CODES + 1) static_bl_count"

definition init_static_dtree :: "ct_data list" where
  "init_static_dtree = map (\<lambda>n. ct (ucast (bi_reverse (of_nat n) 5)) 5) [0..<D_CODES]"

end
