(* ===== verification/Huffman_Codes.thy ===== *)
theory Huffman_Codes
  imports Tree_Tables "HOL-Library.Sublist"
begin

text \<open>
  What \<open>gen_codes\<close> computes: the canonical code of RFC 1951, section 3.2.2.  The codes of one length
  are consecutive numbers in symbol order, starting at \<open>first_code\<close>; they are sent highest bit first,
  which is why \<open>gen_codes\<close> stores them reversed.  When the counts satisfy Kraft's inequality no code is
  a prefix of another, so the stream can be decoded symbol by symbol.
\<close>

section \<open>The canonical code\<close>

fun first_code :: "(nat \<Rightarrow> nat) \<Rightarrow> nat \<Rightarrow> nat" where
  "first_code cnt 0 = 0"
| "first_code cnt (Suc l) = 2 * (first_code cnt l + cnt l)"

definition canon_code :: "(nat \<Rightarrow> nat) \<Rightarrow> nat list \<Rightarrow> nat \<Rightarrow> nat" where
  "canon_code cnt lens n = first_code cnt (lens ! n) + count_list (take n lens) (lens ! n)"

text \<open>The \<open>len\<close> low bits of a number, highest first.\<close>

definition msb_bits :: "nat \<Rightarrow> nat \<Rightarrow> bool list" where
  "msb_bits c len = rev (map (bit c) [0..<len])"

definition tree_lens :: "ct_data list \<Rightarrow> nat list" where
  "tree_lens tree = map (\<lambda>c. unat (Len c)) tree"

text \<open>The bits \<open>send_code\<close> emits for a symbol.\<close>

definition tree_code :: "ct_data list \<Rightarrow> nat \<Rightarrow> bool list" where
  "tree_code tree n = value_bits (uint (Code (tree ! n))) (unat (Len (tree ! n)))"

abbreviation bl_cnt :: "u16 list \<Rightarrow> nat \<Rightarrow> nat" where
  "bl_cnt bl_count l \<equiv> unat (bl_count ! l)"

lemma ucast_of_nat_u32_u16: "ucast (word_of_nat n :: u32) = (word_of_nat n :: u16)"
  by (rule bit_word_eqI) (simp add: bit_simps)

lemma next_code_fold:
  assumes "k \<le> 15"
  shows "foldl (next_code_step bl_count) (0, replicate 16 0) [1..<Suc k]
    = (word_of_nat (first_code (bl_cnt bl_count) k),
       map (\<lambda>l. if 1 \<le> l \<and> l \<le> k then word_of_nat (first_code (bl_cnt bl_count) l) else 0) [0..<16])"
  using assms
proof (induction k)
  case 0
  have "map (\<lambda>l. if 1 \<le> l \<and> l \<le> 0 then word_of_nat (first_code (bl_cnt bl_count) l) else 0) [0..<16]
      = replicate 16 (0 :: u16)"
    by (intro nth_equalityI) (simp_all del: upt_rec_numeral)
  then show ?case by (simp del: upt_rec_numeral)
next
  case (Suc k)
  let ?f = "first_code (bl_cnt bl_count)"
  have code: "push_bit 1 (word_of_nat (?f k) + ucast (bl_count ! k)) = (word_of_nat (?f (Suc k)) :: u32)"
    by (simp add: algebra_simps)
  have upd: "(map (\<lambda>l. if 1 \<le> l \<and> l \<le> k then word_of_nat (?f l) else 0) [0..<16]) [Suc k := word_of_nat (?f (Suc k))]
      = map (\<lambda>l. if 1 \<le> l \<and> l \<le> Suc k then word_of_nat (?f l) else (0 :: u16)) [0..<16]"
    using Suc.prems by (intro nth_equalityI) (auto simp: nth_list_update simp del: first_code.simps upt_rec_numeral)
  have "foldl (next_code_step bl_count) (0, replicate 16 0) [1..<Suc (Suc k)]
      = next_code_step bl_count (foldl (next_code_step bl_count) (0, replicate 16 0) [1..<Suc k]) (Suc k)"
    by simp
  also have "\<dots> = next_code_step bl_count (word_of_nat (?f k),
      map (\<lambda>l. if 1 \<le> l \<and> l \<le> k then word_of_nat (?f l) else 0) [0..<16]) (Suc k)"
    using Suc.IH Suc.prems by (simp only: Suc_leD)
  also have "\<dots> = (word_of_nat (?f (Suc k)),
      map (\<lambda>l. if 1 \<le> l \<and> l \<le> Suc k then word_of_nat (?f l) else 0) [0..<16])"
    unfolding next_code_step_def prod.case Let_def diff_Suc_1 code ucast_of_nat_u32_u16 upd ..
  finally show ?case .
qed

lemma next_code_nth:
  "1 \<le> l \<Longrightarrow> l \<le> 15 \<Longrightarrow> gen_next_code bl_count ! l = word_of_nat (first_code (bl_cnt bl_count) l)"
  using next_code_fold [of 15 bl_count] by (simp add: gen_next_code_def MAX_BITS_def del: upt_rec_numeral)

lemma length_gen_next_code [simp]: "length (gen_next_code bl_count) = 16"
  using next_code_fold [of 15 bl_count] by (simp add: gen_next_code_def MAX_BITS_def del: upt_rec_numeral)

lemma length_tree_lens [simp]: "length (tree_lens tree) = length tree"
  by (simp add: tree_lens_def)

lemma tree_lens_nth: "n < length tree \<Longrightarrow> tree_lens tree ! n = unat (Len (tree ! n))"
  by (simp add: tree_lens_def)

text \<open>The state of the second loop after the first \<open>n\<close> symbols.\<close>

definition coded :: "u16 list \<Rightarrow> ct_data list \<Rightarrow> nat \<Rightarrow> ct_data \<Rightarrow> ct_data" where
  "coded bl_count tree m x =
     (let len = unat (Len x) in
      if len = 0 then x
      else x\<lparr>fc := ucast (bi_reverse (ucast (word_of_nat
        (canon_code (bl_cnt bl_count) (tree_lens tree) m) :: u16)) len)\<rparr>)"

lemma gen_codes_fold:
  assumes "n \<le> length tree" and "\<forall>m<n. unat (Len (tree ! m)) \<le> 15"
  shows "\<exists>next. foldl gen_codes_step (tree, gen_next_code bl_count) [0..<n]
      = (map (\<lambda>m. if m < n then coded bl_count tree m (tree ! m) else tree ! m) [0..<length tree], next)
    \<and> length next = 16
    \<and> (\<forall>l. 1 \<le> l \<and> l \<le> 15 \<longrightarrow>
        next ! l = word_of_nat (first_code (bl_cnt bl_count) l + count_list (take n (tree_lens tree)) l))"
  using assms
proof (induction n)
  case 0
  have "map (\<lambda>m. tree ! m) [0..<length tree] = tree" by (simp add: map_nth)
  then show ?case by (simp add: next_code_nth)
next
  case (Suc n)
  let ?f = "first_code (bl_cnt bl_count)" and ?lens = "tree_lens tree"
  let ?t = "map (\<lambda>m. if m < n then coded bl_count tree m (tree ! m) else tree ! m) [0..<length tree]"
  obtain nc where IH: "foldl gen_codes_step (tree, gen_next_code bl_count) [0..<n] = (?t, nc)"
    "length nc = 16"
    "\<And>l. 1 \<le> l \<Longrightarrow> l \<le> 15 \<Longrightarrow> nc ! l = word_of_nat (?f l + count_list (take n ?lens) l)"
    using Suc by auto
  have n: "n < length tree" using Suc.prems by simp
  have take: "count_list (take (Suc n) ?lens) l
      = count_list (take n ?lens) l + (if l = unat (Len (tree ! n)) then 1 else 0)" for l
    using n by (simp add: take_Suc_conv_app_nth tree_lens_nth)
  have step: "foldl gen_codes_step (tree, gen_next_code bl_count) [0..<Suc n] = gen_codes_step (?t, nc) n"
    using IH(1) by simp
  show ?case
  proof (cases "unat (Len (tree ! n)) = 0")
    case True
    have "map (\<lambda>m. if m < Suc n then coded bl_count tree m (tree ! m) else tree ! m) [0..<length tree] = ?t"
      using True n by (intro map_cong refl) (auto simp: coded_def less_Suc_eq)
    moreover have "gen_codes_step (?t, nc) n = (?t, nc)"
      using True n by (simp add: gen_codes_step_def)
    moreover have "count_list (take (Suc n) ?lens) l = count_list (take n ?lens) l" if "1 \<le> l" for l
      using True take that by simp
    ultimately show ?thesis
      unfolding step using IH(2,3) by (intro exI [of _ nc]) (simp del: map_eq_conv)
  next
    case False
    let ?l = "unat (Len (tree ! n))"
    have l: "1 \<le> ?l" "?l \<le> 15" using False Suc.prems by auto
    have canon: "canon_code (bl_cnt bl_count) ?lens n = ?f ?l + count_list (take n ?lens) ?l"
      using n by (simp add: canon_code_def tree_lens_nth)
    let ?c = "(tree ! n)\<lparr>fc := ucast (bi_reverse (ucast (nc ! ?l)) ?l)\<rparr>"
    have "?t[n := ?c]
        = map (\<lambda>m. if m < Suc n then coded bl_count tree m (tree ! m) else tree ! m) [0..<length tree]"
      using n l canon IH(3) [OF l]
      by (intro nth_equalityI) (auto simp: nth_list_update coded_def Let_def less_Suc_eq)
    moreover have "gen_codes_step (?t, nc) n = (?t[n := ?c], nc[?l := nc ! ?l + 1])"
      using False n by (simp add: gen_codes_step_def Let_def)
    moreover have "nc[?l := nc ! ?l + 1] ! k = word_of_nat (?f k + count_list (take (Suc n) ?lens) k)"
      if "1 \<le> k \<and> k \<le> 15" for k
      using IH(2,3) l that take by (cases "k = ?l") simp_all
    ultimately show ?thesis
      unfolding step using IH(2) by (intro exI [of _ "nc[?l := nc ! ?l + 1]"]) simp
  qed
qed


lemma gen_codes_closed:
  assumes "nat (max_code + 1) \<le> length tree" and "\<forall>m<nat (max_code + 1). unat (Len (tree ! m)) \<le> 15"
  shows "gen_codes tree max_code bl_count
    = map (\<lambda>m. if m < nat (max_code + 1) then coded bl_count tree m (tree ! m) else tree ! m) [0..<length tree]"
proof -
  obtain nc where "foldl gen_codes_step (tree, gen_next_code bl_count) [0..<nat (max_code + 1)]
      = (map (\<lambda>m. if m < nat (max_code + 1) then coded bl_count tree m (tree ! m) else tree ! m) [0..<length tree], nc)"
    using gen_codes_fold [OF assms, of bl_count] by blast
  then show ?thesis unfolding gen_codes_def by (simp only: fst_conv)
qed

section \<open>The bits of a code\<close>

lemma value_bits_coded:
  assumes "1 \<le> l" "l \<le> 16"
  shows "value_bits (uint (ucast (bi_reverse (ucast (word_of_nat c :: u16)) l) :: u16)) l = msb_bits c l"
  unfolding value_bits_def msb_bits_def
proof (rule nth_equalityI)
  fix i assume "i < length (map (bit (uint (ucast (bi_reverse (ucast (word_of_nat c :: u16)) l) :: u16))) [0..<l])"
  then have i: "i < l" by simp
  then have "bit (bi_reverse (ucast (word_of_nat c :: u16)) l) i = bit c (l - 1 - i)"
    using assms by (auto simp: bit_bi_reverse bit_simps)
  then show "map (bit (uint (ucast (bi_reverse (ucast (word_of_nat c :: u16)) l) :: u16))) [0..<l] ! i
      = rev (map (bit c) [0..<l]) ! i"
    using i assms by (simp add: bit_uint_iff bit_ucast_iff rev_nth)
qed simp

lemma tree_code_gen_codes:
  assumes "nat (max_code + 1) \<le> length tree" and "\<forall>m<nat (max_code + 1). unat (Len (tree ! m)) \<le> 15"
    and "n < nat (max_code + 1)" and "unat (Len (tree ! n)) \<noteq> 0"
  shows "tree_code (gen_codes tree max_code bl_count) n
    = msb_bits (canon_code (bl_cnt bl_count) (tree_lens tree) n) (unat (Len (tree ! n)))"
proof -
  have "1 \<le> unat (Len (tree ! n))" "unat (Len (tree ! n)) \<le> 16" using assms(2-4) by auto
  then show ?thesis
    using assms value_bits_coded [of "unat (Len (tree ! n))" "canon_code (bl_cnt bl_count) (tree_lens tree) n"]
    by (simp add: tree_code_def gen_codes_closed coded_def Let_def)
qed

lemma tree_lens_gen_codes:
  assumes "nat (max_code + 1) \<le> length tree" and "\<forall>m<nat (max_code + 1). unat (Len (tree ! m)) \<le> 15"
  shows "tree_lens (gen_codes tree max_code bl_count) = tree_lens tree"
  using assms by (intro nth_equalityI) (auto simp: gen_codes_closed tree_lens_def coded_def Let_def)

section \<open>Prefix codes\<close>

text \<open>The decoder's view: codes no one of which is a prefix of another.  A stream of such codes
  splits in one way only.\<close>

locale prefix_code =
  fixes syms :: "'a set"
    and enc :: "'a \<Rightarrow> bool list"
  assumes enc_nonempty: "x \<in> syms \<Longrightarrow> enc x \<noteq> []"
    and enc_prefix_free: "x \<in> syms \<Longrightarrow> y \<in> syms \<Longrightarrow> prefix (enc x) (enc y) \<Longrightarrow> x = y"
begin

lemma first_symbol:
  assumes "x \<in> syms" "y \<in> syms" "enc x @ r = enc y @ r'"
  shows "x = y \<and> r = r'"
proof -
  have "prefix (enc x) (enc y) \<or> prefix (enc y) (enc x)"
    using assms(3) by (metis prefixI prefix_same_cases)
  then have "x = y" using assms(1,2) enc_prefix_free by metis
  then show ?thesis using assms(3) by simp
qed

lemma concat_unique:
  "set xs \<subseteq> syms \<Longrightarrow> set ys \<subseteq> syms \<Longrightarrow> concat (map enc xs) = concat (map enc ys) \<Longrightarrow> xs = ys"
proof (induction xs arbitrary: ys)
  case Nil
  then show ?case using enc_nonempty by (cases ys) auto
next
  case (Cons x xs)
  then obtain y ys' where ys: "ys = y # ys'" using enc_nonempty by (cases ys) auto
  then show ?case using Cons first_symbol [of x y] by auto
qed

text \<open>With an end-of-block symbol the stream can be followed by anything.\<close>

lemma until_end_unique:
  assumes "set xs \<subseteq> syms - {e}" "set ys \<subseteq> syms - {e}" "e \<in> syms"
    and "concat (map enc xs) @ enc e @ r = concat (map enc ys) @ enc e @ r'"
  shows "xs = ys \<and> r = r'"
  using assms(1,2,4)
proof (induction xs arbitrary: ys)
  case Nil
  show ?case
  proof (cases ys)
    case (Cons y ys')
    then have "enc e @ r = enc y @ concat (map enc ys') @ enc e @ r'" and "y \<in> syms" and "y \<noteq> e"
      using Nil.prems by auto
    then show ?thesis using first_symbol assms(3) by blast
  qed (use Nil.prems in simp)
next
  case (Cons x xs)
  then have x: "x \<in> syms" "x \<noteq> e" by auto
  show ?case
  proof (cases ys)
    case Nil
    then have "enc x @ concat (map enc xs) @ enc e @ r = enc e @ r'"
      using Cons.prems by simp
    then show ?thesis using first_symbol assms(3) x by blast
  next
    case ys: (Cons y ys')
    then have "enc x @ concat (map enc xs) @ enc e @ r = enc y @ concat (map enc ys') @ enc e @ r'"
      and y: "y \<in> syms" using Cons.prems by auto
    then have "x = y \<and> concat (map enc xs) @ enc e @ r = concat (map enc ys') @ enc e @ r'"
      using first_symbol x(1) by blast
    then show ?thesis using Cons.IH [of ys'] Cons.prems ys by simp
  qed
qed

end

section \<open>Kraft's inequality makes the canonical code a prefix code\<close>

definition kraft_ok :: "(nat \<Rightarrow> nat) \<Rightarrow> bool" where
  "kraft_ok cnt \<longleftrightarrow> (\<Sum>l\<leftarrow>[0..<16]. cnt l * 2 ^ (15 - l)) \<le> 2 ^ 15"

lemma first_code_sum: "l \<le> 15 \<Longrightarrow> first_code cnt l * 2 ^ (15 - l) = (\<Sum>k\<leftarrow>[0..<l]. cnt k * 2 ^ (15 - k))"
proof (induction l)
  case (Suc l)
  then have "2 ^ (15 - l) = 2 * (2 :: nat) ^ (15 - Suc l)"
    by (metis Suc_diff_le diff_Suc_Suc power_Suc)
  then show ?case using Suc by (simp add: algebra_simps)
qed simp

lemma first_code_bound:
  assumes "kraft_ok cnt" "l \<le> 15"
  shows "first_code cnt l + cnt l \<le> 2 ^ l"
proof -
  have "(first_code cnt l + cnt l) * 2 ^ (15 - l) = (\<Sum>k\<leftarrow>[0..<Suc l]. cnt k * 2 ^ (15 - k))"
    using first_code_sum [OF assms(2), of cnt] by (simp add: algebra_simps)
  also have "\<dots> \<le> (\<Sum>k\<leftarrow>[0..<Suc l]. cnt k * 2 ^ (15 - k)) + (\<Sum>k\<leftarrow>[Suc l..<16]. cnt k * 2 ^ (15 - k))"
    by simp
  also have "\<dots> = (\<Sum>k\<leftarrow>[0..<16]. cnt k * 2 ^ (15 - k))"
    using assms(2) map_upt_split [of "Suc l" 16 "\<lambda>k. cnt k * 2 ^ (15 - k)"]
    by (simp only: flip: sum_list_append)
  also have "\<dots> \<le> 2 ^ l * 2 ^ (15 - l)"
    using assms by (simp add: kraft_ok_def flip: power_add)
  finally show ?thesis by simp
qed

lemma first_code_later:
  assumes "l1 < l2"
  shows "(first_code cnt l1 + cnt l1) * 2 ^ (l2 - l1) \<le> first_code cnt l2"
  using assms
proof (induction l2)
  case (Suc l2)
  show ?case
  proof (cases "l1 = l2")
    case False
    then have "(first_code cnt l1 + cnt l1) * 2 ^ (l2 - l1) \<le> first_code cnt l2" using Suc by simp
    moreover have "2 ^ (Suc l2 - l1) = 2 * (2 :: nat) ^ (l2 - l1)" using False Suc.prems by (simp add: Suc_diff_le)
    ultimately show ?thesis by (simp add: algebra_simps)
  qed simp
qed simp

lemma count_list_take_less:
  "n < length xs \<Longrightarrow> count_list (take n xs) (xs ! n) < count_list xs (xs ! n)"
proof -
  assume n: "n < length xs"
  then have "xs = take n xs @ xs ! n # drop (Suc n) xs" by (rule id_take_nth_drop)
  then have "count_list xs (xs ! n) = count_list (take n xs) (xs ! n) + (1 + count_list (drop (Suc n) xs) (xs ! n))"
    by (metis count_list.simps(2) count_list_append plus_1_eq_Suc add.commute)
  then show ?thesis by simp
qed

lemma count_list_take_inj:
  assumes "m < n" "n < length xs" "xs ! m = xs ! n"
  shows "count_list (take m xs) (xs ! n) < count_list (take n xs) (xs ! n)"
proof -
  have "count_list (take m (take n xs)) (take n xs ! m) < count_list (take n xs) (take n xs ! m)"
    using assms by (intro count_list_take_less) simp
  then show ?thesis using assms by (simp add: min_def)
qed

lemma msb_bits_prefix:
  assumes "prefix (msb_bits c1 l1) (msb_bits c2 l2)" "c1 < 2 ^ l1" "c2 < 2 ^ l2"
  shows "l1 \<le> l2 \<and> c1 = c2 div 2 ^ (l2 - l1)"
proof -
  have len: "l1 \<le> l2"
    using prefix_length_le [OF assms(1)] by (simp add: msb_bits_def)
  have eq: "rev (map (bit c1) [0..<l1]) = take l1 (rev (map (bit c2) [0..<l2]))"
    using assms(1) unfolding msb_bits_def
    by (metis append_eq_conv_conj length_map length_rev length_upt minus_nat.diff_0 prefix_def)
  have "bit c1 i = bit (c2 div 2 ^ (l2 - l1)) i" for i
  proof (cases "i < l1")
    case True
    have "rev (map (bit c1) [0..<l1]) ! (l1 - Suc i) = rev (map (bit c2) [0..<l2]) ! (l1 - Suc i)"
      unfolding eq using True len by simp
    moreover have "l1 - Suc (l1 - Suc i) = i" "l2 - Suc (l1 - Suc i) = l2 - l1 + i" using True len by auto
    ultimately show ?thesis
      using True len by (simp add: rev_nth flip: drop_bit_eq_div) (simp add: bit_drop_bit_eq add.commute)
  next
    case False
    have "c2 div 2 ^ (l2 - l1) < 2 ^ l1"
      using assms(3) len by (simp add: less_mult_imp_div_less flip: power_add)
    then show ?thesis
      using False assms(2) by (metis bit_take_bit_iff take_bit_nat_eq_self)
  qed
  then show ?thesis using len by (simp add: bit_eq_iff)
qed

text \<open>The histogram of the lengths, as \<open>gen_bitlen\<close> leaves it in \<open>bl_count\<close>.\<close>

definition histogram :: "nat list \<Rightarrow> (nat \<Rightarrow> nat) \<Rightarrow> bool" where
  "histogram lens cnt \<longleftrightarrow> (\<forall>l\<in>{1..15}. count_list lens l \<le> cnt l)"

lemma canon_code_bounds:
  assumes "histogram lens cnt" "n < length lens" "1 \<le> lens ! n" "lens ! n \<le> 15"
  shows "first_code cnt (lens ! n) \<le> canon_code cnt lens n"
    and "canon_code cnt lens n < first_code cnt (lens ! n) + cnt (lens ! n)"
  using assms count_list_take_less [OF assms(2)]
  by (auto simp: canon_code_def histogram_def intro: less_le_trans)

lemma canon_prefix_free:
  assumes kraft: "kraft_ok cnt" and hist: "histogram lens cnt"
    and m: "m < length lens" "1 \<le> lens ! m" "lens ! m \<le> 15"
    and n: "n < length lens" "1 \<le> lens ! n" "lens ! n \<le> 15"
    and pre: "prefix (msb_bits (canon_code cnt lens m) (lens ! m)) (msb_bits (canon_code cnt lens n) (lens ! n))"
  shows "m = n"
proof -
  let ?c = "canon_code cnt lens" and ?f = "first_code cnt"
  note cm = canon_code_bounds [OF hist m] and cn = canon_code_bounds [OF hist n]
  have bm: "?c m < 2 ^ (lens ! m)" and bn: "?c n < 2 ^ (lens ! n)"
    using cm cn first_code_bound [OF kraft m(3)] first_code_bound [OF kraft n(3)] by linarith+
  have le: "lens ! m \<le> lens ! n" and eq: "?c m = ?c n div 2 ^ (lens ! n - lens ! m)"
    using msb_bits_prefix [OF pre bm bn] by auto
  have same: "lens ! m = lens ! n"
  proof (rule ccontr)
    assume "lens ! m \<noteq> lens ! n"
    then have "(?f (lens ! m) + cnt (lens ! m)) * 2 ^ (lens ! n - lens ! m) \<le> ?c n"
      using first_code_later [of "lens ! m" "lens ! n" cnt] le cn(1) by linarith
    then have "?f (lens ! m) + cnt (lens ! m) \<le> ?c n div 2 ^ (lens ! n - lens ! m)"
      by (simp add: less_eq_div_iff_mult_less_eq)
    then show False using eq cm by simp
  qed
  then have "count_list (take m lens) (lens ! n) = count_list (take n lens) (lens ! n)"
    using eq by (simp add: canon_code_def)
  then show "m = n"
    using count_list_take_inj [of m n lens] count_list_take_inj [of n m lens] same m(1) n(1)
    by (metis less_irrefl linorder_neqE_nat)
qed

section \<open>The tables of trees.h are the generator's\<close>

lemma length_tables:
  "(base_length, length_code) = init_length_tables"
  by (simp add: init_length_tables_def init_length_step_def tree_consts upt_rec extra_lbits_def
      base_length_def length_code_def list_eval)

lemma dist_tables:
  "(base_dist, dist_code) = init_dist_tables"
  by (simp add: init_dist_tables_def init_dist_step_def init_dist_step_128_def tree_consts upt_rec
      extra_dbits_def base_dist_def dist_code_def list_eval)

lemma static_dtree_init: "static_dtree = init_static_dtree"
  by (simp add: init_static_dtree_def static_dtree_def tree_consts upt_rec bi_reverse_eval)

lemma count_list_replicate: "count_list (replicate n x) y = (if x = y then n else 0)"
  by (induction n) auto

lemma first_code_numeral:
  "first_code cnt (numeral k) = 2 * (first_code cnt (pred_numeral k) + cnt (pred_numeral k))"
  by (simp add: numeral_eq_Suc)

lemma canon_static:
  assumes "m < 288"
  shows "canon_code (bl_cnt static_bl_count) (map unat static_lens) m
    = (if m < 144 then 48 + m else if m < 256 then 256 + m else if m < 280 then m - 256 else m - 88)"
proof -
  have f: "first_code (bl_cnt static_bl_count) 7 = 0" "first_code (bl_cnt static_bl_count) 8 = 48"
    "first_code (bl_cnt static_bl_count) 9 = 400"
    by (simp_all add: static_bl_count_def MAX_BITS_def first_code_numeral nth_list_update)
  have lens: "map unat static_lens = replicate 144 8 @ replicate 112 9 @ replicate 24 7 @ replicate 8 8"
    by (simp add: static_lens_def)
  show ?thesis
    unfolding canon_code_def lens using assms f
    by (auto simp: nth_append count_list_replicate min_def split: if_splits)
qed

definition static_entry :: "nat \<Rightarrow> ct_data" where
  "static_entry m =
     (if m < 144 then ct (ucast (bi_reverse (word_of_nat (48 + m)) 8)) 8
      else if m < 256 then ct (ucast (bi_reverse (word_of_nat (256 + m)) 9)) 9
      else if m < 280 then ct (ucast (bi_reverse (word_of_nat (m - 256)) 7)) 7
      else ct (ucast (bi_reverse (word_of_nat (m - 88)) 8)) 8)"

lemma length_static_lens: "length static_lens = 288" by (simp add: static_lens_def)

lemma static_lens_nth:
  "m < 288 \<Longrightarrow> static_lens ! m = (if m < 144 then 8 else if m < 256 then 9 else if m < 280 then 7 else 8)"
  by (auto simp: static_lens_def nth_append)

lemma ucast_small_nat: "n < 65536 \<Longrightarrow> ucast (word_of_nat n :: u16) = (word_of_nat n :: u32)"
  by (simp add: unsigned_of_nat take_bit_nat_eq_self)

lemma static_ltree_map: "init_static_ltree = map static_entry [0..<288]"
proof -
  let ?t = "map (ct 0) static_lens"
  have n: "nat (int L_CODES + 1 + 1) = 288" by (simp add: tree_consts)
  have lens: "tree_lens ?t = map unat static_lens" by (simp add: tree_lens_def)
  have "gen_codes ?t (int L_CODES + 1) static_bl_count
      = map (\<lambda>m. if m < 288 then coded static_bl_count ?t m (?t ! m) else ?t ! m) [0..<length ?t]"
    unfolding n [symmetric]
    by (rule gen_codes_closed) (auto simp: tree_consts length_static_lens static_lens_nth)
  also have "\<dots> = map static_entry [0..<288]"
    unfolding length_map length_static_lens
  proof (rule map_cong [OF refl])
    fix m assume "m \<in> set [0..<288]"
    then have m: "m < 288" by simp
    then show "(if m < 288 then coded static_bl_count ?t m (?t ! m) else ?t ! m) = static_entry m"
      by (auto simp: coded_def Let_def lens canon_static length_static_lens static_lens_nth static_entry_def ucast_small_nat
        simp del: of_nat_add of_nat_diff)
  qed
  finally show ?thesis unfolding init_static_ltree_def .
qed

lemma static_ltree_entries: "static_ltree = map static_entry [0..<288]"
  by (simp add: static_entry_def static_ltree_def upt_rec bi_reverse_eval)

text \<open>Every distance from 1 to 32768 is inside the range of its code, and every length likewise.\<close>

lemma dist_code_low: "list_all (\<lambda>(c, d). c < 16 \<and> base_dist ! c \<le> d \<and> d < base_dist ! c + 2 ^ (extra_dbits ! c))
    (zip (take 256 dist_code) [0..<256])"
  by (simp add: dist_code_def base_dist_def extra_dbits_def upt_rec)

lemma dist_code_high: "list_all (\<lambda>(c, q). c < 30 \<and> base_dist ! c \<le> 128 * q \<and> 128 * q + 128 \<le> base_dist ! c + 2 ^ (extra_dbits ! c))
    (zip (drop 258 dist_code) [2..<256])"
  by (simp add: dist_code_def base_dist_def extra_dbits_def upt_rec)

lemma length_code_ranges: "list_all (\<lambda>(c, l). c < 29 \<and>
    (if c = 28 then l = 255 else base_length ! c \<le> l \<and> l < base_length ! c + 2 ^ (extra_lbits ! c)))
    (zip length_code [0..<256])"
  by (simp add: length_code_def base_length_def extra_lbits_def upt_rec)

lemma length_dist_code [simp]: "length dist_code = 512" by (simp add: dist_code_def)
lemma length_length_code [simp]: "length length_code = 256" by (simp add: length_code_def)

lemma list_all_zip_upt:
  "list_all P (zip xs [m..<n]) \<Longrightarrow> i < length xs \<Longrightarrow> m + i < n \<Longrightarrow> P (xs ! i, m + i)"
  by (auto simp: list_all_length)

lemma d_code_range:
  assumes "d < 32768"
  shows "d_code d < 30" and "base_dist ! d_code d \<le> d" and "d < base_dist ! d_code d + 2 ^ (extra_dbits ! d_code d)"
proof -
  let ?q = "d div 128"
  have "d_code d < 30 \<and> base_dist ! d_code d \<le> d \<and> d < base_dist ! d_code d + 2 ^ (extra_dbits ! d_code d)"
  proof (cases "d < 256")
    case True
    then show ?thesis using list_all_zip_upt [OF dist_code_low, of d] by (simp add: d_code_def)
  next
    case False
    have q: "2 \<le> ?q" "?q < 256" "128 * ?q \<le> d" "d < 128 * ?q + 128"
      using False assms by (simp_all add: div_le_mono less_eq_div_iff_mult_less_eq less_mult_imp_div_less)
    have "drop 258 dist_code ! (?q - 2) = dist_code ! (256 + ?q)" using q by simp
    moreover have "2 + (?q - 2) = ?q" using q by simp
    ultimately have "dist_code ! (256 + ?q) < 30 \<and> base_dist ! (dist_code ! (256 + ?q)) \<le> 128 * ?q \<and>
        128 * ?q + 128 \<le> base_dist ! (dist_code ! (256 + ?q)) + 2 ^ (extra_dbits ! (dist_code ! (256 + ?q)))"
      using list_all_zip_upt [OF dist_code_high, of "?q - 2"] q by simp
    then have "dist_code ! (256 + ?q) < 30 \<and> base_dist ! (dist_code ! (256 + ?q)) \<le> d \<and>
        d < base_dist ! (dist_code ! (256 + ?q)) + 2 ^ (extra_dbits ! (dist_code ! (256 + ?q)))"
      using q(3,4) by (elim conjE) (intro conjI; linarith)
    moreover have "d_code d = dist_code ! (256 + ?q)" using False by (simp add: d_code_def)
    ultimately show ?thesis by (simp only:)
  qed
  then show "d_code d < 30" and "base_dist ! d_code d \<le> d" and "d < base_dist ! d_code d + 2 ^ (extra_dbits ! d_code d)"
    by simp_all
qed

lemma length_code_range:
  assumes "l < 256"
  shows "length_code ! l < 29" and "length_code ! l = 28 \<Longrightarrow> l = 255"
    and "length_code ! l \<noteq> 28 \<Longrightarrow> base_length ! (length_code ! l) \<le> l
      \<and> l < base_length ! (length_code ! l) + 2 ^ (extra_lbits ! (length_code ! l))"
  using list_all_zip_upt [OF length_code_ranges, of l] assms by (simp_all split: if_splits)

lemma gen_codes_prefix_eq:
  assumes "nat (max_code + 1) \<le> length tree"
    and "\<forall>m<nat (max_code + 1). unat (Len (tree ! m)) \<le> 15"
    and "histogram (tree_lens (take (nat (max_code + 1)) tree)) (bl_cnt bl_count)"
    and "kraft_ok (bl_cnt bl_count)"
    and "m < nat (max_code + 1)" "Len (tree ! m) \<noteq> 0" "n < nat (max_code + 1)" "Len (tree ! n) \<noteq> 0"
    and pre: "prefix (tree_code (gen_codes tree max_code bl_count) m) (tree_code (gen_codes tree max_code bl_count) n)"
  shows "m = n"
proof -
  let ?k = "nat (max_code + 1)" and ?cnt = "bl_cnt bl_count"
  let ?lens = "tree_lens (take ?k tree)"
  have lens: "?lens = take ?k (tree_lens tree)" by (simp add: tree_lens_def take_map)
  have nth: "?lens ! i = unat (Len (tree ! i))" if "i < ?k" for i
    using that assms(1) by (simp add: lens tree_lens_nth)
  have canon: "canon_code ?cnt (tree_lens tree) i = canon_code ?cnt ?lens i" if "i < ?k" for i
    using that by (simp add: canon_code_def lens min_def)
  have pos: "1 \<le> unat (Len (tree ! m))" "1 \<le> unat (Len (tree ! n))"
    using assms(6,8) by (simp_all add: Suc_le_eq unat_gt_0)
  have "prefix (msb_bits (canon_code ?cnt ?lens m) (?lens ! m)) (msb_bits (canon_code ?cnt ?lens n) (?lens ! n))"
    using pre pos by (simp add: tree_code_gen_codes [OF assms(1,2)] assms(5,7) canon nth)
  moreover have "i < length ?lens" if "i < ?k" for i
    using that assms(1) by (simp add: lens)
  moreover have "?lens ! m \<le> 15" "?lens ! n \<le> 15" "1 \<le> ?lens ! m" "1 \<le> ?lens ! n"
    using assms(2,5,7) pos by (simp_all add: nth)
  ultimately show "m = n"
    using assms(5,7) by (intro canon_prefix_free [OF assms(4,3)]) blast+
qed

text \<open>The static literal tree is a prefix code in the sense of the locale.\<close>

lemma static_tree_lens: "tree_lens init_static_ltree = map unat static_lens"
  unfolding init_static_ltree_def
  by (subst tree_lens_gen_codes) (auto simp: tree_consts length_static_lens static_lens_nth tree_lens_def)

lemma static_Len: "n < 288 \<Longrightarrow> unat (Len (static_ltree ! n)) = unat (static_lens ! n)"
  using static_tree_lens tree_lens_nth [of n init_static_ltree] length_static_lens
  by (simp add: static_ltree_entries static_ltree_map)

interpretation static_code: prefix_code "{..<288}" "tree_code static_ltree"
proof
  fix x :: nat assume "x \<in> {..<288}"
  then show "tree_code static_ltree x \<noteq> []"
    using static_Len [of x] static_lens_nth [of x] by (auto simp: tree_code_def value_bits_def split: if_splits)
next
  fix x y :: nat assume x: "x \<in> {..<288}" and y: "y \<in> {..<288}"
    and pre: "prefix (tree_code static_ltree x) (tree_code static_ltree y)"
  have hist: "histogram (tree_lens (take (nat (287 + 1)) (map (ct 0) static_lens))) (bl_cnt static_bl_count)"
    by (auto simp: histogram_def tree_lens_def static_lens_def count_list_replicate static_bl_count_def MAX_BITS_def
        nth_list_update)
  have kraft: "kraft_ok (bl_cnt static_bl_count)"
    by (simp add: kraft_ok_def static_bl_count_def upt_rec MAX_BITS_def list_eval)
  have t: "static_ltree = gen_codes (map (ct 0) static_lens) 287 static_bl_count"
    using static_ltree_entries static_ltree_map by (simp add: init_static_ltree_def tree_consts)
  have nz: "static_lens ! i \<noteq> 0 \<and> unat (static_lens ! i) \<le> 15" if "i < 288" for i
    using static_lens_nth [OF that] by (simp split: if_splits)
  show "x = y"
    using x y pre unfolding t
    by (intro gen_codes_prefix_eq [OF _ _ hist kraft]) (auto simp: length_static_lens nz)
qed
section \<open>Properties\<close>

text \<open>C20: The header \<open>trees.h\<close> is what \<open>tr_static_init\<close> generates: the static literal and distance
  trees and the four mapping tables.\<close>

theorem trees_header_generated:
  "static_ltree = init_static_ltree \<and> static_dtree = init_static_dtree \<and>
   (base_length, length_code) = init_length_tables \<and> (base_dist, dist_code) = init_dist_tables"
  by (simp add: static_ltree_entries static_ltree_map static_dtree_init length_tables dist_tables)

text \<open>\<open>d_code\<close> maps every distance of the window to a distance code whose range holds it: the
  difference to the code's base fits the code's extra bits, so the pair sent determines the distance.\<close>

theorem d_code_in_range:
  assumes "d < 32768"
  shows "d_code d < D_CODES \<and> base_dist ! d_code d \<le> d \<and> d - base_dist ! d_code d < 2 ^ (extra_dbits ! d_code d)"
  using d_code_range [OF assms] by (simp add: D_CODES_def)

theorem d_code_in_range_witness: "d_code 32767 = 29 \<and> 32767 - base_dist ! 29 < 2 ^ (extra_dbits ! 29)"
proof -
  have "d_code 32767 = 29" by (simp add: d_code_def dist_code_def)
  then show ?thesis using d_code_in_range [of 32767] by simp
qed

text \<open>C13: \<open>gen_codes\<close> assigns prefix-free codes: when the lengths are at most 15, \<open>bl_count\<close> counts
  them and satisfies Kraft's inequality, the bits sent for two different symbols in use are never a
  prefix of each other.\<close>

theorem gen_codes_prefix_free:
  assumes "nat (max_code + 1) \<le> length tree"
    and "\<forall>m<nat (max_code + 1). unat (Len (tree ! m)) \<le> 15"
    and "histogram (tree_lens (take (nat (max_code + 1)) tree)) (bl_cnt bl_count)"
    and "kraft_ok (bl_cnt bl_count)"
    and "m < nat (max_code + 1)" "Len (tree ! m) \<noteq> 0" "n < nat (max_code + 1)" "Len (tree ! n) \<noteq> 0"
    and "m \<noteq> n"
  shows "\<not> prefix (tree_code (gen_codes tree max_code bl_count) m) (tree_code (gen_codes tree max_code bl_count) n)"
  using gen_codes_prefix_eq [OF assms(1-8)] assms(9) by blast

theorem gen_codes_prefix_free_witness:
  "\<not> prefix (tree_code (gen_codes [ct 5 1, ct 3 2, ct 2 2] 2 [0, 1, 2, 0, 0, 0, 0, 0, 0, 0, 0, 0, 0, 0, 0, 0]) 0)
            (tree_code (gen_codes [ct 5 1, ct 3 2, ct 2 2] 2 [0, 1, 2, 0, 0, 0, 0, 0, 0, 0, 0, 0, 0, 0, 0, 0]) 2)"
proof (rule gen_codes_prefix_free)
  show "\<forall>m<nat (2 + 1). unat (Len ([ct 5 1, ct 3 2, ct 2 2] ! m)) \<le> 15"
    by (auto simp: less_Suc_eq numeral_3_eq_3)
  show "histogram (tree_lens (take (nat (2 + 1)) [ct 5 1, ct 3 2, ct 2 2]))
      (bl_cnt [0, 1, 2, 0, 0, 0, 0, 0, 0, 0, 0, 0, 0, 0, 0, 0])"
    by (auto simp: histogram_def tree_lens_def atLeastAtMost_iff le_Suc_eq numeral_3_eq_3 Suc_le_eq nth_Cons' )
  show "kraft_ok (bl_cnt [0, 1, 2, 0, 0, 0, 0, 0, 0, 0, 0, 0, 0, 0, 0, 0])"
    by (simp add: kraft_ok_def upt_rec)
qed simp_all

end
