(* ===== verification/Inflate_Table.thy ===== *)
theory Inflate_Table
  imports Huffman_Codes
begin

text \<open>
  \<open>inflate_table\<close> of \<open>src/src/zlib/inftrees.c\<close>: the decoding tables of a canonical Huffman code given by
  its code lengths.  The table space is a list of entries and pointers into it are indices; the
  \<open>unsigned\<close> locals, which stay far below the width, are natural numbers, \<open>low\<close> starts at the value
  \<open>(unsigned)(-1)\<close> that no index reaches, and \<open>left\<close> is an integer.
\<close>

record code =
  code_op :: u8
  code_bits :: u8
  code_val :: u16

datatype codetype = CODES | LENS | DISTS

definition MAXBITS :: nat where "MAXBITS = 15"
definition ENOUGH_LENS :: nat where "ENOUGH_LENS = 852"
definition ENOUGH_DISTS :: nat where "ENOUGH_DISTS = 592"
definition ENOUGH :: nat where "ENOUGH = ENOUGH_LENS + ENOUGH_DISTS"

definition lbase :: "nat list" where
  "lbase = [3, 4, 5, 6, 7, 8, 9, 10, 11, 13, 15, 17, 19, 23, 27, 31,
     35, 43, 51, 59, 67, 83, 99, 115, 131, 163, 195, 227, 258, 0, 0]"

definition lext :: "nat list" where
  "lext = [16, 16, 16, 16, 16, 16, 16, 16, 17, 17, 17, 17, 18, 18, 18, 18,
     19, 19, 19, 19, 20, 20, 20, 20, 21, 21, 21, 21, 16, 77, 202]"

definition dbase :: "nat list" where
  "dbase = [1, 2, 3, 4, 5, 7, 9, 13, 17, 25, 33, 49, 65, 97, 129, 193,
     257, 385, 513, 769, 1025, 1537, 2049, 3073, 4097, 6145,
     8193, 12289, 16385, 24577, 0, 0]"

definition dext :: "nat list" where
  "dext = [16, 16, 16, 16, 17, 17, 18, 18, 19, 19, 20, 20, 21, 21, 22, 22,
     23, 23, 24, 24, 25, 25, 26, 26, 27, 27, 28, 28, 29, 29, 64, 64]"

section \<open>Counting and sorting\<close>

definition count_lens :: "nat list \<Rightarrow> nat list" where
  "count_lens lens = foldl (\<lambda>cnt l. cnt[l := cnt ! l + 1]) (replicate (MAXBITS + 1) 0) lens"

text \<open>\<open>for (max = MAXBITS; max >= 1; max--) if (count[max] != 0) break;\<close>\<close>

fun find_max :: "nat list \<Rightarrow> nat \<Rightarrow> nat" where
  "find_max cnt 0 = 0"
| "find_max cnt (Suc m) = (if cnt ! Suc m \<noteq> 0 then Suc m else find_max cnt m)"

text \<open>\<open>for (min = 1; min < max; min++) if (count[min] != 0) break;\<close>\<close>

function find_min :: "nat list \<Rightarrow> nat \<Rightarrow> nat \<Rightarrow> nat" where
  "find_min cnt mx m = (if m < mx then if cnt ! m \<noteq> 0 then m else find_min cnt mx (m + 1) else m)"
  by pat_completeness auto
termination by (relation "measure (\<lambda>(cnt, mx, m). mx - m)") auto

declare find_min.simps [simp del]

text \<open>The check for an over-subscribed set: None for \<open>return -1\<close>.\<close>

fun check_left :: "nat list \<Rightarrow> int \<Rightarrow> nat list \<Rightarrow> int option" where
  "check_left cnt left [] = Some left"
| "check_left cnt left (l # ls) =
     (let left = left * 2;
          left = left - int (cnt ! l)
      in if left < 0 then None else check_left cnt left ls)"

definition gen_offs :: "nat list \<Rightarrow> nat list" where
  "gen_offs cnt =
     foldl (\<lambda>offs l. offs[l + 1 := offs ! l + cnt ! l]) (replicate (MAXBITS + 1) 0) [1..<MAXBITS]"

definition sort_step :: "nat list \<Rightarrow> nat list \<times> nat list \<Rightarrow> nat \<Rightarrow> nat list \<times> nat list" where
  "sort_step lens st sy =
     (case st of (work, offs) \<Rightarrow>
        if lens ! sy \<noteq> 0
        then (work[offs ! (lens ! sy) := sy], offs[lens ! sy := offs ! (lens ! sy) + 1])
        else (work, offs))"

definition sort_syms :: "nat list \<Rightarrow> nat list \<Rightarrow> nat list \<Rightarrow> nat list" where
  "sort_syms lens cnt work = fst (foldl (sort_step lens) (work, gen_offs cnt) [0..<length lens])"

section \<open>Filling the tables\<close>

record table_state =
  t_tab :: "code list"
  t_count :: "nat list"
  t_huff :: nat
  t_sym :: nat
  t_len :: nat
  t_next :: nat
  t_curr :: nat
  t_drop :: nat
  t_low :: "nat option"
  t_used :: nat

definition table_match :: "codetype \<Rightarrow> nat" where
  "table_match ty = (case ty of CODES \<Rightarrow> 20 | LENS \<Rightarrow> 257 | DISTS \<Rightarrow> 0)"

definition table_entry :: "codetype \<Rightarrow> nat \<Rightarrow> nat \<Rightarrow> code" where
  "table_entry ty w nbits =
     (if w + 1 < table_match ty then \<lparr>code_op = 0, code_bits = word_of_nat nbits, code_val = word_of_nat w\<rparr>
      else if w \<ge> table_match ty then
        (let i = w - table_match ty;
             extra = (case ty of CODES \<Rightarrow> 0 | LENS \<Rightarrow> lext ! i | DISTS \<Rightarrow> dext ! i);
             base = (case ty of CODES \<Rightarrow> 0 | LENS \<Rightarrow> lbase ! i | DISTS \<Rightarrow> dbase ! i)
         in \<lparr>code_op = word_of_nat extra, code_bits = word_of_nat nbits, code_val = word_of_nat base\<rparr>)
      else \<lparr>code_op = 32 + 64, code_bits = word_of_nat nbits, code_val = 0\<rparr>)"

text \<open>\<open>do { fill -= incr; next[(huff >> drop) + fill] = here; } while (fill != 0);\<close> with
  \<open>incr = 1 << k\<close>.\<close>

function fill_loop :: "code list \<Rightarrow> nat \<Rightarrow> nat \<Rightarrow> code \<Rightarrow> nat \<Rightarrow> code list" where
  "fill_loop tab base k here fill =
     (let fill = fill - 2 ^ k;
          tab = tab[base + fill := here]
      in if fill \<noteq> 0 then fill_loop tab base k here fill else tab)"
  by pat_completeness auto
termination by (relation "measure (\<lambda>(tab, base, k, here, fill). fill)") auto

declare fill_loop.simps [simp del]

text \<open>The backwards increment of the \<open>len\<close>-bit code: \<open>incr\<close> is \<open>1 << k\<close>, and 0 when the loop
  has shifted it out.\<close>

fun back_incr :: "nat \<Rightarrow> nat \<Rightarrow> nat" where
  "back_incr huff 0 = 0"
| "back_incr huff (Suc k) = (if bit huff k then back_incr huff k else take_bit k huff + 2 ^ k)"

text \<open>The size of the next sub-table.\<close>

function sub_size :: "nat list \<Rightarrow> nat \<Rightarrow> nat \<Rightarrow> int \<Rightarrow> nat \<Rightarrow> nat" where
  "sub_size cnt drp mx left cur =
     (if cur + drp < mx then
        (let left = left - int (cnt ! (cur + drp))
         in if left \<le> 0 then cur else sub_size cnt drp mx (left * 2) (cur + 1))
      else cur)"
  by pat_completeness auto
termination by (relation "measure (\<lambda>(cnt, drp, mx, left, cur). mx - (cur + drp))") auto

declare sub_size.simps [simp del]

definition no_space :: "codetype \<Rightarrow> nat \<Rightarrow> bool" where
  "no_space ty used \<longleftrightarrow> ty = LENS \<and> used > ENOUGH_LENS \<or> ty = DISTS \<and> used > ENOUGH_DISTS"

text \<open>One turn up to the next symbol: enter the code of \<open>work[sym]\<close> and step to the next code.\<close>

definition enter_code :: "codetype \<Rightarrow> nat list \<Rightarrow> table_state \<Rightarrow> table_state" where
  "enter_code ty work t =
     (let here = table_entry ty (work ! t_sym t) (t_len t - t_drop t);
          tab = fill_loop (t_tab t) (t_next t + t_huff t div 2 ^ t_drop t) (t_len t - t_drop t) here (2 ^ t_curr t)
      in t\<lparr>t_tab := tab, t_huff := back_incr (t_huff t) (t_len t), t_sym := t_sym t + 1,
           t_count := (t_count t)[t_len t := t_count t ! t_len t - 1]\<rparr>)"

text \<open>The new sub-table: the first time \<open>drop\<close> becomes \<open>root\<close>; the result None is \<open>return 1\<close>.\<close>

definition new_subtable :: "codetype \<Rightarrow> nat \<Rightarrow> nat \<Rightarrow> nat \<Rightarrow> table_state \<Rightarrow> table_state option" where
  "new_subtable ty off root mx t =
     (let drp = (if t_drop t = 0 then root else t_drop t);
          next = t_next t + 2 ^ t_curr t;
          cur = t_len t - drp;
          cur = sub_size (t_count t) drp mx (2 ^ cur) cur;
          used = t_used t + 2 ^ cur;
          low = take_bit root (t_huff t)
      in if no_space ty used then None
         else Some (t\<lparr>t_drop := drp, t_next := next, t_curr := cur, t_used := used, t_low := Some low,
           t_tab := (t_tab t)[off + low := \<lparr>code_op = word_of_nat cur, code_bits = word_of_nat root,
             code_val = word_of_nat (next - off)\<rparr>]\<rparr>))"

text \<open>The loop over the symbols, with fuel; None is out of fuel, \<open>Inl\<close> the table left by
  \<open>return 1\<close>.  A turn uses up one of the symbols in use, so their number is enough fuel.\<close>

fun table_loop :: "codetype \<Rightarrow> nat list \<Rightarrow> nat list \<Rightarrow> nat \<Rightarrow> nat \<Rightarrow> nat \<Rightarrow> nat \<Rightarrow> table_state \<Rightarrow> (code list + table_state) option" where
  "table_loop ty lens work off root mx 0 t = None"
| "table_loop ty lens work off root mx (Suc fuel) t =
     (let t = enter_code ty work t in
      if t_count t ! t_len t = 0 \<and> t_len t = mx then Some (Inr t)
      else
        (let t = (if t_count t ! t_len t = 0 then t\<lparr>t_len := lens ! (work ! t_sym t)\<rparr> else t) in
         if t_len t > root \<and> Some (take_bit root (t_huff t)) \<noteq> t_low t then
           (case new_subtable ty off root mx t of
              None \<Rightarrow> Some (Inl (t_tab t))
            | Some t \<Rightarrow> table_loop ty lens work off root mx fuel t)
         else table_loop ty lens work off root mx fuel t))"

text \<open>The result: the value returned, the table, \<open>*table\<close>, \<open>*bits\<close> and the work area.  On an error
  \<open>*table\<close> and \<open>*bits\<close> keep their values.\<close>

record table_result =
  r_ret :: int
  r_tab :: "code list"
  r_next :: nat
  r_bits :: nat
  r_work :: "nat list"

definition invalid_code :: "nat \<Rightarrow> code" where
  "invalid_code nbits = \<lparr>code_op = 64, code_bits = word_of_nat nbits, code_val = 0\<rparr>"

definition inflate_table :: "codetype \<Rightarrow> nat list \<Rightarrow> code list \<Rightarrow> nat \<Rightarrow> nat \<Rightarrow> nat list \<Rightarrow> table_result option" where
  "inflate_table ty lens tab off nbits work =
     (let cnt = count_lens lens;
          mx = find_max cnt MAXBITS;
          root = (if nbits > mx then mx else nbits)
      in if mx = 0 then
           Some \<lparr>r_ret = 0, r_tab = tab[off := invalid_code 1, off + 1 := invalid_code 1],
                 r_next = off + 2, r_bits = 1, r_work = work\<rparr>
         else
           (let mn = find_min cnt mx 1;
                root = (if root < mn then mn else root);
                error = (\<lambda>r tab work. Some \<lparr>r_ret = r, r_tab = tab, r_next = off, r_bits = nbits, r_work = work\<rparr>)
            in case check_left cnt 1 [1..<MAXBITS + 1] of
                 None \<Rightarrow> error (-1) tab work
               | Some left \<Rightarrow>
                   if left > 0 \<and> (ty = CODES \<or> mx \<noteq> 1) then error (-1) tab work
                   else
                     (let work = sort_syms lens cnt work;
                          t = \<lparr>t_tab = tab, t_count = cnt, t_huff = 0, t_sym = 0, t_len = mn, t_next = off,
                               t_curr = root, t_drop = 0, t_low = None, t_used = 2 ^ root\<rparr>
                      in if no_space ty (2 ^ root) then error 1 tab work
                         else
                           (case table_loop ty lens work off root mx (length lens) t of
                              None \<Rightarrow> None
                            | Some (Inl tab) \<Rightarrow> error 1 tab work
                            | Some (Inr t) \<Rightarrow>
                                Some \<lparr>r_ret = 0,
                                  r_tab = (if t_huff t \<noteq> 0
                                           then (t_tab t)[t_next t + t_huff t := invalid_code (t_len t - t_drop t)]
                                           else t_tab t),
                                  r_next = off + t_used t, r_bits = root, r_work = work\<rparr>))))"

section \<open>The counts and the check of the lengths\<close>

lemma count_fold:
  "\<forall>l\<in>set lens. l < length cnt \<Longrightarrow>
    foldl (\<lambda>cnt l. cnt[l := cnt ! l + 1]) cnt lens = map (\<lambda>l. cnt ! l + count_list lens l) [0..<length cnt]"
proof (induction lens arbitrary: cnt)
  case Nil
  then show ?case by (simp add: map_nth)
next
  case (Cons x lens)
  then have "foldl (\<lambda>cnt l. cnt[l := cnt ! l + 1]) cnt (x # lens)
      = map (\<lambda>l. cnt[x := cnt ! x + 1] ! l + count_list lens l) [0..<length cnt]"
    by simp
  also have "\<dots> = map (\<lambda>l. cnt ! l + count_list (x # lens) l) [0..<length cnt]"
    using Cons.prems by (intro map_cong refl) (auto simp: nth_list_update)
  finally show ?case .
qed

lemma count_lens_nth:
  assumes "\<forall>l\<in>set lens. l \<le> 15" "l \<le> 15"
  shows "count_lens lens ! l = count_list lens l"
proof -
  have "\<forall>l\<in>set lens. l < length (replicate 16 (0 :: nat))" using assms(1) by auto
  from count_fold [OF this] assms(2) show ?thesis
    by (simp add: count_lens_def MAXBITS_def del: upt_rec_numeral)
qed

lemma length_count_lens [simp]: "length (count_lens lens) = 16"
proof -
  have "length (foldl (\<lambda>cnt l. cnt[l := cnt ! l + 1]) cnt lens) = length cnt" for cnt :: "nat list"
    by (induction lens arbitrary: cnt) simp_all
  then show ?thesis by (simp add: count_lens_def MAXBITS_def)
qed

text \<open>What is left of the code space, in units of the longest codes.\<close>

definition code_left :: "nat list \<Rightarrow> int" where
  "code_left cnt = 2 ^ 15 - (\<Sum>l\<leftarrow>[1..<16]. int (cnt ! l) * 2 ^ (15 - l))"

lemma check_left_sum:
  "k \<le> 16 \<Longrightarrow> check_left cnt left [k..<16] =
    (let rest = left * 2 ^ (16 - k) - (\<Sum>l\<leftarrow>[k..<16]. int (cnt ! l) * 2 ^ (15 - l))
     in if rest < 0 \<and> k < 16 then None else Some rest)"
proof (induction "16 - k" arbitrary: k left)
  case 0
  then show ?case by simp
next
  case (Suc d)
  then have k: "k < 16" by simp
  let ?left = "left * 2 - int (cnt ! k)"
  let ?rest = "?left * 2 ^ (16 - Suc k) - (\<Sum>l\<leftarrow>[Suc k..<16]. int (cnt ! l) * 2 ^ (15 - l))"
  have "2 ^ (16 - k) = 2 * (2 :: int) ^ (15 - k)"
  proof -
    have "16 - k = Suc (15 - k)" using k by simp
    then show ?thesis by (simp only: power_Suc)
  qed
  then have rest: "left * 2 ^ (16 - k) - (\<Sum>l\<leftarrow>[k..<16]. int (cnt ! l) * 2 ^ (15 - l)) = ?rest"
    using k by (simp add: upt_conv_Cons algebra_simps del: upt_rec_numeral)
  have sum: "0 \<le> (\<Sum>l\<leftarrow>[Suc k..<16]. int (cnt ! l) * 2 ^ (15 - l))"
    by (intro sum_list_nonneg) auto
  show ?case
  proof (cases "?left < 0")
    case True
    then have "?left * 2 ^ (16 - Suc k) < 0" by (simp add: mult_neg_pos)
    then have "?rest < 0" using sum by linarith
    then show ?thesis using True k rest by (simp add: upt_conv_Cons del: upt_rec_numeral)
  next
    case False
    have IH: "check_left cnt ?left [Suc k..<16] = (if ?rest < 0 \<and> Suc k < 16 then None else Some ?rest)"
      using Suc.hyps(1) [of "Suc k" ?left] Suc.hyps(2) k by (simp add: Let_def del: upt_rec_numeral)
    moreover have "\<not> Suc k < 16 \<Longrightarrow> ?rest = ?left" using k by (simp add: not_less)
    ultimately show ?thesis using False k rest by (auto simp: upt_conv_Cons simp del: upt_rec_numeral)
  qed
qed

lemma check_left_correct:
  "check_left cnt 1 [1..<MAXBITS + 1] = (if code_left cnt < 0 then None else Some (code_left cnt))"
  using check_left_sum [of 1 cnt 1] by (simp add: code_left_def MAXBITS_def Let_def del: upt_rec_numeral)

section \<open>Properties\<close>

text \<open>The decoder's tables of base values and extra bits are the encoder's: for every length code
  the base is that of \<open>trees.c\<close> plus the minimum match of 3 (258 for the last code), for every distance
  code it is that of \<open>trees.c\<close> plus 1, with the same number of extra bits; the codes that deflate does
  not define are marked invalid (bit 6).\<close>

theorem decoder_tables_match_encoder:
  "take 28 lbase = map (\<lambda>b. b + 3) (take 28 base_length) \<and> lbase ! 28 = 258 \<and>
   take 29 lext = map (\<lambda>x. 16 + x) extra_lbits \<and> map (\<lambda>x. bit x 6) (drop 29 lext) = [True, True] \<and>
   take 30 dbase = map (\<lambda>b. b + 1) base_dist \<and>
   take 30 dext = map (\<lambda>x. 16 + x) extra_dbits \<and> map (\<lambda>x. bit x 6) (drop 30 dext) = [True, True]"
proof -
  have "map (\<lambda>x. bit x 6) (drop 29 lext) = [True, True] \<and> map (\<lambda>x. bit x 6) (drop 30 dext) = [True, True]"
    by (simp add: lext_def dext_def) (simp add: bit_iff_odd)
  then show ?thesis
    by (simp add: lbase_def lext_def dbase_def dext_def base_length_def base_dist_def extra_lbits_def
        extra_dbits_def)
qed

end
