(* ===== verification/Inflate_State.thy ===== *)
theory Inflate_State
  imports Inflate_Table Checksum
begin

text \<open>
  The state of \<open>src/src/zlib/inflate.c\<close> (\<open>inflate.h\<close>), the fixed tables of \<open>inffixed.h\<close>, the macros of
  \<open>inflate()\<close> that pull, read and drop bits, and \<open>updatewindow\<close>.

  One record holds \<open>struct inflate_state\<close>, the fields of the \<open>z_stream\<close> and the locals of \<open>inflate()\<close>
  that live across its loop.  \<open>LOAD\<close> and \<open>RESTORE\<close> copy the same values between the locals and the
  structures, so a value that has both homes is one field.  \<open>next_in\<close> and \<open>avail_in\<close> are the list of
  bytes still to be read; \<open>next_out\<close> is the list \<open>put\<close> of the bytes the call has written.  \<open>hold\<close> is a
  natural number: \<open>hold < 2 ^ bits\<close> is an invariant and \<open>bits\<close> stays below 64, so the 64-bit
  \<open>unsigned long\<close> never loses a bit.
\<close>

section \<open>Types\<close>

datatype inflate_mode = HEAD | FLAGS | TIME | OS | EXLEN | EXTRA | NAME | COMMENT | HCRC | DICTID | DICT
  | TYPE_state | TYPEDO | STORED | COPY_first | COPY | TABLE | LENLENS | CODELENS
  | LEN_first | LEN | LENEXT | DIST | DISTEXT | MATCH | LIT | CHECK | LENGTH_state | DONE | BAD | MEM | SYNC

text \<open>The order of the enumeration, which the code compares (\<open>mode < BAD\<close>, \<open>mode < CHECK\<close>).\<close>

fun mode_index :: "inflate_mode \<Rightarrow> nat" where
  "mode_index HEAD = 0" | "mode_index FLAGS = 1" | "mode_index TIME = 2" | "mode_index OS = 3"
| "mode_index EXLEN = 4" | "mode_index EXTRA = 5" | "mode_index NAME = 6" | "mode_index COMMENT = 7"
| "mode_index HCRC = 8" | "mode_index DICTID = 9" | "mode_index DICT = 10" | "mode_index TYPE_state = 11"
| "mode_index TYPEDO = 12" | "mode_index STORED = 13" | "mode_index COPY_first = 14" | "mode_index COPY = 15"
| "mode_index TABLE = 16" | "mode_index LENLENS = 17" | "mode_index CODELENS = 18"
| "mode_index LEN_first = 19" | "mode_index LEN = 20" | "mode_index LENEXT = 21" | "mode_index DIST = 22"
| "mode_index DISTEXT = 23" | "mode_index MATCH = 24" | "mode_index LIT = 25" | "mode_index CHECK = 26"
| "mode_index LENGTH_state = 27" | "mode_index DONE = 28" | "mode_index BAD = 29" | "mode_index MEM = 30"
| "mode_index SYNC = 31"

lemma mode_index_inj: "mode_index a = mode_index b \<Longrightarrow> a = b"
  by (cases a; cases b; simp)

instantiation inflate_mode :: linorder
begin

definition less_eq_inflate_mode :: "inflate_mode \<Rightarrow> inflate_mode \<Rightarrow> bool" where
  "less_eq_inflate_mode a b \<longleftrightarrow> mode_index a \<le> mode_index b"

definition less_inflate_mode :: "inflate_mode \<Rightarrow> inflate_mode \<Rightarrow> bool" where
  "less_inflate_mode a b \<longleftrightarrow> mode_index a < mode_index b"

instance
  by standard (auto simp: less_eq_inflate_mode_def less_inflate_mode_def mode_index_inj)

end

text \<open>\<open>gz_header\<close>; a buffer pointer is the buffer it points to.\<close>

record gz_header =
  h_text :: nat
  h_time :: nat
  h_xflags :: nat
  h_os :: nat
  h_extra :: "u8 list option"
  h_extra_len :: nat
  h_extra_max :: nat
  h_name :: "u8 list option"
  h_name_max :: nat
  h_comment :: "u8 list option"
  h_comm_max :: nat
  h_hcrc :: nat
  h_done :: int

text \<open>\<open>lencode\<close> and \<open>distcode\<close> point into \<open>codes\<close> or to a fixed table.\<close>

datatype code_ptr = Codes nat | Lenfix | Distfix

record inflate_state =
  i_mode :: inflate_mode
  i_last :: nat
  i_wrap :: nat
  i_havedict :: bool
  i_flags :: nat
  i_dmax :: nat
  i_check :: u32
  i_total :: u64
  i_head :: "gz_header option"
  i_wbits :: nat
  i_wsize :: nat
  i_whave :: nat
  i_wnext :: nat
  i_window :: "u8 list option"
  i_hold :: nat
  i_bits :: nat
  i_length :: nat
  i_offset :: nat
  i_extra :: nat
  i_lencode :: code_ptr
  i_distcode :: code_ptr
  i_lenbits :: nat
  i_distbits :: nat
  i_ncode :: nat
  i_nlen :: nat
  i_ndist :: nat
  i_have :: nat
  i_next :: nat
  i_lens :: "nat list"
  i_work :: "nat list"
  i_codes :: "code list"
  i_sane :: bool
  i_back :: int
  i_was :: nat

text \<open>The stream: \<open>z_stream\<close> and the locals \<open>in\<close>, \<open>out\<close> and \<open>ret\<close> of \<open>inflate()\<close>.  \<open>z_ready\<close> says
  that \<open>zalloc\<close>, \<open>zfree\<close> and \<open>state\<close> are set and \<open>state->strm\<close> points back.\<close>

record z_inflate = inflate_state +
  z_ready :: bool
  next_in :: "u8 list"
  total_in :: u64
  put :: "u8 list"
  avail_out :: nat
  total_out :: u64
  msg :: "string option"
  adler :: u32
  data_type :: int
  l_in :: nat
  l_out :: nat
  l_ret :: int

section \<open>The fixed tables\<close>

abbreviation "cd x b v \<equiv> \<lparr>code_op = x, code_bits = b, code_val = v\<rparr>"

definition lenfix :: "code list" where
  "lenfix = [
     cd 96 7 0, cd 0 8 80, cd 0 8 16, cd 20 8 115, cd 18 7 31, cd 0 8 112, cd 0 8 48, cd 0 9 192,
     cd 16 7 10, cd 0 8 96, cd 0 8 32, cd 0 9 160, cd 0 8 0, cd 0 8 128, cd 0 8 64, cd 0 9 224,
     cd 16 7 6, cd 0 8 88, cd 0 8 24, cd 0 9 144, cd 19 7 59, cd 0 8 120, cd 0 8 56, cd 0 9 208,
     cd 17 7 17, cd 0 8 104, cd 0 8 40, cd 0 9 176, cd 0 8 8, cd 0 8 136, cd 0 8 72, cd 0 9 240,
     cd 16 7 4, cd 0 8 84, cd 0 8 20, cd 21 8 227, cd 19 7 43, cd 0 8 116, cd 0 8 52, cd 0 9 200,
     cd 17 7 13, cd 0 8 100, cd 0 8 36, cd 0 9 168, cd 0 8 4, cd 0 8 132, cd 0 8 68, cd 0 9 232,
     cd 16 7 8, cd 0 8 92, cd 0 8 28, cd 0 9 152, cd 20 7 83, cd 0 8 124, cd 0 8 60, cd 0 9 216,
     cd 18 7 23, cd 0 8 108, cd 0 8 44, cd 0 9 184, cd 0 8 12, cd 0 8 140, cd 0 8 76, cd 0 9 248,
     cd 16 7 3, cd 0 8 82, cd 0 8 18, cd 21 8 163, cd 19 7 35, cd 0 8 114, cd 0 8 50, cd 0 9 196,
     cd 17 7 11, cd 0 8 98, cd 0 8 34, cd 0 9 164, cd 0 8 2, cd 0 8 130, cd 0 8 66, cd 0 9 228,
     cd 16 7 7, cd 0 8 90, cd 0 8 26, cd 0 9 148, cd 20 7 67, cd 0 8 122, cd 0 8 58, cd 0 9 212,
     cd 18 7 19, cd 0 8 106, cd 0 8 42, cd 0 9 180, cd 0 8 10, cd 0 8 138, cd 0 8 74, cd 0 9 244,
     cd 16 7 5, cd 0 8 86, cd 0 8 22, cd 64 8 0, cd 19 7 51, cd 0 8 118, cd 0 8 54, cd 0 9 204,
     cd 17 7 15, cd 0 8 102, cd 0 8 38, cd 0 9 172, cd 0 8 6, cd 0 8 134, cd 0 8 70, cd 0 9 236,
     cd 16 7 9, cd 0 8 94, cd 0 8 30, cd 0 9 156, cd 20 7 99, cd 0 8 126, cd 0 8 62, cd 0 9 220,
     cd 18 7 27, cd 0 8 110, cd 0 8 46, cd 0 9 188, cd 0 8 14, cd 0 8 142, cd 0 8 78, cd 0 9 252,
     cd 96 7 0, cd 0 8 81, cd 0 8 17, cd 21 8 131, cd 18 7 31, cd 0 8 113, cd 0 8 49, cd 0 9 194,
     cd 16 7 10, cd 0 8 97, cd 0 8 33, cd 0 9 162, cd 0 8 1, cd 0 8 129, cd 0 8 65, cd 0 9 226,
     cd 16 7 6, cd 0 8 89, cd 0 8 25, cd 0 9 146, cd 19 7 59, cd 0 8 121, cd 0 8 57, cd 0 9 210,
     cd 17 7 17, cd 0 8 105, cd 0 8 41, cd 0 9 178, cd 0 8 9, cd 0 8 137, cd 0 8 73, cd 0 9 242,
     cd 16 7 4, cd 0 8 85, cd 0 8 21, cd 16 8 258, cd 19 7 43, cd 0 8 117, cd 0 8 53, cd 0 9 202,
     cd 17 7 13, cd 0 8 101, cd 0 8 37, cd 0 9 170, cd 0 8 5, cd 0 8 133, cd 0 8 69, cd 0 9 234,
     cd 16 7 8, cd 0 8 93, cd 0 8 29, cd 0 9 154, cd 20 7 83, cd 0 8 125, cd 0 8 61, cd 0 9 218,
     cd 18 7 23, cd 0 8 109, cd 0 8 45, cd 0 9 186, cd 0 8 13, cd 0 8 141, cd 0 8 77, cd 0 9 250,
     cd 16 7 3, cd 0 8 83, cd 0 8 19, cd 21 8 195, cd 19 7 35, cd 0 8 115, cd 0 8 51, cd 0 9 198,
     cd 17 7 11, cd 0 8 99, cd 0 8 35, cd 0 9 166, cd 0 8 3, cd 0 8 131, cd 0 8 67, cd 0 9 230,
     cd 16 7 7, cd 0 8 91, cd 0 8 27, cd 0 9 150, cd 20 7 67, cd 0 8 123, cd 0 8 59, cd 0 9 214,
     cd 18 7 19, cd 0 8 107, cd 0 8 43, cd 0 9 182, cd 0 8 11, cd 0 8 139, cd 0 8 75, cd 0 9 246,
     cd 16 7 5, cd 0 8 87, cd 0 8 23, cd 64 8 0, cd 19 7 51, cd 0 8 119, cd 0 8 55, cd 0 9 206,
     cd 17 7 15, cd 0 8 103, cd 0 8 39, cd 0 9 174, cd 0 8 7, cd 0 8 135, cd 0 8 71, cd 0 9 238,
     cd 16 7 9, cd 0 8 95, cd 0 8 31, cd 0 9 158, cd 20 7 99, cd 0 8 127, cd 0 8 63, cd 0 9 222,
     cd 18 7 27, cd 0 8 111, cd 0 8 47, cd 0 9 190, cd 0 8 15, cd 0 8 143, cd 0 8 79, cd 0 9 254,
     cd 96 7 0, cd 0 8 80, cd 0 8 16, cd 20 8 115, cd 18 7 31, cd 0 8 112, cd 0 8 48, cd 0 9 193,
     cd 16 7 10, cd 0 8 96, cd 0 8 32, cd 0 9 161, cd 0 8 0, cd 0 8 128, cd 0 8 64, cd 0 9 225,
     cd 16 7 6, cd 0 8 88, cd 0 8 24, cd 0 9 145, cd 19 7 59, cd 0 8 120, cd 0 8 56, cd 0 9 209,
     cd 17 7 17, cd 0 8 104, cd 0 8 40, cd 0 9 177, cd 0 8 8, cd 0 8 136, cd 0 8 72, cd 0 9 241,
     cd 16 7 4, cd 0 8 84, cd 0 8 20, cd 21 8 227, cd 19 7 43, cd 0 8 116, cd 0 8 52, cd 0 9 201,
     cd 17 7 13, cd 0 8 100, cd 0 8 36, cd 0 9 169, cd 0 8 4, cd 0 8 132, cd 0 8 68, cd 0 9 233,
     cd 16 7 8, cd 0 8 92, cd 0 8 28, cd 0 9 153, cd 20 7 83, cd 0 8 124, cd 0 8 60, cd 0 9 217,
     cd 18 7 23, cd 0 8 108, cd 0 8 44, cd 0 9 185, cd 0 8 12, cd 0 8 140, cd 0 8 76, cd 0 9 249,
     cd 16 7 3, cd 0 8 82, cd 0 8 18, cd 21 8 163, cd 19 7 35, cd 0 8 114, cd 0 8 50, cd 0 9 197,
     cd 17 7 11, cd 0 8 98, cd 0 8 34, cd 0 9 165, cd 0 8 2, cd 0 8 130, cd 0 8 66, cd 0 9 229,
     cd 16 7 7, cd 0 8 90, cd 0 8 26, cd 0 9 149, cd 20 7 67, cd 0 8 122, cd 0 8 58, cd 0 9 213,
     cd 18 7 19, cd 0 8 106, cd 0 8 42, cd 0 9 181, cd 0 8 10, cd 0 8 138, cd 0 8 74, cd 0 9 245,
     cd 16 7 5, cd 0 8 86, cd 0 8 22, cd 64 8 0, cd 19 7 51, cd 0 8 118, cd 0 8 54, cd 0 9 205,
     cd 17 7 15, cd 0 8 102, cd 0 8 38, cd 0 9 173, cd 0 8 6, cd 0 8 134, cd 0 8 70, cd 0 9 237,
     cd 16 7 9, cd 0 8 94, cd 0 8 30, cd 0 9 157, cd 20 7 99, cd 0 8 126, cd 0 8 62, cd 0 9 221,
     cd 18 7 27, cd 0 8 110, cd 0 8 46, cd 0 9 189, cd 0 8 14, cd 0 8 142, cd 0 8 78, cd 0 9 253,
     cd 96 7 0, cd 0 8 81, cd 0 8 17, cd 21 8 131, cd 18 7 31, cd 0 8 113, cd 0 8 49, cd 0 9 195,
     cd 16 7 10, cd 0 8 97, cd 0 8 33, cd 0 9 163, cd 0 8 1, cd 0 8 129, cd 0 8 65, cd 0 9 227,
     cd 16 7 6, cd 0 8 89, cd 0 8 25, cd 0 9 147, cd 19 7 59, cd 0 8 121, cd 0 8 57, cd 0 9 211,
     cd 17 7 17, cd 0 8 105, cd 0 8 41, cd 0 9 179, cd 0 8 9, cd 0 8 137, cd 0 8 73, cd 0 9 243,
     cd 16 7 4, cd 0 8 85, cd 0 8 21, cd 16 8 258, cd 19 7 43, cd 0 8 117, cd 0 8 53, cd 0 9 203,
     cd 17 7 13, cd 0 8 101, cd 0 8 37, cd 0 9 171, cd 0 8 5, cd 0 8 133, cd 0 8 69, cd 0 9 235,
     cd 16 7 8, cd 0 8 93, cd 0 8 29, cd 0 9 155, cd 20 7 83, cd 0 8 125, cd 0 8 61, cd 0 9 219,
     cd 18 7 23, cd 0 8 109, cd 0 8 45, cd 0 9 187, cd 0 8 13, cd 0 8 141, cd 0 8 77, cd 0 9 251,
     cd 16 7 3, cd 0 8 83, cd 0 8 19, cd 21 8 195, cd 19 7 35, cd 0 8 115, cd 0 8 51, cd 0 9 199,
     cd 17 7 11, cd 0 8 99, cd 0 8 35, cd 0 9 167, cd 0 8 3, cd 0 8 131, cd 0 8 67, cd 0 9 231,
     cd 16 7 7, cd 0 8 91, cd 0 8 27, cd 0 9 151, cd 20 7 67, cd 0 8 123, cd 0 8 59, cd 0 9 215,
     cd 18 7 19, cd 0 8 107, cd 0 8 43, cd 0 9 183, cd 0 8 11, cd 0 8 139, cd 0 8 75, cd 0 9 247,
     cd 16 7 5, cd 0 8 87, cd 0 8 23, cd 64 8 0, cd 19 7 51, cd 0 8 119, cd 0 8 55, cd 0 9 207,
     cd 17 7 15, cd 0 8 103, cd 0 8 39, cd 0 9 175, cd 0 8 7, cd 0 8 135, cd 0 8 71, cd 0 9 239,
     cd 16 7 9, cd 0 8 95, cd 0 8 31, cd 0 9 159, cd 20 7 99, cd 0 8 127, cd 0 8 63, cd 0 9 223,
     cd 18 7 27, cd 0 8 111, cd 0 8 47, cd 0 9 191, cd 0 8 15, cd 0 8 143, cd 0 8 79, cd 0 9 255]"

definition distfix :: "code list" where
  "distfix = [
     cd 16 5 1, cd 23 5 257, cd 19 5 17, cd 27 5 4097, cd 17 5 5, cd 25 5 1025, cd 21 5 65, cd 29 5 16385,
     cd 16 5 3, cd 24 5 513, cd 20 5 33, cd 28 5 8193, cd 18 5 9, cd 26 5 2049, cd 22 5 129, cd 64 5 0,
     cd 16 5 2, cd 23 5 385, cd 19 5 25, cd 27 5 6145, cd 17 5 7, cd 25 5 1537, cd 21 5 97, cd 29 5 24577,
     cd 16 5 4, cd 24 5 769, cd 20 5 49, cd 28 5 12289, cd 18 5 13, cd 26 5 3073, cd 22 5 193, cd 64 5 0]"

definition code_at :: "'a inflate_state_scheme \<Rightarrow> code_ptr \<Rightarrow> nat \<Rightarrow> code" where
  "code_at s p i = (case p of Codes off \<Rightarrow> i_codes s ! (off + i) | Lenfix \<Rightarrow> lenfix ! i | Distfix \<Rightarrow> distfix ! i)"

text \<open>\<open>fixedtables\<close>, in the build that includes \<open>inffixed.h\<close>.\<close>

definition fixedtables :: "'a inflate_state_scheme \<Rightarrow> 'a inflate_state_scheme" where
  "fixedtables s = s\<lparr>i_lencode := Lenfix, i_lenbits := 9, i_distcode := Distfix, i_distbits := 5\<rparr>"

section \<open>Return codes and flush values\<close>

definition Z_OK :: int where "Z_OK = 0"
definition Z_STREAM_END :: int where "Z_STREAM_END = 1"
definition Z_NEED_DICT :: int where "Z_NEED_DICT = 2"
definition Z_STREAM_ERROR :: int where "Z_STREAM_ERROR = -2"
definition Z_DATA_ERROR :: int where "Z_DATA_ERROR = -3"
definition Z_MEM_ERROR :: int where "Z_MEM_ERROR = -4"
definition Z_BUF_ERROR :: int where "Z_BUF_ERROR = -5"
definition Z_VERSION_ERROR :: int where "Z_VERSION_ERROR = -6"

definition Z_NO_FLUSH :: int where "Z_NO_FLUSH = 0"
definition Z_PARTIAL_FLUSH :: int where "Z_PARTIAL_FLUSH = 1"
definition Z_SYNC_FLUSH :: int where "Z_SYNC_FLUSH = 2"
definition Z_FULL_FLUSH :: int where "Z_FULL_FLUSH = 3"
definition Z_FINISH :: int where "Z_FINISH = 4"
definition Z_BLOCK :: int where "Z_BLOCK = 5"
definition Z_TREES :: int where "Z_TREES = 6"

lemmas ret_consts = Z_OK_def Z_STREAM_END_def Z_NEED_DICT_def Z_STREAM_ERROR_def Z_DATA_ERROR_def
  Z_MEM_ERROR_def Z_BUF_ERROR_def Z_VERSION_ERROR_def
lemmas flush_consts = Z_NO_FLUSH_def Z_PARTIAL_FLUSH_def Z_SYNC_FLUSH_def Z_FULL_FLUSH_def Z_FINISH_def
  Z_BLOCK_def Z_TREES_def

section \<open>The macros of inflate()\<close>

text \<open>\<open>PULLBYTE\<close> without its exit: the caller leaves when there is no input.\<close>

definition pull_byte :: "u8 \<Rightarrow> u8 list \<Rightarrow> z_inflate \<Rightarrow> z_inflate" where
  "pull_byte b rest s = s\<lparr>next_in := rest, i_hold := i_hold s + unat b * 2 ^ i_bits s, i_bits := i_bits s + 8\<rparr>"

text \<open>\<open>NEEDBITS(n)\<close>: False when the input ran out and the caller goes to \<open>inf_leave\<close>.\<close>

function needbits :: "nat \<Rightarrow> z_inflate \<Rightarrow> bool \<times> z_inflate" where
  "needbits n s =
     (if i_bits s < n then
        (case next_in s of [] \<Rightarrow> (False, s) | b # rest \<Rightarrow> needbits n (pull_byte b rest s))
      else (True, s))"
  by pat_completeness auto
termination
  by (relation "measure (\<lambda>(n, s). length (next_in s))") (auto simp: pull_byte_def)

declare needbits.simps [simp del]

definition bits_val :: "nat \<Rightarrow> 'a inflate_state_scheme \<Rightarrow> nat" where
  "bits_val n s = i_hold s mod 2 ^ n"

definition dropbits :: "nat \<Rightarrow> 'a inflate_state_scheme \<Rightarrow> 'a inflate_state_scheme" where
  "dropbits n s = s\<lparr>i_hold := i_hold s div 2 ^ n, i_bits := i_bits s - n\<rparr>"

definition bytebits :: "'a inflate_state_scheme \<Rightarrow> 'a inflate_state_scheme" where
  "bytebits s = dropbits (i_bits s mod 8) s"

definition initbits :: "'a inflate_state_scheme \<Rightarrow> 'a inflate_state_scheme" where
  "initbits s = s\<lparr>i_hold := 0, i_bits := 0\<rparr>"

text \<open>\<open>for (;;) { here = code[...]; if (here.bits + used <= bits) break; PULLBYTE(); }\<close>: pull just
  enough bytes to see a whole code; \<open>get\<close> looks the code up in the bits at hand.\<close>

function pull_code :: "(z_inflate \<Rightarrow> code) \<Rightarrow> nat \<Rightarrow> z_inflate \<Rightarrow> code option \<times> z_inflate" where
  "pull_code get used s =
     (let here = get s in
      if used + unat (code_bits here) \<le> i_bits s then (Some here, s)
      else (case next_in s of [] \<Rightarrow> (None, s) | b # rest \<Rightarrow> pull_code get used (pull_byte b rest s)))"
  by pat_completeness auto
termination
  by (relation "measure (\<lambda>(get, used, s). length (next_in s))") (auto simp: pull_byte_def)

declare pull_code.simps [simp del]

text \<open>\<open>crc32(c, buf, len)\<close> on this machine, and \<open>UPDATE\<close>.\<close>

definition crc_upd :: "u32 \<Rightarrow> u8 list \<Rightarrow> u32" where
  "crc_upd c buf = crc32 True 0 c (Some buf)"

definition check_update :: "'a inflate_state_scheme \<Rightarrow> u8 list \<Rightarrow> u32" where
  "check_update s buf = (if i_flags s \<noteq> 0 then crc_upd (i_check s) buf else adler32 (i_check s) (Some buf))"

definition CRC2 :: "u32 \<Rightarrow> nat \<Rightarrow> u32" where
  "CRC2 check word = crc_upd check [word_of_nat word, word_of_nat (word div 2 ^ 8)]"

definition CRC4 :: "u32 \<Rightarrow> nat \<Rightarrow> u32" where
  "CRC4 check word = crc_upd check [word_of_nat word, word_of_nat (word div 2 ^ 8),
     word_of_nat (word div 2 ^ 16), word_of_nat (word div 2 ^ 24)]"

section \<open>Memory\<close>

text \<open>\<open>zmemcpy(buf + pos, bs, length bs)\<close>; bytes past the end of the buffer are not in the model.\<close>

fun write_bytes :: "u8 list \<Rightarrow> nat \<Rightarrow> u8 list \<Rightarrow> u8 list" where
  "write_bytes buf pos [] = buf"
| "write_bytes buf pos (b # bs) = write_bytes (buf[pos := b]) (pos + 1) bs"

text \<open>\<open>do { *put++ = *from++; } while (--copy);\<close> from the output itself, \<open>off\<close> bytes back: the
  regions may overlap.\<close>

fun lz_copy :: "nat \<Rightarrow> nat \<Rightarrow> u8 list \<Rightarrow> u8 list" where
  "lz_copy off 0 out = out"
| "lz_copy off (Suc n) out = lz_copy off n (out @ [out ! (length out - off)])"

text \<open>\<open>updatewindow(strm, end, copy)\<close>: \<open>out\<close> is the memory up to \<open>end\<close>, of which the last \<open>copy\<close>
  bytes are new; \<open>alloc\<close> says whether \<open>ZALLOC\<close> succeeds.  False is the return value 1.  Fresh memory is
  not read before it is written; the model fills it with zeros.\<close>

definition updatewindow :: "bool \<Rightarrow> u8 list \<Rightarrow> nat \<Rightarrow> 'a inflate_state_scheme \<Rightarrow> bool \<times> 'a inflate_state_scheme" where
  "updatewindow alloc out copy s =
     (if i_window s = None \<and> \<not> alloc then (False, s)
      else
        (let s = (if i_window s = None then s\<lparr>i_window := Some (replicate (2 ^ i_wbits s) 0)\<rparr> else s);
             s = (if i_wsize s = 0 then s\<lparr>i_wsize := 2 ^ i_wbits s, i_wnext := 0, i_whave := 0\<rparr> else s);
             window = the (i_window s)
         in if copy \<ge> i_wsize s then
              (True, s\<lparr>i_window := Some (write_bytes window 0 (drop (length out - i_wsize s) out)),
                       i_wnext := 0, i_whave := i_wsize s\<rparr>)
            else
              (let dist = i_wsize s - i_wnext s;
                   dist = (if dist > copy then copy else dist);
                   window = write_bytes window (i_wnext s) (take dist (drop (length out - copy) out));
                   copy = copy - dist
               in if copy \<noteq> 0 then
                    (True, s\<lparr>i_window := Some (write_bytes window 0 (drop (length out - copy) out)),
                             i_wnext := copy, i_whave := i_wsize s\<rparr>)
                  else
                    (let wnext = i_wnext s + dist
                     in (True, s\<lparr>i_window := Some window,
                                 i_wnext := (if wnext = i_wsize s then 0 else wnext),
                                 i_whave := (if i_whave s < i_wsize s then i_whave s + dist else i_whave s)\<rparr>)))))"

end
