(* ===== verification/Inflate_Fast.thy ===== *)
theory Inflate_Fast
  imports Inflate_State
begin

text \<open>
  \<open>inflate_fast\<close> of \<open>src/src/zlib/inffast.c\<close>: the decoding loop without checks of the available
  input and output, entered with at least 6 bytes of input and room for 258 bytes.  The input pointer
  \<open>in\<close> is an index \<open>f_pos\<close> into the bytes available at entry; \<open>in < last\<close> and \<open>out < end\<close> are compared
  as the numbers they stand for.  The two \<open>goto\<close>s to a second-level table and the loop itself spend
  fuel; with tables from \<open>inflate_table\<close> a second-level entry is never a link.
\<close>

record fast_state =
  f_pos :: nat
  f_hold :: nat
  f_bits :: nat
  f_out :: "u8 list"

datatype fast_result = F_next fast_state | F_break inflate_mode "string option" fast_state | F_stuck

definition f_pull :: "u8 list \<Rightarrow> fast_state \<Rightarrow> fast_state" where
  "f_pull inp f = f\<lparr>f_hold := f_hold f + unat (inp ! f_pos f) * 2 ^ f_bits f, f_bits := f_bits f + 8,
     f_pos := f_pos f + 1\<rparr>"

definition f_drop :: "nat \<Rightarrow> fast_state \<Rightarrow> fast_state" where
  "f_drop n f = f\<lparr>f_hold := f_hold f div 2 ^ n, f_bits := f_bits f - n\<rparr>"

definition f_need15 :: "u8 list \<Rightarrow> fast_state \<Rightarrow> fast_state" where
  "f_need15 inp f = (if f_bits f < 15 then f_pull inp (f_pull inp f) else f)"

text \<open>Copy \<open>n\<close> bytes of the window from index \<open>w\<close> on.\<close>

definition window_copy :: "u8 list \<Rightarrow> nat \<Rightarrow> nat \<Rightarrow> u8 list \<Rightarrow> u8 list" where
  "window_copy window w n out = out @ take n (drop w window)"

text \<open>The copy of a match of \<open>len\<close> bytes at distance \<open>dist\<close>; \<open>back\<close> is \<open>out - beg\<close>, the number of
  bytes of this call's output.  The three cases are the position of the match in the circular window; in
  each the rest of the match comes from the output.\<close>

definition fast_window_copy :: "'a inflate_state_scheme \<Rightarrow> nat \<Rightarrow> nat \<Rightarrow> nat \<Rightarrow> u8 list \<Rightarrow> u8 list" where
  "fast_window_copy s dist len op out =
     (let window = the (i_window s); wsize = i_wsize s; wnext = i_wnext s in
      if wnext = 0 then
        (if op < len then lz_copy dist (len - op) (window_copy window (wsize - op) op out)
         else window_copy window (wsize - op) len out)
      else if wnext < op then
        (let from = wsize + wnext - op; op = op - wnext in
         if op < len then
           (let out = window_copy window from op out; len = len - op in
            if wnext < len then lz_copy dist (len - wnext) (window_copy window 0 wnext out)
            else window_copy window 0 len out)
         else window_copy window from len out)
      else
        (if op < len then lz_copy dist (len - op) (window_copy window (wnext - op) op out)
         else window_copy window (wnext - op) len out))"

definition fast_copy :: "'a inflate_state_scheme \<Rightarrow> nat \<Rightarrow> nat \<Rightarrow> nat \<Rightarrow> fast_state \<Rightarrow> fast_result" where
  "fast_copy s beg dist len f =
     (let op = length (f_out f) - beg in
      if dist > op then
        (let op = dist - op in
         if op > i_whave s \<and> i_sane s then F_break BAD (Some ''invalid distance too far back'') f
         else F_next (f\<lparr>f_out := fast_window_copy s dist len op (f_out f)\<rparr>))
      else F_next (f\<lparr>f_out := lz_copy dist len (f_out f)\<rparr>))"

fun fast_dodist :: "nat \<Rightarrow> 'a inflate_state_scheme \<Rightarrow> u8 list \<Rightarrow> nat \<Rightarrow> nat \<Rightarrow> code \<Rightarrow> fast_state \<Rightarrow> fast_result" where
  "fast_dodist 0 s inp beg len here f = F_stuck"
| "fast_dodist (Suc fuel) s inp beg len here f =
     (let f = f_drop (unat (code_bits here)) f; op = code_op here in
      if op AND 16 \<noteq> 0 then
        (let xbits = unat (op AND 15);
             f = (if f_bits f < xbits then f_pull inp f else f);
             f = (if f_bits f < xbits then f_pull inp f else f);
             dist = unat (code_val here) + f_hold f mod 2 ^ xbits;
             f = f_drop xbits f
         in fast_copy s beg dist len f)
      else if op AND 64 = 0 then
        fast_dodist fuel s inp beg len
          (code_at s (i_distcode s) (unat (code_val here) + f_hold f mod 2 ^ unat op)) f
      else F_break BAD (Some ''invalid distance code'') f)"

fun fast_dolen :: "nat \<Rightarrow> 'a inflate_state_scheme \<Rightarrow> u8 list \<Rightarrow> nat \<Rightarrow> code \<Rightarrow> fast_state \<Rightarrow> fast_result" where
  "fast_dolen 0 s inp beg here f = F_stuck"
| "fast_dolen (Suc fuel) s inp beg here f =
     (let f = f_drop (unat (code_bits here)) f; op = code_op here in
      if op = 0 then F_next (f\<lparr>f_out := f_out f @ [ucast (code_val here)]\<rparr>)
      else if op AND 16 \<noteq> 0 then
        (let xbits = unat (op AND 15);
             f1 = (if xbits \<noteq> 0 \<and> f_bits f < xbits then f_pull inp f else f);
             len = unat (code_val here) + (if xbits \<noteq> 0 then f_hold f1 mod 2 ^ xbits else 0);
             f2 = (if xbits \<noteq> 0 then f_drop xbits f1 else f1);
             f3 = f_need15 inp f2
         in fast_dodist fuel s inp beg len
              (code_at s (i_distcode s) (f_hold f3 mod 2 ^ i_distbits s)) f3)
      else if op AND 64 = 0 then
        fast_dolen fuel s inp beg
          (code_at s (i_lencode s) (unat (code_val here) + f_hold f mod 2 ^ unat op)) f
      else if op AND 32 \<noteq> 0 then F_break TYPE_state None f
      else F_break BAD (Some ''invalid literal/length code'') f)"

text \<open>\<open>room\<close> is \<open>avail_out\<close> at entry, \<open>done\<close> the output before it.\<close>

fun fast_loop :: "nat \<Rightarrow> 'a inflate_state_scheme \<Rightarrow> u8 list \<Rightarrow> nat \<Rightarrow> nat \<Rightarrow> nat \<Rightarrow> fast_state \<Rightarrow> fast_result" where
  "fast_loop 0 s inp beg room written f = F_stuck"
| "fast_loop (Suc fuel) s inp beg room written f =
     (let f = f_need15 inp f;
          here = code_at s (i_lencode s) (f_hold f mod 2 ^ i_lenbits s)
      in case fast_dolen fuel s inp beg here f of
           F_next f \<Rightarrow>
             if f_pos f + 5 < length inp \<and> length (f_out f) - written + 257 < room
             then fast_loop fuel s inp beg room written f
             else F_break (i_mode s) None f
         | r \<Rightarrow> r)"

text \<open>\<open>start\<close> is \<open>avail_out\<close> when \<open>inflate()\<close> began; \<open>F_break (i_mode s)\<close> is the loop's own end.\<close>

definition fast_finish :: "inflate_mode \<Rightarrow> string option \<Rightarrow> fast_state \<Rightarrow> z_inflate \<Rightarrow> z_inflate" where
  "fast_finish md m f s =
     (let len = f_bits f div 8;
          pos = f_pos f - len;
          nbits = f_bits f - len * 8
      in s\<lparr>i_mode := md, msg := (if m = None then msg s else m), next_in := drop pos (next_in s),
           avail_out := avail_out s - (length (f_out f) - length (put s)), put := f_out f,
           i_hold := f_hold f mod 2 ^ nbits, i_bits := nbits\<rparr>)"

definition inflate_fast :: "nat \<Rightarrow> nat \<Rightarrow> z_inflate \<Rightarrow> z_inflate option" where
  "inflate_fast fuel start s =
     (let beg = length (put s) - (start - avail_out s);
          f = \<lparr>f_pos = 0, f_hold = i_hold s, f_bits = i_bits s, f_out = put s\<rparr>
      in case fast_loop fuel s (next_in s) beg (avail_out s) (length (put s)) f of
           F_break md m f \<Rightarrow> Some (fast_finish md m f s)
         | _ \<Rightarrow> None)"

end
