(* ===== verification/Inflate.thy ===== *)
theory Inflate
  imports Inflate_Fast
begin

text \<open>
  \<open>inflate()\<close> of \<open>src/src/zlib/inflate.c\<close>: one definition per state of its machine, their dispatch, the
  loop and the exit at \<open>inf_leave\<close>.  Falling through to the next case is the same as another turn of
  the loop, since the mode has been set, except from \<open>TYPE\<close> to \<open>TYPEDO\<close>, which is a call.  The loop
  takes fuel; None is out of fuel, as is a table or a fast loop that is stuck.
\<close>

datatype outcome = Next z_inflate | Leave z_inflate | Return int z_inflate | Stuck

definition with_bits :: "nat \<Rightarrow> z_inflate \<Rightarrow> (z_inflate \<Rightarrow> outcome) \<Rightarrow> outcome" where
  "with_bits n s k = (case needbits n s of (ok, s) \<Rightarrow> if ok then k s else Leave s)"

definition bad :: "string \<Rightarrow> z_inflate \<Rightarrow> outcome" where
  "bad m s = Next (s\<lparr>i_mode := BAD, msg := Some m\<rparr>)"

definition upd_head :: "(gz_header \<Rightarrow> gz_header) \<Rightarrow> 'a inflate_state_scheme \<Rightarrow> 'a inflate_state_scheme" where
  "upd_head f s = s\<lparr>i_head := map_option f (i_head s)\<rparr>"

text \<open>\<open>(state->flags & 0x0200) && (state->wrap & 4)\<close>: the header has a CRC that is checked.\<close>

definition hcrc_on :: "'a inflate_state_scheme \<Rightarrow> bool" where
  "hcrc_on s \<longleftrightarrow> bit (i_flags s) 9 \<and> bit (i_wrap s) 2"

definition Z_DEFLATED :: nat where "Z_DEFLATED = 8"

section \<open>Headers\<close>

definition do_HEAD :: "z_inflate \<Rightarrow> outcome" where
  "do_HEAD s =
     (if i_wrap s = 0 then Next (s\<lparr>i_mode := TYPEDO\<rparr>)
      else with_bits 16 s (\<lambda>s.
        if bit (i_wrap s) 1 \<and> i_hold s = 0x8b1f then
          (let s = (if i_wbits s = 0 then s\<lparr>i_wbits := 15\<rparr> else s);
               s = s\<lparr>i_check := crc32 True 0 0 None\<rparr>;
               s = s\<lparr>i_check := CRC2 (i_check s) (i_hold s)\<rparr>
           in Next ((initbits s)\<lparr>i_mode := FLAGS\<rparr>))
        else
          (let s = s\<lparr>i_flags := 0\<rparr>;
               s = upd_head (\<lambda>h. h\<lparr>h_done := -1\<rparr>) s
           in if \<not> bit (i_wrap s) 0 \<or> (bits_val 8 s * 2 ^ 8 + i_hold s div 2 ^ 8) mod 31 \<noteq> 0
              then bad ''incorrect header check'' s
              else if bits_val 4 s \<noteq> Z_DEFLATED then bad ''unknown compression method'' s
              else
                (let s = dropbits 4 s;
                     len = bits_val 4 s + 8;
                     s = (if i_wbits s = 0 then s\<lparr>i_wbits := len\<rparr> else s)
                 in if len > 15 \<or> len > i_wbits s then bad ''invalid window size'' s
                    else
                      (let s = s\<lparr>i_dmax := 2 ^ len\<rparr>;
                           s = s\<lparr>i_check := adler32 0 None, adler := adler32 0 None\<rparr>;
                           s = s\<lparr>i_mode := (if bit (i_hold s) 9 then DICTID else TYPE_state)\<rparr>
                       in Next (initbits s))))))"

definition do_FLAGS :: "z_inflate \<Rightarrow> outcome" where
  "do_FLAGS s = with_bits 16 s (\<lambda>s.
     let s = s\<lparr>i_flags := i_hold s\<rparr> in
     if i_flags s mod 256 \<noteq> Z_DEFLATED then bad ''unknown compression method'' s
     else if i_flags s AND 0xe000 \<noteq> 0 then bad ''unknown header flags set'' s
     else
       (let s = upd_head (\<lambda>h. h\<lparr>h_text := i_hold s div 2 ^ 8 mod 2\<rparr>) s;
            s = (if hcrc_on s then s\<lparr>i_check := CRC2 (i_check s) (i_hold s)\<rparr> else s)
        in Next ((initbits s)\<lparr>i_mode := TIME\<rparr>)))"

definition do_TIME :: "z_inflate \<Rightarrow> outcome" where
  "do_TIME s = with_bits 32 s (\<lambda>s.
     let s = upd_head (\<lambda>h. h\<lparr>h_time := i_hold s\<rparr>) s;
         s = (if hcrc_on s then s\<lparr>i_check := CRC4 (i_check s) (i_hold s)\<rparr> else s)
     in Next ((initbits s)\<lparr>i_mode := OS\<rparr>))"

definition do_OS :: "z_inflate \<Rightarrow> outcome" where
  "do_OS s = with_bits 16 s (\<lambda>s.
     let s = upd_head (\<lambda>h. h\<lparr>h_xflags := i_hold s mod 256, h_os := i_hold s div 2 ^ 8\<rparr>) s;
         s = (if hcrc_on s then s\<lparr>i_check := CRC2 (i_check s) (i_hold s)\<rparr> else s)
     in Next ((initbits s)\<lparr>i_mode := EXLEN\<rparr>))"

definition do_EXLEN :: "z_inflate \<Rightarrow> outcome" where
  "do_EXLEN s =
     (if bit (i_flags s) 10 then with_bits 16 s (\<lambda>s.
        let s = s\<lparr>i_length := i_hold s\<rparr>;
            s = upd_head (\<lambda>h. h\<lparr>h_extra_len := i_hold s\<rparr>) s;
            s = (if hcrc_on s then s\<lparr>i_check := CRC2 (i_check s) (i_hold s)\<rparr> else s)
        in Next ((initbits s)\<lparr>i_mode := EXTRA\<rparr>))
      else Next ((upd_head (\<lambda>h. h\<lparr>h_extra := None\<rparr>) s)\<lparr>i_mode := EXTRA\<rparr>))"

text \<open>The number of bytes \<open>zmemcpy\<close> is told to copy into the user's extra field, in \<open>unsigned\<close>.\<close>

definition extra_copy_len :: "nat \<Rightarrow> nat \<Rightarrow> nat \<Rightarrow> nat" where
  "extra_copy_len len copy extra_max =
     (if len + copy > extra_max then unat (word_of_nat extra_max - word_of_nat len :: u32) else copy)"

definition do_EXTRA :: "z_inflate \<Rightarrow> outcome" where
  "do_EXTRA s =
     (let fin = (\<lambda>s. Next (s\<lparr>i_length := 0, i_mode := NAME\<rparr>)) in
      if bit (i_flags s) 10 then
        (let copy = i_length s;
             copy = (if copy > length (next_in s) then length (next_in s) else copy);
             s = (if copy \<noteq> 0 then
                    (let s = upd_head (\<lambda>h.
                           (case h_extra h of
                              None \<Rightarrow> h
                            | Some buf \<Rightarrow>
                                (let len = h_extra_len h - i_length s in
                                 h\<lparr>h_extra := Some (write_bytes buf len
                                   (take (extra_copy_len len copy (h_extra_max h)) (next_in s)))\<rparr>))) s;
                         s = (if hcrc_on s then s\<lparr>i_check := crc_upd (i_check s) (take copy (next_in s))\<rparr> else s)
                     in s\<lparr>next_in := drop copy (next_in s), i_length := i_length s - copy\<rparr>)
                  else s)
         in if i_length s \<noteq> 0 then Leave s else fin s)
      else fin s)"

text \<open>The \<open>do ... while (len && copy < have)\<close> of the name and the comment: the last byte read, the
  number read, the new length and buffer.\<close>

fun copy_string :: "u8 list option \<Rightarrow> nat \<Rightarrow> nat \<Rightarrow> u8 list \<Rightarrow> nat \<Rightarrow> u8 \<times> nat \<times> nat \<times> u8 list option" where
  "copy_string buf len mx [] copy = (0, copy, len, buf)"
| "copy_string buf len mx (b # rest) copy =
     (let store = (buf \<noteq> None \<and> len < mx);
          buf = (if store then Some ((the buf)[len := b]) else buf);
          len = (if store then len + 1 else len)
      in if b \<noteq> 0 \<and> rest \<noteq> [] then copy_string buf len mx rest (copy + 1) else (b, copy + 1, len, buf))"

definition do_NAME :: "z_inflate \<Rightarrow> outcome" where
  "do_NAME s =
     (let fin = (\<lambda>s. Next (s\<lparr>i_length := 0, i_mode := COMMENT\<rparr>)) in
      if bit (i_flags s) 11 then
        (if next_in s = [] then Leave s
         else
           (case copy_string (Option.bind (i_head s) h_name) (i_length s)
                   (case i_head s of None \<Rightarrow> 0 | Some h \<Rightarrow> h_name_max h) (next_in s) 0 of
              (len, copy, length', buf) \<Rightarrow>
                let s = (upd_head (\<lambda>h. h\<lparr>h_name := buf\<rparr>) s)\<lparr>i_length := length'\<rparr>;
                    s = (if hcrc_on s then s\<lparr>i_check := crc_upd (i_check s) (take copy (next_in s))\<rparr> else s);
                    s = s\<lparr>next_in := drop copy (next_in s)\<rparr>
                in if len \<noteq> 0 then Leave s else fin s))
      else fin (upd_head (\<lambda>h. h\<lparr>h_name := None\<rparr>) s))"

definition do_COMMENT :: "z_inflate \<Rightarrow> outcome" where
  "do_COMMENT s =
     (let fin = (\<lambda>s. Next (s\<lparr>i_mode := HCRC\<rparr>)) in
      if bit (i_flags s) 12 then
        (if next_in s = [] then Leave s
         else
           (case copy_string (Option.bind (i_head s) h_comment) (i_length s)
                   (case i_head s of None \<Rightarrow> 0 | Some h \<Rightarrow> h_comm_max h) (next_in s) 0 of
              (len, copy, length', buf) \<Rightarrow>
                let s = (upd_head (\<lambda>h. h\<lparr>h_comment := buf\<rparr>) s)\<lparr>i_length := length'\<rparr>;
                    s = (if hcrc_on s then s\<lparr>i_check := crc_upd (i_check s) (take copy (next_in s))\<rparr> else s);
                    s = s\<lparr>next_in := drop copy (next_in s)\<rparr>
                in if len \<noteq> 0 then Leave s else fin s))
      else fin (upd_head (\<lambda>h. h\<lparr>h_comment := None\<rparr>) s))"

definition do_HCRC :: "z_inflate \<Rightarrow> outcome" where
  "do_HCRC s =
     (let fin = (\<lambda>s.
            let s = upd_head (\<lambda>h. h\<lparr>h_hcrc := i_flags s div 2 ^ 9 mod 2, h_done := 1\<rparr>) s
            in Next (s\<lparr>i_check := crc32 True 0 0 None, adler := crc32 True 0 0 None, i_mode := TYPE_state\<rparr>)) in
      if bit (i_flags s) 9 then with_bits 16 s (\<lambda>s.
        if bit (i_wrap s) 2 \<and> i_hold s \<noteq> unat (i_check s AND 0xffff) then bad ''header crc mismatch'' s
        else fin (initbits s))
      else fin s)"

definition do_DICTID :: "z_inflate \<Rightarrow> outcome" where
  "do_DICTID s = with_bits 32 s (\<lambda>s.
     let s = s\<lparr>i_check := ZSWAP32 (word_of_nat (i_hold s)), adler := ZSWAP32 (word_of_nat (i_hold s))\<rparr>
     in Next ((initbits s)\<lparr>i_mode := DICT\<rparr>))"

definition do_DICT :: "z_inflate \<Rightarrow> outcome" where
  "do_DICT s =
     (if \<not> i_havedict s then Return Z_NEED_DICT s
      else Next (s\<lparr>i_check := adler32 0 None, adler := adler32 0 None, i_mode := TYPE_state\<rparr>))"

section \<open>Blocks\<close>

definition do_TYPEDO :: "int \<Rightarrow> z_inflate \<Rightarrow> outcome" where
  "do_TYPEDO flush s =
     (if i_last s \<noteq> 0 then Next ((bytebits s)\<lparr>i_mode := CHECK\<rparr>)
      else with_bits 3 s (\<lambda>s.
        let s = s\<lparr>i_last := bits_val 1 s\<rparr>;
            s = dropbits 1 s;
            ty = bits_val 2 s
        in if ty = 0 then Next (dropbits 2 (s\<lparr>i_mode := STORED\<rparr>))
           else if ty = 1 then
             (let s = (fixedtables s)\<lparr>i_mode := LEN_first\<rparr>
              in if flush = Z_TREES then Leave (dropbits 2 s) else Next (dropbits 2 s))
           else if ty = 2 then Next (dropbits 2 (s\<lparr>i_mode := TABLE\<rparr>))
           else Next (dropbits 2 (s\<lparr>i_mode := BAD, msg := Some ''invalid block type''\<rparr>))))"

definition do_TYPE :: "int \<Rightarrow> z_inflate \<Rightarrow> outcome" where
  "do_TYPE flush s = (if flush = Z_BLOCK \<or> flush = Z_TREES then Leave s else do_TYPEDO flush s)"

definition do_STORED :: "int \<Rightarrow> z_inflate \<Rightarrow> outcome" where
  "do_STORED flush s = with_bits 32 (bytebits s) (\<lambda>s.
     if i_hold s mod 2 ^ 16 \<noteq> (i_hold s div 2 ^ 16) XOR 0xffff then bad ''invalid stored block lengths'' s
     else
       (let s = s\<lparr>i_length := i_hold s mod 2 ^ 16\<rparr>;
            s = (initbits s)\<lparr>i_mode := COPY_first\<rparr>
        in if flush = Z_TREES then Leave s else Next s))"

definition do_COPY :: "z_inflate \<Rightarrow> outcome" where
  "do_COPY s =
     (let copy = i_length s in
      if copy \<noteq> 0 then
        (let copy = (if copy > length (next_in s) then length (next_in s) else copy);
             copy = (if copy > avail_out s then avail_out s else copy)
         in if copy = 0 then Leave s
            else Next (s\<lparr>put := put s @ take copy (next_in s), next_in := drop copy (next_in s),
                         avail_out := avail_out s - copy, i_length := i_length s - copy\<rparr>))
      else Next (s\<lparr>i_mode := TYPE_state\<rparr>))"

section \<open>Code tables\<close>

definition order :: "nat list" where
  "order = [16, 17, 18, 0, 8, 7, 9, 6, 10, 5, 11, 4, 12, 3, 13, 2, 14, 1, 15]"

definition do_TABLE :: "z_inflate \<Rightarrow> outcome" where
  "do_TABLE s = with_bits 14 s (\<lambda>s.
     let s = dropbits 5 (s\<lparr>i_nlen := bits_val 5 s + 257\<rparr>);
         s = dropbits 5 (s\<lparr>i_ndist := bits_val 5 s + 1\<rparr>);
         s = dropbits 4 (s\<lparr>i_ncode := bits_val 4 s + 4\<rparr>)
     in if i_nlen s > 286 \<or> i_ndist s > 30 then bad ''too many length or distance symbols'' s
        else Next (s\<lparr>i_have := 0, i_mode := LENLENS\<rparr>))"

lemma needbits_have [simp]:
  "i_have (snd (needbits n s)) = i_have s \<and> i_ncode (snd (needbits n s)) = i_ncode s \<and>
   i_nlen (snd (needbits n s)) = i_nlen s \<and> i_ndist (snd (needbits n s)) = i_ndist s"
proof (induction n s rule: needbits.induct)
  case (1 n s)
  then show ?case by (subst (1 2 3 4) needbits.simps) (auto simp: pull_byte_def split: list.splits)
qed

text \<open>\<open>while (state->have < state->ncode)\<close>; False when the input ran out.\<close>

function lenlens_loop :: "z_inflate \<Rightarrow> bool \<times> z_inflate" where
  "lenlens_loop s =
     (if i_have s < i_ncode s then
        (let r = needbits 3 s; s = snd r in
         if fst r then
           lenlens_loop (dropbits 3 (s\<lparr>i_lens := (i_lens s)[order ! i_have s := bits_val 3 s],
                                      i_have := i_have s + 1\<rparr>))
         else (False, s))
      else (True, s))"
  by pat_completeness auto
termination
  by (relation "measure (\<lambda>s. i_ncode s - i_have s)") (auto simp: dropbits_def)

declare lenlens_loop.simps [simp del]

definition do_LENLENS :: "z_inflate \<Rightarrow> outcome" where
  "do_LENLENS s =
     (case lenlens_loop s of (ok, s) \<Rightarrow>
        if \<not> ok then Leave s
        else
          (let s = s\<lparr>i_lens := foldl (\<lambda>lens k. lens[order ! k := 0]) (i_lens s) [i_have s..<19],
                     i_have := (if i_have s < 19 then 19 else i_have s)\<rparr>;
               s = s\<lparr>i_next := 0, i_lencode := Codes 0, i_lenbits := 7\<rparr>
           in case inflate_table CODES (take 19 (i_lens s)) (i_codes s) (i_next s) (i_lenbits s) (i_work s) of
                None \<Rightarrow> Stuck
              | Some r \<Rightarrow>
                  (let s = s\<lparr>i_codes := r_tab r, i_next := r_next r, i_lenbits := r_bits r, i_work := r_work r,
                             l_ret := r_ret r\<rparr>
                   in if l_ret s \<noteq> 0 then bad ''invalid code lengths set'' s
                      else Next (s\<lparr>i_have := 0, i_mode := CODELENS\<rparr>))))"

datatype codelens_result = CL_done z_inflate | CL_leave z_inflate | CL_bad string z_inflate

text \<open>A repeat code: the extra bits, what is repeated and the base of the count.\<close>

definition repeat_len :: "code \<Rightarrow> nat \<Rightarrow> nat \<Rightarrow> z_inflate \<Rightarrow> codelens_result" where
  "repeat_len here xbits base s =
     (case needbits (unat (code_bits here) + xbits) s of (ok, s) \<Rightarrow>
        if \<not> ok then CL_leave s
        else
          (let s = dropbits (unat (code_bits here)) s in
           if code_val here = 16 \<and> i_have s = 0 then CL_bad ''invalid bit length repeat'' s
           else
             (let len = (if code_val here = 16 then i_lens s ! (i_have s - 1) else 0);
                  copy = base + bits_val xbits s;
                  s = dropbits xbits s
              in if i_have s + copy > i_nlen s + i_ndist s then CL_bad ''invalid bit length repeat'' s
                 else CL_done (s\<lparr>i_lens := foldl (\<lambda>lens k. lens[k := len]) (i_lens s) [i_have s..<i_have s + copy],
                                 i_have := i_have s + copy\<rparr>))))"

definition codelens_step :: "z_inflate \<Rightarrow> codelens_result" where
  "codelens_step s =
     (case pull_code (\<lambda>s. code_at s (i_lencode s) (bits_val (i_lenbits s) s)) 0 s of
        (None, s) \<Rightarrow> CL_leave s
      | (Some here, s) \<Rightarrow>
          if unat (code_val here) < 16 then
            (let s = dropbits (unat (code_bits here)) s
             in CL_done (s\<lparr>i_lens := (i_lens s)[i_have s := unat (code_val here)], i_have := i_have s + 1\<rparr>))
          else if code_val here = 16 then repeat_len here 2 3 s
          else if code_val here = 17 then repeat_len here 3 3 s
          else repeat_len here 7 11 s)"

lemma pull_code_have [simp]:
  "i_have (snd (pull_code get used s)) = i_have s \<and> i_nlen (snd (pull_code get used s)) = i_nlen s \<and>
   i_ndist (snd (pull_code get used s)) = i_ndist s"
proof (induction get used s rule: pull_code.induct)
  case (1 get used s)
  then show ?case by (subst (1 2 3) pull_code.simps) (auto simp: pull_byte_def Let_def split: list.splits)
qed

lemma repeat_len_have:
  assumes "repeat_len here xbits base s = CL_done s'" "0 < base"
  shows "i_nlen s' = i_nlen s \<and> i_ndist s' = i_ndist s \<and> i_have s < i_have s' \<and> i_have s' \<le> i_nlen s + i_ndist s"
proof -
  obtain ok s1 where n: "needbits (unat (code_bits here) + xbits) s = (ok, s1)" by fastforce
  then have "i_have s1 = i_have s \<and> i_nlen s1 = i_nlen s \<and> i_ndist s1 = i_ndist s"
    using needbits_have [of "unat (code_bits here) + xbits" s] by simp
  then show ?thesis
    using assms n by (auto simp: repeat_len_def Let_def dropbits_def split: if_splits)
qed

lemma codelens_step_have:
  assumes "codelens_step s = CL_done s'"
  shows "i_nlen s' = i_nlen s \<and> i_ndist s' = i_ndist s \<and> i_have s < i_have s'"
proof -
  obtain h s1 where p: "pull_code (\<lambda>s. code_at s (i_lencode s) (bits_val (i_lenbits s) s)) 0 s = (h, s1)"
    by fastforce
  then have s1: "i_have s1 = i_have s" "i_nlen s1 = i_nlen s" "i_ndist s1 = i_ndist s"
    using pull_code_have [of "\<lambda>s. code_at s (i_lencode s) (bits_val (i_lenbits s) s)" 0 s] by simp_all
  show ?thesis
    using assms p s1 repeat_len_have [of _ _ _ s1 s']
    by (auto simp: codelens_step_def Let_def dropbits_def split: option.splits if_splits)
qed

text \<open>\<open>while (state->have < state->nlen + state->ndist)\<close>, until it ends or breaks.\<close>

function codelens_loop :: "z_inflate \<Rightarrow> codelens_result" where
  "codelens_loop s =
     (if i_have s < i_nlen s + i_ndist s then
        (case codelens_step s of
           CL_done s \<Rightarrow> codelens_loop s
         | r \<Rightarrow> r)
      else CL_done s)"
  by pat_completeness auto
termination
  by (relation "measure (\<lambda>s. i_nlen s + i_ndist s - i_have s)") (auto dest: codelens_step_have)

declare codelens_loop.simps [simp del]

definition do_CODELENS :: "int \<Rightarrow> z_inflate \<Rightarrow> outcome" where
  "do_CODELENS flush s =
     (case codelens_loop s of
        CL_leave s \<Rightarrow> Leave s
      | CL_bad m s \<Rightarrow> bad m s
      | CL_done s \<Rightarrow>
          if i_lens s ! 256 = 0 then bad ''invalid code -- missing end-of-block'' s
          else
            (let s = s\<lparr>i_next := 0, i_lencode := Codes 0, i_lenbits := 9\<rparr> in
             case inflate_table LENS (take (i_nlen s) (i_lens s)) (i_codes s) (i_next s) (i_lenbits s) (i_work s) of
               None \<Rightarrow> Stuck
             | Some r \<Rightarrow>
                 (let s = s\<lparr>i_codes := r_tab r, i_next := r_next r, i_lenbits := r_bits r, i_work := r_work r,
                            l_ret := r_ret r\<rparr> in
                  if l_ret s \<noteq> 0 then bad ''invalid literal/lengths set'' s
                  else
                    (let s = s\<lparr>i_distcode := Codes (i_next s), i_distbits := 6\<rparr> in
                     case inflate_table DISTS (take (i_ndist s) (drop (i_nlen s) (i_lens s))) (i_codes s)
                            (i_next s) (i_distbits s) (i_work s) of
                       None \<Rightarrow> Stuck
                     | Some r \<Rightarrow>
                         (let s = s\<lparr>i_codes := r_tab r, i_next := r_next r, i_distbits := r_bits r,
                                    i_work := r_work r, l_ret := r_ret r\<rparr> in
                          if l_ret s \<noteq> 0 then bad ''invalid distances set'' s
                          else
                            (let s = s\<lparr>i_mode := LEN_first\<rparr>
                             in if flush = Z_TREES then Leave s else Next s))))))"

section \<open>Symbols and matches\<close>

text \<open>The second lookup, through the link that the code calls \<open>last\<close>.\<close>

definition second_code :: "code_ptr \<Rightarrow> code \<Rightarrow> z_inflate \<Rightarrow> code option \<times> z_inflate" where
  "second_code p link s =
     (case pull_code (\<lambda>s. code_at s p (unat (code_val link) +
             bits_val (unat (code_bits link) + unat (code_op link)) s div 2 ^ unat (code_bits link)))
           (unat (code_bits link)) s of
        (None, s) \<Rightarrow> (None, s)
      | (Some here, s) \<Rightarrow>
          (Some here, (dropbits (unat (code_bits link)) s)\<lparr>i_back := i_back s + int (unat (code_bits link))\<rparr>))"

definition do_LEN :: "z_inflate \<Rightarrow> outcome" where
  "do_LEN s =
     (if length (next_in s) \<ge> 6 \<and> avail_out s \<ge> 258 then
        (case inflate_fast (avail_out s + 8) (l_out s) s of
           None \<Rightarrow> Stuck
         | Some s \<Rightarrow> Next (if i_mode s = TYPE_state then s\<lparr>i_back := -1\<rparr> else s))
      else
        (case pull_code (\<lambda>s. code_at s (i_lencode s) (bits_val (i_lenbits s) s)) 0 (s\<lparr>i_back := 0\<rparr>) of
           (None, s) \<Rightarrow> Leave s
         | (Some here, s) \<Rightarrow>
             (case (if code_op here \<noteq> 0 \<and> code_op here AND 0xf0 = 0 then second_code (i_lencode s) here s
                    else (Some here, s)) of
                (None, s) \<Rightarrow> Leave s
              | (Some here, s) \<Rightarrow>
                  (let s = (dropbits (unat (code_bits here)) s)
                             \<lparr>i_back := i_back s + int (unat (code_bits here)), i_length := unat (code_val here)\<rparr>
                   in if code_op here = 0 then Next (s\<lparr>i_mode := LIT\<rparr>)
                      else if code_op here AND 32 \<noteq> 0 then Next (s\<lparr>i_back := -1, i_mode := TYPE_state\<rparr>)
                      else if code_op here AND 64 \<noteq> 0 then bad ''invalid literal/length code'' s
                      else Next (s\<lparr>i_extra := unat (code_op here AND 15), i_mode := LENEXT\<rparr>)))))"

definition do_LENEXT :: "z_inflate \<Rightarrow> outcome" where
  "do_LENEXT s =
     (let fin = (\<lambda>s. Next (s\<lparr>i_was := i_length s, i_mode := DIST\<rparr>)) in
      if i_extra s \<noteq> 0 then with_bits (i_extra s) s (\<lambda>s.
        fin ((dropbits (i_extra s) s)\<lparr>i_length := i_length s + bits_val (i_extra s) s,
               i_back := i_back s + int (i_extra s)\<rparr>))
      else fin s)"

definition do_DIST :: "z_inflate \<Rightarrow> outcome" where
  "do_DIST s =
     (case pull_code (\<lambda>s. code_at s (i_distcode s) (bits_val (i_distbits s) s)) 0 s of
        (None, s) \<Rightarrow> Leave s
      | (Some here, s) \<Rightarrow>
          (case (if code_op here AND 0xf0 = 0 then second_code (i_distcode s) here s else (Some here, s)) of
             (None, s) \<Rightarrow> Leave s
           | (Some here, s) \<Rightarrow>
               (let s = (dropbits (unat (code_bits here)) s)\<lparr>i_back := i_back s + int (unat (code_bits here))\<rparr>
                in if code_op here AND 64 \<noteq> 0 then bad ''invalid distance code'' s
                   else Next (s\<lparr>i_offset := unat (code_val here), i_extra := unat (code_op here AND 15),
                                i_mode := DISTEXT\<rparr>))))"

definition do_DISTEXT :: "z_inflate \<Rightarrow> outcome" where
  "do_DISTEXT s =
     (let fin = (\<lambda>s. Next (s\<lparr>i_mode := MATCH\<rparr>)) in
      if i_extra s \<noteq> 0 then with_bits (i_extra s) s (\<lambda>s.
        fin ((dropbits (i_extra s) s)\<lparr>i_offset := i_offset s + bits_val (i_extra s) s,
               i_back := i_back s + int (i_extra s)\<rparr>))
      else fin s)"

text \<open>\<open>copy\<close> bytes of a match have been written as \<open>out\<close>.  A copy of no bytes does not occur: the
  \<open>do ... while (--copy)\<close> would run off, which the model calls stuck.\<close>

definition match_done :: "nat \<Rightarrow> u8 list \<Rightarrow> z_inflate \<Rightarrow> outcome" where
  "match_done copy out s =
     (if copy = 0 then Stuck
      else
        (let s = s\<lparr>avail_out := avail_out s - copy, i_length := i_length s - copy, put := out\<rparr>
         in Next (if i_length s = 0 then s\<lparr>i_mode := LEN\<rparr> else s)))"

definition do_MATCH :: "z_inflate \<Rightarrow> outcome" where
  "do_MATCH s =
     (if avail_out s = 0 then Leave s
      else
        (let copy = l_out s - avail_out s in
         if i_offset s > copy then
           (let copy = i_offset s - copy in
            if copy > i_whave s \<and> i_sane s then bad ''invalid distance too far back'' s
            else
              (let (copy, from) = (if copy > i_wnext s then (copy - i_wnext s, i_wsize s - (copy - i_wnext s))
                                   else (copy, i_wnext s - copy));
                   copy = (if copy > i_length s then i_length s else copy);
                   copy = (if copy > avail_out s then avail_out s else copy)
               in match_done copy (window_copy (the (i_window s)) from copy (put s)) s))
         else
           (let copy = i_length s;
                copy = (if copy > avail_out s then avail_out s else copy)
            in match_done copy (lz_copy (i_offset s) copy (put s)) s)))"

definition do_LIT :: "z_inflate \<Rightarrow> outcome" where
  "do_LIT s =
     (if avail_out s = 0 then Leave s
      else Next (s\<lparr>put := put s @ [word_of_nat (i_length s)], avail_out := avail_out s - 1, i_mode := LEN\<rparr>))"

section \<open>The trailer\<close>

text \<open>\<open>strm->adler = state->check = UPDATE(state->check, put - out, out)\<close> when it is asked for.\<close>

definition add_output :: "nat \<Rightarrow> z_inflate \<Rightarrow> z_inflate" where
  "add_output out s =
     (let s = s\<lparr>total_out := total_out s + of_nat out, i_total := i_total s + of_nat out\<rparr> in
      if bit (i_wrap s) 2 \<and> out \<noteq> 0 then
        (let check = check_update s (drop (length (put s) - out) (put s)) in s\<lparr>adler := check, i_check := check\<rparr>)
      else s)"

definition do_CHECK :: "z_inflate \<Rightarrow> outcome" where
  "do_CHECK s =
     (if i_wrap s \<noteq> 0 then with_bits 32 s (\<lambda>s.
        let s = (add_output (l_out s - avail_out s) s)\<lparr>l_out := avail_out s\<rparr> in
        if bit (i_wrap s) 2 \<and>
           (if i_flags s \<noteq> 0 then i_hold s else unat (ZSWAP32 (word_of_nat (i_hold s)))) \<noteq> unat (i_check s)
        then bad ''incorrect data check'' s
        else Next ((initbits s)\<lparr>i_mode := LENGTH_state\<rparr>))
      else Next (s\<lparr>i_mode := LENGTH_state\<rparr>))"

definition do_LENGTH :: "z_inflate \<Rightarrow> outcome" where
  "do_LENGTH s =
     (if i_wrap s \<noteq> 0 \<and> i_flags s \<noteq> 0 then with_bits 32 s (\<lambda>s.
        if i_hold s \<noteq> unat (i_total s AND 0xffffffff) then bad ''incorrect length check'' s
        else Next ((initbits s)\<lparr>i_mode := DONE\<rparr>))
      else Next (s\<lparr>i_mode := DONE\<rparr>))"

section \<open>The machine\<close>

definition inflate_step :: "int \<Rightarrow> z_inflate \<Rightarrow> outcome" where
  "inflate_step flush s =
     (case i_mode s of
        HEAD \<Rightarrow> do_HEAD s | FLAGS \<Rightarrow> do_FLAGS s | TIME \<Rightarrow> do_TIME s | OS \<Rightarrow> do_OS s
      | EXLEN \<Rightarrow> do_EXLEN s | EXTRA \<Rightarrow> do_EXTRA s | NAME \<Rightarrow> do_NAME s | COMMENT \<Rightarrow> do_COMMENT s
      | HCRC \<Rightarrow> do_HCRC s | DICTID \<Rightarrow> do_DICTID s | DICT \<Rightarrow> do_DICT s
      | TYPE_state \<Rightarrow> do_TYPE flush s | TYPEDO \<Rightarrow> do_TYPEDO flush s | STORED \<Rightarrow> do_STORED flush s
      | COPY_first \<Rightarrow> Next (s\<lparr>i_mode := COPY\<rparr>) | COPY \<Rightarrow> do_COPY s
      | TABLE \<Rightarrow> do_TABLE s | LENLENS \<Rightarrow> do_LENLENS s | CODELENS \<Rightarrow> do_CODELENS flush s
      | LEN_first \<Rightarrow> Next (s\<lparr>i_mode := LEN\<rparr>) | LEN \<Rightarrow> do_LEN s | LENEXT \<Rightarrow> do_LENEXT s
      | DIST \<Rightarrow> do_DIST s | DISTEXT \<Rightarrow> do_DISTEXT s | MATCH \<Rightarrow> do_MATCH s | LIT \<Rightarrow> do_LIT s
      | CHECK \<Rightarrow> do_CHECK s | LENGTH_state \<Rightarrow> do_LENGTH s
      | DONE \<Rightarrow> Leave (s\<lparr>l_ret := Z_STREAM_END\<rparr>)
      | BAD \<Rightarrow> Leave (s\<lparr>l_ret := Z_DATA_ERROR\<rparr>)
      | MEM \<Rightarrow> Return Z_MEM_ERROR s
      | SYNC \<Rightarrow> Return Z_STREAM_ERROR s)"

text \<open>The outcome is \<open>Leave\<close>, \<open>Return\<close> or \<open>Stuck\<close>.\<close>

fun inflate_loop :: "nat \<Rightarrow> int \<Rightarrow> z_inflate \<Rightarrow> outcome" where
  "inflate_loop 0 flush s = Stuck"
| "inflate_loop (Suc fuel) flush s =
     (case inflate_step flush s of Next s \<Rightarrow> inflate_loop fuel flush s | r \<Rightarrow> r)"

text \<open>\<open>inf_leave\<close>; \<open>l_in\<close> and \<open>l_out\<close> are \<open>in\<close> and \<open>out\<close>.\<close>

definition inf_leave :: "bool \<Rightarrow> int \<Rightarrow> z_inflate \<Rightarrow> int \<times> z_inflate" where
  "inf_leave alloc flush s =
     (let (ok, s) =
        (if i_wsize s \<noteq> 0 \<or> (l_out s \<noteq> avail_out s \<and> i_mode s < BAD \<and> (i_mode s < CHECK \<or> flush \<noteq> Z_FINISH))
         then updatewindow alloc (put s) (l_out s - avail_out s) s
         else (True, s))
      in if \<not> ok then (Z_MEM_ERROR, s\<lparr>i_mode := MEM\<rparr>)
         else
           (let consumed = l_in s - length (next_in s);
                out = l_out s - avail_out s;
                s = add_output out (s\<lparr>total_in := total_in s + of_nat consumed\<rparr>);
                s = s\<lparr>data_type := int (i_bits s) + (if i_last s \<noteq> 0 then 64 else 0) +
                        (if i_mode s = TYPE_state then 128 else 0) +
                        (if i_mode s = LEN_first \<or> i_mode s = COPY_first then 256 else 0)\<rparr>;
                ret = (if (consumed = 0 \<and> out = 0 \<or> flush = Z_FINISH) \<and> l_ret s = Z_OK then Z_BUF_ERROR
                       else l_ret s)
            in (ret, s)))"

text \<open>\<open>inflate(strm, flush)\<close>: \<open>put\<close> is the output of this call.  The buffers exist, so of the checks
  of the arguments \<open>inflateStateCheck\<close> is left.\<close>

definition inflate :: "nat \<Rightarrow> bool \<Rightarrow> int \<Rightarrow> z_inflate \<Rightarrow> (int \<times> z_inflate) option" where
  "inflate fuel alloc flush s =
     (if \<not> z_ready s then Some (Z_STREAM_ERROR, s)
      else
        (let s = (if i_mode s = TYPE_state then s\<lparr>i_mode := TYPEDO\<rparr> else s);
             s = s\<lparr>put := [], l_in := length (next_in s), l_out := avail_out s, l_ret := Z_OK\<rparr>
         in case inflate_loop fuel flush s of
              Leave s \<Rightarrow> Some (inf_leave alloc flush s)
            | Return ret s \<Rightarrow> Some (ret, s)
            | _ \<Rightarrow> None))"

end
