(* ===== verification/Inflate_Api.thy ===== *)
theory Inflate_Api
  imports Inflate
begin

text \<open>
  The calls around \<open>inflate()\<close> in \<open>src/src/zlib/inflate.c\<close>: initialisation and reset, priming, the
  dictionary, the gzip header, synchronisation, copy and the small queries.  A call returns its value
  and the stream; the success of \<open>ZALLOC\<close> is an argument.
\<close>

section \<open>Initialisation\<close>

definition inflateResetKeep :: "z_inflate \<Rightarrow> int \<times> z_inflate" where
  "inflateResetKeep s =
     (if \<not> z_ready s then (Z_STREAM_ERROR, s)
      else
        (let s = s\<lparr>total_in := 0, total_out := 0, i_total := 0, msg := None\<rparr>;
             s = (if i_wrap s \<noteq> 0 then s\<lparr>adler := word_of_nat (i_wrap s mod 2)\<rparr> else s)
         in (Z_OK, s\<lparr>i_mode := HEAD, i_last := 0, i_havedict := False, i_dmax := 32768, i_head := None,
                     i_hold := 0, i_bits := 0, i_lencode := Codes 0, i_distcode := Codes 0, i_next := 0,
                     i_sane := True, i_back := -1\<rparr>)))"

definition inflateReset :: "z_inflate \<Rightarrow> int \<times> z_inflate" where
  "inflateReset s =
     (if \<not> z_ready s then (Z_STREAM_ERROR, s)
      else inflateResetKeep (s\<lparr>i_wsize := 0, i_whave := 0, i_wnext := 0\<rparr>))"

definition inflateReset2 :: "int \<Rightarrow> z_inflate \<Rightarrow> int \<times> z_inflate" where
  "inflateReset2 windowBits s =
     (if \<not> z_ready s then (Z_STREAM_ERROR, s)
      else
        (let (wrap, windowBits) =
               (if windowBits < 0 then (0, - windowBits)
                else (windowBits div 16 + 5, if windowBits < 48 then windowBits mod 16 else windowBits))
         in if windowBits \<noteq> 0 \<and> (windowBits < 8 \<or> windowBits > 15) then (Z_STREAM_ERROR, s)
            else
              (let s = (if i_window s \<noteq> None \<and> i_wbits s \<noteq> nat windowBits then s\<lparr>i_window := None\<rparr> else s)
               in inflateReset (s\<lparr>i_wrap := nat wrap, i_wbits := nat windowBits\<rparr>))))"

definition ZLIB_VERSION :: string where "ZLIB_VERSION = ''1.2.11''"
definition sizeof_z_stream :: int where "sizeof_z_stream = 112"
definition DEF_WBITS :: int where "DEF_WBITS = 15"

text \<open>\<open>version == Z_NULL || version[0] != ZLIB_VERSION[0]\<close> is False; the empty string has a zero there.\<close>

definition version_ok :: "string option \<Rightarrow> bool" where
  "version_ok v = (case v of Some (c # _) \<Rightarrow> c = ZLIB_VERSION ! 0 | _ \<Rightarrow> False)"

text \<open>The fresh memory of the state is what the state part of \<open>s\<close> holds.\<close>

definition inflateInit2 :: "bool \<Rightarrow> int \<Rightarrow> string option \<Rightarrow> int \<Rightarrow> z_inflate \<Rightarrow> int \<times> z_inflate" where
  "inflateInit2 alloc windowBits version stream_size s =
     (if \<not> version_ok version \<or> stream_size \<noteq> sizeof_z_stream then (Z_VERSION_ERROR, s)
      else
        (let s = s\<lparr>msg := None\<rparr> in
         if \<not> alloc then (Z_MEM_ERROR, s)
         else
           (case inflateReset2 windowBits (s\<lparr>z_ready := True, i_window := None, i_mode := HEAD\<rparr>) of
              (ret, s) \<Rightarrow> (ret, if ret \<noteq> Z_OK then s\<lparr>z_ready := False\<rparr> else s))))"

definition inflateInit :: "bool \<Rightarrow> string option \<Rightarrow> int \<Rightarrow> z_inflate \<Rightarrow> int \<times> z_inflate" where
  "inflateInit alloc version stream_size s = inflateInit2 alloc DEF_WBITS version stream_size s"

text \<open>\<open>hold\<close> and the value are \<open>unsigned long\<close> and \<open>int\<close>; \<open>bits\<close> is at most 16 and at most 32 are kept.\<close>

definition inflatePrime :: "int \<Rightarrow> int \<Rightarrow> z_inflate \<Rightarrow> int \<times> z_inflate" where
  "inflatePrime nbits v s =
     (if \<not> z_ready s then (Z_STREAM_ERROR, s)
      else if nbits < 0 then (Z_OK, s\<lparr>i_hold := 0, i_bits := 0\<rparr>)
      else if nbits > 16 \<or> i_bits s + nat nbits > 32 then (Z_STREAM_ERROR, s)
      else
        (let v = nat (v mod 2 ^ nat nbits)
         in (Z_OK, s\<lparr>i_hold := i_hold s + v * 2 ^ i_bits s, i_bits := i_bits s + nat nbits\<rparr>)))"

definition inflateEnd :: "z_inflate \<Rightarrow> int \<times> z_inflate" where
  "inflateEnd s =
     (if \<not> z_ready s then (Z_STREAM_ERROR, s)
      else (Z_OK, s\<lparr>i_window := None, z_ready := False\<rparr>))"

section \<open>Dictionary and header\<close>

text \<open>The bytes written to \<open>dictionary\<close> when there is one, and \<open>*dictLength\<close>.\<close>

definition inflateGetDictionary :: "z_inflate \<Rightarrow> int \<times> u8 list \<times> nat" where
  "inflateGetDictionary s =
     (if \<not> z_ready s then (Z_STREAM_ERROR, [], 0)
      else
        (Z_OK,
         (if i_whave s \<noteq> 0 then
            take (i_whave s - i_wnext s) (drop (i_wnext s) (the (i_window s))) @ take (i_wnext s) (the (i_window s))
          else []),
         i_whave s))"

definition inflateSetDictionary :: "bool \<Rightarrow> u8 list \<Rightarrow> z_inflate \<Rightarrow> int \<times> z_inflate" where
  "inflateSetDictionary alloc dictionary s =
     (if \<not> z_ready s then (Z_STREAM_ERROR, s)
      else if i_wrap s \<noteq> 0 \<and> i_mode s \<noteq> DICT then (Z_STREAM_ERROR, s)
      else if i_mode s = DICT \<and> adler32 (adler32 0 None) (Some dictionary) \<noteq> i_check s then (Z_DATA_ERROR, s)
      else
        (case updatewindow alloc dictionary (length dictionary) s of (ok, s) \<Rightarrow>
           if \<not> ok then (Z_MEM_ERROR, s\<lparr>i_mode := MEM\<rparr>) else (Z_OK, s\<lparr>i_havedict := True\<rparr>)))"

definition inflateGetHeader :: "gz_header \<Rightarrow> z_inflate \<Rightarrow> int \<times> z_inflate" where
  "inflateGetHeader head s =
     (if \<not> z_ready s then (Z_STREAM_ERROR, s)
      else if \<not> bit (i_wrap s) 1 then (Z_STREAM_ERROR, s)
      else (Z_OK, s\<lparr>i_head := Some (head\<lparr>h_done := 0\<rparr>)\<rparr>))"

section \<open>Synchronisation\<close>

text \<open>\<open>syncsearch(have, buf, len)\<close>: the new \<open>*have\<close> and the number of bytes looked at.\<close>

definition sync_next :: "nat \<Rightarrow> u8 \<Rightarrow> nat" where
  "sync_next got b =
     (if b = (if got < 2 then 0 else 0xff) then got + 1 else if b \<noteq> 0 then 0 else 4 - got)"

fun syncsearch :: "nat \<Rightarrow> u8 list \<Rightarrow> nat \<times> nat" where
  "syncsearch got [] = (got, 0)"
| "syncsearch got (b # buf) =
     (if got < 4 then (case syncsearch (sync_next got b) buf of (g, n) \<Rightarrow> (g, n + 1)) else (got, 0))"

text \<open>The whole bytes of the bit buffer: \<open>buf[len++] = (unsigned char)hold\<close> while \<open>bits >= 8\<close>.\<close>

fun hold_bytes :: "nat \<Rightarrow> nat \<Rightarrow> u8 list" where
  "hold_bytes hold 0 = []"
| "hold_bytes hold (Suc n) = word_of_nat hold # hold_bytes (hold div 2 ^ 8) n"

definition inflateSync :: "z_inflate \<Rightarrow> int \<times> z_inflate" where
  "inflateSync s =
     (if \<not> z_ready s then (Z_STREAM_ERROR, s)
      else if next_in s = [] \<and> i_bits s < 8 then (Z_BUF_ERROR, s)
      else
        (let s = (if i_mode s \<noteq> SYNC then
               (let hold = i_hold s * 2 ^ (i_bits s mod 8) mod 2 ^ 64;
                    n = i_bits s div 8
                in s\<lparr>i_mode := SYNC, i_hold := hold div 2 ^ (8 * n), i_bits := 0,
                     i_have := fst (syncsearch 0 (hold_bytes hold n))\<rparr>)
             else s);
             (have, len) = syncsearch (i_have s) (next_in s);
             s = s\<lparr>i_have := have, next_in := drop len (next_in s), total_in := total_in s + of_nat len\<rparr>
         in if i_have s \<noteq> 4 then (Z_DATA_ERROR, s)
            else
              (let s' = snd (inflateReset s)
               in (Z_OK, s'\<lparr>total_in := total_in s, total_out := total_out s, i_mode := TYPE_state\<rparr>))))"

definition inflateSyncPoint :: "z_inflate \<Rightarrow> int" where
  "inflateSyncPoint s =
     (if \<not> z_ready s then Z_STREAM_ERROR else if i_mode s = STORED \<and> i_bits s = 0 then 1 else 0)"

section \<open>Copy and queries\<close>

text \<open>The destination stream when the copy succeeds; the code pointers are relative to their tables.\<close>

definition inflateCopy :: "bool \<Rightarrow> bool \<Rightarrow> z_inflate \<Rightarrow> int \<times> z_inflate option" where
  "inflateCopy alloc_state alloc_window s =
     (if \<not> z_ready s then (Z_STREAM_ERROR, None)
      else if \<not> alloc_state then (Z_MEM_ERROR, None)
      else if i_window s \<noteq> None \<and> \<not> alloc_window then (Z_MEM_ERROR, None)
      else (Z_OK, Some (s\<lparr>i_window := map_option (take (2 ^ i_wbits s)) (i_window s)\<rparr>)))"

definition inflateUndermine :: "z_inflate \<Rightarrow> int \<times> z_inflate" where
  "inflateUndermine s =
     (if \<not> z_ready s then (Z_STREAM_ERROR, s) else (Z_DATA_ERROR, s\<lparr>i_sane := True\<rparr>))"

definition inflateValidate :: "bool \<Rightarrow> z_inflate \<Rightarrow> int \<times> z_inflate" where
  "inflateValidate check s =
     (if \<not> z_ready s then (Z_STREAM_ERROR, s)
      else (Z_OK, s\<lparr>i_wrap := (if check then set_bit 2 (i_wrap s) else unset_bit 2 (i_wrap s))\<rparr>))"

definition inflateMark :: "z_inflate \<Rightarrow> int" where
  "inflateMark s =
     (if \<not> z_ready s then - (2 ^ 16)
      else i_back s * 2 ^ 16 +
        (if i_mode s = COPY then int (i_length s)
         else if i_mode s = MATCH then int (i_was s - i_length s) else 0))"

definition inflateCodesUsed :: "z_inflate \<Rightarrow> u64" where
  "inflateCodesUsed s = (if \<not> z_ready s then -1 else of_nat (i_next s))"

end
