(* ===== verification/Bit_Lists.thy ===== *)
theory Bit_Lists
  imports Bit_Output
begin

text \<open>
  Numbers as lists of bits, low bit first, and the reversal of the low bits of a number.  Huffman codes
  are numbers that count upwards but are sent highest bit first, so the decoder's tables are indexed by
  reversed codes; \<open>rv m x\<close> reverses the low \<open>m\<close> bits.
\<close>

unbundle bit_operations_syntax

section \<open>Bits of numbers\<close>

definition nbits :: "nat \<Rightarrow> nat \<Rightarrow> bool list" where
  "nbits n v = map (bit v) [0..<n]"

definition bits_nat :: "bool list \<Rightarrow> nat" where
  "bits_nat bs = horner_sum of_bool 2 bs"

lemma length_nbits [simp]: "length (nbits n v) = n"
  by (simp add: nbits_def)

lemma nth_nbits [simp]: "i < n \<Longrightarrow> nbits n v ! i = bit v i"
  by (simp add: nbits_def)

lemma bits_nat_nbits [simp]: "bits_nat (nbits n v) = v mod 2 ^ n"
  unfolding bits_nat_def nbits_def by (simp add: horner_sum_bit_eq_take_bit take_bit_eq_mod)

lemma take_nbits [simp]: "take n (nbits m v) = nbits (min n m) v"
  by (simp add: nbits_def take_map min_def)

lemma drop_nbits [simp]: "drop n (nbits m v) = nbits (m - n) (v div 2 ^ n)"
  by (rule nth_equalityI) (simp_all add: nbits_def bit_drop_bit_eq flip: drop_bit_eq_div)

lemma nbits_mod [simp]: "n \<le> m \<Longrightarrow> nbits n (v mod 2 ^ m) = nbits n v"
  by (rule nth_equalityI) (simp_all add: nbits_def bit_take_bit_iff flip: take_bit_eq_mod)

lemma bit_add_high:
  fixes h b :: nat
  assumes "h < 2 ^ n"
  shows "bit (h + b * 2 ^ n) i \<longleftrightarrow> (if i < n then bit h i else bit b (i - n))"
proof -
  have "h = take_bit n h" using assms by (simp add: take_bit_eq_mod)
  then have hi: "\<not> bit h i" if "n \<le> i" for i using that by (metis bit_take_bit_iff not_less)
  have "h + push_bit n b = h OR push_bit n b"
    by (rule disjunctive_add) (use hi in \<open>auto simp: bit_push_bit_iff\<close>)
  then show ?thesis
    using hi by (auto simp: push_bit_eq_mult bit_or_iff bit_push_bit_iff mult.commute
        simp flip: push_bit_eq_mult)
qed

lemma nbits_add_byte:
  assumes "h < 2 ^ n"
  shows "nbits (n + 8) (h + unat (b :: u8) * 2 ^ n) = nbits n h @ byte_bits b"
proof (rule nth_equalityI)
  fix i assume "i < length (nbits (n + 8) (h + unat b * 2 ^ n))"
  then have "i < n + 8" by simp
  then show "nbits (n + 8) (h + unat b * 2 ^ n) ! i = (nbits n h @ byte_bits b) ! i"
    using bit_add_high [OF assms, of "unat b" i]
    by (auto simp: nth_append byte_bits_def bit_unsigned_iff simp del: upt_rec_numeral)
qed (simp add: byte_bits_def)

lemma add_byte_less: "h < 2 ^ n \<Longrightarrow> h + unat (b :: u8) * 2 ^ n < 2 ^ (n + 8)"
proof -
  assume "h < 2 ^ n"
  then have "h + unat b * 2 ^ n < (1 + unat b) * 2 ^ n" by simp
  also have "\<dots> \<le> 256 * 2 ^ n" using unat_u8_le [of b] by (intro mult_le_mono1) simp
  finally show ?thesis by (simp add: power_add)
qed

section \<open>Reversal\<close>

lemma bits_nat_Nil [simp]: "bits_nat [] = 0"
  by (simp add: bits_nat_def)

lemma bits_nat_Cons [simp]: "bits_nat (b # bs) = of_bool b + 2 * bits_nat bs"
  by (simp add: bits_nat_def)

lemma bits_nat_append: "bits_nat (xs @ ys) = bits_nat xs + 2 ^ length xs * bits_nat ys"
  by (induction xs) (simp_all add: algebra_simps)

lemma bits_nat_less: "bits_nat bs < 2 ^ length bs"
  by (induction bs) (auto simp: of_bool_def)

lemma bits_nat_zeros [simp]: "bits_nat (replicate n False) = 0"
  by (induction n) simp_all

lemma nbits_Suc: "nbits (Suc n) v = odd v # nbits n (v div 2)"
  by (rule nth_equalityI) (simp_all add: nth_Cons' bit_0 bit_Suc flip: bit_Suc split: nat.splits)

lemma nbits_0 [simp]: "nbits 0 v = []"
  by (simp add: nbits_def)

lemma nbits_bits_nat [simp]: "nbits (length bs) (bits_nat bs) = bs"
  by (induction bs) (simp_all add: nbits_Suc)

lemma nbits_inj: "nbits n a = nbits n b \<Longrightarrow> a < 2 ^ n \<Longrightarrow> b < 2 ^ n \<Longrightarrow> a = b"
  by (metis bits_nat_nbits mod_less)

definition rv :: "nat \<Rightarrow> nat \<Rightarrow> nat" where
  "rv m x = bits_nat (rev (nbits m x))"

lemma rv_less [simp]: "rv m x < 2 ^ m"
  using bits_nat_less [of "rev (nbits m x)"] by (simp add: rv_def)

lemma nbits_rv [simp]: "nbits m (rv m x) = rev (nbits m x)"
  using nbits_bits_nat [of "rev (nbits m x)"] by (simp add: rv_def)

lemma rv_rv [simp]: "rv m (rv m x) = x mod 2 ^ m"
  unfolding rv_def [of m "rv m x"] by simp

lemma rv_mod [simp]: "rv m (x mod 2 ^ m) = rv m x"
  by (simp add: rv_def)

lemma rv_inj: "rv m x = rv m y \<Longrightarrow> x < 2 ^ m \<Longrightarrow> y < 2 ^ m \<Longrightarrow> x = y"
  by (metis rv_rv mod_less)

text \<open>The high bits of a reversed number are the low bits, reversed.\<close>

lemma rv_div: "l \<le> m \<Longrightarrow> rv m v div 2 ^ (m - l) = rv l v"
proof (rule nbits_inj [of l])
  assume l: "l \<le> m"
  have "nbits l (rv m v div 2 ^ (m - l)) = drop (m - l) (nbits m (rv m v))"
    using drop_nbits [of "m - l" m "rv m v"] l by simp
  also have "\<dots> = rev (nbits l v)" using l by (simp add: drop_rev min_def)
  finally show "nbits l (rv m v div 2 ^ (m - l)) = nbits l (rv l v)" by simp
  have "rv m v < 2 ^ (m - l) * 2 ^ l" using l by (simp flip: power_add)
  then show "rv m v div 2 ^ (m - l) < 2 ^ l" by (simp add: less_mult_imp_div_less mult.commute)
qed simp

lemma rv_low: "l \<le> m \<Longrightarrow> rv m v mod 2 ^ l = rv l (v div 2 ^ (m - l))"
proof (rule nbits_inj [of l])
  assume l: "l \<le> m"
  then show "nbits l (rv m v mod 2 ^ l) = nbits l (rv l (v div 2 ^ (m - l)))"
    using take_nbits [of l m "rv m v"] by (simp add: min_def take_rev)
qed simp_all

lemma rv_aligned:
  assumes "l \<le> m" "2 ^ (m - l) dvd x"
  shows "rv m x = rv l (x div 2 ^ (m - l))"
proof -
  have "take (m - l) (nbits m x) = replicate (m - l) False"
  proof -
    have "nbits (m - l) x = nbits (m - l) (x mod 2 ^ (m - l))" by simp
    also have "\<dots> = replicate (m - l) False"
      using assms(2) by (intro nth_equalityI) (simp_all add: dvd_eq_mod_eq_0)
    finally show ?thesis by (simp add: min_def)
  qed
  then have "nbits m x = replicate (m - l) False @ nbits l (x div 2 ^ (m - l))"
    using append_take_drop_id [of "m - l" "nbits m x"] assms(1) by simp
  then show ?thesis by (simp add: rv_def bits_nat_append)
qed

lemma div_eq_interval: "0 < d \<Longrightarrow> y div d = c \<longleftrightarrow> d * c \<le> y \<and> y < d * c + d" for y d c :: nat
proof
  assume d: "0 < d" and c: "y div d = c"
  have "d * c + y mod d = y" using mult_div_mod_eq [of d y] c by simp
  moreover have "y mod d < d" using d by simp
  ultimately show "d * c \<le> y \<and> y < d * c + d" by linarith
qed (auto intro!: div_nat_eqI)

text \<open>A code of \<open>l\<close> bits that starts at \<open>x\<close> (scaled to \<open>m\<close> bits) covers the numbers whose reversal
  lies in its interval.\<close>

lemma rv_interval:
  assumes "l \<le> m" "2 ^ (m - l) dvd x" "x < 2 ^ m"
  shows "v mod 2 ^ l = rv m x \<longleftrightarrow> x \<le> rv m v \<and> rv m v < x + 2 ^ (m - l)"
proof -
  obtain c where c: "x = 2 ^ (m - l) * c" using assms(2) by (rule dvdE)
  have "c < 2 ^ l"
    using assms(1,3) c by (metis le_add_diff_inverse2 mult_less_cancel1 power_add)
  have "v mod 2 ^ l = rv m x \<longleftrightarrow> v mod 2 ^ l = rv l c"
    using rv_aligned [OF assms(1,2)] c by simp
  also have "\<dots> \<longleftrightarrow> rv l v = c"
    using \<open>c < 2 ^ l\<close> by (metis rv_rv rv_mod mod_less)
  also have "\<dots> \<longleftrightarrow> rv m v div 2 ^ (m - l) = c"
    using rv_div [OF assms(1), of v] by simp
  also have "\<dots> \<longleftrightarrow> x \<le> rv m v \<and> rv m v < x + 2 ^ (m - l)"
    unfolding c by (rule div_eq_interval) simp
  finally show ?thesis .
qed

end
