(* ===== verification/Inflate_Bits.thy ===== *)
theory Inflate_Bits
  imports Inflate_Api Bit_Lists
begin

text \<open>
  The bit accumulator of \<open>inflate()\<close> as a reader of a stream of bits: \<open>in_bits\<close> is the bits that are
  still to be read, those in \<open>hold\<close> first and then those of the input.  \<open>NEEDBITS\<close>, \<open>BITS\<close> and
  \<open>DROPBITS\<close>, and the versions of \<open>inflate_fast\<close> that index the input, refine taking bits off that
  stream; the locale \<open>bit_reader\<close> is what both offer to the decoder.
\<close>

section \<open>The reader\<close>

text \<open>A reader shows the low bits of its accumulator (\<open>peek\<close>, zeros past \<open>avail\<close>), drops them and
  refills it a byte at a time without changing the stream.\<close>

locale bit_reader =
  fixes ok :: "'s \<Rightarrow> bool" and avail :: "'s \<Rightarrow> nat" and stream :: "'s \<Rightarrow> bool list"
    and peek :: "nat \<Rightarrow> 's \<Rightarrow> nat" and skip :: "nat \<Rightarrow> 's \<Rightarrow> 's"
    and more :: "'s \<Rightarrow> bool" and pull :: "'s \<Rightarrow> 's"
  assumes avail_le: "ok s \<Longrightarrow> avail s \<le> length (stream s)"
    and peek_low: "ok s \<Longrightarrow> m \<le> avail s \<Longrightarrow> m \<le> n \<Longrightarrow> peek n s mod 2 ^ m = bits_nat (take m (stream s))"
    and skip_ok: "ok s \<Longrightarrow> n \<le> avail s \<Longrightarrow> ok (skip n s)"
    and skip_stream: "ok s \<Longrightarrow> n \<le> avail s \<Longrightarrow> stream (skip n s) = drop n (stream s)"
    and skip_avail: "ok s \<Longrightarrow> n \<le> avail s \<Longrightarrow> avail (skip n s) = avail s - n"
    and more_iff: "ok s \<Longrightarrow> more s \<longleftrightarrow> avail s < length (stream s)"
    and pull_ok: "ok s \<Longrightarrow> more s \<Longrightarrow> ok (pull s)"
    and pull_stream: "ok s \<Longrightarrow> more s \<Longrightarrow> stream (pull s) = stream s"
    and pull_avail: "ok s \<Longrightarrow> more s \<Longrightarrow> avail (pull s) = avail s + 8"
    and peek_bound: "peek n s < 2 ^ n"
begin

lemma peek_stream: "ok s \<Longrightarrow> n \<le> avail s \<Longrightarrow> peek n s = bits_nat (take n (stream s))"
  using peek_low [of s n n] peek_bound [of n s] by simp

lemma read_bits:
  assumes "ok s" "n \<le> avail s"
  shows "peek n s = bits_nat (take n (stream s)) \<and> ok (skip n s) \<and> stream s = take n (stream s) @ stream (skip n s)"
  using assms by (simp add: peek_stream skip_ok skip_stream)

text \<open>Two fields read one after the other are the two parts of the stream.\<close>

lemma read_two:
  assumes "ok s" "m + n \<le> avail s"
  shows "peek n (skip m s) = bits_nat (take n (drop m (stream s)))"
    and "stream (skip n (skip m s)) = drop (m + n) (stream s)" and "ok (skip n (skip m s))"
  using assms by (simp_all add: peek_stream skip_ok skip_stream skip_avail add.commute)

end

section \<open>The accumulator of inflate()\<close>

definition bits_ok :: "z_inflate \<Rightarrow> bool" where
  "bits_ok s \<longleftrightarrow> i_hold s < 2 ^ i_bits s"

definition in_bits :: "z_inflate \<Rightarrow> bool list" where
  "in_bits s = nbits (i_bits s) (i_hold s) @ concat (map byte_bits (next_in s))"

definition pull_next :: "z_inflate \<Rightarrow> z_inflate" where
  "pull_next s = pull_byte (hd (next_in s)) (tl (next_in s)) s"

lemma length_byte_bits [simp]: "length (byte_bits b) = 8"
  by (simp add: byte_bits_def)

lemma length_concat_bytes [simp]: "length (concat (map byte_bits bs)) = 8 * length bs"
  by (induction bs) simp_all

lemma length_in_bits [simp]: "length (in_bits s) = i_bits s + 8 * length (next_in s)"
  by (simp add: in_bits_def)

lemma pull_byte_bits:
  assumes "bits_ok s" "next_in s = b # rest"
  shows "bits_ok (pull_byte b rest s)" "in_bits (pull_byte b rest s) = in_bits s"
  using assms by (simp_all add: bits_ok_def in_bits_def pull_byte_def nbits_add_byte add_byte_less)

lemma bits_val_low:
  assumes "m \<le> i_bits s" "m \<le> n"
  shows "bits_val n s mod 2 ^ m = bits_nat (take m (in_bits s))"
proof -
  have "bits_val n s mod 2 ^ m = i_hold s mod 2 ^ m"
    using assms(2) by (simp add: bits_val_def mod_mod_cancel le_imp_power_dvd)
  then show ?thesis using assms(1) by (simp add: in_bits_def)
qed

interpretation br: bit_reader bits_ok i_bits in_bits bits_val dropbits "\<lambda>s. next_in s \<noteq> []" pull_next
proof
  fix s :: z_inflate and m n :: nat
  show "bits_val n s < 2 ^ n" by (simp add: bits_val_def)
  assume ok: "bits_ok s"
  show "i_bits s \<le> length (in_bits s)" by simp
  show "next_in s \<noteq> [] \<longleftrightarrow> i_bits s < length (in_bits s)" by simp
  show "m \<le> i_bits s \<Longrightarrow> m \<le> n \<Longrightarrow> bits_val n s mod 2 ^ m = bits_nat (take m (in_bits s))"
    by (rule bits_val_low)
  { assume n: "n \<le> i_bits s"
    then show "bits_ok (dropbits n s)"
      using ok by (simp add: bits_ok_def dropbits_def less_mult_imp_div_less flip: power_add)
    show "in_bits (dropbits n s) = drop n (in_bits s)"
      using n by (simp add: in_bits_def dropbits_def)
    show "i_bits (dropbits n s) = i_bits s - n" by (simp add: dropbits_def) }
  { assume "next_in s \<noteq> []"
    then obtain b rest where b: "next_in s = b # rest" by (cases "next_in s") auto
    show "bits_ok (pull_next s)" "in_bits (pull_next s) = in_bits s"
      using pull_byte_bits [OF ok b] b by (simp_all add: pull_next_def)
    show "i_bits (pull_next s) = i_bits s + 8" by (simp add: pull_next_def pull_byte_def) }
qed

text \<open>\<open>NEEDBITS(n)\<close> succeeds exactly when the stream has \<open>n\<close> bits left, and only moves bytes of the
  input to the accumulator.\<close>

definition same_but_bits :: "z_inflate \<Rightarrow> z_inflate \<Rightarrow> bool" where
  "same_but_bits s t \<longleftrightarrow> t\<lparr>next_in := next_in s, i_hold := i_hold s, i_bits := i_bits s\<rparr> = s"

lemma same_but_bits_refl [simp]: "same_but_bits s s"
  by (simp add: same_but_bits_def)

lemma same_but_bits_trans: "same_but_bits s t \<Longrightarrow> same_but_bits t u \<Longrightarrow> same_but_bits s u"
  unfolding same_but_bits_def by (cases s; cases t; cases u) simp

lemma same_but_bits_pull: "same_but_bits s (pull_byte b rest s)"
  by (simp add: same_but_bits_def pull_byte_def)

lemma needbits_spec:
  assumes "bits_ok s" "needbits n s = (ok, s')"
  shows "bits_ok s' \<and> in_bits s' = in_bits s \<and> same_but_bits s s' \<and>
    (if ok then n \<le> i_bits s' else next_in s' = [] \<and> i_bits s' < n)"
  using assms
proof (induction n s rule: needbits.induct)
  case (1 n s)
  show ?case
  proof (cases "i_bits s < n \<and> next_in s \<noteq> []")
    case True
    then obtain b rest where b: "next_in s = b # rest" by (cases "next_in s") auto
    have "needbits n (pull_byte b rest s) = (ok, s')"
      using 1(3) True b by (subst (asm) needbits.simps) simp
    then have "bits_ok s' \<and> in_bits s' = in_bits (pull_byte b rest s) \<and> same_but_bits (pull_byte b rest s) s' \<and>
        (if ok then n \<le> i_bits s' else next_in s' = [] \<and> i_bits s' < n)"
      using 1(1) [OF _ b] True pull_byte_bits(1) [OF 1(2) b] by blast
    then show ?thesis
      using pull_byte_bits(2) [OF 1(2) b] same_but_bits_trans [OF same_but_bits_pull] by auto
  next
    case False
    then show ?thesis
      using 1(2,3) by (subst (asm) needbits.simps) (auto split: list.splits if_splits)
  qed
qed

lemma needbits_iff: "bits_ok s \<Longrightarrow> fst (needbits n s) \<longleftrightarrow> n \<le> length (in_bits s)"
proof -
  assume ok: "bits_ok s"
  obtain b s' where r: "needbits n s = (b, s')" by fastforce
  from needbits_spec [OF ok r] have "length (in_bits s') = length (in_bits s)"
    "if b then n \<le> i_bits s' else next_in s' = [] \<and> i_bits s' < n" by simp_all
  then show ?thesis using r by (auto split: if_splits)
qed

section \<open>The accumulator of inflate_fast\<close>

definition f_ok :: "fast_state \<Rightarrow> bool" where
  "f_ok f \<longleftrightarrow> f_hold f < 2 ^ f_bits f"

definition f_stream :: "u8 list \<Rightarrow> fast_state \<Rightarrow> bool list" where
  "f_stream inp f = nbits (f_bits f) (f_hold f) @ concat (map byte_bits (drop (f_pos f) inp))"

definition f_peek :: "nat \<Rightarrow> fast_state \<Rightarrow> nat" where
  "f_peek n f = f_hold f mod 2 ^ n"

lemma length_f_stream [simp]: "length (f_stream inp f) = f_bits f + 8 * (length inp - f_pos f)"
  by (simp add: f_stream_def)

interpretation fb: bit_reader f_ok f_bits "f_stream inp" f_peek f_drop "\<lambda>f. f_pos f < length inp" "f_pull inp"
  for inp
proof
  fix f :: fast_state and m n :: nat
  show "f_peek n f < 2 ^ n" by (simp add: f_peek_def)
  assume ok: "f_ok f"
  show "f_bits f \<le> length (f_stream inp f)" by simp
  show "f_pos f < length inp \<longleftrightarrow> f_bits f < length (f_stream inp f)" by simp
  show "f_peek n f mod 2 ^ m = bits_nat (take m (f_stream inp f))" if "m \<le> f_bits f" "m \<le> n"
  proof -
    have "f_peek n f mod 2 ^ m = f_hold f mod 2 ^ m"
      using that(2) by (simp add: f_peek_def mod_mod_cancel le_imp_power_dvd)
    then show ?thesis using that(1) by (simp add: f_stream_def)
  qed
  { assume n: "n \<le> f_bits f"
    then show "f_ok (f_drop n f)"
      using ok by (simp add: f_ok_def f_drop_def less_mult_imp_div_less flip: power_add)
    show "f_stream inp (f_drop n f) = drop n (f_stream inp f)"
      using n by (simp add: f_stream_def f_drop_def)
    show "f_bits (f_drop n f) = f_bits f - n" by (simp add: f_drop_def) }
  { assume more: "f_pos f < length inp"
    then have "drop (f_pos f) inp = inp ! f_pos f # drop (f_pos f + 1) inp"
      by (simp add: Cons_nth_drop_Suc)
    then show "f_ok (f_pull inp f)" "f_stream inp (f_pull inp f) = f_stream inp f"
      using ok by (simp_all add: f_ok_def f_stream_def f_pull_def nbits_add_byte add_byte_less)
    show "f_bits (f_pull inp f) = f_bits f + 8" by (simp add: f_pull_def) }
qed

section \<open>Properties\<close>

text \<open>C24: \<open>NEEDBITS(n)\<close>, \<open>BITS(n)\<close> and \<open>DROPBITS(n)\<close> read the deflate bit stream: the request succeeds
  exactly when \<open>n\<close> bits are left in the accumulator and the input together, the value is then that of the
  next \<open>n\<close> bits (low bit first), what remains is the rest of the stream, no other part of the state
  changes and the accumulator stays below \<open>2 ^ bits\<close>.\<close>

theorem read_bits_refines_stream:
  assumes "bits_ok s"
  shows "fst (needbits n s) = (n \<le> length (in_bits s)) \<and>
    bits_ok (snd (needbits n s)) \<and> in_bits (snd (needbits n s)) = in_bits s \<and>
    same_but_bits s (snd (needbits n s)) \<and>
    (if fst (needbits n s) then
       bits_val n (snd (needbits n s)) = bits_nat (take n (in_bits s)) \<and>
       in_bits (dropbits n (snd (needbits n s))) = drop n (in_bits s) \<and> bits_ok (dropbits n (snd (needbits n s)))
     else next_in (snd (needbits n s)) = [])"
proof -
  obtain ok t where r: "needbits n s = (ok, t)" by fastforce
  then show ?thesis
    using needbits_spec [OF assms r] needbits_iff [OF assms, of n]
    by (simp add: br.peek_stream br.skip_ok br.skip_stream)
qed

text \<open>A stream in raw mode with all of its state blank, to run examples on.\<close>

definition blank_inflate :: "u8 list \<Rightarrow> nat \<Rightarrow> z_inflate" where
  "blank_inflate inp room =
     \<lparr>i_mode = HEAD, i_last = 0, i_wrap = 0, i_havedict = False, i_flags = 0, i_dmax = 32768, i_check = 0,
      i_total = 0, i_head = None, i_wbits = 15, i_wsize = 0, i_whave = 0, i_wnext = 0, i_window = None,
      i_hold = 0, i_bits = 0, i_length = 0, i_offset = 0, i_extra = 0, i_lencode = Codes 0,
      i_distcode = Codes 0, i_lenbits = 0, i_distbits = 0, i_ncode = 0, i_nlen = 0, i_ndist = 0, i_have = 0,
      i_next = 0, i_lens = replicate 320 0, i_work = replicate 288 0, i_codes = replicate 1444 (invalid_code 0),
      i_sane = True, i_back = -1, i_was = 0,
      z_ready = True, next_in = inp, total_in = 0, put = [], avail_out = room, total_out = 0, msg = None,
      adler = 0, data_type = 0, l_in = length inp, l_out = room, l_ret = 0\<rparr>"

theorem read_bits_refines_stream_witness:
  "fst (needbits 3 (blank_inflate [5] 0)) \<and>
   bits_val 3 (snd (needbits 3 (blank_inflate [5] 0))) = bits_nat (take 3 (in_bits (blank_inflate [5] 0)))"
proof -
  have "bits_ok (blank_inflate [5] 0)" by (simp add: bits_ok_def blank_inflate_def)
  moreover have "3 \<le> length (in_bits (blank_inflate [5] 0))" by (simp add: blank_inflate_def)
  ultimately show ?thesis using read_bits_refines_stream [of "blank_inflate [5] 0" 3] by simp
qed

end
