(* ===== verification/Sorted_Codes.thy ===== *)
theory Sorted_Codes
  imports Bit_Lists
begin

text \<open>
  A canonical code as \<open>inflate_table\<close> walks through it: the code lengths \<open>ls\<close> in increasing order, each
  code starting where the one before ends.  With all codes scaled to \<open>mx\<close> bits, the \<open>k\<close>-th covers
  the interval of length \<open>2 ^ (mx - ls ! k)\<close> from \<open>start mx ls k\<close>; \<open>covers\<close> says the same of the
  reversed bits, as they are indexed in the tables.
\<close>

definition start :: "nat \<Rightarrow> nat list \<Rightarrow> nat \<Rightarrow> nat" where
  "start mx ls k = (\<Sum>i<k. 2 ^ (mx - ls ! i))"

definition huff :: "nat \<Rightarrow> nat list \<Rightarrow> nat \<Rightarrow> nat" where
  "huff mx ls k = rv mx (start mx ls k)"

definition covers :: "nat \<Rightarrow> nat list \<Rightarrow> nat \<Rightarrow> nat \<Rightarrow> bool" where
  "covers mx ls k v \<longleftrightarrow> v mod 2 ^ (ls ! k) = huff mx ls k"

lemma start_0 [simp]: "start mx ls 0 = 0"
  by (simp add: start_def)

lemma start_Suc [simp]: "start mx ls (Suc k) = start mx ls k + 2 ^ (mx - ls ! k)"
  by (simp add: start_def)

lemma start_mono: "i \<le> k \<Longrightarrow> start mx ls i \<le> start mx ls k"
  unfolding start_def by (rule sum_mono2) auto

locale sorted_code =
  fixes mx :: nat and ls :: "nat list"
  assumes lens_sorted: "sorted ls"
    and lens_range: "l \<in> set ls \<Longrightarrow> 1 \<le> l \<and> l \<le> mx"
    and kraft: "start mx ls (length ls) \<le> 2 ^ mx"
begin

lemma code_len: "k < length ls \<Longrightarrow> 1 \<le> ls ! k \<and> ls ! k \<le> mx"
  by (rule lens_range) simp

lemma code_sorted: "i \<le> k \<Longrightarrow> k < length ls \<Longrightarrow> ls ! i \<le> ls ! k"
  using lens_sorted by (rule sorted_nth_mono)

lemma start_le: "k \<le> length ls \<Longrightarrow> start mx ls k \<le> 2 ^ mx"
  using kraft start_mono [of k "length ls" mx ls] by linarith

lemma start_less: "k < length ls \<Longrightarrow> start mx ls k + 2 ^ (mx - ls ! k) \<le> 2 ^ mx"
  using start_le [of "Suc k"] by simp

lemma start_lt: "k < length ls \<Longrightarrow> start mx ls k < 2 ^ mx"
  using start_less [of k] by (meson add_increasing le_less_trans less_add_same_cancel1 less_le_trans zero_less_numeral zero_less_power)

lemma start_dvd: "k < length ls \<Longrightarrow> 2 ^ (mx - ls ! k) dvd start mx ls k"
  unfolding start_def
  by (rule dvd_sum) (use code_sorted in \<open>auto intro!: le_imp_power_dvd diff_le_mono2\<close>)

lemma covers_interval:
  "k < length ls \<Longrightarrow> covers mx ls k v \<longleftrightarrow> start mx ls k \<le> rv mx v \<and> rv mx v < start mx ls (Suc k)"
  unfolding covers_def huff_def start_Suc
  by (rule rv_interval) (use code_len start_dvd start_lt in auto)

lemma covers_unique:
  assumes "i < length ls" "k < length ls" "covers mx ls i v" "covers mx ls k v"
  shows "i = k"
proof -
  have "\<not> i < k" if "covers mx ls i v" "covers mx ls k v" "i < length ls" "k < length ls" for i k
    using that start_mono [of "Suc i" k mx ls] covers_interval [of i v] covers_interval [of k v] by linarith
  then show ?thesis using assms by (meson linorder_neqE_nat)
qed

lemma huff_less: "k < length ls \<Longrightarrow> huff mx ls k < 2 ^ (ls ! k)"
  using rv_aligned [of "ls ! k" mx "start mx ls k"] code_len [of k] start_dvd [of k] by (simp add: huff_def)

lemma covers_huff: "k < length ls \<Longrightarrow> covers mx ls k (huff mx ls k)"
  using huff_less [of k] by (simp add: covers_def)

lemma covers_mod: "ls ! k \<le> m \<Longrightarrow> covers mx ls k (v mod 2 ^ m) \<longleftrightarrow> covers mx ls k v"
  by (simp add: covers_def mod_mod_cancel le_imp_power_dvd)

text \<open>A complete code covers everything.\<close>

lemma covers_exists:
  assumes "start mx ls (length ls) = 2 ^ mx"
  shows "\<exists>k<length ls. covers mx ls k v"
proof -
  have "\<exists>k<n. start mx ls k \<le> x \<and> x < start mx ls (Suc k)" if "x < start mx ls n" for n x
    using that
  proof (induction n)
    case (Suc n)
    then show ?case by (cases "x < start mx ls n") (auto simp: less_Suc_eq not_less)
  qed simp
  from this [of "rv mx v" "length ls"] show ?thesis
    using assms covers_interval by auto
qed

end

section \<open>Prefixes\<close>

text \<open>The first \<open>root\<close> bits of a code decide the sub-table it lies in.\<close>

definition prefix_of :: "nat \<Rightarrow> nat \<Rightarrow> nat list \<Rightarrow> nat \<Rightarrow> nat" where
  "prefix_of root mx ls k = start mx ls k div 2 ^ (mx - root)"

lemma prefix_of_mono: "i \<le> k \<Longrightarrow> prefix_of root mx ls i \<le> prefix_of root mx ls k"
  unfolding prefix_of_def by (intro div_le_mono start_mono)

lemma huff_root:
  assumes "root \<le> mx"
  shows "huff mx ls k mod 2 ^ root = rv root (prefix_of root mx ls k)"
  using assms by (simp add: huff_def rv_low prefix_of_def)

lemma prefix_of_less: "root \<le> mx \<Longrightarrow> start mx ls k < 2 ^ mx \<Longrightarrow> prefix_of root mx ls k < 2 ^ root"
  by (simp add: prefix_of_def less_mult_imp_div_less flip: power_add)

lemma huff_root_eq:
  assumes "root \<le> mx" "start mx ls i < 2 ^ mx" "start mx ls k < 2 ^ mx"
  shows "huff mx ls i mod 2 ^ root = huff mx ls k mod 2 ^ root \<longleftrightarrow>
    prefix_of root mx ls i = prefix_of root mx ls k"
  using assms prefix_of_less rv_inj by (metis huff_root)

section \<open>The backwards increment\<close>

lemma nbits_Suc_high: "nbits (Suc k) v = nbits k v @ [bit v k]"
  by (simp add: nbits_def)

lemma rv_Suc: "rv (Suc k) v = of_bool (bit v k) + 2 * rv k v"
  by (simp add: rv_def nbits_Suc_high)

lemma rv_Suc_low: "rv (Suc k) (2 * z + of_bool b) = rv k z + of_bool b * 2 ^ k"
  by (simp add: rv_def nbits_Suc bits_nat_append)

end
