(* ===== verification/Decode_Table.thy ===== *)
theory Decode_Table
  imports Inflate_Table Sorted_Codes
begin

text \<open>
  The correctness of \<open>inflate_table\<close> (\<open>src/src/zlib/inftrees.c\<close>): when it returns 0, looking up any
  bits that begin with the code of a symbol finds the entry of that symbol, directly in the root table
  or through one link to a sub-table.  The invariant of the loop says where the codes entered so far are
  found and that all codes sharing the current root prefix fit the current sub-table.
\<close>

section \<open>The steps of the loop\<close>

lemma back_incr_rv: "back_incr h k = rv k ((rv k h + 1) mod 2 ^ k)"
proof (induction k)
  case 0
  then show ?case by (simp add: rv_def)
next
  case (Suc k)
  let ?z = "rv k h"
  show ?case
  proof (cases "bit h k")
    case True
    have eq: "(rv (Suc k) h + 1) mod 2 ^ Suc k = 2 * ((?z + 1) mod 2 ^ k) + of_bool False"
      using True by (simp add: rv_Suc mult_mod_right)
    have "back_incr h (Suc k) = rv k ((?z + 1) mod 2 ^ k)" using True Suc by simp
    also have "\<dots> = rv (Suc k) (2 * ((?z + 1) mod 2 ^ k) + of_bool False)"
      by (simp only: rv_Suc_low) simp
    also have "\<dots> = rv (Suc k) ((rv (Suc k) h + 1) mod 2 ^ Suc k)" by (simp only: eq)
    finally show ?thesis .
  next
    case False
    have "2 * ?z + 1 < 2 ^ Suc k" using rv_less [of k h] unfolding power_Suc by linarith
    then have "(rv (Suc k) h + 1) mod 2 ^ Suc k = 2 * ?z + of_bool True"
      using False by (simp add: rv_Suc)
    then show ?thesis using False by (simp only: rv_Suc_low) (simp add: take_bit_eq_mod)
  qed
qed

lemma fill_loop_spec:
  assumes "2 ^ k dvd fill" "0 < fill" "base + fill \<le> length tab + (2 ^ k - 1)"
  shows "length (fill_loop tab base k here fill) = length tab \<and>
    (\<forall>p<length tab. fill_loop tab base k here fill ! p =
       (if base \<le> p \<and> p < base + fill \<and> 2 ^ k dvd p - base then here else tab ! p))"
  using assms
proof (induction tab base k here fill rule: fill_loop.induct)
  case (1 tab base k here fill)
  let ?f = "fill - 2 ^ k" and ?t = "tab[base + (fill - 2 ^ k) := here]"
  from "1.prems" obtain q where q: "fill = 2 ^ k * q" "0 < q" by (auto elim: dvdE)
  then have le: "2 ^ k \<le> fill" by simp
  have dvd: "2 ^ k dvd ?f" using "1.prems"(1) by simp
  have last: "p = base + ?f" if "base \<le> p" "p < base + fill" "2 ^ k dvd p - base" "\<not> p < base + ?f" for p
  proof -
    from that(3) obtain d where d: "p - base = 2 ^ k * d" by (rule dvdE)
    have "2 ^ k * d < 2 ^ k * q" using that(1,2) d q by linarith
    then have "d < q" by simp
    have "?f = 2 ^ k * (q - 1)" using q by (simp add: diff_mult_distrib2)
    then have "\<not> 2 ^ k * d < 2 ^ k * (q - 1)" using that(1,4) d by linarith
    then have "d = q - 1" using \<open>d < q\<close> by auto
    then show ?thesis using d that(1) \<open>?f = 2 ^ k * (q - 1)\<close> by simp
  qed
  show ?case
  proof (cases "?f = 0")
    case True
    then have iff: "base \<le> p \<and> p < base + fill \<and> 2 ^ k dvd p - base \<longleftrightarrow> p = base + ?f" for p
      using last [of p] "1.prems"(2) by auto
    have "fill_loop tab base k here fill = ?t"
      using True by (subst fill_loop.simps) (simp add: Let_def)
    then show ?thesis unfolding iff by (simp add: nth_list_update)
  next
    case False
    have step: "fill_loop tab base k here fill = fill_loop ?t base k here ?f"
      using False by (subst fill_loop.simps) (simp add: Let_def)
    have IH: "length (fill_loop ?t base k here ?f) = length ?t \<and> (\<forall>p<length ?t. fill_loop ?t base k here ?f ! p =
       (if base \<le> p \<and> p < base + ?f \<and> 2 ^ k dvd p - base then here else ?t ! p))"
      using "1.IH"[OF refl refl] False dvd "1.prems"(3) by auto
    show ?thesis
      unfolding step using IH last dvd le "1.prems"(2) by (auto simp: nth_list_update)
  qed
qed

lemma fill_nth:
  assumes "k \<le> c" "h < 2 ^ k" "next + 2 ^ c \<le> length tab" "p < length tab"
  shows "fill_loop tab (next + h) k here (2 ^ c) ! p =
    (if next \<le> p \<and> p < next + 2 ^ c \<and> (p - next) mod 2 ^ k = h then here else tab ! p)"
proof -
  have dvd: "(2 :: nat) ^ k dvd 2 ^ c" using assms(1) by (simp add: le_imp_power_dvd)
  have "next + h + 2 ^ c \<le> length tab + (2 ^ k - 1)" using assms(2,3) by linarith
  then have "fill_loop tab (next + h) k here (2 ^ c) ! p =
      (if next + h \<le> p \<and> p < next + h + 2 ^ c \<and> 2 ^ k dvd p - (next + h) then here else tab ! p)"
    using fill_loop_spec [OF dvd] assms(4) by simp
  moreover have "next + h \<le> p \<and> p < next + h + 2 ^ c \<and> 2 ^ k dvd p - (next + h) \<longleftrightarrow>
      next \<le> p \<and> p < next + 2 ^ c \<and> (p - next) mod 2 ^ k = h" (is "?l \<longleftrightarrow> ?r")
  proof
    assume l: ?l
    then obtain d where d: "p - (next + h) = 2 ^ k * d" by (auto elim: dvdE)
    then have p: "p - next = h + 2 ^ k * d" using l by linarith
    obtain q where q: "(2 :: nat) ^ c = 2 ^ k * q" using dvd by (rule dvdE)
    have "2 ^ k * d < 2 ^ k * q" using l d q by linarith
    then have "2 ^ k * (d + 1) \<le> 2 ^ c" unfolding q by (intro mult_le_mono2) simp
    then show ?r using l p assms(2) by (auto simp: algebra_simps)
  next
    assume r: ?r
    then have h: "h \<le> p - next" using mod_less_eq_dividend [of "p - next" "2 ^ k"] by simp
    have "2 ^ k dvd (p - next) - h" using r by (metis dvd_minus_mod)
    moreover have "(p - next) - h = p - (next + h)" by simp
    moreover have "next + h \<le> p" using r h by linarith
    ultimately show ?l using r by simp
  qed
  ultimately show ?thesis by simp
qed

lemma length_fill_loop [simp]: "length (fill_loop tab base k here fill) = length tab"
proof (induction tab base k here fill rule: fill_loop.induct)
  case (1 tab base k here fill)
  then show ?case by (subst fill_loop.simps) (simp add: Let_def)
qed

section \<open>The size of a sub-table\<close>

lemma sum_list_below_Suc:
  "(\<Sum>l\<leftarrow>xs. if l < Suc j then f l else 0) = (\<Sum>l\<leftarrow>xs. if l < j then f l else 0) + count_list xs j * f j"
  for f :: "nat \<Rightarrow> nat"
  by (induction xs) (auto simp: algebra_simps less_Suc_eq)

lemma start_take: "k \<le> length ls \<Longrightarrow> start mx ls k = (\<Sum>l\<leftarrow>take k ls. 2 ^ (mx - l))"
  by (induction k) (simp_all add: take_Suc_conv_app_nth)

lemma sum_list_takeWhile:
  "sorted xs \<Longrightarrow> (\<Sum>l\<leftarrow>xs. if l < j then f l else 0) = (\<Sum>l\<leftarrow>takeWhile (\<lambda>l. l < j) xs. f l)"
  for f :: "nat \<Rightarrow> nat"
proof (induction xs)
  case (Cons x xs)
  show ?case
  proof (cases "x < j")
    case True
    then show ?thesis using Cons by simp
  next
    case False
    then have "\<forall>l\<in>set xs. \<not> l < j" using Cons.prems by (auto simp: not_less intro: order_trans)
    then show ?thesis using False by (simp cong: map_cong)
  qed
qed simp

context sorted_code
begin

lemma huff_step:
  assumes "k < length ls"
  shows "back_incr (huff mx ls k) (ls ! k) = huff mx ls (Suc k)"
proof -
  let ?l = "ls ! k"
  have l: "?l \<le> mx" using code_len [OF assms] by simp
  have dvd: "2 ^ (mx - ?l) dvd start mx ls k" by (rule start_dvd [OF assms])
  then obtain c where c: "start mx ls k = 2 ^ (mx - ?l) * c" by (rule dvdE)
  have "back_incr (huff mx ls k) ?l = rv ?l ((c mod 2 ^ ?l + 1) mod 2 ^ ?l)"
    using rv_aligned [OF l dvd] c by (simp add: back_incr_rv huff_def)
  also have "\<dots> = rv ?l (c + 1)" by (simp only: mod_add_left_eq rv_mod)
  also have "\<dots> = huff mx ls (Suc k)"
    using rv_aligned [OF l, of "2 ^ (mx - ?l) * (c + 1)"] c by (simp add: huff_def algebra_simps)
  finally show ?thesis .
qed

lemma start_after:
  assumes "k \<le> i" "i < length ls" "j < ls ! i"
  shows "start mx ls k + (\<Sum>l\<leftarrow>drop k ls. if l < Suc j then 2 ^ (mx - l) else 0) \<le> start mx ls i"
proof -
  have split: "drop k ls = drop k (take i ls) @ drop i ls"
    using assms(1) by (metis append_take_drop_id drop_append diff_is_0_eq' drop_0 drop_take length_take
        less_or_eq_imp_le min.absorb2 assms(2))
  have "(\<Sum>l\<leftarrow>drop i ls. if l < Suc j then 2 ^ (mx - l) else (0 :: nat)) = 0"
  proof -
    have "\<not> l < Suc j" if "l \<in> set (drop i ls)" for l
    proof -
      from that obtain a where "l = ls ! (i + a)" "i + a < length ls"
        by (auto simp: in_set_conv_nth)
      then show ?thesis using assms(3) code_sorted [of i "i + a"] by simp
    qed
    then show ?thesis by (simp cong: map_cong)
  qed
  moreover have "(\<Sum>l\<leftarrow>drop k (take i ls). if l < Suc j then 2 ^ (mx - l) else (0 :: nat))
      \<le> (\<Sum>l\<leftarrow>drop k (take i ls). 2 ^ (mx - l))"
    by (rule sum_list_mono) simp
  moreover have "start mx ls i = start mx ls k + (\<Sum>l\<leftarrow>drop k (take i ls). 2 ^ (mx - l))"
  proof -
    have "take i ls = take k ls @ drop k (take i ls)"
      using assms(1) by (metis append_take_drop_id min.absorb1 take_take)
    then show ?thesis using assms(1,2) by (simp add: start_take) (metis map_append sum_list.append)
  qed
  ultimately show ?thesis unfolding split map_append sum_list.append by linarith
qed

text \<open>When the codes are complete and those shorter than \<open>j\<close> do not fill the interval of the root prefix of the
  \<open>k\<close>-th, it has one that is not shorter.\<close>

lemma block_code:
  assumes "root \<le> mx" "k < length ls" "2 ^ (mx - root) dvd start mx ls k"
    and full: "start mx ls (length ls) = 2 ^ mx"
    and room: "(\<Sum>l\<leftarrow>drop k ls. if l < j then 2 ^ (mx - l) else 0) < (2 :: nat) ^ (mx - root)"
  shows "\<exists>i. k \<le> i \<and> i < length ls \<and> prefix_of root mx ls i = prefix_of root mx ls k \<and> j \<le> ls ! i"
proof -
  let ?D = "(2 :: nat) ^ (mx - root)" and ?m = "length (takeWhile (\<lambda>l. l < j) (drop k ls))"
  let ?Q = "\<Sum>l\<leftarrow>drop k ls. if l < j then 2 ^ (mx - l) else (0 :: nat)"
  have "?m \<le> length ls - k" using length_takeWhile_le [of "\<lambda>l. l < j" "drop k ls"] by simp
  then have m: "k + ?m \<le> length ls" using assms(2) by linarith
  have "take (k + ?m) ls = take k ls @ takeWhile (\<lambda>l. l < j) (drop k ls)"
    by (simp add: take_add takeWhile_eq_take [symmetric])
  then have s: "start mx ls (k + ?m) = start mx ls k + ?Q"
    using m assms(2) sum_list_takeWhile [OF sorted_wrt_drop [OF lens_sorted], where j = j and f = "\<lambda>l. 2 ^ (mx - l)"]
    by (simp add: start_take)
  obtain a where a: "start mx ls k = ?D * a" using assms(3) by (rule dvdE)
  have pow: "(2 :: nat) ^ mx = ?D * 2 ^ root" using assms(1) by (simp flip: power_add)
  have "?D * a < ?D * 2 ^ root" using start_lt [OF assms(2)] unfolding a pow .
  then have "a + 1 \<le> 2 ^ root" by simp
  then have "?D * (a + 1) \<le> ?D * 2 ^ root" by (rule mult_le_mono2)
  then have "start mx ls k + ?D \<le> 2 ^ mx" unfolding a pow by simp
  then have "start mx ls (k + ?m) < 2 ^ mx" using s room by linarith
  then have lt: "k + ?m < length ls" using full m by (metis le_neq_implies_less less_irrefl)
  then have "\<not> drop k ls ! ?m < j" by (intro nth_length_takeWhile) simp
  then have "j \<le> ls ! (k + ?m)" using lt by simp
  moreover have "prefix_of root mx ls (k + ?m) = prefix_of root mx ls k"
    using room by (simp add: prefix_of_def s a)
  ultimately show ?thesis using lt by (intro exI [of _ "k + ?m"]) simp
qed

text \<open>All the codes from the \<open>k\<close>-th on that have its root prefix fit the sub-table, and when the codes are complete
  one of them needs all its bits.\<close>

lemma sub_size_fits:
  assumes "root \<le> mx" "k < length ls" "2 ^ (mx - root) dvd start mx ls k"
    and "1 \<le> root" "\<forall>j. 1 \<le> j \<and> j \<le> mx \<longrightarrow> cnt ! j = count_list (drop k ls) j" "cur + root \<le> mx"
    and "left * 2 ^ (mx - root - cur) =
      int (2 ^ (mx - root)) - int (\<Sum>l\<leftarrow>drop k ls. if l < root + cur then 2 ^ (mx - l) else 0)"
  shows "cur \<le> sub_size cnt root mx left cur \<and> sub_size cnt root mx left cur + root \<le> mx \<and>
    (\<forall>i. k \<le> i \<and> i < length ls \<and> prefix_of root mx ls i = prefix_of root mx ls k \<longrightarrow>
       ls ! i \<le> root + sub_size cnt root mx left cur) \<and>
    (start mx ls (length ls) = 2 ^ mx \<longrightarrow>
       (\<exists>i. k \<le> i \<and> i < length ls \<and> prefix_of root mx ls i = prefix_of root mx ls k \<and> root + cur \<le> ls ! i) \<longrightarrow>
       (\<exists>i. k \<le> i \<and> i < length ls \<and> prefix_of root mx ls i = prefix_of root mx ls k \<and>
          root + sub_size cnt root mx left cur \<le> ls ! i))"
  using assms(6,7)
proof (induction "mx - (cur + root)" arbitrary: cur left)
  case 0
  then have "sub_size cnt root mx left cur = cur" by (subst sub_size.simps) simp
  moreover have "ls ! i \<le> root + cur" if "i < length ls" for i
    using code_len [OF that] 0 by linarith
  ultimately show ?case using 0 by simp
next
  case (Suc d)
  let ?Q = "\<lambda>j. \<Sum>l\<leftarrow>drop k ls. if l < j then 2 ^ (mx - l) else (0 :: nat)"
  let ?left = "left - int (cnt ! (cur + root))"
  have lt: "cur + root < mx" using Suc.hyps(2) by simp
  have Q: "?left * 2 ^ (mx - root - cur) = int (2 ^ (mx - root)) - int (?Q (Suc (root + cur)))"
  proof -
    have "?Q (Suc (root + cur)) = ?Q (root + cur) + cnt ! (cur + root) * 2 ^ (mx - root - cur)"
      using assms(4,5) lt by (subst sum_list_below_Suc) (simp add: add.commute)
    then show ?thesis using Suc.prems(2) by (simp add: left_diff_distrib)
  qed
  show ?case
  proof (cases "?left \<le> 0")
    case True
    then have size: "sub_size cnt root mx left cur = cur" using lt by (subst sub_size.simps) (simp add: Let_def)
    have "?left * 2 ^ (mx - root - cur) \<le> 0" using True by (simp add: mult_nonpos_nonneg)
    then have full: "2 ^ (mx - root) \<le> ?Q (Suc (root + cur))" unfolding Q by simp
    have "prefix_of root mx ls k < prefix_of root mx ls i"
      if "k \<le> i" "i < length ls" "root + cur < ls ! i" for i
    proof -
      have "start mx ls k + 2 ^ (mx - root) \<le> start mx ls i"
        using start_after [OF that] full by linarith
      then have "(start mx ls k + 2 ^ (mx - root)) div 2 ^ (mx - root) \<le> prefix_of root mx ls i"
        unfolding prefix_of_def by (rule div_le_mono)
      then show ?thesis
        using div_add_self2 [of "2 ^ (mx - root)" "start mx ls k"] by (simp add: prefix_of_def)
    qed
    then have "\<forall>i. k \<le> i \<and> i < length ls \<and> prefix_of root mx ls i = prefix_of root mx ls k \<longrightarrow> ls ! i \<le> root + cur"
      by (metis less_irrefl not_less)
    then show ?thesis unfolding size using lt by simp
  next
    case False
    have pow: "(2 :: int) ^ (mx - root - cur) = 2 * 2 ^ (mx - root - (cur + 1))"
      using lt by (simp flip: power_Suc)
    have size: "sub_size cnt root mx left cur = sub_size cnt root mx (?left * 2) (cur + 1)"
      using False lt by (subst sub_size.simps) (simp add: Let_def)
    have eq: "(?left * 2) * 2 ^ (mx - root - (cur + 1)) = int (2 ^ (mx - root)) - int (?Q (root + (cur + 1)))"
      using Q pow by (simp add: left_diff_distrib mult.assoc)
    have d: "d = mx - (cur + 1 + root)" "cur + 1 + root \<le> mx" using Suc.hyps(2) lt by linarith+
    have IH: "cur + 1 \<le> sub_size cnt root mx left cur \<and> sub_size cnt root mx left cur + root \<le> mx \<and>
      (\<forall>i. k \<le> i \<and> i < length ls \<and> prefix_of root mx ls i = prefix_of root mx ls k \<longrightarrow>
         ls ! i \<le> root + sub_size cnt root mx left cur) \<and>
      (start mx ls (length ls) = 2 ^ mx \<longrightarrow>
         (\<exists>i. k \<le> i \<and> i < length ls \<and> prefix_of root mx ls i = prefix_of root mx ls k \<and> root + (cur + 1) \<le> ls ! i) \<longrightarrow>
         (\<exists>i. k \<le> i \<and> i < length ls \<and> prefix_of root mx ls i = prefix_of root mx ls k \<and>
            root + sub_size cnt root mx left cur \<le> ls ! i))"
      unfolding size by (rule Suc.hyps(1) [OF d eq])
    have "0 < ?left * 2 ^ (mx - root - cur)" using False by simp
    then have "int (?Q (Suc (root + cur))) < int (2 ^ (mx - root))" unfolding Q by simp
    then have "?Q (Suc (root + cur)) < 2 ^ (mx - root)" by (simp only: of_nat_less_iff)
    from block_code [OF assms(1-3) _ this] IH show ?thesis by auto
  qed
qed

end

section \<open>Where a code is found\<close>

abbreviation link :: "nat \<Rightarrow> nat \<Rightarrow> nat \<Rightarrow> code" where
  "link c root b \<equiv> \<lparr>code_op = word_of_nat c, code_bits = word_of_nat root, code_val = word_of_nat b\<rparr>"

text \<open>The symbol \<open>sy\<close> of length \<open>l\<close> is found for the bits \<open>v\<close>; its sub-table, if it has one, ends
  before \<open>lim\<close>.\<close>

definition found :: "codetype \<Rightarrow> nat \<Rightarrow> nat \<Rightarrow> code list \<Rightarrow> nat \<Rightarrow> nat \<Rightarrow> nat \<Rightarrow> nat \<Rightarrow> bool" where
  "found ty sy l tab off root lim v \<longleftrightarrow>
     (if l \<le> root then tab ! (off + v mod 2 ^ root) = table_entry ty sy l
      else (\<exists>c b. tab ! (off + v mod 2 ^ root) = link c root b \<and> l - root \<le> c \<and> c \<le> 15 \<and> 2 ^ root \<le> b \<and>
              b + 2 ^ c \<le> lim \<and> lim \<le> 65535 \<and>
              tab ! (off + b + v div 2 ^ root mod 2 ^ c) = table_entry ty sy (l - root)))"

lemma found_subI:
  "root < l \<Longrightarrow> tab ! (off + v mod 2 ^ root) = link c root b \<Longrightarrow> l - root \<le> c \<Longrightarrow> c \<le> 15 \<Longrightarrow> 2 ^ root \<le> b \<Longrightarrow>
    b + 2 ^ c \<le> lim \<Longrightarrow> lim \<le> 65535 \<Longrightarrow>
    tab ! (off + b + v div 2 ^ root mod 2 ^ c) = table_entry ty sy (l - root) \<Longrightarrow>
    found ty sy l tab off root lim v"
  unfolding found_def by (simp only: not_le [symmetric] if_False) blast

lemma word_of_nat_inj:
  "(word_of_nat a :: 'a::len word) = word_of_nat b \<Longrightarrow> a < 2 ^ LENGTH('a) \<Longrightarrow> b < 2 ^ LENGTH('a) \<Longrightarrow> a = b"
  by (metis of_nat_inverse)

lemma link_inj: "link c root b = link c' root b' \<Longrightarrow> c \<le> 15 \<Longrightarrow> c' \<le> 15 \<Longrightarrow> b \<le> 65535 \<Longrightarrow> b' \<le> 65535 \<Longrightarrow>
    c = c' \<and> b = b'"
  using word_of_nat_inj [of c c', where 'a = 8] word_of_nat_inj [of b b', where 'a = 16] by auto

definition base_inv :: "nat \<Rightarrow> nat list \<Rightarrow> nat \<Rightarrow> nat \<Rightarrow> nat \<Rightarrow> table_state \<Rightarrow> bool" where
  "base_inv mx ls off N k t \<longleftrightarrow>
     t_sym t = k \<and> t_huff t = huff mx ls k \<and> length (t_tab t) = N \<and> off + t_used t \<le> N \<and> t_used t \<le> 65535 \<and>
     length (t_count t) = 16 \<and>
     (\<forall>j. 1 \<le> j \<and> j \<le> 15 \<longrightarrow> t_count t ! j = count_list (drop k ls) j)"

text \<open>The table being filled: the root table, or the sub-table of the root prefix \<open>p\<close>.\<close>

definition cur_table :: "nat \<Rightarrow> nat \<Rightarrow> nat \<Rightarrow> nat \<Rightarrow> table_state \<Rightarrow> bool" where
  "cur_table mx off root p t \<longleftrightarrow>
     (if t_drop t = 0 then t_next t = off \<and> t_curr t = root \<and> t_low t = None \<and> t_used t = 2 ^ root
      else t_drop t = root \<and> t_low t = Some (rv root p) \<and> t_next t + 2 ^ t_curr t = off + t_used t \<and>
        off + 2 ^ root \<le> t_next t \<and> 1 \<le> t_curr t \<and> t_curr t + root \<le> mx \<and>
        t_tab t ! (off + rv root p) = link (t_curr t) root (t_next t - off))"

definition done_inv :: "codetype \<Rightarrow> nat list \<Rightarrow> nat \<Rightarrow> nat list \<Rightarrow> nat \<Rightarrow> nat \<Rightarrow> nat \<Rightarrow> nat \<Rightarrow> table_state \<Rightarrow> bool" where
  "done_inv ty work mx ls off root p k t \<longleftrightarrow>
     (\<forall>i<k. (t_drop t = 0 \<longrightarrow> ls ! i \<le> root) \<and>
        (\<forall>v. covers mx ls i v \<longrightarrow> found ty (work ! i) (ls ! i) (t_tab t) off root
           (if prefix_of root mx ls i = p then t_used t else t_used t - 2 ^ t_curr t) v))"

definition room_inv :: "nat \<Rightarrow> nat list \<Rightarrow> nat \<Rightarrow> nat \<Rightarrow> nat \<Rightarrow> table_state \<Rightarrow> bool" where
  "room_inv mx ls root p k t \<longleftrightarrow>
     (\<forall>i. k \<le> i \<and> i < length ls \<and> prefix_of root mx ls i = p \<and> t_drop t \<noteq> 0 \<longrightarrow> ls ! i \<le> root + t_curr t)"

lemma count_list_drop: "k < length ls \<Longrightarrow> count_list (drop k ls) j = of_bool (ls ! k = j) + count_list (drop (Suc k) ls) j"
  by (simp flip: Cons_nth_drop_Suc)

lemma div_add_small: "s mod D + d < D \<Longrightarrow> (s + d) div D = s div D" for s d D :: nat
  by (simp add: div_add1_eq [of s d D])

lemma mult_add_unique: "a < R \<Longrightarrow> c < R \<Longrightarrow> a + R * b = c + R * d \<longleftrightarrow> a = c \<and> b = d" for a b c d R :: nat
proof
  assume R: "a < R" "c < R" and eq: "a + R * b = c + R * d"
  have "(a + R * b) mod R = a" "(c + R * d) mod R = c" "(a + R * b) div R = b" "(c + R * d) div R = d"
    using R by simp_all
  then show "a = c \<and> b = d" unfolding eq by simp
qed simp

context sorted_code
begin

lemma enter_base:
  assumes "base_inv mx ls off N k t" "k < length ls" "t_len t = ls ! k" "mx \<le> 15"
  shows "base_inv mx ls off N (Suc k) (enter_code ty work t)"
  using assms count_list_drop [of k ls] code_len [of k]
  by (auto simp: base_inv_def enter_code_def Let_def huff_step nth_list_update)

text \<open>Bits with the root prefix of the code \<open>k\<close> and its remaining bits are covered by it.\<close>

lemma covers_split:
  assumes "k < length ls" "root < ls ! k"
  shows "covers mx ls k v \<longleftrightarrow> v mod 2 ^ root = huff mx ls k mod 2 ^ root \<and>
    v div 2 ^ root mod 2 ^ (ls ! k - root) = huff mx ls k div 2 ^ root"
proof -
  have split: "x mod 2 ^ ls ! k = x mod 2 ^ root + 2 ^ root * (x div 2 ^ root mod 2 ^ (ls ! k - root))" for x :: nat
    using assms(2) mod_mult2_eq [of x "2 ^ root" "2 ^ (ls ! k - root)"] by (simp add: add.commute flip: power_add)
  have "v mod 2 ^ ls ! k = huff mx ls k \<longleftrightarrow>
      v mod 2 ^ root + 2 ^ root * (v div 2 ^ root mod 2 ^ (ls ! k - root)) =
      huff mx ls k mod 2 ^ root + 2 ^ root * (huff mx ls k div 2 ^ root)"
    unfolding split [of v] by (simp only: mod_mult_div_eq)
  also have "\<dots> \<longleftrightarrow> v mod 2 ^ root = huff mx ls k mod 2 ^ root \<and>
      v div 2 ^ root mod 2 ^ (ls ! k - root) = huff mx ls k div 2 ^ root"
    by (rule mult_add_unique) simp_all
  finally show ?thesis unfolding covers_def .
qed

lemma enter_nth:
  assumes "base_inv mx ls off N k t" "k < length ls" "t_len t = ls ! k" "cur_table mx off root p t"
    and side: "if t_drop t = 0 then ls ! k \<le> root else root < ls ! k \<and> ls ! k \<le> root + t_curr t"
    and "q < N"
  shows "t_tab (enter_code ty work t) ! q =
    (if t_next t \<le> q \<and> q < t_next t + 2 ^ t_curr t \<and>
        (q - t_next t) mod 2 ^ (ls ! k - t_drop t) = huff mx ls k div 2 ^ t_drop t
     then table_entry ty (work ! k) (ls ! k - t_drop t) else t_tab t ! q)"
proof -
  have "t_next t + 2 ^ t_curr t \<le> N" and len: "length (t_tab t) = N"
    using assms(1,4) by (auto simp: base_inv_def cur_table_def split: if_splits)
  moreover have "ls ! k - t_drop t \<le> t_curr t"
    using side assms(4) by (auto simp: cur_table_def split: if_splits)
  moreover have "huff mx ls k div 2 ^ t_drop t < 2 ^ (ls ! k - t_drop t)"
  proof -
    have "t_drop t \<le> ls ! k" using side assms(4) by (auto simp: cur_table_def split: if_splits)
    then show ?thesis using huff_less [OF assms(2)] by (simp add: less_mult_imp_div_less flip: power_add)
  qed
  ultimately show ?thesis
    using assms(1,3,6) by (simp add: enter_code_def Let_def base_inv_def fill_nth)
qed

lemma enter_done_root:
  assumes inv: "base_inv mx ls off N k t" and k: "k < length ls" "t_len t = ls ! k" and cur: "cur_table mx off root p t"
    and "off + 2 ^ root \<le> N" and drop: "t_drop t = 0" "ls ! k \<le> root"
    and old: "done_inv ty work mx ls off root p k t"
  shows "done_inv ty work mx ls off root p (Suc k) (enter_code ty work t)"
proof -
  let ?t = "enter_code ty work t"
  have root: "t_next t = off" "t_curr t = root" using cur drop by (simp_all add: cur_table_def)
  have idx: "off + v mod 2 ^ root < N" for v
  proof -
    have "v mod 2 ^ root < 2 ^ root" by simp
    then show ?thesis using assms(5) by linarith
  qed
  have tab: "t_tab ?t ! (off + v mod 2 ^ root) =
      (if covers mx ls k v then table_entry ty (work ! k) (ls ! k) else t_tab t ! (off + v mod 2 ^ root))" for v
    using enter_nth [OF inv k cur _ idx, of ty work v] drop root covers_mod [of k root v]
    by (simp add: covers_def)
  have "ls ! i \<le> root \<and> (covers mx ls i v \<longrightarrow> found ty (work ! i) (ls ! i) (t_tab ?t) off root lim v)"
    if "i < Suc k" for i v lim
  proof (cases "i = k")
    case True
    then show ?thesis using tab drop by (simp add: found_def)
  next
    case False
    then have i: "i < k" using that by simp
    then have le: "ls ! i \<le> root" using old drop by (simp add: done_inv_def)
    have "covers mx ls i v \<Longrightarrow> \<not> covers mx ls k v" using covers_unique [of i k v] i k by auto
    then show ?thesis
      using old i le tab [of v] by (auto simp: done_inv_def found_def)
  qed
  then show ?thesis by (simp add: done_inv_def)
qed

lemma enter_done_sub:
  assumes inv: "base_inv mx ls off N k t" and k: "k < length ls" "t_len t = ls ! k"
    and cur: "cur_table mx off root p t" and mx: "mx \<le> 15" "root \<le> mx" "p = prefix_of root mx ls k"
    and drop: "t_drop t \<noteq> 0" "root < ls ! k" "ls ! k \<le> root + t_curr t"
    and old: "done_inv ty work mx ls off root p k t"
  shows "done_inv ty work mx ls off root p (Suc k) (enter_code ty work t)"
    and "t_tab (enter_code ty work t) ! (off + rv root p) = t_tab t ! (off + rv root p)"
proof -
  let ?t = "enter_code ty work t" and ?n = "t_next t" and ?c = "t_curr t"
  have c: "t_drop t = root" "?n + 2 ^ ?c = off + t_used t" "off + 2 ^ root \<le> ?n" "?c + root \<le> mx"
      "t_tab t ! (off + rv root p) = link ?c root (?n - off)"
    using cur drop by (simp_all add: cur_table_def)
  have N: "off + t_used t \<le> N" "t_used t \<le> 65535" using inv by (simp_all add: base_inv_def)
  have same: "t_used ?t = t_used t" "t_curr ?t = ?c" "t_drop ?t = t_drop t" "t_next ?t = ?n"
    by (simp_all add: enter_code_def Let_def)
  note nth = enter_nth [OF inv k cur]
  have root: "t_tab ?t ! (off + r) = t_tab t ! (off + r)" if "r < 2 ^ root" for r
    using nth [of "off + r" ty work] that c N drop by auto
  have earlier: "t_tab ?t ! q = t_tab t ! q" if "q < ?n" for q
    using nth [of q ty work] that c N drop by auto
  have sub: "t_tab ?t ! (?n + v div 2 ^ root mod 2 ^ ?c) =
      (if v div 2 ^ root mod 2 ^ (ls ! k - root) = huff mx ls k div 2 ^ root
       then table_entry ty (work ! k) (ls ! k - root) else t_tab t ! (?n + v div 2 ^ root mod 2 ^ ?c))" for v
  proof -
    define x where "x = v div 2 ^ root mod 2 ^ ?c"
    have x: "x < 2 ^ ?c" by (simp add: x_def)
    then have "?n + x < N" using c(2) N(1) by linarith
    moreover have "x mod 2 ^ (ls ! k - root) = v div 2 ^ root mod 2 ^ (ls ! k - root)"
      using drop by (simp add: x_def mod_mod_cancel le_imp_power_dvd)
    ultimately show ?thesis
      using nth [of "?n + x" ty work] x drop c(1) by (simp flip: x_def)
  qed
  have H: "huff mx ls k mod 2 ^ root = rv root p" using huff_root [OF mx(2)] mx(3) by simp
  show "t_tab ?t ! (off + rv root p) = t_tab t ! (off + rv root p)" by (simp add: root)
  have "found ty (work ! i) (ls ! i) (t_tab ?t) off root
      (if prefix_of root mx ls i = p then t_used t else t_used t - 2 ^ ?c) v"
    if "i < Suc k" and v: "covers mx ls i v" for i v
  proof (cases "i = k")
    case True
    have kv: "v mod 2 ^ root = rv root p" "v div 2 ^ root mod 2 ^ (ls ! k - root) = huff mx ls k div 2 ^ root"
      using v True covers_split [OF k(1) drop(2)] H by auto
    have "t_tab ?t ! (off + v mod 2 ^ root) = link ?c root (?n - off)"
      using root [of "v mod 2 ^ root"] kv(1) c(5) by simp
    moreover have "t_tab ?t ! (off + (?n - off) + v div 2 ^ root mod 2 ^ ?c) = table_entry ty (work ! k) (ls ! k - root)"
      using sub [of v] kv(2) c(3) by simp
    moreover have "ls ! k - root \<le> ?c" "?c \<le> 15" "2 ^ root \<le> ?n - off" "?n - off + 2 ^ ?c \<le> t_used t"
      using drop c mx by linarith+
    ultimately show ?thesis
      unfolding True using drop(2) mx(3) N(2) by (intro found_subI [of root _ _ _ _ ?c "?n - off"]) simp_all
  next
    case False
    then have i: "i < k" using that(1) by simp
    have f: "found ty (work ! i) (ls ! i) (t_tab t) off root
        (if prefix_of root mx ls i = p then t_used t else t_used t - 2 ^ ?c) v"
      using old i v by (simp add: done_inv_def)
    have rt: "t_tab ?t ! (off + v mod 2 ^ root) = t_tab t ! (off + v mod 2 ^ root)" by (simp add: root)
    have not: "\<not> covers mx ls k v" using covers_unique [of i k v] i k(1) v by auto
    show ?thesis
    proof (cases "ls ! i \<le> root")
      case True
      then show ?thesis using f rt by (simp add: found_def)
    next
      case long: False
      then obtain c' b where e: "t_tab t ! (off + v mod 2 ^ root) = link c' root b" "ls ! i - root \<le> c'" "c' \<le> 15"
          "2 ^ root \<le> b" "b + 2 ^ c' \<le> (if prefix_of root mx ls i = p then t_used t else t_used t - 2 ^ ?c)"
          "t_tab t ! (off + b + v div 2 ^ root mod 2 ^ c') = table_entry ty (work ! i) (ls ! i - root)"
        using f by (auto simp: found_def)
      have "t_tab ?t ! (off + b + v div 2 ^ root mod 2 ^ c') = t_tab t ! (off + b + v div 2 ^ root mod 2 ^ c')"
      proof (cases "prefix_of root mx ls i = p")
        case True
        have vr: "v mod 2 ^ root = rv root p"
          using covers_split [of i root v] v i k(1) long huff_root [OF mx(2), of ls i] True by auto
        then have "link c' root b = link ?c root (?n - off)" using e(1) c(5) by simp
        moreover have "b \<le> 65535" "?n - off \<le> 65535" "?c \<le> 15"
          using e(5) N(2) c mx(1) by (auto split: if_splits)
        ultimately have cb: "c' = ?c \<and> b = ?n - off" using link_inj [of c' root b ?c "?n - off"] e(3) by simp
        have "v div 2 ^ root mod 2 ^ (ls ! k - root) \<noteq> huff mx ls k div 2 ^ root"
          using not vr H covers_split [OF k(1) drop(2), of v] by simp
        then show ?thesis using sub [of v] cb c(3) by simp
      next
        case False
        have "v div 2 ^ root mod 2 ^ c' < 2 ^ c'" by simp
        moreover have "b + 2 ^ c' \<le> t_used t - 2 ^ ?c" using e(5) False by simp
        ultimately have "off + b + v div 2 ^ root mod 2 ^ c' < ?n" using c(2,3) by linarith
        then show ?thesis by (rule earlier)
      qed
      then show ?thesis
        using e rt long N(2) by (intro found_subI [of root _ _ _ _ c' b]) (simp_all split: if_splits)
    qed
  qed
  then show "done_inv ty work mx ls off root p (Suc k) ?t"
    using drop(1) unfolding done_inv_def same by blast
qed

text \<open>A code after a shorter one, or after one of another root prefix, starts a root prefix.\<close>

lemma prefix_boundary:
  assumes "Suc k < length ls" "root \<le> mx" "ls ! k \<le> root \<or> prefix_of root mx ls k \<noteq> prefix_of root mx ls (Suc k)"
  shows "2 ^ (mx - root) dvd start mx ls (Suc k)"
proof (cases "ls ! k \<le> root")
  case True
  have "(2 :: nat) ^ (mx - root) dvd 2 ^ (mx - ls ! k)" using True by (simp add: le_imp_power_dvd)
  moreover have "2 ^ (mx - ls ! k) dvd start mx ls (Suc k)" using start_dvd [of k] assms(1) by simp
  ultimately show ?thesis by (rule dvd_trans)
next
  case False
  let ?D = "2 ^ (mx - root) :: nat" and ?d = "2 ^ (mx - ls ! k) :: nat" and ?s = "start mx ls k"
  have dD: "?d dvd ?D" using False by (simp add: le_imp_power_dvd)
  have "?d dvd ?s mod ?D" using start_dvd [of k] assms(1) dD by (simp add: dvd_mod)
  moreover have "?s mod ?D < ?D" by simp
  ultimately have le: "?s mod ?D + ?d \<le> ?D"
    using dD by (metis dvd_diff_nat dvd_imp_le le_add_diff_inverse nat_add_left_cancel_le less_imp_le zero_less_diff)
  have "\<not> ?s mod ?D + ?d < ?D"
  proof
    assume lt: "?s mod ?D + ?d < ?D"
    have "(?s + ?d) div ?D = ?s div ?D"
      using lt by (rule div_add_small)
    then show False using assms(3) False by (simp add: prefix_of_def)
  qed
  then have "?s mod ?D + ?d = ?D" using le by simp
  then have "?s + ?d = ?D * (?s div ?D) + ?D" by (metis add.assoc mult_div_mod_eq)
  then show ?thesis by simp
qed

text \<open>The size of the sub-table that the \<open>k\<close>-th code opens.\<close>

lemma first_size:
  assumes "k < length ls" "root < ls ! k" "root \<le> mx" "1 \<le> root" "2 ^ (mx - root) dvd start mx ls k"
    and "\<forall>j. 1 \<le> j \<and> j \<le> mx \<longrightarrow> cnt ! j = count_list (drop k ls) j"
  defines "c \<equiv> sub_size cnt root mx (2 ^ (ls ! k - root)) (ls ! k - root)"
  shows "ls ! k - root \<le> c \<and> c + root \<le> mx \<and>
    (\<forall>i. k \<le> i \<and> i < length ls \<and> prefix_of root mx ls i = prefix_of root mx ls k \<longrightarrow> ls ! i \<le> root + c) \<and>
    (start mx ls (length ls) = 2 ^ mx \<longrightarrow>
       (\<exists>i. k \<le> i \<and> i < length ls \<and> prefix_of root mx ls i = prefix_of root mx ls k \<and> root + c \<le> ls ! i))"
proof -
  have len: "root + (ls ! k - root) = ls ! k" "ls ! k - root + root \<le> mx" using assms(2) code_len [OF assms(1)] by auto
  have "\<not> l < ls ! k" if "l \<in> set (drop k ls)" for l
  proof -
    from that obtain a where "l = ls ! (k + a)" "k + a < length ls" by (auto simp: in_set_conv_nth)
    then show ?thesis using code_sorted [of k "k + a"] by simp
  qed
  then have "(\<Sum>l\<leftarrow>drop k ls. if l < root + (ls ! k - root) then 2 ^ (mx - l) else (0 :: nat)) = 0"
    unfolding len by (simp cong: map_cong)
  moreover have "(2 :: int) ^ (ls ! k - root) * 2 ^ (mx - root - (ls ! k - root)) = 2 ^ (mx - root)"
    using assms(2) code_len [OF assms(1)] by (simp flip: power_add)
  ultimately have "(2 :: int) ^ (ls ! k - root) * 2 ^ (mx - root - (ls ! k - root)) = int (2 ^ (mx - root)) -
      int (\<Sum>l\<leftarrow>drop k ls. if l < root + (ls ! k - root) then 2 ^ (mx - l) else 0)" by simp
  from sub_size_fits [OF assms(3,1,5,4,6) len(2) this, folded c_def] show ?thesis
    unfolding len using assms(1) by blast
qed

lemma new_subtable_inv:
  assumes inv: "base_inv mx ls off N k t" and k: "k < length ls" "t_len t = ls ! k" "root < ls ! k"
    and cur: "cur_table mx off root p t" and mx: "mx \<le> 15" "root \<le> mx" "1 \<le> root"
    and align: "2 ^ (mx - root) dvd start mx ls k"
    and sep: "\<And>i. i < k \<Longrightarrow> root < ls ! i \<Longrightarrow> prefix_of root mx ls i \<noteq> prefix_of root mx ls k"
    and old: "done_inv ty work mx ls off root p k t"
    and space: "\<And>u. \<not> no_space ty u \<Longrightarrow> off + u \<le> N \<and> u \<le> 65535"
    and new: "new_subtable ty off root mx t = Some t'"
  defines "q \<equiv> prefix_of root mx ls k"
  shows "base_inv mx ls off N k t'" "t_len t' = ls ! k" "cur_table mx off root q t'" "t_drop t' = root"
    "ls ! k \<le> root + t_curr t'" "room_inv mx ls root q k t'" "done_inv ty work mx ls off root q k t'"
proof -
  let ?cur = "sub_size (t_count t) root mx (2 ^ (ls ! k - root)) (ls ! k - root)"
  have nx: "t_next t + 2 ^ t_curr t = off + t_used t"
    using cur by (auto simp: cur_table_def split: if_splits)
  have drp: "(if t_drop t = 0 then root else t_drop t) = root"
    using cur by (auto simp: cur_table_def split: if_splits)
  have low: "take_bit root (t_huff t) = rv root q"
    using inv huff_root [OF mx(2)] by (simp add: base_inv_def take_bit_eq_mod q_def)
  have lowk: "huff mx ls k mod 2 ^ root = rv root q"
    using huff_root [OF mx(2)] by (simp add: q_def)
  have t': "t' = t\<lparr>t_drop := root, t_next := off + t_used t, t_curr := ?cur, t_used := t_used t + 2 ^ ?cur,
      t_low := Some (rv root q), t_tab := (t_tab t)[off + rv root q := link ?cur root (t_used t)]\<rparr>"
    and sp: "\<not> no_space ty (t_used t + 2 ^ ?cur)"
    using new by (simp_all add: new_subtable_def Let_def drp nx low k(2) split: if_splits)
  from space [OF sp] have N: "off + (t_used t + 2 ^ ?cur) \<le> N" "t_used t + 2 ^ ?cur \<le> 65535" by simp_all
  have cnt: "\<forall>j. 1 \<le> j \<and> j \<le> mx \<longrightarrow> t_count t ! j = count_list (drop k ls) j"
    using inv mx(1) by (simp add: base_inv_def)
  have size: "ls ! k - root \<le> ?cur \<and> ?cur + root \<le> mx \<and>
      (\<forall>i. k \<le> i \<and> i < length ls \<and> prefix_of root mx ls i = q \<longrightarrow> ls ! i \<le> root + ?cur)"
    unfolding q_def using first_size [OF k(1,3) mx(2,3) align cnt] by blast
  have used: "2 ^ root \<le> t_used t"
    using cur nx by (auto simp: cur_table_def split: if_splits)
  show "base_inv mx ls off N k t'" using inv N by (simp add: t' base_inv_def)
  show "t_len t' = ls ! k" "t_drop t' = root" by (simp_all add: t' k(2))
  have len: "length (t_tab t) = N" using inv by (simp add: base_inv_def)
  have lt: "off + rv root q < N"
  proof -
    have "rv root q < 2 ^ root" by simp
    then show ?thesis using N(1) used by linarith
  qed
  show "cur_table mx off root q t'"
  proof -
    have "1 \<le> ?cur" using size k(3) by linarith
    then show ?thesis using mx(3) used size len lt by (simp add: t' cur_table_def)
  qed
  show "ls ! k \<le> root + t_curr t'" "room_inv mx ls root q k t'"
    using size k(3) by (auto simp: t' room_inv_def)
  have "found ty (work ! i) (ls ! i) (t_tab t') off root
      (if prefix_of root mx ls i = q then t_used t' else t_used t' - 2 ^ t_curr t') v"
    if i: "i < k" and v: "covers mx ls i v" for i v
  proof (cases "ls ! i \<le> root")
    case True
    have "v mod 2 ^ root \<noteq> rv root q"
    proof
      assume "v mod 2 ^ root = rv root q"
      then have "covers mx ls i (huff mx ls k)"
        using v covers_mod [OF True, of v] covers_mod [OF True, of "huff mx ls k"] lowk by simp
      then show False using covers_unique [of i k] covers_huff [OF k(1)] i k(1) by auto
    qed
    then show ?thesis using old i v True by (auto simp: found_def done_inv_def t')
  next
    case False
    have nq: "prefix_of root mx ls i \<noteq> q" using sep [OF i] False by (simp add: q_def)
    have f: "found ty (work ! i) (ls ! i) (t_tab t) off root
        (if prefix_of root mx ls i = p then t_used t else t_used t - 2 ^ t_curr t) v"
      using old i v by (simp add: done_inv_def)
    then obtain c b where e: "t_tab t ! (off + v mod 2 ^ root) = link c root b" "ls ! i - root \<le> c" "c \<le> 15"
        "2 ^ root \<le> b" "b + 2 ^ c \<le> (if prefix_of root mx ls i = p then t_used t else t_used t - 2 ^ t_curr t)"
        "t_tab t ! (off + b + v div 2 ^ root mod 2 ^ c) = table_entry ty (work ! i) (ls ! i - root)"
      using False by (auto simp: found_def)
    have "v mod 2 ^ root = huff mx ls i mod 2 ^ root"
      using covers_split [of i root v] v i k(1) False by simp
    moreover have "huff mx ls i mod 2 ^ root \<noteq> rv root q"
      using huff_root_eq [OF mx(2), of ls i k] nq start_lt i k(1) lowk by (simp add: q_def)
    ultimately have "t_tab t' ! (off + v mod 2 ^ root) = link c root b"
      using e(1) by (simp add: t')
    moreover have "t_tab t' ! (off + b + v div 2 ^ root mod 2 ^ c) = table_entry ty (work ! i) (ls ! i - root)"
    proof -
      have "rv root q < 2 ^ root" by simp
      then have "off + rv root q \<noteq> off + b + v div 2 ^ root mod 2 ^ c" using e(4) by linarith
      then show ?thesis using e(6) by (simp add: t')
    qed
    moreover have "b + 2 ^ c \<le> t_used t" using e(5) by (auto split: if_splits)
    ultimately show ?thesis
      using False e nq N(2) by (intro found_subI [of root _ _ _ _ c b]) (simp_all add: t')
  qed
  then show "done_inv ty work mx ls off root q k t'"
    using mx(3) unfolding done_inv_def t' by simp
qed

end

section \<open>The space\<close>

text \<open>The bits of the sub-table of the root prefix \<open>p\<close>, and the entries that the root table and the sub-tables of
  the first \<open>k\<close> codes take.\<close>

definition sub_bits :: "nat \<Rightarrow> nat \<Rightarrow> nat list \<Rightarrow> nat \<Rightarrow> nat" where
  "sub_bits root mx ls p = Max ((\<lambda>i. ls ! i) ` {i. i < length ls \<and> root < ls ! i \<and> prefix_of root mx ls i = p}) - root"

definition space_upto :: "nat \<Rightarrow> nat \<Rightarrow> nat list \<Rightarrow> nat \<Rightarrow> nat" where
  "space_upto root mx ls k =
     2 ^ root + (\<Sum>p\<in>prefix_of root mx ls ` {i. i < k \<and> root < ls ! i}. 2 ^ sub_bits root mx ls p)"

lemma space_upto_mono: "k \<le> m \<Longrightarrow> space_upto root mx ls k \<le> space_upto root mx ls m"
  unfolding space_upto_def by (intro add_left_mono sum_mono2) auto

lemma no_space_mono: "no_space ty u \<Longrightarrow> u \<le> v \<Longrightarrow> no_space ty v"
  by (auto simp: no_space_def)

lemma space_upto_same:
  assumes "root < ls ! k \<Longrightarrow> prefix_of root mx ls k \<in> prefix_of root mx ls ` {i. i < k \<and> root < ls ! i}"
  shows "space_upto root mx ls (Suc k) = space_upto root mx ls k"
proof -
  have "{i. i < Suc k \<and> root < ls ! i} = (if root < ls ! k then insert k else (\<lambda>x. x)) {i. i < k \<and> root < ls ! i}"
    by (auto simp: less_Suc_eq)
  then show ?thesis using assms by (simp add: space_upto_def insert_absorb)
qed

lemma space_upto_new:
  assumes "root < ls ! k" "\<And>i. i < k \<Longrightarrow> root < ls ! i \<Longrightarrow> prefix_of root mx ls i \<noteq> prefix_of root mx ls k"
  shows "space_upto root mx ls (Suc k) = space_upto root mx ls k + 2 ^ sub_bits root mx ls (prefix_of root mx ls k)"
proof -
  have "{i. i < Suc k \<and> root < ls ! i} = insert k {i. i < k \<and> root < ls ! i}" using assms(1) by (auto simp: less_Suc_eq)
  moreover have "prefix_of root mx ls k \<notin> prefix_of root mx ls ` {i. i < k \<and> root < ls ! i}" using assms(2) by force
  ultimately show ?thesis by (simp add: space_upto_def)
qed

context sorted_code
begin

text \<open>A sub-table is opened with the bits that its longest code needs, unless there is no space for it.\<close>

lemma new_subtable_used:
  assumes inv: "base_inv mx ls off N k t" and k: "k < length ls" "t_len t = ls ! k" "root < ls ! k"
    and cur: "cur_table mx off root p t" and mx: "mx \<le> 15" "root \<le> mx" "1 \<le> root"
    and align: "2 ^ (mx - root) dvd start mx ls k"
    and sep: "\<And>i. i < k \<Longrightarrow> root < ls ! i \<Longrightarrow> prefix_of root mx ls i \<noteq> prefix_of root mx ls k"
    and full: "start mx ls (length ls) = 2 ^ mx"
  defines "u \<equiv> t_used t + 2 ^ sub_bits root mx ls (prefix_of root mx ls k)"
  shows "case new_subtable ty off root mx t of None \<Rightarrow> no_space ty u | Some t' \<Rightarrow> t_used t' = u \<and> \<not> no_space ty u"
proof -
  let ?cur = "sub_size (t_count t) root mx (2 ^ (ls ! k - root)) (ls ! k - root)" and ?q = "prefix_of root mx ls k"
  let ?S = "{i. i < length ls \<and> root < ls ! i \<and> prefix_of root mx ls i = ?q}"
  have cnt: "\<forall>j. 1 \<le> j \<and> j \<le> mx \<longrightarrow> t_count t ! j = count_list (drop k ls) j"
    using inv mx(1) by (simp add: base_inv_def)
  note f = first_size [OF k(1,3) mx(2,3) align cnt]
  from f full obtain i where i: "k \<le> i" "i < length ls" "prefix_of root mx ls i = ?q" "root + ?cur \<le> ls ! i" by blast
  have "root < ls ! i" using code_sorted [OF i(1,2)] k(3) by simp
  then have mem: "i \<in> ?S" using i by simp
  have le: "ls ! j \<le> root + ?cur" if "j \<in> ?S" for j
  proof -
    have "k \<le> j" using that sep [of j] by (auto simp: not_le [symmetric])
    then show ?thesis using that f by blast
  qed
  have top: "root + ?cur = ls ! i" using le [OF mem] i(4) by simp
  have "Max ((\<lambda>i. ls ! i) ` ?S) = root + ?cur"
  proof (rule Max_eqI)
    show "root + ?cur \<in> (\<lambda>i. ls ! i) ` ?S" unfolding top using mem by (rule imageI)
  qed (use le in auto)
  then have bits: "sub_bits root mx ls ?q = ?cur" by (simp add: sub_bits_def)
  have "(if t_drop t = 0 then root else t_drop t) = root"
    using cur by (auto simp: cur_table_def split: if_splits)
  then show ?thesis by (simp add: new_subtable_def Let_def k(2) u_def bits)
qed

end

section \<open>The loop\<close>

definition loop_inv :: "codetype \<Rightarrow> nat list \<Rightarrow> nat \<Rightarrow> nat list \<Rightarrow> nat \<Rightarrow> nat \<Rightarrow> nat \<Rightarrow> nat \<Rightarrow> nat \<Rightarrow> table_state \<Rightarrow> bool" where
  "loop_inv ty work mx ls off root N p k t \<longleftrightarrow>
     base_inv mx ls off N k t \<and> t_len t = ls ! k \<and> cur_table mx off root p t \<and>
     done_inv ty work mx ls off root p k t \<and> room_inv mx ls root p k t \<and>
     (if t_drop t = 0 then ls ! k \<le> root
      else p = prefix_of root mx ls k \<and> root < ls ! k \<and> ls ! k \<le> root + t_curr t)"

lemma inv_t_len [simp]:
  "base_inv mx ls off N k (t\<lparr>t_len := l\<rparr>) = base_inv mx ls off N k t"
  "cur_table mx off root p (t\<lparr>t_len := l\<rparr>) = cur_table mx off root p t"
  "done_inv ty work mx ls off root p k (t\<lparr>t_len := l\<rparr>) = done_inv ty work mx ls off root p k t"
  "room_inv mx ls root p k (t\<lparr>t_len := l\<rparr>) = room_inv mx ls root p k t"
  by (simp_all add: base_inv_def cur_table_def done_inv_def room_inv_def)

lemma enter_code_simps [simp]:
  "t_drop (enter_code ty work t) = t_drop t" "t_next (enter_code ty work t) = t_next t"
  "t_curr (enter_code ty work t) = t_curr t" "t_low (enter_code ty work t) = t_low t"
  "t_used (enter_code ty work t) = t_used t" "t_len (enter_code ty work t) = t_len t"
  by (simp_all add: enter_code_def Let_def)

context sorted_code
begin

lemma enter_inv:
  assumes inv: "loop_inv ty work mx ls off root N p k t" and k: "k < length ls"
    and mx: "mx \<le> 15" "root \<le> mx" "off + 2 ^ root \<le> N"
  shows "base_inv mx ls off N (Suc k) (enter_code ty work t)" "cur_table mx off root p (enter_code ty work t)"
    "done_inv ty work mx ls off root p (Suc k) (enter_code ty work t)"
    "room_inv mx ls root p (Suc k) (enter_code ty work t)"
proof -
  have i: "base_inv mx ls off N k t" "t_len t = ls ! k" "cur_table mx off root p t"
      "done_inv ty work mx ls off root p k t" "room_inv mx ls root p k t"
      "if t_drop t = 0 then ls ! k \<le> root
       else p = prefix_of root mx ls k \<and> root < ls ! k \<and> ls ! k \<le> root + t_curr t"
    using inv unfolding loop_inv_def by blast+
  show "base_inv mx ls off N (Suc k) (enter_code ty work t)" by (rule enter_base [OF i(1) k i(2) mx(1)])
  show "room_inv mx ls root p (Suc k) (enter_code ty work t)" using i(5) by (simp add: room_inv_def)
  show "cur_table mx off root p (enter_code ty work t)" "done_inv ty work mx ls off root p (Suc k) (enter_code ty work t)"
  proof (atomize (full), cases "t_drop t = 0")
    case True
    then show "cur_table mx off root p (enter_code ty work t) \<and> done_inv ty work mx ls off root p (Suc k) (enter_code ty work t)"
      using enter_done_root [OF i(1) k i(2,3) mx(3) True _ i(4)] i(3,6) by (simp add: cur_table_def)
  next
    case False
    then show "cur_table mx off root p (enter_code ty work t) \<and> done_inv ty work mx ls off root p (Suc k) (enter_code ty work t)"
      using enter_done_sub [OF i(1) k i(2,3) mx(1,2) _ False _ _ i(4)] i(3,6) by (simp add: cur_table_def)
  qed
qed

text \<open>The counts tell whether the next code has the same length.\<close>

lemma next_len:
  assumes "base_inv mx ls off N (Suc k) t" "k < length ls" "mx \<le> 15" "ls ! (length ls - 1) = mx"
  shows "t_count t ! (ls ! k) = 0 \<and> ls ! k = mx \<longleftrightarrow> Suc k = length ls"
    and "t_count t ! (ls ! k) \<noteq> 0 \<Longrightarrow> Suc k < length ls \<and> ls ! Suc k = ls ! k"
proof -
  have cnt: "t_count t ! (ls ! k) = count_list (drop (Suc k) ls) (ls ! k)"
    using assms(1,3) code_len [OF assms(2)] by (simp add: base_inv_def)
  show same: "Suc k < length ls \<and> ls ! Suc k = ls ! k" if "t_count t ! (ls ! k) \<noteq> 0"
  proof -
    from that have "ls ! k \<in> set (drop (Suc k) ls)" by (simp add: cnt count_list_0_iff)
    then obtain a where a: "ls ! (Suc k + a) = ls ! k" "Suc k + a < length ls" by (auto simp: in_set_conv_nth)
    then show ?thesis using code_sorted [of k "Suc k"] code_sorted [of "Suc k" "Suc k + a"] by simp
  qed
  show "t_count t ! (ls ! k) = 0 \<and> ls ! k = mx \<longleftrightarrow> Suc k = length ls"
  proof
    assume z: "t_count t ! (ls ! k) = 0 \<and> ls ! k = mx"
    show "Suc k = length ls"
    proof (rule ccontr)
      assume "Suc k \<noteq> length ls"
      then have "Suc k < length ls" using assms(2) by simp
      then have "ls ! Suc k = ls ! k" using code_sorted [of k "Suc k"] code_len [of "Suc k"] z by simp
      then have "ls ! k \<in> set (drop (Suc k) ls)"
        using \<open>Suc k < length ls\<close> by (metis hd_drop_conv_nth hd_in_set drop_eq_Nil not_le)
      then show False using z by (auto simp: cnt count_list_0_iff)
    qed
  next
    assume n: "Suc k = length ls"
    then have "ls ! k = mx" using assms(4) by (simp flip: n)
    then show "t_count t ! (ls ! k) = 0 \<and> ls ! k = mx" using n unfolding cnt by simp
  qed
qed

text \<open>Enough fuel gives a result, and unless the space runs out every code is found.\<close>

lemma table_loop_correct:
  assumes "loop_inv ty work mx ls off root N p k t" "k < length ls" "length ls \<le> k + fuel"
    and mx: "mx \<le> 15" "root \<le> mx" "1 \<le> root" "off + 2 ^ root \<le> N"
    and last: "ls ! (length ls - 1) = mx" and lens: "\<And>i. i < length ls \<Longrightarrow> lens ! (work ! i) = ls ! i"
    and space: "\<And>u. root < mx \<Longrightarrow> \<not> no_space ty u \<Longrightarrow> off + u \<le> N \<and> u \<le> 65535"
    and full: "root < mx \<Longrightarrow> start mx ls (length ls) = 2 ^ mx"
    and used: "t_used t = space_upto root mx ls (Suc k)" "\<not> no_space ty (t_used t)"
  shows "\<exists>r. table_loop ty lens work off root mx fuel t = Some r \<and>
    (case r of Inl tab \<Rightarrow> length tab = N \<and> no_space ty (space_upto root mx ls (length ls))
     | Inr t' \<Rightarrow> (\<exists>p. base_inv mx ls off N (length ls) t' \<and> cur_table mx off root p t' \<and>
         done_inv ty work mx ls off root p (length ls) t' \<and> t_len t' = mx) \<and>
         t_used t' = space_upto root mx ls (length ls) \<and> \<not> no_space ty (t_used t'))"
  using assms(1-3) used
proof (induction fuel arbitrary: p k t)
  case 0
  then show ?case by simp
next
  case (Suc fuel)
  let ?t = "enter_code ty work t"
  note inv = Suc.prems(1) and k = Suc.prems(2)
  have len: "t_len ?t = ls ! k" using inv by (simp add: loop_inv_def)
  note e = enter_inv [OF inv k mx(1,2,4)]
  note nl = next_len [OF e(1) k mx(1) last]
  show ?case
  proof (cases "Suc k = length ls")
    case True
    then have z: "t_count ?t ! t_len ?t = 0 \<and> t_len ?t = mx" using nl(1) unfolding len by blast
    then have zl: "t_len ?t = mx" and zc: "t_count ?t ! mx = 0" by (rule conjunct2, metis)
    then have "table_loop ty lens work off root mx (Suc fuel) t = Some (Inr ?t)"
      unfolding table_loop.simps Let_def zl by simp
    then show ?thesis using e(1-3) [unfolded True] z Suc.prems(4,5) True by auto
  next
    case False
    then have k': "Suc k < length ls" using k by simp
    have notlast: "\<not> (t_count ?t ! t_len ?t = 0 \<and> t_len ?t = mx)" using nl(1) len False by simp
    define t2 where "t2 = ?t\<lparr>t_len := ls ! Suc k\<rparr>"
    have "t_sym ?t = Suc k" using e(1) by (simp add: base_inv_def)
    then have t2: "(if t_count ?t ! t_len ?t = 0 then ?t\<lparr>t_len := lens ! (work ! t_sym ?t)\<rparr> else ?t) = t2"
      using lens [OF k'] nl(2) len by (simp add: t2_def)
    have e2: "base_inv mx ls off N (Suc k) t2" "cur_table mx off root p t2"
        "done_inv ty work mx ls off root p (Suc k) t2" "room_inv mx ls root p (Suc k) t2"
        "t_len t2 = ls ! Suc k" "t_drop t2 = t_drop t" "t_low t2 = t_low t" "t_curr t2 = t_curr t"
        "t_used t2 = t_used t"
      using e by (simp_all add: t2_def)
    have huff: "t_huff t2 = huff mx ls (Suc k)" using e2(1) by (simp add: base_inv_def)
    have le: "ls ! k \<le> ls ! Suc k" using code_sorted [of k "Suc k"] k' by simp
    have low: "take_bit root (t_huff t2) = rv root (prefix_of root mx ls (Suc k))"
      using huff huff_root [OF mx(2)] by (simp add: take_bit_eq_mod)
    have step: "table_loop ty lens work off root mx (Suc fuel) t =
        (if t_len t2 > root \<and> Some (take_bit root (t_huff t2)) \<noteq> t_low t2 then
           (case new_subtable ty off root mx t2 of None \<Rightarrow> Some (Inl (t_tab t2))
            | Some t \<Rightarrow> table_loop ty lens work off root mx fuel t)
         else table_loop ty lens work off root mx fuel t2)"
      unfolding table_loop.simps Let_def t2 by (simp only: notlast if_False)
    have fuel: "length ls \<le> Suc k + fuel" using Suc.prems(3) by simp
    show ?thesis
    proof (cases "t_len t2 > root \<and> Some (take_bit root (t_huff t2)) \<noteq> t_low t2")
      case True
      have root: "root < ls ! Suc k" using True e2(5) by simp
      have drop: "t_drop t = 0 \<or> p = prefix_of root mx ls k \<and> p \<noteq> prefix_of root mx ls (Suc k)"
        using inv True low e2(2,6,7) by (auto simp: loop_inv_def cur_table_def split: if_splits)
      have short: "ls ! i \<le> root" if "t_drop t = 0" "i < Suc k" for i
        using e2(3,6) that by (auto simp: done_inv_def)
      have "ls ! k \<le> root \<or> prefix_of root mx ls k \<noteq> prefix_of root mx ls (Suc k)"
        using drop short [of k] by auto
      then have align: "2 ^ (mx - root) dvd start mx ls (Suc k)" by (rule prefix_boundary [OF k' mx(2)])
      have sep: "prefix_of root mx ls i \<noteq> prefix_of root mx ls (Suc k)" if "i < Suc k" "root < ls ! i" for i
      proof -
        have "prefix_of root mx ls i \<le> prefix_of root mx ls k" "prefix_of root mx ls k \<le> prefix_of root mx ls (Suc k)"
          using that(1) by (simp_all add: prefix_of_mono)
        then show ?thesis using drop short [OF _ that(1)] that(2) by auto
      qed
      have "root < mx" using root code_len [OF k'] by simp
      have total: "t_used t2 + 2 ^ sub_bits root mx ls (prefix_of root mx ls (Suc k)) = space_upto root mx ls (Suc (Suc k))"
        using Suc.prems(4) e2(9) space_upto_new [OF root sep] by simp
      note u = new_subtable_used [OF e2(1) k' e2(5) root e2(2) mx(1-3) align sep full [OF \<open>root < mx\<close>], of ty,
          unfolded total]
      show ?thesis
      proof (cases "new_subtable ty off root mx t2")
        case None
        then have "no_space ty (space_upto root mx ls (length ls))"
          using u no_space_mono space_upto_mono [of "Suc (Suc k)" "length ls" root mx ls] k' by simp
        then show ?thesis using step True None e2(1) by (simp add: base_inv_def)
      next
        case (Some t3)
        note n = new_subtable_inv [OF e2(1) k' e2(5) root e2(2) mx(1-3) align sep e2(3) space [OF \<open>root < mx\<close>] Some]
        have "loop_inv ty work mx ls off root N (prefix_of root mx ls (Suc k)) (Suc k) t3"
          unfolding loop_inv_def using n mx(3) root by simp
        moreover have "t_used t3 = space_upto root mx ls (Suc (Suc k))" "\<not> no_space ty (t_used t3)"
          using u Some by simp_all
        ultimately show ?thesis using Suc.IH [of _ "Suc k" t3] k' fuel step True Some by simp
      qed
    next
      case no: False
      have inv2: "loop_inv ty work mx ls off root N p (Suc k) t2"
      proof (cases "t_drop t = 0")
        case True
        then have "ls ! Suc k \<le> root" using no e2(2,5,6) by (auto simp: cur_table_def)
        then show ?thesis unfolding loop_inv_def using e2 True by simp
      next
        case False
        then have old: "p = prefix_of root mx ls k" "root < ls ! k" using inv by (simp_all add: loop_inv_def)
        then have root: "root < ls ! Suc k" using le by simp
        then have "rv root (prefix_of root mx ls (Suc k)) = rv root p"
          using no e2(2,5,6) low False by (simp add: cur_table_def)
        then have p: "p = prefix_of root mx ls (Suc k)"
          using rv_inj [of root p "prefix_of root mx ls (Suc k)"] old(1)
            prefix_of_less [OF mx(2) start_lt [OF k]] prefix_of_less [OF mx(2) start_lt [OF k']] by simp
        then have "ls ! Suc k \<le> root + t_curr t2"
          using e2(4,6,8) False k' by (simp add: room_inv_def)
        then show ?thesis unfolding loop_inv_def using e2 False p root by simp
      qed
      have "prefix_of root mx ls (Suc k) \<in> prefix_of root mx ls ` {i. i < Suc k \<and> root < ls ! i}"
        if root: "root < ls ! Suc k"
      proof -
        have d: "t_drop t \<noteq> 0" "t_low t2 = Some (rv root (prefix_of root mx ls (Suc k)))"
          using no root low e2(2,5,6,7) by (auto simp: cur_table_def split: if_splits)
        then have old: "p = prefix_of root mx ls k" "root < ls ! k" using inv by (simp_all add: loop_inv_def)
        have "rv root (prefix_of root mx ls (Suc k)) = rv root p"
          using d e2(2,6) by (simp add: cur_table_def)
        then have "prefix_of root mx ls (Suc k) = prefix_of root mx ls k"
          using rv_inj [of root p "prefix_of root mx ls (Suc k)"] old(1)
            prefix_of_less [OF mx(2) start_lt [OF k]] prefix_of_less [OF mx(2) start_lt [OF k']] by simp
        then show ?thesis using old(2) by force
      qed
      then have u2: "t_used t2 = space_upto root mx ls (Suc (Suc k))" "\<not> no_space ty (t_used t2)"
        using Suc.prems(4,5) e2(9) space_upto_same [of root ls "Suc k" mx] by simp_all
      from Suc.IH [OF inv2 k' fuel u2] show ?thesis using step no by (simp only: if_False)
    qed
  qed
qed

end

end
