(* ===== verification/Sort_Symbols.thy ===== *)
theory Sort_Symbols
  imports Decode_Table
begin

text \<open>
  The first part of \<open>inflate_table\<close>: the search for the longest and shortest length, the offsets and
  the counting sort.  The sort puts the symbols in use into \<open>work\<close> by length and, within a length, in
  symbol order; their lengths are a \<open>sorted_code\<close> whose codes are the canonical ones of
  \<open>Huffman_Codes\<close>.
\<close>

section \<open>The longest and the shortest length\<close>

lemma find_max_spec:
  "find_max cnt m \<le> m \<and> (\<forall>l. find_max cnt m < l \<and> l \<le> m \<longrightarrow> cnt ! l = 0) \<and>
   (find_max cnt m \<noteq> 0 \<longrightarrow> cnt ! find_max cnt m \<noteq> 0)"
  by (induction m) (auto simp: le_Suc_eq)

lemma find_min_spec:
  "m \<le> mx \<Longrightarrow> m \<le> find_min cnt mx m \<and> find_min cnt mx m \<le> mx \<and>
    (\<forall>l. m \<le> l \<and> l < find_min cnt mx m \<longrightarrow> cnt ! l = 0) \<and>
    (find_min cnt mx m < mx \<longrightarrow> cnt ! find_min cnt mx m \<noteq> 0)"
proof (induction cnt mx m rule: find_min.induct)
  case (1 cnt mx m)
  show ?case
  proof (cases "m < mx \<and> cnt ! m = 0")
    case True
    then have step: "find_min cnt mx m = find_min cnt mx (m + 1)" by (subst find_min.simps) simp
    have "Suc m \<le> mx" using True by simp
    then have IH: "m + 1 \<le> find_min cnt mx (m + 1)" "find_min cnt mx (m + 1) \<le> mx"
        "\<And>l. m + 1 \<le> l \<Longrightarrow> l < find_min cnt mx (m + 1) \<Longrightarrow> cnt ! l = 0"
        "find_min cnt mx (m + 1) < mx \<Longrightarrow> cnt ! find_min cnt mx (m + 1) \<noteq> 0"
      using 1(1) True by simp_all
    have "cnt ! l = 0" if "m \<le> l" "l < find_min cnt mx (m + 1)" for l
      using IH(3) [of l] True that by (cases "l = m") auto
    then show ?thesis unfolding step using IH by auto
  next
    case False
    then have "find_min cnt mx m = m" by (subst find_min.simps) auto
    then show ?thesis using 1(2) False by auto
  qed
qed

section \<open>The counting sort\<close>

definition bucket :: "nat list \<Rightarrow> nat \<Rightarrow> nat \<Rightarrow> nat list" where
  "bucket lens l j = filter (\<lambda>sy. lens ! sy = l) [0..<j]"

definition offset :: "nat list \<Rightarrow> nat \<Rightarrow> nat" where
  "offset lens l = (\<Sum>i\<leftarrow>[1..<l]. length (bucket lens i (length lens)))"

text \<open>The symbols in use with a length below \<open>L\<close>, in the order of the sort.\<close>

definition sorted_upto :: "nat list \<Rightarrow> nat \<Rightarrow> nat list" where
  "sorted_upto lens L = concat (map (\<lambda>l. bucket lens l (length lens)) [1..<L])"

lemma bucket_Suc: "bucket lens l (Suc j) = bucket lens l j @ (if lens ! j = l then [j] else [])"
  by (simp add: bucket_def)

lemma length_bucket_mono: "j \<le> k \<Longrightarrow> length (bucket lens l j) \<le> length (bucket lens l k)"
  by (induction k) (auto simp: bucket_Suc le_Suc_eq)

lemma length_bucket_count: "j \<le> length lens \<Longrightarrow> length (bucket lens l j) = count_list (take j lens) l"
  by (induction j) (auto simp: bucket_Suc take_Suc_conv_app_nth, simp add: bucket_def)

lemma offset_Suc: "1 \<le> l \<Longrightarrow> offset lens (Suc l) = offset lens l + length (bucket lens l (length lens))"
  by (simp add: offset_def)

lemma offset_1 [simp]: "offset lens (Suc 0) = 0"
  by (simp add: offset_def)

lemma offset_mono: "1 \<le> k \<Longrightarrow> k \<le> l \<Longrightarrow> offset lens k \<le> offset lens l"
  by (induction l) (auto simp: le_Suc_eq offset_Suc)

lemma sorted_upto_Suc: "1 \<le> L \<Longrightarrow> sorted_upto lens (Suc L) = sorted_upto lens L @ bucket lens L (length lens)"
  by (simp add: sorted_upto_def)

lemma sorted_upto_1 [simp]: "sorted_upto lens (Suc 0) = []"
  by (simp add: sorted_upto_def)

lemma length_sorted_upto: "length (sorted_upto lens L) = offset lens L"
  by (simp add: sorted_upto_def offset_def length_concat o_def)

lemma nth_sorted_upto:
  assumes "1 \<le> l" "l < L" "r < length (bucket lens l (length lens))"
  shows "sorted_upto lens L ! (offset lens l + r) = bucket lens l (length lens) ! r"
  using assms(2)
proof (induction L)
  case (Suc L)
  then have "1 \<le> L" using assms(1) by simp
  show ?case
  proof (cases "l = L")
    case True
    then show ?thesis using \<open>1 \<le> L\<close> by (simp add: sorted_upto_Suc nth_append length_sorted_upto)
  next
    case False
    then have "l < L" using Suc.prems by simp
    have "offset lens l + r < offset lens L"
      using offset_mono [of "Suc l" L lens] \<open>l < L\<close> assms(1,3) by (simp add: offset_Suc)
    then show ?thesis
      using Suc.IH [OF \<open>l < L\<close>] \<open>1 \<le> L\<close> by (simp add: sorted_upto_Suc nth_append length_sorted_upto)
  qed
qed simp

lemma gen_offs_nth:
  assumes "\<forall>l\<in>set lens. l \<le> 15" "1 \<le> l" "l \<le> 15"
  shows "gen_offs (count_lens lens) ! l = offset lens l"
proof -
  have "length (foldl (\<lambda>offs l. offs[l + 1 := offs ! l + count_lens lens ! l]) (replicate 16 0) [1..<k]) = 16 \<and>
      (\<forall>l. 1 \<le> l \<and> l \<le> k \<longrightarrow>
        foldl (\<lambda>offs l. offs[l + 1 := offs ! l + count_lens lens ! l]) (replicate 16 0) [1..<k] ! l = offset lens l)"
    if "1 \<le> k" "k \<le> 15" for k
    using that
  proof (induction k)
    case (Suc k)
    show ?case
    proof (cases "k = 0")
      case True
      then show ?thesis by (auto simp: le_Suc_eq nth_replicate simp del: upt_rec_numeral)
    next
      case False
      then show ?thesis
        using Suc count_lens_nth [OF assms(1), of k]
        by (auto simp: nth_list_update offset_Suc length_bucket_count le_Suc_eq simp del: upt_rec_numeral)
    qed
  qed simp
  from this [of 15] assms(2,3) show ?thesis by (simp add: gen_offs_def MAXBITS_def)
qed

lemma length_gen_offs [simp]: "length (gen_offs cnt) = 16"
proof -
  have "length (foldl (\<lambda>offs l. offs[l + 1 := offs ! l + cnt ! l]) offs ls) = length offs" for offs ls
    by (induction ls arbitrary: offs) simp_all
  then show ?thesis by (simp add: gen_offs_def MAXBITS_def)
qed


text \<open>The slots of the buckets do not overlap and fit the work area.\<close>

lemma slot_below:
  assumes "1 \<le> l" "l < k" "r < length (bucket lens l (length lens))"
  shows "offset lens l + r < offset lens k"
  using offset_mono [of "Suc l" k lens] assms by (simp add: offset_Suc)

lemma slot_unique:
  assumes "1 \<le> l" "1 \<le> k" "r < length (bucket lens l (length lens))" "q < length (bucket lens k (length lens))"
    and "offset lens l + r = offset lens k + q"
  shows "l = k \<and> r = q"
  using slot_below [of l k r lens] slot_below [of k l q lens] assms by (cases l k rule: linorder_cases) auto

lemma offset_le_length: "offset lens l \<le> length lens"
proof -
  have eq: "(\<Sum>i\<leftarrow>[1..<l]. count_list xs i) = length (filter (\<lambda>x. 1 \<le> x \<and> x < l) xs)" for xs
  proof (induction xs)
    case (Cons x xs)
    have "(\<Sum>i\<leftarrow>[1..<l]. count_list (x # xs) i) = (\<Sum>i\<leftarrow>[1..<l]. of_bool (x = i) + count_list xs i)"
      by (rule arg_cong [where f = sum_list], rule map_cong) simp_all
    also have "\<dots> = (\<Sum>i\<leftarrow>[1..<l]. of_bool (x = i)) + (\<Sum>i\<leftarrow>[1..<l]. count_list xs i)"
      by (rule sum_list_addf)
    also have "(\<Sum>i\<leftarrow>[1..<l]. of_bool (x = i) :: nat) = of_bool (1 \<le> x \<and> x < l)"
      by (induction l) auto
    finally show ?case using Cons by simp
  qed simp
  have "offset lens l = (\<Sum>i\<leftarrow>[1..<l]. count_list lens i)"
    unfolding offset_def by (rule arg_cong [where f = sum_list], rule map_cong) (simp_all add: length_bucket_count)
  also have "\<dots> \<le> length lens" unfolding eq by simp
  finally show ?thesis .
qed

text \<open>What the sort has done after \<open>j\<close> symbols.\<close>

definition sort_inv :: "nat list \<Rightarrow> nat \<Rightarrow> nat \<Rightarrow> nat list \<times> nat list \<Rightarrow> bool" where
  "sort_inv lens W j st \<longleftrightarrow>
     length (fst st) = W \<and> length (snd st) = 16 \<and>
     (\<forall>l. 1 \<le> l \<and> l \<le> 15 \<longrightarrow> snd st ! l = offset lens l + length (bucket lens l j)) \<and>
     (\<forall>l r. 1 \<le> l \<and> l \<le> 15 \<and> r < length (bucket lens l j) \<longrightarrow>
        fst st ! (offset lens l + r) = bucket lens l j ! r)"

lemma bucket_used_less: "j < length lens \<Longrightarrow> length (bucket lens (lens ! j) j) < length (bucket lens (lens ! j) (length lens))"
  using length_bucket_mono [of "Suc j" "length lens" lens "lens ! j"] by (simp add: bucket_Suc)

lemma sort_step_inv:
  assumes inv: "sort_inv lens W j st" and j: "j < length lens" and ok: "\<forall>l\<in>set lens. l \<le> 15"
    and W: "length lens \<le> W"
  shows "sort_inv lens W (Suc j) (sort_step lens st j)"
proof (cases "lens ! j = 0")
  case True
  then have "bucket lens l (Suc j) = bucket lens l j" if "1 \<le> l" for l using that True by (simp add: bucket_Suc)
  then show ?thesis using inv True by (auto simp: sort_inv_def sort_step_def case_prod_unfold)
next
  case False
  let ?l = "lens ! j"
  have l: "1 \<le> ?l" "?l \<le> 15" using False j ok by (auto simp: Suc_le_eq)
  have len: "length (fst st) = W" "length (snd st) = 16" using inv by (simp_all add: sort_inv_def)
  have at: "snd st ! ?l = offset lens ?l + length (bucket lens ?l j)" using inv l by (simp add: sort_inv_def)
  have slot: "offset lens ?l + length (bucket lens ?l j) < W"
    using slot_below [OF l(1) lessI bucket_used_less [OF j]] offset_le_length [of lens "Suc ?l"] W by linarith
  have new: "bucket lens ?l (Suc j) = bucket lens ?l j @ [j]" by (simp add: bucket_Suc)
  have other: "bucket lens k (Suc j) = bucket lens k j" if "k \<noteq> ?l" for k using that by (simp add: bucket_Suc)
  have w: "fst (sort_step lens st j) ! (offset lens k + r) = bucket lens k (Suc j) ! r"
    if k: "1 \<le> k" "k \<le> 15" "r < length (bucket lens k (Suc j))" for k r
  proof (cases "k = ?l \<and> r = length (bucket lens ?l j)")
    case True
    then have "bucket lens k (Suc j) ! r = j" by (simp add: new)
    then show ?thesis using True at slot len False by (simp add: sort_step_def case_prod_unfold)
  next
    case no: False
    then have r: "r < length (bucket lens k j)" using k(3) by (cases "k = ?l") (auto simp: new other)
    then have "r < length (bucket lens k (length lens))"
      using length_bucket_mono [of j "length lens" lens k] j by simp
    then have "offset lens k + r \<noteq> offset lens ?l + length (bucket lens ?l j)"
      using slot_unique [OF k(1) l(1) _ bucket_used_less [OF j]] no by blast
    moreover have "bucket lens k (Suc j) ! r = bucket lens k j ! r"
      using r by (cases "k = ?l") (simp_all add: new other nth_append)
    moreover have "fst st ! (offset lens k + r) = bucket lens k j ! r" using inv k r by (simp add: sort_inv_def)
    ultimately show ?thesis using at False by (simp add: sort_step_def case_prod_unfold)
  qed
  have "snd (sort_step lens st j) ! k = offset lens k + length (bucket lens k (Suc j))" if "1 \<le> k" "k \<le> 15" for k
    using inv that at False len l by (cases "k = ?l") (simp_all add: sort_inv_def sort_step_def case_prod_unfold new other)
  then show ?thesis using w len False by (simp add: sort_inv_def sort_step_def case_prod_unfold)
qed

lemma sort_syms_inv:
  assumes ok: "\<forall>l\<in>set lens. l \<le> 15" and W: "length lens \<le> length work"
  shows "sort_inv lens (length work) (length lens)
    (foldl (sort_step lens) (work, gen_offs (count_lens lens)) [0..<length lens])"
proof -
  have "sort_inv lens (length work) j (foldl (sort_step lens) (work, gen_offs (count_lens lens)) [0..<j])"
    if "j \<le> length lens" for j
    using that
  proof (induction j)
    case 0
    then show ?case using gen_offs_nth [OF ok] by (simp add: sort_inv_def bucket_def)
  next
    case (Suc j)
    then show ?case using sort_step_inv [OF _ _ ok W, of j] by simp
  qed
  then show ?thesis by simp
qed

lemma sorted_upto_slot:
  "i < offset lens L \<Longrightarrow> 1 \<le> L \<Longrightarrow> \<exists>l r. 1 \<le> l \<and> l < L \<and> r < length (bucket lens l (length lens)) \<and> i = offset lens l + r"
proof (induction L)
  case (Suc L)
  show ?case
  proof (cases "i < offset lens L \<and> 1 \<le> L")
    case True
    with Suc.IH obtain l r where "1 \<le> l" "l < L" "r < length (bucket lens l (length lens))" "i = offset lens l + r" by blast
    then have "l < Suc L" by simp
    then show ?thesis using \<open>1 \<le> l\<close> \<open>r < _\<close> \<open>i = _\<close> by blast
  next
    case False
    have "L \<noteq> 0" using Suc.prems(1) by (cases L) simp_all
    then have L: "1 \<le> L" by simp
    then have "offset lens L \<le> i" using False by simp
    then have "i - offset lens L < length (bucket lens L (length lens))" "i = offset lens L + (i - offset lens L)"
      using Suc.prems(1) L by (simp_all add: offset_Suc)
    then show ?thesis using L by blast
  qed
qed simp

text \<open>The sort leaves the symbols in use, by length and then by number, at the front of the work area.\<close>

lemma length_sort_syms [simp]: "length (sort_syms lens cnt work) = length work"
proof -
  have "length (fst (foldl (sort_step lens) st js)) = length (fst st)" for st js
    by (induction js arbitrary: st) (simp_all add: sort_step_def case_prod_unfold)
  then show ?thesis by (simp add: sort_syms_def)
qed

lemma sort_syms_sorted:
  assumes ok: "\<forall>l\<in>set lens. l \<le> 15" and W: "length lens \<le> length work"
  shows "take (offset lens 16) (sort_syms lens (count_lens lens) work) = sorted_upto lens 16"
proof (rule nth_equalityI)
  show "length (take (offset lens 16) (sort_syms lens (count_lens lens) work)) = length (sorted_upto lens 16)"
    using offset_le_length [of lens 16] W by (simp add: length_sorted_upto)
next
  fix i
  assume "i < length (take (offset lens 16) (sort_syms lens (count_lens lens) work))"
  then have i: "i < offset lens 16" by simp
  then obtain l r where lr: "1 \<le> l" "l < 16" "r < length (bucket lens l (length lens))" "i = offset lens l + r"
    using sorted_upto_slot [of i lens 16] by auto
  then have "sort_syms lens (count_lens lens) work ! i = bucket lens l (length lens) ! r"
    using sort_syms_inv [OF ok W] by (simp add: sort_inv_def sort_syms_def)
  then show "take (offset lens 16) (sort_syms lens (count_lens lens) work) ! i = sorted_upto lens 16 ! i"
    using i nth_sorted_upto [OF lr(1-3)] lr(4) by simp
qed


section \<open>The lengths in the order of the sort\<close>

definition lens_upto :: "nat list \<Rightarrow> nat \<Rightarrow> nat list" where
  "lens_upto lens L = map ((!) lens) (sorted_upto lens L)"

lemma bucket_set: "sy \<in> set (bucket lens l j) \<longleftrightarrow> sy < j \<and> lens ! sy = l"
  by (auto simp: bucket_def)

lemma map_bucket: "map ((!) lens) (bucket lens l j) = replicate (length (bucket lens l j)) l"
  by (induction j) (auto simp: bucket_Suc replicate_append_same, simp add: bucket_def)

lemma lens_upto_Suc: "1 \<le> L \<Longrightarrow> lens_upto lens (Suc L) = lens_upto lens L @ replicate (count_list lens L) L"
  by (simp add: lens_upto_def sorted_upto_Suc map_bucket length_bucket_count)

lemma lens_upto_1 [simp]: "lens_upto lens (Suc 0) = []"
  by (simp add: lens_upto_def)

lemma length_lens_upto [simp]: "length (lens_upto lens L) = offset lens L"
  by (simp add: lens_upto_def length_sorted_upto)

lemma lens_upto_set: "x \<in> set (lens_upto lens L) \<Longrightarrow> 1 \<le> x \<and> x < L \<and> x \<in> set lens"
  by (auto simp: lens_upto_def sorted_upto_def bucket_set)

lemma sorted_lens_upto: "1 \<le> L \<Longrightarrow> sorted (lens_upto lens L)"
proof (induction L)
  case (Suc L)
  show ?case
  proof (cases "L = 0")
    case False
    then show ?thesis using Suc lens_upto_set [of _ lens L] by (auto simp: lens_upto_Suc sorted_append less_imp_le)
  qed simp
qed simp

lemma count_lens_upto: "1 \<le> L \<Longrightarrow> count_list (lens_upto lens L) l = (if 1 \<le> l \<and> l < L then count_list lens l else 0)"
proof (induction L)
  case (Suc L)
  show ?case
  proof (cases "L = 0")
    case False
    then show ?thesis using Suc by (auto simp: lens_upto_Suc count_list_replicate less_Suc_eq)
  qed simp
qed simp

text \<open>The counts of the lengths in use.\<close>

definition used_cnt :: "nat list \<Rightarrow> nat \<Rightarrow> nat" where
  "used_cnt lens l = (if l = 0 then 0 else count_list lens l)"

lemma first_code_scaled:
  "1 \<le> L \<Longrightarrow> L \<le> mx \<Longrightarrow>
    (\<Sum>l\<leftarrow>lens_upto lens L. 2 ^ (mx - l)) = 2 ^ (mx - L) * first_code (used_cnt lens) L"
proof (induction L)
  case (Suc L)
  show ?case
  proof (cases "L = 0")
    case True
    then show ?thesis by (simp add: used_cnt_def)
  next
    case False
    have pow: "(2 :: nat) ^ (mx - L) = 2 * 2 ^ (mx - Suc L)"
      using Suc.prems by (metis Suc_diff_Suc Suc_le_lessD power_Suc)
    have "(\<Sum>l\<leftarrow>lens_upto lens (Suc L). 2 ^ (mx - l))
        = 2 ^ (mx - L) * first_code (used_cnt lens) L + count_list lens L * 2 ^ (mx - L)"
      using False Suc by (simp add: lens_upto_Suc sum_list_replicate)
    also have "\<dots> = 2 ^ (mx - Suc L) * first_code (used_cnt lens) (Suc L)"
      unfolding pow using False by (simp add: used_cnt_def algebra_simps)
    finally show ?thesis .
  qed
qed simp

lemma take_lens_upto:
  assumes "1 \<le> l" "l < L" "r \<le> count_list lens l"
  shows "take (offset lens l + r) (lens_upto lens L) = lens_upto lens l @ replicate r l"
  using assms(2)
proof (induction L)
  case (Suc L)
  then have L: "1 \<le> L" using assms(1) by simp
  show ?case
  proof (cases "l = L")
    case True
    then show ?thesis using L assms(3) by (simp add: lens_upto_Suc)
  next
    case False
    have "offset lens l + r \<le> offset lens L"
      using offset_mono [of "Suc l" L lens] assms(1,3) Suc.prems False
      by (simp add: offset_Suc length_bucket_count)
    then show ?thesis using Suc False L by (simp add: lens_upto_Suc)
  qed
qed simp

text \<open>The place of a symbol in the sort, and the canonical code as the start of its interval.\<close>

lemma symbol_slot:
  assumes "sy < length lens" "1 \<le> lens ! sy" "lens ! sy < L"
  defines "k \<equiv> offset lens (lens ! sy) + count_list (take sy lens) (lens ! sy)"
  shows "k < offset lens L" "sorted_upto lens L ! k = sy" "lens_upto lens L ! k = lens ! sy"
proof -
  let ?l = "lens ! sy" and ?r = "count_list (take sy lens) (lens ! sy)"
  have b: "bucket lens ?l (length lens) = bucket lens ?l sy @ sy # filter (\<lambda>x. lens ! x = ?l) [Suc sy..<length lens]"
  proof -
    have "[0..<length lens] = [0..<sy] @ sy # [Suc sy..<length lens]"
      using assms(1) upt_add_eq_append [of 0 sy "length lens - sy"] by (simp add: upt_conv_Cons)
    then show ?thesis by (simp add: bucket_def)
  qed
  have r: "?r = length (bucket lens ?l sy)" using assms(1) by (simp add: length_bucket_count)
  have lt: "?r < length (bucket lens ?l (length lens))" by (simp add: b r)
  show k: "k < offset lens L" unfolding k_def by (rule slot_below [OF assms(2,3) lt])
  show "sorted_upto lens L ! k = sy"
    unfolding k_def nth_sorted_upto [OF assms(2,3) lt] by (simp add: b r nth_append)
  then show "lens_upto lens L ! k = lens ! sy" using k by (simp add: lens_upto_def length_sorted_upto)
qed

lemma start_canon:
  assumes "sy < length lens" "1 \<le> lens ! sy" "lens ! sy \<le> mx" "lens ! sy < L"
  shows "start mx (lens_upto lens L) (offset lens (lens ! sy) + count_list (take sy lens) (lens ! sy))
    = 2 ^ (mx - lens ! sy) * canon_code (used_cnt lens) lens sy"
proof -
  let ?l = "lens ! sy" and ?r = "count_list (take sy lens) (lens ! sy)"
  have r: "?r \<le> count_list lens ?l" by (metis append_take_drop_id count_list_append le_add1)
  note slot = symbol_slot [OF assms(1,2,4)]
  have "start mx (lens_upto lens L) (offset lens ?l + ?r) = (\<Sum>l\<leftarrow>lens_upto lens ?l @ replicate ?r ?l. 2 ^ (mx - l))"
    using slot(1) by (simp only: start_take take_lens_upto [OF assms(2,4) r] less_imp_le length_lens_upto)
  also have "\<dots> = 2 ^ (mx - ?l) * canon_code (used_cnt lens) lens sy"
    using first_code_scaled [OF assms(2,3)] by (simp add: sum_list_replicate canon_code_def algebra_simps)
  finally show ?thesis .
qed

end
