(* ===== verification/Table_Correct.thy ===== *)
theory Table_Correct
  imports Sort_Symbols
begin

text \<open>
  \<open>inflate_table\<close> (\<open>src/src/zlib/inftrees.c\<close>) as a whole.  The lengths given to it are a
  \<open>sorted_code\<close> whenever they are not over-subscribed, so the loop of \<open>Decode_Table\<close> enters every code;
  the codes are the canonical ones that \<open>gen_codes\<close> assigns on the sending side.
\<close>

section \<open>The lengths as a sorted code\<close>

abbreviation max_len :: "nat list \<Rightarrow> nat" where
  "max_len lens \<equiv> find_max (count_lens lens) MAXBITS"

abbreviation min_len :: "nat list \<Rightarrow> nat" where
  "min_len lens \<equiv> find_min (count_lens lens) (max_len lens) 1"

definition lens_fit :: "nat list \<Rightarrow> bool" where
  "lens_fit lens \<longleftrightarrow> (\<forall>l\<in>set lens. l \<le> 15)"

definition code_lens :: "nat list \<Rightarrow> nat list" where
  "code_lens lens = (if lens_fit lens \<and> 0 \<le> code_left (count_lens lens) then lens_upto lens 16 else [])"

lemma max_len_le: "max_len lens \<le> 15"
  using find_max_spec [of "count_lens lens" 15] by (simp add: MAXBITS_def)

lemma count_above_max:
  assumes "lens_fit lens" "max_len lens < l" "l \<le> 15"
  shows "count_list lens l = 0"
proof -
  have "count_lens lens ! l = 0"
    using find_max_spec [of "count_lens lens" 15] assms(2,3) by (simp add: MAXBITS_def)
  then show ?thesis using assms count_lens_nth [of lens l] by (simp add: lens_fit_def)
qed

lemma used_le_max:
  assumes "lens_fit lens" "l \<in> set lens"
  shows "l \<le> max_len lens"
proof (rule ccontr)
  assume "\<not> l \<le> max_len lens"
  then have "count_list lens l = 0" using assms by (intro count_above_max) (auto simp: lens_fit_def)
  then show False using assms(2) by (simp add: count_list_0_iff)
qed

lemma sum_lens_upto: "1 \<le> L \<Longrightarrow> (\<Sum>l\<leftarrow>lens_upto lens L. f l) = (\<Sum>l\<leftarrow>[1..<L]. count_list lens l * f l)"
  for f :: "nat \<Rightarrow> nat"
proof (induction L)
  case (Suc L)
  then show ?case by (cases "L = 0") (simp_all add: lens_upto_Suc sum_list_replicate)
qed simp

lemma count_pos_iff: "0 < count_list xs x \<longleftrightarrow> x \<in> set xs"
  by (metis count_list_0_iff neq0_conv)

lemma int_sum_list: "int (sum_list xs) = (\<Sum>x\<leftarrow>xs. int x)"
  by (induction xs) simp_all

text \<open>The code space the codes take, and what is left of it.\<close>

lemma start_total:
  assumes "lens_fit lens"
  shows "int (start (max_len lens) (lens_upto lens 16) (offset lens 16)) * 2 ^ (15 - max_len lens)
    = 2 ^ 15 - code_left (count_lens lens)"
proof -
  let ?ls = "lens_upto lens 16"
  have "start (max_len lens) ?ls (offset lens 16) * 2 ^ (15 - max_len lens)
      = (\<Sum>l\<leftarrow>?ls. 2 ^ (max_len lens - l) * 2 ^ (15 - max_len lens))"
    using start_take [of "offset lens 16" ?ls] by (simp add: sum_list_mult_const)
  also have "\<dots> = (\<Sum>l\<leftarrow>?ls. 2 ^ (15 - l))"
  proof (rule arg_cong [where f = sum_list], rule map_cong [OF refl])
    fix l assume "l \<in> set ?ls"
    then have "l \<le> max_len lens" using used_le_max [OF assms] lens_upto_set by blast
    then show "(2 :: nat) ^ (max_len lens - l) * 2 ^ (15 - max_len lens) = 2 ^ (15 - l)"
      using max_len_le [of lens] by (simp flip: power_add)
  qed
  also have "\<dots> = (\<Sum>l\<leftarrow>[1..<16]. count_list lens l * 2 ^ (15 - l))"
    by (rule sum_lens_upto) simp
  also have "\<dots> = (\<Sum>l\<leftarrow>[1..<16]. count_lens lens ! l * 2 ^ (15 - l))"
    using assms count_lens_nth [of lens] by (intro arg_cong [where f = sum_list] map_cong) (auto simp: lens_fit_def)
  finally have "int (start (max_len lens) ?ls (offset lens 16) * 2 ^ (15 - max_len lens))
      = int (\<Sum>l\<leftarrow>[1..<16]. count_lens lens ! l * 2 ^ (15 - l))" by simp
  also have "\<dots> = 2 ^ 15 - code_left (count_lens lens)"
    by (simp add: code_left_def int_sum_list o_def del: upt_rec_numeral)
  finally show ?thesis by simp
qed

interpretation sc: sorted_code "max_len lens" "code_lens lens" for lens
proof
  show "sorted (code_lens lens)" by (simp add: code_lens_def sorted_lens_upto)
  show "1 \<le> l \<and> l \<le> max_len lens" if "l \<in> set (code_lens lens)" for l
    using that used_le_max [of lens l] lens_upto_set [of l lens 16] by (auto simp: code_lens_def split: if_splits)
  show "start (max_len lens) (code_lens lens) (length (code_lens lens)) \<le> 2 ^ max_len lens"
  proof (cases "lens_fit lens \<and> 0 \<le> code_left (count_lens lens)")
    case True
    have "(2 :: int) ^ 15 = 2 ^ max_len lens * 2 ^ (15 - max_len lens)"
      using max_len_le [of lens] by (simp flip: power_add)
    then have "int (start (max_len lens) (lens_upto lens 16) (offset lens 16)) * 2 ^ (15 - max_len lens)
        \<le> 2 ^ max_len lens * 2 ^ (15 - max_len lens)"
      using start_total [of lens] True by simp
    then have "int (start (max_len lens) (lens_upto lens 16) (offset lens 16)) \<le> 2 ^ max_len lens" by simp
    then show ?thesis using True by (simp add: code_lens_def flip: of_nat_power)
  qed (auto simp: code_lens_def)
qed

lemma mem_code_lens:
  assumes "lens_fit lens" "0 \<le> code_left (count_lens lens)"
  shows "l \<in> set (code_lens lens) \<longleftrightarrow> 1 \<le> l \<and> l \<in> set lens"
proof -
  have "l \<in> set (lens_upto lens 16) \<longleftrightarrow> count_list (lens_upto lens 16) l \<noteq> 0"
    by (simp add: count_pos_iff)
  also have "\<dots> \<longleftrightarrow> 1 \<le> l \<and> l < 16 \<and> l \<in> set lens"
    by (auto simp: count_lens_upto count_pos_iff)
  also have "\<dots> \<longleftrightarrow> 1 \<le> l \<and> l \<in> set lens" using assms(1) by (auto simp: lens_fit_def)
  finally show ?thesis using assms by (simp add: code_lens_def)
qed

lemma max_len_used:
  assumes "lens_fit lens" "max_len lens \<noteq> 0"
  shows "max_len lens \<in> set lens"
proof -
  have "count_lens lens ! max_len lens \<noteq> 0"
    using find_max_spec [of "count_lens lens" MAXBITS] assms(2) by simp
  then show ?thesis
    using count_lens_nth [of lens "max_len lens"] assms(1) max_len_le [of lens]
    by (simp add: lens_fit_def count_pos_iff)
qed

lemma min_len_used:
  assumes "lens_fit lens" "max_len lens \<noteq> 0"
  shows "1 \<le> min_len lens" "min_len lens \<le> max_len lens" "min_len lens \<in> set lens"
    and "l \<in> set lens \<Longrightarrow> 1 \<le> l \<Longrightarrow> min_len lens \<le> l"
proof -
  note m = find_min_spec [of 1 "max_len lens" "count_lens lens"]
  have cnt: "count_lens lens ! l = 0 \<longleftrightarrow> l \<notin> set lens" if "l \<le> 15" for l
    using that assms(1) count_lens_nth [of lens l] by (simp add: lens_fit_def count_list_0_iff)
  show lo: "1 \<le> min_len lens" and hi: "min_len lens \<le> max_len lens" using m assms(2) by simp_all
  show "min_len lens \<in> set lens"
    using m assms max_len_used [OF assms] hi max_len_le [of lens] cnt [of "min_len lens"]
    by (cases "min_len lens = max_len lens") auto
  show "min_len lens \<le> l" if "l \<in> set lens" "1 \<le> l"
  proof (rule ccontr)
    assume "\<not> min_len lens \<le> l"
    then have "count_lens lens ! l = 0" using m that(2) assms(2) by simp
    then show False using cnt [of l] that(1) assms(1) by (auto simp: lens_fit_def)
  qed
qed

lemma sorted_ends:
  assumes "sorted ls" "x \<in> set ls"
  shows "(\<And>y. y \<in> set ls \<Longrightarrow> x \<le> y) \<Longrightarrow> ls ! 0 = x" "(\<And>y. y \<in> set ls \<Longrightarrow> y \<le> x) \<Longrightarrow> ls ! (length ls - 1) = x"
proof -
  obtain i where i: "i < length ls" "ls ! i = x" using assms(2) by (auto simp: in_set_conv_nth)
  show "ls ! 0 = x" if le: "\<And>y. y \<in> set ls \<Longrightarrow> x \<le> y"
    using sorted_nth_mono [OF assms(1), of 0 i] le [of "ls ! 0"] i nth_mem [of 0 ls]
      length_pos_if_in_set [OF assms(2)] by (intro antisym) auto
  show "ls ! (length ls - 1) = x" if le: "\<And>y. y \<in> set ls \<Longrightarrow> y \<le> x"
    using sorted_nth_mono [OF assms(1), of i "length ls - 1"] le [of "ls ! (length ls - 1)"] i
      nth_mem [of "length ls - 1" ls] length_pos_if_in_set [OF assms(2)] by (intro antisym) auto
qed

lemma code_lens_ends:
  assumes "lens_fit lens" "0 \<le> code_left (count_lens lens)" "max_len lens \<noteq> 0"
  shows "code_lens lens \<noteq> []" "code_lens lens ! 0 = min_len lens"
    and "code_lens lens ! (length (code_lens lens) - 1) = max_len lens"
proof -
  have mem: "min_len lens \<in> set (code_lens lens)" "max_len lens \<in> set (code_lens lens)"
    using assms min_len_used [OF assms(1,3)] max_len_used [OF assms(1,3)] by (simp_all add: mem_code_lens)
  then show "code_lens lens \<noteq> []" by auto
  show "code_lens lens ! 0 = min_len lens"
    using mem min_len_used(4) [OF assms(1,3)]
    by (intro sorted_ends(1) [OF sc.lens_sorted]) (simp_all add: mem_code_lens [OF assms(1,2)])
  show "code_lens lens ! (length (code_lens lens) - 1) = max_len lens"
    using mem used_le_max [OF assms(1)]
    by (intro sorted_ends(2) [OF sc.lens_sorted]) (simp_all add: mem_code_lens [OF assms(1,2)])
qed

text \<open>The bits of the canonical code of a symbol are the ones its interval covers.\<close>

lemma msb_bits_rv: "msb_bits c l = nbits l (rv l c)"
  by (simp add: msb_bits_def nbits_def [symmetric])

lemma covers_canon:
  assumes "lens_fit lens" "0 \<le> code_left (count_lens lens)" "sy < length lens" "lens ! sy \<noteq> 0"
  defines "k \<equiv> offset lens (lens ! sy) + count_list (take sy lens) (lens ! sy)"
  shows "k < length (code_lens lens)" "code_lens lens ! k = lens ! sy" "sorted_upto lens 16 ! k = sy"
    and "covers (max_len lens) (code_lens lens) k v \<longleftrightarrow>
      nbits (lens ! sy) v = msb_bits (canon_code (used_cnt lens) lens sy) (lens ! sy)"
proof -
  let ?l = "lens ! sy" and ?mx = "max_len lens" and ?c = "canon_code (used_cnt lens) lens sy"
  have mem: "?l \<in> set lens" using assms(3) by simp
  then have l: "1 \<le> ?l" "?l \<le> ?mx" "?l < 16" using assms(1,4) used_le_max [of lens ?l] max_len_le [of lens] by auto
  have cl: "code_lens lens = lens_upto lens 16" using assms(1,2) by (simp add: code_lens_def)
  note slot = symbol_slot [OF assms(3) l(1,3), folded k_def]
  show "k < length (code_lens lens)" "code_lens lens ! k = ?l" "sorted_upto lens 16 ! k = sy"
    using slot by (simp_all add: cl)
  have "huff ?mx (code_lens lens) k = rv ?mx (2 ^ (?mx - ?l) * ?c)"
    using start_canon [OF assms(3) l] by (simp add: huff_def cl k_def)
  also have "\<dots> = rv ?l ?c" using rv_aligned [OF l(2), of "2 ^ (?mx - ?l) * ?c"] by simp
  finally have "covers ?mx (code_lens lens) k v \<longleftrightarrow> v mod 2 ^ ?l = rv ?l ?c"
    using slot(3) by (simp add: covers_def cl)
  also have "\<dots> \<longleftrightarrow> nbits ?l v = nbits ?l (rv ?l ?c)"
    by (metis bits_nat_nbits nbits_mod order_refl mod_less rv_less)
  finally show "covers ?mx (code_lens lens) k v \<longleftrightarrow> nbits ?l v = msb_bits ?c ?l" by (simp add: msb_bits_rv)
qed


section \<open>The size of a table\<close>

text \<open>The symbols with codes longer than the root, the root bits of their codes, and the entries of the root table and of
  one sub-table for each of these, which has as many bits as are left of the longest code that begins with them.\<close>

definition long_syms :: "nat list \<Rightarrow> nat \<Rightarrow> nat list" where
  "long_syms lens root = filter (\<lambda>sy. root < lens ! sy) [0..<length lens]"

definition code_prefix :: "nat list \<Rightarrow> nat \<Rightarrow> nat \<Rightarrow> nat" where
  "code_prefix lens root sy = canon_code (used_cnt lens) lens sy div 2 ^ (lens ! sy - root)"

definition longest :: "nat list \<Rightarrow> nat \<Rightarrow> nat \<Rightarrow> nat" where
  "longest lens root p = Max (set (map (\<lambda>sy. lens ! sy) (filter (\<lambda>sy. code_prefix lens root sy = p) (long_syms lens root))))"

definition table_size :: "nat list \<Rightarrow> nat \<Rightarrow> nat" where
  "table_size lens root =
     2 ^ root + (\<Sum>p\<in>set (map (code_prefix lens root) (long_syms lens root)). 2 ^ (longest lens root p - root))"

definition code_index :: "nat list \<Rightarrow> nat \<Rightarrow> nat" where
  "code_index lens sy = offset lens (lens ! sy) + count_list (take sy lens) (lens ! sy)"

lemma bucket_nth_count:
  assumes "r < length (bucket lens l (length lens))"
  shows "count_list (take (bucket lens l (length lens) ! r) lens) l = r"
proof -
  let ?b = "bucket lens l (length lens)"
  define sy where "sy = ?b ! r"
  have mem: "sy < length lens" "lens ! sy = l" using nth_mem [OF assms] by (auto simp: bucket_def sy_def)
  have upt: "[0..<length lens] = [0..<sy] @ sy # [Suc sy..<length lens]"
    using mem(1) upt_add_eq_append [of 0 sy "length lens - sy"] by (simp add: upt_conv_Cons)
  have split: "?b = bucket lens l sy @ sy # filter (\<lambda>x. lens ! x = l) [Suc sy..<length lens]"
    unfolding bucket_def using mem(2) by (subst upt) simp
  then have "?b ! length (bucket lens l sy) = sy" by (metis nth_append_length)
  moreover have "length (bucket lens l sy) < length ?b" by (subst split) simp
  moreover have "distinct ?b" by (simp add: bucket_def)
  ultimately have "length (bucket lens l sy) = r" using assms sy_def nth_eq_iff_index_eq by metis
  then show ?thesis using length_bucket_count [of sy lens l] mem(1) by (simp add: sy_def)
qed

lemma code_index_onto:
  assumes "i < offset lens 16"
  shows "\<exists>sy. sy < length lens \<and> lens ! sy \<noteq> 0 \<and> code_index lens sy = i"
proof -
  obtain l r where r: "1 \<le> l" "l < 16" "r < length (bucket lens l (length lens))" "i = offset lens l + r"
    using sorted_upto_slot [OF assms] by auto
  let ?sy = "bucket lens l (length lens) ! r"
  have "?sy < length lens" "lens ! ?sy = l" using nth_mem [OF r(3)] by (auto simp: bucket_def)
  then show ?thesis
    using r bucket_nth_count [OF r(3)] by (intro exI [of _ ?sy]) (simp add: code_index_def)
qed

text \<open>This is the space that the loop uses.\<close>

lemma table_size_space:
  assumes fit: "lens_fit lens" "0 \<le> code_left (count_lens lens)" and root: "root \<le> max_len lens"
  shows "table_size lens root = space_upto root (max_len lens) (code_lens lens) (length (code_lens lens))"
proof -
  let ?mx = "max_len lens" and ?ls = "code_lens lens" and ?k = "code_index lens"
  have cl: "?ls = lens_upto lens 16" using fit by (simp add: code_lens_def)
  have k: "?k sy < length ?ls" "?ls ! ?k sy = lens ! sy"
    if "sy < length lens" "lens ! sy \<noteq> 0" for sy
    using covers_canon [OF fit that] by (simp_all add: code_index_def)
  have pre: "prefix_of root ?mx ?ls (?k sy) = code_prefix lens root sy" if sy: "sy < length lens" "root < lens ! sy" for sy
  proof -
    have l: "1 \<le> lens ! sy" "lens ! sy \<le> ?mx" "lens ! sy < 16"
      using sy used_le_max [OF fit(1), of "lens ! sy"] max_len_le [of lens] by auto
    have "(2 :: nat) ^ (?mx - root) = 2 ^ (?mx - lens ! sy) * 2 ^ (lens ! sy - root)"
      using sy(2) l(2) by (simp flip: power_add)
    then show ?thesis
      using start_canon [OF sy(1) l] by (simp add: prefix_of_def code_prefix_def code_index_def cl)
  qed
  have set: "{i. i < length ?ls \<and> root < ?ls ! i \<and> P (prefix_of root ?mx ?ls i)} =
      ?k ` {sy \<in> set (long_syms lens root). P (code_prefix lens root sy)}" for P
  proof (intro set_eqI iffI)
    fix i assume i: "i \<in> {i. i < length ?ls \<and> root < ?ls ! i \<and> P (prefix_of root ?mx ?ls i)}"
    then obtain sy where sy: "sy < length lens" "lens ! sy \<noteq> 0" "?k sy = i"
      using code_index_onto [of i lens] by (auto simp: cl)
    then show "i \<in> ?k ` {sy \<in> set (long_syms lens root). P (code_prefix lens root sy)}"
      using i k [OF sy(1,2)] pre [OF sy(1)] by (intro image_eqI [of _ _ sy]) (auto simp: long_syms_def)
  next
    fix i assume "i \<in> ?k ` {sy \<in> set (long_syms lens root). P (code_prefix lens root sy)}"
    then obtain sy where "sy < length lens" "root < lens ! sy" "P (code_prefix lens root sy)" "i = ?k sy"
      by (auto simp: long_syms_def)
    then show "i \<in> {i. i < length ?ls \<and> root < ?ls ! i \<and> P (prefix_of root ?mx ?ls i)}"
      using k [of sy] pre [of sy] by simp
  qed
  have long: "sy < length lens \<and> root < lens ! sy" if "sy \<in> set (long_syms lens root)" for sy
    using that by (simp add: long_syms_def)
  have bits: "sub_bits root ?mx ?ls p = longest lens root p - root" for p
  proof -
    have "(\<lambda>i. ?ls ! i) ` {i. i < length ?ls \<and> root < ?ls ! i \<and> prefix_of root ?mx ?ls i = p} =
        (\<lambda>i. ?ls ! i) ` ?k ` {sy \<in> set (long_syms lens root). code_prefix lens root sy = p}"
      by (simp only: set [of "\<lambda>q. q = p"])
    also have "\<dots> = (\<lambda>sy. lens ! sy) ` {sy \<in> set (long_syms lens root). code_prefix lens root sy = p}"
      unfolding image_image by (intro image_cong) (use k(2) long in force)+
    finally show ?thesis by (simp add: sub_bits_def longest_def)
  qed
  have "prefix_of root ?mx ?ls ` {i. i < length ?ls \<and> root < ?ls ! i} = prefix_of root ?mx ?ls ` ?k ` set (long_syms lens root)"
    using set [of "\<lambda>q. True"] by simp
  also have "\<dots> = code_prefix lens root ` set (long_syms lens root)"
    unfolding image_image using pre long by (intro image_cong) auto
  finally show ?thesis by (simp add: table_size_def space_upto_def bits)
qed

section \<open>What the loop does not touch\<close>

lemma fill_loop_take: "q \<le> base \<Longrightarrow> take q (fill_loop tab base k here fill) = take q tab"
proof (induction tab base k here fill rule: fill_loop.induct)
  case (1 tab base k here fill)
  then show ?case by (subst fill_loop.simps) (simp add: Let_def take_update_cancel)
qed

lemma table_loop_take:
  "table_loop ty lens work off root mx fuel t = Some r \<Longrightarrow> off \<le> t_next t \<Longrightarrow>
    take off (case r of Inl tab \<Rightarrow> tab | Inr t' \<Rightarrow> t_tab t') = take off (t_tab t) \<and>
    (case r of Inl tab \<Rightarrow> True | Inr t' \<Rightarrow> off \<le> t_next t')"
proof (induction ty lens work off root mx fuel t rule: table_loop.induct)
  case (1 ty lens work off root mx t)
  then show ?case by simp
next
  case (2 ty lens work off root mx fuel t)
  let ?e = "enter_code ty work t"
  have e: "take off (t_tab ?e) = take off (t_tab t)" "off \<le> t_next ?e"
    using "2.prems"(2) by (simp_all add: enter_code_def Let_def fill_loop_take)
  show ?case
  proof (cases "t_count ?e ! t_len ?e = 0 \<and> t_len ?e = mx")
    case True
    then have "r = Inr ?e" using "2.prems"(1) unfolding table_loop.simps Let_def if_P [OF True] by simp
    then show ?thesis using e by simp
  next
    case no: False
    define u where "u = (if t_count ?e ! t_len ?e = 0 then ?e\<lparr>t_len := lens ! (work ! t_sym ?e)\<rparr> else ?e)"
    have u: "t_tab u = t_tab ?e" "t_next u = t_next ?e" by (simp_all add: u_def)
    have step: "(if t_len u > root \<and> Some (take_bit root (t_huff u)) \<noteq> t_low u then
          (case new_subtable ty off root mx u of None \<Rightarrow> Some (Inl (t_tab u))
           | Some t \<Rightarrow> table_loop ty lens work off root mx fuel t)
        else table_loop ty lens work off root mx fuel u) = Some r"
      using "2.prems"(1) no unfolding table_loop.simps Let_def u_def by (simp only: if_False)
    show ?thesis
    proof (cases "t_len u > root \<and> Some (take_bit root (t_huff u)) \<noteq> t_low u")
      case True
      show ?thesis
      proof (cases "new_subtable ty off root mx u")
        case None
        then show ?thesis using step True e u by auto
      next
        case (Some w)
        then have w: "take off (t_tab w) = take off (t_tab u)" "off \<le> t_next w"
          using e u by (auto simp: new_subtable_def Let_def split: if_splits)
        have "table_loop ty lens work off root mx fuel w = Some r" using step True Some by simp
        from "2.IH"(1) [OF refl no u_def True Some this w(2)] show ?thesis using w e u by simp
      qed
    next
      case False
      then have "table_loop ty lens work off root mx fuel u = Some r" using step by (simp only: if_False)
      from "2.IH"(2) [OF refl no u_def False this] show ?thesis using e u by simp
    qed
  qed
qed

section \<open>The result of inflate_table\<close>

text \<open>What the callers provide: lengths of at most 15, a work area of one slot per symbol and room for
  the table: \<open>ENOUGH_LENS\<close>, \<open>ENOUGH_DISTS\<close>, or, for the code length code, a root table as wide as the
  longest code.\<close>

definition table_room :: "codetype \<Rightarrow> nat list \<Rightarrow> code list \<Rightarrow> nat \<Rightarrow> nat \<Rightarrow> nat list \<Rightarrow> bool" where
  "table_room ty lens tab off w work \<longleftrightarrow>
     lens_fit lens \<and> length lens \<le> length work \<and> 1 \<le> w \<and>
     (case ty of CODES \<Rightarrow> max_len lens \<le> w \<and> off + 2 ^ w \<le> length tab
      | LENS \<Rightarrow> off + ENOUGH_LENS \<le> length tab | DISTS \<Rightarrow> off + ENOUGH_DISTS \<le> length tab)"

definition root_bits :: "nat list \<Rightarrow> nat \<Rightarrow> nat" where
  "root_bits lens w = max (min w (max_len lens)) (min_len lens)"

lemma root_bits_range:
  assumes "lens_fit lens" "max_len lens \<noteq> 0" "1 \<le> w"
  shows "1 \<le> root_bits lens w" "root_bits lens w \<le> max_len lens" "min_len lens \<le> root_bits lens w"
  using min_len_used [OF assms(1,2)] assms by (auto simp: root_bits_def)

lemma root_bits_eq:
  "(if (if w > mx then mx else w) < mn then mn else (if w > mx then mx else w)) = max (min w mx) mn"
  for w mx mn :: nat
  by (simp add: max_def min_def)

lemma found_mono:
  "found ty sy l tab off root lim v \<Longrightarrow> lim \<le> lim' \<Longrightarrow> lim' \<le> 65535 \<Longrightarrow> found ty sy l tab off root lim' v"
  unfolding found_def by (simp split: if_splits) (meson le_trans)

definition table_start :: "nat list \<Rightarrow> code list \<Rightarrow> nat \<Rightarrow> nat \<Rightarrow> table_state" where
  "table_start lens tab off w =
     \<lparr>t_tab = tab, t_count = count_lens lens, t_huff = 0, t_sym = 0, t_len = min_len lens, t_next = off,
      t_curr = root_bits lens w, t_drop = 0, t_low = None, t_used = 2 ^ root_bits lens w\<rparr>"

lemma room_space:
  assumes room: "table_room ty lens tab off w work" and used: "max_len lens \<noteq> 0"
    and start: "\<not> no_space ty (2 ^ root_bits lens w)"
  shows "off + 2 ^ root_bits lens w \<le> length tab" "(2 :: nat) ^ root_bits lens w \<le> 65535"
    and "root_bits lens w < max_len lens \<Longrightarrow> \<not> no_space ty u \<Longrightarrow> off + u \<le> length tab \<and> u \<le> 65535"
proof -
  have fit: "lens_fit lens" "1 \<le> w" using room by (simp_all add: table_room_def)
  note rb = root_bits_range [OF fit(1) used fit(2)]
  have "(2 :: nat) ^ root_bits lens w \<le> 2 ^ 15"
    using rb(2) max_len_le [of lens] by (intro power_increasing) simp_all
  then show "(2 :: nat) ^ root_bits lens w \<le> 65535" by simp
  show "off + 2 ^ root_bits lens w \<le> length tab"
  proof (cases ty)
    case CODES
    then have "root_bits lens w \<le> w" using room min_len_used(2) [OF fit(1) used]
      by (simp add: table_room_def root_bits_def)
    then have "(2 :: nat) ^ root_bits lens w \<le> 2 ^ w" by (simp add: power_increasing)
    then show ?thesis using room CODES unfolding table_room_def by (simp only: codetype.case) linarith
  qed (use room start in \<open>auto simp: table_room_def no_space_def ENOUGH_LENS_def ENOUGH_DISTS_def\<close>)
  show "off + u \<le> length tab \<and> u \<le> 65535" if "root_bits lens w < max_len lens" "\<not> no_space ty u"
    using that room by (cases ty) (auto simp: table_room_def no_space_def ENOUGH_LENS_def ENOUGH_DISTS_def root_bits_def)
qed


lemma rv_0 [simp]: "rv m 0 = 0"
proof -
  have "nbits m 0 = replicate m False" by (rule nth_equalityI) simp_all
  then show ?thesis by (simp add: rv_def)
qed

lemma start_inv:
  assumes room: "table_room ty lens tab off w work" and used: "max_len lens \<noteq> 0"
    and left: "0 \<le> code_left (count_lens lens)" and start: "\<not> no_space ty (2 ^ root_bits lens w)"
  shows "loop_inv ty work' (max_len lens) (code_lens lens) off (root_bits lens w) (length tab) 0 0 (table_start lens tab off w)"
proof -
  have fit: "lens_fit lens" "1 \<le> w" using room by (simp_all add: table_room_def)
  have cnt: "count_lens lens ! j = count_list (code_lens lens) j" if "1 \<le> j" "j \<le> 15" for j
    using that fit left count_lens_nth [of lens j] by (simp add: code_lens_def count_lens_upto lens_fit_def)
  show ?thesis
    using cnt room_space(1,2) [OF room used start] root_bits_range [OF fit(1) used fit(2)]
      code_lens_ends(2) [OF fit(1) left used]
    by (simp add: loop_inv_def base_inv_def cur_table_def done_inv_def room_inv_def table_start_def huff_def)
qed

text \<open>The one incomplete code that is accepted: a single symbol, of length 1.\<close>

lemma single_code:
  assumes fit: "lens_fit lens" and left: "0 < code_left (count_lens lens)" and used: "max_len lens = 1"
  shows "code_lens lens = [1]"
proof -
  have cl: "code_lens lens = lens_upto lens 16" using fit left by (simp add: code_lens_def)
  have ones: "l = 1" if "l \<in> set (code_lens lens)" for l using sc.lens_range [OF that] used by simp
  have "(\<Sum>l\<leftarrow>code_lens lens. 2 ^ (1 - l)) = length (code_lens lens)"
  proof -
    have "(\<forall>l\<in>set xs. l = 1) \<Longrightarrow> (\<Sum>l\<leftarrow>xs. 2 ^ (1 - l)) = length xs" for xs :: "nat list"
      by (induction xs) simp_all
    then show ?thesis using ones by blast
  qed
  then have "start 1 (code_lens lens) (length (code_lens lens)) = length (code_lens lens)"
    by (simp add: start_take)
  then have "int (length (code_lens lens)) * 2 ^ 14 < 2 ^ 15"
    using start_total [OF fit] left used by (simp add: cl)
  then have "length (code_lens lens) < 2" by simp
  moreover have "code_lens lens \<noteq> []" using code_lens_ends(1) [OF fit] left used by simp
  ultimately have "length (code_lens lens) = 1" by (cases "code_lens lens") auto
  then show ?thesis using ones by (cases "code_lens lens") auto
qed

lemma start_complete:
  assumes fit: "lens_fit lens" and left: "code_left (count_lens lens) = 0"
  shows "start (max_len lens) (code_lens lens) (length (code_lens lens)) = 2 ^ max_len lens"
proof -
  have "(2 :: int) ^ 15 = 2 ^ max_len lens * 2 ^ (15 - max_len lens)"
    using max_len_le [of lens] by (simp flip: power_add)
  then have "int (start (max_len lens) (code_lens lens) (length (code_lens lens))) * 2 ^ (15 - max_len lens)
      = 2 ^ max_len lens * 2 ^ (15 - max_len lens)"
    using start_total [OF fit] fit left by (simp add: code_lens_def)
  then have "int (start (max_len lens) (code_lens lens) (length (code_lens lens))) = int (2 ^ max_len lens)" by simp
  then show ?thesis by (simp only: of_nat_eq_iff)
qed

lemma loop_result:
  assumes room: "table_room ty lens tab off w work" and used: "max_len lens \<noteq> 0"
    and left: "0 \<le> code_left (count_lens lens)" and ok: "code_left (count_lens lens) = 0 \<or> max_len lens = 1" and start: "\<not> no_space ty (2 ^ root_bits lens w)"
  defines "work' \<equiv> sort_syms lens (count_lens lens) work" and "entries \<equiv> table_size lens (root_bits lens w)"
  shows "\<exists>r. table_loop ty lens work' off (root_bits lens w) (max_len lens) (length lens) (table_start lens tab off w) = Some r \<and>
    (case r of Inl tab' \<Rightarrow> length tab' = length tab \<and> take off tab' = take off tab \<and> no_space ty entries
     | Inr t \<Rightarrow> (\<exists>p. base_inv (max_len lens) (code_lens lens) off (length tab) (length (code_lens lens)) t \<and>
         cur_table (max_len lens) off (root_bits lens w) p t \<and>
         done_inv ty work' (max_len lens) (code_lens lens) off (root_bits lens w) p (length (code_lens lens)) t) \<and>
         t_len t = max_len lens \<and> take off (t_tab t) = take off tab \<and> off \<le> t_next t \<and>
         t_used t = entries \<and> \<not> no_space ty entries)"
proof -
  have fit: "lens_fit lens" "1 \<le> w" "length lens \<le> length work" using room by (simp_all add: table_room_def)
  have cl: "code_lens lens = lens_upto lens 16" using fit left by (simp add: code_lens_def)
  note rb = root_bits_range [OF fit(1) used fit(2)]
  note ends = code_lens_ends [OF fit(1) left used]
  have work: "work' ! i = sorted_upto lens 16 ! i" if "i < offset lens 16" for i
  proof -
    have "take (offset lens 16) work' = sorted_upto lens 16"
      using sort_syms_sorted [of lens work] fit by (simp add: work'_def lens_fit_def)
    then show ?thesis using nth_take [OF that, of work'] by simp
  qed
  have lens: "lens ! (work' ! i) = code_lens lens ! i" if "i < length (code_lens lens)" for i
    using that work [of i] by (simp add: cl lens_upto_def length_sorted_upto)
  have fuel: "length (code_lens lens) \<le> 0 + length lens" using offset_le_length [of lens 16] by (simp add: cl)
  have "0 < length (code_lens lens)" using ends(1) by simp
  have full: "start (max_len lens) (code_lens lens) (length (code_lens lens)) = 2 ^ max_len lens"
    if "root_bits lens w < max_len lens"
    using ok that rb(1) start_complete [OF fit(1)] by auto
  have "\<not> root_bits lens w < code_lens lens ! 0" using ends(2) rb(3) by simp
  then have "space_upto (root_bits lens w) (max_len lens) (code_lens lens) (Suc 0) = 2 ^ root_bits lens w"
    by (subst space_upto_same) (simp_all add: space_upto_def)
  then have used': "t_used (table_start lens tab off w) =
      space_upto (root_bits lens w) (max_len lens) (code_lens lens) (Suc 0)" "\<not> no_space ty (t_used (table_start lens tab off w))"
    using start by (simp_all add: table_start_def)
  note entries = table_size_space [OF fit(1) left rb(2), folded entries_def]
  from sc.table_loop_correct [OF start_inv [OF room used left start] \<open>0 < length (code_lens lens)\<close> fuel max_len_le rb(2,1)
      room_space(1) [OF room used start] ends(3) lens room_space(3) [OF room used start]
      full used']
  obtain r where r: "table_loop ty lens work' off (root_bits lens w) (max_len lens) (length lens) (table_start lens tab off w) = Some r"
    and inv: "case r of Inl tab' \<Rightarrow> length tab' = length tab \<and> no_space ty entries
     | Inr t \<Rightarrow> (\<exists>p. base_inv (max_len lens) (code_lens lens) off (length tab) (length (code_lens lens)) t \<and>
         cur_table (max_len lens) off (root_bits lens w) p t \<and>
         done_inv ty work' (max_len lens) (code_lens lens) off (root_bits lens w) p (length (code_lens lens)) t \<and>
         t_len t = max_len lens) \<and> t_used t = entries \<and> \<not> no_space ty (t_used t)" unfolding entries by blast
  have "off \<le> t_next (table_start lens tab off w)" by (simp add: table_start_def)
  from table_loop_take [OF r this] have "take off (case r of Inl tab \<Rightarrow> tab | Inr t' \<Rightarrow> t_tab t') = take off tab \<and>
      (case r of Inl tab \<Rightarrow> True | Inr t' \<Rightarrow> off \<le> t_next t')" by (simp add: table_start_def)
  then show ?thesis using r inv by (cases r) auto
qed


text \<open>The code left when the loop ends.\<close>

lemma end_huff:
  assumes fit: "lens_fit lens" and left: "0 \<le> code_left (count_lens lens)"
    and ok: "code_left (count_lens lens) = 0 \<or> max_len lens = 1"
  shows "huff (max_len lens) (code_lens lens) (length (code_lens lens)) =
    (if code_left (count_lens lens) = 0 then 0 else 1)"
proof (cases "code_left (count_lens lens) = 0")
  case True
  then have "start (max_len lens) (code_lens lens) (length (code_lens lens)) = 2 ^ max_len lens"
    by (rule start_complete [OF fit])
  then have "huff (max_len lens) (code_lens lens) (length (code_lens lens)) = rv (max_len lens) (2 ^ max_len lens mod 2 ^ max_len lens)"
    unfolding huff_def by (simp only: rv_mod)
  then show ?thesis using True by simp
next
  case False
  then have mx: "max_len lens = 1" and "code_lens lens = [1]" using ok left single_code [OF fit] by auto
  then have "huff (max_len lens) (code_lens lens) (length (code_lens lens)) = rv 1 1"
    by (simp add: huff_def start_def)
  then show ?thesis using False by (simp add: rv_def nbits_def bit_0)
qed

definition table_refused :: "codetype \<Rightarrow> nat list \<Rightarrow> bool" where
  "table_refused ty lens \<longleftrightarrow> max_len lens \<noteq> 0 \<and>
     (code_left (count_lens lens) < 0 \<or> code_left (count_lens lens) > 0 \<and> (ty = CODES \<or> max_len lens \<noteq> 1))"

lemma inflate_table_cases:
  "inflate_table ty lens tab off w work =
    (let error = (\<lambda>r tab work. Some \<lparr>r_ret = r, r_tab = tab, r_next = off, r_bits = w, r_work = work\<rparr>);
         work' = sort_syms lens (count_lens lens) work; root = root_bits lens w in
     if max_len lens = 0 then
       Some \<lparr>r_ret = 0, r_tab = tab[off := invalid_code 1, off + 1 := invalid_code 1],
             r_next = off + 2, r_bits = 1, r_work = work\<rparr>
     else if table_refused ty lens then error (-1) tab work
     else if no_space ty (2 ^ root) then error 1 tab work'
     else (case table_loop ty lens work' off root (max_len lens) (length lens) (table_start lens tab off w) of
             None \<Rightarrow> None
           | Some (Inl tab) \<Rightarrow> error 1 tab work'
           | Some (Inr t) \<Rightarrow>
               Some \<lparr>r_ret = 0,
                 r_tab = (if t_huff t \<noteq> 0
                          then (t_tab t)[t_next t + t_huff t := invalid_code (t_len t - t_drop t)] else t_tab t),
                 r_next = off + t_used t, r_bits = root, r_work = work'\<rparr>))"
proof (cases "max_len lens = 0")
  case True
  then show ?thesis by (simp add: inflate_table_def)
next
  case False
  let ?bad = "code_left (count_lens lens) > 0 \<and> (ty = CODES \<or> max_len lens \<noteq> 1)"
  have refused: "table_refused ty lens \<longleftrightarrow> code_left (count_lens lens) < 0 \<or> ?bad"
    using False by (simp add: table_refused_def)
  show ?thesis
  proof (cases "code_left (count_lens lens) < 0")
    case True
    then show ?thesis
      unfolding inflate_table_def Let_def root_bits_eq check_left_correct if_not_P [OF False] if_P [OF True] refused
      by simp
  next
    case left: False
    show ?thesis
      unfolding inflate_table_def Let_def root_bits_eq check_left_correct if_not_P [OF False] if_not_P [OF left]
        option.case root_bits_def [symmetric] refused table_start_def [symmetric]
      using left by (simp only: simp_thms)
  qed
qed


lemma invalid_write_harmless:
  assumes cur: "cur_table mx off root p t" and "root \<le> mx" "mx = 1" "1 \<le> root" "ls = [1]" "found ty sy 1 (t_tab t) off root lim v"
    and "covers mx ls 0 v"
  shows "found ty sy 1 ((t_tab t)[t_next t + 1 := x]) off root lim v"
proof -
  have "t_drop t = 0" "root = 1" using assms by (auto simp: cur_table_def split: if_splits)
  then have "t_next t = off" using cur by (simp add: cur_table_def)
  moreover have "v mod 2 = 0" using assms(3,5,7) by (simp add: covers_def huff_def)
  ultimately show ?thesis using assms(6) \<open>root = 1\<close> by (simp add: found_def)
qed

lemma inflate_table_result:
  assumes room: "table_room ty lens tab off w work"
  shows "\<exists>r. inflate_table ty lens tab off w work = Some r \<and> r_ret r \<in> {0, -1, 1} \<and>
    (r_ret r = -1 \<longleftrightarrow> table_refused ty lens) \<and>
    (r_ret r = 1 \<longleftrightarrow> max_len lens \<noteq> 0 \<and> \<not> table_refused ty lens \<and> no_space ty (table_size lens (root_bits lens w))) \<and>
    length (r_tab r) = length tab \<and> take off (r_tab r) = take off tab \<and> length (r_work r) = length work \<and>
    (if r_ret r = 0 then
       1 \<le> r_bits r \<and> r_bits r \<le> 15 \<and> off \<le> r_next r \<and> r_next r \<le> length tab \<and>
       (max_len lens \<noteq> 0 \<longrightarrow> r_bits r = root_bits lens w \<and> r_next r = off + table_size lens (root_bits lens w)) \<and>
       (\<forall>sy v. sy < length lens \<and> lens ! sy \<noteq> 0 \<and>
          nbits (lens ! sy) v = msb_bits (canon_code (used_cnt lens) lens sy) (lens ! sy) \<longrightarrow>
          found ty sy (lens ! sy) (r_tab r) off (r_bits r) (r_next r - off) v)
     else r_next r = off \<and> r_bits r = w)"
proof -
  have fit: "lens_fit lens" "1 \<le> w" using room by (simp_all add: table_room_def)
  let ?e = "\<lambda>r tab work. \<lparr>r_ret = r, r_tab = tab, r_next = off, r_bits = w, r_work = work\<rparr>"
  let ?w = "sort_syms lens (count_lens lens) work" and ?ls = "code_lens lens" and ?root = "root_bits lens w"
  consider (none) "max_len lens = 0" | (refused) "max_len lens \<noteq> 0" "table_refused ty lens"
    | (full) "max_len lens \<noteq> 0" "\<not> table_refused ty lens" "no_space ty (2 ^ ?root)"
    | (go) "max_len lens \<noteq> 0" "\<not> table_refused ty lens" "\<not> no_space ty (2 ^ ?root)" by blast
  then show ?thesis
  proof cases
    case none
    have "lens ! sy = 0" if "sy < length lens" for sy
      using used_le_max [OF fit(1), of "lens ! sy"] that none by simp
    moreover have "off + 2 \<le> length tab"
    proof -
      have "(2 :: nat) ^ 1 \<le> 2 ^ w" using fit(2) by (intro power_increasing) simp_all
      then show ?thesis
        using room by (cases ty) (simp_all add: table_room_def ENOUGH_LENS_def ENOUGH_DISTS_def)
    qed
    ultimately show ?thesis using none by (auto simp: inflate_table_cases Let_def table_refused_def take_update_cancel)
  next
    case refused
    then show ?thesis by (simp add: inflate_table_cases Let_def)
  next
    case full
    moreover have "no_space ty (table_size lens ?root)"
      by (rule no_space_mono [OF full(3)]) (simp add: table_size_def)
    ultimately show ?thesis by (simp add: inflate_table_cases Let_def)
  next
    case go
    have left: "0 \<le> code_left (count_lens lens)" and ok: "code_left (count_lens lens) = 0 \<or> max_len lens = 1"
      using go(1,2) by (auto simp: table_refused_def)
    note rb = root_bits_range [OF fit(1) go(1) fit(2)]
    from loop_result [OF room go(1) left ok go(3)]
    obtain r where r: "table_loop ty lens ?w off ?root (max_len lens) (length lens) (table_start lens tab off w) = Some r"
      and inv: "case r of Inl tab' \<Rightarrow> length tab' = length tab \<and> take off tab' = take off tab \<and>
          no_space ty (table_size lens ?root)
        | Inr t \<Rightarrow> (\<exists>p. base_inv (max_len lens) ?ls off (length tab) (length ?ls) t \<and>
            cur_table (max_len lens) off ?root p t \<and>
            done_inv ty ?w (max_len lens) ?ls off ?root p (length ?ls) t) \<and>
            t_len t = max_len lens \<and> take off (t_tab t) = take off tab \<and> off \<le> t_next t \<and>
            t_used t = table_size lens ?root \<and> \<not> no_space ty (table_size lens ?root)" by blast
    show ?thesis
    proof (cases r)
      case (Inl tab')
      then show ?thesis using go inv r by (simp add: inflate_table_cases Let_def)
    next
      case (Inr t)
      then obtain p where b: "base_inv (max_len lens) ?ls off (length tab) (length ?ls) t"
          and cur: "cur_table (max_len lens) off ?root p t"
          and dn: "done_inv ty ?w (max_len lens) ?ls off ?root p (length ?ls) t"
          and t: "take off (t_tab t) = take off tab" "off \<le> t_next t"
          and size: "t_used t = table_size lens ?root" "\<not> no_space ty (table_size lens ?root)" using inv by auto
      let ?tab = "if t_huff t \<noteq> 0 then (t_tab t)[t_next t + t_huff t := invalid_code (t_len t - t_drop t)] else t_tab t"
      have huff: "t_huff t = (if code_left (count_lens lens) = 0 then 0 else 1)"
        using b end_huff [OF fit(1) left ok] by (simp add: base_inv_def)
      have "found ty sy (lens ! sy) ?tab off ?root (t_used t) v"
        if sy: "sy < length lens" "lens ! sy \<noteq> 0"
          "nbits (lens ! sy) v = msb_bits (canon_code (used_cnt lens) lens sy) (lens ! sy)" for sy v
      proof -
        define k where "k = offset lens (lens ! sy) + count_list (take sy lens) (lens ! sy)"
        note c = covers_canon [OF fit(1) left sy(1,2), folded k_def]
        have cov: "covers (max_len lens) ?ls k v" using c(4) sy(3) by simp
        have "?w ! k = sy"
        proof -
          have "take (offset lens 16) ?w = sorted_upto lens 16"
            using sort_syms_sorted [of lens work] room by (simp add: table_room_def lens_fit_def)
          moreover have "k < offset lens 16" using c(1) fit left by (simp add: code_lens_def)
          ultimately show ?thesis using c(3) nth_take [of k "offset lens 16" ?w] by simp
        qed
        then have "found ty sy (lens ! sy) (t_tab t) off ?root
            (if prefix_of ?root (max_len lens) ?ls k = p then t_used t else t_used t - 2 ^ t_curr t) v"
          using dn c(1,2) cov by (auto simp: done_inv_def)
        then have f: "found ty sy (lens ! sy) (t_tab t) off ?root (t_used t) v"
          using b by (rule_tac found_mono) (auto simp: base_inv_def)
        show ?thesis
        proof (cases "code_left (count_lens lens) = 0")
          case True
          then show ?thesis using huff f by simp
        next
          case False
          then have one: "max_len lens = 1" "?ls = [1]" using ok left single_code [OF fit(1)] by auto
          then have "k = 0" "lens ! sy = 1" using c(1,2) by auto
          then show ?thesis
            using invalid_write_harmless [OF cur rb(2) one(1) rb(1) one(2), of ty sy "t_used t" v] f cov huff False
            by simp
        qed
      qed
      moreover have "length ?tab = length tab" "take off ?tab = take off tab"
        using b t by (auto simp: base_inv_def take_update_cancel)
      moreover have "?root \<le> 15" "off + t_used t \<le> length tab"
        using rb max_len_le [of lens] b by (simp_all add: base_inv_def)
      ultimately show ?thesis using go r Inr rb(1) size by (simp add: inflate_table_cases Let_def)
    qed
  qed
qed

text \<open>C9: \<open>inflate_table\<close> builds a correct decoding table.  For code lengths of at most 15 and the room
  its callers provide it always ends, with 0, -1 or 1.  It returns -1 exactly when the lengths are
  over-subscribed, or incomplete and not a single length or distance code of one bit; it returns 1 exactly when the
  lengths are acceptable and the root table and the sub-tables that their codes need have more than 852 entries for
  lengths or more than 592 for distances; otherwise it returns 0.  It leaves the table
  space in front of the table alone.  When it returns 0 the table takes exactly the entries of its root table and
  sub-tables, it lies within the space, and for
  every symbol in use, looking up any bits that begin with the symbol's canonical code gives the entry of
  that symbol, in the root table or through a link to a sub-table.\<close>

theorem inflate_table_correct:
  assumes room: "table_room ty lens tab off w work"
  shows "\<exists>r. inflate_table ty lens tab off w work = Some r \<and> r_ret r \<in> {0, -1, 1} \<and>
    (r_ret r = -1 \<longleftrightarrow> table_refused ty lens) \<and>
    (r_ret r = 1 \<longleftrightarrow> max_len lens \<noteq> 0 \<and> \<not> table_refused ty lens \<and>
       (ty = LENS \<and> 852 < table_size lens (root_bits lens w) \<or> ty = DISTS \<and> 592 < table_size lens (root_bits lens w))) \<and>
    length (r_tab r) = length tab \<and> take off (r_tab r) = take off tab \<and> length (r_work r) = length work \<and>
    (if r_ret r = 0 then
       1 \<le> r_bits r \<and> r_bits r \<le> 15 \<and> off \<le> r_next r \<and> r_next r \<le> length tab \<and>
       (max_len lens \<noteq> 0 \<longrightarrow> r_bits r = root_bits lens w \<and> r_next r = off + table_size lens (root_bits lens w)) \<and>
       (\<forall>sy v. sy < length lens \<and> lens ! sy \<noteq> 0 \<and>
          nbits (lens ! sy) v = msb_bits (canon_code (used_cnt lens) lens sy) (lens ! sy) \<longrightarrow>
          found ty sy (lens ! sy) (r_tab r) off (r_bits r) (r_next r - off) v)
     else r_next r = off \<and> r_bits r = w)"
  using inflate_table_result [OF room] by (simp add: no_space_def ENOUGH_LENS_def ENOUGH_DISTS_def)

text \<open>Three codes, of the lengths 2, 1 and 2, in a table with a root of one bit: two root entries and a sub-table of
  two.\<close>

theorem inflate_table_correct_witness:
  "\<exists>r. inflate_table LENS [2, 1, 2] (replicate 852 (invalid_code 0)) 0 1 (replicate 288 0) = Some r \<and>
    r_ret r = 0 \<and> length (r_tab r) = 852 \<and> r_bits r = 1 \<and> r_next r = 4 \<and> found LENS 1 1 (r_tab r) 0 1 4 0 \<and>
    found LENS 0 2 (r_tab r) 0 1 4 1 \<and> found LENS 2 2 (r_tab r) 0 1 4 3"
proof -
  let ?c = "[2, 1, 2 :: nat]"
  have cnt: "count_lens ?c = [0, 1, 2, 0, 0, 0, 0, 0, 0, 0, 0, 0, 0, 0, 0, 0]"
    by (simp add: count_lens_def MAXBITS_def numeral_eq_Suc)
  have room: "table_room LENS ?c (replicate 852 (invalid_code 0)) 0 1 (replicate 288 0)"
    by (simp add: table_room_def lens_fit_def ENOUGH_LENS_def)
  have left: "code_left (count_lens ?c) = 0" unfolding cnt by (simp add: code_left_def upt_rec)
  have ok: "\<not> table_refused LENS ?c" using left by (simp add: table_refused_def)
  have mx: "max_len ?c = 2" unfolding cnt by (simp add: MAXBITS_def numeral_eq_Suc)
  have root: "root_bits ?c 1 = 1" unfolding root_bits_def mx unfolding cnt by (simp add: find_min.simps)
  have codes: "canon_code (used_cnt ?c) ?c 0 = 2" "canon_code (used_cnt ?c) ?c 1 = 0" "canon_code (used_cnt ?c) ?c 2 = 3"
    by (simp_all add: canon_code_def used_cnt_def numeral_2_eq_2)
  have long: "long_syms ?c 1 = [0, 2]" by (simp add: long_syms_def upt_rec)
  have pre: "code_prefix ?c 1 0 = 1" "code_prefix ?c 1 2 = 1" using codes by (simp_all add: code_prefix_def)
  have "longest ?c 1 1 = 2" unfolding longest_def long using pre by simp
  then have size: "table_size ?c 1 = 4" unfolding table_size_def long using pre by simp
  have bits: "nbits 1 0 = msb_bits 0 1" "nbits 2 1 = msb_bits 2 2" "nbits 2 3 = msb_bits 3 2"
    by (simp_all add: nbits_def msb_bits_def upt_rec bit_iff_odd)
  from inflate_table_correct [OF room]
  obtain r where r: "inflate_table LENS ?c (replicate 852 (invalid_code 0)) 0 1 (replicate 288 0) = Some r"
      "r_ret r \<in> {0, -1, 1}" "r_ret r = -1 \<longleftrightarrow> table_refused LENS ?c"
      "r_ret r = 1 \<longleftrightarrow> max_len ?c \<noteq> 0 \<and> \<not> table_refused LENS ?c \<and>
         (LENS = LENS \<and> 852 < table_size ?c (root_bits ?c 1) \<or> LENS = DISTS \<and> 592 < table_size ?c (root_bits ?c 1))"
      "length (r_tab r) = length (replicate 852 (invalid_code 0))"
    and f: "if r_ret r = 0 then
       1 \<le> r_bits r \<and> r_bits r \<le> 15 \<and> 0 \<le> r_next r \<and> r_next r \<le> length (replicate 852 (invalid_code 0)) \<and>
       (max_len ?c \<noteq> 0 \<longrightarrow> r_bits r = root_bits ?c 1 \<and> r_next r = 0 + table_size ?c (root_bits ?c 1)) \<and>
       (\<forall>sy v. sy < length ?c \<and> ?c ! sy \<noteq> 0 \<and>
          nbits (?c ! sy) v = msb_bits (canon_code (used_cnt ?c) ?c sy) (?c ! sy) \<longrightarrow>
          found LENS sy (?c ! sy) (r_tab r) 0 (r_bits r) (r_next r - 0) v)
     else r_next r = 0 \<and> r_bits r = 1" by blast
  have ret: "r_ret r = 0" using r(2-4) ok root size by simp
  then have b: "r_bits r = 1" "r_next r = 4" using f mx root size by auto
  have at: "found LENS sy (?c ! sy) (r_tab r) 0 1 4 v"
    if "sy < 3" "nbits (?c ! sy) v = msb_bits (canon_code (used_cnt ?c) ?c sy) (?c ! sy)" for sy v
  proof -
    have "?c ! sy \<noteq> 0" using that(1) by (auto simp: less_Suc_eq numeral_3_eq_3)
    then show ?thesis using f ret b that by simp
  qed
  show ?thesis
    using r(1,5) ret b at [of 1 0] at [of 0 1] at [of 2 3] codes bits by auto
qed

end
