(* ===== verification/Symbol_Table.thy ===== *)
theory Symbol_Table
  imports Inflate_Bits Table_Correct
begin

text \<open>
  The contract between the decoding tables and the decoders.  A \<open>symbol_table\<close> finds the code words of
  its symbols; from that follows that the lookup loops of \<open>inflate()\<close>, which look a code up before all of
  its bits are there, read exactly one code word off the stream.  The tables of \<open>inflate_table\<close> and the
  fixed tables of \<open>inffixed.h\<close> (\<open>src/src/zlib\<close>) meet the contract.
\<close>

section \<open>The contract\<close>

text \<open>The accumulator \<open>v\<close> holds the first \<open>a\<close> bits of the stream \<open>bs\<close>.\<close>

definition shows_bits :: "nat \<Rightarrow> nat \<Rightarrow> bool list \<Rightarrow> bool" where
  "shows_bits a v bs \<longleftrightarrow> v < 2 ^ a \<and> a \<le> length bs \<and> nbits a v = take a bs"

lemma shows_take: "shows_bits a v bs \<Longrightarrow> n \<le> a \<Longrightarrow> nbits n v = take n bs"
  unfolding shows_bits_def by (metis min.absorb1 take_nbits take_take)

text \<open>\<open>look\<close> is the table from its start on, \<open>root\<close> the bits of its first part, \<open>cw\<close> the code word of a
  symbol, and \<open>entry\<close> its entry with the bits that are left for it.  An incomplete code is a
  single symbol with the code word 0.\<close>

locale symbol_table =
  fixes look :: "nat \<Rightarrow> code" and root :: nat and syms :: "nat set" and cw :: "nat \<Rightarrow> bool list"
    and entry :: "nat \<Rightarrow> nat \<Rightarrow> code"
  assumes entry_bits: "sy \<in> syms \<Longrightarrow> l \<le> 15 \<Longrightarrow> unat (code_bits (entry sy l)) = l"
    and cw_len: "sy \<in> syms \<Longrightarrow> 1 \<le> length (cw sy) \<and> length (cw sy) \<le> 15"
    and root_le: "root \<le> 15"
    and direct: "sy \<in> syms \<Longrightarrow> nbits (length (cw sy)) v = cw sy \<Longrightarrow> length (cw sy) \<le> root \<Longrightarrow>
      look (v mod 2 ^ root) = entry sy (length (cw sy))"
    and linked: "sy \<in> syms \<Longrightarrow> nbits (length (cw sy)) v = cw sy \<Longrightarrow> root < length (cw sy) \<Longrightarrow>
      \<exists>c b. look (v mod 2 ^ root) = link c root b \<and> length (cw sy) - root \<le> c \<and> c \<le> 15 \<and> b \<le> 65535 \<and>
        look (b + v div 2 ^ root mod 2 ^ c) = entry sy (length (cw sy) - root)"
    and covered: "(\<forall>v. \<exists>sy\<in>syms. nbits (length (cw sy)) v = cw sy) \<or> (\<exists>sy. syms = {sy} \<and> cw sy = [False])"
    and prefix_free: "x \<in> syms \<Longrightarrow> y \<in> syms \<Longrightarrow> prefix (cw x) (cw y) \<Longrightarrow> x = y"
begin

lemma enough_bits:
  assumes "shows_bits a v (cw sy @ rest)" "length (cw sy) \<le> a"
  shows "nbits (length (cw sy)) v = cw sy"
  using shows_take [OF assms] by simp

text \<open>Some symbol covers whatever the accumulator holds; if its code word is there, it is the one in
  the stream.\<close>

lemma some_symbol:
  assumes "sy \<in> syms" "shows_bits a v (cw sy @ rest)"
  shows "\<exists>x\<in>syms. nbits (length (cw x)) v = cw x"
  using covered
proof
  assume "\<exists>x. syms = {x} \<and> cw x = [False]"
  then have cw: "cw sy = [False]" using assms(1) by auto
  show ?thesis
  proof (cases "a = 0")
    case True
    then have "v = 0" using assms(2) by (simp add: shows_bits_def)
    then have "nbits (length (cw sy)) v = cw sy" by (simp add: cw nbits_def)
    then show ?thesis using assms(1) by blast
  next
    case False
    then show ?thesis using assms(1) enough_bits [OF assms(2)] cw by (intro bexI [of _ sy]) auto
  qed
qed blast

lemma symbol_there:
  assumes "sy \<in> syms" "x \<in> syms" "shows_bits a v (cw sy @ rest)" "nbits (length (cw x)) v = cw x"
    and "length (cw x) \<le> a"
  shows "x = sy"
proof -
  have "prefix (cw x) (cw sy @ rest)"
    using shows_take [OF assms(3,5)] assms(4) take_is_prefix by metis
  moreover have "prefix (cw sy) (cw sy @ rest)" by simp
  ultimately have "prefix (cw x) (cw sy) \<or> prefix (cw sy) (cw x)" by (rule prefix_same_cases)
  then show ?thesis using prefix_free assms(1,2) by blast
qed

lemma link_bits: "unat (code_bits (link c root b)) = root"
  using root_le by (simp add: unat_of_nat)

text \<open>The first lookup: what it shows once its bits are there, and that it then is there.\<close>

lemma first_lookup:
  assumes sy: "sy \<in> syms" and v: "shows_bits a v (cw sy @ rest)"
    and bits: "unat (code_bits (look (v mod 2 ^ root))) \<le> a"
  shows "if length (cw sy) \<le> root then length (cw sy) \<le> a \<and> look (v mod 2 ^ root) = entry sy (length (cw sy))
    else root \<le> a \<and> unat (code_bits (look (v mod 2 ^ root))) = root"
proof -
  obtain x where x: "x \<in> syms" "nbits (length (cw x)) v = cw x" using some_symbol [OF sy v] by blast
  show ?thesis
  proof (cases "length (cw x) \<le> root")
    case True
    have "look (v mod 2 ^ root) = entry x (length (cw x))" by (rule direct [OF x True])
    moreover have "unat (code_bits (entry x (length (cw x)))) = length (cw x)"
      using entry_bits [OF x(1)] cw_len [OF x(1)] by simp
    ultimately have "length (cw x) \<le> a" "x = sy" using symbol_there [OF sy x(1) v x(2)] bits by simp_all
    then show ?thesis using \<open>look _ = _\<close> True by simp
  next
    case False
    then obtain c b where "look (v mod 2 ^ root) = link c root b" using linked [OF x] by auto
    then have at: "unat (code_bits (look (v mod 2 ^ root))) = root" using link_bits by simp
    then have ra: "root \<le> a" using bits by simp
    have "\<not> length (cw sy) \<le> root"
    proof
      assume le: "length (cw sy) \<le> root"
      then have "nbits (length (cw sy)) v = cw sy" using enough_bits [OF v] ra by simp
      then have "look (v mod 2 ^ root) = entry sy (length (cw sy))" using direct [OF sy _ le] by simp
      then have "length (cw sy) = root" using at entry_bits [OF sy] cw_len [OF sy] by simp
      then have "prefix (cw sy) (cw x)"
        using x(2) \<open>nbits (length (cw sy)) v = cw sy\<close> False take_nbits [of root "length (cw x)" v]
        by (metis linear min.absorb1 take_is_prefix)
      then have "sy = x" using prefix_free sy x(1) by blast
      then show False using le False by simp
    qed
    then show ?thesis using at ra by simp
  qed
qed

lemma first_there:
  assumes sy: "sy \<in> syms" and v: "shows_bits a v (cw sy @ rest)" and a: "length (cw sy) \<le> a"
  shows "unat (code_bits (look (v mod 2 ^ root))) \<le> a"
proof (cases "length (cw sy) \<le> root")
  case True
  then show ?thesis using direct [OF sy enough_bits [OF v a] True] entry_bits [OF sy] cw_len [OF sy] a by simp
next
  case False
  then obtain c b where "look (v mod 2 ^ root) = link c root b" using linked [OF sy enough_bits [OF v a]] by auto
  then show ?thesis using link_bits False a by simp
qed

text \<open>The second lookup, through the link in the first part.\<close>

definition sub_index :: "nat \<Rightarrow> nat \<Rightarrow> nat" where
  "sub_index v w = (let e = look (v mod 2 ^ root)
     in unat (code_val e) + w mod 2 ^ (unat (code_bits e) + unat (code_op e)) div 2 ^ unat (code_bits e))"

lemma link_fields:
  "look i = link c root b \<Longrightarrow> c \<le> 15 \<Longrightarrow> b \<le> 65535 \<Longrightarrow>
    unat (code_val (look i)) = b \<and> unat (code_bits (look i)) = root \<and> unat (code_op (look i)) = c"
  using root_le by (simp add: unat_of_nat)

lemma sub_index_link:
  assumes "look (v mod 2 ^ root) = link c root b" "c \<le> 15" "b \<le> 65535"
  shows "sub_index v w = b + w div 2 ^ root mod 2 ^ c"
proof -
  have "w mod 2 ^ (root + c) div 2 ^ root = w div 2 ^ root mod 2 ^ c"
    using mod_mult2_eq [of w "2 ^ root" "2 ^ c"] by (simp add: power_add)
  then show ?thesis using link_fields [OF assms] by (simp add: sub_index_def)
qed

lemma second_lookup:
  assumes sy: "sy \<in> syms" "root < length (cw sy)" and v: "shows_bits a v (cw sy @ rest)" "root \<le> a"
    and w: "shows_bits a' w (cw sy @ rest)" "root \<le> a'"
  shows "root + unat (code_bits (look (sub_index v w))) \<le> a' \<Longrightarrow>
      length (cw sy) \<le> a' \<and> look (sub_index v w) = entry sy (length (cw sy) - root)"
    and "length (cw sy) \<le> a' \<Longrightarrow> root + unat (code_bits (look (sub_index v w))) \<le> a'"
    and "\<exists>c b. look (v mod 2 ^ root) = link c root b \<and> 1 \<le> c \<and> c \<le> 15 \<and> b \<le> 65535"
proof -
  define V where "V = bits_nat (cw sy)"
  have V: "nbits (length (cw sy)) V = cw sy" by (simp add: V_def)
  obtain c b where cb: "look (V mod 2 ^ root) = link c root b" "length (cw sy) - root \<le> c" "c \<le> 15" "b \<le> 65535"
    using linked [OF sy(1) V sy(2)] by auto
  have low: "x mod 2 ^ root = V mod 2 ^ root" if "shows_bits d x (cw sy @ rest)" "root \<le> d" for d x
  proof -
    have "nbits root x = take root (cw sy)" using shows_take [OF that] sy(2) by simp
    also have "\<dots> = nbits root V" using V sy(2) by (metis less_imp_le min.absorb1 take_nbits)
    finally show ?thesis by (metis bits_nat_nbits)
  qed
  have vl: "look (v mod 2 ^ root) = link c root b" and wl: "look (w mod 2 ^ root) = link c root b"
    using low [OF v] low [OF w] cb(1) by simp_all
  show "\<exists>c b. look (v mod 2 ^ root) = link c root b \<and> 1 \<le> c \<and> c \<le> 15 \<and> b \<le> 65535"
    using vl cb sy(2) by (intro exI conjI) (assumption | linarith)+
  note idx = sub_index_link [OF vl cb(3,4)]
  have here: "look (sub_index v w) = entry x (length (cw x) - root) \<and> unat (code_bits (look (sub_index v w))) = length (cw x) - root"
    if x: "x \<in> syms" "nbits (length (cw x)) w = cw x" "root < length (cw x)" for x
  proof -
    obtain c' b' where cb': "look (w mod 2 ^ root) = link c' root b'" "c' \<le> 15" "b' \<le> 65535"
        "look (b' + w div 2 ^ root mod 2 ^ c') = entry x (length (cw x) - root)"
      using linked [OF x] by auto
    have "c' = c \<and> b' = b" using link_inj [of c' root b' c b] cb'(1-3) wl cb(3,4) by simp
    moreover have "length (cw x) - root \<le> 15" using cw_len [OF x(1)] by linarith
    ultimately show ?thesis
      using cb'(4) entry_bits [OF x(1), of "length (cw x) - root"] by (simp add: idx)
  qed
  show "root + unat (code_bits (look (sub_index v w))) \<le> a'" if a': "length (cw sy) \<le> a'"
    using conjunct2 [OF here [OF sy(1) enough_bits [OF w(1) a'] sy(2)]] a' sy(2) by simp
  show "length (cw sy) \<le> a' \<and> look (sub_index v w) = entry sy (length (cw sy) - root)"
    if bits: "root + unat (code_bits (look (sub_index v w))) \<le> a'"
  proof -
    obtain x where x: "x \<in> syms" "nbits (length (cw x)) w = cw x" using some_symbol [OF sy(1) w(1)] by blast
    have long: "root < length (cw x)"
    proof (rule ccontr)
      assume "\<not> root < length (cw x)"
      then have "x = sy" using symbol_there [OF sy(1) x(1) w(1) x(2)] w(2) by simp
      then show False using sy(2) \<open>\<not> root < _\<close> by simp
    qed
    then have "length (cw x) \<le> a'" using conjunct2 [OF here [OF x long]] bits by linarith
    then have "x = sy" using symbol_there [OF sy(1) x(1) w(1) x(2)] by simp
    then show ?thesis using here [OF x long] \<open>length (cw x) \<le> a'\<close> by simp
  qed
qed

end


section \<open>The lookup loops of inflate()\<close>

lemma pull_code_total:
  assumes "bits_ok s" "n \<le> length (in_bits s)"
    and "\<And>t. bits_ok t \<Longrightarrow> in_bits t = in_bits s \<Longrightarrow> same_but_bits s t \<Longrightarrow> n \<le> i_bits t \<Longrightarrow>
      used + unat (code_bits (get t)) \<le> i_bits t"
  shows "\<exists>t. pull_code get used s = (Some (get t), t) \<and> used + unat (code_bits (get t)) \<le> i_bits t \<and>
    bits_ok t \<and> in_bits t = in_bits s \<and> same_but_bits s t \<and> i_bits t \<le> max (i_bits s) (n + 7)"
  using assms
proof (induction get used s rule: pull_code.induct)
  case (1 get used s)
  show ?case
  proof (cases "used + unat (code_bits (get s)) \<le> i_bits s")
    case True
    then show ?thesis using "1.prems"(1) by (subst pull_code.simps) (simp add: Let_def)
  next
    case False
    have "\<not> n \<le> i_bits s" using "1.prems"(3) [OF "1.prems"(1)] False by auto
    then have "next_in s \<noteq> []" using "1.prems"(2) by (cases "next_in s") auto
    then obtain b r where b: "next_in s = b # r" by (cases "next_in s") auto
    note pb = pull_byte_bits [OF "1.prems"(1) b]
    have "\<exists>t. pull_code get used (pull_byte b r s) = (Some (get t), t) \<and> used + unat (code_bits (get t)) \<le> i_bits t \<and>
        bits_ok t \<and> in_bits t = in_bits (pull_byte b r s) \<and> same_but_bits (pull_byte b r s) t \<and>
        i_bits t \<le> max (i_bits (pull_byte b r s)) (n + 7)"
      by (rule "1.IH" [OF refl False b pb(1)])
        (use "1.prems"(2,3) pb(2) same_but_bits_trans [OF same_but_bits_pull] in auto)
    moreover have "max (i_bits (pull_byte b r s)) (n + 7) \<le> max (i_bits s) (n + 7)"
      using \<open>\<not> n \<le> i_bits s\<close> by (simp add: pull_byte_def)
    ultimately show ?thesis
      using False b pb(2) same_but_bits_trans [OF same_but_bits_pull]
      by (subst pull_code.simps) (auto simp: Let_def)
  qed
qed

lemma same_but_bits_fields:
  "same_but_bits s t \<Longrightarrow> code_at t p i = code_at s p i \<and> i_lencode t = i_lencode s \<and> i_lenbits t = i_lenbits s \<and>
    i_distcode t = i_distcode s \<and> i_distbits t = i_distbits s"
  unfolding same_but_bits_def by (cases s; cases t; cases p) (simp_all add: code_at_def)

lemma shows_state:
  "bits_ok t \<Longrightarrow> shows_bits (i_bits t) (i_hold t) (in_bits t)"
  by (simp add: shows_bits_def bits_ok_def) (simp add: in_bits_def)

text \<open>One code word read: \<open>lookup_code\<close> is the first lookup of the \<open>LEN\<close>, \<open>DIST\<close> and \<open>CODELENS\<close>
  states followed, on a link, by the second.\<close>

definition lookup_code :: "(code \<Rightarrow> bool) \<Rightarrow> code_ptr \<Rightarrow> nat \<Rightarrow> z_inflate \<Rightarrow> code option \<times> z_inflate" where
  "lookup_code is_link p root s =
     (case pull_code (\<lambda>s. code_at s p (bits_val root s)) 0 s of
        (None, s) \<Rightarrow> (None, s)
      | (Some here, s) \<Rightarrow> if is_link here then second_code p here s else (Some here, s))"

lemma lookup_code_correct:
  assumes tab: "symbol_table (code_at s p) root syms cw entry" and sy: "sy \<in> syms"
    and ok: "bits_ok s" and bits: "in_bits s = cw sy @ rest"
    and link: "\<And>c b. 1 \<le> c \<Longrightarrow> c \<le> 15 \<Longrightarrow> is_link (link c root b)"
    and entry: "\<And>l. l \<le> 15 \<Longrightarrow> \<not> is_link (entry sy l)"
  shows "\<exists>l t. lookup_code is_link p root s = (Some (entry sy l), t) \<and> unat (code_bits (entry sy l)) = l \<and>
    l \<le> i_bits t \<and> bits_ok t \<and> in_bits t = drop (length (cw sy) - l) (cw sy) @ rest \<and> 1 \<le> l \<and> l \<le> length (cw sy) \<and>
    same_but_bits s (t\<lparr>i_back := i_back s\<rparr>) \<and> i_back t = i_back s + int (length (cw sy) - l) \<and>
    (i_bits s < 8 \<longrightarrow> i_bits t < l + 8)"
proof -
  let ?get = "\<lambda>s. code_at s p (bits_val root s)" and ?n = "length (cw sy)"
  let ?look = "code_at s p"
  note st = tab [THEN symbol_table.first_lookup] tab [THEN symbol_table.first_there]
  have seen: "shows_bits (i_bits t) (i_hold t) (cw sy @ rest)" if "bits_ok t" "in_bits t = in_bits s" for t
    using shows_state [OF that(1)] that(2) bits by simp
  have get: "?get t = ?look (i_hold t mod 2 ^ root)" if "same_but_bits s t" for t
    using same_but_bits_fields [OF that] by (simp add: bits_val_def)
  have "\<exists>t. pull_code ?get 0 s = (Some (?get t), t) \<and> 0 + unat (code_bits (?get t)) \<le> i_bits t \<and>
      bits_ok t \<and> in_bits t = in_bits s \<and> same_but_bits s t \<and> i_bits t \<le> max (i_bits s) (?n + 7)"
  proof (rule pull_code_total [OF ok, of ?n])
    show "?n \<le> length (in_bits s)" using bits by simp
    show "0 + unat (code_bits (?get t)) \<le> i_bits t"
      if "bits_ok t" "in_bits t = in_bits s" "same_but_bits s t" "?n \<le> i_bits t" for t
      using st(2) [OF sy seen [OF that(1,2)] that(4)] get [OF that(3)] by simp
  qed
  then obtain t where t: "pull_code ?get 0 s = (Some (?get t), t)" "unat (code_bits (?get t)) \<le> i_bits t"
      "bits_ok t" "in_bits t = in_bits s" "same_but_bits s t" "i_bits t \<le> max (i_bits s) (?n + 7)" by auto
  let ?e = "?look (i_hold t mod 2 ^ root)"
  have e: "?get t = ?e" by (rule get [OF t(5)])
  note first = st(1) [OF sy seen [OF t(3,4)] t(2) [unfolded e]]
  have n15: "1 \<le> ?n" "?n \<le> 15" using tab [THEN symbol_table.cw_len, OF sy] by simp_all
  show ?thesis
  proof (cases "?n \<le> root")
    case True
    then have f: "?n \<le> i_bits t" "?e = entry sy ?n" using first by simp_all
    have "lookup_code is_link p root s = (Some (entry sy ?n), t)"
      using t(1) f(2) entry [OF n15(2)] by (simp add: lookup_code_def e)
    moreover have "i_back t = i_back s" "same_but_bits s (t\<lparr>i_back := i_back s\<rparr>)"
      using t(5) unfolding same_but_bits_def by (cases s; cases t; simp)+
    moreover have "i_bits s < 8 \<longrightarrow> i_bits t < ?n + 8" using t(6) by auto
    ultimately show ?thesis
      using f t(3,4) bits n15 tab [THEN symbol_table.entry_bits, OF sy n15(2)] by (intro exI [of _ ?n] exI [of _ t]) simp
  next
    case False
    then have f: "root \<le> i_bits t" "unat (code_bits ?e) = root" and long: "root < ?n" using first by simp_all
    let ?get2 = "\<lambda>u. code_at u p (unat (code_val ?e) + bits_val (unat (code_bits ?e) + unat (code_op ?e)) u div 2 ^ unat (code_bits ?e))"
    note second = symbol_table.second_lookup [OF tab sy long seen [OF t(3,4)] f(1)]
    have seen2: "shows_bits (i_bits u) (i_hold u) (cw sy @ rest)" if "bits_ok u" "in_bits u = in_bits t" for u
      using seen that t(4) by simp
    have get2: "?get2 u = ?look (symbol_table.sub_index ?look root (i_hold t) (i_hold u))" if "same_but_bits t u" for u
      using same_but_bits_fields [OF same_but_bits_trans [OF t(5) that]]
      by (simp add: symbol_table.sub_index_def [OF tab] Let_def bits_val_def)
    have "\<exists>c b. ?e = link c root b \<and> 1 \<le> c \<and> c \<le> 15 \<and> b \<le> 65535"
      using second(3) [OF seen [OF t(3,4)] f(1)] .
    then have isl: "is_link ?e" using link by auto
    have "\<exists>u. pull_code ?get2 root t = (Some (?get2 u), u) \<and> root + unat (code_bits (?get2 u)) \<le> i_bits u \<and>
        bits_ok u \<and> in_bits u = in_bits t \<and> same_but_bits t u \<and> i_bits u \<le> max (i_bits t) (?n + 7)"
    proof (rule pull_code_total [OF t(3), of ?n])
      show "?n \<le> length (in_bits t)" using bits t(4) by simp
      show "root + unat (code_bits (?get2 u)) \<le> i_bits u"
        if u: "bits_ok u" "in_bits u = in_bits t" "same_but_bits t u" "?n \<le> i_bits u" for u
        using second(2) [OF seen2 [OF u(1,2)] _ u(4)] u(4) long get2 [OF u(3)] by simp
    qed
    then obtain u where u: "pull_code ?get2 root t = (Some (?get2 u), u)" "root + unat (code_bits (?get2 u)) \<le> i_bits u"
      "bits_ok u" "in_bits u = in_bits t" "same_but_bits t u" "i_bits u \<le> max (i_bits t) (?n + 7)" by auto
    have here: "?n \<le> i_bits u \<and> ?get2 u = entry sy (?n - root)"
      using second(1) [OF seen2 [OF u(3,4)]] u(2) get2 [OF u(5)] by simp
    let ?u = "(dropbits root u)\<lparr>i_back := i_back u + int root\<rparr>"
    have "lookup_code is_link p root s = second_code p ?e t" using t(1) isl by (simp add: lookup_code_def e)
    also have "\<dots> = (Some (entry sy (?n - root)), ?u)"
      using u(1) here f(2) by (simp add: second_code_def)
    finally have "lookup_code is_link p root s = (Some (entry sy (?n - root)), ?u)" .
    moreover have "in_bits ?u = drop root (cw sy) @ rest" "bits_ok ?u"
    proof -
      have "in_bits ?u = in_bits (dropbits root u)" by (simp add: in_bits_def)
      also have "\<dots> = drop root (cw sy @ rest)"
        using br.skip_stream [OF u(3), of root] here long u(4) t(4) bits by simp
      finally show "in_bits ?u = drop root (cw sy) @ rest" using long by simp
      show "bits_ok ?u" using br.skip_ok [OF u(3), of root] here long by (simp add: bits_ok_def)
    qed
    moreover have "same_but_bits s (?u\<lparr>i_back := i_back s\<rparr>)" "i_back u = i_back s"
      using same_but_bits_trans [OF t(5) u(5)] unfolding same_but_bits_def by (cases s; cases u; simp add: dropbits_def)+
    moreover have "?n - root \<le> i_bits ?u" using conjunct1 [OF here] by (simp add: dropbits_def diff_le_mono)
    moreover have "i_bits s < 8 \<longrightarrow> i_bits ?u < ?n - root + 8"
      using u(6) t(6) long by (auto simp: dropbits_def)
    ultimately show ?thesis
      using long n15 tab [THEN symbol_table.entry_bits, OF sy, of "?n - root"]
      by (intro exI [of _ "?n - root"] exI [of _ ?u]) simp
  qed
qed

end
