(* ===== verification/Decoder_Tables.thy ===== *)
theory Decoder_Tables
  imports Symbol_Table
begin

text \<open>
  The tables of the decoder meet the contract \<open>symbol_table\<close>: those that \<open>inflate_table\<close>
  (\<open>src/src/zlib/inftrees.c\<close>) builds for any accepted lengths, and the fixed tables of
  \<open>src/src/zlib/inffixed.h\<close>.
\<close>

section \<open>Tables from inflate_table\<close>

abbreviation canon_bits :: "nat list \<Rightarrow> nat \<Rightarrow> bool list" where
  "canon_bits lens sy \<equiv> msb_bits (canon_code (used_cnt lens) lens sy) (lens ! sy)"

definition used_syms :: "nat list \<Rightarrow> nat set" where
  "used_syms lens = {sy. sy < length lens \<and> lens ! sy \<noteq> 0}"

lemma length_msb_bits [simp]: "length (msb_bits c l) = l"
  by (simp add: msb_bits_def)

lemma kraft_used:
  assumes "lens_fit lens" "0 \<le> code_left (count_lens lens)"
  shows "kraft_ok (used_cnt lens)"
proof -
  have "(\<Sum>l\<leftarrow>[0..<16]. used_cnt lens l * 2 ^ (15 - l)) = (\<Sum>l\<leftarrow>[1..<16]. used_cnt lens l * 2 ^ (15 - l))"
    by (simp add: upt_conv_Cons used_cnt_def del: upt_rec_numeral)
  also have "\<dots> = (\<Sum>l\<leftarrow>[1..<16]. count_lens lens ! l * 2 ^ (15 - l))"
    using assms(1) count_lens_nth [of lens]
    by (intro arg_cong [where f = sum_list] map_cong) (auto simp: lens_fit_def used_cnt_def)
  finally have "int (\<Sum>l\<leftarrow>[0..<16]. used_cnt lens l * 2 ^ (15 - l)) = 2 ^ 15 - code_left (count_lens lens)"
    by (simp add: code_left_def int_sum_list o_def del: upt_rec_numeral)
  then have "int (\<Sum>l\<leftarrow>[0..<16]. used_cnt lens l * 2 ^ (15 - l)) \<le> int (2 ^ 15)" using assms(2) by simp
  then show ?thesis unfolding kraft_ok_def by (simp only: of_nat_le_iff)
qed

lemma used_range: "lens_fit lens \<Longrightarrow> sy \<in> used_syms lens \<Longrightarrow> sy < length lens \<and> 1 \<le> lens ! sy \<and> lens ! sy \<le> 15"
  by (auto simp: used_syms_def lens_fit_def Suc_le_eq)

lemma canon_bits_prefix_free:
  assumes "lens_fit lens" "0 \<le> code_left (count_lens lens)" "x \<in> used_syms lens" "y \<in> used_syms lens"
    and "prefix (canon_bits lens x) (canon_bits lens y)"
  shows "x = y"
proof -
  have "histogram lens (used_cnt lens)" by (simp add: histogram_def used_cnt_def)
  then show ?thesis
    using canon_prefix_free [OF kraft_used [OF assms(1,2)]] used_range [OF assms(1)] assms(3-5) by blast
qed

lemma distinct_sorted_upto: "1 \<le> L \<Longrightarrow> distinct (sorted_upto lens L)"
proof (induction L)
  case (Suc L)
  show ?case
  proof (cases "L = 0")
    case False
    have "lens ! sy < L" if "sy \<in> set (sorted_upto lens L)" for sy
      using that by (auto simp: sorted_upto_def bucket_set)
    then show ?thesis using Suc False by (auto simp: sorted_upto_Suc bucket_set) (auto simp: bucket_def)
  qed simp
qed simp

text \<open>A complete code leaves no bits without a symbol.\<close>

lemma complete_covers:
  assumes fit: "lens_fit lens" and left: "code_left (count_lens lens) = 0"
  shows "\<exists>sy\<in>used_syms lens. nbits (lens ! sy) v = canon_bits lens sy"
proof -
  let ?ls = "code_lens lens"
  have cl: "?ls = lens_upto lens 16" using fit left by (simp add: code_lens_def)
  have "start (max_len lens) ?ls (length ?ls) = 2 ^ max_len lens" by (rule start_complete [OF assms])
  from sc.covers_exists [OF this] obtain k where k: "k < length ?ls" "covers (max_len lens) ?ls k v" by blast
  define sy where "sy = sorted_upto lens 16 ! k"
  have "sy \<in> set (sorted_upto lens 16)" using k(1) by (simp add: sy_def cl length_sorted_upto)
  then have sy: "sy < length lens" "lens ! sy \<noteq> 0" by (auto simp: sorted_upto_def bucket_set)
  note c = covers_canon [OF fit _ sy]
  let ?k = "offset lens (lens ! sy) + count_list (take sy lens) (lens ! sy)"
  have "?k < length (sorted_upto lens 16)" "sorted_upto lens 16 ! ?k = sy" "k < length (sorted_upto lens 16)"
    using c(1,3) left k(1) by (simp_all add: cl length_sorted_upto)
  then have "?k = k"
    using nth_eq_iff_index_eq [of "sorted_upto lens 16" ?k k] distinct_sorted_upto [of 16 lens]
    by (simp add: sy_def)
  then show ?thesis using c(4) left k(2) sy by (auto simp: used_syms_def)
qed

lemma single_symbol:
  assumes "lens_fit lens" "0 < code_left (count_lens lens)" "max_len lens = 1"
  shows "\<exists>sy. used_syms lens = {sy} \<and> canon_bits lens sy = [False]"
proof -
  have one: "code_lens lens = [1]" by (rule single_code [OF assms])
  have at0: "sy = sorted_upto lens 16 ! 0 \<and> lens ! sy = 1" if "sy \<in> used_syms lens" for sy
    using covers_canon(1-3) [OF assms(1), of sy] assms(2) that used_range [OF assms(1) that] one by auto
  have "max_len lens \<in> set lens" using max_len_used [OF assms(1)] assms(3) by simp
  then obtain x where x: "x < length lens" "lens ! x = 1" by (auto simp: in_set_conv_nth assms(3))
  then have xu: "x \<in> used_syms lens" by (simp add: used_syms_def)
  then have "used_syms lens = {x}" using at0 by blast
  moreover have "canon_bits lens x = [False]"
  proof -
    have "count_list (take x lens) 1 = 0"
    proof (rule ccontr)
      assume "count_list (take x lens) 1 \<noteq> 0"
      then obtain y where "y < x" "lens ! y = 1"
        by (auto simp: count_pos_iff in_set_conv_nth)
      then have "y \<in> used_syms lens" using x(1) by (simp add: used_syms_def)
      then show False using at0 xu \<open>y < x\<close> by blast
    qed
    then show ?thesis using x(2) by (simp add: canon_code_def msb_bits_def used_cnt_def)
  qed
  ultimately show ?thesis by blast
qed

lemma table_entry_bits: "l \<le> 15 \<Longrightarrow> unat (code_bits (table_entry ty sy l)) = l"
  by (simp add: table_entry_def Let_def unat_of_nat)

theorem inflate_table_symbols:
  assumes room: "table_room ty lens tab off w work" and r: "inflate_table ty lens tab off w work = Some r"
    and ret: "r_ret r = 0" and used: "max_len lens \<noteq> 0"
  shows "symbol_table (\<lambda>i. r_tab r ! (off + i)) (r_bits r) (used_syms lens) (canon_bits lens) (table_entry ty)"
proof -
  have fit: "lens_fit lens" using room by (simp add: table_room_def)
  from inflate_table_result [OF room] r ret
  have ok: "\<not> table_refused ty lens" and rb: "r_bits r \<le> 15"
    and found: "\<And>sy v. sy \<in> used_syms lens \<Longrightarrow> nbits (lens ! sy) v = canon_bits lens sy \<Longrightarrow>
      found ty sy (lens ! sy) (r_tab r) off (r_bits r) (r_next r - off) v"
    by (auto simp: used_syms_def)
  have left: "0 \<le> code_left (count_lens lens)"
    and full: "code_left (count_lens lens) = 0 \<or> 0 < code_left (count_lens lens) \<and> max_len lens = 1"
    using ok used by (auto simp: table_refused_def)
  show ?thesis
  proof
    show "r_bits r \<le> 15" by (rule rb)
    show "(\<forall>v. \<exists>sy\<in>used_syms lens. nbits (length (canon_bits lens sy)) v = canon_bits lens sy) \<or>
        (\<exists>sy. used_syms lens = {sy} \<and> canon_bits lens sy = [False])"
      using full complete_covers [OF fit] single_symbol [OF fit] by auto
    fix x v assume x: "x \<in> used_syms lens"
    show "unat (code_bits (table_entry ty x l)) = l" if "l \<le> 15" for l using that by (rule table_entry_bits)
    show "1 \<le> length (canon_bits lens x) \<and> length (canon_bits lens x) \<le> 15"
      using used_range [OF fit x] by simp
    show "prefix (canon_bits lens x) (canon_bits lens y) \<Longrightarrow> x = y" if "y \<in> used_syms lens" for y
      by (rule canon_bits_prefix_free [OF fit left x that])
    assume "nbits (length (canon_bits lens x)) v = canon_bits lens x"
    then have f: "found ty x (lens ! x) (r_tab r) off (r_bits r) (r_next r - off) v" using found [OF x] by simp
    show "r_tab r ! (off + v mod 2 ^ r_bits r) = table_entry ty x (length (canon_bits lens x))"
      if "length (canon_bits lens x) \<le> r_bits r" using f that by (simp add: found_def)
    show "\<exists>c b. r_tab r ! (off + v mod 2 ^ r_bits r) = link c (r_bits r) b \<and>
        length (canon_bits lens x) - r_bits r \<le> c \<and> c \<le> 15 \<and> b \<le> 65535 \<and>
        r_tab r ! (off + (b + v div 2 ^ r_bits r mod 2 ^ c)) = table_entry ty x (length (canon_bits lens x) - r_bits r)"
      if long: "r_bits r < length (canon_bits lens x)"
    proof -
      from f long obtain c b where "r_tab r ! (off + v mod 2 ^ r_bits r) = link c (r_bits r) b" "lens ! x - r_bits r \<le> c"
          "c \<le> 15" "b + 2 ^ c \<le> r_next r - off" "r_next r - off \<le> 65535"
          "r_tab r ! (off + b + v div 2 ^ r_bits r mod 2 ^ c) = table_entry ty x (lens ! x - r_bits r)"
        by (auto simp: found_def)
      moreover have "b \<le> 65535" using \<open>b + 2 ^ c \<le> _\<close> \<open>_ \<le> 65535\<close> by linarith
      ultimately show ?thesis by (intro exI [of _ c] exI [of _ b]) (simp add: add.assoc)
    qed
  qed
qed


section \<open>The fixed tables\<close>

definition fix_len :: "nat \<Rightarrow> nat" where
  "fix_len sy = (if sy < 144 then 8 else if sy < 256 then 9 else if sy < 280 then 7 else 8)"

definition fix_canon :: "nat \<Rightarrow> nat" where
  "fix_canon sy = (if sy < 144 then 48 + sy else if sy < 256 then 256 + sy else if sy < 280 then sy - 256 else sy - 88)"

text \<open>The symbol whose code word nine bits, first bit highest, begin with.\<close>

definition fix_sym :: "nat \<Rightarrow> nat" where
  "fix_sym x = (if x < 96 then 256 + x div 4 else if x < 384 then x div 2 - 48
                else if x < 400 then 88 + x div 2 else x - 256)"

text \<open>\<open>makefixed\<close> marks the two codes that are not used as invalid.\<close>

definition fix_entry :: "nat \<Rightarrow> nat \<Rightarrow> code" where
  "fix_entry sy l = (if sy < 286 then table_entry LENS sy l else invalid_code l)"

lemma nbits_msb: "nbits l v = msb_bits c l \<longleftrightarrow> v mod 2 ^ l = rv l c"
  unfolding msb_bits_rv by (metis bits_nat_nbits nbits_mod order_refl mod_less rv_less)

lemma fix_sym_iff:
  assumes "sy < 288"
  shows "nbits (fix_len sy) v = msb_bits (fix_canon sy) (fix_len sy) \<longleftrightarrow> fix_sym (rv 9 v) = sy"
proof -
  let ?l = "fix_len sy" and ?x = "fix_canon sy * 2 ^ (9 - fix_len sy)"
  have l: "?l \<le> 9" by (simp add: fix_len_def)
  have lt: "?x < 2 ^ 9" using assms by (auto simp: fix_canon_def fix_len_def)
  have "v mod 2 ^ ?l = rv ?l (fix_canon sy) \<longleftrightarrow> v mod 2 ^ ?l = rv 9 ?x"
    using rv_aligned [OF l, of ?x] by simp
  also have "\<dots> \<longleftrightarrow> ?x \<le> rv 9 v \<and> rv 9 v < ?x + 2 ^ (9 - ?l)"
    by (rule rv_interval [OF l]) (use lt in auto)
  also have "\<dots> \<longleftrightarrow> fix_sym (rv 9 v) = sy"
    using assms rv_less [of 9 v] by (auto simp: fix_sym_def fix_canon_def fix_len_def split: if_splits)
  finally show ?thesis by (simp add: nbits_msb)
qed

text \<open>All the reversed numbers of \<open>k\<close> bits, in order.\<close>

fun rv_list :: "nat \<Rightarrow> nat list" where
  "rv_list 0 = [0]"
| "rv_list (Suc k) = map (\<lambda>x. 2 * x) (rv_list k) @ map (\<lambda>x. 1 + 2 * x) (rv_list k)"

lemma rv_list_map: "rv_list k = map (rv k) [0..<2 ^ k]"
proof (induction k)
  case (Suc k)
  have "[0..<2 ^ Suc k] = [0..<2 ^ k] @ map (\<lambda>i. i + 2 ^ k) [0..<2 ^ k]"
    using upt_add_eq_append [of 0 "2 ^ k" "2 ^ k"] by (simp add: map_add_upt mult_2)
  moreover have "rv (Suc k) i = 2 * rv k i" if "i < 2 ^ k" for i
    using that bit_add_high [of i k 0 k] by (simp add: rv_Suc)
  moreover have "rv (Suc k) (i + 2 ^ k) = 1 + 2 * rv k i" if "i < 2 ^ k" for i
  proof -
    have "rv k (i + 2 ^ k) = rv k i" using rv_mod [of k "i + 2 ^ k"] that by simp
    moreover have "bit (i + 2 ^ k) k" using that bit_add_high [of i k 1 k] by (simp add: bit_0)
    ultimately show ?thesis by (simp add: rv_Suc)
  qed
  ultimately show ?case by (simp add: Suc)
qed (simp add: rv_def)

lemma table_entry_simps:
  "sy < 256 \<Longrightarrow> table_entry LENS sy l = cd 0 (word_of_nat l) (word_of_nat sy)"
  "table_entry LENS 256 l = cd 96 (word_of_nat l) 0"
  "257 \<le> sy \<Longrightarrow> table_entry LENS sy l = cd (word_of_nat (lext ! (sy - 257))) (word_of_nat l) (word_of_nat (lbase ! (sy - 257)))"
  "table_entry DISTS sy l = cd (word_of_nat (dext ! sy)) (word_of_nat l) (word_of_nat (dbase ! sy))"
  by (simp_all add: table_entry_def table_match_def Let_def)

lemma rv_list_numeral:
  "rv_list (numeral n) = map (\<lambda>x. 2 * x) (rv_list (pred_numeral n)) @ map (\<lambda>x. 1 + 2 * x) (rv_list (pred_numeral n))"
  by (simp add: numeral_eq_Suc)

lemma rv_list_5: "rv_list 5 = [0, 16, 8, 24, 4, 20, 12, 28, 2, 18, 10, 26, 6, 22, 14, 30, 1, 17, 9, 25, 5, 21,
    13, 29, 3, 19, 11, 27, 7, 23, 15, 31]"
  by (simp add: rv_list_numeral)

lemma distfix_map: "distfix = map (\<lambda>x. table_entry DISTS x 5) (rv_list 5)"
  unfolding rv_list_5 distfix_def by (simp add: table_entry_simps dext_def dbase_def)


lemma rv_list_9: "rv_list 9 =
    [0, 256, 128, 384, 64, 320, 192, 448, 32, 288, 160, 416, 96, 352, 224, 480, 16, 272, 144, 400, 80, 336, 208,
    464, 48, 304, 176, 432, 112, 368, 240, 496, 8, 264, 136, 392, 72, 328, 200, 456, 40, 296, 168, 424, 104,
    360, 232, 488, 24, 280, 152, 408, 88, 344, 216, 472, 56, 312, 184, 440, 120, 376, 248, 504, 4, 260, 132,
    388, 68, 324, 196, 452, 36, 292, 164, 420, 100, 356, 228, 484, 20, 276, 148, 404, 84, 340, 212, 468, 52,
    308, 180, 436, 116, 372, 244, 500, 12, 268, 140, 396, 76, 332, 204, 460, 44, 300, 172, 428, 108, 364,
    236, 492, 28, 284, 156, 412, 92, 348, 220, 476, 60, 316, 188, 444, 124, 380, 252, 508, 2, 258, 130, 386,
    66, 322, 194, 450, 34, 290, 162, 418, 98, 354, 226, 482, 18, 274, 146, 402, 82, 338, 210, 466, 50, 306,
    178, 434, 114, 370, 242, 498, 10, 266, 138, 394, 74, 330, 202, 458, 42, 298, 170, 426, 106, 362, 234,
    490, 26, 282, 154, 410, 90, 346, 218, 474, 58, 314, 186, 442, 122, 378, 250, 506, 6, 262, 134, 390, 70,
    326, 198, 454, 38, 294, 166, 422, 102, 358, 230, 486, 22, 278, 150, 406, 86, 342, 214, 470, 54, 310,
    182, 438, 118, 374, 246, 502, 14, 270, 142, 398, 78, 334, 206, 462, 46, 302, 174, 430, 110, 366, 238,
    494, 30, 286, 158, 414, 94, 350, 222, 478, 62, 318, 190, 446, 126, 382, 254, 510, 1, 257, 129, 385, 65,
    321, 193, 449, 33, 289, 161, 417, 97, 353, 225, 481, 17, 273, 145, 401, 81, 337, 209, 465, 49, 305, 177,
    433, 113, 369, 241, 497, 9, 265, 137, 393, 73, 329, 201, 457, 41, 297, 169, 425, 105, 361, 233, 489, 25,
    281, 153, 409, 89, 345, 217, 473, 57, 313, 185, 441, 121, 377, 249, 505, 5, 261, 133, 389, 69, 325, 197,
    453, 37, 293, 165, 421, 101, 357, 229, 485, 21, 277, 149, 405, 85, 341, 213, 469, 53, 309, 181, 437,
    117, 373, 245, 501, 13, 269, 141, 397, 77, 333, 205, 461, 45, 301, 173, 429, 109, 365, 237, 493, 29,
    285, 157, 413, 93, 349, 221, 477, 61, 317, 189, 445, 125, 381, 253, 509, 3, 259, 131, 387, 67, 323, 195,
    451, 35, 291, 163, 419, 99, 355, 227, 483, 19, 275, 147, 403, 83, 339, 211, 467, 51, 307, 179, 435, 115,
    371, 243, 499, 11, 267, 139, 395, 75, 331, 203, 459, 43, 299, 171, 427, 107, 363, 235, 491, 27, 283,
    155, 411, 91, 347, 219, 475, 59, 315, 187, 443, 123, 379, 251, 507, 7, 263, 135, 391, 71, 327, 199, 455,
    39, 295, 167, 423, 103, 359, 231, 487, 23, 279, 151, 407, 87, 343, 215, 471, 55, 311, 183, 439, 119,
    375, 247, 503, 15, 271, 143, 399, 79, 335, 207, 463, 47, 303, 175, 431, 111, 367, 239, 495, 31, 287,
    159, 415, 95, 351, 223, 479, 63, 319, 191, 447, 127, 383, 255, 511]"
  by (simp add: rv_list_numeral)

lemma lenfix_map: "lenfix = map (\<lambda>x. fix_entry (fix_sym x) (fix_len (fix_sym x))) (rv_list 9)"
  unfolding rv_list_9 lenfix_def
  by (simp add: fix_entry_def fix_sym_def fix_len_def table_entry_simps lext_def lbase_def invalid_code_def)


lemma lenfix_nth: "v < 512 \<Longrightarrow> lenfix ! v = fix_entry (fix_sym (rv 9 v)) (fix_len (fix_sym (rv 9 v)))"
  by (simp add: lenfix_map rv_list_map)

lemma distfix_nth: "v < 32 \<Longrightarrow> distfix ! v = table_entry DISTS (rv 5 v) 5"
  by (simp add: distfix_map rv_list_map)

text \<open>The code words are those of the sender's static trees.\<close>

lemma static_tree_code: "sy < 288 \<Longrightarrow> tree_code static_ltree sy = msb_bits (fix_canon sy) (fix_len sy)"
proof -
  assume sy: "sy < 288"
  let ?t = "map (ct 0) static_lens"
  have n: "nat (287 + 1) = 288" by simp
  have t: "static_ltree = gen_codes ?t 287 static_bl_count"
    using static_ltree_entries static_ltree_map by (simp add: init_static_ltree_def tree_consts)
  have len: "unat (static_lens ! m) = fix_len m" if "m < 288" for m
    using static_lens_nth [OF that] by (auto simp: fix_len_def)
  have "tree_code (gen_codes ?t 287 static_bl_count) sy
      = msb_bits (canon_code (bl_cnt static_bl_count) (tree_lens ?t) sy) (unat (Len (?t ! sy)))"
    using sy len by (intro tree_code_gen_codes) (auto simp: length_static_lens fix_len_def)
  moreover have "tree_lens ?t = map unat static_lens" by (simp add: tree_lens_def)
  moreover have "canon_code (bl_cnt static_bl_count) (map unat static_lens) sy = fix_canon sy"
    using canon_static [OF sy] by (simp add: fix_canon_def)
  ultimately show ?thesis using sy len by (simp add: t length_static_lens)
qed

interpretation lf: symbol_table "(!) lenfix" 9 "{..<288}" "tree_code static_ltree" fix_entry
proof
  show "(9 :: nat) \<le> 15" by simp
  show "(\<forall>v. \<exists>sy\<in>{..<288}. nbits (length (tree_code static_ltree sy)) v = tree_code static_ltree sy) \<or>
      (\<exists>sy. {..<288} = {sy} \<and> tree_code static_ltree sy = [False])"
  proof (rule disjI1, rule allI)
    fix v
    have "fix_sym (rv 9 v) < 288" using rv_less [of 9 v] by (auto simp: fix_sym_def)
    then show "\<exists>sy\<in>{..<288}. nbits (length (tree_code static_ltree sy)) v = tree_code static_ltree sy"
      using fix_sym_iff by (intro bexI [of _ "fix_sym (rv 9 v)"]) (simp_all add: static_tree_code)
  qed
  fix x assume x: "x \<in> {..<288 :: nat}"
  then have cw: "length (tree_code static_ltree x) = fix_len x" by (simp add: static_tree_code)
  show "unat (code_bits (fix_entry x l)) = l" if "l \<le> 15" for l
    using that by (simp add: fix_entry_def table_entry_bits invalid_code_def unat_of_nat)
  show "1 \<le> length (tree_code static_ltree x) \<and> length (tree_code static_ltree x) \<le> 15"
    by (simp add: cw fix_len_def)
  show "prefix (tree_code static_ltree x) (tree_code static_ltree y) \<Longrightarrow> x = y" if "y \<in> {..<288}" for y
    using static_code.enc_prefix_free [OF x that] .
  fix v assume v: "nbits (length (tree_code static_ltree x)) v = tree_code static_ltree x"
  then have "fix_sym (rv 9 v) = x" using fix_sym_iff [of x v] x by (simp add: static_tree_code)
  then show "lenfix ! (v mod 2 ^ 9) = fix_entry x (length (tree_code static_ltree x))"
    using lenfix_nth [of "v mod 2 ^ 9"] rv_mod [of 9 v] by (simp add: cw)
  show "9 < length (tree_code static_ltree x) \<Longrightarrow> \<exists>c b. lenfix ! (v mod 2 ^ 9) = link c 9 b \<and>
      length (tree_code static_ltree x) - 9 \<le> c \<and> c \<le> 15 \<and> b \<le> 65535 \<and>
      lenfix ! (b + v div 2 ^ 9 mod 2 ^ c) = fix_entry x (length (tree_code static_ltree x) - 9)"
    by (simp add: cw fix_len_def split: if_splits)
qed

text \<open>The distance tree of \<open>trees.c\<close> has 30 symbols, the table also the two codes that are not used.\<close>

definition fix_dist_bits :: "nat \<Rightarrow> bool list" where
  "fix_dist_bits sy = msb_bits sy 5"

lemma fix_dist_iff: "sy < 32 \<Longrightarrow> nbits 5 v = msb_bits sy 5 \<longleftrightarrow> rv 5 v = sy"
proof -
  assume "sy < 32"
  then have "sy mod 2 ^ 5 = sy" by simp
  then have "v mod 2 ^ 5 = rv 5 sy \<longleftrightarrow> rv 5 v = sy" by (metis rv_mod rv_rv)
  then show ?thesis by (simp only: nbits_msb)
qed

interpretation df: symbol_table "(!) distfix" 5 "{..<32}" fix_dist_bits "table_entry DISTS"
proof
  show "(5 :: nat) \<le> 15" by simp
  show "(\<forall>v. \<exists>sy\<in>{..<32}. nbits (length (fix_dist_bits sy)) v = fix_dist_bits sy) \<or>
      (\<exists>sy. {..<32} = {sy} \<and> fix_dist_bits sy = [False])"
  proof (rule disjI1, rule allI)
    fix v
    have "rv 5 v < 32" using rv_less [of 5 v] by simp
    then show "\<exists>sy\<in>{..<32}. nbits (length (fix_dist_bits sy)) v = fix_dist_bits sy"
      using fix_dist_iff by (intro bexI [of _ "rv 5 v"]) (simp_all add: fix_dist_bits_def)
  qed
  fix x assume x: "x \<in> {..<32 :: nat}"
  show "unat (code_bits (table_entry DISTS x l)) = l" if "l \<le> 15" for l
    using that by (rule table_entry_bits)
  show "1 \<le> length (fix_dist_bits x) \<and> length (fix_dist_bits x) \<le> 15" by (simp add: fix_dist_bits_def)
  show "x = y" if "y \<in> {..<32}" "prefix (fix_dist_bits x) (fix_dist_bits y)" for y
  proof -
    have "msb_bits x 5 = msb_bits y 5" using that(2) by (simp add: fix_dist_bits_def prefix_def) (metis append_eq_append_conv append_Nil2 length_msb_bits)
    then have "rv 5 x = rv 5 y" by (metis msb_bits_rv nbits_inj rv_less)
    then show ?thesis using rv_inj [of 5 x y] x that(1) by simp
  qed
  fix v assume "nbits (length (fix_dist_bits x)) v = fix_dist_bits x"
  then have "rv 5 v = x" using fix_dist_iff [of x v] x by (simp add: fix_dist_bits_def)
  then show "distfix ! (v mod 2 ^ 5) = table_entry DISTS x (length (fix_dist_bits x))"
    using distfix_nth [of "v mod 2 ^ 5"] rv_mod [of 5 v] by (simp add: fix_dist_bits_def)
  show "5 < length (fix_dist_bits x) \<Longrightarrow> \<exists>c b. distfix ! (v mod 2 ^ 5) = link c 5 b \<and>
      length (fix_dist_bits x) - 5 \<le> c \<and> c \<le> 15 \<and> b \<le> 65535 \<and>
      distfix ! (b + v div 2 ^ 5 mod 2 ^ c) = table_entry DISTS x (length (fix_dist_bits x) - 5)"
    by (simp add: fix_dist_bits_def)
qed

end
