(* ===== verification/Inflate_Tokens.thy ===== *)
theory Inflate_Tokens
  imports Decoder_Tables
begin

text \<open>
  The states \<open>LEN\<close> to \<open>MATCH\<close> of \<open>inflate()\<close> (\<open>src/src/zlib/inflate.c\<close>) against the format: a block is
  a sequence of tokens, each a literal or a match, whose bits are code words and extra bits, and whose
  meaning is what they append to the data decoded so far, the last of which may be in the window.
\<close>

section \<open>Tokens\<close>

text \<open>\<open>Match ls x ds y\<close>: length symbol \<open>257 + ls\<close> with the extra bits \<open>x\<close>, distance symbol \<open>ds\<close> with the
  extra bits \<open>y\<close>.\<close>

datatype token = Literal nat | Match nat nat nat nat

definition len_extra :: "nat \<Rightarrow> nat" where "len_extra ls = lext ! ls - 16"
definition dist_extra :: "nat \<Rightarrow> nat" where "dist_extra ds = dext ! ds - 16"

fun token_bits :: "(nat \<Rightarrow> bool list) \<Rightarrow> (nat \<Rightarrow> bool list) \<Rightarrow> token \<Rightarrow> bool list" where
  "token_bits lcw dcw (Literal c) = lcw c"
| "token_bits lcw dcw (Match ls x ds y) =
     lcw (257 + ls) @ nbits (len_extra ls) x @ dcw ds @ nbits (dist_extra ds) y"

fun token_len :: "token \<Rightarrow> nat" where
  "token_len (Literal c) = 1"
| "token_len (Match ls x ds y) = lbase ! ls + x"

text \<open>What a token appends to the data \<open>h\<close> decoded before it.\<close>

fun expand :: "u8 list \<Rightarrow> token \<Rightarrow> u8 list" where
  "expand h (Literal c) = h @ [word_of_nat c]"
| "expand h (Match ls x ds y) = lz_copy (dbase ! ds + y) (lbase ! ls + x) h"

text \<open>A token the tables can express whose distance reaches no further back than the data.\<close>

fun tok_ok :: "nat set \<Rightarrow> nat set \<Rightarrow> nat \<Rightarrow> token \<Rightarrow> bool" where
  "tok_ok lsyms dsyms h (Literal c) \<longleftrightarrow> c < 256 \<and> c \<in> lsyms"
| "tok_ok lsyms dsyms h (Match ls x ds y) \<longleftrightarrow>
     ls < 29 \<and> 257 + ls \<in> lsyms \<and> x < 2 ^ len_extra ls \<and>
     ds < 30 \<and> ds \<in> dsyms \<and> y < 2 ^ dist_extra ds \<and> dbase ! ds + y \<le> h"

fun toks_ok :: "nat set \<Rightarrow> nat set \<Rightarrow> nat \<Rightarrow> token list \<Rightarrow> bool" where
  "toks_ok lsyms dsyms h [] = True"
| "toks_ok lsyms dsyms h (t # ts) \<longleftrightarrow> tok_ok lsyms dsyms h t \<and> toks_ok lsyms dsyms (h + token_len t) ts"

section \<open>Overlapping copies\<close>

lemma length_lz_copy [simp]: "length (lz_copy d n h) = length h + n"
  by (induction n arbitrary: h) simp_all

lemma lz_copy_add: "lz_copy d (m + n) h = lz_copy d n (lz_copy d m h)"
  by (induction m arbitrary: h) simp_all

lemma lz_copy_append: "1 \<le> d \<Longrightarrow> d \<le> length h \<Longrightarrow> lz_copy d n (g @ h) = g @ lz_copy d n h"
proof (induction n arbitrary: h)
  case (Suc n)
  have "(g @ h) ! (length g + length h - d) = h ! (length h - d)"
    using Suc.prems by (auto simp: nth_append intro: arg_cong [where f = "(!) h"])
  then show ?case using Suc by (simp add: Suc.IH [of "h @ [h ! (length h - d)]", simplified])
qed simp

text \<open>A copy that does not reach its own output is a piece of the data.\<close>

lemma lz_copy_take: "n \<le> d \<Longrightarrow> d \<le> length h \<Longrightarrow> lz_copy d n h = h @ take n (drop (length h - d) h)"
proof (induction n arbitrary: h)
  case (Suc n)
  let ?h = "h @ [h ! (length h - d)]"
  have lt: "length h - d < length h" using Suc.prems by linarith
  have "lz_copy d (Suc n) h = lz_copy d n ?h" by simp
  also have "\<dots> = ?h @ take n (drop (length ?h - d) ?h)" by (rule Suc.IH) (use Suc.prems in simp_all)
  also have "\<dots> = h @ take (Suc n) (drop (length h - d) h)"
    using Suc.prems lt by (simp add: Suc_diff_le flip: Cons_nth_drop_Suc) 
  finally show ?case .
qed simp

section \<open>The window as history\<close>

text \<open>The byte \<open>d\<close> back from the start of the output, in the circular window.\<close>

definition win_at :: "z_inflate \<Rightarrow> nat \<Rightarrow> u8" where
  "win_at s d = the (i_window s) ! (if d \<le> i_wnext s then i_wnext s - d else i_wsize s + i_wnext s - d)"

definition win_hist :: "z_inflate \<Rightarrow> u8 list" where
  "win_hist s = map (\<lambda>i. win_at s (i_whave s - i)) [0..<i_whave s]"

definition win_ok :: "z_inflate \<Rightarrow> bool" where
  "win_ok s \<longleftrightarrow> i_whave s \<le> i_wsize s \<and> i_wnext s \<le> i_wsize s \<and> (i_wnext s = 0 \<or> i_wnext s \<le> i_whave s) \<and>
     (i_whave s < i_wsize s \<longrightarrow> i_wnext s = i_whave s) \<and>
     (i_whave s \<noteq> 0 \<longrightarrow> (\<exists>w. i_window s = Some w \<and> length w = i_wsize s))"

lemma length_win_hist [simp]: "length (win_hist s) = i_whave s"
  by (simp add: win_hist_def)

lemma win_hist_nth: "1 \<le> d \<Longrightarrow> d \<le> i_whave s \<Longrightarrow> win_hist s ! (i_whave s - d) = win_at s d"
  by (simp add: win_hist_def)

text \<open>A run of the window that does not cross its end.\<close>

lemma window_run:
  assumes ok: "win_ok s" and c: "1 \<le> c" "c \<le> i_whave s"
    and n: "n \<le> (if c > i_wnext s then c - i_wnext s else c)"
  shows "take n (drop (if c > i_wnext s then i_wsize s - (c - i_wnext s) else i_wnext s - c) (the (i_window s)))
    = take n (drop (i_whave s - c) (win_hist s))"
proof (rule nth_equalityI)
  let ?from = "if c > i_wnext s then i_wsize s - (c - i_wnext s) else i_wnext s - c"
  have w: "length (the (i_window s)) = i_wsize s" using ok c by (auto simp: win_ok_def)
  have fit: "?from + n \<le> i_wsize s"
    using ok c n by (auto simp: win_ok_def split: if_splits)
  have nc: "n \<le> c" using n by (auto split: if_splits)
  show "length (take n (drop ?from (the (i_window s)))) = length (take n (drop (i_whave s - c) (win_hist s)))"
    using w fit nc c by simp
  fix i assume "i < length (take n (drop ?from (the (i_window s))))"
  then have i: "i < n" by simp
  have "win_hist s ! (i_whave s - (c - i)) = win_at s (c - i)"
    using i nc c by (intro win_hist_nth) simp_all
  moreover have "i_whave s - (c - i) = i_whave s - c + i" using i nc c by simp
  moreover have "win_at s (c - i) = the (i_window s) ! (?from + i)"
    using i n ok c by (auto simp: win_at_def win_ok_def split: if_splits)
  ultimately show "take n (drop ?from (the (i_window s))) ! i = take n (drop (i_whave s - c) (win_hist s)) ! i"
    using i w fit c by simp
qed


section \<open>What a token does not touch\<close>

definition same_data :: "z_inflate \<Rightarrow> z_inflate \<Rightarrow> bool" where
  "same_data s t \<longleftrightarrow>
     t\<lparr>i_mode := i_mode s, next_in := next_in s, i_hold := i_hold s, i_bits := i_bits s, i_length := i_length s,
       i_offset := i_offset s, i_extra := i_extra s, i_back := i_back s, i_was := i_was s\<rparr> = s"

lemma same_data_refl [simp]: "same_data s s"
  by (simp add: same_data_def)

lemma same_data_upd [simp]:
  "same_data s (t\<lparr>i_mode := m\<rparr>) = same_data s t" "same_data s (t\<lparr>next_in := l\<rparr>) = same_data s t"
  "same_data s (t\<lparr>i_hold := n\<rparr>) = same_data s t" "same_data s (t\<lparr>i_bits := n\<rparr>) = same_data s t"
  "same_data s (t\<lparr>i_length := n\<rparr>) = same_data s t" "same_data s (t\<lparr>i_offset := n\<rparr>) = same_data s t"
  "same_data s (t\<lparr>i_extra := n\<rparr>) = same_data s t" "same_data s (t\<lparr>i_back := i\<rparr>) = same_data s t"
  "same_data s (t\<lparr>i_was := n\<rparr>) = same_data s t" "same_data s (dropbits n t) = same_data s t"
  by (simp_all add: same_data_def dropbits_def)

lemma same_data_from [simp]:
  "same_data (s\<lparr>i_mode := m\<rparr>) t = same_data s t" "same_data (s\<lparr>i_back := i\<rparr>) t = same_data s t"
  unfolding same_data_def by (cases s; cases t; auto)+

lemma same_data_trans: "same_data s t \<Longrightarrow> same_data t u \<Longrightarrow> same_data s u"
  unfolding same_data_def by (cases s; cases t; cases u) simp

lemma same_data_bits: "same_but_bits s t \<Longrightarrow> same_data s t"
  unfolding same_data_def same_but_bits_def by (cases s; cases t) simp

lemma same_data_bits_back: "same_but_bits s (t\<lparr>i_back := b\<rparr>) \<Longrightarrow> same_data s t"
  using same_data_bits [of s "t\<lparr>i_back := b\<rparr>"] by simp

lemma same_data_fields:
  assumes "same_data s t"
  shows "code_at t p = code_at s p" "i_lencode t = i_lencode s" "i_lenbits t = i_lenbits s"
    "i_distcode t = i_distcode s" "i_distbits t = i_distbits s" "put t = put s" "avail_out t = avail_out s"
    "l_out t = l_out s" "i_window t = i_window s" "i_wsize t = i_wsize s" "i_whave t = i_whave s"
    "i_wnext t = i_wnext s" "i_sane t = i_sane s" "win_hist t = win_hist s" "win_ok t = win_ok s" "i_last t = i_last s"
proof -
  obtain a b c d e f g h i where s: "s = t\<lparr>i_mode := a, next_in := b, i_hold := c, i_bits := d, i_length := e,
       i_offset := f, i_extra := g, i_back := h, i_was := i\<rparr>"
    using assms by (metis same_data_def)
  show "code_at t p = code_at s p" by (rule ext, cases p) (simp_all add: s code_at_def)
  show "i_lencode t = i_lencode s" "i_lenbits t = i_lenbits s"
    "i_distcode t = i_distcode s" "i_distbits t = i_distbits s" "put t = put s" "avail_out t = avail_out s"
    "l_out t = l_out s" "i_window t = i_window s" "i_wsize t = i_wsize s" "i_whave t = i_whave s"
    "i_wnext t = i_wnext s" "i_sane t = i_sane s" "win_hist t = win_hist s" "win_ok t = win_ok s" "i_last t = i_last s"
    by (simp_all add: s win_hist_def win_at_def win_ok_def)
qed

lemma in_bits_upd [simp]:
  "in_bits (t\<lparr>i_mode := m\<rparr>) = in_bits t" "in_bits (t\<lparr>i_length := n\<rparr>) = in_bits t"
  "in_bits (t\<lparr>i_offset := n\<rparr>) = in_bits t" "in_bits (t\<lparr>i_extra := n\<rparr>) = in_bits t"
  "in_bits (t\<lparr>i_back := i\<rparr>) = in_bits t" "in_bits (t\<lparr>i_was := n\<rparr>) = in_bits t"
  "in_bits (t\<lparr>put := b\<rparr>) = in_bits t" "in_bits (t\<lparr>avail_out := n\<rparr>) = in_bits t"
  by (simp_all add: in_bits_def)

lemma bits_ok_upd [simp]:
  "bits_ok (t\<lparr>i_mode := m\<rparr>) = bits_ok t" "bits_ok (t\<lparr>i_length := n\<rparr>) = bits_ok t"
  "bits_ok (t\<lparr>i_offset := n\<rparr>) = bits_ok t" "bits_ok (t\<lparr>i_extra := n\<rparr>) = bits_ok t"
  "bits_ok (t\<lparr>i_back := i\<rparr>) = bits_ok t" "bits_ok (t\<lparr>i_was := n\<rparr>) = bits_ok t"
  "bits_ok (t\<lparr>put := b\<rparr>) = bits_ok t" "bits_ok (t\<lparr>avail_out := n\<rparr>) = bits_ok t"
  by (simp_all add: bits_ok_def)

section \<open>Reading a field\<close>

lemma needbits_bound: "i_bits (snd (needbits n s)) \<le> max (i_bits s) (n + 7)"
proof (induction n s rule: needbits.induct)
  case (1 n s)
  show ?case
  proof (cases "i_bits s < n \<and> next_in s \<noteq> []")
    case True
    then obtain b r where b: "next_in s = b # r" by (cases "next_in s") auto
    have "needbits n s = needbits n (pull_byte b r s)" using True b by (subst needbits.simps) simp
    then show ?thesis using "1.IH" [OF _ b] True by (simp add: pull_byte_def le_max_iff_disj)
  next
    case False
    then have "snd (needbits n s) = s" by (subst needbits.simps) (auto split: list.splits)
    then show ?thesis by simp
  qed
qed

text \<open>\<open>NEEDBITS(n)\<close> followed by \<open>BITS(n)\<close> and \<open>DROPBITS(n)\<close> reads a field of \<open>n\<close> bits.\<close>

lemma read_field:
  assumes ok: "bits_ok s" and bits: "in_bits s = nbits n x @ rest" and x: "x < 2 ^ n"
  shows "\<exists>t. with_bits n s k = k t \<and> same_but_bits s t \<and> bits_val n t = x \<and> bits_ok (dropbits n t) \<and>
    in_bits (dropbits n t) = rest \<and> (i_bits s < 8 \<longrightarrow> i_bits (dropbits n t) < 8)"
proof -
  obtain b t where t: "needbits n s = (b, t)" by fastforce
  have b: "b" using needbits_iff [OF ok, of n] bits t by simp
  note spec = needbits_spec [OF ok t]
  have n: "n \<le> i_bits t" "bits_ok t" "in_bits t = in_bits s" "same_but_bits s t" using spec b by simp_all
  have "bits_val n t = x" using br.peek_stream [OF n(2,1)] n(3) bits x by simp
  moreover have "in_bits (dropbits n t) = rest" "bits_ok (dropbits n t)"
    using br.skip_stream [OF n(2,1)] br.skip_ok [OF n(2,1)] n(3) bits by simp_all
  moreover have "i_bits s < 8 \<longrightarrow> i_bits (dropbits n t) < 8"
    using needbits_bound [of n s] t by (auto simp: dropbits_def)
  moreover have "with_bits n s k = k t" using t b by (simp add: with_bits_def)
  ultimately show ?thesis using n(4) by blast
qed


section \<open>Reading a symbol\<close>

lemma pull_code_cong:
  "(\<And>t. same_but_bits s t \<Longrightarrow> get t = get' t) \<Longrightarrow> pull_code get used s = pull_code get' used s"
proof (induction get used s rule: pull_code.induct)
  case (1 get used s)
  have eq: "get s = get' s" using "1.prems" by simp
  show ?case
  proof (cases "used + unat (code_bits (get s)) \<le> i_bits s")
    case True
    then show ?thesis using eq by (subst (1 2) pull_code.simps) (simp add: Let_def)
  next
    case False
    show ?thesis
    proof (cases "next_in s")
      case Nil
      then show ?thesis using eq by (subst (1 2) pull_code.simps) (simp add: Let_def)
    next
      case (Cons b r)
      have "pull_code get used (pull_byte b r s) = pull_code get' used (pull_byte b r s)"
        by (rule "1.IH" [OF refl False Cons]) (use "1.prems" same_but_bits_trans [OF same_but_bits_pull] in blast)
      then show ?thesis using eq Cons by (subst (1 2) pull_code.simps) (simp add: Let_def)
    qed
  qed
qed

lemma pull_code_same: "pull_code get used s = (r, t) \<Longrightarrow> same_but_bits s t"
proof (induction get used s rule: pull_code.induct)
  case (1 get used s)
  show ?case
  proof (cases "used + unat (code_bits (get s)) \<le> i_bits s")
    case True
    then show ?thesis using "1.prems" by (subst (asm) pull_code.simps) (simp add: Let_def)
  next
    case False
    show ?thesis
    proof (cases "next_in s")
      case Nil
      then show ?thesis using "1.prems" False by (subst (asm) pull_code.simps) (simp add: Let_def)
    next
      case (Cons b bs)
      then have "pull_code get used (pull_byte b bs s) = (r, t)"
        using "1.prems" False by (subst (asm) pull_code.simps) (simp add: Let_def)
      then show ?thesis using "1.IH" [OF refl False Cons] same_but_bits_trans [OF same_but_bits_pull] by blast
    qed
  qed
qed

definition lit_link :: "code \<Rightarrow> bool" where
  "lit_link here \<longleftrightarrow> code_op here \<noteq> 0 \<and> code_op here AND 0xf0 = 0"

definition dist_link :: "code \<Rightarrow> bool" where
  "dist_link here \<longleftrightarrow> code_op here AND 0xf0 = 0"

text \<open>The first lookup of a state with its tables named by the state, as \<open>lookup_code\<close> has it.\<close>

lemma lookup_in_state:
  assumes "\<And>t. same_but_bits s t \<Longrightarrow> ptr t = p \<and> bts t = n"
  shows "lookup_code is_link p n s =
    (case pull_code (\<lambda>s. code_at s (ptr s) (bits_val (bts s) s)) 0 s of
        (None, s) \<Rightarrow> (None, s)
      | (Some here, s) \<Rightarrow> if is_link here then second_code (ptr s) here s else (Some here, s))"
proof -
  have eq: "pull_code (\<lambda>s. code_at s (ptr s) (bits_val (bts s) s)) 0 s = pull_code (\<lambda>s. code_at s p (bits_val n s)) 0 s"
    by (rule pull_code_cong) (use assms in simp)
  obtain r t where rt: "pull_code (\<lambda>s. code_at s p (bits_val n s)) 0 s = (r, t)" by fastforce
  then have "ptr t = p" using pull_code_same [OF rt] assms by blast
  then show ?thesis by (simp add: lookup_code_def eq rt split: option.split)
qed

lemma do_LEN_slow:
  assumes "\<not> (6 \<le> length (next_in s) \<and> 258 \<le> avail_out s)"
  shows "do_LEN s =
    (case lookup_code lit_link (i_lencode s) (i_lenbits s) (s\<lparr>i_back := 0\<rparr>) of
       (None, s) \<Rightarrow> Leave s
     | (Some here, s) \<Rightarrow>
         (let s = (dropbits (unat (code_bits here)) s)
                    \<lparr>i_back := i_back s + int (unat (code_bits here)), i_length := unat (code_val here)\<rparr>
          in if code_op here = 0 then Next (s\<lparr>i_mode := LIT\<rparr>)
             else if code_op here AND 32 \<noteq> 0 then Next (s\<lparr>i_back := -1, i_mode := TYPE_state\<rparr>)
             else if code_op here AND 64 \<noteq> 0 then bad ''invalid literal/length code'' s
             else Next (s\<lparr>i_extra := unat (code_op here AND 15), i_mode := LENEXT\<rparr>)))"
proof -
  have "lookup_code lit_link (i_lencode s) (i_lenbits s) (s\<lparr>i_back := 0\<rparr>) =
    (case pull_code (\<lambda>s. code_at s (i_lencode s) (bits_val (i_lenbits s) s)) 0 (s\<lparr>i_back := 0\<rparr>) of
        (None, s) \<Rightarrow> (None, s)
      | (Some here, s) \<Rightarrow> if lit_link here then second_code (i_lencode s) here s else (Some here, s))"
    by (rule lookup_in_state) (use same_but_bits_fields in fastforce)
  then show ?thesis
    unfolding do_LEN_def if_not_P [OF assms] by (auto simp: lit_link_def split: prod.splits option.splits)
qed

lemma do_DIST_lookup:
  "do_DIST s =
    (case lookup_code dist_link (i_distcode s) (i_distbits s) s of
       (None, s) \<Rightarrow> Leave s
     | (Some here, s) \<Rightarrow>
         (let s = (dropbits (unat (code_bits here)) s)\<lparr>i_back := i_back s + int (unat (code_bits here))\<rparr>
          in if code_op here AND 64 \<noteq> 0 then bad ''invalid distance code'' s
             else Next (s\<lparr>i_offset := unat (code_val here), i_extra := unat (code_op here AND 15), i_mode := DISTEXT\<rparr>)))"
proof -
  have "lookup_code dist_link (i_distcode s) (i_distbits s) s =
    (case pull_code (\<lambda>s. code_at s (i_distcode s) (bits_val (i_distbits s) s)) 0 s of
        (None, s) \<Rightarrow> (None, s)
      | (Some here, s) \<Rightarrow> if dist_link here then second_code (i_distcode s) here s else (Some here, s))"
    by (rule lookup_in_state) (use same_but_bits_fields in fastforce)
  then show ?thesis unfolding do_DIST_def by (auto simp: dist_link_def split: prod.splits option.splits)
qed


section \<open>The states of a token\<close>

lemma list_all_nth: "list_all P xs \<Longrightarrow> i < length xs \<Longrightarrow> P (xs ! i)"
  by (simp add: list_all_length)

text \<open>How the operation byte of an entry is told apart.\<close>

lemma link_op:
  fixes c :: nat
  assumes "1 \<le> c" "c \<le> 15"
  shows "(word_of_nat c :: u8) \<noteq> 0" "(word_of_nat c :: u8) AND 0xf0 = 0"
proof -
  have "list_all (\<lambda>c. (word_of_nat c :: u8) \<noteq> 0 \<and> (word_of_nat c :: u8) AND 0xf0 = 0) [1..<16]"
    by (simp add: upt_rec)
  moreover have "c \<in> set [1..<16]" using assms by simp
  ultimately show "(word_of_nat c :: u8) \<noteq> 0" "(word_of_nat c :: u8) AND 0xf0 = 0" by (auto simp: list_all_iff)
qed

lemma length_bases: "length lext = 31" "length lbase = 31" "length dext = 32" "length dbase = 32"
  by (simp_all add: lext_def lbase_def dext_def dbase_def)

lemma len_op:
  assumes "ls < 29"
  shows "(word_of_nat (lext ! ls) :: u8) AND 0xf0 \<noteq> 0" "(word_of_nat (lext ! ls) :: u8) AND 32 = 0"
    "(word_of_nat (lext ! ls) :: u8) AND 64 = 0" "unat ((word_of_nat (lext ! ls) :: u8) AND 15) = len_extra ls"
    "unat (word_of_nat (lbase ! ls) :: u16) = lbase ! ls" "(word_of_nat (lext ! ls) :: u8) AND 16 \<noteq> 0"
    "len_extra ls \<le> 5" "3 \<le> lbase ! ls" "lbase ! ls + 2 ^ len_extra ls \<le> 259"
proof -
  have "list_all (\<lambda>e. (word_of_nat e :: u8) AND 0xf0 \<noteq> 0 \<and> (word_of_nat e :: u8) AND 32 = 0 \<and>
      (word_of_nat e :: u8) AND 64 = 0 \<and> unat ((word_of_nat e :: u8) AND 15) = e - 16 \<and>
      (word_of_nat e :: u8) AND 16 \<noteq> 0 \<and> e - 16 \<le> 5) (take 29 lext)"
    by (simp add: lext_def)
  from list_all_nth [OF this, of ls] assms
  show "(word_of_nat (lext ! ls) :: u8) AND 0xf0 \<noteq> 0" "(word_of_nat (lext ! ls) :: u8) AND 32 = 0"
    "(word_of_nat (lext ! ls) :: u8) AND 64 = 0" "unat ((word_of_nat (lext ! ls) :: u8) AND 15) = len_extra ls"
    "(word_of_nat (lext ! ls) :: u8) AND 16 \<noteq> 0" "len_extra ls \<le> 5"
    by (simp_all add: len_extra_def length_bases)
  have "list_all (\<lambda>b. b < 65536) (take 29 lbase)" by (simp add: lbase_def)
  from list_all_nth [OF this, of ls] assms show "unat (word_of_nat (lbase ! ls) :: u16) = lbase ! ls"
    by (simp add: unat_of_nat length_bases)
  have "list_all (\<lambda>i. 3 \<le> lbase ! i \<and> lbase ! i + 2 ^ (lext ! i - 16) \<le> 259) [0..<29]"
    by (simp add: lbase_def lext_def upt_rec)
  then show "3 \<le> lbase ! ls" "lbase ! ls + 2 ^ len_extra ls \<le> 259"
    using assms by (auto simp: list_all_iff len_extra_def)
qed

lemma dist_op:
  assumes "ds < 30"
  shows "(word_of_nat (dext ! ds) :: u8) AND 0xf0 \<noteq> 0" "(word_of_nat (dext ! ds) :: u8) AND 64 = 0"
    "unat ((word_of_nat (dext ! ds) :: u8) AND 15) = dist_extra ds"
    "unat (word_of_nat (dbase ! ds) :: u16) = dbase ! ds" "1 \<le> dbase ! ds"
    "(word_of_nat (dext ! ds) :: u8) AND 16 \<noteq> 0" "dist_extra ds \<le> 13"
proof -
  have "list_all (\<lambda>e. (word_of_nat e :: u8) AND 0xf0 \<noteq> 0 \<and>
      (word_of_nat e :: u8) AND 64 = 0 \<and> unat ((word_of_nat e :: u8) AND 15) = e - 16 \<and>
      (word_of_nat e :: u8) AND 16 \<noteq> 0 \<and> e - 16 \<le> 13) (take 30 dext)"
    by (simp add: dext_def)
  from list_all_nth [OF this, of ds] assms
  show "(word_of_nat (dext ! ds) :: u8) AND 0xf0 \<noteq> 0" "(word_of_nat (dext ! ds) :: u8) AND 64 = 0"
    "unat ((word_of_nat (dext ! ds) :: u8) AND 15) = dist_extra ds"
    "(word_of_nat (dext ! ds) :: u8) AND 16 \<noteq> 0" "dist_extra ds \<le> 13"
    by (simp_all add: dist_extra_def length_bases)
  have "list_all (\<lambda>b. 1 \<le> b \<and> b < 65536) (take 30 dbase)" by (simp add: dbase_def)
  from list_all_nth [OF this, of ds] assms
  show "unat (word_of_nat (dbase ! ds) :: u16) = dbase ! ds" "1 \<le> dbase ! ds"
    by (simp_all add: unat_of_nat length_bases)
qed

text \<open>The tables in use hold the codes \<open>lcw\<close> and \<open>dcw\<close>.\<close>

definition block_tables :: "nat set \<Rightarrow> (nat \<Rightarrow> bool list) \<Rightarrow> nat set \<Rightarrow> (nat \<Rightarrow> bool list) \<Rightarrow> z_inflate \<Rightarrow> bool" where
  "block_tables lsyms lcw dsyms dcw s \<longleftrightarrow>
     (\<exists>entry. symbol_table (code_at s (i_lencode s)) (i_lenbits s) lsyms lcw entry \<and>
        (\<forall>sy l. sy < 286 \<longrightarrow> entry sy l = table_entry LENS sy l)) \<and>
     symbol_table (code_at s (i_distcode s)) (i_distbits s) dsyms dcw (table_entry DISTS)"

lemma block_tables_same: "same_data s t \<Longrightarrow> block_tables lsyms lcw dsyms dcw t = block_tables lsyms lcw dsyms dcw s"
  using same_data_fields [of s t] by (simp add: block_tables_def)

lemma lit_entry_not_link: "sy < 286 \<Longrightarrow> \<not> lit_link (table_entry LENS sy l)"
proof (cases "sy < 256")
  case False
  assume "sy < 286"
  then consider "sy = 256" | "257 \<le> sy" "sy - 257 < 29" using False by linarith
  then show ?thesis
  proof cases
    case 1
    then show ?thesis by (simp add: lit_link_def table_entry_simps)
  next
    case 2
    then show ?thesis using len_op(1) [of "sy - 257"] by (simp add: lit_link_def table_entry_simps)
  qed
qed (simp add: lit_link_def table_entry_simps)

text \<open>The symbol read in the states \<open>LEN\<close> and \<open>DIST\<close>.\<close>

definition slow :: "z_inflate \<Rightarrow> bool" where
  "slow s \<longleftrightarrow> \<not> (6 \<le> length (next_in s) \<and> 258 \<le> avail_out s)"

text \<open>\<open>t\<close> is where \<open>s\<close> is after reading some of its bits: \<open>rest\<close> is left.\<close>

definition reads :: "z_inflate \<Rightarrow> bool list \<Rightarrow> z_inflate \<Rightarrow> bool" where
  "reads s rest t \<longleftrightarrow> same_data s t \<and> bits_ok t \<and> in_bits t = rest \<and> (i_bits s < 8 \<longrightarrow> i_bits t < 8)"

lemma reads_trans: "reads s r t \<Longrightarrow> reads t r' u \<Longrightarrow> reads s r' u"
  by (auto simp: reads_def intro: same_data_trans)

lemma lookup_reads:
  assumes tab: "symbol_table (code_at s p) root syms cw entry" and sy: "sy \<in> syms"
    and ok: "bits_ok s" and bits: "in_bits s = cw sy @ rest"
    and link: "\<And>c b. 1 \<le> c \<Longrightarrow> c \<le> 15 \<Longrightarrow> is_link (link c root b)"
    and entry: "\<And>l. l \<le> 15 \<Longrightarrow> \<not> is_link (entry sy l)"
  shows "\<exists>l t. lookup_code is_link p root s = (Some (entry sy l), t) \<and>
    reads s rest (dropbits (unat (code_bits (entry sy l))) t) \<and> i_length t = i_length s"
proof -
  obtain l t where t: "lookup_code is_link p root s = (Some (entry sy l), t)" "unat (code_bits (entry sy l)) = l"
      "l \<le> i_bits t" "bits_ok t" "in_bits t = drop (length (cw sy) - l) (cw sy) @ rest" "l \<le> length (cw sy)"
      "same_but_bits s (t\<lparr>i_back := i_back s\<rparr>)" "i_bits s < 8 \<longrightarrow> i_bits t < l + 8"
    using lookup_code_correct [OF assms] by blast
  have "in_bits (dropbits l t) = rest" "bits_ok (dropbits l t)"
    using br.skip_stream [OF t(4,3)] br.skip_ok [OF t(4,3)] t(5,6) by simp_all
  moreover have "same_data s (dropbits l t)" using same_data_bits_back [OF t(7)] by simp
  moreover have "i_bits s < 8 \<longrightarrow> i_bits (dropbits l t) < 8" using t(3,8) by (auto simp: dropbits_def)
  moreover have "i_length t = i_length s" using t(7) unfolding same_but_bits_def by (cases s; cases t) simp
  ultimately show ?thesis using t(1,2) by (auto simp: reads_def)
qed

lemma reads_upd [simp]:
  "reads s r (t\<lparr>i_mode := m\<rparr>) = reads s r t" "reads s r (t\<lparr>i_length := n\<rparr>) = reads s r t"
  "reads s r (t\<lparr>i_offset := n\<rparr>) = reads s r t" "reads s r (t\<lparr>i_extra := n\<rparr>) = reads s r t"
  "reads s r (t\<lparr>i_back := i\<rparr>) = reads s r t" "reads s r (t\<lparr>i_was := n\<rparr>) = reads s r t"
  by (simp_all add: reads_def)


lemma LEN_lookup:
  assumes tab: "block_tables lsyms lcw dsyms dcw s" and sy: "sy \<in> lsyms" "sy < 286"
    and ok: "bits_ok s" and bits: "in_bits s = lcw sy @ rest"
  shows "\<exists>l t. lookup_code lit_link (i_lencode s) (i_lenbits s) (s\<lparr>i_back := 0\<rparr>) = (Some (table_entry LENS sy l), t) \<and>
    reads s rest (dropbits (unat (code_bits (table_entry LENS sy l))) t)"
proof -
  let ?s = "s\<lparr>i_back := 0\<rparr>"
  obtain entry where e: "symbol_table (code_at s (i_lencode s)) (i_lenbits s) lsyms lcw entry"
      "\<And>l. entry sy l = table_entry LENS sy l"
    using tab sy(2) by (auto simp: block_tables_def)
  have at: "code_at ?s p = code_at s p" for p by (rule ext, cases p) (simp_all add: code_at_def)
  have "\<exists>l t. lookup_code lit_link (i_lencode s) (i_lenbits s) ?s = (Some (entry sy l), t) \<and>
      reads ?s rest (dropbits (unat (code_bits (entry sy l))) t) \<and> i_length t = i_length ?s"
  proof (rule lookup_reads [OF e(1) [folded at] sy(1)])
    show "bits_ok ?s" "in_bits ?s = lcw sy @ rest" using ok bits by simp_all
    show "lit_link (link c (i_lenbits s) b)" if "1 \<le> c" "c \<le> 15" for c b
      using link_op [OF that] by (simp add: lit_link_def)
    show "\<not> lit_link (entry sy l)" for l using lit_entry_not_link [OF sy(2)] e(2) by simp
  qed
  moreover have "reads ?s rest u = reads s rest u" for u by (simp add: reads_def)
  ultimately show ?thesis using e(2) by auto
qed

lemma LEN_literal:
  assumes "slow s" "block_tables lsyms lcw dsyms dcw s" "c \<in> lsyms" "c < 256" "bits_ok s" "in_bits s = lcw c @ rest"
  shows "\<exists>t. do_LEN s = Next t \<and> i_mode t = LIT \<and> i_length t = c \<and> reads s rest t"
proof -
  obtain l t where t: "lookup_code lit_link (i_lencode s) (i_lenbits s) (s\<lparr>i_back := 0\<rparr>) = (Some (table_entry LENS c l), t)"
      "reads s rest (dropbits (unat (code_bits (table_entry LENS c l))) t)"
    using LEN_lookup [OF assms(2,3) _ assms(5,6)] assms(4) by auto
  have "unat (word_of_nat c :: u16) = c" using assms(4) by (simp add: unat_of_nat)
  then show ?thesis
    using t assms(1,4) by (simp add: do_LEN_slow slow_def Let_def table_entry_simps)
qed

lemma LEN_end:
  assumes "slow s" "block_tables lsyms lcw dsyms dcw s" "256 \<in> lsyms" "bits_ok s" "in_bits s = lcw 256 @ rest"
  shows "\<exists>t. do_LEN s = Next t \<and> i_mode t = TYPE_state \<and> reads s rest t"
proof -
  obtain l t where t: "lookup_code lit_link (i_lencode s) (i_lenbits s) (s\<lparr>i_back := 0\<rparr>) = (Some (table_entry LENS 256 l), t)"
      "reads s rest (dropbits (unat (code_bits (table_entry LENS 256 l))) t)"
    using LEN_lookup [OF assms(2,3) _ assms(4,5)] by auto
  then show ?thesis
    using assms(1) by (simp add: do_LEN_slow slow_def Let_def table_entry_simps)
qed

lemma LEN_length:
  assumes "slow s" "block_tables lsyms lcw dsyms dcw s" "257 + ls \<in> lsyms" "ls < 29" "bits_ok s"
    and "in_bits s = lcw (257 + ls) @ rest"
  shows "\<exists>t. do_LEN s = Next t \<and> i_mode t = LENEXT \<and> i_length t = lbase ! ls \<and> i_extra t = len_extra ls \<and> reads s rest t"
proof -
  obtain l t where t: "lookup_code lit_link (i_lencode s) (i_lenbits s) (s\<lparr>i_back := 0\<rparr>) = (Some (table_entry LENS (257 + ls) l), t)"
      "reads s rest (dropbits (unat (code_bits (table_entry LENS (257 + ls) l))) t)"
    using LEN_lookup [OF assms(2,3) _ assms(5,6)] assms(4) by auto
  have "(word_of_nat (lext ! ls) :: u8) \<noteq> 0" using len_op(1) [OF assms(4)] by auto
  then show ?thesis
    using t assms(1) len_op [OF assms(4)] by (simp add: do_LEN_slow slow_def Let_def table_entry_simps)
qed

lemma LENEXT_reads:
  assumes "i_extra s = len_extra ls" "bits_ok s" "in_bits s = nbits (len_extra ls) x @ rest" "x < 2 ^ len_extra ls"
  shows "\<exists>t. do_LENEXT s = Next t \<and> i_mode t = DIST \<and> i_length t = i_length s + x \<and> reads s rest t"
proof (cases "len_extra ls = 0")
  case True
  then show ?thesis using assms by (simp add: do_LENEXT_def Let_def reads_def nbits_def)
next
  case False
  let ?k = "\<lambda>s. Next ((dropbits (i_extra s) s)\<lparr>i_length := i_length s + bits_val (i_extra s) s,
      i_back := i_back s + int (i_extra s), i_was := i_length s + bits_val (i_extra s) s, i_mode := DIST\<rparr>)"
  obtain t where t: "with_bits (len_extra ls) s ?k = ?k t"
      "same_but_bits s t" "bits_val (len_extra ls) t = x" "bits_ok (dropbits (len_extra ls) t)"
      "in_bits (dropbits (len_extra ls) t) = rest" "i_bits s < 8 \<longrightarrow> i_bits (dropbits (len_extra ls) t) < 8"
    using read_field [OF assms(2-4), of ?k] by blast
  have same: "i_length t = i_length s" "i_extra t = len_extra ls"
    using t(2) assms(1) unfolding same_but_bits_def by (cases s; cases t; simp)+
  have "do_LENEXT s = with_bits (len_extra ls) s ?k"
    using False assms(1) by (simp add: do_LENEXT_def Let_def dropbits_def)
  then show ?thesis
    using t same same_data_bits [OF t(2)] by (simp add: reads_def)
qed

lemma DIST_reads:
  assumes tab: "block_tables lsyms lcw dsyms dcw s" and sy: "ds \<in> dsyms" "ds < 30"
    and ok: "bits_ok s" and bits: "in_bits s = dcw ds @ rest"
  shows "\<exists>t. do_DIST s = Next t \<and> i_mode t = DISTEXT \<and> i_offset t = dbase ! ds \<and> i_extra t = dist_extra ds \<and>
    i_length t = i_length s \<and> reads s rest t"
proof -
  have st: "symbol_table (code_at s (i_distcode s)) (i_distbits s) dsyms dcw (table_entry DISTS)"
    using tab by (simp add: block_tables_def)
  have "\<exists>l t. lookup_code dist_link (i_distcode s) (i_distbits s) s = (Some (table_entry DISTS ds l), t) \<and>
      reads s rest (dropbits (unat (code_bits (table_entry DISTS ds l))) t) \<and> i_length t = i_length s"
  proof (rule lookup_reads [OF st sy(1) ok bits])
    show "dist_link (link c (i_distbits s) b)" if "1 \<le> c" "c \<le> 15" for c b
      using link_op [OF that] by (simp add: dist_link_def)
    show "\<not> dist_link (table_entry DISTS ds l)" for l
      using dist_op(1) [OF sy(2)] by (simp add: dist_link_def table_entry_simps)
  qed
  then obtain l t where t: "lookup_code dist_link (i_distcode s) (i_distbits s) s = (Some (table_entry DISTS ds l), t)"
      "reads s rest (dropbits (unat (code_bits (table_entry DISTS ds l))) t)" "i_length t = i_length s" by blast
  then show ?thesis
    using dist_op [OF sy(2)] by (simp add: do_DIST_lookup Let_def table_entry_simps) (simp add: dropbits_def)
qed

lemma DISTEXT_reads:
  assumes "i_extra s = dist_extra ds" "bits_ok s" "in_bits s = nbits (dist_extra ds) y @ rest" "y < 2 ^ dist_extra ds"
  shows "\<exists>t. do_DISTEXT s = Next t \<and> i_mode t = MATCH \<and> i_offset t = i_offset s + y \<and> i_length t = i_length s \<and>
    reads s rest t"
proof (cases "dist_extra ds = 0")
  case True
  then show ?thesis using assms by (simp add: do_DISTEXT_def Let_def reads_def nbits_def)
next
  case False
  let ?k = "\<lambda>s. Next ((dropbits (i_extra s) s)\<lparr>i_offset := i_offset s + bits_val (i_extra s) s,
      i_back := i_back s + int (i_extra s), i_mode := MATCH\<rparr>)"
  obtain t where t: "with_bits (dist_extra ds) s ?k = ?k t"
      "same_but_bits s t" "bits_val (dist_extra ds) t = y" "bits_ok (dropbits (dist_extra ds) t)"
      "in_bits (dropbits (dist_extra ds) t) = rest" "i_bits s < 8 \<longrightarrow> i_bits (dropbits (dist_extra ds) t) < 8"
    using read_field [OF assms(2-4), of ?k] by blast
  have same: "i_length t = i_length s" "i_extra t = dist_extra ds" "i_offset t = i_offset s"
    using t(2) assms(1) unfolding same_but_bits_def by (cases s; cases t; simp)+
  have "do_DISTEXT s = with_bits (dist_extra ds) s ?k"
    using False assms(1) by (simp add: do_DISTEXT_def Let_def dropbits_def)
  then show ?thesis
    using t same same_data_bits [OF t(2)] by (simp add: reads_def) (simp add: dropbits_def)
qed

section \<open>Writing the data\<close>

definition out_ok :: "z_inflate \<Rightarrow> bool" where
  "out_ok s \<longleftrightarrow> l_out s = avail_out s + length (put s)"

abbreviation hist :: "z_inflate \<Rightarrow> u8 list" where
  "hist s \<equiv> win_hist s @ put s"

text \<open>\<open>t\<close> is \<open>s\<close> after the data have become \<open>h\<close>; the bits may have been read on.\<close>

definition outputs :: "z_inflate \<Rightarrow> u8 list \<Rightarrow> z_inflate \<Rightarrow> bool" where
  "outputs s h t \<longleftrightarrow> same_data (s\<lparr>put := put t, avail_out := avail_out t\<rparr>) t \<and> hist t = h \<and> out_ok t"

lemma outputs_same:
  assumes "outputs s h t"
  shows "block_tables lsyms lcw dsyms dcw t = block_tables lsyms lcw dsyms dcw s" "win_ok t = win_ok s"
    "win_hist t = win_hist s" "i_whave t = i_whave s" "l_out t = l_out s"
proof -
  let ?s = "s\<lparr>put := put t, avail_out := avail_out t\<rparr>"
  have same: "same_data ?s t" using assms by (simp add: outputs_def)
  have at: "code_at ?s p = code_at s p" for p by (rule ext, cases p) (simp_all add: code_at_def)
  show "block_tables lsyms lcw dsyms dcw t = block_tables lsyms lcw dsyms dcw s"
    using block_tables_same [OF same] by (simp add: block_tables_def at)
  show "win_ok t = win_ok s" "win_hist t = win_hist s" "i_whave t = i_whave s" "l_out t = l_out s"
    using same_data_fields [OF same] by (simp_all add: win_ok_def win_hist_def win_at_def)
qed

text \<open>A run copied out of the window is a piece of a match that starts \<open>c\<close> bytes back in it.\<close>

lemma window_piece:
  assumes ok: "win_ok s" and c: "1 \<le> c" "c \<le> i_whave s" and n: "n \<le> (if c > i_wnext s then c - i_wnext s else c)"
    and d: "d = c + length out" and fr: "fr = (if c > i_wnext s then i_wsize s - (c - i_wnext s) else i_wnext s - c)"
  shows "win_hist s @ window_copy (the (i_window s)) fr n out = lz_copy d n (win_hist s @ out)"
    and "length (window_copy (the (i_window s)) fr n out) = length out + n"
proof -
  have copy: "window_copy (the (i_window s)) fr n out = out @ take n (drop (i_whave s - c) (win_hist s))"
    unfolding window_copy_def fr window_run [OF ok c n] ..
  have nc: "n \<le> c" using n by (split if_split_asm) linarith
  have "lz_copy d n (win_hist s @ out) = (win_hist s @ out) @ take n (drop (length (win_hist s @ out) - d) (win_hist s @ out))"
    by (rule lz_copy_take) (use nc d c in simp_all)
  moreover have "length (win_hist s @ out) - d = i_whave s - c" using d by simp
  ultimately show "win_hist s @ window_copy (the (i_window s)) fr n out = lz_copy d n (win_hist s @ out)"
    using nc c by (simp add: copy)
  show "length (window_copy (the (i_window s)) fr n out) = length out + n"
    using nc c by (simp add: copy)
qed

text \<open>One piece of a match: \<open>do_MATCH\<close> copies at least one byte of it, from the window as far as it runs
  straight or from the output.\<close>

lemma MATCH_piece:
  assumes ok: "win_ok s" "out_ok s" and d: "1 \<le> i_offset s" "i_offset s \<le> length (hist s)"
    and n: "1 \<le> i_length s" "i_length s \<le> avail_out s"
  shows "\<exists>k out. 1 \<le> k \<and> k \<le> i_length s \<and> do_MATCH s = match_done k out s \<and> length out = length (put s) + k \<and>
    win_hist s @ out = lz_copy (i_offset s) k (hist s)"
proof -
  let ?d = "i_offset s" and ?p = "length (put s)"
  have out: "l_out s - avail_out s = ?p" and av: "avail_out s \<noteq> 0" using ok(2) n by (auto simp: out_ok_def)
  show ?thesis
  proof (cases "?d > ?p")
    case False
    then have "do_MATCH s = match_done (i_length s) (lz_copy ?d (i_length s) (put s)) s"
      using av n(2) by (simp add: do_MATCH_def Let_def out)
    then show ?thesis
      using False d(1) n(1) lz_copy_append [of ?d "put s" "i_length s" "win_hist s"]
      by (intro exI [of _ "i_length s"] exI [of _ "lz_copy ?d (i_length s) (put s)"] conjI) simp_all
  next
    case True
    let ?c = "?d - ?p"
    let ?c' = "if ?c > i_wnext s then ?c - i_wnext s else ?c"
    let ?from = "if ?c > i_wnext s then i_wsize s - (?c - i_wnext s) else i_wnext s - ?c"
    let ?k = "min ?c' (i_length s)"
    have c: "1 \<le> ?c" "?c \<le> i_whave s" using True d(2) by simp_all
    have "1 \<le> ?c'" using c(1) by (split if_split) linarith
    then have k: "1 \<le> ?k" "?k \<le> ?c'" using n(1) by simp_all
    have "do_MATCH s = match_done ?k (window_copy (the (i_window s)) ?from ?k (put s)) s"
    proof -
      have ok: "\<not> (?c > i_whave s \<and> i_sane s)" using c(2) by simp
      have m: "(if (if x > i_length s then i_length s else x) > avail_out s then avail_out s
          else (if x > i_length s then i_length s else x)) = min x (i_length s)" for x
        using n(2) by (simp add: min_def)
      show ?thesis
        unfolding do_MATCH_def Let_def out if_not_P [OF av] if_P [OF True] if_not_P [OF ok]
        by (cases "?c > i_wnext s") (simp_all only: if_True if_False prod.case m)
    qed
    moreover have "?d = ?c + length (put s)" using True by simp
    note window_piece [OF ok(1) c k(2) this refl]
    moreover have "?k \<le> i_length s" by simp
    ultimately show ?thesis using k(1) by metis
  qed
qed


definition steps :: "int \<Rightarrow> z_inflate \<Rightarrow> z_inflate \<Rightarrow> bool" where
  "steps flush = (\<lambda>s t. inflate_step flush s = Next t)\<^sup>*\<^sup>*"

lemma steps_refl [simp]: "steps flush s s"
  by (simp add: steps_def)

lemma steps_trans [trans]: "steps flush s t \<Longrightarrow> steps flush t u \<Longrightarrow> steps flush s u"
  unfolding steps_def by (rule rtranclp_trans)

lemma steps_one: "inflate_step flush s = Next t \<Longrightarrow> steps flush s t"
  unfolding steps_def by (rule r_into_rtranclp)

lemma steps_loop: "steps flush s t \<Longrightarrow> \<exists>n. \<forall>k. inflate_loop (n + k) flush s = inflate_loop k flush t"
  unfolding steps_def
proof (induction rule: converse_rtranclp_induct)
  case base
  show ?case by (rule exI [of _ 0]) simp
next
  case (step s u)
  then obtain n where "\<forall>k. inflate_loop (n + k) flush u = inflate_loop k flush t" by blast
  then show ?case using step(1) by (intro exI [of _ "Suc n"]) simp
qed

lemma outputs_trans: "outputs s h t \<Longrightarrow> outputs t h' u \<Longrightarrow> outputs s h' u"
proof -
  assume st: "outputs s h t" and tu: "outputs t h' u"
  have "same_data (s\<lparr>put := put t, avail_out := avail_out t\<rparr>) t" using st by (simp add: outputs_def)
  then have "same_data (s\<lparr>put := put u, avail_out := avail_out u\<rparr>) (t\<lparr>put := put u, avail_out := avail_out u\<rparr>)"
    unfolding same_data_def by (cases s; cases t) simp
  then show ?thesis using tu same_data_trans by (auto simp: outputs_def)
qed

lemma outputs_reads:
  assumes "outputs s h t" "reads t rest u"
  shows "outputs s h u"
proof -
  have "same_data (s\<lparr>put := put t, avail_out := avail_out t\<rparr>) t" "same_data t u" "hist t = h" "out_ok t"
    using assms by (simp_all add: outputs_def reads_def)
  moreover from this have "put u = put t" "avail_out u = avail_out t" "win_hist u = win_hist t" "l_out u = l_out t"
    using same_data_fields [of t u] by simp_all
  ultimately show ?thesis using same_data_trans [of "s\<lparr>put := put t, avail_out := avail_out t\<rparr>" t u]
    by (simp add: outputs_def out_ok_def)
qed

lemma win_upd [simp]:
  "win_hist (s\<lparr>avail_out := n\<rparr>) = win_hist s" "win_hist (s\<lparr>put := b\<rparr>) = win_hist s"
  "win_hist (s\<lparr>i_length := n\<rparr>) = win_hist s" "win_hist (s\<lparr>i_mode := m\<rparr>) = win_hist s"
  "win_hist (s\<lparr>i_back := i\<rparr>) = win_hist s" "win_ok (s\<lparr>i_back := i\<rparr>) = win_ok s"
  "win_ok (s\<lparr>avail_out := n\<rparr>) = win_ok s" "win_ok (s\<lparr>put := b\<rparr>) = win_ok s"
  "win_ok (s\<lparr>i_length := n\<rparr>) = win_ok s" "win_ok (s\<lparr>i_mode := m\<rparr>) = win_ok s"
  by (simp_all add: win_hist_def win_ok_def win_at_def)

text \<open>The turns of the state \<open>MATCH\<close> write the whole match and go back to \<open>LEN\<close>.\<close>

lemma MATCH_run:
  assumes "i_mode s = MATCH" "win_ok s" "out_ok s" "1 \<le> i_offset s" "i_offset s \<le> length (hist s)"
    and "1 \<le> i_length s" "i_length s \<le> avail_out s"
  shows "\<exists>t. steps flush s t \<and> i_mode t = LEN \<and> outputs s (lz_copy (i_offset s) (i_length s) (hist s)) t \<and>
    in_bits t = in_bits s \<and> i_bits t = i_bits s \<and> bits_ok t = bits_ok s"
  using assms
proof (induction "i_length s" arbitrary: s rule: less_induct)
  case less
  note s = less.prems
  obtain k out where k: "1 \<le> k" "k \<le> i_length s" "do_MATCH s = match_done k out s" "length out = length (put s) + k"
      "win_hist s @ out = lz_copy (i_offset s) k (hist s)"
    using MATCH_piece [OF s(2-7)] by blast
  let ?t = "s\<lparr>avail_out := avail_out s - k, i_length := i_length s - k, put := out\<rparr>"
  have hist: "hist ?t = lz_copy (i_offset s) k (hist s)" using k(5) by simp
  have ok: "win_ok ?t" "out_ok ?t"
    using s(2,3,7) k(2,4) by (simp_all add: out_ok_def)
  have out: "outputs s (lz_copy (i_offset s) k (hist s)) ?t"
    using hist ok(2) by (simp add: outputs_def)  (simp add: same_data_def)
  show ?case
  proof (cases "i_length s = k")
    case True
    let ?u = "?t\<lparr>i_mode := LEN\<rparr>"
    have "inflate_step flush s = Next ?u"
      using s(1) k(1,3) True by (simp add: inflate_step_def match_done_def Let_def)
    moreover have "outputs s (lz_copy (i_offset s) k (hist s)) ?u"
      using out by (simp add: outputs_def out_ok_def)
    ultimately show ?thesis
      using True steps_one by (intro exI [of _ ?u]) (simp add: in_bits_def bits_ok_def)
  next
    case False
    then have lt: "k < i_length s" using k(2) by simp
    have step: "inflate_step flush s = Next ?t"
      using s(1) k(1,3) lt by (simp add: inflate_step_def match_done_def Let_def)
    have "length (hist s) \<le> length (hist ?t)" unfolding hist by simp
    have p: "1 \<le> i_length s - k" "i_length s - k \<le> avail_out s - k" using s(7) lt by simp_all
    obtain u where u: "steps flush ?t u" "i_mode u = LEN"
        "outputs ?t (lz_copy (i_offset s) (i_length s - k) (hist ?t)) u" "in_bits u = in_bits ?t"
        "i_bits u = i_bits ?t" "bits_ok u = bits_ok ?t"
      using less.hyps [of ?t] s(1,4,5) k(1) lt ok p \<open>length (hist s) \<le> _\<close> by auto
    have "lz_copy (i_offset s) (i_length s - k) (hist ?t) = lz_copy (i_offset s) (i_length s) (hist s)"
      unfolding hist using lz_copy_add [of "i_offset s" k "i_length s - k" "hist s"] lt by simp
    then show ?thesis
      using steps_trans [OF steps_one [OF step] u(1)] outputs_trans [OF out] u(2-6)
      by (intro exI [of _ u]) (simp add: in_bits_def bits_ok_def)
  qed
qed


section \<open>One token\<close>

definition at_len :: "nat set \<Rightarrow> (nat \<Rightarrow> bool list) \<Rightarrow> nat set \<Rightarrow> (nat \<Rightarrow> bool list) \<Rightarrow> z_inflate \<Rightarrow> bool" where
  "at_len lsyms lcw dsyms dcw s \<longleftrightarrow>
     block_tables lsyms lcw dsyms dcw s \<and> bits_ok s \<and> i_bits s < 8 \<and> win_ok s \<and> out_ok s"

lemma at_len_outputs:
  "at_len lsyms lcw dsyms dcw s \<Longrightarrow> outputs s h t \<Longrightarrow> bits_ok t \<Longrightarrow> i_bits t < 8 \<Longrightarrow> at_len lsyms lcw dsyms dcw t"
  using outputs_same [of s h t] by (simp add: at_len_def outputs_def)

lemma reads_outputs: "reads s rest t \<Longrightarrow> out_ok s \<Longrightarrow> outputs s (hist s) t"
  using same_data_fields [of s t]
  by (simp add: reads_def outputs_def out_ok_def)

lemma avail_out_room: "out_ok s \<Longrightarrow> outputs s h t \<Longrightarrow> avail_out t + length h = avail_out s + length (hist s)"
proof -
  assume s: "out_ok s" and o: "outputs s h t"
  have "hist t = h" "out_ok t" using o by (simp_all add: outputs_def)
  moreover have "win_hist t = win_hist s" "l_out t = l_out s" using outputs_same [OF o] by simp_all
  ultimately have "length h = length (win_hist s) + length (put t)" "l_out s = avail_out t + length (put t)"
    by (auto simp: out_ok_def)
  then show ?thesis using s by (simp add: out_ok_def)
qed

lemma length_expand: "length (expand h tok) = length h + token_len tok"
  by (cases tok) simp_all

lemma expand_prefix: "\<exists>out. expand h tok = h @ out"
proof (cases tok)
  case (Match ls x ds y)
  have "\<exists>out. lz_copy d n h = h @ out" for d n
  proof (induction n arbitrary: h)
    case (Suc n)
    then show ?case by (metis append_assoc lz_copy.simps(2))
  qed simp
  then show ?thesis by (simp add: Match)
qed simp

lemma literal_slow:
  assumes s: "at_len lsyms lcw dsyms dcw s" "i_mode s = LEN" and slow: "slow s"
    and bits: "in_bits s = lcw c @ rest" and c: "c < 256" "c \<in> lsyms" and room: "1 \<le> avail_out s"
  shows "\<exists>t. steps flush s t \<and> i_mode t = LEN \<and> outputs s (hist s @ [word_of_nat c]) t \<and> in_bits t = rest \<and>
    bits_ok t \<and> i_bits t < 8"
proof -
  have ok: "block_tables lsyms lcw dsyms dcw s" "bits_ok s" "i_bits s < 8" "out_ok s" using s by (simp_all add: at_len_def)
  obtain t where t: "do_LEN s = Next t" "i_mode t = LIT" "i_length t = c" "reads s rest t"
    using LEN_literal [OF slow ok(1) c(2,1) ok(2) bits] by blast
  have out: "outputs s (hist s) t" by (rule reads_outputs [OF t(4) ok(4)])
  have av: "avail_out t = avail_out s" "put t = put s" using t(4) same_data_fields [of s t] by (simp_all add: reads_def)
  let ?u = "t\<lparr>put := put t @ [word_of_nat c], avail_out := avail_out t - 1, i_mode := LEN\<rparr>"
  have "inflate_step flush s = Next t" using s(2) t(1) by (simp add: inflate_step_def)
  moreover have "inflate_step flush t = Next ?u"
    using t(2,3) av room by (simp add: inflate_step_def do_LIT_def)
  ultimately have st: "steps flush s ?u" using steps_one steps_trans by blast
  have "outputs t (hist t @ [word_of_nat c]) ?u"
    using out av room by (simp add: outputs_def out_ok_def)
  from outputs_trans [OF out this] have "outputs s (hist t @ [word_of_nat c]) ?u" .
  moreover have "hist t = hist s" using out by (simp add: outputs_def)
  ultimately have "outputs s (hist s @ [word_of_nat c]) ?u" by (simp only:)
  moreover have "in_bits t = rest" "bits_ok t" "i_bits t < 8" using t(4) ok(3) by (simp_all add: reads_def)
  ultimately show ?thesis using st by (intro exI [of _ ?u]) simp
qed

lemma match_slow:
  assumes s: "at_len lsyms lcw dsyms dcw s" "i_mode s = LEN" and slow: "slow s"
    and bits: "in_bits s = token_bits lcw dcw (Match ls x ds y) @ rest"
    and tok: "tok_ok lsyms dsyms (length (hist s)) (Match ls x ds y)" and room: "lbase ! ls + x \<le> avail_out s"
  shows "\<exists>t. steps flush s t \<and> i_mode t = LEN \<and> outputs s (expand (hist s) (Match ls x ds y)) t \<and> in_bits t = rest \<and>
    bits_ok t \<and> i_bits t < 8"
proof -
  have ok: "block_tables lsyms lcw dsyms dcw s" "bits_ok s" "i_bits s < 8" "out_ok s" "win_ok s"
    using s by (simp_all add: at_len_def)
  have t: "ls < 29" "257 + ls \<in> lsyms" "x < 2 ^ len_extra ls" "ds < 30" "ds \<in> dsyms" "y < 2 ^ dist_extra ds"
      "dbase ! ds + y \<le> length (hist s)" using tok by simp_all
  let ?r3 = "nbits (dist_extra ds) y @ rest"
  let ?r2 = "dcw ds @ ?r3"
  let ?r1 = "nbits (len_extra ls) x @ ?r2"
  obtain s1 where s1: "do_LEN s = Next s1" "i_mode s1 = LENEXT" "i_length s1 = lbase ! ls" "i_extra s1 = len_extra ls"
      "reads s ?r1 s1"
    using LEN_length [OF slow ok(1) t(2,1) ok(2), of ?r1] bits by auto
  obtain s2 where s2: "do_LENEXT s1 = Next s2" "i_mode s2 = DIST" "i_length s2 = lbase ! ls + x" "reads s1 ?r2 s2"
    using LENEXT_reads [OF s1(4) _ _ t(3), of ?r2] s1(3,5) by (auto simp: reads_def)
  have r2: "reads s ?r2 s2" by (rule reads_trans [OF s1(5) s2(4)])
  then have b2: "block_tables lsyms lcw dsyms dcw s2" using block_tables_same [of s s2] ok(1) by (simp add: reads_def)
  obtain s3 where s3: "do_DIST s2 = Next s3" "i_mode s3 = DISTEXT" "i_offset s3 = dbase ! ds" "i_extra s3 = dist_extra ds"
      "i_length s3 = lbase ! ls + x" "reads s2 ?r3 s3"
    using DIST_reads [OF b2 t(5,4), of ?r3] s2(3) r2 by (auto simp: reads_def)
  obtain s4 where s4: "do_DISTEXT s3 = Next s4" "i_mode s4 = MATCH" "i_offset s4 = dbase ! ds + y"
      "i_length s4 = lbase ! ls + x" "reads s3 rest s4"
    using DISTEXT_reads [OF s3(4) _ _ t(6), of rest] s3(3,5,6) by (auto simp: reads_def)
  have r4: "reads s rest s4" using reads_trans r2 s3(6) s4(5) by blast
  have "inflate_step flush s = Next s1" "inflate_step flush s1 = Next s2" "inflate_step flush s2 = Next s3"
    "inflate_step flush s3 = Next s4"
    using s(2) s1(1,2) s2(1,2) s3(1,2) s4(1) by (simp_all add: inflate_step_def)
  then have st: "steps flush s s4" using steps_one steps_trans by blast
  have out: "outputs s (hist s) s4" by (rule reads_outputs [OF r4 ok(4)])
  have same: "hist s4 = hist s" "avail_out s4 = avail_out s"
    using r4 same_data_fields [of s s4] by (simp_all add: reads_def)
  have "win_ok s4" "out_ok s4" using outputs_same(2) [OF out] ok(5) out by (simp_all add: outputs_def)
  moreover have "1 \<le> i_offset s4" "i_offset s4 \<le> length (hist s4)" "1 \<le> i_length s4" "i_length s4 \<le> avail_out s4"
    using dist_op(5) [OF t(4)] len_op(8) [OF t(1)] t(7) room s4(3,4) unfolding same by simp_all
  ultimately obtain u where u: "steps flush s4 u" "i_mode u = LEN"
      "outputs s4 (lz_copy (i_offset s4) (i_length s4) (hist s4)) u" "in_bits u = in_bits s4" "i_bits u = i_bits s4"
      "bits_ok u = bits_ok s4"
    using MATCH_run [OF s4(2)] by blast
  have "outputs s (expand (hist s) (Match ls x ds y)) u"
    using outputs_trans [OF out u(3)] s4(3,4) same(1) by simp
  then show ?thesis
    using steps_trans [OF st u(1)] u(2,4-6) r4 ok(3) by (intro exI [of _ u]) (simp add: reads_def)
qed

end
