(* ===== verification/Fast_Tokens.thy ===== *)
theory Fast_Tokens
  imports Inflate_Tokens
begin

text \<open>
  \<open>inflate_fast\<close> (\<open>src/src/zlib/inffast.c\<close>) against the same format of tokens as the states of
  \<open>inflate()\<close>: each turn of its loop decodes one token without a check of the input, for which the six
  bytes asked for at its start are enough, and at the end the bytes not needed are given back.
\<close>

section \<open>The input of the loop\<close>

text \<open>\<open>bs\<close> are the bits from the first one in the accumulator at entry, where it held \<open>b\<close> bits.\<close>

definition fast_inv :: "u8 list \<Rightarrow> bool list \<Rightarrow> nat \<Rightarrow> fast_state \<Rightarrow> bool" where
  "fast_inv inp bs b f \<longleftrightarrow> f_ok f \<and> f_pos f \<le> length inp \<and>
     (\<exists>c. f_stream inp f = drop c bs \<and> f_bits f + c = b + 8 * f_pos f)"

lemma fast_inv_pull:
  assumes "fast_inv inp bs b f" "f_bits f < length (f_stream inp f)"
  shows "fast_inv inp bs b (f_pull inp f)" "f_stream inp (f_pull inp f) = f_stream inp f"
    "f_bits (f_pull inp f) = f_bits f + 8" "f_out (f_pull inp f) = f_out f"
proof -
  have ok: "f_ok f" and more: "f_pos f < length inp" using assms by (simp_all add: fast_inv_def)
  obtain c where c: "f_stream inp f = drop c bs" "f_bits f + c = b + 8 * f_pos f"
    using assms(1) by (auto simp: fast_inv_def)
  show st: "f_stream inp (f_pull inp f) = f_stream inp f" and bits: "f_bits (f_pull inp f) = f_bits f + 8"
    using fb.pull_stream [OF ok more] fb.pull_avail [OF ok more] by simp_all
  show "f_out (f_pull inp f) = f_out f" by (simp add: f_pull_def)
  have "f_bits (f_pull inp f) + c = b + 8 * f_pos (f_pull inp f)" "f_pos (f_pull inp f) \<le> length inp"
    using c(2) bits more by (simp_all add: f_pull_def)
  then show "fast_inv inp bs b (f_pull inp f)"
    using fb.pull_ok [OF ok more] c(1) st by (auto simp: fast_inv_def)
qed

lemma fast_inv_drop:
  assumes "fast_inv inp bs b f" "n \<le> f_bits f"
  shows "fast_inv inp bs b (f_drop n f)" "f_stream inp (f_drop n f) = drop n (f_stream inp f)"
    "f_bits (f_drop n f) = f_bits f - n" "f_out (f_drop n f) = f_out f"
proof -
  have ok: "f_ok f" using assms by (simp add: fast_inv_def)
  obtain c where c: "f_stream inp f = drop c bs" "f_bits f + c = b + 8 * f_pos f"
    using assms(1) by (auto simp: fast_inv_def)
  show st: "f_stream inp (f_drop n f) = drop n (f_stream inp f)" and bits: "f_bits (f_drop n f) = f_bits f - n"
    using fb.skip_stream [OF ok assms(2)] fb.skip_avail [OF ok assms(2)] by simp_all
  show "f_out (f_drop n f) = f_out f" by (simp add: f_drop_def)
  have "f_bits (f_drop n f) + (c + n) = b + 8 * f_pos (f_drop n f)"
    using c(2) bits assms(2) by (simp add: f_drop_def)
  moreover have "f_stream inp (f_drop n f) = drop (c + n) bs" by (simp add: st c(1) add.commute)
  ultimately show "fast_inv inp bs b (f_drop n f)"
    using fb.skip_ok [OF ok assms(2)] assms(1) unfolding fast_inv_def by (auto simp: f_drop_def)
qed

lemma fast_inv_out: "fast_inv inp bs b (f\<lparr>f_out := out\<rparr>) = fast_inv inp bs b f"
  "f_stream inp (f\<lparr>f_out := out\<rparr>) = f_stream inp f"
  by (simp_all add: fast_inv_def f_ok_def f_stream_def)

text \<open>Two bytes are pulled when there are fewer than 15 bits.\<close>

lemma need15:
  assumes "fast_inv inp bs b f" "23 \<le> length (f_stream inp f)"
  shows "fast_inv inp bs b (f_need15 inp f)" "f_stream inp (f_need15 inp f) = f_stream inp f"
    "15 \<le> f_bits (f_need15 inp f)" "f_out (f_need15 inp f) = f_out f"
proof -
  have "fast_inv inp bs b (f_need15 inp f) \<and> f_stream inp (f_need15 inp f) = f_stream inp f \<and>
    15 \<le> f_bits (f_need15 inp f) \<and> f_out (f_need15 inp f) = f_out f"
  proof (cases "f_bits f < 15")
  case True
  note one = fast_inv_pull [OF assms(1)]
  have p: "f_bits f < length (f_stream inp f)" using True assms(2) by simp
  have "f_bits (f_pull inp f) < length (f_stream inp (f_pull inp f))"
    using one(2,3) [OF p] True assms(2) by simp
  note two = fast_inv_pull [OF one(1) [OF p] this]
  show ?thesis
    using True two one [OF p] by (simp add: f_need15_def)
next
  case False
  then show ?thesis
    using assms by (simp add: f_need15_def)
  qed
  then show "fast_inv inp bs b (f_need15 inp f)" "f_stream inp (f_need15 inp f) = f_stream inp f"
    "15 \<le> f_bits (f_need15 inp f)" "f_out (f_need15 inp f) = f_out f" by blast+
qed

text \<open>One byte is pulled when there are fewer than \<open>n\<close> bits.\<close>

definition f_need1 :: "u8 list \<Rightarrow> nat \<Rightarrow> fast_state \<Rightarrow> fast_state" where
  "f_need1 inp n f = (if f_bits f < n then f_pull inp f else f)"

lemma need1:
  assumes "fast_inv inp bs b f" "n \<le> length (f_stream inp f)"
  shows "fast_inv inp bs b (f_need1 inp n f)" "f_stream inp (f_need1 inp n f) = f_stream inp f"
    "min n (f_bits f + 8) \<le> f_bits (f_need1 inp n f)" "f_out (f_need1 inp n f) = f_out f"
  using assms fast_inv_pull [OF assms(1)] by (auto simp: f_need1_def)

text \<open>A field of \<open>n\<close> bits.\<close>

lemma fast_field:
  assumes inv: "fast_inv inp bs b f" and bits: "f_stream inp f = nbits n x @ rest" and x: "x < 2 ^ n" and n: "n \<le> f_bits f"
  shows "f_hold f mod 2 ^ n = x" "fast_inv inp bs b (f_drop n f)" "f_stream inp (f_drop n f) = rest"
    "f_out (f_drop n f) = f_out f"
proof -
  have ok: "f_ok f" using inv by (simp add: fast_inv_def)
  show "f_hold f mod 2 ^ n = x" using fb.peek_stream [OF ok n, of inp] bits x by (simp add: f_peek_def)
  show "fast_inv inp bs b (f_drop n f)" "f_stream inp (f_drop n f) = rest" "f_out (f_drop n f) = f_out f"
    using fast_inv_drop [OF inv n] bits by simp_all
qed

section \<open>A code word\<close>

lemma fast_shows: "f_ok f \<Longrightarrow> f_pos f \<le> length inp \<Longrightarrow> shows_bits (f_bits f) (f_hold f) (f_stream inp f)"
  by (simp add: shows_bits_def f_ok_def f_stream_def)

text \<open>With all the bits there, the first entry is the symbol's or the link to it.\<close>

lemma fast_lookup:
  assumes tab: "symbol_table look root syms cw entry" and sy: "sy \<in> syms"
    and inv: "fast_inv inp bs b f" and bits: "f_stream inp f = cw sy @ rest" and all: "length (cw sy) \<le> f_bits f"
  obtains (here) "look (f_hold f mod 2 ^ root) = entry sy (length (cw sy))"
      "unat (code_bits (entry sy (length (cw sy)))) = length (cw sy)"
  | (link) c k where "look (f_hold f mod 2 ^ root) = link c root k" "1 \<le> c" "c \<le> 15" "k \<le> 65535" "root \<le> 15"
      "root \<le> length (cw sy)"
      "look (k + f_hold (f_drop root f) mod 2 ^ c) = entry sy (length (cw sy) - root)"
      "unat (code_bits (entry sy (length (cw sy) - root))) = length (cw sy) - root"
proof -
  have seen: "shows_bits (f_bits f) (f_hold f) (cw sy @ rest)"
    using fast_shows [of f inp] inv bits by (simp add: fast_inv_def)
  have v: "nbits (length (cw sy)) (f_hold f) = cw sy" using shows_take [OF seen all] by simp
  have n: "length (cw sy) \<le> 15" using symbol_table.cw_len [OF tab sy] by simp
  note eb = symbol_table.entry_bits [OF tab sy]
  show thesis
  proof (cases "length (cw sy) \<le> root")
    case True
    show thesis
      by (rule here) (use symbol_table.direct [OF tab sy v True] eb [OF n] in simp_all)
  next
    case False
    then obtain c k where c: "look (f_hold f mod 2 ^ root) = link c root k" "length (cw sy) - root \<le> c" "c \<le> 15"
        "k \<le> 65535" "look (k + f_hold f div 2 ^ root mod 2 ^ c) = entry sy (length (cw sy) - root)"
      using symbol_table.linked [OF tab sy v] by auto
    show thesis
      by (rule link [OF c(1) _ c(3,4)])
        (use c(2,5) False n symbol_table.root_le [OF tab] eb [of "length (cw sy) - root"] in \<open>simp_all add: f_drop_def\<close>)
  qed
qed


section \<open>A match\<close>

text \<open>The rest of a match comes from the output once the window is used up.\<close>

lemma lz_copy_rest:
  assumes "h @ out' = lz_copy d k (h @ out)" "1 \<le> d" "d \<le> length out'" "k \<le> n"
  shows "h @ lz_copy d (n - k) out' = lz_copy d n (h @ out)"
  using lz_copy_append [OF assms(2,3), of "n - k" h] lz_copy_add [of d k "n - k" "h @ out"] assms(1,4) by simp

lemma fast_window_copy_correct:
  assumes ok: "win_ok s" and op: "1 \<le> op" "op \<le> i_whave s" "dist = op + length out" and len: "1 \<le> len"
  shows "win_hist s @ fast_window_copy s dist len op out = lz_copy dist len (win_hist s @ out)"
proof -
  let ?w = "the (i_window s)" and ?n = "i_wnext s"
  have d: "1 \<le> dist" using op by simp
  consider (zero) "?n = 0" | (wrap) "?n \<noteq> 0" "?n < op" | (run) "?n \<noteq> 0" "op \<le> ?n" by linarith
  then show ?thesis
  proof cases
    case zero
    note p = window_piece [OF ok op(1,2) _ op(3), of _ "i_wsize s - op"]
    have fr: "i_wsize s - op = (if op > ?n then i_wsize s - (op - ?n) else ?n - op)" using zero op(1) by simp
    show ?thesis
    proof (cases "op < len")
      case True
      have o: "win_hist s @ window_copy ?w (i_wsize s - op) op out = lz_copy dist op (win_hist s @ out)"
          "length (window_copy ?w (i_wsize s - op) op out) = length out + op"
        using p [OF _ fr, of op] zero by simp_all
      then show ?thesis
        using True zero lz_copy_rest [OF o(1) d, of len] op(3) by (simp add: fast_window_copy_def Let_def)
    next
      case False
      then show ?thesis using zero p(1) [OF _ fr, of len] op(1) by (simp add: fast_window_copy_def Let_def)
    qed
  next
    case wrap
    let ?o1 = "op - ?n" and ?fr = "i_wsize s + ?n - op"
    have fr: "?fr = (if op > ?n then i_wsize s - (op - ?n) else ?n - op)"
      using wrap ok op(2) by (auto simp: win_ok_def)
    note p = window_piece [OF ok op(1,2) _ op(3) fr]
    show ?thesis
    proof (cases "?o1 < len")
      case False
      then show ?thesis using wrap p(1) [of len] by (simp add: fast_window_copy_def Let_def)
    next
      case True
      let ?out1 = "window_copy ?w ?fr ?o1 out" and ?len1 = "len - ?o1"
      have o1: "win_hist s @ ?out1 = lz_copy dist ?o1 (win_hist s @ out)" "length ?out1 = length out + ?o1"
        using p [of ?o1] wrap by simp_all
      have n: "1 \<le> ?n" "?n \<le> i_whave s" using wrap op(2) by simp_all
      have d1: "dist = ?n + length ?out1" using o1(2) op(3) wrap(2) by simp
      note q = window_piece [OF ok n _ d1, of _ 0]
      have step: "lz_copy dist ?len1 (win_hist s @ ?out1) = lz_copy dist len (win_hist s @ out)"
        using lz_copy_add [of dist ?o1 ?len1 "win_hist s @ out"] o1(1) True by simp
      show ?thesis
      proof (cases "?n < ?len1")
        case False
        then show ?thesis using wrap True q(1) [of ?len1] step by (simp add: fast_window_copy_def Let_def)
      next
        case more: True
        have o2: "win_hist s @ window_copy ?w 0 ?n ?out1 = lz_copy dist ?n (win_hist s @ ?out1)"
            "length (window_copy ?w 0 ?n ?out1) = length ?out1 + ?n"
          using q [of ?n] by simp_all
        have "win_hist s @ lz_copy dist (?len1 - ?n) (window_copy ?w 0 ?n ?out1) = lz_copy dist ?len1 (win_hist s @ ?out1)"
          by (rule lz_copy_rest [OF o2(1) d]) (use o2(2) d1 more in simp_all)
        then show ?thesis using wrap True more step by (simp add: fast_window_copy_def Let_def)
      qed
    qed
  next
    case run
    have fr: "?n - op = (if op > ?n then i_wsize s - (op - ?n) else ?n - op)" using run by simp
    note p = window_piece [OF ok op(1,2) _ op(3) fr]
    show ?thesis
    proof (cases "op < len")
      case True
      have o: "win_hist s @ window_copy ?w (?n - op) op out = lz_copy dist op (win_hist s @ out)"
          "length (window_copy ?w (?n - op) op out) = length out + op"
        using p [of op] run by simp_all
      then show ?thesis
        using True run lz_copy_rest [OF o(1) d, of len] op(3) by (simp add: fast_window_copy_def Let_def)
    next
      case False
      then show ?thesis using run p(1) [of len] by (simp add: fast_window_copy_def Let_def)
    qed
  qed
qed

lemma fast_copy_correct:
  assumes "win_ok s" "1 \<le> dist" "dist \<le> length (win_hist s @ f_out f)" "1 \<le> len"
  shows "\<exists>out. fast_copy s 0 dist len f = F_next (f\<lparr>f_out := out\<rparr>) \<and>
    win_hist s @ out = lz_copy dist len (win_hist s @ f_out f)"
proof (cases "dist > length (f_out f)")
  case True
  have "dist - length (f_out f) \<le> i_whave s" using assms(3) by simp
  then have "\<not> (dist - length (f_out f) > i_whave s \<and> i_sane s)" by simp
  then show ?thesis
    using True assms fast_window_copy_correct [OF assms(1), of "dist - length (f_out f)" dist "f_out f" len]
    by (intro exI [of _ "fast_window_copy s dist len (dist - length (f_out f)) (f_out f)"])
      (simp add: fast_copy_def Let_def)
next
  case False
  then show ?thesis using assms lz_copy_append [of dist "f_out f" len "win_hist s"] by (simp add: fast_copy_def Let_def)
qed

lemma link_op16: "c \<le> 15 \<Longrightarrow> (word_of_nat c :: u8) AND 16 = 0 \<and> (word_of_nat c :: u8) AND 64 = 0 \<and> unat (word_of_nat c :: u8) = c"
proof -
  assume "c \<le> 15"
  moreover have "list_all (\<lambda>c. (word_of_nat c :: u8) AND 16 = 0 \<and> (word_of_nat c :: u8) AND 64 = 0 \<and> unat (word_of_nat c :: u8) = c) [0..<16]"
    by (simp add: upt_rec)
  ultimately show ?thesis by (auto simp: list_all_iff)
qed

text \<open>\<open>dodist\<close> on the entry of a distance symbol.\<close>

lemma fast_dist_entry:
  assumes ok: "win_ok s" and inv: "fast_inv inp bs b f" and e: "unat (code_bits (table_entry DISTS ds l)) = l" "l \<le> f_bits f"
    and ds: "ds < 30" "y < 2 ^ dist_extra ds" and bits: "drop l (f_stream inp f) = nbits (dist_extra ds) y @ rest"
    and all: "l \<le> length (f_stream inp f)"
    and d: "dbase ! ds + y \<le> length (win_hist s @ f_out f)" and len: "1 \<le> len"
  shows "\<exists>f'. fast_dodist (Suc fuel) s inp 0 len (table_entry DISTS ds l) f = F_next f' \<and>
    fast_inv inp bs b f' \<and> f_stream inp f' = rest \<and>
    win_hist s @ f_out f' = lz_copy (dbase ! ds + y) len (win_hist s @ f_out f)"
proof -
  let ?e = "dist_extra ds"
  let ?f1 = "f_drop l f"
  note op = dist_op [OF ds(1)]
  note d1 = fast_inv_drop [OF inv e(2)]
  let ?f2 = "f_need1 inp ?e ?f1"
  let ?f3 = "f_need1 inp ?e ?f2"
  have st1: "f_stream inp ?f1 = nbits ?e y @ rest" using d1(2) bits by simp
  note n2 = need1 [OF d1(1), of ?e] 
  have e2: "?e \<le> length (f_stream inp ?f1)" by (simp add: st1)
  note n2 = need1 [OF d1(1) e2]
  have e3: "?e \<le> length (f_stream inp ?f2)" using n2(2) e2 by simp
  note n3 = need1 [OF n2(1) e3]
  have enough: "?e \<le> f_bits ?f3" using n2(3) n3(3) op(7) by linarith
  have st3: "f_stream inp ?f3 = nbits ?e y @ rest" using n2(2) n3(2) st1 by simp
  note fld = fast_field [OF n3(1) st3 ds(2) enough]
  have out: "f_out (f_drop ?e ?f3) = f_out f" using fld(4) n3(4) n2(4) d1(4) by simp
  obtain out' where copy: "fast_copy s 0 (dbase ! ds + y) len (f_drop ?e ?f3) = F_next ((f_drop ?e ?f3)\<lparr>f_out := out'\<rparr>)"
      "win_hist s @ out' = lz_copy (dbase ! ds + y) len (win_hist s @ f_out f)"
    using fast_copy_correct [OF ok, of "dbase ! ds + y" "f_drop ?e ?f3" len] op(5) d len out by auto
  have "fast_dodist (Suc fuel) s inp 0 len (table_entry DISTS ds l) f = fast_copy s 0 (dbase ! ds + y) len (f_drop ?e ?f3)"
    using op e(1) fld(1) by (simp add: Let_def table_entry_simps f_need1_def [symmetric])
  then show ?thesis
    using copy fld(2,3) by (intro exI [of _ "(f_drop ?e ?f3)\<lparr>f_out := out'\<rparr>"]) (simp add: fast_inv_out)
qed


lemma fast_dist:
  assumes ok: "win_ok s" and tab: "symbol_table (code_at s (i_distcode s)) (i_distbits s) dsyms dcw (table_entry DISTS)"
    and inv: "fast_inv inp bs b f" and sy: "ds \<in> dsyms" "ds < 30" "y < 2 ^ dist_extra ds"
    and bits: "f_stream inp f = dcw ds @ nbits (dist_extra ds) y @ rest" and all: "15 \<le> f_bits f"
    and d: "dbase ! ds + y \<le> length (win_hist s @ f_out f)" and len: "1 \<le> len"
  shows "\<exists>f'. fast_dodist (Suc (Suc fuel)) s inp 0 len
      (code_at s (i_distcode s) (f_hold f mod 2 ^ i_distbits s)) f = F_next f' \<and>
    fast_inv inp bs b f' \<and> f_stream inp f' = rest \<and>
    win_hist s @ f_out f' = lz_copy (dbase ! ds + y) len (win_hist s @ f_out f)"
proof -
  let ?n = "length (dcw ds)" and ?root = "i_distbits s"
  have n: "?n \<le> 15" using symbol_table.cw_len [OF tab sy(1)] by simp
  then have "?n \<le> f_bits f" using all by simp
  from tab sy(1) inv bits this show ?thesis
  proof (cases rule: fast_lookup)
    case here
    show ?thesis
      unfolding here(1)
      by (rule fast_dist_entry [OF ok inv here(2) _ sy(2,3) _ _ d len]) (use bits n all in simp_all)
  next
    case (link c k)
    let ?f = "f_drop ?root f" and ?e = "table_entry DISTS ds (?n - ?root)"
    have "?root \<le> f_bits f" using link(6) n all by simp
    note dr = fast_inv_drop [OF inv this]
    note op = link_op16 [OF link(3)]
    have "fast_dodist (Suc (Suc fuel)) s inp 0 len (code_at s (i_distcode s) (f_hold f mod 2 ^ ?root)) f
        = fast_dodist (Suc fuel) s inp 0 len ?e ?f"
      unfolding link(1) using op link(4,5,7) by (subst fast_dodist.simps(2)) (simp add: Let_def unat_of_nat del: fast_dodist.simps)
    moreover have "\<exists>f'. fast_dodist (Suc fuel) s inp 0 len ?e ?f = F_next f' \<and> fast_inv inp bs b f' \<and> f_stream inp f' = rest \<and>
        win_hist s @ f_out f' = lz_copy (dbase ! ds + y) len (win_hist s @ f_out ?f)"
    proof (rule fast_dist_entry [OF ok dr(1) link(8) _ sy(2,3) _ _ _ len])
      show "?n - ?root \<le> f_bits ?f" using dr(3) n all link(6) by simp
      show "drop (?n - ?root) (f_stream inp ?f) = nbits (dist_extra ds) y @ rest"
        using dr(2) bits link(6) by simp
      show "?n - ?root \<le> length (f_stream inp ?f)" using dr(2) bits by simp
      show "dbase ! ds + y \<le> length (win_hist s @ f_out ?f)" using d dr(4) by simp
    qed
    ultimately show ?thesis using dr(4) by simp
  qed
qed

section \<open>A token\<close>

text \<open>What one turn of the loop makes of an entry: \<open>F_next\<close> with the token's data, or the end.\<close>

definition token_done :: "z_inflate \<Rightarrow> u8 list \<Rightarrow> bool list \<Rightarrow> nat \<Rightarrow> bool list \<Rightarrow> u8 list \<Rightarrow> fast_state \<Rightarrow> bool" where
  "token_done s inp bs b rest h f \<longleftrightarrow> fast_inv inp bs b f \<and> f_stream inp f = rest \<and> win_hist s @ f_out f = h"

definition fast_tables :: "nat set \<Rightarrow> (nat \<Rightarrow> bool list) \<Rightarrow> nat set \<Rightarrow> (nat \<Rightarrow> bool list) \<Rightarrow> z_inflate \<Rightarrow> bool" where
  "fast_tables lsyms lcw dsyms dcw s \<longleftrightarrow> block_tables lsyms lcw dsyms dcw s \<and> win_ok s"

lemma fast_literal_entry:
  assumes inv: "fast_inv inp bs b f" and e: "unat (code_bits (table_entry LENS c l)) = l" "l \<le> f_bits f" and c: "c < 256"
  shows "\<exists>f'. fast_dolen (Suc fuel) s inp 0 (table_entry LENS c l) f = F_next f' \<and>
    token_done s inp bs b (drop l (f_stream inp f)) (win_hist s @ f_out f @ [word_of_nat c]) f'"
proof -
  note dr = fast_inv_drop [OF inv e(2)]
  have w: "ucast (word_of_nat c :: u16) = (word_of_nat c :: u8)"
    by (rule bit_word_eqI) (simp add: bit_simps)
  show ?thesis
    using c e(1) dr by (intro exI [of _ "(f_drop l f)\<lparr>f_out := f_out f @ [word_of_nat c]\<rparr>"])
      (simp add: Let_def table_entry_simps token_done_def fast_inv_out w)
qed

lemma fast_end_entry:
  assumes inv: "fast_inv inp bs b f" and e: "unat (code_bits (table_entry LENS 256 l)) = l" "l \<le> f_bits f"
  shows "\<exists>f'. fast_dolen (Suc fuel) s inp 0 (table_entry LENS 256 l) f = F_break TYPE_state None f' \<and>
    token_done s inp bs b (drop l (f_stream inp f)) (win_hist s @ f_out f) f'"
  using fast_inv_drop [OF inv e(2)] e(1)
  by (intro exI [of _ "f_drop l f"]) (simp add: Let_def table_entry_simps token_done_def)

lemma fast_match_entry:
  assumes tab: "fast_tables lsyms lcw dsyms dcw s" and inv: "fast_inv inp bs b f"
    and e: "unat (code_bits (table_entry LENS (257 + ls) l)) = l" "l \<le> f_bits f"
    and tok: "tok_ok lsyms dsyms (length (win_hist s @ f_out f)) (Match ls x ds y)"
    and bits: "drop l (f_stream inp f) = nbits (len_extra ls) x @ dcw ds @ nbits (dist_extra ds) y @ rest"
    and many: "l + 28 \<le> length (f_stream inp f)"
  shows "\<exists>f'. fast_dolen (Suc (Suc (Suc fuel))) s inp 0 (table_entry LENS (257 + ls) l) f = F_next f' \<and>
    token_done s inp bs b rest (expand (win_hist s @ f_out f) (Match ls x ds y)) f'"
proof -
  let ?e = "len_extra ls" and ?r = "dcw ds @ nbits (dist_extra ds) y @ rest"
  have t: "ls < 29" "257 + ls \<in> lsyms" "x < 2 ^ ?e" "ds < 30" "ds \<in> dsyms" "y < 2 ^ dist_extra ds"
      "dbase ! ds + y \<le> length (win_hist s @ f_out f)" using tok by simp_all
  note op = len_op [OF t(1)]
  let ?f1 = "f_drop l f"
  note d1 = fast_inv_drop [OF inv e(2)]
  have st1: "f_stream inp ?f1 = nbits ?e x @ ?r" using d1(2) bits by simp
  let ?f2 = "f_need1 inp ?e ?f1"
  have "?e \<le> length (f_stream inp ?f1)" by (simp add: st1)
  note n2 = need1 [OF d1(1) this]
  have "?e \<le> f_bits ?f2" using n2(3) op(7) by linarith
  note fld = fast_field [OF n2(1) _ t(3) this]
  let ?f3 = "f_drop ?e ?f2"
  have st3: "f_stream inp ?f3 = ?r" "f_hold ?f2 mod 2 ^ ?e = x" "fast_inv inp bs b ?f3" "f_out ?f3 = f_out f"
    using fld [of ?r] n2(2,4) st1 d1(4) by simp_all
  have "length (f_stream inp ?f3) = length (f_stream inp f) - l - ?e"
    using st1 st3(1) d1(2) by (metis length_append length_drop length_nbits add_diff_cancel_left')
  then have "23 \<le> length (f_stream inp ?f3)" using many op(7) by simp
  note n4 = need15 [OF st3(3) this]
  let ?f4 = "f_need15 inp ?f3"
  have win: "win_ok s" and dt: "symbol_table (code_at s (i_distcode s)) (i_distbits s) dsyms dcw (table_entry DISTS)"
    using tab by (simp_all add: fast_tables_def block_tables_def)
  have len: "1 \<le> lbase ! ls + x" using op(8) by simp
  have "\<exists>f'. fast_dodist (Suc (Suc fuel)) s inp 0 (lbase ! ls + x)
      (code_at s (i_distcode s) (f_hold ?f4 mod 2 ^ i_distbits s)) ?f4 = F_next f' \<and>
    fast_inv inp bs b f' \<and> f_stream inp f' = rest \<and>
    win_hist s @ f_out f' = lz_copy (dbase ! ds + y) (lbase ! ls + x) (win_hist s @ f_out ?f4)"
    by (rule fast_dist [OF win dt n4(1) t(5,4,6) _ n4(3) _ len]) (use n4 st3 t(7) in simp_all)
  then obtain f' where f': "fast_dodist (Suc (Suc fuel)) s inp 0 (lbase ! ls + x)
      (code_at s (i_distcode s) (f_hold ?f4 mod 2 ^ i_distbits s)) ?f4 = F_next f'"
    "fast_inv inp bs b f'" "f_stream inp f' = rest"
    "win_hist s @ f_out f' = lz_copy (dbase ! ds + y) (lbase ! ls + x) (win_hist s @ f_out ?f4)" by blast
  have nz: "(word_of_nat (lext ! ls) :: u8) \<noteq> 0" using op(1) by auto
  have "fast_dolen (Suc (Suc (Suc fuel))) s inp 0 (table_entry LENS (257 + ls) l) f
      = fast_dodist (Suc (Suc fuel)) s inp 0 (lbase ! ls + x) (code_at s (i_distcode s) (f_hold ?f4 mod 2 ^ i_distbits s)) ?f4"
  proof (cases "?e = 0")
    case True
    then have "x = 0" "?f2 = ?f1" "?f3 = ?f1" using t(3) by (simp_all add: f_need1_def f_drop_def)
    then show ?thesis
      using op nz e(1) True by (subst fast_dolen.simps(2)) (simp add: Let_def table_entry_simps del: fast_dolen.simps fast_dodist.simps)
  next
    case False
    then show ?thesis
      using op nz e(1) st3(2) by (subst fast_dolen.simps(2)) (simp add: Let_def table_entry_simps f_need1_def del: fast_dolen.simps fast_dodist.simps)
  qed
  then show ?thesis using f' n4(4) st3(4) by (simp add: token_done_def)
qed


text \<open>The first lookup of a turn, directly or through a link.\<close>

lemma fast_first:
  assumes tab: "symbol_table (code_at s (i_lencode s)) (i_lenbits s) lsyms lcw entry" and sy: "sy \<in> lsyms"
    and inv: "fast_inv inp bs b f" and bits: "f_stream inp f = lcw sy @ rest" and all: "15 \<le> f_bits f"
  shows "\<exists>l f' k. (\<forall>fuel. fast_dolen (Suc (Suc fuel)) s inp 0 (code_at s (i_lencode s) (f_hold f mod 2 ^ i_lenbits s)) f
        = fast_dolen (Suc (fuel + k)) s inp 0 (entry sy l) f') \<and>
      fast_inv inp bs b f' \<and> unat (code_bits (entry sy l)) = l \<and> l \<le> f_bits f' \<and> f_out f' = f_out f \<and>
      drop l (f_stream inp f') = rest"
proof -
  let ?n = "length (lcw sy)" and ?root = "i_lenbits s"
  have n: "?n \<le> 15" using symbol_table.cw_len [OF tab sy] by simp
  then have "?n \<le> f_bits f" using all by simp
  from tab sy inv bits this show ?thesis
  proof (cases rule: fast_lookup)
    case here
    then show ?thesis using inv n all bits by (intro exI [of _ ?n] exI [of _ f] exI [of _ 1]) simp
  next
    case (link c k)
    let ?f = "f_drop ?root f"
    have "?root \<le> f_bits f" using link(6) n all by simp
    note dr = fast_inv_drop [OF inv this]
    note op = link_op16 [OF link(3)]
    have "(word_of_nat c :: u8) \<noteq> 0" using link_op [OF link(2,3)] by simp
    have "fast_dolen (Suc (Suc fuel)) s inp 0 (code_at s (i_lencode s) (f_hold f mod 2 ^ ?root)) f
        = fast_dolen (Suc fuel) s inp 0 (entry sy (?n - ?root)) ?f" for fuel
      unfolding link(1) using op \<open>word_of_nat c \<noteq> 0\<close> link(4,5,7)
      by (subst fast_dolen.simps(2)) (simp add: Let_def unat_of_nat del: fast_dolen.simps)
    then show ?thesis
      using dr link(6,8) n all bits by (intro exI [of _ "?n - ?root"] exI [of _ ?f] exI [of _ 0]) simp
  qed
qed

lemma fast_token:
  assumes tab: "fast_tables lsyms lcw dsyms dcw s" and inv: "fast_inv inp bs b f" and all: "15 \<le> f_bits f"
    and tok: "tok_ok lsyms dsyms (length (win_hist s @ f_out f)) tok"
    and bits: "f_stream inp f = token_bits lcw dcw tok @ rest" and many: "48 \<le> length (f_stream inp f)"
  shows "\<exists>f'. fast_dolen (fuel + 5) s inp 0 (code_at s (i_lencode s) (f_hold f mod 2 ^ i_lenbits s)) f = F_next f' \<and>
    token_done s inp bs b rest (expand (win_hist s @ f_out f) tok) f'"
proof -
  obtain entry where e: "symbol_table (code_at s (i_lencode s)) (i_lenbits s) lsyms lcw entry"
      "\<And>sy l. sy < 286 \<Longrightarrow> entry sy l = table_entry LENS sy l"
    using tab by (auto simp: fast_tables_def block_tables_def)
  have five: "fuel + 5 = Suc (Suc (fuel + 3))" by simp
  show ?thesis
  proof (cases tok)
    case (Literal c)
    then have c: "c \<in> lsyms" "c < 256" using tok by simp_all
    obtain l f1 k where f1: "\<And>fuel. fast_dolen (Suc (Suc fuel)) s inp 0 (code_at s (i_lencode s) (f_hold f mod 2 ^ i_lenbits s)) f
        = fast_dolen (Suc (fuel + k)) s inp 0 (entry c l) f1" "fast_inv inp bs b f1"
        "unat (code_bits (entry c l)) = l" "l \<le> f_bits f1" "f_out f1 = f_out f" "drop l (f_stream inp f1) = rest"
      using fast_first [OF e(1) c(1) inv _ all, of rest] bits Literal by auto
    have ec: "entry c l = table_entry LENS c l" using e(2) c(2) by simp
    show ?thesis
      using fast_literal_entry [OF f1(2) _ f1(4) c(2), of "fuel + 3 + k" s] f1(3,5,6)
      unfolding five f1(1) ec by (auto simp: Literal)
  next
    case (Match ls x ds y)
    then have t: "257 + ls \<in> lsyms" "257 + ls < 286" using tok by simp_all
    let ?r = "nbits (len_extra ls) x @ dcw ds @ nbits (dist_extra ds) y @ rest"
    obtain l f1 k where f1: "\<And>fuel. fast_dolen (Suc (Suc fuel)) s inp 0 (code_at s (i_lencode s) (f_hold f mod 2 ^ i_lenbits s)) f
        = fast_dolen (Suc (fuel + k)) s inp 0 (entry (257 + ls) l) f1" "fast_inv inp bs b f1"
        "unat (code_bits (entry (257 + ls) l)) = l" "l \<le> f_bits f1" "f_out f1 = f_out f"
        "drop l (f_stream inp f1) = ?r"
      using fast_first [OF e(1) t(1) inv _ all, of ?r] bits Match by auto
    have ec: "entry (257 + ls) l = table_entry LENS (257 + ls) l" using e(2) t(2) by simp
    have "length (f_stream inp f) = length (lcw (257 + ls)) + length ?r" using bits Match by simp
    moreover have "length (lcw (257 + ls)) \<le> 15" using symbol_table.cw_len [OF e(1) t(1)] by simp
    moreover have "length ?r = length (f_stream inp f1) - l" using f1(6) by (metis length_drop)
    ultimately have "l + 28 \<le> length (f_stream inp f1)" using many by linarith
    from fast_match_entry [OF tab f1(2) _ f1(4) _ f1(6) this, of "fuel + 1 + k"] f1(3,5) tok
    show ?thesis unfolding five f1(1) ec by (simp add: Match numeral_3_eq_3 del: fast_dolen.simps)
  qed
qed

lemma fast_end:
  assumes tab: "fast_tables lsyms lcw dsyms dcw s" and inv: "fast_inv inp bs b f" and all: "15 \<le> f_bits f"
    and sy: "256 \<in> lsyms" and bits: "f_stream inp f = lcw 256 @ rest"
  shows "\<exists>f'. fast_dolen (fuel + 5) s inp 0 (code_at s (i_lencode s) (f_hold f mod 2 ^ i_lenbits s)) f = F_break TYPE_state None f' \<and>
    token_done s inp bs b rest (win_hist s @ f_out f) f'"
proof -
  obtain entry where e: "symbol_table (code_at s (i_lencode s)) (i_lenbits s) lsyms lcw entry"
      "\<And>sy l. sy < 286 \<Longrightarrow> entry sy l = table_entry LENS sy l"
    using tab by (auto simp: fast_tables_def block_tables_def)
  have five: "fuel + 5 = Suc (Suc (fuel + 3))" by simp
  obtain l f1 k where f1: "\<And>fuel. fast_dolen (Suc (Suc fuel)) s inp 0 (code_at s (i_lencode s) (f_hold f mod 2 ^ i_lenbits s)) f
      = fast_dolen (Suc (fuel + k)) s inp 0 (entry 256 l) f1" "fast_inv inp bs b f1"
      "unat (code_bits (entry 256 l)) = l" "l \<le> f_bits f1" "f_out f1 = f_out f" "drop l (f_stream inp f1) = rest"
    using fast_first [OF e(1) sy inv bits all] by auto
  have ec: "entry 256 l = table_entry LENS 256 l" using e(2) by simp
  show ?thesis
    using fast_end_entry [OF f1(2) _ f1(4), of "fuel + 3 + k" s] f1(3,5,6) unfolding five f1(1) ec by auto
qed


section \<open>The loop\<close>

abbreviation block_bits :: "(nat \<Rightarrow> bool list) \<Rightarrow> (nat \<Rightarrow> bool list) \<Rightarrow> token list \<Rightarrow> bool list" where
  "block_bits lcw dcw toks \<equiv> concat (map (token_bits lcw dcw) toks) @ lcw 256"

definition expand_all :: "u8 list \<Rightarrow> token list \<Rightarrow> u8 list" where
  "expand_all h toks = foldl expand h toks"

lemma expand_all_simps [simp]:
  "expand_all h [] = h" "expand_all h (t # ts) = expand_all (expand h t) ts"
  by (simp_all add: expand_all_def)

lemma expand_all_append: "expand_all h (xs @ ys) = expand_all (expand_all h xs) ys"
  by (simp add: expand_all_def)

lemma length_expand_all: "length (expand_all h toks) = length h + sum_list (map token_len toks)"
  by (induction toks arbitrary: h) (simp_all add: length_expand)

lemma token_len_pos: "tok_ok lsyms dsyms h t \<Longrightarrow> 1 \<le> token_len t"
  using len_op(8) by (cases t) fastforce+

lemma toks_ok_append: "toks_ok lsyms dsyms h (xs @ ys) \<longleftrightarrow>
    toks_ok lsyms dsyms h xs \<and> toks_ok lsyms dsyms (h + sum_list (map token_len xs)) ys"
  by (induction xs arbitrary: h) (simp_all add: add.assoc)

lemma fast_loop_tokens:
  assumes tab: "fast_tables lsyms lcw dsyms dcw s" "256 \<in> lsyms"
    and "fast_inv inp bs b f" "f_pos f + 5 < length inp" "w \<le> length (f_out f)" "length (f_out f) - w + 257 < room"
    and "room + 6 \<le> fuel + (length (f_out f) - w)"
    and "toks_ok lsyms dsyms (length (win_hist s @ f_out f)) toks"
    and "f_stream inp f = block_bits lcw dcw toks @ rest"
  shows "\<exists>md f' ts us. toks = ts @ us \<and> fast_loop fuel s inp 0 room w f = F_break md None f' \<and>
    fast_inv inp bs b f' \<and> win_hist s @ f_out f' = expand_all (win_hist s @ f_out f) ts \<and>
    (if md = TYPE_state \<and> us = [] \<and> f_stream inp f' = rest then True
     else md = i_mode s \<and> ts \<noteq> [] \<and> f_stream inp f' = block_bits lcw dcw us @ rest)"
  using assms(3-)
proof (induction toks arbitrary: f fuel)
  case (Cons tok toks)
  note inv = Cons.prems(1)
  define n where "n = fuel - 6"
  have fuel: "fuel = Suc (n + 5)" using Cons.prems(4,5) unfolding n_def by linarith
  have many: "48 \<le> length (f_stream inp f)" using Cons.prems(2) by simp
  then have "23 \<le> length (f_stream inp f)" by simp
  note nd = need15 [OF inv this]
  let ?f = "f_need15 inp f"
  have tok: "tok_ok lsyms dsyms (length (win_hist s @ f_out ?f)) tok" using Cons.prems(6) nd(4) by simp
  have "f_stream inp ?f = token_bits lcw dcw tok @ block_bits lcw dcw toks @ rest" using Cons.prems(7) nd(2) by simp
  from fast_token [OF tab(1) nd(1,3) tok this, of n] many nd(2)
  obtain g where g: "fast_dolen (n + 5) s inp 0 (code_at s (i_lencode s) (f_hold ?f mod 2 ^ i_lenbits s)) ?f = F_next g"
      "fast_inv inp bs b g" "f_stream inp g = block_bits lcw dcw toks @ rest"
      "win_hist s @ f_out g = expand (win_hist s @ f_out f) tok"
    using nd(4) by (auto simp: token_done_def)
  have len: "length (f_out g) = length (f_out f) + token_len tok"
    using arg_cong [OF g(4), of length] by (simp add: length_expand)
  have pos: "1 \<le> token_len tok" by (rule token_len_pos [OF tok])
  show ?case
  proof (cases "f_pos g + 5 < length inp \<and> length (f_out g) - w + 257 < room")
    case True
    have "toks_ok lsyms dsyms (length (win_hist s @ f_out g)) toks"
      using Cons.prems(6) by (simp add: len add.assoc)
    moreover have "room + 6 \<le> n + 5 + (length (f_out g) - w)" "w \<le> length (f_out g)"
      using Cons.prems(3,5) fuel len pos by linarith+
    ultimately obtain md f' ts us where r: "toks = ts @ us" "fast_loop (n + 5) s inp 0 room w g = F_break md None f'"
      "fast_inv inp bs b f'" "win_hist s @ f_out f' = expand_all (win_hist s @ f_out g) ts"
      "if md = TYPE_state \<and> us = [] \<and> f_stream inp f' = rest then True
       else md = i_mode s \<and> ts \<noteq> [] \<and> f_stream inp f' = block_bits lcw dcw us @ rest"
      using Cons.IH [OF g(2) _ _ _ _ _ g(3)] True by blast
    have "fast_loop fuel s inp 0 room w f = F_break md None f'"
      unfolding fuel fast_loop.simps(2) Let_def g(1) fast_result.case if_P [OF True] by (rule r(2))
    then show ?thesis
      using r g(4) by (intro exI [of _ md] exI [of _ f'] exI [of _ "tok # ts"] exI [of _ us]) (auto split: if_splits)
  next
    case False
    have "fast_loop fuel s inp 0 room w f = F_break (i_mode s) None g"
      unfolding fuel fast_loop.simps(2) Let_def g(1) fast_result.case if_not_P [OF False] by (rule refl)
    then show ?thesis
      using g by (intro exI [of _ "i_mode s"] exI [of _ g] exI [of _ "[tok]"] exI [of _ toks]) simp
  qed
next
  case Nil
  define n where "n = fuel - 6"
  have fuel: "fuel = Suc (n + 5)" using Nil.prems(4,5) unfolding n_def by linarith
  have "23 \<le> length (f_stream inp f)" using Nil.prems(2) by simp
  note nd = need15 [OF Nil.prems(1) this]
  have "f_stream inp (f_need15 inp f) = lcw 256 @ rest" using Nil.prems(7) nd(2) by simp
  from fast_end [OF tab(1) nd(1,3) tab(2) this, of n]
  obtain g where g: "fast_dolen (n + 5) s inp 0 (code_at s (i_lencode s) (f_hold (f_need15 inp f) mod 2 ^ i_lenbits s)) (f_need15 inp f)
      = F_break TYPE_state None g" "fast_inv inp bs b g" "f_stream inp g = rest" "win_hist s @ f_out g = win_hist s @ f_out f"
    using nd(4) by (auto simp: token_done_def)
  have "fast_loop fuel s inp 0 room w f = F_break TYPE_state None g"
    unfolding fuel fast_loop.simps(2) Let_def g(1) by simp
  then show ?case using g by (intro exI [of _ TYPE_state] exI [of _ g] exI [of _ "[]"]) simp
qed

section \<open>Giving back the bytes not needed\<close>

lemma drop_bytes: "drop (8 * k) (concat (map byte_bits xs)) = concat (map byte_bits (drop k xs))"
proof (induction k arbitrary: xs)
  case (Suc k)
  then show ?case by (cases xs) simp_all
qed simp

lemma fast_finish_bits:
  assumes inv: "fast_inv (next_in s) (in_bits s) (i_bits s) f" and b: "i_bits s < 8"
  shows "in_bits (fast_finish md m f s) = f_stream (next_in s) f" "bits_ok (fast_finish md m f s)"
    "i_bits (fast_finish md m f s) < 8"
proof -
  define len r where "len = f_bits f div 8" and "r = f_bits f mod 8"
  have fb: "f_bits f = 8 * len + r" "r < 8" "f_bits f - len * 8 = r" by (simp_all add: len_def r_def minus_div_mult_eq_mod)
  obtain c where c: "f_stream (next_in s) f = drop c (in_bits s)" "f_bits f + c = i_bits s + 8 * f_pos f"
    using inv by (auto simp: fast_inv_def)
  have le: "len \<le> f_pos f" using c(2) b fb(1) by linarith
  have cr: "c + r = i_bits s + 8 * (f_pos f - len)" using c(2) fb(1) le by (simp add: diff_mult_distrib2)
  have "take r (f_stream (next_in s) f) = nbits r (f_hold f)"
    using fb(1) by (simp add: f_stream_def)
  moreover have "drop r (f_stream (next_in s) f) = concat (map byte_bits (drop (f_pos f - len) (next_in s)))"
  proof -
    have "drop r (f_stream (next_in s) f) = drop (8 * (f_pos f - len)) (drop (i_bits s) (in_bits s))"
      by (simp only: c(1) drop_drop) (simp only: cr add.commute)
    then show ?thesis by (simp add: in_bits_def drop_bytes)
  qed
  ultimately have "f_stream (next_in s) f = nbits r (f_hold f) @ concat (map byte_bits (drop (f_pos f - len) (next_in s)))"
    by (metis append_take_drop_id)
  then show "in_bits (fast_finish md m f s) = f_stream (next_in s) f"
    using fb(3) by (simp add: in_bits_def fast_finish_def Let_def len_def [symmetric])
  show "bits_ok (fast_finish md m f s)" "i_bits (fast_finish md m f s) < 8"
    using fb(2,3) by (simp_all add: bits_ok_def fast_finish_def Let_def len_def [symmetric])
qed


section \<open>A block\<close>

text \<open>The \<open>LEN\<close> state when it calls \<open>inflate_fast\<close>: one or more tokens, or all that are left and the end.\<close>

lemma LEN_fast:
  assumes s: "at_len lsyms lcw dsyms dcw s" "i_mode s = LEN" and fast: "\<not> slow s" and sy: "256 \<in> lsyms"
    and bits: "in_bits s = block_bits lcw dcw toks @ rest"
    and tok: "toks_ok lsyms dsyms (length (hist s)) toks"
    and room: "sum_list (map token_len toks) \<le> avail_out s"
  shows "\<exists>t ts us. toks = ts @ us \<and> steps flush s t \<and> outputs s (expand_all (hist s) ts) t \<and> bits_ok t \<and> i_bits t < 8 \<and>
    (if i_mode t = TYPE_state \<and> us = [] \<and> in_bits t = rest then True
     else i_mode t = LEN \<and> ts \<noteq> [] \<and> in_bits t = block_bits lcw dcw us @ rest)"
proof -
  have ok: "fast_tables lsyms lcw dsyms dcw s" "bits_ok s" "i_bits s < 8" "out_ok s"
    using s(1) by (simp_all add: at_len_def fast_tables_def)
  have q: "6 \<le> length (next_in s)" "258 \<le> avail_out s" using fast by (simp_all add: slow_def)
  let ?f = "\<lparr>f_pos = 0, f_hold = i_hold s, f_bits = i_bits s, f_out = put s\<rparr>"
  have st: "f_stream (next_in s) ?f = in_bits s" by (simp add: f_stream_def in_bits_def)
  have inv: "fast_inv (next_in s) (in_bits s) (i_bits s) ?f"
    using ok(2) st by (auto simp: fast_inv_def f_ok_def bits_ok_def intro: exI [of _ 0])
  have "\<exists>md f' ts us. toks = ts @ us \<and>
      fast_loop (avail_out s + 8) s (next_in s) 0 (avail_out s) (length (put s)) ?f = F_break md None f' \<and>
      fast_inv (next_in s) (in_bits s) (i_bits s) f' \<and> win_hist s @ f_out f' = expand_all (win_hist s @ f_out ?f) ts \<and>
      (if md = TYPE_state \<and> us = [] \<and> f_stream (next_in s) f' = rest then True
       else md = i_mode s \<and> ts \<noteq> [] \<and> f_stream (next_in s) f' = block_bits lcw dcw us @ rest)"
    by (rule fast_loop_tokens [OF ok(1) sy inv]) (use q tok bits st in simp_all)
  then obtain md f' ts us where r: "toks = ts @ us"
      "fast_loop (avail_out s + 8) s (next_in s) 0 (avail_out s) (length (put s)) ?f = F_break md None f'"
      "fast_inv (next_in s) (in_bits s) (i_bits s) f'" "win_hist s @ f_out f' = expand_all (hist s) ts"
      "if md = TYPE_state \<and> us = [] \<and> f_stream (next_in s) f' = rest then True
       else md = i_mode s \<and> ts \<noteq> [] \<and> f_stream (next_in s) f' = block_bits lcw dcw us @ rest" by auto
  let ?t = "fast_finish md None f' s"
  let ?u = "if i_mode ?t = TYPE_state then ?t\<lparr>i_back := -1\<rparr> else ?t"
  have "length (put s) - (l_out s - avail_out s) = 0" using ok(4) by (simp add: out_ok_def)
  then have "inflate_fast (avail_out s + 8) (l_out s) s = Some ?t" using r(2) by (simp add: inflate_fast_def Let_def)
  then have "inflate_step flush s = Next ?u"
    using s(2) q by (simp add: inflate_step_def do_LEN_def del: if_split)
  then have step: "steps flush s ?u" by (rule steps_one)
  note fin = fast_finish_bits [OF r(3) ok(3), of md None]
  have m: "i_mode ?t = md" by (simp add: fast_finish_def Let_def)
  have len: "length (f_out f') = length (put s) + sum_list (map token_len ts)"
    using arg_cong [OF r(4), of length] by (simp add: length_expand_all)
  have "sum_list (map token_len ts) \<le> avail_out s" using room r(1) by simp
  then have "out_ok ?t" using ok(4) len by (simp add: out_ok_def fast_finish_def Let_def)
  moreover have same: "same_data (s\<lparr>put := put ?t, avail_out := avail_out ?t\<rparr>) ?t"
    by (simp add: same_data_def fast_finish_def Let_def)
  moreover have "hist ?t = expand_all (hist s) ts"
  proof -
    have "win_hist ?t = win_hist s" using same_data_fields(14) [OF same] by simp
    moreover have "put ?t = f_out f'" by (simp add: fast_finish_def Let_def)
    ultimately show ?thesis using r(4) by simp
  qed
  ultimately have out: "outputs s (expand_all (hist s) ts) ?t" by (simp add: outputs_def)
  moreover have upd: "outputs s h (if c then x\<lparr>i_back := i\<rparr> else x) = outputs s h x"
      "in_bits (if c then x\<lparr>i_back := i\<rparr> else x) = in_bits x" "bits_ok (if c then x\<lparr>i_back := i\<rparr> else x) = bits_ok x"
      "i_bits (if c then x\<lparr>i_back := i\<rparr> else x) = i_bits x" "i_mode (if c then x\<lparr>i_back := i\<rparr> else x) = i_mode x"
      for c h x i
    by (simp_all add: outputs_def out_ok_def)
  ultimately have "outputs s (expand_all (hist s) ts) ?u" by (simp only: upd)
  moreover have "in_bits ?u = f_stream (next_in s) f'" "bits_ok ?u" "i_bits ?u < 8" "i_mode ?u = md"
    unfolding upd by (rule fin m)+
  ultimately show ?thesis
    using r(1,5) step s(2) by (intro exI [of _ ?u] exI [of _ ts] exI [of _ us]) (auto split: if_splits)
qed

text \<open>One or more tokens in either way.\<close>

lemma LEN_tokens:
  assumes s: "at_len lsyms lcw dsyms dcw s" "i_mode s = LEN" and sy: "256 \<in> lsyms"
    and bits: "in_bits s = block_bits lcw dcw toks @ rest"
    and tok: "toks_ok lsyms dsyms (length (hist s)) toks"
    and room: "sum_list (map token_len toks) \<le> avail_out s"
  shows "\<exists>t ts us. toks = ts @ us \<and> steps flush s t \<and> outputs s (expand_all (hist s) ts) t \<and> bits_ok t \<and> i_bits t < 8 \<and>
    (if i_mode t = TYPE_state \<and> us = [] \<and> in_bits t = rest then True
     else i_mode t = LEN \<and> ts \<noteq> [] \<and> in_bits t = block_bits lcw dcw us @ rest)"
proof (cases "slow s")
  case False
  then show ?thesis by (rule LEN_fast [OF s _ sy bits tok room])
next
  case slow: True
  have ok: "block_tables lsyms lcw dsyms dcw s" "bits_ok s" "i_bits s < 8" "out_ok s" using s(1) by (simp_all add: at_len_def)
  show ?thesis
  proof (cases toks)
    case Nil
    then obtain t where t: "do_LEN s = Next t" "i_mode t = TYPE_state" "reads s rest t"
      using LEN_end [OF slow ok(1) sy ok(2), of rest] bits by auto
    have "inflate_step flush s = Next t" using s(2) t(1) by (simp add: inflate_step_def)
    then have "steps flush s t" by (rule steps_one)
    moreover have "outputs s (hist s) t" by (rule reads_outputs [OF t(3) ok(4)])
    ultimately show ?thesis
      using t(2,3) ok(3) Nil by (intro exI [of _ t] exI [of _ "[]"] exI [of _ "[]"]) (simp add: reads_def)
  next
    case (Cons t ts)
    have t: "tok_ok lsyms dsyms (length (hist s)) t" using tok Cons by simp
    have "\<exists>u. steps flush s u \<and> i_mode u = LEN \<and> outputs s (expand (hist s) t) u \<and>
        in_bits u = block_bits lcw dcw ts @ rest \<and> bits_ok u \<and> i_bits u < 8"
    proof (cases t)
      case (Literal c)
      then show ?thesis
        using literal_slow [OF s slow, of c "block_bits lcw dcw ts @ rest"] bits t room Cons by simp
    next
      case (Match ls x ds y)
      then show ?thesis
        using match_slow [OF s slow, of ls x ds y "block_bits lcw dcw ts @ rest"] bits t room Cons by simp
    qed
    then obtain u where "steps flush s u" "i_mode u = LEN" "outputs s (expand (hist s) t) u"
        "in_bits u = block_bits lcw dcw ts @ rest" "bits_ok u" "i_bits u < 8" by blast
    then show ?thesis using Cons by (intro exI [of _ u] exI [of _ "[t]"] exI [of _ ts]) simp
  qed
qed

text \<open>The whole block: the machine gets from \<open>LEN\<close> to \<open>TYPE\<close>.\<close>

lemma LEN_block:
  assumes "at_len lsyms lcw dsyms dcw s" "i_mode s = LEN" "256 \<in> lsyms"
    and "in_bits s = block_bits lcw dcw toks @ rest"
    and "toks_ok lsyms dsyms (length (hist s)) toks"
    and "sum_list (map token_len toks) \<le> avail_out s"
  shows "\<exists>t. steps flush s t \<and> i_mode t = TYPE_state \<and> outputs s (expand_all (hist s) toks) t \<and> in_bits t = rest \<and>
    bits_ok t \<and> i_bits t < 8"
  using assms
proof (induction "length toks" arbitrary: s toks rule: less_induct)
  case less
  obtain t ts us where t: "toks = ts @ us" "steps flush s t" "outputs s (expand_all (hist s) ts) t" "bits_ok t" "i_bits t < 8"
      "if i_mode t = TYPE_state \<and> us = [] \<and> in_bits t = rest then True
       else i_mode t = LEN \<and> ts \<noteq> [] \<and> in_bits t = block_bits lcw dcw us @ rest"
    using LEN_tokens [OF less.prems] by blast
  show ?case
  proof (cases "i_mode t = TYPE_state \<and> us = [] \<and> in_bits t = rest")
    case True
    then show ?thesis using t(1-5) by (intro exI [of _ t]) simp
  next
    case False
    then have n: "i_mode t = LEN" "ts \<noteq> []" "in_bits t = block_bits lcw dcw us @ rest" using t(6) by (simp_all split: if_splits)
    have h: "hist t = expand_all (hist s) ts" using t(3) by (simp add: outputs_def)
    have lh: "length (hist t) = length (hist s) + sum_list (map token_len ts)" unfolding h by (rule length_expand_all)
    have at: "at_len lsyms lcw dsyms dcw t" by (rule at_len_outputs [OF less.prems(1) t(3-5)])
    have "out_ok s" using less.prems(1) by (simp add: at_len_def)
    from avail_out_room [OF this t(3)] lh h have av: "avail_out s = avail_out t + sum_list (map token_len ts)" by simp
    have ok: "toks_ok lsyms dsyms (length (hist t)) us"
      using less.prems(5) unfolding t(1) toks_ok_append lh by simp
    have room: "sum_list (map token_len us) \<le> avail_out t" using less.prems(6) av by (simp add: t(1))
    have "length us < length toks" using t(1) n(2) by simp
    from less.hyps [OF this at n(1) less.prems(3) n(3) ok room]
    obtain u where u: "steps flush t u" "i_mode u = TYPE_state" "outputs t (expand_all (hist t) us) u" "in_bits u = rest"
        "bits_ok u" "i_bits u < 8" by blast
    have "outputs s (expand_all (hist s) toks) u"
      using outputs_trans [OF t(3) u(3)] unfolding h t(1) expand_all_append .
    then show ?thesis using steps_trans [OF t(2) u(1)] u(2,4-6) by blast
  qed
qed

end
