(* ===== verification/Tree_Build.thy ===== *)
theory Tree_Build
  imports Huffman_Codes "HOL-Library.Multiset"
begin

text \<open>
  The construction of a Huffman tree in \<open>src/src/zlib/trees.c\<close>: the part of \<open>deflate_state\<close> that
  \<open>trees.c\<close> uses, the priority queue kept in \<open>heap\<close>, \<open>gen_bitlen\<close> and \<open>build_tree\<close>.  The pointers of
  a \<open>tree_desc\<close> select one of the three trees of the state (\<open>tree_sel\<close>), so that a write through
  \<open>desc->dyn_tree\<close> is a write to the state.  \<open>int\<close> indices that the code keeps non-negative are
  natural numbers; \<open>max_code\<close>, which can be -1, is an integer.  \<open>ulg\<close> has 64 bits.
\<close>

section \<open>State\<close>

record tree_state = bit_state +
  dyn_ltree :: "ct_data list"
  dyn_dtree :: "ct_data list"
  bl_tree :: "ct_data list"
  l_max_code :: int
  d_max_code :: int
  bl_max_code :: int
  bl_count :: "u16 list"
  heap :: "nat list"
  heap_len :: nat
  heap_max :: nat
  depth :: "u8 list"
  l_buf :: "u8 list"
  lit_bufsize :: nat
  last_lit :: nat
  d_buf :: "u16 list"
  opt_len :: u64
  static_len :: u64
  matches :: u32
  level :: int
  strategy :: int
  data_type :: int

datatype tree_sel = L_DESC | D_DESC | BL_DESC

record static_tree_desc =
  static_tree :: "ct_data list option"
  extra_bits :: "nat list"
  extra_base :: nat
  elems :: nat
  max_length :: nat

definition static_l_desc :: static_tree_desc where
  "static_l_desc = \<lparr>static_tree = Some static_ltree, extra_bits = extra_lbits,
     extra_base = LITERALS + 1, elems = L_CODES, max_length = MAX_BITS\<rparr>"

definition static_d_desc :: static_tree_desc where
  "static_d_desc = \<lparr>static_tree = Some static_dtree, extra_bits = extra_dbits,
     extra_base = 0, elems = D_CODES, max_length = MAX_BITS\<rparr>"

definition static_bl_desc :: static_tree_desc where
  "static_bl_desc = \<lparr>static_tree = None, extra_bits = extra_blbits,
     extra_base = 0, elems = BL_CODES, max_length = MAX_BL_BITS\<rparr>"

fun stat_desc :: "tree_sel \<Rightarrow> static_tree_desc" where
  "stat_desc L_DESC = static_l_desc"
| "stat_desc D_DESC = static_d_desc"
| "stat_desc BL_DESC = static_bl_desc"

fun dyn_tree :: "tree_sel \<Rightarrow> 'a tree_state_scheme \<Rightarrow> ct_data list" where
  "dyn_tree L_DESC s = dyn_ltree s"
| "dyn_tree D_DESC s = dyn_dtree s"
| "dyn_tree BL_DESC s = bl_tree s"

fun set_dyn_tree :: "tree_sel \<Rightarrow> ct_data list \<Rightarrow> 'a tree_state_scheme \<Rightarrow> 'a tree_state_scheme" where
  "set_dyn_tree L_DESC t s = s\<lparr>dyn_ltree := t\<rparr>"
| "set_dyn_tree D_DESC t s = s\<lparr>dyn_dtree := t\<rparr>"
| "set_dyn_tree BL_DESC t s = s\<lparr>bl_tree := t\<rparr>"

fun desc_max_code :: "tree_sel \<Rightarrow> 'a tree_state_scheme \<Rightarrow> int" where
  "desc_max_code L_DESC s = l_max_code s"
| "desc_max_code D_DESC s = d_max_code s"
| "desc_max_code BL_DESC s = bl_max_code s"

fun set_max_code :: "tree_sel \<Rightarrow> int \<Rightarrow> 'a tree_state_scheme \<Rightarrow> 'a tree_state_scheme" where
  "set_max_code L_DESC m s = s\<lparr>l_max_code := m\<rparr>"
| "set_max_code D_DESC m s = s\<lparr>d_max_code := m\<rparr>"
| "set_max_code BL_DESC m s = s\<lparr>bl_max_code := m\<rparr>"

definition set_Freq :: "ct_data list \<Rightarrow> nat \<Rightarrow> u16 \<Rightarrow> ct_data list" where
  "set_Freq tree n f = tree[n := (tree ! n)\<lparr>fc := f\<rparr>]"

definition set_Len :: "ct_data list \<Rightarrow> nat \<Rightarrow> u16 \<Rightarrow> ct_data list" where
  "set_Len tree n l = tree[n := (tree ! n)\<lparr>dl := l\<rparr>]"

section \<open>Initialisation\<close>

definition init_block :: "'a tree_state_scheme \<Rightarrow> 'a tree_state_scheme" where
  "init_block s =
     (let lt = foldl (\<lambda>t n. set_Freq t n 0) (dyn_ltree s) [0..<L_CODES];
          dt = foldl (\<lambda>t n. set_Freq t n 0) (dyn_dtree s) [0..<D_CODES];
          bt = foldl (\<lambda>t n. set_Freq t n 0) (bl_tree s) [0..<BL_CODES]
      in s\<lparr>dyn_ltree := set_Freq lt END_BLOCK 1, dyn_dtree := dt, bl_tree := bt,
           opt_len := 0, static_len := 0, last_lit := 0, matches := 0\<rparr>)"

text \<open>\<open>tr_static_init\<close> does nothing in this build (the tables come from \<open>trees.h\<close>), and the three
  descriptors are fixed here, so \<open>_tr_init\<close> is the reset of the bit buffer and of the block.\<close>

definition tr_init :: "'a tree_state_scheme \<Rightarrow> 'a tree_state_scheme" where
  "tr_init s = init_block (s\<lparr>bi_buf := 0, bi_valid := 0\<rparr>)"

section \<open>The heap\<close>

definition SMALLEST :: nat where "SMALLEST = 1"

definition smaller :: "ct_data list \<Rightarrow> nat \<Rightarrow> nat \<Rightarrow> u8 list \<Rightarrow> bool" where
  "smaller tree n m dep \<longleftrightarrow>
     Freq (tree ! n) < Freq (tree ! m) \<or> Freq (tree ! n) = Freq (tree ! m) \<and> dep ! n \<le> dep ! m"

text \<open>The loop of \<open>pqdownheap\<close>; \<open>heap[0]\<close> is not used, so \<open>k\<close> and with it \<open>j\<close> are positive (with
  \<open>j = 0\<close> the doubling would never move).\<close>

function pqdown_loop :: "ct_data list \<Rightarrow> u8 list \<Rightarrow> nat \<Rightarrow> nat \<Rightarrow> nat list \<Rightarrow> nat \<Rightarrow> nat \<Rightarrow> nat list" where
  "pqdown_loop tree dep len v hp k j =
     (if 0 < j \<and> j \<le> len then
        (let j = (if j < len \<and> smaller tree (hp ! (j + 1)) (hp ! j) dep then j + 1 else j)
         in if smaller tree v (hp ! j) dep then hp[k := v]
            else pqdown_loop tree dep len v (hp[k := hp ! j]) j (2 * j))
      else hp[k := v])"
  by pat_completeness auto
termination
  by (relation "measure (\<lambda>(tree, dep, len, v, hp, k, j). Suc len - j)") (auto split: if_splits)

declare pqdown_loop.simps [simp del]

definition pqdownheap :: "ct_data list \<Rightarrow> nat \<Rightarrow> 'a tree_state_scheme \<Rightarrow> 'a tree_state_scheme" where
  "pqdownheap tree k s =
     s\<lparr>heap := pqdown_loop tree (depth s) (heap_len s) (heap s ! k) (heap s) k (2 * k)\<rparr>"

definition pqremove :: "ct_data list \<Rightarrow> 'a tree_state_scheme \<Rightarrow> nat \<times> 'a tree_state_scheme" where
  "pqremove tree s =
     (let top = heap s ! SMALLEST;
          s = s\<lparr>heap := (heap s)[SMALLEST := heap s ! heap_len s], heap_len := heap_len s - 1\<rparr>
      in (top, pqdownheap tree SMALLEST s))"

section \<open>Bit lengths\<close>

text \<open>One turn of the first pass of \<open>gen_bitlen\<close>; \<open>continue\<close> for inner nodes.\<close>

definition bitlen_step :: "tree_sel \<Rightarrow> 'a tree_state_scheme \<times> int \<Rightarrow> nat \<Rightarrow> 'a tree_state_scheme \<times> int" where
  "bitlen_step d st h =
     (case st of (s, overflow) \<Rightarrow>
        let tree = dyn_tree d s;
            n = heap s ! h;
            bits = unat (Len (tree ! unat (Dad (tree ! n)))) + 1;
            overflow = (if bits > max_length (stat_desc d) then overflow + 1 else overflow);
            bits = (if bits > max_length (stat_desc d) then max_length (stat_desc d) else bits);
            tree = set_Len tree n (word_of_nat bits);
            s = set_dyn_tree d tree s
        in if int n > desc_max_code d s then (s, overflow)
           else
             (let bl = (bl_count s)[bits := bl_count s ! bits + 1];
                  xbits = (if n \<ge> extra_base (stat_desc d)
                           then extra_bits (stat_desc d) ! (n - extra_base (stat_desc d)) else 0);
                  f = (ucast (Freq (tree ! n)) :: u64);
                  s = s\<lparr>bl_count := bl, opt_len := opt_len s + f * word_of_nat (bits + xbits)\<rparr>
              in (case static_tree (stat_desc d) of
                    None \<Rightarrow> s
                  | Some stree \<Rightarrow>
                      s\<lparr>static_len := static_len s + f * word_of_nat (unat (Len (stree ! n)) + xbits)\<rparr>,
                  overflow)))"

text \<open>\<open>bits = max_length-1; while (s->bl_count[bits] == 0) bits--;\<close>  Some length below the maximum is
  in use whenever there is an overflow; the model stops at 0, where the code would leave the array.\<close>

fun find_bits :: "u16 list \<Rightarrow> nat \<Rightarrow> nat" where
  "find_bits bl 0 = 0"
| "find_bits bl (Suc b) = (if bl ! Suc b = 0 then find_bits bl b else Suc b)"

function overflow_loop :: "nat \<Rightarrow> u16 list \<Rightarrow> int \<Rightarrow> u16 list" where
  "overflow_loop max_len bl overflow =
     (let bits = find_bits bl (max_len - 1);
          bl = bl[bits := bl ! bits - 1];
          bl = bl[bits + 1 := bl ! (bits + 1) + 2];
          bl = bl[max_len := bl ! max_len - 1];
          overflow = overflow - 2
      in if overflow > 0 then overflow_loop max_len bl overflow else bl)"
  by pat_completeness auto
termination
  by (relation "measure (\<lambda>(max_len, bl, overflow). nat overflow)") auto

declare overflow_loop.simps [simp del]

text \<open>The last pass: \<open>n\<close> leaves still to receive \<open>bits\<close>, taken from \<open>heap[--h]\<close>.\<close>

fun assign_bits :: "int \<Rightarrow> nat list \<Rightarrow> nat \<Rightarrow> nat \<Rightarrow> nat \<Rightarrow> ct_data list \<times> u64 \<Rightarrow> nat \<times> ct_data list \<times> u64" where
  "assign_bits max_code hp bits 0 h st = (h, st)"
| "assign_bits max_code hp bits (Suc n) 0 st = (0, st)"
| "assign_bits max_code hp bits (Suc n) (Suc h) (tree, opt) =
     (let m = hp ! h in
      if int m > max_code then assign_bits max_code hp bits (Suc n) h (tree, opt)
      else
        (let opt = (if unat (Len (tree ! m)) \<noteq> bits
                    then opt + (word_of_nat bits - ucast (Len (tree ! m))) * ucast (Freq (tree ! m)) else opt);
             tree = (if unat (Len (tree ! m)) \<noteq> bits then set_Len tree m (word_of_nat bits) else tree)
         in assign_bits max_code hp bits n h (tree, opt)))"

fun reassign_lens :: "int \<Rightarrow> nat list \<Rightarrow> u16 list \<Rightarrow> nat \<Rightarrow> nat \<times> ct_data list \<times> u64 \<Rightarrow> nat \<times> ct_data list \<times> u64" where
  "reassign_lens max_code hp bl 0 st = st"
| "reassign_lens max_code hp bl (Suc b) (h, st) =
     reassign_lens max_code hp bl b (assign_bits max_code hp (Suc b) (unat (bl ! Suc b)) h st)"

definition gen_bitlen :: "tree_sel \<Rightarrow> 'a tree_state_scheme \<Rightarrow> 'a tree_state_scheme" where
  "gen_bitlen d s =
     (let s = s\<lparr>bl_count := replicate (MAX_BITS + 1) 0\<rparr>;
          s = set_dyn_tree d (set_Len (dyn_tree d s) (heap s ! heap_max s) 0) s
      in (case foldl (bitlen_step d) (s, 0) [heap_max s + 1..<HEAP_SIZE] of (s, overflow) \<Rightarrow>
            if overflow = 0 then s
            else
              (let bl = overflow_loop (max_length (stat_desc d)) (bl_count s) overflow
               in (case reassign_lens (desc_max_code d s) (heap s) bl (max_length (stat_desc d))
                          (HEAP_SIZE, dyn_tree d s, opt_len s) of
                     (h, tree, opt) \<Rightarrow>
                       (set_dyn_tree d tree s)\<lparr>bl_count := bl, opt_len := opt\<rparr>))))"

section \<open>Building the tree\<close>

definition init_heap_step :: "tree_sel \<Rightarrow> 'a tree_state_scheme \<times> int \<Rightarrow> nat \<Rightarrow> 'a tree_state_scheme \<times> int" where
  "init_heap_step d st n =
     (case st of (s, max_code) \<Rightarrow>
        if Freq (dyn_tree d s ! n) \<noteq> 0
        then (s\<lparr>heap := (heap s)[heap_len s + 1 := n], heap_len := heap_len s + 1,
                depth := (depth s)[n := 0]\<rparr>, int n)
        else (set_dyn_tree d (set_Len (dyn_tree d s) n 0) s, max_code))"

lemma set_dyn_tree_simps [simp]:
  "heap (set_dyn_tree d t s) = heap s" "heap_len (set_dyn_tree d t s) = heap_len s"
  "heap_max (set_dyn_tree d t s) = heap_max s" "depth (set_dyn_tree d t s) = depth s"
  "bl_count (set_dyn_tree d t s) = bl_count s" "opt_len (set_dyn_tree d t s) = opt_len s"
  "static_len (set_dyn_tree d t s) = static_len s" "last_lit (set_dyn_tree d t s) = last_lit s"
  "l_buf (set_dyn_tree d t s) = l_buf s" "d_buf (set_dyn_tree d t s) = d_buf s"
  "dyn_tree d (set_dyn_tree d t s) = t" "desc_max_code d' (set_dyn_tree d t s) = desc_max_code d' s"
  "bi_buf (set_dyn_tree d t s) = bi_buf s" "bi_valid (set_dyn_tree d t s) = bi_valid s"
  "pending_buf (set_dyn_tree d t s) = pending_buf s"
  by (cases d; cases d'; simp)+

function force_two :: "tree_sel \<Rightarrow> 'a tree_state_scheme \<Rightarrow> int \<Rightarrow> 'a tree_state_scheme \<times> int" where
  "force_two d s max_code =
     (if heap_len s < 2 then
        (let max_code' = (if max_code < 2 then max_code + 1 else max_code);
             node = (if max_code < 2 then nat (max_code + 1) else 0);
             s = s\<lparr>heap := (heap s)[heap_len s + 1 := node], heap_len := heap_len s + 1,
                   depth := (depth s)[node := 0], opt_len := opt_len s - 1\<rparr>;
             s = set_dyn_tree d (set_Freq (dyn_tree d s) node 1) s;
             s = (case static_tree (stat_desc d) of
                    None \<Rightarrow> s
                  | Some stree \<Rightarrow> s\<lparr>static_len := static_len s - ucast (Len (stree ! node))\<rparr>)
         in force_two d s max_code')
      else (s, max_code))"
  by pat_completeness auto

termination
  by (relation "measure (\<lambda>(d, s, max_code). 2 - heap_len s)") (auto split: option.splits)

declare force_two.simps [simp del]

text \<open>\<open>for (n = s->heap_len/2; n >= 1; n--) pqdownheap(s, tree, n);\<close>\<close>

fun heapify :: "ct_data list \<Rightarrow> nat \<Rightarrow> 'a tree_state_scheme \<Rightarrow> 'a tree_state_scheme" where
  "heapify tree 0 s = s"
| "heapify tree (Suc n) s = heapify tree n (pqdownheap tree (Suc n) s)"

definition combine_step :: "tree_sel \<Rightarrow> 'a tree_state_scheme \<Rightarrow> nat \<Rightarrow> 'a tree_state_scheme" where
  "combine_step d s node =
     (case pqremove (dyn_tree d s) s of (n, s) \<Rightarrow>
        let m = heap s ! SMALLEST;
            s = s\<lparr>heap := (heap s)[heap_max s - 1 := n, heap_max s - 2 := m], heap_max := heap_max s - 2\<rparr>;
            tree = dyn_tree d s;
            tree = set_Freq tree node (Freq (tree ! n) + Freq (tree ! m));
            dep = (if depth s ! n \<ge> depth s ! m then depth s ! n else depth s ! m) + 1;
            tree = set_Len (set_Len tree m (word_of_nat node)) n (word_of_nat node);
            s = (set_dyn_tree d tree s)\<lparr>depth := (depth s)[node := dep], heap := (heap s)[SMALLEST := node]\<rparr>
        in pqdownheap tree SMALLEST s)"

lemma pqdownheap_simps [simp]:
  "heap_len (pqdownheap t k s) = heap_len s" "heap_max (pqdownheap t k s) = heap_max s"
  "depth (pqdownheap t k s) = depth s" "dyn_tree d (pqdownheap t k s) = dyn_tree d s"
  by (cases d; simp add: pqdownheap_def)+

lemma combine_step_heap_len [simp]: "heap_len (combine_step d s node) = heap_len s - 1"
  by (simp add: combine_step_def pqremove_def Let_def)

function combine_loop :: "tree_sel \<Rightarrow> 'a tree_state_scheme \<Rightarrow> nat \<Rightarrow> 'a tree_state_scheme" where
  "combine_loop d s node =
     (let s = combine_step d s node
      in if heap_len s \<ge> 2 then combine_loop d s (node + 1) else s)"
  by pat_completeness auto
termination
  by (relation "measure (\<lambda>(d, s, node). heap_len s)") auto

declare combine_loop.simps [simp del]

definition build_tree :: "tree_sel \<Rightarrow> 'a tree_state_scheme \<Rightarrow> 'a tree_state_scheme" where
  "build_tree d s =
     (let n_elems = elems (stat_desc d);
          s = s\<lparr>heap_len := 0, heap_max := HEAP_SIZE\<rparr>
      in (case foldl (init_heap_step d) (s, -1) [0..<n_elems] of (s, max_code) \<Rightarrow>
          (case force_two d s max_code of (s, max_code) \<Rightarrow>
             let s = set_max_code d max_code s;
                 s = heapify (dyn_tree d s) (heap_len s div 2) s;
                 s = combine_loop d s n_elems;
                 s = s\<lparr>heap := (heap s)[heap_max s - 1 := heap s ! SMALLEST], heap_max := heap_max s - 1\<rparr>;
                 s = gen_bitlen d s
             in set_dyn_tree d (gen_codes (dyn_tree d s) max_code (bl_count s)) s)))"

section \<open>The heap property\<close>

text \<open>
  Sifting down, for any total preorder on the nodes: the loop permutes the heap and restores the
  order below \<open>r\<close>.  \<open>smaller\<close> (frequency, then depth) is such an order.
\<close>

locale heap_order =
  fixes le :: "nat \<Rightarrow> nat \<Rightarrow> bool"
  assumes le_total: "le x y \<or> le y x"
    and le_trans: "le x y \<Longrightarrow> le y z \<Longrightarrow> le x z"
begin

definition heap_from :: "nat \<Rightarrow> nat \<Rightarrow> nat list \<Rightarrow> bool" where
  "heap_from r len h \<longleftrightarrow> (\<forall>c. 2 * r \<le> c \<and> c \<le> len \<longrightarrow> le (h ! (c div 2)) (h ! c))"

text \<open>The order holds below \<open>r\<close> except between \<open>k\<close> and its sons; the father of \<open>k\<close> is
  below the sons of \<open>k\<close>.\<close>

definition hole :: "nat \<Rightarrow> nat \<Rightarrow> nat \<Rightarrow> nat list \<Rightarrow> bool" where
  "hole r len k h \<longleftrightarrow>
     (\<forall>c. 2 * r \<le> c \<and> c \<le> len \<and> c div 2 \<noteq> k \<longrightarrow> le (h ! (c div 2)) (h ! c)) \<and>
     (\<forall>c. c div 2 = k \<and> c \<le> len \<and> 2 * r \<le> k \<longrightarrow> le (h ! (k div 2)) (h ! c))"

lemma hole_start: "heap_from (Suc k) len h \<Longrightarrow> 1 \<le> k \<Longrightarrow> hole k len k h"
  unfolding heap_from_def hole_def by (auto simp: div_nat_eqI)

lemma hole_end:
  assumes "hole r len k h" and "\<And>c. c div 2 = k \<Longrightarrow> c \<le> len \<Longrightarrow> le (h ! k) (h ! c)"
  shows "heap_from r len h"
  using assms unfolding heap_from_def hole_def by blast

lemma hole_down:
  assumes hole: "hole r len k h" and r: "1 \<le> r" "r \<le> k" and j: "j div 2 = k" "j \<le> len" "len < length h"
    and least: "\<And>c. c div 2 = k \<Longrightarrow> c \<le> len \<Longrightarrow> le (h ! j) (h ! c)"
    and below: "le (h ! j) (h ! k)"
  shows "hole r len j (h[k := h ! j, j := h ! k])"
proof -
  let ?h = "h[k := h ! j, j := h ! k]"
  have kj: "k < j" "k < length h" "j < length h" using r j by auto
  have nth: "?h ! i = (if i = j then h ! k else if i = k then h ! j else h ! i)" for i
    using kj by (auto simp: nth_list_update)
  have up: "\<And>c. 2 * r \<le> c \<Longrightarrow> c \<le> len \<Longrightarrow> c div 2 \<noteq> k \<Longrightarrow> le (h ! (c div 2)) (h ! c)"
    and over: "\<And>c. c div 2 = k \<Longrightarrow> c \<le> len \<Longrightarrow> 2 * r \<le> k \<Longrightarrow> le (h ! (k div 2)) (h ! c)"
    using hole unfolding hole_def by blast+
  have "le (?h ! (c div 2)) (?h ! c)" if c: "2 * r \<le> c" "c \<le> len" "c div 2 \<noteq> j" for c
  proof (cases "c div 2 = k")
    case True
    moreover have "c \<noteq> k" using True r by auto
    ultimately show ?thesis using least [of c] below c kj by (simp add: nth)
  next
    case False
    show ?thesis
    proof (cases "c = k")
      case True
      then have "k div 2 \<noteq> k" "k div 2 \<noteq> j" using r kj by auto
      then show ?thesis using over [OF j(1,2)] c True kj by (simp add: nth)
    next
      case ck: False
      have "c \<noteq> j" using False j by auto
      then show ?thesis using up [OF c(1,2) False] False c(3) ck by (simp add: nth)
    qed
  qed
  moreover have "le (?h ! (j div 2)) (?h ! c)" if c: "c div 2 = j" "c \<le> len" for c
  proof -
    have "2 * r \<le> c" "c \<noteq> j" "c \<noteq> k" using c r j kj by auto
    then show ?thesis using up [of c] c j(1) kj by (simp add: nth)
  qed
  ultimately show ?thesis unfolding hole_def by blast
qed

lemma heap_from_root:
  assumes "heap_from 1 len h" "1 \<le> c" "c \<le> len"
  shows "le (h ! 1) (h ! c)"
  using assms(2,3)
proof (induction c rule: less_induct)
  case (less c)
  show ?case
  proof (cases "c = 1")
    case False
    then have "le (h ! 1) (h ! (c div 2))" "le (h ! (c div 2)) (h ! c)"
      using less assms(1) by (auto simp: heap_from_def)
    then show ?thesis using le_trans by blast
  qed (use le_total in blast)
qed

end

lemma smaller_total: "smaller tree x y dep \<or> smaller tree y x dep"
  by (auto simp: smaller_def)

lemma smaller_trans: "smaller tree x y dep \<Longrightarrow> smaller tree y z dep \<Longrightarrow> smaller tree x z dep"
  by (auto simp: smaller_def)

interpretation node: heap_order "\<lambda>n m. smaller tree n m dep" for tree dep
  by unfold_locales (use smaller_total smaller_trans in blast)+

lemma length_pqdown_loop [simp]: "length (pqdown_loop tree dep len v h k j) = length h"
proof (induction tree dep len v h k j rule: pqdown_loop.induct)
  case (1 tree dep len v h k j)
  then show ?case by (subst pqdown_loop.simps) (auto simp: Let_def)
qed

lemma son_of: "c div 2 = k \<Longrightarrow> c = 2 * k \<or> c = 2 * k + 1" for c :: nat
  by auto

text \<open>The son the loop picks is a least one.\<close>

definition picked :: "ct_data list \<Rightarrow> u8 list \<Rightarrow> nat \<Rightarrow> nat list \<Rightarrow> nat \<Rightarrow> nat" where
  "picked tree dep len h j = (if j < len \<and> smaller tree (h ! (j + 1)) (h ! j) dep then j + 1 else j)"

lemma picked_least:
  assumes "c div 2 = k" "c \<le> len"
  shows "smaller tree (h ! picked tree dep len h (2 * k)) (h ! c) dep"
  using son_of [OF assms(1)] assms(2) smaller_total [of tree "h ! (2 * k)" "h ! (2 * k + 1)" dep]
    smaller_total [of tree "h ! c" "h ! c" dep]
  by (auto simp: picked_def)

lemma pqdown_loop_correct:
  assumes "1 \<le> r" "r \<le> k" "j = 2 * k" "len < length h" "k \<le> len" "node.hole tree dep r len k (h[k := v])"
  shows "node.heap_from tree dep r len (pqdown_loop tree dep len v h k j) \<and>
    mset (pqdown_loop tree dep len v h k j) = mset (h[k := v]) \<and>
    (\<forall>i. i = 0 \<or> len < i \<longrightarrow> pqdown_loop tree dep len v h k j ! i = h ! i)"
  using assms
proof (induction tree dep len v h k j rule: pqdown_loop.induct)
  case (1 tree dep len v h k j)
  let ?h = "h[k := v]"
  let ?j = "picked tree dep len h j"
  note prems = "1.prems"
  have unfold: "pqdown_loop tree dep len v h k j =
      (if 0 < j \<and> j \<le> len then
         if smaller tree v (h ! ?j) dep then ?h else pqdown_loop tree dep len v (h[k := h ! ?j]) ?j (2 * ?j)
       else ?h)"
    by (subst pqdown_loop.simps) (simp only: picked_def Let_def)
  have out: "\<forall>i. i = 0 \<or> len < i \<longrightarrow> ?h ! i = h ! i" using prems by auto
  have same: "?h ! c = h ! c" if "c div 2 = k" for c
    using that prems by (intro nth_list_update_neq) auto
  have j: "picked tree dep len ?h j = ?j" "?j div 2 = k"
    using prems same [of "2 * k"] same [of "2 * k + 1"] by (auto simp: picked_def)
  have least: "smaller tree (?h ! ?j) (?h ! c) dep" if "c div 2 = k" "c \<le> len" for c
    using picked_least [OF that, of tree ?h dep] j(1) prems(3) by simp
  show ?case
  proof (cases "0 < j \<and> j \<le> len")
    case False
    then have "node.heap_from tree dep r len ?h"
      using prems by (intro node.hole_end [OF prems(6)]) (auto dest!: son_of)
    moreover have "pqdown_loop tree dep len v h k j = ?h" unfolding unfold using False by (rule if_not_P)
    ultimately show ?thesis using out by metis
  next
    case inner: True
    show ?thesis
    proof (cases "smaller tree v (h ! ?j) dep")
      case True
      have "smaller tree (?h ! k) (?h ! c) dep" if "c div 2 = k" "c \<le> len" for c
        using smaller_trans [OF True] least [OF that] same [OF j(2)] prems by simp
      then have "node.heap_from tree dep r len ?h" by (intro node.hole_end [OF prems(6)])
      moreover have "pqdown_loop tree dep len v h k j = ?h" unfolding unfold by (simp only: inner True simp_thms if_True)
      ultimately show ?thesis using out by metis
    next
      case False
      have jl: "?j \<le> len" "k < ?j" using inner prems by (auto simp: picked_def)
      have swap: "(h[k := h ! ?j])[?j := v] = ?h[k := ?h ! ?j, ?j := ?h ! k]"
        using jl prems same [OF j(2)] by (simp add: list_update_swap)
      have "smaller tree (?h ! ?j) (?h ! k) dep"
        using False smaller_total [of tree v "h ! ?j" dep] same [OF j(2)] prems by simp
      then have "node.hole tree dep r len ?j ((h[k := h ! ?j])[?j := v])"
        unfolding swap using prems jl j least by (intro node.hole_down) auto
      moreover have "mset ((h[k := h ! ?j])[?j := v]) = mset ?h"
        unfolding swap using prems jl by (intro mset_swap) simp_all
      moreover have "\<forall>i. i = 0 \<or> len < i \<longrightarrow> h[k := h ! ?j] ! i = h ! i" using prems by auto
      moreover have "pqdown_loop tree dep len v h k j
          = pqdown_loop tree dep len v (h[k := h ! ?j]) ?j (2 * ?j)"
        unfolding unfold by (simp only: inner False simp_thms if_True if_False)
      moreover have "node.heap_from tree dep r len (pqdown_loop tree dep len v (h[k := h ! ?j]) ?j (2 * ?j)) \<and>
          mset (pqdown_loop tree dep len v (h[k := h ! ?j]) ?j (2 * ?j)) = mset ((h[k := h ! ?j])[?j := v]) \<and>
          (\<forall>i. i = 0 \<or> len < i \<longrightarrow>
            pqdown_loop tree dep len v (h[k := h ! ?j]) ?j (2 * ?j) ! i = h[k := h ! ?j] ! i)"
        using prems jl calculation(1)
        by (intro "1.IH" [OF inner picked_def False]) simp_all
      ultimately show ?thesis by metis
    qed
  qed
qed

text \<open>The nodes in the heap, \<open>heap[1..heap_len]\<close>.\<close>

definition heap_elems :: "'a tree_state_scheme \<Rightarrow> nat multiset" where
  "heap_elems s = mset (take (heap_len s) (drop 1 (heap s)))"

definition heap_ok :: "ct_data list \<Rightarrow> nat \<Rightarrow> 'a tree_state_scheme \<Rightarrow> bool" where
  "heap_ok tree r s \<longleftrightarrow> heap_len s < length (heap s) \<and> node.heap_from tree (depth s) r (heap_len s) (heap s)"

lemma mset_split_heap:
  assumes "len < length h"
  shows "mset h = add_mset (h ! 0) (mset (take len (drop 1 h))) + mset (drop (Suc len) h)"
proof -
  obtain x xs where h: "h = x # xs" using assms by (cases h) auto
  have "mset xs = mset (take len xs) + mset (drop len xs)"
    by (metis append_take_drop_id mset_append)
  then show ?thesis by (simp add: h)
qed

lemma heap_elems_eq:
  assumes "mset h' = mset h" "length h' = length h" "len < length h"
    and "\<forall>i. i = 0 \<or> len < i \<longrightarrow> h' ! i = h ! i"
  shows "mset (take len (drop 1 h')) = mset (take len (drop 1 h))"
proof -
  have "drop (Suc len) h' = drop (Suc len) h"
    using assms(2,4) by (intro nth_equalityI) simp_all
  moreover have "h' ! 0 = h ! 0" using assms(4) by simp
  ultimately show ?thesis
    using mset_split_heap [of len h] mset_split_heap [of len h'] assms by simp
qed

lemma pqdownheap_correct:
  assumes "1 \<le> k" "k \<le> heap_len s" "heap_ok tree (Suc k) s"
  shows "heap_ok tree k (pqdownheap tree k s)" and "heap_elems (pqdownheap tree k s) = heap_elems s"
    and "length (heap (pqdownheap tree k s)) = length (heap s)"
proof -
  have "node.hole tree (depth s) k (heap_len s) k ((heap s)[k := heap s ! k])"
    using assms by (intro node.hole_start) (simp_all add: heap_ok_def)
  then have *: "node.heap_from tree (depth s) k (heap_len s) (heap (pqdownheap tree k s)) \<and>
      mset (heap (pqdownheap tree k s)) = mset (heap s) \<and>
      (\<forall>i. i = 0 \<or> heap_len s < i \<longrightarrow> heap (pqdownheap tree k s) ! i = heap s ! i)"
    using pqdown_loop_correct [of k k "2 * k" "heap_len s" "heap s" tree "depth s" "heap s ! k"] assms
    by (simp add: pqdownheap_def heap_ok_def)
  show len: "length (heap (pqdownheap tree k s)) = length (heap s)"
    by (simp add: pqdownheap_def)
  show "heap_ok tree k (pqdownheap tree k s)"
    using * assms len by (simp add: heap_ok_def)
  show "heap_elems (pqdownheap tree k s) = heap_elems s"
    unfolding heap_elems_def using * assms(3) len
    by (simp only: pqdownheap_simps) (intro heap_elems_eq, simp_all add: heap_ok_def)
qed

lemma heapify_correct:
  assumes "n \<le> heap_len s" "heap_ok tree (Suc n) s"
  shows "heap_ok tree 1 (heapify tree n s) \<and> heap_elems (heapify tree n s) = heap_elems s \<and>
    heap_len (heapify tree n s) = heap_len s \<and> depth (heapify tree n s) = depth s"
  using assms
proof (induction n arbitrary: s)
  case (Suc n)
  then show ?case using pqdownheap_correct [of "Suc n" s tree] by simp
qed simp

lemma heap_ok_half: "heap_len s < length (heap s) \<Longrightarrow> heap_ok tree (Suc (heap_len s div 2)) s"
  unfolding heap_ok_def node.heap_from_def by (auto dest: leD)

lemma heap_elems_hd:
  assumes "1 \<le> heap_len s" "heap_len s < length (heap s)"
  shows "heap_elems s = add_mset (heap s ! 1) (mset (take (heap_len s - 1) (drop 2 (heap s))))"
proof -
  have "drop 1 (heap s) = heap s ! 1 # drop 2 (heap s)"
    using assms by (metis Cons_nth_drop_Suc One_nat_def Suc_1 le_less_trans)
  then show ?thesis using assms by (simp add: heap_elems_def take_Cons' del: drop_Suc)
qed

lemma pqremove_correct:
  assumes ok: "heap_ok tree 1 s" and len: "2 \<le> heap_len s" and r: "pqremove tree s = (x, s')"
  shows "heap_ok tree 1 s'" and "heap_elems s = add_mset x (heap_elems s')"
    and "\<And>n. n \<in># heap_elems s \<Longrightarrow> smaller tree x n (depth s)" and "heap_len s' = heap_len s - 1"
proof -
  let ?h = "(heap s)[1 := heap s ! heap_len s]"
  let ?s = "s\<lparr>heap := ?h, heap_len := heap_len s - 1\<rparr>"
  have s': "s' = pqdownheap tree 1 ?s" and x: "x = heap s ! 1"
    using r by (auto simp: pqremove_def Let_def SMALLEST_def)
  have "node.heap_from tree (depth s) 2 (heap_len s - 1) ?h"
  proof -
    have "smaller tree (?h ! (c div 2)) (?h ! c) (depth s)" if "4 \<le> c" "c \<le> heap_len s - 1" for c
      using ok that by (auto simp: heap_ok_def node.heap_from_def)
    then show ?thesis by (auto simp: node.heap_from_def)
  qed
  then have ok': "heap_ok tree (Suc 1) ?s"
    using ok by (auto simp: heap_ok_def numeral_2_eq_2)
  then show "heap_ok tree 1 s'"
    unfolding s' using len by (intro pqdownheap_correct) simp_all
  have "heap_elems s' = heap_elems ?s"
    unfolding s' using len ok' by (intro pqdownheap_correct) simp_all
  also have "\<dots> = add_mset (heap s ! heap_len s) (mset (take (heap_len s - 2) (drop 2 (heap s))))"
    using len ok by (subst heap_elems_hd) (auto simp: heap_ok_def numeral_2_eq_2)
  also have "\<dots> = mset (take (heap_len s - 1) (drop 2 (heap s)))"
  proof -
    have "take (Suc (heap_len s - 2)) (drop 2 (heap s)) = take (heap_len s - 2) (drop 2 (heap s)) @ [drop 2 (heap s) ! (heap_len s - 2)]"
      using len ok by (intro take_Suc_conv_app_nth) (auto simp: heap_ok_def)
    moreover have "Suc (heap_len s - 2) = heap_len s - 1" "2 + (heap_len s - 2) = heap_len s" using len by auto
    ultimately show ?thesis using len ok by (simp add: heap_ok_def)
  qed
  finally show "heap_elems s = add_mset x (heap_elems s')"
    using len ok by (subst heap_elems_hd) (simp_all add: x heap_ok_def)
  show "smaller tree x n (depth s)" if n: "n \<in># heap_elems s" for n
  proof -
    obtain c where "1 \<le> c" "c \<le> heap_len s" "n = heap s ! c"
      using n ok by (force simp: heap_elems_def heap_ok_def in_set_conv_nth)
    then show ?thesis
      using node.heap_from_root [of tree "depth s" "heap_len s" "heap s" c] ok by (simp add: heap_ok_def x)
  qed
  show "heap_len s' = heap_len s - 1" by (simp add: s')
qed

section \<open>Properties\<close>

text \<open>C16: \<open>pqdownheap\<close> restores the heap: when the nodes below \<open>k\<close> are in order, it permutes the heap
  (nothing is lost or duplicated) and every father from \<open>k\<close> on then comes before its sons in the order of
  frequency and depth.\<close>

theorem pqdownheap_restores_heap:
  assumes "1 \<le> k" "k \<le> heap_len s" "heap_ok tree (Suc k) s"
  shows "heap_ok tree k (pqdownheap tree k s) \<and> heap_elems (pqdownheap tree k s) = heap_elems s"
  using pqdownheap_correct [OF assms] by blast

definition heap_example :: tree_state where
  "heap_example = \<lparr>pending_buf = [], bi_buf = 0, bi_valid = 0, dyn_ltree = [], dyn_dtree = [], bl_tree = [],
     l_max_code = 0, d_max_code = 0, bl_max_code = 0, bl_count = [], heap = [9, 0, 1, 2], heap_len = 3,
     heap_max = 0, depth = [0, 0, 0], l_buf = [], lit_bufsize = 0, last_lit = 0, d_buf = [], opt_len = 0,
     static_len = 0, matches = 0, level = 6, strategy = 0, data_type = 2\<rparr>"

theorem pqdownheap_restores_heap_witness:
  "heap_ok [ct 5 0, ct 3 0, ct 4 0] 1 (pqdownheap [ct 5 0, ct 3 0, ct 4 0] 1 heap_example) \<and>
   heap (pqdownheap [ct 5 0, ct 3 0, ct 4 0] 1 heap_example) = [9, 1, 0, 2]"
proof -
  have "heap_ok [ct 5 0, ct 3 0, ct 4 0] (Suc 1) heap_example"
    by (auto simp: heap_ok_def node.heap_from_def heap_example_def)
  moreover have "(1 :: nat) \<le> heap_len heap_example"
    by (simp add: heap_example_def)
  ultimately have "heap_ok [ct 5 0, ct 3 0, ct 4 0] 1 (pqdownheap [ct 5 0, ct 3 0, ct 4 0] 1 heap_example)"
    by (intro pqdownheap_restores_heap [THEN conjunct1]) simp_all
  moreover have "heap (pqdownheap [ct 5 0, ct 3 0, ct 4 0] 1 heap_example) = [9, 1, 0, 2]"
    by (simp add: pqdownheap_def heap_example_def smaller_def pqdown_loop.simps)
  ultimately show ?thesis ..
qed

text \<open>C17: \<open>pqremove\<close> takes a node of least frequency (ties broken by depth) out of the heap and leaves
  a heap of the other nodes, so \<open>build_tree\<close> always combines the two least frequent nodes.\<close>

theorem pqremove_least:
  assumes "heap_ok tree 1 s" "2 \<le> heap_len s" "pqremove tree s = (n, s')"
  shows "heap_ok tree 1 s' \<and> heap_elems s = add_mset n (heap_elems s') \<and>
    (\<forall>m. m \<in># heap_elems s \<longrightarrow> smaller tree n m (depth s))"
  using pqremove_correct [OF assms] by blast

theorem pqremove_least_witness:
  "heap_elems (snd (pqremove [ct 1 0, ct 3 0, ct 4 0] heap_example)) + {#0#} = heap_elems heap_example"
proof -
  have ok: "heap_ok [ct 1 0, ct 3 0, ct 4 0] 1 heap_example"
  proof -
    have c: "c = 2 \<or> c = 3" if "2 * 1 \<le> c \<and> c \<le> 3" for c :: nat using that by linarith
    show ?thesis
      unfolding heap_ok_def node.heap_from_def
      by (auto simp: heap_example_def smaller_def dest!: c [simplified])
  qed
  have "fst (pqremove [ct 1 0, ct 3 0, ct 4 0] heap_example) = 0"
    by (simp add: pqremove_def Let_def SMALLEST_def heap_example_def)
  then show ?thesis
    using pqremove_least [OF ok, of 0 "snd (pqremove [ct 1 0, ct 3 0, ct 4 0] heap_example)"]
    by (simp add: prod_eq_iff) (simp add: heap_example_def)
qed

end
