(* ===== verification/Tree_Send.thy ===== *)
theory Tree_Send
  imports Tree_Build
begin

text \<open>
  Sending trees and blocks (\<open>src/src/zlib/trees.c\<close>): the run-length coding of the code lengths
  (\<open>scan_tree\<close>, \<open>send_tree\<close>, \<open>build_bl_tree\<close>, \<open>send_all_trees\<close>), the block writers and the choice
  between them (\<open>_tr_flush_block\<close>), the collection of the symbols (\<open>_tr_tally\<close>) and
  \<open>detect_data_type\<close>.
\<close>

definition send_code :: "'a bit_state_scheme \<Rightarrow> nat \<Rightarrow> ct_data list \<Rightarrow> 'a bit_state_scheme" where
  "send_code s c tree = send_bits s (uint (Code (tree ! c))) (unat (Len (tree ! c)))"

section \<open>Run lengths of code lengths\<close>

text \<open>The locals of the loops of \<open>scan_tree\<close> and \<open>send_tree\<close>.\<close>

record rl_state =
  prevlen :: int
  nextlen :: nat
  run_count :: nat
  max_count :: nat
  min_count :: nat

definition rl_start :: "ct_data list \<Rightarrow> rl_state" where
  "rl_start tree =
     (let nextlen = unat (Len (tree ! 0));
          st = \<lparr>prevlen = -1, nextlen = nextlen, run_count = 0, max_count = 7, min_count = 4\<rparr>
      in if nextlen = 0 then st\<lparr>max_count := 138, min_count := 3\<rparr> else st)"

text \<open>The end of the loop body, after a run has been recorded.\<close>

definition rl_next_run :: "rl_state \<Rightarrow> nat \<Rightarrow> rl_state" where
  "rl_next_run st curlen =
     (let st = st\<lparr>run_count := 0, prevlen := int curlen\<rparr>
      in if nextlen st = 0 then st\<lparr>max_count := 138, min_count := 3\<rparr>
         else if curlen = nextlen st then st\<lparr>max_count := 6, min_count := 3\<rparr>
         else st\<lparr>max_count := 7, min_count := 4\<rparr>)"

definition add_Freq :: "ct_data list \<Rightarrow> nat \<Rightarrow> u16 \<Rightarrow> ct_data list" where
  "add_Freq tree n f = set_Freq tree n (Freq (tree ! n) + f)"

definition scan_step :: "ct_data list \<Rightarrow> ct_data list \<times> rl_state \<Rightarrow> nat \<Rightarrow> ct_data list \<times> rl_state" where
  "scan_step tree bs n =
     (case bs of (bl, st) \<Rightarrow>
        let curlen = nextlen st;
            st = st\<lparr>nextlen := unat (Len (tree ! (n + 1))), run_count := run_count st + 1\<rparr>
        in if run_count st < max_count st \<and> curlen = nextlen st then (bl, st)
           else
             (let bl = (if run_count st < min_count st then add_Freq bl curlen (word_of_nat (run_count st))
                        else if curlen \<noteq> 0 then
                          (let bl = (if int curlen \<noteq> prevlen st then add_Freq bl curlen 1 else bl)
                           in add_Freq bl REP_3_6 1)
                        else if run_count st \<le> 10 then add_Freq bl REPZ_3_10 1
                        else add_Freq bl REPZ_11_138 1)
              in (bl, rl_next_run st curlen)))"

definition scan_tree :: "tree_sel \<Rightarrow> int \<Rightarrow> 'a tree_state_scheme \<Rightarrow> 'a tree_state_scheme" where
  "scan_tree d max_code s =
     (let tree = dyn_tree d s;
          st = rl_start tree;
          tree = set_Len tree (nat (max_code + 1)) 0xffff
      in (set_dyn_tree d tree s)
           \<lparr>bl_tree := fst (foldl (scan_step tree) (bl_tree s, st) [0..<nat (max_code + 1)])\<rparr>)"

definition send_step :: "ct_data list \<Rightarrow> ct_data list \<Rightarrow> 'a bit_state_scheme \<times> rl_state \<Rightarrow> nat \<Rightarrow> 'a bit_state_scheme \<times> rl_state" where
  "send_step bl tree bs n =
     (case bs of (s, st) \<Rightarrow>
        let curlen = nextlen st;
            st = st\<lparr>nextlen := unat (Len (tree ! (n + 1))), run_count := run_count st + 1\<rparr>
        in if run_count st < max_count st \<and> curlen = nextlen st then (s, st)
           else
             (let s = (if run_count st < min_count st then ((\<lambda>s. send_code s curlen bl) ^^ run_count st) s
                       else if curlen \<noteq> 0 then
                         (let sc = (if int curlen \<noteq> prevlen st then (send_code s curlen bl, run_count st - 1)
                                    else (s, run_count st))
                          in send_bits (send_code (fst sc) REP_3_6 bl) (int (snd sc) - 3) 2)
                       else if run_count st \<le> 10 then send_bits (send_code s REPZ_3_10 bl) (int (run_count st) - 3) 3
                       else send_bits (send_code s REPZ_11_138 bl) (int (run_count st) - 11) 7)
              in (s, rl_next_run st curlen)))"

definition send_tree :: "ct_data list \<Rightarrow> ct_data list \<Rightarrow> int \<Rightarrow> 'a bit_state_scheme \<Rightarrow> 'a bit_state_scheme" where
  "send_tree bl tree max_code s =
     fst (foldl (send_step bl tree) (s, rl_start tree) [0..<nat (max_code + 1)])"

text \<open>\<open>for (max_blindex = BL_CODES-1; max_blindex >= 3; max_blindex--) if (...) break;\<close>, from
  \<open>b - 1\<close> down; without a break the loop ends at 2.\<close>

fun last_bl_code :: "ct_data list \<Rightarrow> nat \<Rightarrow> nat" where
  "last_bl_code bl 0 = 0"
| "last_bl_code bl (Suc b) =
     (if b < 3 then b else if Len (bl ! (bl_order ! b)) \<noteq> 0 then b else last_bl_code bl b)"

definition build_bl_tree :: "'a tree_state_scheme \<Rightarrow> nat \<times> 'a tree_state_scheme" where
  "build_bl_tree s =
     (let s = scan_tree L_DESC (l_max_code s) s;
          s = scan_tree D_DESC (d_max_code s) s;
          s = build_tree BL_DESC s;
          max_blindex = last_bl_code (bl_tree s) BL_CODES
      in (max_blindex, s\<lparr>opt_len := opt_len s + (3 * (word_of_nat max_blindex + 1) + 5 + 5 + 4)\<rparr>))"

definition send_all_trees :: "int \<Rightarrow> int \<Rightarrow> nat \<Rightarrow> 'a tree_state_scheme \<Rightarrow> 'a tree_state_scheme" where
  "send_all_trees lcodes dcodes blcodes s =
     (let s = send_bits s (lcodes - 257) 5;
          s = send_bits s (dcodes - 1) 5;
          s = send_bits s (int blcodes - 4) 4;
          s = foldl (\<lambda>s rank. send_bits s (uint (Len (bl_tree s ! (bl_order ! rank)))) 3) s [0..<blcodes];
          s = send_tree (bl_tree s) (dyn_ltree s) (lcodes - 1) s
      in send_tree (bl_tree s) (dyn_dtree s) (dcodes - 1) s)"

section \<open>Blocks\<close>

definition STORED_BLOCK :: int where "STORED_BLOCK = 0"
definition STATIC_TREES :: int where "STATIC_TREES = 1"
definition DYN_TREES :: int where "DYN_TREES = 2"
definition Z_FIXED :: int where "Z_FIXED = 4"
definition Z_BINARY :: int where "Z_BINARY = 0"
definition Z_TEXT :: int where "Z_TEXT = 1"
definition Z_UNKNOWN :: int where "Z_UNKNOWN = 2"

lemmas block_consts = STORED_BLOCK_def STATIC_TREES_def DYN_TREES_def Z_FIXED_def Z_BINARY_def
  Z_TEXT_def Z_UNKNOWN_def

text \<open>\<open>_tr_stored_block\<close>; \<open>buf\<close> is the memory from the pointer on.\<close>

definition tr_stored_block :: "'a bit_state_scheme \<Rightarrow> u8 list \<Rightarrow> nat \<Rightarrow> int \<Rightarrow> 'a bit_state_scheme" where
  "tr_stored_block s buf stored_len last_block =
     (let s = send_bits s (STORED_BLOCK * 2 + last_block) 3;
          s = bi_windup s;
          s = put_short s (word_of_nat stored_len);
          s = put_short s (NOT (word_of_nat stored_len))
      in s\<lparr>pending_buf := pending_buf s @ take stored_len buf\<rparr>)"

definition tr_flush_bits :: "'a bit_state_scheme \<Rightarrow> 'a bit_state_scheme" where
  "tr_flush_bits s = bi_flush s"

definition tr_align :: "'a bit_state_scheme \<Rightarrow> 'a bit_state_scheme" where
  "tr_align s =
     (let s = send_bits s (STATIC_TREES * 2) 3;
          s = send_code s END_BLOCK static_ltree
      in bi_flush s)"

text \<open>\<open>d_buf\<close> and \<open>l_buf\<close> lie inside \<open>pending_buf\<close> (\<open>deflate.c\<close>, line 340), at the bytes \<open>lit_bufsize\<close> and
  3 times \<open>lit_bufsize\<close>.  The byte \<open>k\<close> of \<open>pending_buf\<close> is a pending byte as far as these reach, and otherwise \<open>b\<close>, which
  was stored there before; blocks are written while \<open>pending_out\<close> is at the start of \<open>pending_buf\<close>.  An entry of \<open>d_buf\<close>
  has its low byte first.\<close>

definition overlay_byte :: "'a tree_state_scheme \<Rightarrow> nat \<Rightarrow> u8 \<Rightarrow> u8" where
  "overlay_byte s k b = (if k < length (pending_buf s) then pending_buf s ! k else b)"

definition read_d :: "'a tree_state_scheme \<Rightarrow> nat \<Rightarrow> u16" where
  "read_d s lx =
     (let k = lit_bufsize s + 2 * lx
      in ucast (overlay_byte s k (ucast (d_buf s ! lx))) OR
         push_bit 8 (ucast (overlay_byte s (k + 1) (ucast (drop_bit 8 (d_buf s ! lx))))))"

definition read_l :: "'a tree_state_scheme \<Rightarrow> nat \<Rightarrow> u8" where
  "read_l s lx = overlay_byte s (3 * lit_bufsize s + lx) (l_buf s ! lx)"

definition compress_sym :: "ct_data list \<Rightarrow> ct_data list \<Rightarrow> 'a tree_state_scheme \<Rightarrow> nat \<Rightarrow> 'a tree_state_scheme" where
  "compress_sym ltree dtree s lx =
     (let dist = unat (read_d s lx);
          lc = unat (read_l s lx)
      in if dist = 0 then send_code s lc ltree
         else
           (let code = length_code ! lc;
                s = send_code s (code + LITERALS + 1) ltree;
                extra = extra_lbits ! code;
                s = (if extra \<noteq> 0 then send_bits s (int lc - int (base_length ! code)) extra else s);
                dist = dist - 1;
                code = d_code dist;
                s = send_code s code dtree;
                extra = extra_dbits ! code
            in if extra \<noteq> 0 then send_bits s (int dist - int (base_dist ! code)) extra else s))"

text \<open>\<open>if (s->last_lit != 0) do ... while (lx < s->last_lit);\<close>\<close>

definition compress_block :: "ct_data list \<Rightarrow> ct_data list \<Rightarrow> 'a tree_state_scheme \<Rightarrow> 'a tree_state_scheme" where
  "compress_block ltree dtree s =
     send_code (foldl (compress_sym ltree dtree) s [0..<last_lit s]) END_BLOCK ltree"

definition black_mask :: u32 where
  "black_mask = 0xf3ffc07f"

definition detect_data_type :: "'a tree_state_scheme \<Rightarrow> int" where
  "detect_data_type s =
     (let used = (\<lambda>n. Freq (dyn_ltree s ! n) \<noteq> 0) in
      if list_ex (\<lambda>n. drop_bit n black_mask AND 1 \<noteq> 0 \<and> used n) [0..<32] then Z_BINARY
      else if used 9 \<or> used 10 \<or> used 13 then Z_TEXT
      else if list_ex used [32..<LITERALS] then Z_TEXT
      else Z_BINARY)"

text \<open>The trees are built and the lengths compared when \<open>level > 0\<close>; otherwise a stored block is
  forced.  The result gives \<open>opt_lenb\<close>, \<open>static_lenb\<close> and \<open>max_blindex\<close>.\<close>

definition flush_lengths :: "'a tree_state_scheme \<Rightarrow> nat \<Rightarrow> u64 \<times> u64 \<times> nat \<times> 'a tree_state_scheme" where
  "flush_lengths s stored_len =
     (if level s > 0 then
        (let s = (if data_type s = Z_UNKNOWN then s\<lparr>data_type := detect_data_type s\<rparr> else s);
             s = build_tree L_DESC s;
             s = build_tree D_DESC s
         in (case build_bl_tree s of (max_blindex, s) \<Rightarrow>
               let opt_lenb = drop_bit 3 (opt_len s + 3 + 7);
                   static_lenb = drop_bit 3 (static_len s + 3 + 7);
                   opt_lenb = (if static_lenb \<le> opt_lenb then static_lenb else opt_lenb)
               in (opt_lenb, static_lenb, max_blindex, s)))
      else (word_of_nat stored_len + 5, word_of_nat stored_len + 5, 0, s))"

definition tr_flush_block :: "'a tree_state_scheme \<Rightarrow> u8 list option \<Rightarrow> nat \<Rightarrow> int \<Rightarrow> 'a tree_state_scheme" where
  "tr_flush_block s buf stored_len last_block =
     (case flush_lengths s stored_len of (opt_lenb, static_lenb, max_blindex, s) \<Rightarrow>
        let s = (if word_of_nat stored_len + 4 \<le> opt_lenb \<and> buf \<noteq> None
                 then tr_stored_block s (the buf) stored_len last_block
                 else if strategy s = Z_FIXED \<or> static_lenb = opt_lenb
                 then compress_block static_ltree static_dtree (send_bits s (STATIC_TREES * 2 + last_block) 3)
                 else
                   (let s = send_bits s (DYN_TREES * 2 + last_block) 3;
                        s = send_all_trees (l_max_code s + 1) (d_max_code s + 1) (max_blindex + 1) s
                    in compress_block (dyn_ltree s) (dyn_dtree s) s));
            s = init_block s
        in if last_block \<noteq> 0 then bi_windup s else s)"

text \<open>\<open>_tr_tally\<close>, and the macros that replace it in the build without \<open>ZLIB_DEBUG\<close>.\<close>

definition tr_tally :: "'a tree_state_scheme \<Rightarrow> nat \<Rightarrow> nat \<Rightarrow> bool \<times> 'a tree_state_scheme" where
  "tr_tally s dist lc =
     (let s = s\<lparr>d_buf := (d_buf s)[last_lit s := word_of_nat dist]\<rparr>;
          s = s\<lparr>l_buf := (l_buf s)[last_lit s := word_of_nat lc], last_lit := last_lit s + 1\<rparr>;
          s = (if dist = 0 then s\<lparr>dyn_ltree := add_Freq (dyn_ltree s) lc 1\<rparr>
               else
                 (let s = s\<lparr>matches := matches s + 1\<rparr>;
                      dist = dist - 1
                  in s\<lparr>dyn_ltree := add_Freq (dyn_ltree s) (length_code ! lc + LITERALS + 1) 1,
                       dyn_dtree := add_Freq (dyn_dtree s) (d_code dist) 1\<rparr>))
      in (last_lit s = lit_bufsize s - 1, s))"

definition tr_tally_lit :: "'a tree_state_scheme \<Rightarrow> u8 \<Rightarrow> bool \<times> 'a tree_state_scheme" where
  "tr_tally_lit s c =
     (let s = s\<lparr>d_buf := (d_buf s)[last_lit s := 0]\<rparr>;
          s = s\<lparr>l_buf := (l_buf s)[last_lit s := c], last_lit := last_lit s + 1\<rparr>;
          s = s\<lparr>dyn_ltree := add_Freq (dyn_ltree s) (unat c) 1\<rparr>
      in (last_lit s = lit_bufsize s - 1, s))"

definition tr_tally_dist :: "'a tree_state_scheme \<Rightarrow> nat \<Rightarrow> nat \<Rightarrow> bool \<times> 'a tree_state_scheme" where
  "tr_tally_dist s distance len =
     (let len = (word_of_nat len :: u8);
          dist = (word_of_nat distance :: u16);
          s = s\<lparr>d_buf := (d_buf s)[last_lit s := dist]\<rparr>;
          s = s\<lparr>l_buf := (l_buf s)[last_lit s := len], last_lit := last_lit s + 1\<rparr>;
          dist = dist - 1;
          s = s\<lparr>dyn_ltree := add_Freq (dyn_ltree s) (length_code ! unat len + LITERALS + 1) 1,
                dyn_dtree := add_Freq (dyn_dtree s) (d_code (unat dist)) 1\<rparr>
      in (last_lit s = lit_bufsize s - 1, s))"

section \<open>The run-length code as tokens\<close>

text \<open>A token: the symbol of the bit length tree, and the value and width of its extra bits.\<close>

type_synonym bl_token = "nat \<times> int \<times> nat"

definition run_tokens :: "rl_state \<Rightarrow> nat \<Rightarrow> bl_token list" where
  "run_tokens st curlen =
     (if run_count st < min_count st then replicate (run_count st) (curlen, 0, 0)
      else if curlen \<noteq> 0 then
        (if int curlen \<noteq> prevlen st then [(curlen, 0, 0), (16, int (run_count st - 1) - 3, 2)]
         else [(16, int (run_count st) - 3, 2)])
      else if run_count st \<le> 10 then [(17, int (run_count st) - 3, 3)]
      else [(18, int (run_count st) - 11, 7)])"

definition rl_step :: "ct_data list \<Rightarrow> bl_token list \<times> rl_state \<Rightarrow> nat \<Rightarrow> bl_token list \<times> rl_state" where
  "rl_step tree ts n =
     (case ts of (toks, st) \<Rightarrow>
        let curlen = nextlen st;
            st = st\<lparr>nextlen := unat (Len (tree ! (n + 1))), run_count := run_count st + 1\<rparr>
        in if run_count st < max_count st \<and> curlen = nextlen st then (toks, st)
           else (toks @ run_tokens st curlen, rl_next_run st curlen))"

definition rl_tokens :: "ct_data list \<Rightarrow> int \<Rightarrow> bl_token list" where
  "rl_tokens tree max_code = fst (foldl (rl_step tree) ([], rl_start tree) [0..<nat (max_code + 1)])"

definition count_token :: "ct_data list \<Rightarrow> bl_token \<Rightarrow> ct_data list" where
  "count_token bl t = add_Freq bl (fst t) 1"

definition send_token :: "ct_data list \<Rightarrow> 'a bit_state_scheme \<Rightarrow> bl_token \<Rightarrow> 'a bit_state_scheme" where
  "send_token bl s t =
     (case t of (sy, v, n) \<Rightarrow> if n = 0 then send_code s sy bl else send_bits (send_code s sy bl) v n)"

text \<open>\<open>scan_tree\<close> counts the tokens, \<open>send_tree\<close> sends the same ones.\<close>

lemma add_Freq_add: "add_Freq (add_Freq bl n a) n b = add_Freq bl n (a + b)"
  by (cases "n < length bl") (simp_all add: add_Freq_def set_Freq_def add.assoc list_update_beyond)

lemma add_Freq_0: "add_Freq bl n 0 = bl"
  by (simp add: add_Freq_def set_Freq_def)

lemma count_replicate: "foldl count_token bl (replicate k (n, v, w)) = add_Freq bl n (word_of_nat k)"
proof (induction k arbitrary: bl)
  case (Suc k)
  then show ?case by (simp add: count_token_def add_Freq_add)
qed (simp add: add_Freq_0)

lemma count_run_tokens:
  "foldl count_token bl (run_tokens st cur) =
     (if run_count st < min_count st then add_Freq bl cur (word_of_nat (run_count st))
      else if cur \<noteq> 0 then
        add_Freq (if int cur \<noteq> prevlen st then add_Freq bl cur 1 else bl) REP_3_6 1
      else if run_count st \<le> 10 then add_Freq bl REPZ_3_10 1 else add_Freq bl REPZ_11_138 1)"
  by (simp add: run_tokens_def count_replicate count_token_def tree_consts)

lemma scan_step_tokens:
  assumes "rl_step tree (toks, st) n = (toks', st')"
  shows "scan_step tree (foldl count_token bl toks, st) n = (foldl count_token bl toks', st')"
  using assms unfolding scan_step_def rl_step_def
  by (auto simp: Let_def count_run_tokens split: if_splits)

lemma scan_fold:
  "scan_foldl = foldl (scan_step tree) (foldl count_token bl toks, st) ns \<Longrightarrow>
   foldl (rl_step tree) (toks, st) ns = (toks', st') \<Longrightarrow> scan_foldl = (foldl count_token bl toks', st')"
proof (induction ns arbitrary: toks st)
  case (Cons n ns)
  obtain toks1 st1 where "rl_step tree (toks, st) n = (toks1, st1)" by fastforce
  then show ?case using Cons scan_step_tokens [of tree toks st n toks1 st1 bl] by simp
qed simp

lemma send_replicate: "foldl (send_token bl) s (replicate k (n, v, 0)) = ((\<lambda>s. send_code s n bl) ^^ k) s"
  by (induction k arbitrary: s) (simp_all add: send_token_def funpow_swap1 [of "\<lambda>s. send_code s n bl"])

lemma send_run_tokens:
  "foldl (send_token bl) s (run_tokens st cur) =
     (if run_count st < min_count st then ((\<lambda>s. send_code s cur bl) ^^ run_count st) s
      else if cur \<noteq> 0 then
        (if int cur \<noteq> prevlen st
         then send_bits (send_code (send_code s cur bl) REP_3_6 bl) (int (run_count st - 1) - 3) 2
         else send_bits (send_code s REP_3_6 bl) (int (run_count st) - 3) 2)
      else if run_count st \<le> 10 then send_bits (send_code s REPZ_3_10 bl) (int (run_count st) - 3) 3
      else send_bits (send_code s REPZ_11_138 bl) (int (run_count st) - 11) 7)"
  by (simp add: run_tokens_def send_replicate) (simp add: send_token_def tree_consts)

lemma send_step_tokens:
  assumes "rl_step tree (toks, st) n = (toks', st')"
  shows "send_step bl tree (foldl (send_token bl) s toks, st) n = (foldl (send_token bl) s toks', st')"
  using assms unfolding send_step_def rl_step_def
  by (auto simp: Let_def send_run_tokens simp del: funpow.simps split: if_splits)

lemma send_fold:
  "foldl (rl_step tree) (toks, st) ns = (toks', st') \<Longrightarrow>
   foldl (send_step bl tree) (foldl (send_token bl) s toks, st) ns = (foldl (send_token bl) s toks', st')"
proof (induction ns arbitrary: toks st)
  case (Cons n ns)
  obtain toks1 st1 where "rl_step tree (toks, st) n = (toks1, st1)" by fastforce
  then show ?case using Cons send_step_tokens [of tree toks st n toks1 st1 bl s] by simp
qed simp

lemma scan_tree_tokens:
  "bl_tree (scan_tree d max_code s) =
     foldl count_token (bl_tree s)
       (fst (foldl (rl_step (set_Len (dyn_tree d s) (nat (max_code + 1)) 0xffff))
          ([], rl_start (dyn_tree d s)) [0..<nat (max_code + 1)]))"
  unfolding scan_tree_def Let_def
  using scan_fold [OF refl, of "set_Len (dyn_tree d s) (nat (max_code + 1)) 0xffff" "[]" "rl_start (dyn_tree d s)"
      "[0..<nat (max_code + 1)]" _ _ "bl_tree s"]
  by (cases "foldl (rl_step (set_Len (dyn_tree d s) (nat (max_code + 1)) 0xffff))
      ([], rl_start (dyn_tree d s)) [0..<nat (max_code + 1)]") simp

lemma send_tree_tokens:
  "send_tree bl tree max_code s = foldl (send_token bl) s (rl_tokens tree max_code)"
  unfolding send_tree_def rl_tokens_def
  using send_fold [of tree "[]" "rl_start tree" "[0..<nat (max_code + 1)]" _ _ bl s]
  by (cases "foldl (rl_step tree) ([], rl_start tree) [0..<nat (max_code + 1)]") simp

section \<open>Expanding the run lengths\<close>

text \<open>What a decoder does with a token (RFC 1951, section 3.2.7): a length, three to six copies of the
  previous length, or a run of zeros.\<close>

definition expand_token :: "nat list \<Rightarrow> bl_token \<Rightarrow> nat list" where
  "expand_token acc t =
     (case t of (sy, v, n) \<Rightarrow>
        if sy < 16 then acc @ [sy]
        else if sy = 16 then acc @ replicate (nat (3 + v)) (last acc)
        else if sy = 17 then acc @ replicate (nat (3 + v)) 0
        else acc @ replicate (nat (11 + v)) 0)"

definition token_ok :: "bl_token \<Rightarrow> bool" where
  "token_ok t = (case t of (sy, v, n) \<Rightarrow>
     sy < BL_CODES \<and> n = extra_blbits ! sy \<and> 0 \<le> v \<and> v < 2 ^ n)"

text \<open>The limits in force for the coming run, from the last length sent and the next one.\<close>

definition rl_limits :: "int \<Rightarrow> nat \<Rightarrow> nat \<times> nat" where
  "rl_limits prev next =
     (if next = 0 then (138, 3) else if prev = int next then (6, 3) else (7, 4))"

definition rl_inv :: "nat list \<Rightarrow> nat \<Rightarrow> bl_token list \<times> rl_state \<Rightarrow> bool" where
  "rl_inv lens n ts \<longleftrightarrow>
     (case ts of (toks, st) \<Rightarrow>
        let acc = foldl expand_token [] toks in
        (\<forall>t\<in>set toks. token_ok t) \<and>
        acc @ replicate (run_count st) (nextlen st) = take n lens \<and>
        (max_count st, min_count st) = rl_limits (prevlen st) (nextlen st) \<and>
        (prevlen st = -1 \<or> acc \<noteq> [] \<and> prevlen st = int (last acc)) \<and>
        run_count st < max_count st)"

lemma expand_replicate:
  "c < 16 \<Longrightarrow> foldl expand_token acc (replicate k (c, v, w)) = acc @ replicate k c"
  by (induction k arbitrary: acc) (auto simp: expand_token_def replicate_app_Cons_same)

lemma run_tokens_expand:
  assumes "1 \<le> run_count st" "run_count st \<le> max_count st" "cur < 16"
    and "(max_count st, min_count st) = rl_limits (prevlen st) cur"
    and "prevlen st = -1 \<or> acc \<noteq> [] \<and> prevlen st = int (last acc)"
  shows "foldl expand_token acc (run_tokens st cur) = acc @ replicate (run_count st) cur"
    and "\<forall>t\<in>set (run_tokens st cur). token_ok t"
proof -
  have lim: "max_count st = fst (rl_limits (prevlen st) cur)" "min_count st = snd (rl_limits (prevlen st) cur)"
    using assms(4) by (metis fst_conv, metis snd_conv)
  show "foldl expand_token acc (run_tokens st cur) = acc @ replicate (run_count st) cur"
  proof (cases "run_count st < min_count st")
    case True
    then show ?thesis using assms(3) by (simp add: run_tokens_def expand_replicate)
  next
    case False
    have "replicate (run_count st) cur = cur # replicate (run_count st - 1) cur"
      using assms(1) by (cases "run_count st") simp_all
    then show ?thesis
      using assms(1,2,3,5) lim False
      by (auto simp: run_tokens_def rl_limits_def expand_token_def nat_add_distrib split: if_splits)
  qed
  have "extra_blbits ! cur = 0"
    using assms(3) by (auto simp: extra_blbits_def less_Suc_eq numeral_nat)
  then show "\<forall>t\<in>set (run_tokens st cur). token_ok t"
    using assms(1-3) lim
    by (auto simp: run_tokens_def rl_limits_def token_ok_def BL_CODES_def split: if_splits)
      (simp_all add: extra_blbits_def)
qed

lemma rl_next_run_limits:
  "(max_count (rl_next_run st cur), min_count (rl_next_run st cur)) = rl_limits (int cur) (nextlen st)"
  "prevlen (rl_next_run st cur) = int cur" "nextlen (rl_next_run st cur) = nextlen st"
  "run_count (rl_next_run st cur) = 0" "0 < max_count (rl_next_run st cur)"
  by (auto simp: rl_next_run_def rl_limits_def Let_def)

lemma rl_inv_step:
  assumes inv: "rl_inv lens n (toks, st)" and n: "n < length lens" "nextlen st = lens ! n" "lens ! n < 16"
    and step: "rl_step tree (toks, st) n = (toks', st')"
  shows "rl_inv lens (Suc n) (toks', st') \<and> nextlen st' = unat (Len (tree ! (n + 1))) \<and>
    (nextlen st' \<noteq> lens ! n \<longrightarrow> run_count st' = 0)"
proof -
  let ?acc = "foldl expand_token [] toks"
  let ?st = "st\<lparr>nextlen := unat (Len (tree ! (n + 1))), run_count := run_count st + 1\<rparr>"
  have inv': "?acc @ replicate (run_count st) (lens ! n) = take n lens" "\<forall>t\<in>set toks. token_ok t"
    "(max_count st, min_count st) = rl_limits (prevlen st) (lens ! n)"
    "prevlen st = -1 \<or> ?acc \<noteq> [] \<and> prevlen st = int (last ?acc)" "run_count st < max_count st"
    using inv n(2) by (simp_all add: rl_inv_def Let_def)
  have snoc: "?acc @ replicate (Suc (run_count st)) (lens ! n) = take (Suc n) lens"
    using inv'(1) n(1) by (simp add: take_Suc_conv_app_nth replicate_append_same [symmetric] del: replicate_Suc)
      (metis append_assoc replicate_append_same replicate_Suc)
  show ?thesis
  proof (cases "Suc (run_count st) < max_count st \<and> lens ! n = unat (Len (tree ! (n + 1)))")
    case True
    then have "toks' = toks" "st' = ?st" using step n(2) by (simp_all add: rl_step_def Let_def)
    then show ?thesis
      using True inv' snoc n(2) by (simp add: rl_inv_def Let_def)
  next
    case False
    then have res: "toks' = toks @ run_tokens ?st (lens ! n)" "st' = rl_next_run ?st (lens ! n)"
      using step n(2) by (auto simp: rl_step_def Let_def)
    have e: "foldl expand_token ?acc (run_tokens ?st (lens ! n)) = ?acc @ replicate (Suc (run_count st)) (lens ! n)"
      and ok: "\<forall>t\<in>set (run_tokens ?st (lens ! n)). token_ok t"
      using run_tokens_expand [of ?st "lens ! n" ?acc] inv' n(3) by simp_all
    have "foldl expand_token [] toks' = take (Suc n) lens"
      unfolding res(1) foldl_append e by (rule snoc)
    moreover have "take (Suc n) lens \<noteq> []" "last (take (Suc n) lens) = lens ! n"
      using n(1) by (auto simp: take_Suc_conv_app_nth)
    ultimately show ?thesis
      using inv'(2) ok rl_next_run_limits [of ?st "lens ! n"] unfolding res(2)
      by (auto simp: rl_inv_def Let_def res(1))
  qed
qed

lemma rl_fold_inv:
  assumes "k \<le> length lens" "\<forall>n<k. lens ! n < 16" "\<forall>n<k. lens ! n = unat (Len (tree ! n))"
    and "foldl (rl_step tree) ([], rl_start tree) [0..<k] = (toks, st)"
  shows "rl_inv lens k (toks, st) \<and> nextlen st = unat (Len (tree ! k)) \<and>
    (0 < k \<longrightarrow> nextlen st \<noteq> lens ! (k - 1) \<longrightarrow> run_count st = 0)"
  using assms
proof (induction k arbitrary: toks st)
  case 0
  then have "toks = []" "st = rl_start tree" by simp_all
  moreover have "- 1 \<noteq> uint (Len (tree ! 0))"
    using unsigned_greater_eq [of "Len (tree ! 0)", where 'a = int] by linarith
  ultimately show ?case
    by (cases "unat (Len (tree ! 0)) = 0") (simp_all add: rl_inv_def rl_start_def Let_def rl_limits_def)
next
  case (Suc k)
  obtain toks1 st1 where f: "foldl (rl_step tree) ([], rl_start tree) [0..<k] = (toks1, st1)" by fastforce
  have "rl_inv lens k (toks1, st1) \<and> nextlen st1 = unat (Len (tree ! k))"
    using Suc.IH [OF _ _ _ f] Suc.prems by simp
  moreover have "rl_step tree (toks1, st1) k = (toks, st)" using Suc.prems(4) f by simp
  ultimately show ?case
    using rl_inv_step [of lens k toks1 st1 tree toks st] Suc.prems by simp
qed

lemma rl_tokens_expand:
  assumes "1 \<le> k" "\<forall>n<k. unat (Len (tree ! n)) < 16" "unat (Len (tree ! k)) \<ge> 16"
  shows "foldl expand_token [] (rl_tokens tree (int k - 1)) = map (\<lambda>n. unat (Len (tree ! n))) [0..<k]"
    and "\<forall>t\<in>set (rl_tokens tree (int k - 1)). token_ok t"
proof -
  let ?lens = "map (\<lambda>n. unat (Len (tree ! n))) [0..<k]"
  obtain toks st where f: "foldl (rl_step tree) ([], rl_start tree) [0..<k] = (toks, st)" by fastforce
  have "rl_inv ?lens k (toks, st)" "nextlen st = unat (Len (tree ! k))"
    "nextlen st \<noteq> ?lens ! (k - 1) \<longrightarrow> run_count st = 0"
    using rl_fold_inv [OF _ _ _ f, of ?lens] assms by auto
  moreover have "?lens ! (k - 1) \<noteq> unat (Len (tree ! k))"
    using assms by (simp add: Suc_le_eq) (metis One_nat_def diff_less less_one linorder_not_le order_less_le_trans)
  ultimately have "rl_inv ?lens k (toks, st)" "run_count st = 0" by simp_all
  moreover have "rl_tokens tree (int k - 1) = toks" by (simp add: rl_tokens_def f)
  ultimately show "foldl expand_token [] (rl_tokens tree (int k - 1)) = ?lens"
    and "\<forall>t\<in>set (rl_tokens tree (int k - 1)). token_ok t"
    by (simp_all add: rl_inv_def Let_def)
qed

section \<open>The bits of a block\<close>

text \<open>A code of the tree fits the bit buffer's contract.\<close>

definition code_fits :: "ct_data list \<Rightarrow> nat \<Rightarrow> bool" where
  "code_fits tree n \<longleftrightarrow> unat (Len (tree ! n)) \<le> 16 \<and> uint (Code (tree ! n)) < 2 ^ unat (Len (tree ! n))"

lemma send_code_correct:
  assumes "bit_inv s" "code_fits tree n"
  shows "bit_inv (send_code s n tree)"
    and "stream_bits (send_code s n tree) = stream_bits s @ tree_code tree n"
  using assms send_bits_correct [of s "unat (Len (tree ! n))" "uint (Code (tree ! n))"]
  by (simp_all add: send_code_def code_fits_def tree_code_def unsigned_greater_eq)

text \<open>A symbol of the block: a literal or a pair of distance and length (less three), or the end.\<close>

definition sym_code :: "(nat \<Rightarrow> bool list) \<Rightarrow> (nat \<Rightarrow> bool list) \<Rightarrow> (nat \<times> nat) option \<Rightarrow> bool list" where
  "sym_code lenc denc sy =
     (case sy of None \<Rightarrow> lenc END_BLOCK
      | Some (dist, lc) \<Rightarrow>
          if dist = 0 then lenc lc
          else lenc (length_code ! lc + LITERALS + 1)
               @ value_bits (int lc - int (base_length ! (length_code ! lc))) (extra_lbits ! (length_code ! lc))
               @ denc (d_code (dist - 1))
               @ value_bits (int (dist - 1) - int (base_dist ! d_code (dist - 1))) (extra_dbits ! d_code (dist - 1)))"

definition block_syms :: "nat set \<Rightarrow> nat set \<Rightarrow> (nat \<times> nat) option set" where
  "block_syms lsyms dsyms =
     {sy. case sy of None \<Rightarrow> END_BLOCK \<in> lsyms
          | Some (dist, lc) \<Rightarrow> lc < 256 \<and> dist \<le> 32768 \<and>
              (if dist = 0 then lc \<in> lsyms
               else length_code ! lc + LITERALS + 1 \<in> lsyms \<and> d_code (dist - 1) \<in> dsyms)}"

lemma value_bits_inj:
  assumes "value_bits v n = value_bits w n" "0 \<le> v" "v < 2 ^ n" "0 \<le> w" "w < 2 ^ n"
  shows "v = w"
proof -
  have "bit v i = bit w i" for i
  proof (cases "i < n")
    case True
    then show ?thesis using assms(1) by (simp add: value_bits_def)
  next
    case False
    then show ?thesis using assms(2-5) by (metis bit_take_bit_iff take_bit_int_eq_self)
  qed
  then show ?thesis by (simp add: bit_eq_iff)
qed

lemma length_value_bits [simp]: "length (value_bits v n) = n"
  by (simp add: value_bits_def)

lemma int_diff_bounds:
  fixes b d :: nat
  assumes "b \<le> d" "d < b + 2 ^ n"
  shows "0 \<le> int d - int b \<and> int d - int b < 2 ^ n"
proof -
  have "int d < int (b + 2 ^ n)" using assms(2) by (simp only: of_nat_less_iff)
  then show ?thesis using assms(1) by simp
qed

lemma extra_length_bounds:
  assumes "lc < 256"
  shows "extra_lbits ! (length_code ! lc) = 0 \<or>
    0 \<le> int lc - int (base_length ! (length_code ! lc)) \<and>
    int lc - int (base_length ! (length_code ! lc)) < 2 ^ (extra_lbits ! (length_code ! lc))"
proof (cases "length_code ! lc = 28")
  case False
  then show ?thesis using length_code_range(3) [OF assms] by (intro disjI2 int_diff_bounds) simp_all
qed (simp add: extra_lbits_def)

lemma extra_dist_bounds:
  assumes "d < 32768"
  shows "0 \<le> int d - int (base_dist ! d_code d) \<and> int d - int (base_dist ! d_code d) < 2 ^ (extra_dbits ! d_code d)"
  using d_code_range [OF assms] by (intro int_diff_bounds)

lemma length_pair_inj:
  assumes "lc < 256" "lc' < 256" "length_code ! lc = length_code ! lc'"
    and "value_bits (int lc - int (base_length ! (length_code ! lc))) (extra_lbits ! (length_code ! lc))
       = value_bits (int lc' - int (base_length ! (length_code ! lc'))) (extra_lbits ! (length_code ! lc'))"
  shows "lc = lc'"
proof (cases "length_code ! lc = 28")
  case True
  then show ?thesis using length_code_range(2) assms(1-3) by metis
next
  case False
  then have "0 \<le> int x - int (base_length ! (length_code ! lc)) \<and>
      int x - int (base_length ! (length_code ! lc)) < 2 ^ (extra_lbits ! (length_code ! lc))" if "x \<in> {lc, lc'}" for x
    using that length_code_range(3) [OF assms(1)] length_code_range(3) [OF assms(2)] assms(3)
    by (intro int_diff_bounds) auto
  then show ?thesis using value_bits_inj [OF assms(4) [folded assms(3)]] by simp
qed

text \<open>Two prefix codes make the symbols of a block a prefix code again: the extra bits have a width
  that the code before them fixes.\<close>

locale block_code = lit: prefix_code lsyms lenc + dst: prefix_code dsyms denc
  for lsyms :: "nat set" and lenc :: "nat \<Rightarrow> bool list"
    and dsyms :: "nat set" and denc :: "nat \<Rightarrow> bool list"
begin

lemma same_front:
  assumes "length a = length b" "a @ r = b @ r'"
  shows "a = b \<and> r = r'"
  using assms by simp

lemma first_code_of_sym:
  assumes "sy \<in> block_syms lsyms dsyms"
  shows "\<exists>c r. c \<in> lsyms \<and> sym_code lenc denc sy = lenc c @ r \<and>
    c = (case sy of None \<Rightarrow> END_BLOCK
         | Some (dist, lc) \<Rightarrow> if dist = 0 then lc else length_code ! lc + LITERALS + 1)"
  using assms by (auto simp: block_syms_def sym_code_def split: option.splits if_splits)

lemma pair_unique:
  assumes "Some (dist, lc) \<in> block_syms lsyms dsyms" "Some (dist', lc') \<in> block_syms lsyms dsyms"
    and "dist \<noteq> 0" "dist' \<noteq> 0"
    and "sym_code lenc denc (Some (dist, lc)) @ r = sym_code lenc denc (Some (dist', lc')) @ r'"
  shows "dist = dist' \<and> lc = lc'"
proof -
  let ?x = "\<lambda>lc. value_bits (int lc - int (base_length ! (length_code ! lc))) (extra_lbits ! (length_code ! lc))"
  let ?y = "\<lambda>d. value_bits (int d - int (base_dist ! d_code d)) (extra_dbits ! d_code d)"
  have v: "lc < 256" "lc' < 256" "dist - 1 < 32768" "dist' - 1 < 32768"
    "length_code ! lc + LITERALS + 1 \<in> lsyms" "length_code ! lc' + LITERALS + 1 \<in> lsyms"
    "d_code (dist - 1) \<in> dsyms" "d_code (dist' - 1) \<in> dsyms"
    using assms(1-4) by (auto simp: block_syms_def)
  have eq: "lenc (length_code ! lc + LITERALS + 1) @ ?x lc @ denc (d_code (dist - 1)) @ ?y (dist - 1) @ r
      = lenc (length_code ! lc' + LITERALS + 1) @ ?x lc' @ denc (d_code (dist' - 1)) @ ?y (dist' - 1) @ r'"
    using assms(3-5) by (simp add: sym_code_def)
  have l: "length_code ! lc = length_code ! lc'"
    "?x lc @ denc (d_code (dist - 1)) @ ?y (dist - 1) @ r = ?x lc' @ denc (d_code (dist' - 1)) @ ?y (dist' - 1) @ r'"
    using lit.first_symbol [OF v(5,6) eq] by (metis add_right_cancel)+
  have x: "?x lc = ?x lc'"
    "denc (d_code (dist - 1)) @ ?y (dist - 1) @ r = denc (d_code (dist' - 1)) @ ?y (dist' - 1) @ r'"
    using same_front [OF _ l(2)] l(1) by (metis length_value_bits)+
  have d: "d_code (dist - 1) = d_code (dist' - 1)" "?y (dist - 1) @ r = ?y (dist' - 1) @ r'"
    using dst.first_symbol [OF v(7,8) x(2)] by blast+
  have y: "?y (dist - 1) = ?y (dist' - 1)"
    using same_front [OF _ d(2)] d(1) by (metis length_value_bits)
  have "lc = lc'" using length_pair_inj [OF v(1,2) l(1) x(1)] .
  moreover have "int (dist - 1) - int (base_dist ! d_code (dist - 1))
      = int (dist' - 1) - int (base_dist ! d_code (dist' - 1))"
    using value_bits_inj [OF y [folded d(1)]] extra_dist_bounds [OF v(3)] extra_dist_bounds [OF v(4)] d(1) by simp
  ultimately show ?thesis using d(1) assms(3,4) by simp
qed

lemma sym_unique:
  assumes "sy \<in> block_syms lsyms dsyms" "sy' \<in> block_syms lsyms dsyms"
    and "sym_code lenc denc sy @ r = sym_code lenc denc sy' @ r'"
  shows "sy = sy'"
proof -
  let ?c = "\<lambda>sy. case sy of None \<Rightarrow> END_BLOCK
         | Some (dist, lc) \<Rightarrow> if dist = 0 then lc else length_code ! lc + LITERALS + 1"
  obtain q q' where "sym_code lenc denc sy = lenc (?c sy) @ q" "?c sy \<in> lsyms"
      "sym_code lenc denc sy' = lenc (?c sy') @ q'" "?c sy' \<in> lsyms"
    using first_code_of_sym [OF assms(1)] first_code_of_sym [OF assms(2)] by blast
  then have "?c sy = ?c sy'"
    using lit.first_symbol [of "?c sy" "?c sy'" "q @ r" "q' @ r'"] assms(3) by simp
  then have "sy = sy' \<or> (\<exists>d l d' l'. sy = Some (d, l) \<and> sy' = Some (d', l') \<and> d \<noteq> 0 \<and> d' \<noteq> 0)"
    using assms(1,2) by (auto simp: block_syms_def tree_consts split: option.splits if_splits)
  then show ?thesis using pair_unique assms by blast
qed

end

sublocale block_code \<subseteq> sy: prefix_code "block_syms lsyms dsyms" "sym_code lenc denc"
proof
  fix x assume "x \<in> block_syms lsyms dsyms"
  then show "sym_code lenc denc x \<noteq> []"
    using first_code_of_sym lit.enc_nonempty by fastforce
next
  fix x y assume "x \<in> block_syms lsyms dsyms" "y \<in> block_syms lsyms dsyms"
    "prefix (sym_code lenc denc x) (sym_code lenc denc y)"
  then show "x = y" using sym_unique [of x y _ "[]"] by (auto simp: prefix_def)
qed

text \<open>The trees of \<open>trees.h\<close>.\<close>

lemma static_dtree_code: "n < 30 \<Longrightarrow> tree_code static_dtree n = msb_bits n 5"
proof -
  assume n: "n < 30"
  have u: "ucast (word_of_nat n :: u16) = (word_of_nat n :: u32)" using n by (intro ucast_small_nat) simp
  have "static_dtree ! n = ct (ucast (bi_reverse (word_of_nat n) 5)) 5"
    using n by (simp add: static_dtree_init init_static_dtree_def D_CODES_def del: upt_rec_numeral)
  then show ?thesis using value_bits_coded [of 5 n] by (simp add: tree_code_def u)
qed

interpretation static_dist: prefix_code "{..<30}" "tree_code static_dtree"
proof
  fix x :: nat assume "x \<in> {..<30}"
  then show "tree_code static_dtree x \<noteq> []" by (simp add: static_dtree_code msb_bits_def)
next
  fix x y :: nat assume "x \<in> {..<30}" "y \<in> {..<30}"
    "prefix (tree_code static_dtree x) (tree_code static_dtree y)"
  then show "x = y" using msb_bits_prefix [of x 5 y 5] by (simp add: static_dtree_code)
qed

interpretation static_block: block_code "{..<288}" "tree_code static_ltree" "{..<30}" "tree_code static_dtree" ..

section \<open>What the block writers emit\<close>

lemma send_bits_tree_simps [simp]:
  "d_buf (send_bits s v n) = d_buf s" "l_buf (send_bits s v n) = l_buf s"
  "last_lit (send_bits s v n) = last_lit s" "lit_bufsize (send_bits s v n) = lit_bufsize s"
  by (simp_all add: send_bits_def Let_def put_short_def put_byte_def)

lemma send_code_tree_simps [simp]:
  "d_buf (send_code s n t) = d_buf s" "l_buf (send_code s n t) = l_buf s" "last_lit (send_code s n t) = last_lit s"
  "lit_bufsize (send_code s n t) = lit_bufsize s"
  by (simp_all add: send_code_def)

definition block_symbol :: "'a tree_state_scheme \<Rightarrow> nat \<Rightarrow> (nat \<times> nat) option" where
  "block_symbol s lx = Some (unat (d_buf s ! lx), unat (l_buf s ! lx))"

definition block_symbols :: "'a tree_state_scheme \<Rightarrow> (nat \<times> nat) option list" where
  "block_symbols s = map (block_symbol s) [0..<last_lit s]"

definition trees_fit :: "ct_data list \<Rightarrow> ct_data list \<Rightarrow> bool" where
  "trees_fit ltree dtree \<longleftrightarrow> (\<forall>n<L_CODES. code_fits ltree n) \<and> (\<forall>n<D_CODES. code_fits dtree n)"

lemma extra_le_16: "n < 29 \<Longrightarrow> extra_lbits ! n \<le> 16" "n < 30 \<Longrightarrow> extra_dbits ! n \<le> 16"
proof -
  have "list_all (\<lambda>x. x \<le> 16) extra_lbits" "list_all (\<lambda>x. x \<le> 16) extra_dbits"
    by (simp_all add: extra_lbits_def extra_dbits_def)
  moreover have "length extra_lbits = 29" "length extra_dbits = 30"
    by (simp_all add: extra_lbits_def extra_dbits_def)
  ultimately show "n < 29 \<Longrightarrow> extra_lbits ! n \<le> 16" "n < 30 \<Longrightarrow> extra_dbits ! n \<le> 16"
    by (simp_all add: list_all_length)
qed

lemma send_extra_correct:
  assumes "bit_inv s" "n = 0 \<or> 0 \<le> v \<and> v < 2 ^ n" "n \<le> 16"
  shows "bit_inv (if n \<noteq> 0 then send_bits s v n else s) \<and>
    stream_bits (if n \<noteq> 0 then send_bits s v n else s) = stream_bits s @ value_bits v n"
  using assms send_bits_correct [of s n v] by (auto simp: value_bits_def)

text \<open>A symbol that the pending bytes have not reached is read as it was stored.\<close>

lemma join_bytes: "(ucast (ucast w :: u8) OR push_bit 8 (ucast (ucast (drop_bit 8 w) :: u8)) :: u16) = w" for w :: u16
  by (rule bit_word_eqI) (auto simp: bit_simps)

lemma read_stored:
  assumes "length (pending_buf s) \<le> lit_bufsize s + 2 * lx" "lx \<le> lit_bufsize s"
  shows "read_d s lx = d_buf s ! lx" "read_l s lx = l_buf s ! lx"
  using assms by (simp_all add: read_d_def read_l_def overlay_byte_def Let_def join_bytes)

text \<open>What the assertion at the end of the loop of \<open>compress_block\<close> says, at the start of each turn.\<close>

definition overlay_ok :: "ct_data list \<Rightarrow> ct_data list \<Rightarrow> 'a tree_state_scheme \<Rightarrow> bool" where
  "overlay_ok ltree dtree s \<longleftrightarrow> last_lit s \<le> lit_bufsize s \<and>
     (\<forall>lx<last_lit s. length (pending_buf (foldl (compress_sym ltree dtree) s [0..<lx])) \<le> lit_bufsize s + 2 * lx)"

lemma compress_sym_correct:
  assumes inv: "bit_inv s" and fit: "trees_fit ltree dtree" and d: "unat (d_buf s ! lx) \<le> 32768"
    and room: "length (pending_buf s) \<le> lit_bufsize s + 2 * lx" "lx \<le> lit_bufsize s"
  shows "bit_inv (compress_sym ltree dtree s lx) \<and>
    stream_bits (compress_sym ltree dtree s lx)
      = stream_bits s @ sym_code (tree_code ltree) (tree_code dtree) (block_symbol s lx) \<and>
    d_buf (compress_sym ltree dtree s lx) = d_buf s \<and> l_buf (compress_sym ltree dtree s lx) = l_buf s \<and>
    lit_bufsize (compress_sym ltree dtree s lx) = lit_bufsize s"
proof -
  let ?d = "unat (d_buf s ! lx)" and ?l = "unat (l_buf s ! lx)"
  have l: "?l < 256" by (rule unat_u8_lt)
  show ?thesis
  proof (cases "?d = 0")
    case True
    have "code_fits ltree ?l" using fit l by (simp add: trees_fit_def tree_consts)
    then show ?thesis
      using True send_code_correct [OF inv] read_stored [OF room]
      by (simp add: compress_sym_def sym_code_def block_symbol_def)
  next
    case False
    let ?lcode = "length_code ! ?l" and ?dcode = "d_code (?d - 1)"
    let ?s1 = "send_code s (?lcode + LITERALS + 1) ltree"
    let ?s2 = "if extra_lbits ! ?lcode \<noteq> 0
      then send_bits ?s1 (int ?l - int (base_length ! ?lcode)) (extra_lbits ! ?lcode) else ?s1"
    let ?s3 = "send_code ?s2 ?dcode dtree"
    let ?s4 = "if extra_dbits ! ?dcode \<noteq> 0
      then send_bits ?s3 (int (?d - 1) - int (base_dist ! ?dcode)) (extra_dbits ! ?dcode) else ?s3"
    have d1: "?d - 1 < 32768" using d False by simp
    have c: "?lcode < 29" "?dcode < 30" using length_code_range(1) [OF l] d_code_range(1) [OF d1] by simp_all
    have "code_fits ltree (?lcode + LITERALS + 1)" "code_fits dtree ?dcode"
      using fit c by (simp_all add: trees_fit_def tree_consts)
    then have 1: "bit_inv ?s1" "stream_bits ?s1 = stream_bits s @ tree_code ltree (?lcode + LITERALS + 1)"
      and 3: "\<And>s. bit_inv s \<Longrightarrow> bit_inv (send_code s ?dcode dtree)
        \<and> stream_bits (send_code s ?dcode dtree) = stream_bits s @ tree_code dtree ?dcode"
      using inv by (simp_all add: send_code_correct)
    note 2 = send_extra_correct [OF 1(1) extra_length_bounds [OF l] extra_le_16(1) [OF c(1)]]
    note 4 = send_extra_correct [OF conjunct1 [OF 3 [OF conjunct1 [OF 2]]] disjI2 [OF extra_dist_bounds [OF d1]]
        extra_le_16(2) [OF c(2)]]
    have eq: "compress_sym ltree dtree s lx = ?s4"
      unfolding compress_sym_def Let_def read_stored [OF room] using False by (simp only: if_False)
    have "stream_bits ?s4 = stream_bits s @ sym_code (tree_code ltree) (tree_code dtree) (block_symbol s lx)"
      using conjunct2 [OF 4] conjunct2 [OF 3 [OF conjunct1 [OF 2]]] conjunct2 [OF 2] 1(2) False
      by (simp only: sym_code_def block_symbol_def option.case prod.case if_False append_assoc)
    moreover have "d_buf ?s4 = d_buf s" "l_buf ?s4 = l_buf s" "lit_bufsize ?s4 = lit_bufsize s" by simp_all
    ultimately show ?thesis unfolding eq using conjunct1 [OF 4] by blast
  qed
qed

lemma compress_syms_correct:
  assumes "bit_inv s" "trees_fit ltree dtree" "\<forall>lx<n. unat (d_buf s ! lx) \<le> 32768" "n \<le> lit_bufsize s"
    and "\<forall>lx<n. length (pending_buf (foldl (compress_sym ltree dtree) s [0..<lx])) \<le> lit_bufsize s + 2 * lx"
  shows "bit_inv (foldl (compress_sym ltree dtree) s [0..<n]) \<and>
    stream_bits (foldl (compress_sym ltree dtree) s [0..<n])
      = stream_bits s @ concat (map (\<lambda>lx. sym_code (tree_code ltree) (tree_code dtree) (block_symbol s lx)) [0..<n]) \<and>
    d_buf (foldl (compress_sym ltree dtree) s [0..<n]) = d_buf s \<and>
    l_buf (foldl (compress_sym ltree dtree) s [0..<n]) = l_buf s \<and>
    lit_bufsize (foldl (compress_sym ltree dtree) s [0..<n]) = lit_bufsize s"
  using assms(3-5)
proof (induction n)
  case (Suc n)
  let ?s = "foldl (compress_sym ltree dtree) s [0..<n]"
  have IH: "bit_inv ?s" "d_buf ?s = d_buf s" "l_buf ?s = l_buf s" "lit_bufsize ?s = lit_bufsize s"
    "stream_bits ?s = stream_bits s @ concat (map (\<lambda>lx. sym_code (tree_code ltree) (tree_code dtree) (block_symbol s lx)) [0..<n])"
    using Suc by simp_all
  have "block_symbol ?s n = block_symbol s n" by (simp add: block_symbol_def IH)
  then show ?case
    using compress_sym_correct [OF IH(1) assms(2), of n] Suc.prems IH by simp
qed (use assms in simp)

lemma compress_block_correct:
  assumes "bit_inv s" "trees_fit ltree dtree" "\<forall>lx<last_lit s. unat (d_buf s ! lx) \<le> 32768"
    and "overlay_ok ltree dtree s"
  shows "bit_inv (compress_block ltree dtree s)"
    and "stream_bits (compress_block ltree dtree s)
      = stream_bits s @ concat (map (sym_code (tree_code ltree) (tree_code dtree)) (block_symbols s))
        @ sym_code (tree_code ltree) (tree_code dtree) None"
proof -
  have "code_fits ltree END_BLOCK" using assms(2) by (simp add: trees_fit_def tree_consts)
  then show "bit_inv (compress_block ltree dtree s)"
    and "stream_bits (compress_block ltree dtree s)
      = stream_bits s @ concat (map (sym_code (tree_code ltree) (tree_code dtree)) (block_symbols s))
        @ sym_code (tree_code ltree) (tree_code dtree) None"
    using compress_syms_correct [OF assms(1-3)] assms(4) unfolding overlay_ok_def
    by (simp_all add: compress_block_def block_symbols_def send_code_correct comp_def)
      (simp add: sym_code_def)
qed

text \<open>The symbols are not overwritten when none takes more than 24 bits and there is room for what is in the buffer before
  them.\<close>

lemma stream_bits_length: "length (stream_bits s) = 8 * length (pending_buf s) + bi_valid s"
proof -
  have "length (concat (map byte_bits bs)) = 8 * length bs" for bs by (induction bs) (simp_all add: byte_bits_def)
  then show ?thesis by (simp add: stream_bits_def)
qed

lemma overlay_ok_short:
  assumes "bit_inv s" "trees_fit ltree dtree" "\<forall>lx<last_lit s. unat (d_buf s ! lx) \<le> 32768"
    and short: "\<forall>lx<last_lit s. length (sym_code (tree_code ltree) (tree_code dtree) (block_symbol s lx)) \<le> 24"
    and room: "length (stream_bits s) + 8 * last_lit s \<le> 8 * lit_bufsize s"
  shows "overlay_ok ltree dtree s"
proof -
  let ?s = "\<lambda>n. foldl (compress_sym ltree dtree) s [0..<n]"
  let ?bits = "\<lambda>lx. sym_code (tree_code ltree) (tree_code dtree) (block_symbol s lx)"
  have le: "last_lit s \<le> lit_bufsize s" using room by linarith
  have "length (pending_buf (?s n)) \<le> lit_bufsize s + 2 * n" if "n \<le> last_lit s" for n
    using that
  proof (induction n rule: less_induct)
    case (less n)
    have "\<forall>lx<n. length (pending_buf (?s lx)) \<le> lit_bufsize s + 2 * lx" using less by simp
    then have "stream_bits (?s n) = stream_bits s @ concat (map ?bits [0..<n])"
      using compress_syms_correct [OF assms(1,2), of n] assms(3) le less.prems by simp
    moreover have "length (concat (map ?bits [0..<n])) \<le> 24 * n"
      using less.prems
    proof (induction n)
      case (Suc n)
      then have "length (?bits n) \<le> 24" using short by simp
      with Suc show ?case by simp
    qed simp
    ultimately have "8 * length (pending_buf (?s n)) \<le> length (stream_bits s) + 24 * n"
      using stream_bits_length [of "?s n"] by simp
    then show ?case using room less.prems by linarith
  qed
  then show ?thesis using le by (simp add: overlay_ok_def)
qed

lemma static_trees_fit: "trees_fit static_ltree static_dtree"
proof -
  have "list_all (\<lambda>c. unat (Len c) \<le> 16 \<and> uint (Code c) < 2 ^ unat (Len c)) static_ltree"
    by (simp add: static_ltree_def)
  moreover have "list_all (\<lambda>c. unat (Len c) \<le> 16 \<and> uint (Code c) < 2 ^ unat (Len c)) static_dtree"
    by (simp add: static_dtree_def)
  moreover have "length static_ltree = 288" "length static_dtree = 30"
    by (simp_all add: static_ltree_def static_dtree_def)
  ultimately show ?thesis by (simp add: trees_fit_def code_fits_def tree_consts list_all_length)
qed

lemma tr_stored_block_correct:
  assumes "bit_inv s" "last_block \<in> {0, 1}" "n \<le> length buf"
  shows "bit_inv (tr_stored_block s buf n last_block)"
    and "stream_bits (tr_stored_block s buf n last_block) =
      stream_bits s @ value_bits last_block 3
      @ replicate (pad_bits (bi_valid (send_bits s last_block 3))) False
      @ map (bit (word_of_nat n :: u16)) [0..<16] @ map (bit (NOT (word_of_nat n :: u16))) [0..<16]
      @ concat (map byte_bits (take n buf))"
proof -
  let ?s1 = "send_bits s last_block 3"
  have 1: "bit_inv ?s1" "stream_bits ?s1 = stream_bits s @ value_bits last_block 3"
    using assms(1,2) send_bits_correct [of s 3 last_block] by auto
  note 2 = bi_windup_correct [OF 1(1)]
  let ?s2 = "bi_windup ?s1"
  let ?s4 = "put_short (put_short ?s2 (word_of_nat n)) (NOT (word_of_nat n))"
  have eq: "tr_stored_block s buf n last_block = ?s4\<lparr>pending_buf := pending_buf ?s4 @ take n buf\<rparr>"
    by (simp add: tr_stored_block_def STORED_BLOCK_def Let_def)
  have bits: "concat (map byte_bits (pending_buf ?s2)) = stream_bits ?s2"
    using stream_bits_aligned [OF 2(2)] by simp
  show "bit_inv (tr_stored_block s buf n last_block)"
    unfolding eq using 2(1) by (simp add: bit_inv_def)
  show "stream_bits (tr_stored_block s buf n last_block) =
      stream_bits s @ value_bits last_block 3 @ replicate (pad_bits (bi_valid ?s1)) False
      @ map (bit (word_of_nat n :: u16)) [0..<16] @ map (bit (NOT (word_of_nat n :: u16))) [0..<16]
      @ concat (map byte_bits (take n buf))"
    unfolding eq
    by (simp add: stream_bits_def [of "?s4\<lparr>pending_buf := x\<rparr>" for x] 2(2) stream_bits_put_short bits 2(3) 1(2)
        del: upt_rec_numeral)
qed

lemma drop_bit_odd_u32: "(drop_bit n w AND 1 \<noteq> (0 :: u32)) = bit w n"
  by (simp add: and_one_eq mod_2_eq_odd) (simp add: bit_iff_odd_drop_bit)

section \<open>Properties\<close>

text \<open>C11: Sending a tree in run-length form loses nothing: \<open>send_tree\<close> sends a sequence of tokens,
  every token is one of the bit length tree with extra bits in range, \<open>scan_tree\<close> has counted exactly
  those tokens, and a decoder that expands them gets the code lengths back.\<close>

theorem send_tree_roundtrip:
  assumes "1 \<le> k" "\<forall>n<k. unat (Len (tree ! n)) \<le> 15" "Len (tree ! k) = 0xffff"
  shows "\<exists>toks. send_tree bl tree (int k - 1) s = foldl (send_token bl) s toks \<and>
    foldl (scan_step tree) (bl', rl_start tree) [0..<k]
      = (foldl count_token bl' toks, snd (foldl (scan_step tree) (bl', rl_start tree) [0..<k])) \<and>
    (\<forall>t\<in>set toks. token_ok t) \<and>
    foldl expand_token [] toks = map (\<lambda>n. unat (Len (tree ! n))) [0..<k]"
proof (intro exI [of _ "rl_tokens tree (int k - 1)"] conjI)
  have lens: "\<forall>n<k. unat (Len (tree ! n)) < 16" "16 \<le> unat (Len (tree ! k))"
    using assms(2,3) by auto
  show "send_tree bl tree (int k - 1) s = foldl (send_token bl) s (rl_tokens tree (int k - 1))"
    by (rule send_tree_tokens)
  obtain toks st where r: "foldl (rl_step tree) ([], rl_start tree) [0..<k] = (toks, st)" by fastforce
  then have "foldl (scan_step tree) (bl', rl_start tree) [0..<k] = (foldl count_token bl' toks, st)"
    using scan_fold [OF refl r, of bl'] by simp
  then show "foldl (scan_step tree) (bl', rl_start tree) [0..<k]
      = (foldl count_token bl' (rl_tokens tree (int k - 1)), snd (foldl (scan_step tree) (bl', rl_start tree) [0..<k]))"
    by (simp add: rl_tokens_def r)
  show "\<forall>t\<in>set (rl_tokens tree (int k - 1)). token_ok t"
    and "foldl expand_token [] (rl_tokens tree (int k - 1)) = map (\<lambda>n. unat (Len (tree ! n))) [0..<k]"
    using rl_tokens_expand [OF assms(1) lens] by simp_all
qed

theorem send_tree_roundtrip_witness:
  "\<exists>toks. send_tree [] [ct 0 3, ct 0 0, ct 0 0, ct 0 0, ct 0 0xffff] 3 \<lparr>pending_buf = [], bi_buf = 0, bi_valid = 0\<rparr>
       = foldl (send_token []) \<lparr>pending_buf = [], bi_buf = 0, bi_valid = 0\<rparr> toks \<and>
     foldl expand_token [] toks = [3, 0, 0, 0]"
proof -
  let ?t = "[ct 0 3, ct 0 0, ct 0 0, ct 0 0, ct 0 0xffff]"
  have "list_all (\<lambda>n. unat (Len (?t ! n)) \<le> 15) [0..<4]" by (simp add: upt_rec)
  then have "\<forall>n<4. unat (Len (?t ! n)) \<le> 15" by (auto simp: list_all_iff simp del: upt_rec_numeral)
  moreover have "map (\<lambda>n. unat (Len (?t ! n))) [0..<4] = [3, 0, 0, 0]" by (simp add: upt_rec)
  ultimately show ?thesis
    using send_tree_roundtrip [of 4 ?t "[]" "\<lparr>pending_buf = [], bi_buf = 0, bi_valid = 0\<rparr>" "[]"]
    by (auto simp del: upt_rec_numeral)
qed

text \<open>A stored block is, after its three header bits and the padding to a byte boundary, the
  16-bit length, its complement and the bytes of the block unchanged.\<close>

theorem stored_block_bits:
  assumes "bit_inv s" "last_block \<in> {0, 1}" "n \<le> length buf"
  shows "bit_inv (tr_stored_block s buf n last_block) \<and>
    stream_bits (tr_stored_block s buf n last_block) =
      stream_bits s @ value_bits last_block 3
      @ replicate (pad_bits (bi_valid (send_bits s last_block 3))) False
      @ map (bit (word_of_nat n :: u16)) [0..<16] @ map (bit (NOT (word_of_nat n :: u16))) [0..<16]
      @ concat (map byte_bits (take n buf))"
  using tr_stored_block_correct [OF assms] by blast

theorem stored_block_bits_witness:
  "stream_bits (tr_stored_block \<lparr>pending_buf = [1], bi_buf = 1, bi_valid = 6\<rparr> [10, 20, 30] 2 1) =
    stream_bits \<lparr>pending_buf = [1], bi_buf = 1, bi_valid = 6\<rparr> @ value_bits 1 3
    @ replicate (pad_bits (bi_valid (send_bits \<lparr>pending_buf = [1], bi_buf = 1, bi_valid = 6\<rparr> 1 3))) False
    @ map (bit (word_of_nat 2 :: u16)) [0..<16] @ map (bit (NOT (word_of_nat 2 :: u16))) [0..<16]
    @ concat (map byte_bits (take 2 [10, 20, 30]))"
proof -
  have "bit_inv \<lparr>pending_buf = [1], bi_buf = 1, bi_valid = 6\<rparr>"
    by (auto simp: bit_inv_def bit_1_iff)
  from stored_block_bits [OF this, of 1 2 "[10, 20, 30]"] show ?thesis by simp
qed

text \<open>C12: \<open>compress_block\<close> emits the code of every collected symbol, in order and with its extra
  bits, and then the end-of-block code, through a bit buffer that stays well formed; nothing else.  The symbols lie
  behind the pending bytes in the same memory: what the assertion in the loop says is a hypothesis, that the bytes sent
  for the first symbols do not reach the ones still to be read.\<close>

theorem compress_block_bits:
  assumes "bit_inv s" "trees_fit ltree dtree" "\<forall>lx<last_lit s. unat (d_buf s ! lx) \<le> 32768"
    and "overlay_ok ltree dtree s"
  shows "bit_inv (compress_block ltree dtree s) \<and>
    stream_bits (compress_block ltree dtree s)
      = stream_bits s @ concat (map (sym_code (tree_code ltree) (tree_code dtree)) (block_symbols s))
        @ sym_code (tree_code ltree) (tree_code dtree) None"
  using compress_block_correct [OF assms] by blast

definition small_block :: tree_state where
  "small_block = \<lparr>pending_buf = [], bi_buf = 0, bi_valid = 0, dyn_ltree = [], dyn_dtree = [], bl_tree = [],
     l_max_code = 0, d_max_code = 0, bl_max_code = 0, bl_count = [], heap = [], heap_len = 0, heap_max = 0,
     depth = [], l_buf = [104, 0], lit_bufsize = 2, last_lit = 2, d_buf = [0, 1], opt_len = 0, static_len = 0,
     matches = 0, level = 6, strategy = 4, data_type = 2\<rparr>"

lemma small_block_short:
  "\<forall>lx<last_lit small_block. length (sym_code (tree_code static_ltree) (tree_code static_dtree) (block_symbol small_block lx)) \<le> 24"
  by (simp add: small_block_def block_symbol_def sym_code_def less_2_cases_iff tree_code_def static_ltree_def static_dtree_def
      length_code_def d_code_def dist_code_def extra_lbits_def extra_dbits_def LITERALS_def msb_bits_def)

lemma small_block_ok:
  "bit_inv small_block" "\<forall>lx<last_lit small_block. unat (d_buf small_block ! lx) \<le> 32768"
  "block_symbols small_block = [Some (0, 104), Some (1, 0)]"
  "overlay_ok static_ltree static_dtree small_block"
proof -
  show inv: "bit_inv small_block" by (simp add: small_block_def bit_inv_def)
  have "list_all (\<lambda>d. unat d \<le> 32768) (d_buf small_block)" by (simp add: small_block_def)
  then show d: "\<forall>lx<last_lit small_block. unat (d_buf small_block ! lx) \<le> 32768"
    by (simp add: list_all_length small_block_def)
  show "overlay_ok static_ltree static_dtree small_block"
    by (rule overlay_ok_short [OF inv static_trees_fit d small_block_short]) (simp add: small_block_def stream_bits_def)
  show "block_symbols small_block = [Some (0, 104), Some (1, 0)]"
    by (simp add: small_block_def block_symbols_def block_symbol_def upt_rec)
qed

theorem compress_block_bits_witness:
  "stream_bits (compress_block static_ltree static_dtree small_block)
     = stream_bits small_block @ concat (map (sym_code (tree_code static_ltree) (tree_code static_dtree))
         [Some (0, 104), Some (1, 0)]) @ sym_code (tree_code static_ltree) (tree_code static_dtree) None"
  using compress_block_bits [OF small_block_ok(1) static_trees_fit small_block_ok(2,4)] small_block_ok(3) by simp

lemma static_symbols_ok:
  assumes "unat (d_buf s ! lx) \<le> 32768"
  shows "block_symbol s lx \<in> block_syms {..<288} {..<30}" "block_symbol s lx \<noteq> None"
proof -
  have l: "unat (l_buf s ! lx) < 256" by (rule unat_u8_lt)
  have "unat (d_buf s ! lx) \<noteq> 0 \<Longrightarrow> d_code (unat (d_buf s ! lx) - 1) < 30"
    using assms by (intro d_code_range) simp
  then show "block_symbol s lx \<in> block_syms {..<288} {..<30}"
    using assms l length_code_range(1) [OF l] by (simp add: block_symbol_def block_syms_def LITERALS_def)
qed (simp add: block_symbol_def)

lemma block_symbols_ok:
  "\<forall>lx<last_lit s. unat (d_buf s ! lx) \<le> 32768
    \<Longrightarrow> set (block_symbols s) \<subseteq> block_syms {..<288} {..<30} - {None}"
  by (auto simp: block_symbols_def static_symbols_ok)

text \<open>C10: A block sent with the static trees can be decoded in one way only: two sequences of
  symbols whose blocks give the same bits, whatever follows them, are the same sequence, and the
  following bits are the same too; the bytes sent do not reach symbols still to be read, as the assertion in
  \<open>compress_block\<close> says.\<close>

theorem static_block_decodable:
  assumes "bit_inv s" "\<forall>lx<last_lit s. unat (d_buf s ! lx) \<le> 32768" "overlay_ok static_ltree static_dtree s"
    and "bit_inv s'" "\<forall>lx<last_lit s'. unat (d_buf s' ! lx) \<le> 32768" "overlay_ok static_ltree static_dtree s'"
    and "stream_bits s = stream_bits s'"
    and "stream_bits (compress_block static_ltree static_dtree s) @ r
       = stream_bits (compress_block static_ltree static_dtree s') @ r'"
  shows "block_symbols s = block_symbols s' \<and> r = r'"
proof -
  have "None \<in> block_syms {..<288} {..<30}" by (simp add: block_syms_def END_BLOCK_def)
  then show ?thesis
    using static_block.sy.until_end_unique [of "block_symbols s" None "block_symbols s'" r r'] assms(7,8)
      block_symbols_ok [OF assms(2)] block_symbols_ok [OF assms(5)]
      compress_block_correct(2) [OF assms(1) static_trees_fit assms(2,3)]
      compress_block_correct(2) [OF assms(4) static_trees_fit assms(5,6)] by simp
qed

theorem static_block_decodable_witness:
  "block_symbols small_block = block_symbols (small_block\<lparr>l_buf := [104, 0, 7], level := 9\<rparr>) \<and> [True] = [True]"
proof (rule static_block_decodable)
  let ?s = "small_block\<lparr>l_buf := [104, 0, 7], level := 9\<rparr>"
  have s: "bit_inv ?s" "\<forall>lx<last_lit ?s. unat (d_buf ?s ! lx) \<le> 32768" "stream_bits small_block = stream_bits ?s"
    using small_block_ok by (simp_all add: bit_inv_def stream_bits_def)
  have ov: "overlay_ok static_ltree static_dtree ?s"
    by (rule overlay_ok_short [OF s(1) static_trees_fit s(2)])
      (use small_block_short in \<open>simp_all add: block_symbol_def less_2_cases_iff small_block_def stream_bits_def\<close>)
  have sy: "block_symbols ?s = [Some (0, 104), Some (1, 0)]"
    by (simp add: small_block_def block_symbols_def block_symbol_def upt_rec)
  show "stream_bits (compress_block static_ltree static_dtree small_block) @ [True]
      = stream_bits (compress_block static_ltree static_dtree ?s) @ [True]"
    by (simp only: compress_block_correct(2) [OF s(1) static_trees_fit s(2) ov] sy s(3) small_block_ok(3)
        compress_block_correct(2) [OF small_block_ok(1) static_trees_fit small_block_ok(2,4)])
  show "bit_inv ?s" "\<forall>lx<last_lit ?s. unat (d_buf ?s ! lx) \<le> 32768" "stream_bits small_block = stream_bits ?s"
    by (fact s)+
  show "overlay_ok static_ltree static_dtree ?s" by (fact ov)
qed (fact small_block_ok)+

text \<open>\<open>detect_data_type\<close> answers text exactly when some byte that occurs is textual (tab, line feed,
  carriage return or at least 32) and none that occurs is one of the control characters 0 to 6, 14 to
  25 and 28 to 31.\<close>

theorem detect_data_type_correct:
  "detect_data_type s = Z_TEXT \<longleftrightarrow>
     (\<exists>n<256. Freq (dyn_ltree s ! n) \<noteq> 0 \<and> (n \<in> {9, 10, 13} \<or> 32 \<le> n)) \<and>
     \<not> (\<exists>n<32. Freq (dyn_ltree s ! n) \<noteq> 0 \<and> n \<in> {0..6} \<union> {14..25} \<union> {28..31})"
proof -
  let ?used = "\<lambda>n. Freq (dyn_ltree s ! n) \<noteq> 0"
  have mask: "bit black_mask n \<longleftrightarrow> n \<in> {0..6} \<union> {14..25} \<union> {28..31}" if "n < 32" for n
  proof -
    have "list_all (\<lambda>n. bit black_mask n \<longleftrightarrow> n \<in> {0..6} \<union> {14..25} \<union> {28..31}) [0..<32]"
      by (simp add: black_mask_def upt_rec)
    then show ?thesis using that by (auto simp: list_all_iff simp del: upt_rec_numeral)
  qed
  have black: "list_ex (\<lambda>n. drop_bit n black_mask AND 1 \<noteq> 0 \<and> ?used n) [0..<32] \<longleftrightarrow>
      (\<exists>n<32. ?used n \<and> n \<in> {0..6} \<union> {14..25} \<union> {28..31})"
    unfolding drop_bit_odd_u32 list_ex_iff set_upt atLeastLessThan_iff Bex_def using mask by blast
  have white: "(?used 9 \<or> ?used 10 \<or> ?used 13) \<or> list_ex ?used [32..<LITERALS] \<longleftrightarrow>
      (\<exists>n<256. ?used n \<and> (n \<in> {9, 10, 13} \<or> 32 \<le> n))"
  proof -
    have "9 < (256 :: nat)" "10 < (256 :: nat)" "13 < (256 :: nat)" "\<And>n. n < LITERALS \<longleftrightarrow> n < 256"
      by (simp_all add: LITERALS_def)
    then show ?thesis unfolding list_ex_iff set_upt atLeastLessThan_iff Bex_def by blast
  qed
  have "detect_data_type s = Z_TEXT \<longleftrightarrow>
      \<not> list_ex (\<lambda>n. drop_bit n black_mask AND 1 \<noteq> 0 \<and> ?used n) [0..<32] \<and>
      ((?used 9 \<or> ?used 10 \<or> ?used 13) \<or> list_ex ?used [32..<LITERALS])"
    unfolding detect_data_type_def Let_def by (simp add: Z_TEXT_def Z_BINARY_def del: upt_rec_numeral)
  then show ?thesis unfolding black white by blast
qed

text \<open>C21: The tally macros of \<open>deflate.h\<close>, used in the optimised build, do what \<open>_tr_tally\<close> does,
  except that the macro for a match does not count it in \<open>matches\<close>.\<close>

theorem tally_macros_agree:
  assumes "1 \<le> dist" "dist \<le> 32768" "len < 256"
  shows "tr_tally_lit s c = tr_tally s 0 (unat c) \<and>
    tr_tally_dist s dist len = map_prod id (\<lambda>t. t\<lparr>matches := matches s\<rparr>) (tr_tally s dist len)"
proof -
  have d: "unat (word_of_nat dist - 1 :: u16) = dist - 1"
  proof -
    have "word_of_nat dist - 1 = (word_of_nat (dist - 1) :: u16)"
      using assms(1) by (simp add: of_nat_diff)
    then show ?thesis using assms(2) by (simp add: unat_of_nat)
  qed
  have l: "unat (word_of_nat len :: u8) = len"
    using assms(3) by (simp add: unat_of_nat)
  show ?thesis
    using assms(1) by (simp add: tr_tally_lit_def tr_tally_def tr_tally_dist_def Let_def d l)
qed

theorem tally_macros_agree_witness:
  "tr_tally_dist small_block 5 2 = map_prod id (\<lambda>t. t\<lparr>matches := matches small_block\<rparr>) (tr_tally small_block 5 2)"
  using tally_macros_agree [of 5 2 small_block 0] by simp

end
