(* ===== verification/Inflate_Blocks.thy ===== *)
theory Inflate_Blocks
  imports Fast_Tokens Tree_Send
begin

text \<open>
  Whole blocks, from both ends.  What \<open>compress_block\<close> (\<open>src/src/zlib/trees.c\<close>) sends for the symbols
  collected in \<open>l_buf\<close> and \<open>d_buf\<close> is a sequence of the decoder's tokens; \<open>inflate()\<close> turns such a block
  back into the data the symbols stand for, in its careful states and in \<open>inflate_fast\<close> alike.
\<close>

section \<open>The symbols of the sender as tokens\<close>

text \<open>The data of one collected symbol: \<open>(0, c)\<close> is the literal \<open>c\<close>, \<open>(dist, lc)\<close> a match of \<open>lc + 3\<close>
  bytes.\<close>

fun symbol_data :: "u8 list \<Rightarrow> (nat \<times> nat) option \<Rightarrow> u8 list" where
  "symbol_data h None = h"
| "symbol_data h (Some (dist, lc)) = (if dist = 0 then h @ [word_of_nat lc] else lz_copy dist (lc + 3) h)"

fun symbols_fit :: "nat \<Rightarrow> (nat \<times> nat) option list \<Rightarrow> bool" where
  "symbols_fit h [] = True"
| "symbols_fit h (None # sys) \<longleftrightarrow> False"
| "symbols_fit h (Some (dist, lc) # sys) \<longleftrightarrow>
     lc < 256 \<and> dist \<le> 32768 \<and> dist \<le> h \<and> symbols_fit (h + (if dist = 0 then 1 else lc + 3)) sys"

definition symbols_data :: "u8 list \<Rightarrow> (nat \<times> nat) option list \<Rightarrow> u8 list" where
  "symbols_data h sys = foldl symbol_data h sys"

definition symbol_token :: "(nat \<times> nat) option \<Rightarrow> token" where
  "symbol_token sy =
     (case sy of None \<Rightarrow> Literal 0
      | Some (dist, lc) \<Rightarrow>
          if dist = 0 then Literal lc
          else Match (length_code ! lc) (if length_code ! lc = 28 then 0 else lc - base_length ! (length_code ! lc))
                 (d_code (dist - 1)) (dist - 1 - base_dist ! d_code (dist - 1)))"

lemma length_bases_agree:
  "list_all (\<lambda>(c, l). lbase ! c + (if c = 28 then 0 else l - base_length ! c) = l + 3 \<and> lext ! c - 16 = extra_lbits ! c \<and>
     (c = 28 \<longrightarrow> extra_lbits ! c = 0)) (zip length_code [0..<256])"
  by (simp add: length_code_def base_length_def extra_lbits_def lbase_def lext_def upt_rec)

lemma dist_bases_agree: "list_all (\<lambda>c. dbase ! c = base_dist ! c + 1 \<and> dext ! c - 16 = extra_dbits ! c) [0..<30]"
  by (simp add: dbase_def base_dist_def dext_def extra_dbits_def upt_rec)

lemma length_token:
  assumes "lc < 256"
  defines "c \<equiv> length_code ! lc"
  defines "x \<equiv> (if c = 28 then 0 else lc - base_length ! c)"
  shows "c < 29" "lbase ! c + x = lc + 3" "len_extra c = extra_lbits ! c" "x < 2 ^ len_extra c"
    "nbits (len_extra c) x = value_bits (int lc - int (base_length ! c)) (extra_lbits ! c)"
proof -
  have agree: "lbase ! c + x = lc + 3" "lext ! c - 16 = extra_lbits ! c" "c = 28 \<longrightarrow> extra_lbits ! c = 0"
    using list_all_zip_upt [OF length_bases_agree, of lc] assms(1) by (auto simp: c_def x_def)
  show "c < 29" "lbase ! c + x = lc + 3" using length_code_range(1) [OF assms(1)] agree by (simp_all add: c_def)
  show e: "len_extra c = extra_lbits ! c" using agree by (simp add: len_extra_def)
  show "x < 2 ^ len_extra c" using length_code_range(3) [OF assms(1)] e by (auto simp: x_def c_def)
  show "nbits (len_extra c) x = value_bits (int lc - int (base_length ! c)) (extra_lbits ! c)"
  proof (cases "c = 28")
    case True
    then show ?thesis using agree e by (simp add: nbits_def value_bits_def)
  next
    case False
    then have "base_length ! c \<le> lc" using length_code_range(3) [OF assms(1)] by (simp add: c_def)
    then have "int lc - int (base_length ! c) = int x" using False by (simp add: x_def)
    then show ?thesis by (simp add: e nbits_def value_bits_def bit_of_nat_iff_bit)
  qed
qed

lemma dist_token:
  assumes "dist \<noteq> 0" "dist \<le> 32768"
  defines "c \<equiv> d_code (dist - 1)"
  defines "y \<equiv> dist - 1 - base_dist ! c"
  shows "c < 30" "dbase ! c + y = dist" "y < 2 ^ dist_extra c"
    "nbits (dist_extra c) y = value_bits (int (dist - 1) - int (base_dist ! c)) (extra_dbits ! c)"
proof -
  have d: "dist - 1 < 32768" using assms by simp
  note r = d_code_range [OF d, folded c_def]
  have "dbase ! c = base_dist ! c + 1" and e: "dist_extra c = extra_dbits ! c"
    using dist_bases_agree r(1) by (auto simp: list_all_iff dist_extra_def)
  then show "dbase ! c + y = dist" using r(2) assms(1) by (simp add: y_def)
  show "c < 30" by (rule r(1))
  show "y < 2 ^ dist_extra c" using r(2,3) by (simp add: y_def e)
  have "int (dist - 1) - int (base_dist ! c) = int y" using r(2) by (simp add: y_def)
  then show "nbits (dist_extra c) y = value_bits (int (dist - 1) - int (base_dist ! c)) (extra_dbits ! c)"
    by (simp add: e nbits_def value_bits_def bit_of_nat_iff_bit)
qed

text \<open>The two descriptions of a block agree: bits, meaning and length.\<close>

lemma symbol_token_bits:
  assumes "sy = Some (dist, lc)" "lc < 256" "dist \<le> 32768"
    and "\<And>c. c < 286 \<Longrightarrow> lcw c = lenc c" "\<And>c. c < 30 \<Longrightarrow> dcw c = denc c"
  shows "token_bits lcw dcw (symbol_token sy) = sym_code lenc denc sy"
proof (cases "dist = 0")
  case True
  then show ?thesis using assms by (simp add: symbol_token_def sym_code_def)
next
  case False
  then show ?thesis
    using assms length_token(1,5) [OF assms(2)] dist_token(1,4) [OF False assms(3)]
    by (simp add: symbol_token_def sym_code_def Let_def LITERALS_def add.commute)
qed

lemma symbol_token_data:
  assumes "sy = Some (dist, lc)" "lc < 256" "dist \<le> 32768"
  shows "expand h (symbol_token sy) = symbol_data h sy" "token_len (symbol_token sy) = (if dist = 0 then 1 else lc + 3)"
  using assms length_token(2) [OF assms(2)] dist_token(2) [OF _ assms(3)]
  by (cases "dist = 0"; simp add: symbol_token_def)+

lemma symbols_tokens:
  assumes "symbols_fit h sys" "\<And>c. c < 286 \<Longrightarrow> lcw c = lenc c" "\<And>c. c < 30 \<Longrightarrow> dcw c = denc c"
    and "{..<286} \<subseteq> lsyms" "{..<30} \<subseteq> dsyms"
  shows "concat (map (token_bits lcw dcw) (map symbol_token sys)) = concat (map (sym_code lenc denc) sys)"
    "toks_ok lsyms dsyms h (map symbol_token sys)"
    "length g = h \<Longrightarrow> expand_all g (map symbol_token sys) = symbols_data g sys"
proof -
  have "concat (map (token_bits lcw dcw) (map symbol_token sys)) = concat (map (sym_code lenc denc) sys) \<and>
    toks_ok lsyms dsyms h (map symbol_token sys) \<and>
    (\<forall>g. length g = h \<longrightarrow> expand_all g (map symbol_token sys) = symbols_data g sys)"
    using assms(1)
  proof (induction h sys rule: symbols_fit.induct)
    case (3 h dist lc sys)
    then have sy: "lc < 256" "dist \<le> 32768" "dist \<le> h" by simp_all
    note t = symbol_token_data [OF refl sy(1,2)]
    have IH: "concat (map (token_bits lcw dcw) (map symbol_token sys)) = concat (map (sym_code lenc denc) sys)"
        "toks_ok lsyms dsyms (h + token_len (symbol_token (Some (dist, lc)))) (map symbol_token sys)"
        "\<And>g. length g = h + token_len (symbol_token (Some (dist, lc))) \<Longrightarrow> expand_all g (map symbol_token sys) = symbols_data g sys"
      using "3.IH" "3.prems" t(2) by simp_all
    have "tok_ok lsyms dsyms h (symbol_token (Some (dist, lc)))"
    proof (cases "dist = 0")
      case True
      then show ?thesis using sy assms(4) by (auto simp: symbol_token_def)
    next
      case False
      then show ?thesis
        using sy assms(4,5) length_token(1,4) [OF sy(1)] dist_token(1-3) [OF False sy(2)]
        by (auto simp: symbol_token_def)
    qed
    moreover have "expand_all g (map symbol_token (Some (dist, lc) # sys)) = symbols_data g (Some (dist, lc) # sys)"
      if "length g = h" for g
    proof -
      have "length (expand g (symbol_token (Some (dist, lc)))) = h + token_len (symbol_token (Some (dist, lc)))"
        by (simp add: length_expand that)
      from IH(3) [OF this] show ?thesis by (simp add: symbols_data_def t(1) del: symbol_data.simps)
    qed
    ultimately show ?case
      using IH(1,2) symbol_token_bits [OF refl sy(1,2) assms(2,3)] by simp
  qed (simp_all add: symbols_data_def)
  then show "concat (map (token_bits lcw dcw) (map symbol_token sys)) = concat (map (sym_code lenc denc) sys)"
    "toks_ok lsyms dsyms h (map symbol_token sys)"
    "length g = h \<Longrightarrow> expand_all g (map symbol_token sys) = symbols_data g sys" by blast+
qed

section \<open>A block with the fixed codes\<close>

lemma fix_dist_tree: "sy < 30 \<Longrightarrow> tree_code static_dtree sy = fix_dist_bits sy"
  by (simp add: static_dtree_code fix_dist_bits_def)

lemma code_at_fixed: "code_at s Lenfix = (!) lenfix" "code_at s Distfix = (!) distfix"
  by (rule ext, simp add: code_at_def)+

definition fixed_in_use :: "z_inflate \<Rightarrow> bool" where
  "fixed_in_use s \<longleftrightarrow> i_lencode s = Lenfix \<and> i_lenbits s = 9 \<and> i_distcode s = Distfix \<and> i_distbits s = 5"

lemma fixed_block_tables:
  assumes "fixed_in_use s"
  shows "block_tables {..<288} (tree_code static_ltree) {..<32} fix_dist_bits s"
proof -
  have "\<forall>sy l. sy < 286 \<longrightarrow> fix_entry sy l = table_entry LENS sy l" by (simp add: fix_entry_def)
  then show ?thesis
    using assms lf.symbol_table_axioms df.symbol_table_axioms
    by (auto simp: block_tables_def fixed_in_use_def code_at_fixed)
qed

text \<open>The type of the block: three bits, then the fixed tables.\<close>

lemma TYPEDO_fixed:
  assumes "i_mode s = TYPEDO" "bits_ok s" "i_bits s < 8" "i_last s = 0" "in_bits s = final # True # False # rest" "flush \<noteq> Z_TREES"
  shows "\<exists>t. steps flush s t \<and> i_mode t = LEN \<and> fixed_in_use t \<and> bits_ok t \<and> i_bits t < 8 \<and> in_bits t = rest \<and>
    i_last t = of_bool final \<and>
    t\<lparr>i_mode := i_mode s, next_in := next_in s, i_hold := i_hold s, i_bits := i_bits s, i_last := i_last s,
      i_lencode := i_lencode s, i_lenbits := i_lenbits s, i_distcode := i_distcode s, i_distbits := i_distbits s\<rparr> = s"
proof -
  obtain t where t: "needbits 3 s = (True, t)" "bits_ok t" "in_bits t = in_bits s" "same_but_bits s t" "3 \<le> i_bits t"
      "i_bits t \<le> max (i_bits s) 10"
    using needbits_spec [OF assms(2), of 3] needbits_iff [OF assms(2), of 3] needbits_bound [of 3 s] assms(5)
    by (cases "needbits 3 s") auto
  have in3: "in_bits t = [final, True, False] @ rest" using t(3) assms(5) by simp
  have low: "bits_val 1 t = of_bool final" "bits_val 2 (dropbits 1 t) = 1"
    "in_bits (dropbits 2 (dropbits 1 t)) = rest" "bits_ok (dropbits 2 (dropbits 1 t))"
    using br.peek_stream [OF t(2), of 1] br.read_two [OF t(2), of 1 2] t(5) in3 by simp_all
  let ?u = "(dropbits 2 (dropbits 1 t))\<lparr>i_last := of_bool final, i_lencode := Lenfix, i_lenbits := 9,
      i_distcode := Distfix, i_distbits := 5, i_mode := LEN_first\<rparr>"
  have last: "i_last t = i_last s" using t(4) unfolding same_but_bits_def by (cases s; cases t) simp
  have v2: "bits_val 2 ((dropbits 1 t)\<lparr>i_last := x\<rparr>) = 1" for x using low(2) by (simp add: bits_val_def)
  have "do_TYPEDO flush s = Next ?u"
    using assms(4,6) t(1) low(1) v2
    by (simp add: do_TYPEDO_def with_bits_def Let_def fixedtables_def dropbits_def bits_val_def)
  then have "inflate_step flush s = Next ?u" using assms(1) by (simp add: inflate_step_def)
  moreover have "inflate_step flush ?u = Next (?u\<lparr>i_mode := LEN\<rparr>)" by (simp add: inflate_step_def)
  ultimately have "steps flush s (?u\<lparr>i_mode := LEN\<rparr>)" using steps_one steps_trans by blast
  moreover have "fixed_in_use (?u\<lparr>i_mode := LEN\<rparr>)" by (simp add: fixed_in_use_def)
  moreover have "in_bits (?u\<lparr>i_mode := LEN\<rparr>) = rest" "bits_ok (?u\<lparr>i_mode := LEN\<rparr>)"
    using low(3,4) by (simp_all add: in_bits_def bits_ok_def)
  moreover have "i_bits (?u\<lparr>i_mode := LEN\<rparr>) < 8" using t(6) assms(3) by (simp add: dropbits_def)
  moreover have "(?u\<lparr>i_mode := i_mode s, next_in := next_in s, i_hold := i_hold s, i_bits := i_bits s, i_last := i_last s,
      i_lencode := i_lencode s, i_lenbits := i_lenbits s, i_distcode := i_distcode s, i_distbits := i_distbits s\<rparr>) = s"
    using t(4) unfolding same_but_bits_def by (cases s; cases t) (simp add: dropbits_def)
  ultimately show ?thesis by (intro exI [of _ "?u\<lparr>i_mode := LEN\<rparr>"]) simp
qed


lemma outputs_last: "outputs s h t \<Longrightarrow> i_last t = i_last s"
  using same_data_fields(16) [of "s\<lparr>put := put t, avail_out := avail_out t\<rparr>" t] by (simp add: outputs_def)

lemma fixed_block_decoded:
  assumes z: "i_mode z = TYPEDO" "bits_ok z" "i_bits z < 8" "i_last z = 0" "win_ok z" "out_ok z" "flush \<noteq> Z_TREES"
    and sys: "symbols_fit (length (hist z)) sys"
    and bits: "in_bits z = final # True # False #
      concat (map (sym_code (tree_code static_ltree) (tree_code static_dtree)) sys) @ tree_code static_ltree 256 @ rest"
    and room: "length (symbols_data (hist z) sys) \<le> length (hist z) + avail_out z"
  shows "\<exists>t. steps flush z t \<and> i_mode t = TYPE_state \<and> hist t = symbols_data (hist z) sys \<and> in_bits t = rest \<and>
    bits_ok t \<and> i_bits t < 8 \<and> i_last t = of_bool final"
proof -
  let ?lcw = "tree_code static_ltree"
  obtain s where s: "steps flush z s" "i_mode s = LEN" "fixed_in_use s" "bits_ok s" "i_bits s < 8" "i_last s = of_bool final"
      "in_bits s = concat (map (sym_code ?lcw (tree_code static_dtree)) sys) @ ?lcw 256 @ rest"
      "s\<lparr>i_mode := i_mode z, next_in := next_in z, i_hold := i_hold z, i_bits := i_bits z, i_last := i_last z,
        i_lencode := i_lencode z, i_lenbits := i_lenbits z, i_distcode := i_distcode z, i_distbits := i_distbits z\<rparr> = z"
    using TYPEDO_fixed [OF z(1-4) bits z(7)] by blast
  have same: "win_hist s = win_hist z" "put s = put z" "win_ok s = win_ok z" "out_ok s = out_ok z" "avail_out s = avail_out z"
    using s(8) by (cases z; cases s; simp add: win_hist_def win_at_def win_ok_def out_ok_def)+
  have at: "at_len {..<288} ?lcw {..<32} fix_dist_bits s"
    using s(3-5) z(5,6) same fixed_block_tables by (simp add: at_len_def)
  have sub: "{..<286} \<subseteq> {..<288 :: nat}" "{..<30} \<subseteq> {..<32 :: nat}" by auto
  note st = symbols_tokens [where lcw = ?lcw and lenc = ?lcw and dcw = fix_dist_bits and denc = "tree_code static_dtree",
      OF sys _ fix_dist_tree [symmetric] sub]
  have tk: "concat (map (token_bits ?lcw fix_dist_bits) (map symbol_token sys)) = concat (map (sym_code ?lcw (tree_code static_dtree)) sys)"
      "toks_ok {..<288} {..<32} (length (hist z)) (map symbol_token sys)"
      "expand_all (hist z) (map symbol_token sys) = symbols_data (hist z) sys"
    using st by simp_all
  have "sum_list (map token_len (map symbol_token sys)) \<le> avail_out s"
    using room unfolding tk(3) [symmetric] length_expand_all by (simp add: same)
  then obtain t where t: "steps flush s t" "i_mode t = TYPE_state" "outputs s (expand_all (hist s) (map symbol_token sys)) t"
      "in_bits t = rest" "bits_ok t" "i_bits t < 8"
    using LEN_block [OF at s(2), of "map symbol_token sys" rest] s(7) tk(1,2) same by auto
  have "hist t = symbols_data (hist z) sys" using t(3) tk(3) same by (simp add: outputs_def)
  moreover have "i_last t = of_bool final" using outputs_last [OF t(3)] s(6) by simp
  ultimately show ?thesis using steps_trans [OF s(1) t(1)] t(2,4-6) by blast
qed


section \<open>Properties\<close>

text \<open>C4: \<open>inflate()\<close> decodes a block.  From the state \<open>LEN\<close>, with decoding tables for the two codes and
  a well-formed window, and with the code words and extra bits of a sequence of literals and matches
  and the end-of-block code ahead in its input, the machine reaches the state \<open>TYPE\<close> after finitely many
  turns (any further fuel is left for what follows), has appended exactly the data the sequence stands
  for to its window and output, whether a match starts in the window or in the output and overlaps itself
  or not, and has read exactly the bits of the block, whether they went through the careful states or
  through \<open>inflate_fast\<close>.\<close>

theorem inflate_block_correct:
  assumes "at_len lsyms lcw dsyms dcw s" "i_mode s = LEN" "256 \<in> lsyms"
    and "in_bits s = block_bits lcw dcw toks @ rest" "toks_ok lsyms dsyms (length (win_hist s @ put s)) toks"
    and "sum_list (map token_len toks) \<le> avail_out s"
  shows "\<exists>n t. (\<forall>k. inflate_loop (n + k) flush s = inflate_loop k flush t) \<and> i_mode t = TYPE_state \<and>
    win_hist t @ put t = expand_all (win_hist s @ put s) toks \<and> win_hist t = win_hist s \<and> in_bits t = rest"
proof -
  obtain t where t: "steps flush s t" "i_mode t = TYPE_state" "outputs s (expand_all (hist s) toks) t" "in_bits t = rest"
    using LEN_block [OF assms] by blast
  obtain n where "\<forall>k. inflate_loop (n + k) flush s = inflate_loop k flush t" using steps_loop [OF t(1)] by blast
  moreover have "hist t = expand_all (hist s) toks" using t(3) by (simp add: outputs_def)
  ultimately show ?thesis using t(2,4) outputs_same(3) [OF t(3)] by blast
qed

definition small_stream :: z_inflate where
  "small_stream = (blank_inflate [203, 0, 2, 0] 100)\<lparr>i_mode := TYPEDO\<rparr>"

lemma small_stream_ok:
  "i_mode small_stream = TYPEDO" "bits_ok small_stream" "i_bits small_stream < 8" "i_last small_stream = 0"
  "win_ok small_stream" "out_ok small_stream" "hist small_stream = []" "avail_out small_stream = 100"
  by (simp_all add: small_stream_def blank_inflate_def bits_ok_def win_ok_def out_ok_def win_hist_def)

lemma bit_upt: "map (bit n) [0..<5] = [odd n, odd (n div 2), odd (n div 4), odd (n div 8), odd (n div 16)]"
  "map (bit n) [0..<7] = [odd n, odd (n div 2), odd (n div 4), odd (n div 8), odd (n div 16), odd (n div 32), odd (n div 64)]"
  "map (bit n) [0..<8] = [odd n, odd (n div 2), odd (n div 4), odd (n div 8), odd (n div 16), odd (n div 32), odd (n div 64),
    odd (n div 128)]" for n :: nat
  by (simp_all add: upt_rec bit_iff_odd)

lemma bot_upt: "map bot [0..<5] = [False, False, False, False, False]"
  "map bot [0..<7] = [False, False, False, False, False, False, False]"
  by (simp_all add: upt_rec)

lemma small_bytes:
  "byte_bits 203 = [True, True, False, True, False, False, True, True]" "byte_bits 0 = [False, False, False, False, False, False, False, False]"
  "byte_bits 2 = [False, True, False, False, False, False, False, False]"
  by (simp_all add: byte_bits_def upt_rec bit_iff_odd)

lemma small_bits:
  "sym_code (tree_code static_ltree) (tree_code static_dtree) (Some (0, 104)) = [True, False, False, True, True, False, False, False]"
  "sym_code (tree_code static_ltree) (tree_code static_dtree) (Some (1, 0))
    = [False, False, False, False, False, False, True, False, False, False, False, False]"
  "tree_code static_ltree 256 = [False, False, False, False, False, False, False]"
proof -
  have lc: "length_code ! 0 = 0" by (simp add: length_code_def)
  have dc: "d_code 0 = 0" by (simp add: d_code_def dist_code_def)
  show "sym_code (tree_code static_ltree) (tree_code static_dtree) (Some (0, 104)) = [True, False, False, True, True, False, False, False]"
    "tree_code static_ltree 256 = [False, False, False, False, False, False, False]"
    by (simp_all add: sym_code_def static_tree_code msb_bits_def fix_canon_def fix_len_def bit_upt bot_upt)
  show "sym_code (tree_code static_ltree) (tree_code static_dtree) (Some (1, 0))
      = [False, False, False, False, False, False, True, False, False, False, False, False]"
    by (simp add: sym_code_def static_tree_code static_dtree_code msb_bits_def fix_canon_def fix_len_def bit_upt bot_upt lc dc
        LITERALS_def base_length_def base_dist_def extra_lbits_def extra_dbits_def value_bits_def)
qed

lemma small_stream_bits: "in_bits small_stream = True # True # False #
    concat (map (sym_code (tree_code static_ltree) (tree_code static_dtree)) [Some (0, 104), Some (1, 0)]) @
    tree_code static_ltree 256 @ [False, False]"
proof -
  have "in_bits small_stream = concat (map byte_bits [203, 0, 2, 0])"
    by (simp add: in_bits_def small_stream_def blank_inflate_def)
  then show ?thesis by (simp add: small_bits [unfolded One_nat_def] small_bytes)
qed

text \<open>C3: What \<open>compress_block\<close> sends with the fixed trees, after the three bits of a fixed block,
  \<open>inflate()\<close> turns back into the data of the symbols that were collected: the machine gets from the
  start of the block to the start of the next one, with the literals and matches appended to what it had
  decoded, the last-block flag set from the first bit, and the bits after the block not touched.  The symbols lie
  behind the pending bytes in the same memory; the bytes sent do not reach symbols still to be read, which is what the
  assertion in \<open>compress_block\<close> says.\<close>

theorem fixed_block_roundtrip:
  assumes sender: "bit_inv s" "symbols_fit (length (win_hist z @ put z)) (block_symbols s)"
      "overlay_ok static_ltree static_dtree s"
    and receiver: "i_mode z = TYPEDO" "bits_ok z" "i_bits z < 8" "i_last z = 0" "win_ok z" "out_ok z" "flush \<noteq> Z_TREES"
    and sent: "stream_bits (compress_block static_ltree static_dtree s) = stream_bits s @ sent"
      "in_bits z = final # True # False # sent @ rest"
    and room: "length (symbols_data (win_hist z @ put z) (block_symbols s)) \<le> length (win_hist z @ put z) + avail_out z"
  shows "\<exists>n t. (\<forall>k. inflate_loop (n + k) flush z = inflate_loop k flush t) \<and> i_mode t = TYPE_state \<and>
    win_hist t @ put t = symbols_data (win_hist z @ put z) (block_symbols s) \<and> in_bits t = rest \<and>
    i_last t = of_bool final"
proof -
  have fit: "\<forall>lx<last_lit s. unat (d_buf s ! lx) \<le> 32768"
  proof -
    have "symbols_fit h sys \<Longrightarrow> Some (d, l) \<in> set sys \<Longrightarrow> d \<le> 32768" for h sys d l
      by (induction h sys rule: symbols_fit.induct) auto
    from this [OF sender(2)] show ?thesis by (force simp: block_symbols_def block_symbol_def)
  qed
  have "sent = concat (map (sym_code (tree_code static_ltree) (tree_code static_dtree)) (block_symbols s)) @ tree_code static_ltree 256"
    using compress_block_correct(2) [OF sender(1) static_trees_fit fit sender(3)] sent(1)
    by (simp add: sym_code_def END_BLOCK_def)
  then have "in_bits z = final # True # False #
      concat (map (sym_code (tree_code static_ltree) (tree_code static_dtree)) (block_symbols s)) @ tree_code static_ltree 256 @ rest"
    using sent(2) by simp
  from fixed_block_decoded [OF receiver sender(2) this room]
  obtain t where t: "steps flush z t" "i_mode t = TYPE_state" "hist t = symbols_data (hist z) (block_symbols s)"
    "in_bits t = rest" "i_last t = of_bool final" by blast
  obtain n where "\<forall>k. inflate_loop (n + k) flush z = inflate_loop k flush t" using steps_loop [OF t(1)] by blast
  then show ?thesis using t(2-5) by blast
qed

theorem fixed_block_roundtrip_witness:
  "\<exists>n t. (\<forall>k. inflate_loop (n + k) Z_NO_FLUSH small_stream = inflate_loop k Z_NO_FLUSH t) \<and> i_mode t = TYPE_state \<and>
    win_hist t @ put t = [104, 104, 104, 104] \<and> in_bits t = [False, False] \<and> i_last t = 1"
proof -
  let ?sent = "concat (map (sym_code (tree_code static_ltree) (tree_code static_dtree)) [Some (0, 104), Some (1, 0)]) @
      tree_code static_ltree 256"
  have sent: "stream_bits (compress_block static_ltree static_dtree small_block) = stream_bits small_block @ ?sent"
    using compress_block_correct(2) [OF small_block_ok(1) static_trees_fit small_block_ok(2,4)] small_block_ok(3)
    by (simp add: sym_code_def END_BLOCK_def)
  have fit: "symbols_fit (length (win_hist small_stream @ put small_stream)) (block_symbols small_block)"
    by (simp add: small_block_ok(3) small_stream_ok)
  have data: "symbols_data (hist small_stream) (block_symbols small_block) = [104, 104, 104, 104]"
    by (simp add: small_block_ok(3) small_stream_ok symbols_data_def numeral_3_eq_3)
  have nf: "Z_NO_FLUSH \<noteq> Z_TREES" by (simp add: flush_consts)
  have room: "length (symbols_data (hist small_stream) (block_symbols small_block)) \<le> length (hist small_stream) + avail_out small_stream"
    unfolding data by (simp add: small_stream_ok)
  have bits: "in_bits small_stream = True # True # False # ?sent @ [False, False]" using small_stream_bits by simp
  from fixed_block_roundtrip [OF small_block_ok(1) fit small_block_ok(4) small_stream_ok(1-6) nf sent bits room]
  show ?thesis unfolding data by simp
qed

theorem inflate_block_correct_witness:
  "\<exists>n t. (\<forall>k. inflate_loop (n + k) Z_NO_FLUSH (small_stream\<lparr>i_mode := LEN, i_lencode := Lenfix, i_lenbits := 9,
      i_distcode := Distfix, i_distbits := 5, i_hold := 25, i_bits := 5, next_in := [0, 2, 0]\<rparr>) = inflate_loop k Z_NO_FLUSH t) \<and>
    i_mode t = TYPE_state \<and> win_hist t @ put t = [104, 104, 104, 104] \<and> in_bits t = [False, False]"
proof -
  let ?s = "small_stream\<lparr>i_mode := LEN, i_lencode := Lenfix, i_lenbits := 9, i_distcode := Distfix, i_distbits := 5,
      i_hold := 25, i_bits := 5, next_in := [0, 2, 0]\<rparr>"
  let ?toks = "[Literal 104, Match 0 0 0 0]"
  have "fixed_in_use ?s" by (simp add: fixed_in_use_def)
  then have at: "at_len {..<288} (tree_code static_ltree) {..<32} fix_dist_bits ?s"
    using fixed_block_tables
    by (simp add: at_len_def bits_ok_def win_ok_def out_ok_def small_stream_def blank_inflate_def)
  have h: "win_hist ?s @ put ?s = []" by (simp add: win_hist_def small_stream_def blank_inflate_def)
  have bits: "in_bits ?s = block_bits (tree_code static_ltree) fix_dist_bits ?toks @ [False, False]"
  proof -
    have "in_bits ?s = nbits 5 25 @ concat (map byte_bits [0, 2, 0])"
      by (simp add: in_bits_def)
    moreover have "nbits 5 25 = [True, False, False, True, True]" by (simp add: nbits_def bit_upt)
    moreover have "token_bits (tree_code static_ltree) fix_dist_bits (Match 0 0 0 0)
        = [False, False, False, False, False, False, True, False, False, False, False, False]"
      by (simp add: static_tree_code fix_dist_bits_def msb_bits_def fix_canon_def fix_len_def bit_upt bot_upt
          len_extra_def dist_extra_def lext_def dext_def)
    moreover have "tree_code static_ltree 104 = [True, False, False, True, True, False, False, False]"
      using small_bits(1) by (simp add: sym_code_def)
    ultimately show ?thesis using small_bits(3) by (simp add: small_bytes del: token_bits.simps(2))
  qed
  have ok: "toks_ok {..<288} {..<32} (length (win_hist ?s @ put ?s)) ?toks" unfolding h by (simp add: dbase_def)
  have room: "sum_list (map token_len ?toks) \<le> avail_out ?s"
    by (simp add: lbase_def small_stream_def blank_inflate_def)
  have data: "expand_all (win_hist ?s @ put ?s) ?toks = [104, 104, 104, 104]"
    unfolding h by (simp add: lbase_def dbase_def numeral_3_eq_3)
  from inflate_block_correct [OF at _ _ bits ok room, of Z_NO_FLUSH] show ?thesis unfolding data by auto
qed

end
