(* ===== verification/Inflate_Back.thy ===== *)
theory Inflate_Back
  imports Inflate_Api
begin

text \<open>
  \<open>inflateBack()\<close> of \<open>src/src/zlib/infback.c\<close>: the second inflate machine, which gets its input from the callback
  \<open>in()\<close> and gives its output, a window at a time, to \<open>out()\<close>.  The callbacks are parameters: \<open>inp d\<close> gives the next
  piece of input (empty for failure) and \<open>outp bs d\<close> takes \<open>bs\<close> and says whether it failed; \<open>d\<close> is what the two
  descriptors point to.  The window is also the output buffer: \<open>put\<close> holds what this lap has written to it and
  \<open>i_window\<close> what the lap before left there, so the memory is \<open>put s @ drop (length (put s)) window\<close>.  A copy never
  reads behind the place it writes to before it has been written, which is why the two do not interfere.
  \<open>put\<close>, \<open>avail_out\<close> and \<open>next_in\<close> of the stream stand for the locals \<open>put\<close>, \<open>left\<close>, \<open>next\<close> and \<open>have\<close>.
\<close>

section \<open>Initialisation\<close>

text \<open>The fresh memory of the state is what the state part of \<open>s\<close> holds; \<open>window\<close> is not null.\<close>

definition inflateBackInit :: "bool \<Rightarrow> int \<Rightarrow> u8 list \<Rightarrow> string option \<Rightarrow> int \<Rightarrow> z_inflate \<Rightarrow> int \<times> z_inflate" where
  "inflateBackInit alloc windowBits window version stream_size s =
     (if \<not> version_ok version \<or> stream_size \<noteq> sizeof_z_stream then (Z_VERSION_ERROR, s)
      else if windowBits < 8 \<or> windowBits > 15 then (Z_STREAM_ERROR, s)
      else
        (let s = s\<lparr>msg := None\<rparr> in
         if \<not> alloc then (Z_MEM_ERROR, s)
         else
           (Z_OK, s\<lparr>z_ready := True, i_dmax := 32768, i_wbits := nat windowBits, i_wsize := 2 ^ nat windowBits,
              i_window := Some window, put := [], i_wnext := 0, i_whave := 0\<rparr>)))"

section \<open>The macros of inflateBack()\<close>

text \<open>Where a turn ends: on to the next one, or at \<open>inf_leave\<close> with \<open>l_ret\<close> set; the flag says that \<open>next\<close>
  is \<open>Z_NULL\<close> there.\<close>

datatype 'd back_outcome = B_next z_inflate 'd | B_leave bool z_inflate 'd | B_stuck

text \<open>\<open>PULL()\<close>: False for the exit.\<close>

definition b_pull :: "('d \<Rightarrow> u8 list \<times> 'd) \<Rightarrow> z_inflate \<Rightarrow> 'd \<Rightarrow> bool \<times> z_inflate \<times> 'd" where
  "b_pull inp s d =
     (if next_in s = [] then
        (let (buf, d) = inp d
         in if buf = [] then (False, s\<lparr>l_ret := Z_BUF_ERROR\<rparr>, d) else (True, s\<lparr>next_in := buf\<rparr>, d))
      else (True, s, d))"

definition b_pullbyte :: "('d \<Rightarrow> u8 list \<times> 'd) \<Rightarrow> z_inflate \<Rightarrow> 'd \<Rightarrow> bool \<times> z_inflate \<times> 'd" where
  "b_pullbyte inp s d =
     (case b_pull inp s d of (ok, s, d) \<Rightarrow>
        if ok then (True, pull_byte (hd (next_in s)) (tl (next_in s)) s, d) else (False, s, d))"

lemma b_pullbyte_bits: "b_pullbyte inp s d = (True, t, e) \<Longrightarrow> i_bits t = i_bits s + 8"
  by (auto simp: b_pullbyte_def b_pull_def pull_byte_def split: if_splits prod.splits)

function b_needbits :: "('d \<Rightarrow> u8 list \<times> 'd) \<Rightarrow> nat \<Rightarrow> z_inflate \<Rightarrow> 'd \<Rightarrow> bool \<times> z_inflate \<times> 'd" where
  "b_needbits inp n s d =
     (if i_bits s < n then
        (case b_pullbyte inp s d of (ok, s, d) \<Rightarrow> if ok then b_needbits inp n s d else (False, s, d))
      else (True, s, d))"
  by pat_completeness auto
termination
  by (relation "measure (\<lambda>(inp, n, s, d). n - i_bits s)") (auto dest!: b_pullbyte_bits [OF sym])

declare b_needbits.simps [simp del]

text \<open>\<open>ROOM()\<close>: the window is full, so it goes out and a new lap begins.\<close>

definition b_room :: "(u8 list \<Rightarrow> 'd \<Rightarrow> bool \<times> 'd) \<Rightarrow> z_inflate \<Rightarrow> 'd \<Rightarrow> bool \<times> z_inflate \<times> 'd" where
  "b_room outp s d =
     (if avail_out s = 0 then
        (let full = put s;
             s = s\<lparr>i_window := Some full, put := [], avail_out := i_wsize s, i_whave := i_wsize s\<rparr>;
             (failed, d) = outp full d
         in if failed then (False, s\<lparr>l_ret := Z_BUF_ERROR\<rparr>, d) else (True, s, d))
      else (True, s, d))"

text \<open>\<open>for (;;) { here = ...; if (here.bits + used <= bits) break; PULLBYTE(); }\<close>\<close>

lemma code_bits_less: "unat (code_bits c) < 256"
  by (rule unat_u8_lt)

function b_code ::
  "('d \<Rightarrow> u8 list \<times> 'd) \<Rightarrow> (z_inflate \<Rightarrow> code) \<Rightarrow> nat \<Rightarrow> z_inflate \<Rightarrow> 'd \<Rightarrow> code option \<times> z_inflate \<times> 'd"
where
  "b_code inp get used s d =
     (let here = get s
      in if used + unat (code_bits here) \<le> i_bits s then (Some here, s, d)
         else (case b_pullbyte inp s d of (ok, s, d) \<Rightarrow> if ok then b_code inp get used s d else (None, s, d)))"
  by pat_completeness auto
termination
proof (relation "measure (\<lambda>(inp, get, used, s, d). used + 256 - i_bits s)", goal_cases)
  case (2 inp get used s d here ok sd t e)
  have "i_bits s < used + 256" using 2(1,2) code_bits_less [of here] by linarith
  then show ?case using 2 b_pullbyte_bits [of inp s d t e] by auto
qed simp

declare b_code.simps [simp del]

definition b_second ::
  "('d \<Rightarrow> u8 list \<times> 'd) \<Rightarrow> code_ptr \<Rightarrow> code \<Rightarrow> z_inflate \<Rightarrow> 'd \<Rightarrow> code option \<times> z_inflate \<times> 'd"
where
  "b_second inp p link s d =
     (case b_code inp (\<lambda>s. code_at s p (unat (code_val link) +
             bits_val (unat (code_bits link) + unat (code_op link)) s div 2 ^ unat (code_bits link)))
           (unat (code_bits link)) s d of
        (None, s, d) \<Rightarrow> (None, s, d)
      | (Some here, s, d) \<Rightarrow> (Some here, dropbits (unat (code_bits link)) s, d))"

definition b_bits ::
  "('d \<Rightarrow> u8 list \<times> 'd) \<Rightarrow> nat \<Rightarrow> z_inflate \<Rightarrow> 'd \<Rightarrow> (z_inflate \<Rightarrow> 'd \<Rightarrow> 'd back_outcome) \<Rightarrow> 'd back_outcome"
where
  "b_bits inp n s d k = (case b_needbits inp n s d of (ok, s, d) \<Rightarrow> if ok then k s d else B_leave True s d)"

definition b_bad :: "string \<Rightarrow> z_inflate \<Rightarrow> 'd \<Rightarrow> 'd back_outcome" where
  "b_bad m s d = B_next (s\<lparr>msg := Some m, i_mode := BAD\<rparr>) d"

section \<open>Blocks\<close>

definition b_TYPE :: "('d \<Rightarrow> u8 list \<times> 'd) \<Rightarrow> z_inflate \<Rightarrow> 'd \<Rightarrow> 'd back_outcome" where
  "b_TYPE inp s d =
     (if i_last s \<noteq> 0 then B_next ((bytebits s)\<lparr>i_mode := DONE\<rparr>) d
      else b_bits inp 3 s d (\<lambda>s d.
        let s = dropbits 1 (s\<lparr>i_last := bits_val 1 s\<rparr>);
            ty = bits_val 2 s;
            s = (if ty = 0 then s\<lparr>i_mode := STORED\<rparr>
                 else if ty = 1 then (fixedtables s)\<lparr>i_mode := LEN\<rparr>
                 else if ty = 2 then s\<lparr>i_mode := TABLE\<rparr>
                 else s\<lparr>msg := Some ''invalid block type'', i_mode := BAD\<rparr>)
        in B_next (dropbits 2 s) d))"

text \<open>\<open>while (state->length != 0)\<close>; a window of no bytes would keep the loop going for ever.\<close>

function b_stored_loop ::
  "('d \<Rightarrow> u8 list \<times> 'd) \<Rightarrow> (u8 list \<Rightarrow> 'd \<Rightarrow> bool \<times> 'd) \<Rightarrow> z_inflate \<Rightarrow> 'd \<Rightarrow> 'd back_outcome"
where
  "b_stored_loop inp outp s d =
     (if i_length s = 0 then B_next (s\<lparr>i_mode := TYPE_state\<rparr>) d
      else
        (case b_pull inp s d of (ok, s1, d1) \<Rightarrow>
           if \<not> ok then B_leave True s1 d1
           else
             (case b_room outp s1 d1 of (ok, s2, d2) \<Rightarrow>
                if \<not> ok then B_leave False s2 d2
                else
                  (let copy = i_length s;
                       copy = (if copy > length (next_in s2) then length (next_in s2) else copy);
                       copy = (if copy > avail_out s2 then avail_out s2 else copy)
                   in if copy = 0 then B_stuck
                      else b_stored_loop inp outp
                        (s2\<lparr>put := put s2 @ take copy (next_in s2), next_in := drop copy (next_in s2),
                            avail_out := avail_out s2 - copy, i_length := i_length s - copy\<rparr>) d2))))"
  by pat_completeness auto
termination
  by (relation "measure (\<lambda>(inp, outp, s, d). i_length s)") auto

declare b_stored_loop.simps [simp del]

definition b_STORED ::
  "('d \<Rightarrow> u8 list \<times> 'd) \<Rightarrow> (u8 list \<Rightarrow> 'd \<Rightarrow> bool \<times> 'd) \<Rightarrow> z_inflate \<Rightarrow> 'd \<Rightarrow> 'd back_outcome"
where
  "b_STORED inp outp s d = b_bits inp 32 (bytebits s) d (\<lambda>s d.
     if i_hold s mod 2 ^ 16 \<noteq> (i_hold s div 2 ^ 16) XOR 0xffff then b_bad ''invalid stored block lengths'' s d
     else b_stored_loop inp outp (initbits (s\<lparr>i_length := i_hold s mod 2 ^ 16\<rparr>)) d)"

section \<open>Code tables\<close>

text \<open>\<open>while (state->have < state->ncode)\<close> in \<open>TABLE\<close>.\<close>

lemma b_pullbyte_have:
  "i_have (fst (snd (b_pullbyte inp s d))) = i_have s \<and> i_ncode (fst (snd (b_pullbyte inp s d))) = i_ncode s \<and>
   i_nlen (fst (snd (b_pullbyte inp s d))) = i_nlen s \<and> i_ndist (fst (snd (b_pullbyte inp s d))) = i_ndist s"
  by (simp add: b_pullbyte_def b_pull_def pull_byte_def Let_def split: prod.split)

lemma b_needbits_have:
  "i_have (fst (snd (b_needbits inp n s d))) = i_have s \<and> i_ncode (fst (snd (b_needbits inp n s d))) = i_ncode s \<and>
   i_nlen (fst (snd (b_needbits inp n s d))) = i_nlen s \<and> i_ndist (fst (snd (b_needbits inp n s d))) = i_ndist s"
proof (induction inp n s d rule: b_needbits.induct)
  case (1 inp n s d)
  obtain ok t e where p: "b_pullbyte inp s d = (ok, t, e)" by (cases "b_pullbyte inp s d")
  have "i_have t = i_have s \<and> i_ncode t = i_ncode s \<and> i_nlen t = i_nlen s \<and> i_ndist t = i_ndist s"
    using b_pullbyte_have [of inp s d] by (simp add: p)
  then show ?case using 1 [OF _ p [symmetric] refl] by (subst (1 2 3 4) b_needbits.simps) (simp add: p)
qed

lemma b_code_have:
  "i_have (fst (snd (b_code inp get used s d))) = i_have s \<and> i_nlen (fst (snd (b_code inp get used s d))) = i_nlen s \<and>
   i_ndist (fst (snd (b_code inp get used s d))) = i_ndist s"
proof (induction inp get used s d rule: b_code.induct)
  case (1 inp get used s d)
  obtain ok t e where p: "b_pullbyte inp s d = (ok, t, e)" by (cases "b_pullbyte inp s d")
  have "i_have t = i_have s \<and> i_nlen t = i_nlen s \<and> i_ndist t = i_ndist s"
    using b_pullbyte_have [of inp s d] by (simp add: p)
  then show ?case using 1 [OF refl _ p [symmetric] refl] by (subst (1 2 3) b_code.simps) (simp add: p Let_def)
qed

function b_lenlens_loop :: "('d \<Rightarrow> u8 list \<times> 'd) \<Rightarrow> z_inflate \<Rightarrow> 'd \<Rightarrow> bool \<times> z_inflate \<times> 'd" where
  "b_lenlens_loop inp s d =
     (if i_have s < i_ncode s then
        (let r = b_needbits inp 3 s d; s = fst (snd r)
         in if fst r then
              b_lenlens_loop inp (dropbits 3 (s\<lparr>i_lens := (i_lens s)[order ! i_have s := bits_val 3 s],
                                               i_have := i_have s + 1\<rparr>)) (snd (snd r))
            else r)
      else (True, s, d))"
  by pat_completeness auto
termination
  by (relation "measure (\<lambda>(inp, s, d). i_ncode s - i_have s)") (auto simp: dropbits_def b_needbits_have)

declare b_lenlens_loop.simps [simp del]

datatype 'd lens_result = BL_done z_inflate 'd | BL_leave z_inflate 'd | BL_bad string z_inflate 'd

text \<open>A repeat code: the extra bits, what is repeated and the base of the count.\<close>

definition b_repeat ::
  "('d \<Rightarrow> u8 list \<times> 'd) \<Rightarrow> code \<Rightarrow> nat \<Rightarrow> nat \<Rightarrow> z_inflate \<Rightarrow> 'd \<Rightarrow> 'd lens_result"
where
  "b_repeat inp here xbits base s d =
     (case b_needbits inp (unat (code_bits here) + xbits) s d of (ok, s, d) \<Rightarrow>
        if \<not> ok then BL_leave s d
        else
          (let s = dropbits (unat (code_bits here)) s in
           if code_val here = 16 \<and> i_have s = 0 then BL_bad ''invalid bit length repeat'' s d
           else
             (let len = (if code_val here = 16 then i_lens s ! (i_have s - 1) else 0);
                  copy = base + bits_val xbits s;
                  s = dropbits xbits s
              in if i_have s + copy > i_nlen s + i_ndist s then BL_bad ''invalid bit length repeat'' s d
                 else BL_done (s\<lparr>i_lens := foldl (\<lambda>lens k. lens[k := len]) (i_lens s) [i_have s..<i_have s + copy],
                                 i_have := i_have s + copy\<rparr>) d)))"

definition b_lens_step :: "('d \<Rightarrow> u8 list \<times> 'd) \<Rightarrow> z_inflate \<Rightarrow> 'd \<Rightarrow> 'd lens_result" where
  "b_lens_step inp s d =
     (case b_code inp (\<lambda>s. code_at s (i_lencode s) (bits_val (i_lenbits s) s)) 0 s d of
        (None, s, d) \<Rightarrow> BL_leave s d
      | (Some here, s, d) \<Rightarrow>
          if unat (code_val here) < 16 then
            (let s = dropbits (unat (code_bits here)) s
             in BL_done (s\<lparr>i_lens := (i_lens s)[i_have s := unat (code_val here)], i_have := i_have s + 1\<rparr>) d)
          else if code_val here = 16 then b_repeat inp here 2 3 s d
          else if code_val here = 17 then b_repeat inp here 3 3 s d
          else b_repeat inp here 7 11 s d)"

lemma b_repeat_have:
  assumes "b_repeat inp here xbits base s d = BL_done t e" "0 < base"
  shows "i_nlen t = i_nlen s \<and> i_ndist t = i_ndist s \<and> i_have s < i_have t"
proof -
  obtain ok u g where n: "b_needbits inp (unat (code_bits here) + xbits) s d = (ok, u, g)"
    by (cases "b_needbits inp (unat (code_bits here) + xbits) s d")
  then have "i_have u = i_have s \<and> i_nlen u = i_nlen s \<and> i_ndist u = i_ndist s"
    using b_needbits_have [of inp "unat (code_bits here) + xbits" s d] by simp
  then show ?thesis using assms n by (auto simp: b_repeat_def Let_def dropbits_def split: if_splits)
qed

lemma b_lens_step_have:
  assumes "b_lens_step inp s d = BL_done t e"
  shows "i_nlen t = i_nlen s \<and> i_ndist t = i_ndist s \<and> i_have s < i_have t"
proof -
  let ?get = "\<lambda>s. code_at s (i_lencode s) (bits_val (i_lenbits s) s)"
  obtain h u g where p: "b_code inp ?get 0 s d = (h, u, g)" by (cases "b_code inp ?get 0 s d")
  then have u: "i_have u = i_have s" "i_nlen u = i_nlen s" "i_ndist u = i_ndist s"
    using b_code_have [of inp ?get 0 s d] by simp_all
  show ?thesis
    using assms p u b_repeat_have [of inp _ _ _ u g t e]
    by (auto simp: b_lens_step_def Let_def dropbits_def split: option.splits if_splits)
qed

text \<open>\<open>while (state->have < state->nlen + state->ndist)\<close>, until it ends or breaks.\<close>

function b_lens_loop :: "('d \<Rightarrow> u8 list \<times> 'd) \<Rightarrow> z_inflate \<Rightarrow> 'd \<Rightarrow> 'd lens_result" where
  "b_lens_loop inp s d =
     (if i_have s < i_nlen s + i_ndist s then
        (case b_lens_step inp s d of BL_done s d \<Rightarrow> b_lens_loop inp s d | r \<Rightarrow> r)
      else BL_done s d)"
  by pat_completeness auto
termination
  by (relation "measure (\<lambda>(inp, s, d). i_nlen s + i_ndist s - i_have s)") (auto dest: b_lens_step_have)

declare b_lens_loop.simps [simp del]

text \<open>The two tables of a dynamic block.\<close>

definition b_tables :: "z_inflate \<Rightarrow> 'd \<Rightarrow> 'd back_outcome" where
  "b_tables s d =
     (if i_lens s ! 256 = 0 then b_bad ''invalid code -- missing end-of-block'' s d
      else
        (let s = s\<lparr>i_next := 0, i_lencode := Codes 0, i_lenbits := 9\<rparr> in
         case inflate_table LENS (take (i_nlen s) (i_lens s)) (i_codes s) (i_next s) (i_lenbits s) (i_work s) of
           None \<Rightarrow> B_stuck
         | Some r \<Rightarrow>
             (let s = s\<lparr>i_codes := r_tab r, i_next := r_next r, i_lenbits := r_bits r, i_work := r_work r,
                        l_ret := r_ret r\<rparr> in
              if l_ret s \<noteq> 0 then b_bad ''invalid literal/lengths set'' s d
              else
                (let s = s\<lparr>i_distcode := Codes (i_next s), i_distbits := 6\<rparr> in
                 case inflate_table DISTS (take (i_ndist s) (drop (i_nlen s) (i_lens s))) (i_codes s)
                        (i_next s) (i_distbits s) (i_work s) of
                   None \<Rightarrow> B_stuck
                 | Some r \<Rightarrow>
                     (let s = s\<lparr>i_codes := r_tab r, i_next := r_next r, i_distbits := r_bits r,
                                i_work := r_work r, l_ret := r_ret r\<rparr>
                      in if l_ret s \<noteq> 0 then b_bad ''invalid distances set'' s d
                         else B_next (s\<lparr>i_mode := LEN\<rparr>) d)))))"

definition b_TABLE :: "('d \<Rightarrow> u8 list \<times> 'd) \<Rightarrow> z_inflate \<Rightarrow> 'd \<Rightarrow> 'd back_outcome" where
  "b_TABLE inp s d = b_bits inp 14 s d (\<lambda>s d.
     let s = dropbits 5 (s\<lparr>i_nlen := bits_val 5 s + 257\<rparr>);
         s = dropbits 5 (s\<lparr>i_ndist := bits_val 5 s + 1\<rparr>);
         s = dropbits 4 (s\<lparr>i_ncode := bits_val 4 s + 4\<rparr>)
     in if i_nlen s > 286 \<or> i_ndist s > 30 then b_bad ''too many length or distance symbols'' s d
        else
          (case b_lenlens_loop inp (s\<lparr>i_have := 0\<rparr>) d of (ok, s, d) \<Rightarrow>
             if \<not> ok then B_leave True s d
             else
               (let s = s\<lparr>i_lens := foldl (\<lambda>lens k. lens[order ! k := 0]) (i_lens s) [i_have s..<19],
                          i_have := (if i_have s < 19 then 19 else i_have s)\<rparr>;
                    s = s\<lparr>i_next := 0, i_lencode := Codes 0, i_lenbits := 7\<rparr>
                in case inflate_table CODES (take 19 (i_lens s)) (i_codes s) (i_next s) (i_lenbits s) (i_work s) of
                     None \<Rightarrow> B_stuck
                   | Some r \<Rightarrow>
                       (let s = s\<lparr>i_codes := r_tab r, i_next := r_next r, i_lenbits := r_bits r, i_work := r_work r,
                                  l_ret := r_ret r\<rparr>
                        in if l_ret s \<noteq> 0 then b_bad ''invalid code lengths set'' s d
                           else
                             (case b_lens_loop inp (s\<lparr>i_have := 0\<rparr>) d of
                                BL_leave s d \<Rightarrow> B_leave True s d
                              | BL_bad m s d \<Rightarrow> b_bad m s d
                              | BL_done s d \<Rightarrow> b_tables s d)))))"

section \<open>Symbols and matches\<close>

text \<open>The extra bits of a length or a distance.\<close>

definition b_extra ::
  "('d \<Rightarrow> u8 list \<times> 'd) \<Rightarrow> nat \<Rightarrow> z_inflate \<Rightarrow> 'd \<Rightarrow> (nat \<Rightarrow> z_inflate \<Rightarrow> 'd \<Rightarrow> 'd back_outcome) \<Rightarrow> 'd back_outcome"
where
  "b_extra inp n s d k =
     (let s = s\<lparr>i_extra := n\<rparr>
      in if n \<noteq> 0 then b_bits inp n s d (\<lambda>s d. k (bits_val n s) (dropbits n s) d) else k 0 s d)"

text \<open>\<open>do { ROOM(); ... } while (state->length != 0);\<close> a copy of no bytes would run off.\<close>

function b_copy :: "(u8 list \<Rightarrow> 'd \<Rightarrow> bool \<times> 'd) \<Rightarrow> z_inflate \<Rightarrow> 'd \<Rightarrow> 'd back_outcome" where
  "b_copy outp s d =
     (case b_room outp s d of (ok, s1, d1) \<Rightarrow>
        if \<not> ok then B_leave False s1 d1
        else
          (let old = i_wsize s1 - i_offset s1;
               (from_window, copy) =
                 (if old < avail_out s1 then (True, avail_out s1 - old) else (False, avail_out s1));
               copy = (if copy > i_length s then i_length s else copy)
           in if copy = 0 then B_stuck
              else
                (let out = (if from_window then window_copy (the (i_window s1)) (length (put s1) + old) copy (put s1)
                            else lz_copy (i_offset s1) copy (put s1));
                     t = s1\<lparr>i_length := i_length s - copy, avail_out := avail_out s1 - copy, put := out\<rparr>
                 in if i_length t \<noteq> 0 then b_copy outp t d1 else B_next t d1)))"
  by pat_completeness auto
termination
  by (relation "measure (\<lambda>(outp, s, d). i_length s)") auto

declare b_copy.simps [simp del]

definition b_distance ::
  "('d \<Rightarrow> u8 list \<times> 'd) \<Rightarrow> (u8 list \<Rightarrow> 'd \<Rightarrow> bool \<times> 'd) \<Rightarrow> z_inflate \<Rightarrow> 'd \<Rightarrow> 'd back_outcome"
where
  "b_distance inp outp s d =
     (case b_code inp (\<lambda>s. code_at s (i_distcode s) (bits_val (i_distbits s) s)) 0 s d of
        (None, s, d) \<Rightarrow> B_leave True s d
      | (Some here, s, d) \<Rightarrow>
          (case (if code_op here AND 0xf0 = 0 then b_second inp (i_distcode s) here s d else (Some here, s, d)) of
             (None, s, d) \<Rightarrow> B_leave True s d
           | (Some here, s, d) \<Rightarrow>
               (let s = dropbits (unat (code_bits here)) s
                in if code_op here AND 64 \<noteq> 0 then b_bad ''invalid distance code'' s d
                   else b_extra inp (unat (code_op here AND 15)) (s\<lparr>i_offset := unat (code_val here)\<rparr>) d
                     (\<lambda>x s d.
                        let s = s\<lparr>i_offset := i_offset s + x\<rparr>
                        in if i_offset s > i_wsize s - (if i_whave s < i_wsize s then avail_out s else 0)
                           then b_bad ''invalid distance too far back'' s d
                           else b_copy outp s d))))"

definition b_LEN ::
  "('d \<Rightarrow> u8 list \<times> 'd) \<Rightarrow> (u8 list \<Rightarrow> 'd \<Rightarrow> bool \<times> 'd) \<Rightarrow> z_inflate \<Rightarrow> 'd \<Rightarrow> 'd back_outcome"
where
  "b_LEN inp outp s d =
     (if length (next_in s) \<ge> 6 \<and> avail_out s \<ge> 258 then
        (let s = (if i_whave s < i_wsize s then s\<lparr>i_whave := i_wsize s - avail_out s\<rparr> else s)
         in case inflate_fast (avail_out s + 8) (i_wsize s) s of
              None \<Rightarrow> B_stuck
            | Some s \<Rightarrow> B_next s d)
      else
        (case b_code inp (\<lambda>s. code_at s (i_lencode s) (bits_val (i_lenbits s) s)) 0 s d of
           (None, s, d) \<Rightarrow> B_leave True s d
         | (Some here, s, d) \<Rightarrow>
             (case (if code_op here \<noteq> 0 \<and> code_op here AND 0xf0 = 0 then b_second inp (i_lencode s) here s d
                    else (Some here, s, d)) of
                (None, s, d) \<Rightarrow> B_leave True s d
              | (Some here, s, d) \<Rightarrow>
                  (let s = (dropbits (unat (code_bits here)) s)\<lparr>i_length := unat (code_val here)\<rparr>
                   in if code_op here = 0 then
                        (case b_room outp s d of (ok, s, d) \<Rightarrow>
                           if \<not> ok then B_leave False s d
                           else B_next (s\<lparr>put := put s @ [word_of_nat (i_length s)], avail_out := avail_out s - 1,
                                          i_mode := LEN\<rparr>) d)
                      else if code_op here AND 32 \<noteq> 0 then B_next (s\<lparr>i_mode := TYPE_state\<rparr>) d
                      else if code_op here AND 64 \<noteq> 0 then b_bad ''invalid literal/length code'' s d
                      else b_extra inp (unat (code_op here AND 15)) s d
                        (\<lambda>x s d. b_distance inp outp (s\<lparr>i_length := i_length s + x\<rparr>) d)))))"

section \<open>The machine\<close>

definition b_DONE :: "(u8 list \<Rightarrow> 'd \<Rightarrow> bool \<times> 'd) \<Rightarrow> z_inflate \<Rightarrow> 'd \<Rightarrow> 'd back_outcome" where
  "b_DONE outp s d =
     (let s = s\<lparr>l_ret := Z_STREAM_END\<rparr>
      in if avail_out s < i_wsize s then
           (let (failed, d) = outp (put s) d in B_leave False (if failed then s\<lparr>l_ret := Z_BUF_ERROR\<rparr> else s) d)
         else B_leave False s d)"

definition back_step ::
  "('d \<Rightarrow> u8 list \<times> 'd) \<Rightarrow> (u8 list \<Rightarrow> 'd \<Rightarrow> bool \<times> 'd) \<Rightarrow> z_inflate \<Rightarrow> 'd \<Rightarrow> 'd back_outcome"
where
  "back_step inp outp s d =
     (if i_mode s = TYPE_state then b_TYPE inp s d
      else if i_mode s = STORED then b_STORED inp outp s d
      else if i_mode s = TABLE then b_TABLE inp s d
      else if i_mode s = LEN then b_LEN inp outp s d
      else if i_mode s = DONE then b_DONE outp s d
      else if i_mode s = BAD then B_leave False (s\<lparr>l_ret := Z_DATA_ERROR\<rparr>) d
      else B_leave False (s\<lparr>l_ret := Z_STREAM_ERROR\<rparr>) d)"

fun back_loop ::
  "nat \<Rightarrow> ('d \<Rightarrow> u8 list \<times> 'd) \<Rightarrow> (u8 list \<Rightarrow> 'd \<Rightarrow> bool \<times> 'd) \<Rightarrow> z_inflate \<Rightarrow> 'd \<Rightarrow> 'd back_outcome"
where
  "back_loop 0 inp outp s d = B_stuck"
| "back_loop (Suc fuel) inp outp s d =
     (case back_step inp outp s d of B_next s d \<Rightarrow> back_loop fuel inp outp s d | r \<Rightarrow> r)"

text \<open>The value, whether \<open>strm->next_in\<close> is \<open>Z_NULL\<close> after the call, the stream (\<open>next_in\<close> is the unused input) and
  what the descriptors point to; \<open>None\<close> is out of fuel.\<close>

definition inflateBack ::
  "nat \<Rightarrow> ('d \<Rightarrow> u8 list \<times> 'd) \<Rightarrow> (u8 list \<Rightarrow> 'd \<Rightarrow> bool \<times> 'd) \<Rightarrow> z_inflate \<Rightarrow> 'd \<Rightarrow> (int \<times> bool \<times> z_inflate \<times> 'd) option"
where
  "inflateBack fuel inp outp s d =
     (if \<not> z_ready s then Some (Z_STREAM_ERROR, False, s, d)
      else
        (let s = s\<lparr>msg := None, i_mode := TYPE_state, i_last := 0, i_whave := 0, i_hold := 0, i_bits := 0,
                   i_window := Some (put s @ drop (length (put s)) (the (i_window s))), put := [], avail_out := i_wsize s\<rparr>
         in case back_loop fuel inp outp s d of
              B_leave null s d \<Rightarrow> Some (l_ret s, null, s, d)
            | _ \<Rightarrow> None))"

definition inflateBackEnd :: "z_inflate \<Rightarrow> int \<times> z_inflate" where
  "inflateBackEnd s = (if \<not> z_ready s then (Z_STREAM_ERROR, s) else (Z_OK, s\<lparr>z_ready := False\<rparr>))"

section \<open>The callback and the stream\<close>

text \<open>A callback that hands out the pieces of a list reads the same bits as \<open>inflate()\<close> reads from the pieces put
  together, wherever the cuts are.\<close>

fun feed :: "u8 list list \<Rightarrow> u8 list \<times> u8 list list" where
  "feed [] = ([], [])"
| "feed (c # cs) = (c, cs)"

definition joined :: "z_inflate \<Rightarrow> u8 list list \<Rightarrow> z_inflate" where
  "joined s cs = s\<lparr>next_in := next_in s @ concat cs\<rparr>"

lemma joined_simps [simp]:
  "next_in (joined s cs) = next_in s @ concat cs" "i_bits (joined s cs) = i_bits s" "i_hold (joined s cs) = i_hold s"
  "joined s [] = s"
  by (simp_all add: joined_def)

lemma b_pullbyte_feed:
  assumes "b_pullbyte feed s cs = (ok, t, cs')" "[] \<notin> set cs"
  shows "[] \<notin> set cs'" "ok \<Longrightarrow> \<exists>b rest. next_in (joined s cs) = b # rest \<and> joined t cs' = pull_byte b rest (joined s cs)"
    "\<not> ok \<Longrightarrow> next_in s = [] \<and> cs = [] \<and> t = s\<lparr>l_ret := Z_BUF_ERROR\<rparr> \<and> cs' = cs"
proof -
  have "[] \<notin> set cs' \<and> (if ok then \<exists>b rest. next_in (joined s cs) = b # rest \<and> joined t cs' = pull_byte b rest (joined s cs)
      else next_in s = [] \<and> cs = [] \<and> t = s\<lparr>l_ret := Z_BUF_ERROR\<rparr> \<and> cs' = cs)"
  proof (cases "next_in s")
    case (Cons b rest)
    then have "b_pullbyte feed s cs = (True, pull_byte b rest s, cs)" by (simp add: b_pullbyte_def b_pull_def)
    then show ?thesis using assms Cons by (simp add: joined_def pull_byte_def)
  next
    case Nil
    show ?thesis
    proof (cases cs)
      case cs: Nil
      then have "b_pullbyte feed s cs = (False, s\<lparr>l_ret := Z_BUF_ERROR\<rparr>, cs)"
        using Nil by (simp add: b_pullbyte_def b_pull_def)
      then show ?thesis using assms Nil cs by simp
    next
      case (Cons c rest)
      then obtain b bs where c: "c = b # bs" using assms(2) by (cases c) auto
      have "b_pullbyte feed s cs = (True, pull_byte b bs (s\<lparr>next_in := c\<rparr>), rest)"
        using Nil Cons c by (simp add: b_pullbyte_def b_pull_def)
      then have "ok" "t = pull_byte b bs (s\<lparr>next_in := c\<rparr>)" "cs' = rest" using assms(1) by simp_all
      then show ?thesis using assms(2) Nil Cons c by (simp add: joined_def pull_byte_def)
    qed
  qed
  then show "[] \<notin> set cs'" "ok \<Longrightarrow> \<exists>b rest. next_in (joined s cs) = b # rest \<and> joined t cs' = pull_byte b rest (joined s cs)"
    "\<not> ok \<Longrightarrow> next_in s = [] \<and> cs = [] \<and> t = s\<lparr>l_ret := Z_BUF_ERROR\<rparr> \<and> cs' = cs" by simp_all
qed

lemma b_needbits_feed:
  "b_needbits feed n s cs = (ok, t, cs') \<Longrightarrow> [] \<notin> set cs \<Longrightarrow>
    [] \<notin> set cs' \<and>
    (if ok then needbits n (joined s cs) = (True, joined t cs')
     else fst (needbits n (joined s cs)) = False \<and> l_ret t = Z_BUF_ERROR \<and> next_in t = [] \<and> cs' = [])"
proof (induction "n - i_bits s" arbitrary: s cs rule: less_induct)
  case (less s cs)
  obtain ok1 u cs1 where p: "b_pullbyte feed s cs = (ok1, u, cs1)" by (cases "b_pullbyte feed s cs")
  note f = b_pullbyte_feed [OF p less.prems(2)]
  show ?case
  proof (cases "i_bits s < n")
    case need: True
    show ?thesis
    proof (cases ok1)
      case True
      then obtain b rest where b: "next_in (joined s cs) = b # rest" "joined u cs1 = pull_byte b rest (joined s cs)"
        using f(2) by blast
      have bits: "i_bits u = i_bits s + 8" using p True by (auto intro: b_pullbyte_bits)
      have n1: "needbits n (joined s cs) = needbits n (joined u cs1)"
      proof -
        have "needbits n (joined s cs) = needbits n (pull_byte b rest (joined s cs))"
          using need b(1) by (subst needbits.simps) simp
        then show ?thesis unfolding b(2) .
      qed
      have r: "b_needbits feed n u cs1 = (ok, t, cs')"
        using less.prems(1) need p True by (subst (asm) b_needbits.simps) simp
      have lt: "n - i_bits u < n - i_bits s" using need bits by simp
      show ?thesis unfolding n1 by (rule less.hyps [OF lt r f(1)])
    next
      case False
      then have e: "next_in s = []" "cs = []" "u = s\<lparr>l_ret := Z_BUF_ERROR\<rparr>" "cs1 = cs" using f(3) by simp_all
      have "b_needbits feed n s cs = (False, u, cs)"
        using need p False e by (subst b_needbits.simps) simp
      then have "ok = False" "t = u" "cs' = cs" using less.prems(1) by simp_all
      moreover have "needbits n (joined s cs) = (False, joined s cs)"
        using need e by (subst needbits.simps) simp
      ultimately show ?thesis using e by simp
    qed
  next
    case False
    have "b_needbits feed n s cs = (True, s, cs)" using False by (subst b_needbits.simps) simp
    moreover have "needbits n (joined s cs) = (True, joined s cs)" using False by (subst needbits.simps) simp
    ultimately show ?thesis using less.prems by simp
  qed
qed

text \<open>More fuel does not change an outcome.\<close>

lemma back_loop_more: "back_loop n inp outp s d \<noteq> B_stuck \<Longrightarrow> back_loop (n + k) inp outp s d = back_loop n inp outp s d"
  by (induction n inp outp s d rule: back_loop.induct) (auto split: back_outcome.splits)

text \<open>The copy in one memory, as the code makes it: \<open>do { *put++ = *from++; } while (--copy);\<close> with both pointers into
  the window gives the lap and the rest of the window that the model keeps apart.\<close>

fun memory_copy :: "nat \<Rightarrow> nat \<Rightarrow> nat \<Rightarrow> u8 list \<Rightarrow> u8 list" where
  "memory_copy dst src 0 m = m"
| "memory_copy dst src (Suc n) m = memory_copy (dst + 1) (src + 1) n (m[dst := m ! src])"

lemma lap_update: "length out < length W \<Longrightarrow>
    (out @ drop (length out) W)[length out := b] = (out @ [b]) @ drop (length (out @ [b])) W"
  by (simp add: list_update_append Cons_nth_drop_Suc [symmetric])

lemma lap_copy_window:
  "length out \<le> src \<Longrightarrow> src + n \<le> length W \<Longrightarrow>
    memory_copy (length out) src n (out @ drop (length out) W) =
      window_copy W src n out @ drop (length (window_copy W src n out)) W"
proof (induction n arbitrary: out src)
  case (Suc n)
  let ?b = "W ! src"
  have read: "(out @ drop (length out) W) ! src = ?b" using Suc.prems by (simp add: nth_append)
  have "length out < length W" using Suc.prems by simp
  then have upd: "(out @ drop (length out) W)[length out := ?b] = (out @ [?b]) @ drop (length (out @ [?b])) W" by (rule lap_update)
  have "window_copy W (src + 1) n (out @ [?b]) = window_copy W src (Suc n) out"
    using Suc.prems by (simp add: window_copy_def Cons_nth_drop_Suc [symmetric])
  then show ?case
    using Suc.IH [of "out @ [?b]" "src + 1"] Suc.prems read upd by simp
qed (simp add: window_copy_def)

lemma lap_copy_output:
  "1 \<le> dist \<Longrightarrow> dist \<le> length out \<Longrightarrow> length out + n \<le> length W \<Longrightarrow>
    memory_copy (length out) (length out - dist) n (out @ drop (length out) W) =
      lz_copy dist n out @ drop (length (lz_copy dist n out)) W"
proof (induction n arbitrary: out)
  case (Suc n)
  let ?b = "out ! (length out - dist)"
  have "length out - dist < length out" using Suc.prems by linarith
  then have read: "(out @ drop (length out) W) ! (length out - dist) = ?b" by (rule nth_append_left)
  have "length out < length W" using Suc.prems by simp
  then have upd: "(out @ drop (length out) W)[length out := ?b] = (out @ [?b]) @ drop (length (out @ [?b])) W" by (rule lap_update)
  have "length (out @ [?b]) - dist = length out - dist + 1" using Suc.prems by simp
  then show ?case
    using Suc.IH [of "out @ [?b]"] Suc.prems read upd by simp
qed simp

end
