(* ===== verification/Block_Frame.thy ===== *)
theory Block_Frame
  imports Tree_Send
begin

text \<open>
  What writing a block leaves alone: \<open>_tr_flush_block\<close> and the functions under it
  (\<open>src/src/zlib/trees.c\<close>) change the trees, the lengths and the output, but not the buffers of symbols,
  the parameters, or the part of \<open>deflate_state\<close> that belongs to \<open>deflate.c\<close>.
\<close>

definition block_frame where
  "block_frame s = (l_buf s, d_buf s, lit_bufsize s, level s, strategy s, tree_state.more s)"

lemma frame_more: "bit_state.more s = bit_state.more t \<Longrightarrow>
    block_frame s = block_frame t \<and> last_lit s = last_lit t"
  by (cases s; cases t) (simp add: block_frame_def)

lemma frame_update [simp]:
  "block_frame (s\<lparr>heap := x1\<rparr>) = block_frame s" "block_frame (s\<lparr>heap_len := x2\<rparr>) = block_frame s"
  "block_frame (s\<lparr>heap_max := x2\<rparr>) = block_frame s" "block_frame (s\<lparr>depth := x3\<rparr>) = block_frame s"
  "block_frame (s\<lparr>bl_count := x4\<rparr>) = block_frame s" "block_frame (s\<lparr>opt_len := x5\<rparr>) = block_frame s"
  "block_frame (s\<lparr>static_len := x5\<rparr>) = block_frame s" "block_frame (s\<lparr>dyn_ltree := x6\<rparr>) = block_frame s"
  "block_frame (s\<lparr>dyn_dtree := x6\<rparr>) = block_frame s" "block_frame (s\<lparr>bl_tree := x6\<rparr>) = block_frame s"
  "block_frame (s\<lparr>data_type := x7\<rparr>) = block_frame s" "block_frame (s\<lparr>last_lit := x2\<rparr>) = block_frame s"
  "block_frame (s\<lparr>matches := x8\<rparr>) = block_frame s" "block_frame (s\<lparr>pending_buf := x9\<rparr>) = block_frame s"
  "block_frame (s\<lparr>bi_buf := x10\<rparr>) = block_frame s" "block_frame (s\<lparr>bi_valid := x2\<rparr>) = block_frame s"
  by (simp_all add: block_frame_def)

lemma frame_tree [simp]:
  "block_frame (set_dyn_tree d t s) = block_frame s" "block_frame (set_max_code d m s) = block_frame s"
  by (cases d; simp add: block_frame_def)+

lemma frame_bits [simp]:
  "block_frame (send_bits s v n) = block_frame s" "block_frame (bi_windup s) = block_frame s"
  "block_frame (bi_flush s) = block_frame s" "block_frame (put_short s w) = block_frame s"
  "block_frame (put_byte s c) = block_frame s" "block_frame (send_code s k t) = block_frame s"
  by (simp_all add: send_bits_def bi_windup_def bi_flush_def put_short_def put_byte_def send_code_def Let_def)

lemma fold_frame: "(\<And>s x. block_frame (f s x) = block_frame s) \<Longrightarrow> block_frame (foldl f s xs) = block_frame s"
  by (induction xs arbitrary: s) simp_all

lemma fold_frame_fst:
  "(\<And>b x. block_frame (fst (f b x)) = block_frame (fst b)) \<Longrightarrow> block_frame (fst (foldl f b xs)) = block_frame (fst b)"
  by (induction xs arbitrary: b) simp_all

section \<open>Building trees\<close>

lemma pqdownheap_frame [simp]: "block_frame (pqdownheap t k s) = block_frame s"
  by (simp add: pqdownheap_def)

lemma heapify_frame [simp]: "block_frame (heapify t n s) = block_frame s"
  by (induction n arbitrary: s) simp_all

lemma combine_step_frame [simp]: "block_frame (combine_step d s node) = block_frame s"
  by (simp add: combine_step_def pqremove_def Let_def)

lemma combine_loop_frame [simp]: "block_frame (combine_loop d s node) = block_frame s"
proof (induction d s node rule: combine_loop.induct)
  case (1 d s node)
  then show ?case by (subst combine_loop.simps) (simp add: Let_def)
qed

lemma force_two_frame [simp]: "block_frame (fst (force_two d s m)) = block_frame s"
proof (induction d s m rule: force_two.induct)
  case (1 d s m)
  then show ?case by (subst force_two.simps) (simp add: Let_def split: option.split)
qed

lemma init_heap_frame [simp]:
  "block_frame (fst (foldl (init_heap_step d) b xs)) = block_frame (fst b)"
  by (rule fold_frame_fst) (simp add: init_heap_step_def split: prod.split)

lemma bitlen_frame [simp]:
  "block_frame (fst (foldl (bitlen_step d) b xs)) = block_frame (fst b)"
  by (rule fold_frame_fst) (simp add: bitlen_step_def Let_def split: prod.split option.split)

lemma gen_bitlen_frame [simp]: "block_frame (gen_bitlen d s) = block_frame s"
proof -
  let ?u = "set_dyn_tree d (set_Len (dyn_tree d (s\<lparr>bl_count := replicate (MAX_BITS + 1) 0\<rparr>)) (heap s ! heap_max s) 0)
    (s\<lparr>bl_count := replicate (MAX_BITS + 1) 0\<rparr>)"
  have "block_frame (fst (foldl (bitlen_step d) (?u, 0) [heap_max s + 1..<HEAP_SIZE])) = block_frame s"
    by simp
  then show ?thesis by (auto simp: gen_bitlen_def Let_def case_prod_unfold)
qed

lemma build_tree_frame [simp]: "block_frame (build_tree d s) = block_frame s"
proof -
  let ?u = "s\<lparr>heap_len := 0, heap_max := HEAP_SIZE\<rparr>"
  have "block_frame (fst (foldl (init_heap_step d) (?u, -1) [0..<elems (stat_desc d)])) = block_frame s"
    by simp
  then show ?thesis by (simp add: build_tree_def Let_def case_prod_unfold)
qed

lemma scan_tree_frame [simp]: "block_frame (scan_tree d m s) = block_frame s"
  by (simp add: scan_tree_def Let_def)

lemma build_bl_tree_frame [simp]: "block_frame (snd (build_bl_tree s)) = block_frame s"
  by (simp add: build_bl_tree_def Let_def)

section \<open>Sending\<close>

lemma send_codes_frame: "block_frame (((\<lambda>s. send_code s c bl) ^^ n) s) = block_frame s"
  by (induction n) simp_all

lemma send_steps_frame: "block_frame (fst (foldl (send_step bl tree) b ns)) = block_frame (fst b)"
  by (rule fold_frame_fst) (simp add: send_step_def Let_def send_codes_frame split: prod.split)

lemma send_tree_frame [simp]: "block_frame (send_tree bl tree m s) = block_frame s"
  by (simp add: send_tree_def send_steps_frame)

lemma send_all_trees_frame [simp]: "block_frame (send_all_trees l d b s) = block_frame s"
  by (simp add: send_all_trees_def Let_def fold_frame)

lemma compress_sym_frame [simp]: "block_frame (compress_sym lt dt s lx) = block_frame s"
  by (simp add: compress_sym_def Let_def)

lemma compress_block_frame [simp]: "block_frame (compress_block lt dt s) = block_frame s"
  by (simp add: compress_block_def fold_frame)

lemma tr_stored_block_frame [simp]: "block_frame (tr_stored_block s buf n l) = block_frame s"
  by (simp add: tr_stored_block_def Let_def)

lemma flush_lengths_frame:
  "flush_lengths s n = (a, b, c, t) \<Longrightarrow> block_frame t = block_frame s"
proof -
  assume a: "flush_lengths s n = (a, b, c, t)"
  let ?u = "build_tree D_DESC (build_tree L_DESC
    (if data_type s = Z_UNKNOWN then s\<lparr>data_type := detect_data_type s\<rparr> else s))"
  have u: "block_frame (snd (build_bl_tree ?u)) = block_frame s" by simp
  show ?thesis
  proof (cases "level s > 0")
    case True
    then have "t = snd (build_bl_tree ?u)"
      using a by (simp add: flush_lengths_def Let_def case_prod_unfold)
    with u show ?thesis by simp
  next
    case False
    then show ?thesis using a by (simp add: flush_lengths_def)
  qed
qed

lemma init_block_frame [simp]:
  "block_frame (init_block s) = block_frame s" "last_lit (init_block s) = 0"
  by (simp_all add: init_block_def Let_def)

text \<open>A block, and the collection of symbols starts anew.\<close>

lemma tr_flush_block_frame [simp]: "block_frame (tr_flush_block s buf n l) = block_frame s"
proof -
  obtain a b c t where f: "flush_lengths s n = (a, b, c, t)" by (cases "flush_lengths s n")
  show ?thesis using flush_lengths_frame [OF f] by (simp add: tr_flush_block_def f Let_def)
qed

lemma tr_flush_block_last_lit [simp]: "last_lit (tr_flush_block s buf n l) = 0"
proof -
  have "last_lit (bi_windup s) = last_lit s" for s :: "'a tree_state_scheme"
    by (rule conjunct2 [OF frame_more]) simp
  then show ?thesis by (simp add: tr_flush_block_def Let_def split: prod.split)
qed

end
