(* ===== verification/Deflate_State.thy ===== *)
theory Deflate_State
  imports Block_Frame Inflate_Api
begin

text \<open>
  The state of the compressor, \<open>src/src/zlib/deflate.c\<close> and \<open>deflate.h\<close>, in the build with \<open>GZIP\<close>,
  without \<open>FASTEST\<close>, \<open>UNALIGNED_OK\<close> and \<open>ZLIB_DEBUG\<close>; the hash table, the copying of input and the
  flushing of output.

  \<open>deflate_state\<close> extends the part that \<open>trees.c\<close> uses.  The fields of the \<open>z_stream\<close> are in the same
  record with the prefix \<open>strm\<close>: \<open>strm_next_in\<close> is the rest of the input, so \<open>avail_in\<close> is its length,
  \<open>strm_out\<close> is what has been written to \<open>next_out\<close>.  The buffers are not null.  \<open>pending_buf\<close> is the list of
  the bytes from \<open>pending_out\<close> on; \<open>put_byte\<close> appends to it, which is the place \<open>pending_buf[pending]\<close> of the
  code while \<open>pending_out\<close> is 0.  \<open>d_buf\<close> and \<open>l_buf\<close>, which lie inside \<open>pending_buf\<close>, hold the symbols as they
  were stored, when nothing is pending; \<open>compress_block\<close> reads them through the pending bytes that lie over them.
  Indices and counts are natural numbers; \<open>match_start\<close> and \<open>prev_match\<close>, which may hold garbage that
  wraps around, and the chain length, which is counted down through 0, are words.
\<close>

section \<open>Constants\<close>

definition MIN_MATCH :: nat where "MIN_MATCH = 3"
definition MAX_MATCH :: nat where "MAX_MATCH = 258"
definition MIN_LOOKAHEAD :: nat where "MIN_LOOKAHEAD = MAX_MATCH + MIN_MATCH + 1"
definition WIN_INIT :: nat where "WIN_INIT = MAX_MATCH"
definition NIL :: nat where "NIL = 0"
definition TOO_FAR :: nat where "TOO_FAR = 4096"
definition PRESET_DICT :: nat where "PRESET_DICT = 0x20"
definition MAX_STORED :: nat where "MAX_STORED = 65535"

definition Z_DEFAULT_STRATEGY :: int where "Z_DEFAULT_STRATEGY = 0"
definition Z_FILTERED :: int where "Z_FILTERED = 1"
definition Z_HUFFMAN_ONLY :: int where "Z_HUFFMAN_ONLY = 2"
definition Z_RLE :: int where "Z_RLE = 3"
definition Z_DEFAULT_COMPRESSION :: int where "Z_DEFAULT_COMPRESSION = - 1"

definition INIT_STATE :: int where "INIT_STATE = 42"
definition GZIP_STATE :: int where "GZIP_STATE = 57"
definition EXTRA_STATE :: int where "EXTRA_STATE = 69"
definition NAME_STATE :: int where "NAME_STATE = 73"
definition COMMENT_STATE :: int where "COMMENT_STATE = 91"
definition HCRC_STATE :: int where "HCRC_STATE = 103"
definition BUSY_STATE :: int where "BUSY_STATE = 113"
definition FINISH_STATE :: int where "FINISH_STATE = 666"

lemmas match_consts = MIN_MATCH_def MAX_MATCH_def MIN_LOOKAHEAD_def WIN_INIT_def NIL_def

lemmas status_consts = INIT_STATE_def GZIP_STATE_def EXTRA_STATE_def NAME_STATE_def
  COMMENT_STATE_def HCRC_STATE_def BUSY_STATE_def FINISH_STATE_def

lemmas strategy_consts = Z_DEFAULT_STRATEGY_def Z_FILTERED_def Z_HUFFMAN_ONLY_def Z_RLE_def Z_FIXED_def

datatype block_state = need_more | block_done | finish_started | finish_done

datatype compress_func = Deflate_stored | Deflate_fast | Deflate_slow

record config =
  good_length :: nat
  max_lazy :: nat
  nice_length :: nat
  max_chain :: nat
  func :: compress_func

abbreviation "cfg g l n c f \<equiv> \<lparr>good_length = g, max_lazy = l, nice_length = n, max_chain = c, func = f\<rparr>"

definition configuration_table :: "config list" where
  "configuration_table =
    [cfg 0 0 0 0 Deflate_stored, cfg 4 4 8 4 Deflate_fast, cfg 4 5 16 8 Deflate_fast,
     cfg 4 6 32 32 Deflate_fast, cfg 4 4 16 16 Deflate_slow, cfg 8 16 32 32 Deflate_slow,
     cfg 8 16 128 128 Deflate_slow, cfg 8 32 128 256 Deflate_slow,
     cfg 32 128 258 1024 Deflate_slow, cfg 32 258 258 4096 Deflate_slow]"

text \<open>\<open>z_errmsg\<close> of \<open>zutil.c\<close> and the macro \<open>ERR_MSG\<close>.\<close>

definition z_errmsg :: "string list" where
  "z_errmsg = [''need dictionary'', ''stream end'', '''', ''file error'', ''stream error'', ''data error'',
     ''insufficient memory'', ''buffer error'', ''incompatible version'', '''']"

definition ERR_MSG :: "int \<Rightarrow> string" where
  "ERR_MSG err = z_errmsg ! nat (Z_NEED_DICT - err)"

text \<open>The gzip header to write; the strings are without their terminator.\<close>

record gz_head =
  g_text :: int
  g_time :: u64
  g_extra :: "u8 list option"
  g_extra_len :: u32
  g_name :: "u8 list option"
  g_comment :: "u8 list option"
  g_hcrc :: int
  g_os :: int

record deflate_state = tree_state +
  strm_ready :: bool
  strm_next_in :: "u8 list"
  strm_total_in :: u64
  strm_out :: "u8 list"
  strm_avail_out :: nat
  strm_total_out :: u64
  strm_adler :: u32
  strm_msg :: "string option"
  status :: int
  pending_buf_size :: nat
  pending_out :: nat
  wrap :: int
  gzhead :: "gz_head option"
  gzindex :: nat
  d_method :: u8
  last_flush :: int
  w_size :: nat
  w_bits :: nat
  w_mask :: nat
  window :: "u8 list"
  window_size :: nat
  prev :: "u16 list"
  head :: "u16 list"
  ins_h :: u32
  hash_size :: nat
  hash_bits :: nat
  hash_mask :: u32
  hash_shift :: nat
  block_start :: int
  match_length :: nat
  prev_match :: u32
  match_available :: bool
  strstart :: nat
  match_start :: u32
  lookahead :: nat
  prev_length :: nat
  max_chain_length :: u32
  max_lazy_match :: nat
  good_match :: nat
  nice_match :: int
  d_insert :: nat
  high_water :: nat

definition MAX_DIST :: "deflate_state \<Rightarrow> nat" where
  "MAX_DIST s = w_size s - MIN_LOOKAHEAD"

definition ERR_RETURN :: "int \<Rightarrow> deflate_state \<Rightarrow> int \<times> deflate_state" where
  "ERR_RETURN err s = (err, s\<lparr>strm_msg := Some (ERR_MSG err)\<rparr>)"

section \<open>The hash table\<close>

definition UPDATE_HASH :: "u8 \<Rightarrow> deflate_state \<Rightarrow> deflate_state" where
  "UPDATE_HASH c s =
     s\<lparr>ins_h := (push_bit (hash_shift s) (ins_h s) XOR ucast c) AND hash_mask s\<rparr>"

text \<open>Entering a string; the result is the head of its chain before.\<close>

definition INSERT_STRING :: "nat \<Rightarrow> deflate_state \<Rightarrow> nat \<times> deflate_state" where
  "INSERT_STRING str s =
     (let s = UPDATE_HASH (window s ! (str + (MIN_MATCH - 1))) s;
          h = unat (ins_h s);
          match_head = head s ! h;
          s = s\<lparr>prev := (prev s)[str AND w_mask s := match_head],
                head := (head s)[h := word_of_nat str]\<rparr>
      in (unat match_head, s))"

definition CLEAR_HASH :: "deflate_state \<Rightarrow> deflate_state" where
  "CLEAR_HASH s = s\<lparr>head := replicate (hash_size s) 0 @ drop (hash_size s) (head s)\<rparr>"

definition slide_pos :: "nat \<Rightarrow> u16 \<Rightarrow> u16" where
  "slide_pos wsize p = (if wsize \<le> unat p then p - word_of_nat wsize else 0)"

definition slide_hash :: "deflate_state \<Rightarrow> deflate_state" where
  "slide_hash s =
     s\<lparr>head := map (slide_pos (w_size s)) (take (hash_size s) (head s)) @ drop (hash_size s) (head s),
       prev := map (slide_pos (w_size s)) (take (w_size s) (prev s)) @ drop (w_size s) (prev s)\<rparr>"

section \<open>Input and output\<close>

text \<open>\<open>zmemcpy(dst + i, src, length src)\<close>.\<close>

definition memcpy :: "u8 list \<Rightarrow> nat \<Rightarrow> u8 list \<Rightarrow> u8 list" where
  "memcpy dst i src = take i dst @ src @ drop (i + length src) dst"

text \<open>The result is what was copied to \<open>buf\<close>.\<close>

definition read_buf :: "nat \<Rightarrow> deflate_state \<Rightarrow> u8 list \<times> deflate_state" where
  "read_buf bufsize s =
     (let len = length (strm_next_in s);
          len = (if len > bufsize then bufsize else len)
      in if len = 0 then ([], s)
         else
           (let buf = take len (strm_next_in s);
                s = s\<lparr>strm_adler := (if wrap s = 1 then adler32 (strm_adler s) (Some buf)
                                     else if wrap s = 2 then crc_upd (strm_adler s) buf
                                     else strm_adler s)\<rparr>
            in (buf, s\<lparr>strm_next_in := drop len (strm_next_in s),
                       strm_total_in := strm_total_in s + word_of_nat len\<rparr>)))"

definition flush_pending :: "deflate_state \<Rightarrow> deflate_state" where
  "flush_pending s =
     (let s = tr_flush_bits s;
          len = length (pending_buf s);
          len = (if len > strm_avail_out s then strm_avail_out s else len)
      in if len = 0 then s
         else
           (let s = s\<lparr>strm_out := strm_out s @ take len (pending_buf s),
                      pending_out := pending_out s + len,
                      strm_total_out := strm_total_out s + word_of_nat len,
                      strm_avail_out := strm_avail_out s - len,
                      pending_buf := drop len (pending_buf s)\<rparr>
            in if pending_buf s = [] then s\<lparr>pending_out := 0\<rparr> else s))"

definition putShortMSB :: "nat \<Rightarrow> deflate_state \<Rightarrow> deflate_state" where
  "putShortMSB b s = put_byte (put_byte s (word_of_nat (b div 2 ^ 8))) (word_of_nat (b mod 256))"

section \<open>The window\<close>

text \<open>The strings that could not be entered before for want of input.\<close>

function insert_pending :: "nat \<Rightarrow> deflate_state \<Rightarrow> deflate_state" where
  "insert_pending str s =
     (if d_insert s = 0 then s
      else
        (let s = snd (INSERT_STRING str s);
             s = s\<lparr>d_insert := d_insert s - 1\<rparr>
         in if lookahead s + d_insert s < MIN_MATCH then s else insert_pending (str + 1) s))"
  by pat_completeness auto
termination
  by (relation "measure (\<lambda>(str, s). d_insert s)")
    (auto simp: INSERT_STRING_def UPDATE_HASH_def Let_def)

declare insert_pending.simps [simp del]

definition slide_window :: "nat \<Rightarrow> deflate_state \<Rightarrow> deflate_state" where
  "slide_window room s =
     (let wsize = w_size s;
          s = s\<lparr>window := memcpy (window s) 0 (take (wsize - room) (drop wsize (window s))),
                match_start := match_start s - word_of_nat wsize,
                strstart := strstart s - wsize,
                block_start := block_start s - int wsize\<rparr>
      in slide_hash s)"

text \<open>One turn of the loop of \<open>fill_window\<close>; the result tells whether it got past the \<open>break\<close>.  \<open>sizeof(int)\<close>
  is 4, so the first test of the code is never made.\<close>

definition fill_step :: "deflate_state \<Rightarrow> bool \<times> deflate_state" where
  "fill_step s =
     (let room = window_size s - lookahead s - strstart s;
          (room, s) = (if strstart s \<ge> w_size s + MAX_DIST s then (room + w_size s, slide_window room s) else (room, s))
      in if strm_next_in s = [] then (False, s)
         else
           (let (buf, s) = read_buf room s;
                s = s\<lparr>window := memcpy (window s) (strstart s + lookahead s) buf,
                      lookahead := lookahead s + length buf\<rparr>
            in if lookahead s + d_insert s \<ge> MIN_MATCH then
                 (let str = strstart s - d_insert s;
                      s = s\<lparr>ins_h := ucast (window s ! str)\<rparr>;
                      s = UPDATE_HASH (window s ! (str + 1)) s
                  in (True, insert_pending str s))
               else (True, s)))"

text \<open>
  The loop reads at least two bytes in every turn that gets there (\<open>fill_step_reads\<close> in \<open>Deflate_Window\<close>); where it
  would read none, and go round for ever, the model stops.
\<close>

function window_loop :: "deflate_state \<Rightarrow> deflate_state" where
  "window_loop s =
     (let (go, t) = fill_step s
      in if go \<and> lookahead t < MIN_LOOKAHEAD \<and> strm_next_in t \<noteq> [] \<and>
           length (strm_next_in t) < length (strm_next_in s)
         then window_loop t else t)"
  by pat_completeness auto
termination
  by (relation "measure (\<lambda>s. length (strm_next_in s))") auto

declare window_loop.simps [simp del]

text \<open>Zeroes after the data, where \<open>longest_match\<close> may look.\<close>

definition zero_ahead :: "deflate_state \<Rightarrow> deflate_state" where
  "zero_ahead s =
     (if high_water s < window_size s then
        (let curr = strstart s + lookahead s
         in if high_water s < curr then
              (let init = window_size s - curr;
                   init = (if init > WIN_INIT then WIN_INIT else init)
               in s\<lparr>window := memcpy (window s) curr (replicate init 0), high_water := curr + init\<rparr>)
            else if high_water s < curr + WIN_INIT then
              (let init = curr + WIN_INIT - high_water s;
                   init = (if init > window_size s - high_water s then window_size s - high_water s else init)
               in s\<lparr>window := memcpy (window s) (high_water s) (replicate init 0),
                    high_water := high_water s + init\<rparr>)
            else s)
      else s)"

definition fill_window :: "deflate_state \<Rightarrow> deflate_state" where
  "fill_window s = zero_ahead (window_loop s)"

section \<open>Blocks\<close>

definition FLUSH_BLOCK_ONLY :: "int \<Rightarrow> deflate_state \<Rightarrow> deflate_state" where
  "FLUSH_BLOCK_ONLY last_block s =
     (let s = tr_flush_block s
                (if block_start s \<ge> 0 then Some (drop (nat (block_start s)) (window s)) else None)
                (nat (int (strstart s) - block_start s)) last_block;
          s = s\<lparr>block_start := int (strstart s)\<rparr>
      in flush_pending s)"

text \<open>A step of a compression function: it goes on with its loop, leaves the loop, or returns.\<close>

datatype step = Continue deflate_state | Break deflate_state | Return block_state deflate_state

definition FLUSH_BLOCK :: "int \<Rightarrow> deflate_state \<Rightarrow> (deflate_state \<Rightarrow> step) \<Rightarrow> step" where
  "FLUSH_BLOCK last_block s k =
     (let s = FLUSH_BLOCK_ONLY last_block s
      in if strm_avail_out s = 0 then Return (if last_block \<noteq> 0 then finish_started else need_more) s
         else k s)"

end
