(* ===== verification/Deflate_Match.thy ===== *)
theory Deflate_Match
  imports Deflate_State
begin

text \<open>
  \<open>longest_match\<close> of \<open>src/src/zlib/deflate.c\<close>: the search along a hash chain for the longest earlier
  copy of the string at \<open>strstart\<close>.  The local pointers \<open>scan\<close> and \<open>match\<close> are indices into the window;
  \<open>scan_end\<close> and \<open>scan_end1\<close> are the bytes of the window they hold.
\<close>

text \<open>Eight comparisons; the result tells whether all were equal and where \<open>scan\<close> and \<open>match\<close> stopped.\<close>

fun compare_bytes :: "nat \<Rightarrow> u8 list \<Rightarrow> nat \<Rightarrow> nat \<Rightarrow> bool \<times> nat \<times> nat" where
  "compare_bytes 0 w scan mtch = (True, scan, mtch)"
| "compare_bytes (Suc n) w scan mtch =
     (let scan = scan + 1; mtch = mtch + 1
      in if w ! scan = w ! mtch then compare_bytes n w scan mtch else (False, scan, mtch))"

lemma compare_bytes_scan: "compare_bytes n w scan mtch = (True, scan', mtch') \<Longrightarrow> scan' = scan + n \<and> mtch' = mtch + n"
  by (induction n arbitrary: scan mtch) (fastforce simp: Let_def split: if_splits)+

text \<open>The loop of comparisons gives the final \<open>scan\<close>.\<close>

function scan_loop :: "u8 list \<Rightarrow> nat \<Rightarrow> nat \<Rightarrow> nat \<Rightarrow> nat" where
  "scan_loop w strend scan mtch =
     (let (eq, scan', mtch') = compare_bytes 8 w scan mtch
      in if eq \<and> scan' < strend then scan_loop w strend scan' mtch' else scan')"
  by pat_completeness auto
termination
  by (relation "measure (\<lambda>(w, strend, scan, mtch). strend - scan)")
    (auto dest!: compare_bytes_scan [OF sym])

declare scan_loop.simps [simp del]

text \<open>The length of the match at \<open>cur_match\<close>, or \<open>None\<close> when it is skipped.\<close>

definition match_at :: "u8 list \<Rightarrow> nat \<Rightarrow> nat \<Rightarrow> nat \<Rightarrow> int option" where
  "match_at w scan best_len cur_match =
     (let mtch = cur_match
      in if w ! (mtch + best_len) \<noteq> w ! (scan + best_len) \<or>
            w ! (mtch + best_len - 1) \<noteq> w ! (scan + best_len - 1) \<or>
            w ! mtch \<noteq> w ! scan \<or> w ! (mtch + 1) \<noteq> w ! (scan + 1) then None
         else Some (int MAX_MATCH -
           (int (scan + MAX_MATCH) - int (scan_loop w (scan + MAX_MATCH) (scan + 2) (mtch + 2)))))"

lemma count_down: "x \<noteq> 0 \<Longrightarrow> unat (x - 1) < unat (x :: u32)"
  by (simp add: unat_minus_one unat_gt_0)

function chain_loop ::
  "deflate_state \<Rightarrow> nat \<Rightarrow> int \<Rightarrow> nat \<Rightarrow> u32 \<Rightarrow> nat \<Rightarrow> u32 \<Rightarrow> nat \<times> u32"
where
  "chain_loop s limit nice cur_match chain_length best_len start =
     (let (best_len, start, stop) =
            (case match_at (window s) (strstart s) best_len cur_match of
               None \<Rightarrow> (best_len, start, False)
             | Some len \<Rightarrow>
                 if len > int best_len then (nat len, word_of_nat cur_match, len \<ge> nice)
                 else (best_len, start, False));
          cur_match = unat (prev s ! (cur_match AND w_mask s))
      in if \<not> stop \<and> cur_match > limit \<and> chain_length - 1 \<noteq> 0
         then chain_loop s limit nice cur_match (chain_length - 1) best_len start
         else (best_len, start))"
  by pat_completeness auto
termination
proof (relation "measure (\<lambda>(s, limit, nice, cur_match, chain_length, best_len, start). unat (chain_length - 1))", goal_cases)
  case (2 s limit nice cur_match chain_length best_len start x xa y xb ya xc)
  then show ?case using count_down [of "chain_length - 1"] by simp
qed simp

declare chain_loop.simps [simp del]

definition longest_match :: "nat \<Rightarrow> deflate_state \<Rightarrow> nat \<times> deflate_state" where
  "longest_match cur_match s =
     (let chain_length = max_chain_length s;
          best_len = prev_length s;
          nice = nice_match s;
          limit = (if strstart s > MAX_DIST s then strstart s - MAX_DIST s else NIL);
          chain_length = (if prev_length s \<ge> good_match s then drop_bit 2 chain_length else chain_length);
          nice = (if unat (word_of_int nice :: u32) > lookahead s then int (lookahead s) else nice);
          (best_len, start) = chain_loop s limit nice cur_match chain_length best_len (match_start s);
          s = s\<lparr>match_start := start\<rparr>
      in (if best_len \<le> lookahead s then best_len else lookahead s, s))"

end
