(* ===== verification/Deflate_Chains.thy ===== *)
theory Deflate_Chains
  imports Deflate_Match
begin

text \<open>
  The hash chains of \<open>src/src/zlib/deflate.c\<close>: \<open>ins_h\<close> is the hash of the last bytes, every entry of \<open>head\<close>
  and of a chain in \<open>prev\<close> is an earlier string of the same hash, entering a string and sliding the window
  keep this, and \<open>longest_match\<close>, which does not compare the third byte, returns a real match.
\<close>

unbundle bit_operations_syntax

section \<open>The rolling hash\<close>

lemma push_masked_xor:
  fixes x y :: u32
  shows "push_bit k ((push_bit k x XOR y) AND mask n) AND mask n = (push_bit (2 * k) x XOR push_bit k y) AND mask n"
  by (rule bit_word_eqI) (auto simp: bit_simps mult_2)

lemma roll_hash:
  fixes x y z :: u32
  assumes "n \<le> 3 * k"
  shows "push_bit k (((push_bit (2 * k) x XOR push_bit k y) XOR z) AND mask n) AND mask n =
    (push_bit (2 * k) y XOR push_bit k z) AND mask n"
proof (rule bit_word_eqI)
  fix i :: nat assume i: "i < LENGTH(32)"
  have "i - k - k = i - 2 * k" "k \<le> i - k \<longleftrightarrow> 2 * k \<le> i \<or> k = 0" by auto
  moreover have "\<not> 2 * k \<le> i - k \<or> k = 0" if "i < n" "k \<le> i" using that assms by auto
  ultimately show "bit (push_bit k (((push_bit (2 * k) x XOR push_bit k y) XOR z) AND mask n) AND mask n) i =
      bit ((push_bit (2 * k) y XOR push_bit k z) AND mask n) i"
    using i assms by (cases "i < n"; cases "k \<le> i"; cases "2 * k \<le> i") (simp_all add: bit_simps)
qed

lemma xor_cancel_mask:
  fixes u :: u32 and a b :: u8
  assumes "(u XOR ucast a) AND mask n = (u XOR ucast b) AND mask n" "8 \<le> n"
  shows "a = b"
proof (rule bit_word_eqI)
  fix i :: nat assume "i < LENGTH(8)"
  then have "bit ((u XOR ucast a) AND mask n) i = bit ((u XOR ucast b) AND mask n) i" "i < 8" using assms by simp_all
  then show "bit a i = bit b i" using assms(2) by (auto simp: bit_simps)
qed

text \<open>The geometry of the window and of the hash table, as \<open>deflateInit2_\<close> sets it up.\<close>

definition sizes_ok :: "deflate_state \<Rightarrow> bool" where
  "sizes_ok s \<longleftrightarrow>
     9 \<le> w_bits s \<and> w_bits s \<le> 15 \<and> w_size s = 2 ^ w_bits s \<and> w_mask s = 2 ^ w_bits s - 1 \<and>
     window_size s = 2 * w_size s \<and> length (window s) = window_size s \<and> length (prev s) = w_size s \<and>
     8 \<le> hash_bits s \<and> hash_bits s \<le> 16 \<and> hash_size s = 2 ^ hash_bits s \<and> hash_mask s = 2 ^ hash_bits s - 1 \<and>
     hash_shift s = (hash_bits s + MIN_MATCH - 1) div MIN_MATCH \<and> length (head s) = hash_size s"

lemma sizes_simps:
  assumes "sizes_ok s"
  shows "hash_mask s = mask (hash_bits s)" "hash_bits s \<le> 3 * hash_shift s" "512 \<le> w_size s" "w_size s \<le> 32768"
    "n AND w_mask s = n mod w_size s" "length (prev s) = w_size s" "length (head s) = hash_size s"
    "window_size s = 2 * w_size s" "length (window s) = 2 * w_size s"
proof -
  have w: "9 \<le> w_bits s" "w_bits s \<le> 15" using assms by (simp_all add: sizes_ok_def)
  show "512 \<le> w_size s" "w_size s \<le> 32768"
    using assms power_increasing [OF w(1), of "2::nat"] power_increasing [OF w(2), of "2::nat"]
    by (simp_all add: sizes_ok_def)
  have "n AND mask (w_bits s) = n mod 2 ^ w_bits s" by (simp add: take_bit_eq_mod flip: take_bit_eq_mask)
  then show "n AND w_mask s = n mod w_size s"
    using assms by (simp add: sizes_ok_def mask_eq_exp_minus_1)
qed (use assms in \<open>auto simp: sizes_ok_def mask_eq_exp_minus_1 match_consts\<close>)

definition hash_at :: "deflate_state \<Rightarrow> nat \<Rightarrow> u32" where
  "hash_at s p =
     ((push_bit (2 * hash_shift s) (ucast (window s ! p)) XOR push_bit (hash_shift s) (ucast (window s ! (p + 1)))) XOR
       ucast (window s ! (p + 2))) AND hash_mask s"

definition rolled :: "deflate_state \<Rightarrow> nat \<Rightarrow> bool" where
  "rolled s p \<longleftrightarrow>
     push_bit (hash_shift s) (ins_h s) AND hash_mask s =
     (push_bit (2 * hash_shift s) (ucast (window s ! p)) XOR push_bit (hash_shift s) (ucast (window s ! (p + 1)))) AND
       hash_mask s"

lemma third_byte:
  assumes "sizes_ok s" "hash_at s p = hash_at s q" "window s ! p = window s ! q" "window s ! (p + 1) = window s ! (q + 1)"
  shows "window s ! (p + 2) = window s ! (q + 2)"
proof (rule xor_cancel_mask)
  let ?u = "push_bit (2 * hash_shift s) (ucast (window s ! p)) XOR push_bit (hash_shift s) (ucast (window s ! (p + 1))) :: u32"
  show "(?u XOR ucast (window s ! (p + 2))) AND mask (hash_bits s) = (?u XOR ucast (window s ! (q + 2))) AND mask (hash_bits s)"
    using assms by (simp add: hash_at_def sizes_simps(1))
  show "8 \<le> hash_bits s" using assms(1) by (simp add: sizes_ok_def)
qed

lemma rolled_init:
  assumes "sizes_ok s"
  shows "rolled (UPDATE_HASH (window s ! (p + 1)) (s\<lparr>ins_h := ucast (window s ! p)\<rparr>)) p"
  using assms push_masked_xor [of "hash_shift s" "ucast (window s ! p)" "ucast (window s ! (p + 1))" "hash_bits s"]
  by (simp add: rolled_def UPDATE_HASH_def sizes_simps(1))

lemma UPDATE_HASH_at:
  assumes "sizes_ok s" "rolled s p"
  shows "ins_h (UPDATE_HASH (window s ! (p + 2)) s) = hash_at s p"
proof -
  have "(a XOR c) AND m = (a AND m XOR c) AND m" for a c m :: u32 by (rule bit_word_eqI) (auto simp: bit_simps)
  from this [of "push_bit (hash_shift s) (ins_h s)"] this
    [of "push_bit (2 * hash_shift s) (ucast (window s ! p)) XOR push_bit (hash_shift s) (ucast (window s ! (p + 1)))"]
  show ?thesis using assms(2) by (simp add: UPDATE_HASH_def hash_at_def rolled_def)
qed

lemma hash_at_less: "sizes_ok s \<Longrightarrow> unat (hash_at s p) < hash_size s"
proof -
  assume s: "sizes_ok s"
  have "hash_at s p = take_bit (hash_bits s) (hash_at s p)"
    using s by (simp add: hash_at_def sizes_simps(1) take_bit_eq_mask and.assoc)
  then have "unat (hash_at s p) = take_bit (hash_bits s) (unat (hash_at s p))" by (metis unsigned_take_bit_eq)
  then show ?thesis using s by (metis sizes_ok_def take_bit_nat_less_exp)
qed

section \<open>The chains\<close>

text \<open>
  \<open>I\<close> are the strings in the table.  They begin before \<open>b\<close> and their three bytes end before \<open>e\<close>; the entry
  of \<open>prev\<close> of a string is its predecessor as long as no string of its residue was entered later.
\<close>

definition chain_set :: "nat \<Rightarrow> nat \<Rightarrow> deflate_state \<Rightarrow> nat set \<Rightarrow> bool" where
  "chain_set b e s I \<longleftrightarrow>
     (\<forall>p\<in>I. p < b \<and> p + 2 < e) \<and>
     (\<forall>h<hash_size s. head s ! h \<noteq> 0 \<longrightarrow>
        unat (head s ! h) \<in> I \<and> unat (hash_at s (unat (head s ! h))) = h) \<and>
     (\<forall>p\<in>I. b \<le> p + w_size s \<longrightarrow>
        (let q = unat (prev s ! (p mod w_size s)) in q \<noteq> 0 \<longrightarrow> q \<in> I \<and> q < p \<and> hash_at s q = hash_at s p))"

definition chains :: "nat \<Rightarrow> nat \<Rightarrow> deflate_state \<Rightarrow> bool" where
  "chains b e s \<longleftrightarrow> (\<exists>I. chain_set b e s I)"

lemma hash_at_cong:
  "take e (window t) = take e (window s) \<Longrightarrow> hash_shift t = hash_shift s \<Longrightarrow> hash_mask t = hash_mask s \<Longrightarrow>
    p + 2 < e \<Longrightarrow> hash_at t p = hash_at s p"
proof -
  assume e: "take e (window t) = take e (window s)" "hash_shift t = hash_shift s" "hash_mask t = hash_mask s" "p + 2 < e"
  have "window t ! i = window s ! i" if "i < e" for i using e(1) that by (metis nth_take)
  then show ?thesis using e by (simp add: hash_at_def)
qed

lemma chain_set_cong:
  assumes "chain_set b e s I" and "take e (window t) = take e (window s)"
    and "head t = head s" "prev t = prev s" "w_size t = w_size s" "hash_size t = hash_size s"
    and "hash_shift t = hash_shift s" "hash_mask t = hash_mask s"
    and "b \<le> b'" "e \<le> e'"
  shows "chain_set b' e' t I"
proof -
  note c = assms(1) [unfolded chain_set_def Let_def]
  have h: "hash_at t p = hash_at s p" if "p \<in> I" for p
    using hash_at_cong [OF assms(2,7,8)] c that by blast
  show ?thesis
    unfolding chain_set_def Let_def
  proof (intro conjI ballI allI impI)
    fix p assume p: "p \<in> I"
    show "p < b'" "p + 2 < e'" using c p assms(9,10) by fastforce+
    assume b: "b' \<le> p + w_size t" and q: "unat (prev t ! (p mod w_size t)) \<noteq> 0"
    then have "unat (prev s ! (p mod w_size s)) \<in> I \<and> unat (prev s ! (p mod w_size s)) < p \<and>
        hash_at s (unat (prev s ! (p mod w_size s))) = hash_at s p"
      using c p assms by fastforce
    then show "unat (prev t ! (p mod w_size t)) \<in> I" "unat (prev t ! (p mod w_size t)) < p"
      "hash_at t (unat (prev t ! (p mod w_size t))) = hash_at t p"
      using h p assms by simp_all
  next
    fix i assume "i < hash_size t" "head t ! i \<noteq> 0"
    then have "unat (head s ! i) \<in> I \<and> unat (hash_at s (unat (head s ! i))) = i" using c assms by simp
    then show "unat (head t ! i) \<in> I" "unat (hash_at t (unat (head t ! i))) = i" using h assms by simp_all
  qed
qed

lemma chains_cong:
  "chains b e s \<Longrightarrow> take e (window t) = take e (window s) \<Longrightarrow> head t = head s \<Longrightarrow> prev t = prev s \<Longrightarrow>
    w_size t = w_size s \<Longrightarrow> hash_size t = hash_size s \<Longrightarrow> hash_shift t = hash_shift s \<Longrightarrow>
    hash_mask t = hash_mask s \<Longrightarrow> b \<le> b' \<Longrightarrow> e \<le> e' \<Longrightarrow> chains b' e' t"
  unfolding chains_def using chain_set_cong by blast

lemma chains_mono: "chains b e s \<Longrightarrow> b \<le> b' \<Longrightarrow> e \<le> e' \<Longrightarrow> chains b' e' s"
  by (rule chains_cong) simp_all

section \<open>Entering a string\<close>

definition INSERT_head :: "nat \<Rightarrow> deflate_state \<Rightarrow> u16" where
  "INSERT_head p s = head s ! unat (hash_at s p)"

lemma INSERT_STRING_eq:
  assumes "sizes_ok s" "rolled s p"
  shows "INSERT_STRING p s =
    (unat (INSERT_head p s),
     s\<lparr>ins_h := hash_at s p, prev := (prev s)[p mod w_size s := INSERT_head p s],
       head := (head s)[unat (hash_at s p) := word_of_nat p]\<rparr>)"
proof -
  have "UPDATE_HASH (window s ! (p + 2)) s = s\<lparr>ins_h := hash_at s p\<rparr>"
    using UPDATE_HASH_at [OF assms] by (simp add: UPDATE_HASH_def)
  then show ?thesis
    by (simp add: INSERT_STRING_def Let_def match_consts INSERT_head_def sizes_simps(5) [OF assms(1)])
qed

lemma hash_at_update [simp]:
  "hash_at (s\<lparr>ins_h := x\<rparr>) p = hash_at s p" "hash_at (s\<lparr>prev := y\<rparr>) p = hash_at s p"
  "hash_at (s\<lparr>head := y\<rparr>) p = hash_at s p"
  by (simp_all add: hash_at_def)

lemma residue_apart:
  fixes p q w :: nat
  assumes "q < p" "p < q + w"
  shows "p mod w \<noteq> q mod w"
proof
  assume "p mod w = q mod w"
  then have "w dvd p - q" using assms(1) by (simp add: mod_eq_dvd_iff_nat)
  then show False using assms dvd_imp_le [of w "p - q"] by simp
qed

lemma INSERT_STRING_rolled:
  assumes "sizes_ok s" "rolled s p"
  shows "rolled (snd (INSERT_STRING p s)) (p + 1)" "sizes_ok (snd (INSERT_STRING p s))"
proof -
  note sz = sizes_simps [OF assms(1)]
  show "rolled (snd (INSERT_STRING p s)) (p + 1)"
    using roll_hash [OF sz(2)] by (simp add: INSERT_STRING_eq [OF assms] rolled_def sz(1) hash_at_def)
  show "sizes_ok (snd (INSERT_STRING p s))"
    using assms(1) by (simp add: INSERT_STRING_eq [OF assms] sizes_ok_def)
qed

lemma INSERT_STRING_chain:
  assumes s: "sizes_ok s" "rolled s p" and c: "chain_set b e s I" and b: "b \<le> p" "p + 2 < e" "e \<le> 2 * w_size s"
  shows "chain_set (p + 1) e (snd (INSERT_STRING p s)) (insert p I)"
proof -
  let ?h = "unat (hash_at s p)" and ?t = "snd (INSERT_STRING p s)"
  note sz = sizes_simps [OF s(1)]
  note I = c [unfolded chain_set_def Let_def]
  have p: "unat (word_of_nat p :: u16) = p" using b sz(4) by (simp add: unsigned_of_nat take_bit_nat_eq_self)
  have h: "?h < hash_size s" by (rule hash_at_less [OF s(1)])
  have t [simp]: "hash_at ?t = hash_at s" "w_size ?t = w_size s" "hash_size ?t = hash_size s"
    "head ?t = (head s)[?h := word_of_nat p]" "prev ?t = (prev s)[p mod w_size s := INSERT_head p s]"
    by (simp_all add: INSERT_STRING_eq [OF s] fun_eq_iff)
  have m: "unat (INSERT_head p s) \<in> I" "hash_at s (unat (INSERT_head p s)) = hash_at s p" if "INSERT_head p s \<noteq> 0"
    using I h that by (auto simp: INSERT_head_def word_eq_unat)
  show ?thesis
    unfolding chain_set_def Let_def
  proof (intro conjI ballI allI impI)
    fix i assume "i < hash_size ?t" "head ?t ! i \<noteq> 0"
    then show "unat (head ?t ! i) \<in> insert p I" "unat (hash_at ?t (unat (head ?t ! i))) = i"
      using I h p sz(7) by (cases "i = ?h"; simp)+
  next
    fix q assume q: "q \<in> insert p I"
    then show "q < p + 1" "q + 2 < e" using I b by fastforce+
    assume n: "p + 1 \<le> q + w_size ?t" "unat (prev ?t ! (q mod w_size ?t)) \<noteq> 0"
    show "unat (prev ?t ! (q mod w_size ?t)) \<in> insert p I" "unat (prev ?t ! (q mod w_size ?t)) < q"
      "hash_at ?t (unat (prev ?t ! (q mod w_size ?t))) = hash_at ?t q"
    proof -
      have r: "q mod w_size s < length (prev s)" using sz(3,6) by simp
      have "unat (prev ?t ! (q mod w_size s)) \<in> insert p I \<and> unat (prev ?t ! (q mod w_size s)) < q \<and>
          hash_at s (unat (prev ?t ! (q mod w_size s))) = hash_at s q"
      proof (cases "q = p")
        case True
        then have "INSERT_head p s \<noteq> 0" using n r by auto
        then show ?thesis using m I b r True by force
      next
        case False
        then have q': "q \<in> I" "q < p" using q I b by fastforce+
        then have "prev ?t ! (q mod w_size s) = prev s ! (q mod w_size s)"
          using residue_apart [of q p "w_size s"] n by (simp add: nth_list_update)
        then show ?thesis using I q' n b by fastforce
      qed
      then show "unat (prev ?t ! (q mod w_size ?t)) \<in> insert p I" "unat (prev ?t ! (q mod w_size ?t)) < q"
        "hash_at ?t (unat (prev ?t ! (q mod w_size ?t))) = hash_at ?t q" by simp_all
    qed
  qed
qed

lemma INSERT_STRING_chains:
  "sizes_ok s \<Longrightarrow> rolled s p \<Longrightarrow> chains b e s \<Longrightarrow> b \<le> p \<Longrightarrow> p + 2 < e \<Longrightarrow> e \<le> 2 * w_size s \<Longrightarrow>
    chains (p + 1) e (snd (INSERT_STRING p s))"
  unfolding chains_def using INSERT_STRING_chain by blast

section \<open>longest_match\<close>

lemma compare_bytes_equal:
  "compare_bytes n w scan mtch = (eq, scan', mtch') \<Longrightarrow>
    scan \<le> scan' \<and> scan' \<le> scan + n \<and> (eq \<longrightarrow> scan' = scan + n) \<and> (\<not> eq \<longrightarrow> scan < scan') \<and>
    (\<forall>i. 1 \<le> i \<and> (scan + i < scan' \<or> eq \<and> scan + i \<le> scan') \<longrightarrow> w ! (scan + i) = w ! (mtch + i))"
proof (induction n w scan mtch rule: compare_bytes.induct)
  case (2 n w scan mtch)
  show ?case
  proof (cases "w ! (scan + 1) = w ! (mtch + 1)")
    case True
    with 2 have IH: "scan + 1 \<le> scan'" "scan' \<le> scan + 1 + n" "eq \<longrightarrow> scan' = scan + 1 + n" "\<not> eq \<longrightarrow> scan + 1 < scan'"
      "\<And>i. 1 \<le> i \<Longrightarrow> scan + 1 + i < scan' \<or> eq \<and> scan + 1 + i \<le> scan' \<Longrightarrow> w ! (scan + 1 + i) = w ! (mtch + 1 + i)"
      by (simp_all add: Let_def)
    have "w ! (scan + i) = w ! (mtch + i)" if "1 \<le> i" "scan + i < scan' \<or> eq \<and> scan + i \<le> scan'" for i
      using IH(5) [of "i - 1"] that True by (cases "i = 1") auto
    then show ?thesis using IH by auto
  qed (use 2 in \<open>auto simp: Let_def\<close>)
qed auto

lemma scan_loop_equal:
  assumes "8 dvd strend - scan" "scan < strend"
  shows "scan < scan_loop w strend scan mtch \<and> scan_loop w strend scan mtch \<le> strend \<and>
    (\<forall>i. 1 \<le> i \<and> scan + i < scan_loop w strend scan mtch \<longrightarrow> w ! (scan + i) = w ! (mtch + i))"
  using assms
proof (induction w strend scan mtch rule: scan_loop.induct)
  case (1 w strend scan mtch)
  obtain eq scan' mtch' where c: "compare_bytes 8 w scan mtch = (eq, scan', mtch')" by (cases "compare_bytes 8 w scan mtch")
  note e = compare_bytes_equal [OF c]
  have le: "scan + 8 \<le> strend" using "1.prems" by (auto dest: dvd_imp_le)
  show ?case
  proof (cases "eq \<and> scan' < strend")
    case True
    have m: "scan' = scan + 8" "mtch' = mtch + 8" using compare_bytes_scan [of 8 w scan mtch] c True by auto
    let ?r = "scan_loop w strend scan' mtch'"
    have "8 dvd strend - scan'" using "1.prems" m by (metis add.commute diff_diff_left dvd_diff_nat dvd_refl)
    then have IH: "scan' < ?r \<and> ?r \<le> strend \<and> (\<forall>i. 1 \<le> i \<and> scan' + i < ?r \<longrightarrow> w ! (scan' + i) = w ! (mtch' + i))"
      using "1.IH" [OF c [symmetric] refl refl] True by simp
    have "w ! (scan + i) = w ! (mtch + i)" if "1 \<le> i" "scan + i < ?r" for i
    proof (cases "i \<le> 8")
      case True
      then show ?thesis using e m that \<open>eq \<and> scan' < strend\<close> by auto
    next
      case False
      then obtain j where j: "i = 8 + j" "1 \<le> j" by (intro that [of "i - 8"]) simp_all
      then have "w ! (scan' + j) = w ! (mtch' + j)" using IH m that by (simp add: add.assoc)
      then show ?thesis using m j by (simp add: add.assoc)
    qed
    moreover have "scan_loop w strend scan mtch = ?r" by (subst scan_loop.simps) (use True in \<open>simp add: c\<close>)
    ultimately show ?thesis using IH m by auto
  next
    case False
    then have "scan_loop w strend scan mtch = scan'" by (subst scan_loop.simps) (auto simp: c)
    then show ?thesis using e le by (cases eq) auto
  qed
qed

lemma match_at_equal:
  assumes "match_at w scan best_len cur = Some len"
    and third: "w ! cur = w ! scan \<Longrightarrow> w ! (cur + 1) = w ! (scan + 1) \<Longrightarrow> w ! (cur + 2) = w ! (scan + 2)"
  shows "3 \<le> len" "len \<le> 258" "\<forall>i<nat len. w ! (cur + i) = w ! (scan + i)"
proof -
  let ?r = "scan_loop w (scan + 258) (scan + 2) (cur + 2)"
  have first: "w ! cur = w ! scan" "w ! (cur + 1) = w ! (scan + 1)" and len: "len = 258 - (int (scan + 258) - int ?r)"
    using assms(1) by (auto simp: match_at_def match_consts Let_def split: if_splits)
  have r: "scan + 2 < ?r" "?r \<le> scan + 258"
    "\<And>i. 1 \<le> i \<Longrightarrow> scan + 2 + i < ?r \<Longrightarrow> w ! (scan + 2 + i) = w ! (cur + 2 + i)"
    using scan_loop_equal [of "scan + 258" "scan + 2" w "cur + 2"] by auto
  show "3 \<le> len" "len \<le> 258" using r len by auto
  show "\<forall>i<nat len. w ! (cur + i) = w ! (scan + i)"
  proof (intro allI impI)
    fix i assume i: "i < nat len"
    consider "i = 0" | "i = 1" | "i = 2" | "3 \<le> i" by linarith
    then show "w ! (cur + i) = w ! (scan + i)"
    proof cases
      case 4
      then obtain j where "i = 2 + j" "1 \<le> j" by (intro that [of "i - 2"]) simp_all
      then show ?thesis using r(3) [of j] i len by simp
    qed (use first third in simp_all)
  qed
qed

text \<open>A match of \<open>len\<close> bytes for the string at \<open>strstart\<close>.\<close>

definition is_match :: "deflate_state \<Rightarrow> nat \<Rightarrow> nat \<Rightarrow> bool" where
  "is_match s len c \<longleftrightarrow>
     c < strstart s \<and> strstart s \<le> c + MAX_DIST s \<and> 3 \<le> len \<and> len \<le> 258 \<and>
     (\<forall>i<len. window s ! (c + i) = window s ! (strstart s + i))"


lemma chain_next:
  assumes "chain_set b e s I" "b \<le> strstart s + 1" "cur \<in> I" "strstart s \<le> cur + MAX_DIST s" "sizes_ok s"
    and "unat (prev s ! (cur AND w_mask s)) \<noteq> 0"
  shows "unat (prev s ! (cur AND w_mask s)) \<in> I" "unat (prev s ! (cur AND w_mask s)) < cur"
    "hash_at s (unat (prev s ! (cur AND w_mask s))) = hash_at s cur"
proof -
  have "b \<le> cur + w_size s" using assms(2,4) sizes_simps(3) [OF assms(5)] by (simp add: MAX_DIST_def match_consts)
  then show "unat (prev s ! (cur AND w_mask s)) \<in> I" "unat (prev s ! (cur AND w_mask s)) < cur"
    "hash_at s (unat (prev s ! (cur AND w_mask s))) = hash_at s cur"
    using assms(1,3,6) by (auto simp: chain_set_def Let_def sizes_simps(5) [OF assms(5)])
qed

lemma chain_loop_match:
  assumes "sizes_ok s" "chain_set b e s I" "b \<le> strstart s + 1"
    and "limit = (if strstart s > MAX_DIST s then strstart s - MAX_DIST s else NIL)"
    and "cur \<in> I" "hash_at s cur = hash_at s (strstart s)" "cur < strstart s" "strstart s \<le> cur + MAX_DIST s"
    and "chain_loop s limit nice cur chain_length best_len start = (best_len', start')"
  shows "best_len' = best_len \<and> start' = start \<or> best_len < best_len' \<and> (\<exists>c. start' = word_of_nat c \<and> is_match s best_len' c)"
  using assms
proof (induction s limit nice cur chain_length best_len start rule: chain_loop.induct)
  case (1 s limit nice cur chain_length best_len start)
  note sz = sizes_simps [OF "1.prems"(1)]
  let ?m = "match_at (window s) (strstart s) best_len cur"
  obtain l' st' stop where d: "(case ?m of
      None \<Rightarrow> (best_len, start, False)
    | Some len \<Rightarrow> if len > int best_len then (nat len, word_of_nat cur, len \<ge> nice) else (best_len, start, False)) =
      (l', st', stop)" by (rule prod_cases3)
  have here: "l' = best_len \<and> st' = start \<or> best_len < l' \<and> st' = word_of_nat cur \<and> is_match s l' cur"
  proof (cases ?m)
    case (Some len)
    have "3 \<le> len" "len \<le> 258" "\<forall>i<nat len. window s ! (cur + i) = window s ! (strstart s + i)"
      using match_at_equal [OF Some] third_byte [OF "1.prems"(1,6)] by auto
    then show ?thesis using d Some "1.prems"(7,8) by (auto simp: is_match_def split: if_splits)
  qed (use d in auto)
  let ?q = "unat (prev s ! (cur AND w_mask s))"
  show ?case
  proof (cases "\<not> stop \<and> ?q > limit \<and> chain_length - 1 \<noteq> 0")
    case True
    then have "?q \<noteq> 0" by simp
    note q = chain_next [OF "1.prems"(2,3,5,8,1) this]
    have near: "strstart s \<le> ?q + MAX_DIST s" using True "1.prems"(4) by (auto split: if_splits)
    have "chain_loop s limit nice ?q (chain_length - 1) l' st' = (best_len', start')"
      using "1.prems"(9) True by (subst (asm) chain_loop.simps) (simp add: Let_def d)
    with "1.IH" [OF d [symmetric] refl refl refl True "1.prems"(1-4) q(1)] q "1.prems"(6,7) near
    have "best_len' = l' \<and> start' = st' \<or> l' < best_len' \<and> (\<exists>c. start' = word_of_nat c \<and> is_match s best_len' c)"
      by simp
    then show ?thesis using here by auto
  next
    case False
    then have "(best_len', start') = (l', st')"
      using "1.prems"(9) by (subst (asm) chain_loop.simps) (auto simp: Let_def d split: if_splits)
    then show ?thesis using here by auto
  qed
qed

lemma is_match_shorter: "is_match s len c \<Longrightarrow> 3 \<le> n \<Longrightarrow> n \<le> len \<Longrightarrow> is_match s n c"
  by (auto simp: is_match_def)

text \<open>The result is no longer than \<open>prev_length\<close>, or a match, and never reaches behind the input.\<close>

lemma longest_match_sound:
  assumes s: "sizes_ok s" "chain_set b e s I" "b \<le> strstart s + 1" "3 \<le> lookahead s"
    and cur: "cur \<in> I" "hash_at s cur = hash_at s (strstart s)" "cur < strstart s" "strstart s \<le> cur + MAX_DIST s"
    and r: "longest_match cur s = (len, t)"
  shows "len \<le> lookahead s" "len \<le> prev_length s \<or> (\<exists>c. match_start t = word_of_nat c \<and> is_match s len c)"
    "\<exists>m. t = s\<lparr>match_start := m\<rparr>"
proof -
  obtain nice chain_length l st where c: "chain_loop s (if strstart s > MAX_DIST s then strstart s - MAX_DIST s else NIL)
        nice cur chain_length (prev_length s) (match_start s) = (l, st)"
      "len = (if l \<le> lookahead s then l else lookahead s)" "t = s\<lparr>match_start := st\<rparr>"
    using r by (auto simp: longest_match_def Let_def split: prod.splits)
  show "len \<le> lookahead s" "\<exists>m. t = s\<lparr>match_start := m\<rparr>" using c by auto
  show "len \<le> prev_length s \<or> (\<exists>c. match_start t = word_of_nat c \<and> is_match s len c)"
    using chain_loop_match [OF s(1-3) refl cur c(1)] c(2,3) is_match_shorter s(4) by fastforce
qed

section \<open>Sliding\<close>

lemma unat_slide_pos: "w \<le> 32768 \<Longrightarrow> unat (slide_pos w p) = (if w \<le> unat p then unat p - w else 0)"
  by (simp add: slide_pos_def unat_sub word_le_nat_alt unsigned_of_nat take_bit_nat_eq_self)

lemma slide_window_fields:
  "w_size (slide_window r s) = w_size s" "hash_size (slide_window r s) = hash_size s"
  "hash_shift (slide_window r s) = hash_shift s" "hash_mask (slide_window r s) = hash_mask s"
  "strstart (slide_window r s) = strstart s - w_size s" "lookahead (slide_window r s) = lookahead s"
  "block_start (slide_window r s) = block_start s - int (w_size s)" "strm_next_in (slide_window r s) = strm_next_in s"
  "match_start (slide_window r s) = match_start s - word_of_nat (w_size s)"
  "d_insert (slide_window r s) = d_insert s"
  by (simp_all add: slide_window_def slide_hash_def Let_def)

lemma slide_window_sizes: "sizes_ok s \<Longrightarrow> sizes_ok (slide_window r s)"
  by (auto simp: sizes_ok_def slide_window_def slide_hash_def memcpy_def Let_def)

lemma slide_window_data:
  assumes "sizes_ok s" "w_size s \<le> e" "e \<le> 2 * w_size s" "r = 2 * w_size s - e" "i < e - w_size s"
  shows "window (slide_window r s) ! i = window s ! (i + w_size s)"
  using assms sizes_simps(9) [OF assms(1)]
  by (simp add: slide_window_def slide_hash_def memcpy_def Let_def nth_append add.commute)

lemma slide_window_chains:
  assumes s: "sizes_ok s" and c: "chains b e s" and e: "w_size s \<le> e" "e \<le> 2 * w_size s" "r = 2 * w_size s - e"
  shows "chains (b - w_size s) (e - w_size s) (slide_window r s)"
proof -
  let ?t = "slide_window r s" and ?w = "w_size s"
  note sz = sizes_simps [OF s]
  obtain I where "chain_set b e s I" using c by (auto simp: chains_def)
  note I = this [unfolded chain_set_def Let_def]
  have h: "hash_at ?t (p - ?w) = hash_at s p" if "p \<in> I" "?w \<le> p" for p
  proof -
    have "p + 2 < e" using I that by blast
    then have "window ?t ! (p - ?w) = window s ! p" "window ?t ! (p - ?w + 1) = window s ! (p + 1)"
      "window ?t ! (p - ?w + 2) = window s ! (p + 2)"
      using slide_window_data [OF s e, of "p - ?w"] slide_window_data [OF s e, of "p - ?w + 1"]
        slide_window_data [OF s e, of "p - ?w + 2"] that by simp_all
    then show ?thesis unfolding hash_at_def slide_window_fields by simp
  qed
  have hd: "head ?t ! i = slide_pos ?w (head s ! i)" if "i < hash_size s" for i
    using that sz(7) by (simp add: slide_window_def slide_hash_def Let_def nth_append)
  have pv: "prev ?t ! i = slide_pos ?w (prev s ! i)" if "i < ?w" for i
    using that sz(6) by (simp add: slide_window_def slide_hash_def Let_def nth_append)
  note slid = unat_slide_pos [OF sz(4)]
  let ?J = "(\<lambda>p. p - ?w) ` {p \<in> I. ?w \<le> p}"
  have "chain_set (b - ?w) (e - ?w) ?t ?J"
    unfolding chain_set_def Let_def
  proof (intro conjI ballI allI impI)
    fix i assume i: "i < hash_size ?t" "head ?t ! i \<noteq> 0"
    then have i': "i < hash_size s" by (simp add: slide_window_fields)
    have "?w < unat (head s ! i)" "unat (head ?t ! i) = unat (head s ! i) - ?w"
      using i(2) slid [of "head s ! i"] hd [OF i'] by (auto simp: word_eq_unat split: if_splits)
    moreover have "unat (head s ! i) \<in> I \<and> unat (hash_at s (unat (head s ! i))) = i"
      using I i' calculation(1) by (auto simp: word_eq_unat)
    ultimately show "unat (head ?t ! i) \<in> ?J" "unat (hash_at ?t (unat (head ?t ! i))) = i"
      using h by auto
  next
    fix p' assume "p' \<in> ?J"
    then obtain p where p: "p \<in> I" "?w \<le> p" "p' = p - ?w" by blast
    then show "p' < b - ?w" "p' + 2 < e - ?w" using I by fastforce+
    let ?q = "unat (prev s ! (p mod ?w))"
    have pm: "p' mod w_size ?t = p mod ?w" using p by (simp add: slide_window_fields le_mod_geq)
    assume b: "b - ?w \<le> p' + w_size ?t" and n: "unat (prev ?t ! (p' mod w_size ?t)) \<noteq> 0"
    have q: "unat (prev ?t ! (p' mod w_size ?t)) = (if ?w \<le> ?q then ?q - ?w else 0)"
      using pv [of "p mod ?w"] slid sz(3) by (simp add: pm)
    then have big: "?w < ?q" "unat (prev ?t ! (p' mod w_size ?t)) = ?q - ?w" using n by (auto split: if_splits)
    have "b \<le> p + ?w" using b p by (simp add: slide_window_fields)
    then have "?q \<in> I \<and> ?q < p \<and> hash_at s ?q = hash_at s p" using I p(1) big by fastforce
    then show "unat (prev ?t ! (p' mod w_size ?t)) \<in> ?J" "unat (prev ?t ! (p' mod w_size ?t)) < p'"
      "hash_at ?t (unat (prev ?t ! (p' mod w_size ?t))) = hash_at ?t p'"
      using big p h by auto
  qed
  then show ?thesis by (auto simp: chains_def)
qed

end
