(* ===== verification/Deflate_Blocks.thy ===== *)
theory Deflate_Blocks
  imports Deflate_Match
begin

text \<open>
  The compression functions of \<open>src/src/zlib/deflate.c\<close> that collect symbols: \<open>deflate_fast\<close>,
  \<open>deflate_slow\<close>, \<open>deflate_rle\<close> and \<open>deflate_huff\<close>.  Each is a loop over a step; every turn that goes on
  moves input from what lies ahead of \<open>strstart\<close> to what lies behind it, which is why the loops end.
\<close>

section \<open>The measure of the loops\<close>

definition unread :: "deflate_state \<Rightarrow> nat" where
  "unread s = lookahead s + length (strm_next_in s)"

lemma slide_hash_fields [simp]:
  "lookahead (slide_hash s) = lookahead s" "strm_next_in (slide_hash s) = strm_next_in s"
  "lookahead (slide_window r s) = lookahead s" "strm_next_in (slide_window r s) = strm_next_in s"
  by (simp_all add: slide_hash_def slide_window_def Let_def)

lemma INSERT_STRING_fields [simp]:
  "lookahead (snd (INSERT_STRING str s)) = lookahead s"
  "strm_next_in (snd (INSERT_STRING str s)) = strm_next_in s"
  "lookahead (UPDATE_HASH c s) = lookahead s" "strm_next_in (UPDATE_HASH c s) = strm_next_in s"
  by (simp_all add: INSERT_STRING_def UPDATE_HASH_def Let_def)

lemma insert_pending_fields [simp]:
  "lookahead (insert_pending str s) = lookahead s \<and> strm_next_in (insert_pending str s) = strm_next_in s"
proof (induction str s rule: insert_pending.induct)
  case (1 str s)
  then show ?case by (subst (1 2) insert_pending.simps) (simp add: Let_def)
qed

lemma read_buf_unread:
  "read_buf n s = (buf, t) \<Longrightarrow> length buf + length (strm_next_in t) = length (strm_next_in s) \<and> lookahead t = lookahead s"
  by (auto simp: read_buf_def Let_def split: if_splits)

lemma fill_step_unread: "unread (snd (fill_step s)) = unread s"
proof -
  obtain room u where u: "(if strstart s \<ge> w_size s + MAX_DIST s
      then (window_size s - lookahead s - strstart s + w_size s, slide_window (window_size s - lookahead s - strstart s) s)
      else (window_size s - lookahead s - strstart s, s)) = (room, u)" by fastforce
  then have "lookahead u = lookahead s" "strm_next_in u = strm_next_in s" by (auto split: if_splits)
  moreover obtain buf t where "read_buf room u = (buf, t)" by fastforce
  ultimately show ?thesis
    using read_buf_unread [of room u buf t] u
    by (auto simp: fill_step_def Let_def unread_def split: if_splits)
qed

lemma window_loop_unread: "unread (window_loop s) = unread s"
proof (induction s rule: window_loop.induct)
  case (1 s)
  then show ?case
    using fill_step_unread [of s]
    by (subst window_loop.simps) (auto simp: Let_def split: prod.split)
qed

lemma fill_window_unread [simp]: "unread (fill_window s) = unread s"
  using window_loop_unread [of s] by (simp add: fill_window_def zero_ahead_def unread_def Let_def)

lemma flush_pending_unread [simp]: "unread (flush_pending s) = unread s"
  by (simp add: flush_pending_def tr_flush_bits_def bi_flush_def put_byte_def put_short_def unread_def Let_def)

text \<open>The fields of \<open>deflate.c\<close> that writing a block does not touch.\<close>

lemma block_frame_fields:
  fixes s t :: deflate_state
  assumes "block_frame s = block_frame t"
  shows "lookahead s = lookahead t" "strm_next_in s = strm_next_in t" "window s = window t"
    "window_size s = window_size t" "w_size s = w_size t" "w_bits s = w_bits t" "w_mask s = w_mask t"
    "prev s = prev t" "head s = head t" "ins_h s = ins_h t" "hash_size s = hash_size t"
    "hash_bits s = hash_bits t" "hash_mask s = hash_mask t" "hash_shift s = hash_shift t"
    "strstart s = strstart t" "match_start s = match_start t" "match_length s = match_length t"
    "prev_match s = prev_match t" "prev_length s = prev_length t" "match_available s = match_available t"
    "block_start s = block_start t" "d_insert s = d_insert t" "high_water s = high_water t"
    "l_buf s = l_buf t" "d_buf s = d_buf t" "lit_bufsize s = lit_bufsize t" "level s = level t"
    "strategy s = strategy t" "strm_avail_out s = strm_avail_out t" "strm_out s = strm_out t"
    "max_lazy_match s = max_lazy_match t" "status s = status t" "wrap s = wrap t"
  using assms by (cases s; cases t; simp add: block_frame_def)+

lemma FLUSH_BLOCK_ONLY_unread [simp]: "unread (FLUSH_BLOCK_ONLY last_block s) = unread s"
  by (simp add: FLUSH_BLOCK_ONLY_def Let_def) (simp add: unread_def block_frame_fields [OF tr_flush_block_frame])

lemma tally_unread [simp]:
  "unread (snd (tr_tally_lit s c)) = unread s" "unread (snd (tr_tally_dist s d l)) = unread s"
  by (simp_all add: tr_tally_lit_def tr_tally_dist_def unread_def Let_def)

lemma longest_match_fields:
  "lookahead (snd (longest_match c s)) = lookahead s"
  "strm_next_in (snd (longest_match c s)) = strm_next_in s"
  by (simp_all add: longest_match_def Let_def split: prod.split)

section \<open>Literals\<close>

text \<open>The last lines of each function, with the number of bytes to enter at the next call.\<close>

definition end_blocks :: "int \<Rightarrow> nat \<Rightarrow> deflate_state \<Rightarrow> block_state \<times> deflate_state" where
  "end_blocks flush ins s =
     (let s = s\<lparr>d_insert := ins\<rparr>
      in if flush = Z_FINISH then
           (let s = FLUSH_BLOCK_ONLY 1 s
            in if strm_avail_out s = 0 then (finish_started, s) else (finish_done, s))
         else if last_lit s \<noteq> 0 then
           (let s = FLUSH_BLOCK_ONLY 0 s
            in if strm_avail_out s = 0 then (need_more, s) else (block_done, s))
         else (block_done, s))"

text \<open>A step that leaves a smaller measure when it goes on.\<close>

definition moves :: "deflate_state \<Rightarrow> step \<Rightarrow> bool" where
  "moves s r \<longleftrightarrow> (\<forall>t. r = Continue t \<longrightarrow> unread t < unread s)"

lemma moves_simps [simp]:
  "moves s (Break t)" "moves s (Return b t)" "moves s (Continue t) \<longleftrightarrow> unread t < unread s"
  by (simp_all add: moves_def)

lemma moves_flush [simp]: "moves s (if b then FLUSH_BLOCK l t Continue else Continue t) \<longleftrightarrow>
    ((b \<longrightarrow> strm_avail_out (FLUSH_BLOCK_ONLY l t) \<noteq> 0) \<longrightarrow> unread t < unread s)"
  by (auto simp: moves_def FLUSH_BLOCK_def Let_def)

text \<open>\<open>emit_literal\<close>: no match, output a literal byte.\<close>

definition emit_literal :: "deflate_state \<Rightarrow> step" where
  "emit_literal s =
     (let (bflush, s) = tr_tally_lit s (window s ! strstart s);
          s = s\<lparr>lookahead := lookahead s - 1, strstart := strstart s + 1\<rparr>
      in if bflush then FLUSH_BLOCK 0 s Continue else Continue s)"

lemma emit_literal_moves: "lookahead s \<noteq> 0 \<Longrightarrow> moves s (emit_literal s)"
  using tally_unread(1) [of s "window s ! strstart s"]
  by (auto simp: emit_literal_def Let_def case_prod_unfold unread_def tr_tally_lit_def)

section \<open>Z_HUFFMAN_ONLY\<close>

definition huff_step :: "int \<Rightarrow> deflate_state \<Rightarrow> step" where
  "huff_step flush s =
     (let s = (if lookahead s = 0 then fill_window s else s)
      in if lookahead s = 0 then (if flush = Z_NO_FLUSH then Return need_more s else Break s)
         else emit_literal (s\<lparr>match_length := 0\<rparr>))"

lemma moves_via: "unread t = unread s \<Longrightarrow> moves t r \<Longrightarrow> moves s r"
  by (simp add: moves_def)

lemma huff_step_moves: "moves s (huff_step flush s)"
proof -
  let ?s = "if lookahead s = 0 then fill_window s else s"
  have u: "unread (?s\<lparr>match_length := 0\<rparr>) = unread s"
    using fill_window_unread [of s] by (simp add: unread_def)
  show ?thesis
    using moves_via [OF u emit_literal_moves] by (auto simp: huff_step_def Let_def)
qed

function huff_turns :: "int \<Rightarrow> deflate_state \<Rightarrow> step" where
  "huff_turns flush s =
     (case huff_step flush s of Continue t \<Rightarrow> huff_turns flush t | r \<Rightarrow> r)"
  by pat_completeness auto
termination
proof (relation "measure (\<lambda>(flush, s). unread s)", goal_cases)
  case (2 flush s t)
  then show ?case using huff_step_moves [of s flush] by (simp add: moves_def)
qed simp

declare huff_turns.simps [simp del]

text \<open>What a function gives after its loop.\<close>

definition finish_loop :: "int \<Rightarrow> (deflate_state \<Rightarrow> nat) \<Rightarrow> step \<Rightarrow> block_state \<times> deflate_state" where
  "finish_loop flush ins r =
     (case r of Continue s \<Rightarrow> (need_more, s) | Return b s \<Rightarrow> (b, s) | Break s \<Rightarrow> end_blocks flush (ins s) s)"

definition deflate_huff :: "int \<Rightarrow> deflate_state \<Rightarrow> block_state \<times> deflate_state" where
  "deflate_huff flush s = finish_loop flush (\<lambda>_. 0) (huff_turns flush s)"

section \<open>Z_RLE\<close>

text \<open>The unrolled loop over a run of the byte \<open>c\<close>: eight comparisons, and the loop around them.\<close>

fun run_bytes :: "nat \<Rightarrow> u8 list \<Rightarrow> u8 \<Rightarrow> nat \<Rightarrow> bool \<times> nat" where
  "run_bytes 0 w c scan = (True, scan)"
| "run_bytes (Suc n) w c scan =
     (if c = w ! (scan + 1) then run_bytes n w c (scan + 1) else (False, scan + 1))"

lemma run_bytes_scan: "run_bytes n w c scan = (True, scan') \<Longrightarrow> scan' = scan + n"
  by (induction n arbitrary: scan) (fastforce split: if_splits)+

function run_loop :: "u8 list \<Rightarrow> u8 \<Rightarrow> nat \<Rightarrow> nat \<Rightarrow> nat" where
  "run_loop w c strend scan =
     (let (eq, scan') = run_bytes 8 w c scan
      in if eq \<and> scan' < strend then run_loop w c strend scan' else scan')"
  by pat_completeness auto
termination
  by (relation "measure (\<lambda>(w, c, strend, scan). strend - scan)") (auto dest!: run_bytes_scan [OF sym])

declare run_loop.simps [simp del]

definition rle_length :: "deflate_state \<Rightarrow> nat" where
  "rle_length s =
     (if lookahead s \<ge> MIN_MATCH \<and> strstart s > 0 then
        (let scan = strstart s - 1;
             c = window s ! scan
         in if c = window s ! (scan + 1) \<and> c = window s ! (scan + 2) \<and> c = window s ! (scan + 3) then
              (let strend = strstart s + MAX_MATCH;
                   len = MAX_MATCH - (strend - run_loop (window s) c strend (scan + 3))
               in if len > lookahead s then lookahead s else len)
            else 0)
      else 0)"

definition rle_body :: "deflate_state \<Rightarrow> step" where
  "rle_body s =
     (let s = s\<lparr>match_length := rle_length s\<rparr>
      in if match_length s \<ge> MIN_MATCH then
           (let (bflush, s) = tr_tally_dist s 1 (match_length s - MIN_MATCH);
                s = s\<lparr>lookahead := lookahead s - match_length s,
                      strstart := strstart s + match_length s, match_length := 0\<rparr>
            in if bflush then FLUSH_BLOCK 0 s Continue else Continue s)
         else emit_literal s)"

definition rle_step :: "int \<Rightarrow> deflate_state \<Rightarrow> step" where
  "rle_step flush s =
     (let s = (if lookahead s \<le> MAX_MATCH then fill_window s else s)
      in if lookahead s \<le> MAX_MATCH \<and> flush = Z_NO_FLUSH then Return need_more s
         else if lookahead s = 0 then Break s
         else rle_body s)"

lemma tally_dist_fields [simp]:
  "lookahead (snd (tr_tally_dist s d l)) = lookahead s"
  "strm_next_in (snd (tr_tally_dist s d l)) = strm_next_in s"
  "match_length (snd (tr_tally_dist s d l)) = match_length s"
  "prev_length (snd (tr_tally_dist s d l)) = prev_length s"
  by (simp_all add: tr_tally_dist_def Let_def)

lemma rle_body_moves: "lookahead s \<noteq> 0 \<Longrightarrow> moves s (rle_body s)"
proof -
  assume l: "lookahead s \<noteq> 0"
  let ?s = "s\<lparr>match_length := rle_length s\<rparr>"
  have "moves ?s (rle_body s)"
    using emit_literal_moves [of ?s] l
    by (simp add: rle_body_def Let_def case_prod_unfold unread_def match_consts)
  then show ?thesis by (rule moves_via [rotated]) (simp add: unread_def)
qed

lemma rle_step_moves: "moves s (rle_step flush s)"
  using rle_body_moves [of s] moves_via [OF fill_window_unread rle_body_moves, of s]
  by (auto simp: rle_step_def Let_def)

function rle_turns :: "int \<Rightarrow> deflate_state \<Rightarrow> step" where
  "rle_turns flush s =
     (case rle_step flush s of Continue t \<Rightarrow> rle_turns flush t | r \<Rightarrow> r)"
  by pat_completeness auto
termination
proof (relation "measure (\<lambda>(flush, s). unread s)", goal_cases)
  case (2 flush s t)
  then show ?case using rle_step_moves [of s flush] by (simp add: moves_def)
qed simp

declare rle_turns.simps [simp del]

definition deflate_rle :: "int \<Rightarrow> deflate_state \<Rightarrow> block_state \<times> deflate_state" where
  "deflate_rle flush s = finish_loop flush (\<lambda>_. 0) (rle_turns flush s)"

section \<open>Fast compression\<close>

text \<open>The test at the top of the loops of \<open>deflate_fast\<close> and \<open>deflate_slow\<close>.\<close>

definition need_lookahead :: "int \<Rightarrow> deflate_state \<Rightarrow> (deflate_state \<Rightarrow> step) \<Rightarrow> step" where
  "need_lookahead flush s body =
     (if lookahead s < MIN_LOOKAHEAD then
        (let s = fill_window s
         in if lookahead s < MIN_LOOKAHEAD \<and> flush = Z_NO_FLUSH then Return need_more s
            else if lookahead s = 0 then Break s
            else body s)
      else body s)"

definition insert_here :: "deflate_state \<Rightarrow> nat \<times> deflate_state" where
  "insert_here s = (if lookahead s \<ge> MIN_MATCH then INSERT_STRING (strstart s) s else (NIL, s))"

text \<open>\<open>do { s->strstart++; INSERT_STRING(s, s->strstart, hash_head); } while (--s->match_length != 0);\<close>\<close>

fun insert_run :: "nat \<Rightarrow> deflate_state \<Rightarrow> deflate_state" where
  "insert_run 0 s = s"
| "insert_run (Suc n) s =
     (let s = s\<lparr>strstart := strstart s + 1\<rparr> in insert_run n (snd (INSERT_STRING (strstart s) s)))"

text \<open>The distance to a match, an \<open>unsigned\<close> difference: sliding the window may take the start of the
  previous match below 0.\<close>

definition distance :: "deflate_state \<Rightarrow> u32 \<Rightarrow> nat" where
  "distance s start = unat (word_of_nat (strstart s) - start)"

definition fast_match :: "deflate_state \<Rightarrow> step" where
  "fast_match s =
     (let (bflush, s) = tr_tally_dist s (distance s (match_start s)) (match_length s - MIN_MATCH);
          s = s\<lparr>lookahead := lookahead s - match_length s\<rparr>;
          s = (if match_length s \<le> max_lazy_match s \<and> lookahead s \<ge> MIN_MATCH then
                 (let s = insert_run (match_length s - 1) s
                  in s\<lparr>match_length := 0, strstart := strstart s + 1\<rparr>)
               else
                 (let s = s\<lparr>strstart := strstart s + match_length s, match_length := 0\<rparr>;
                      s = s\<lparr>ins_h := ucast (window s ! strstart s)\<rparr>
                  in UPDATE_HASH (window s ! (strstart s + 1)) s))
      in if bflush then FLUSH_BLOCK 0 s Continue else Continue s)"

definition fast_body :: "deflate_state \<Rightarrow> step" where
  "fast_body s =
     (let (hash_head, s) = insert_here s;
          s = (if hash_head \<noteq> NIL \<and> strstart s - hash_head \<le> MAX_DIST s then
                 (let (len, s) = longest_match hash_head s in s\<lparr>match_length := len\<rparr>)
               else s)
      in if match_length s \<ge> MIN_MATCH then fast_match s else emit_literal s)"

definition fast_step :: "int \<Rightarrow> deflate_state \<Rightarrow> step" where
  "fast_step flush s = need_lookahead flush s fast_body"

lemma insert_here_fields [simp]:
  "lookahead (snd (insert_here s)) = lookahead s" "strm_next_in (snd (insert_here s)) = strm_next_in s"
  by (simp_all add: insert_here_def)

lemma insert_run_fields [simp]:
  "lookahead (insert_run n s) = lookahead s" "strm_next_in (insert_run n s) = strm_next_in s"
  by (induction n arbitrary: s) (simp_all add: Let_def)

lemma fast_match_moves: "lookahead s \<noteq> 0 \<Longrightarrow> match_length s \<noteq> 0 \<Longrightarrow> moves s (fast_match s)"
  by (simp add: fast_match_def Let_def case_prod_unfold unread_def)

lemma fast_body_moves: "lookahead s \<noteq> 0 \<Longrightarrow> moves s (fast_body s)"
proof -
  assume l: "lookahead s \<noteq> 0"
  define t where "t = snd (insert_here s)"
  define u where "u = (if fst (insert_here s) \<noteq> NIL \<and> strstart t - fst (insert_here s) \<le> MAX_DIST t
    then (snd (longest_match (fst (insert_here s)) t))\<lparr>match_length := fst (longest_match (fst (insert_here s)) t)\<rparr> else t)"
  have u: "lookahead u = lookahead s" "strm_next_in u = strm_next_in s"
    by (simp_all add: u_def t_def longest_match_fields)
  have "fast_body s = (if match_length u \<ge> MIN_MATCH then fast_match u else emit_literal u)"
    by (simp add: fast_body_def Let_def case_prod_unfold u_def t_def)
  then have "moves u (fast_body s)"
    using fast_match_moves [of u] emit_literal_moves [of u] l u by (auto simp: match_consts)
  moreover have "unread u = unread s" using u by (simp add: unread_def)
  ultimately show ?thesis using moves_via by metis
qed

lemma need_lookahead_moves:
  assumes "\<And>t. lookahead t \<noteq> 0 \<Longrightarrow> moves t (body t)"
  shows "moves s (need_lookahead flush s body)"
  using assms [of s] assms [of "fill_window s"] moves_via [OF fill_window_unread [of s]]
  by (auto simp: need_lookahead_def Let_def match_consts)

function fast_turns :: "int \<Rightarrow> deflate_state \<Rightarrow> step" where
  "fast_turns flush s =
     (case fast_step flush s of Continue t \<Rightarrow> fast_turns flush t | r \<Rightarrow> r)"
  by pat_completeness auto
termination
proof (relation "measure (\<lambda>(flush, s). unread s)", goal_cases)
  case (2 flush s t)
  then show ?case
    using need_lookahead_moves [OF fast_body_moves, of s flush] by (simp add: fast_step_def moves_def)
qed simp

declare fast_turns.simps [simp del]

definition last_strings :: "deflate_state \<Rightarrow> nat" where
  "last_strings s = (if strstart s < MIN_MATCH - 1 then strstart s else MIN_MATCH - 1)"

definition deflate_fast :: "int \<Rightarrow> deflate_state \<Rightarrow> block_state \<times> deflate_state" where
  "deflate_fast flush s = finish_loop flush last_strings (fast_turns flush s)"

section \<open>Lazy evaluation\<close>

text \<open>The search of \<open>deflate_slow\<close>, with the matches it discards.\<close>

definition slow_search :: "nat \<Rightarrow> deflate_state \<Rightarrow> deflate_state" where
  "slow_search hash_head s =
     (let s = s\<lparr>prev_length := match_length s, prev_match := match_start s, match_length := MIN_MATCH - 1\<rparr>
      in if hash_head \<noteq> NIL \<and> prev_length s < max_lazy_match s \<and> strstart s - hash_head \<le> MAX_DIST s then
           (let (len, s) = longest_match hash_head s;
                s = s\<lparr>match_length := len\<rparr>
            in if match_length s \<le> 5 \<and>
                  (strategy s = Z_FILTERED \<or>
                   (match_length s = MIN_MATCH \<and> distance s (match_start s) > TOO_FAR))
               then s\<lparr>match_length := MIN_MATCH - 1\<rparr> else s)
         else s)"

text \<open>\<open>do { if (++s->strstart <= max_insert) INSERT_STRING(...); } while (--s->prev_length != 0);\<close>\<close>

fun insert_upto :: "nat \<Rightarrow> nat \<Rightarrow> deflate_state \<Rightarrow> deflate_state" where
  "insert_upto max_insert 0 s = s"
| "insert_upto max_insert (Suc n) s =
     (let s = s\<lparr>strstart := strstart s + 1\<rparr>;
          s = (if strstart s \<le> max_insert then snd (INSERT_STRING (strstart s) s) else s)
      in insert_upto max_insert n s)"

definition slow_match :: "deflate_state \<Rightarrow> step" where
  "slow_match s =
     (let max_insert = strstart s + lookahead s - MIN_MATCH;
          (bflush, s) = tr_tally_dist s (distance s (prev_match s + 1)) (prev_length s - MIN_MATCH);
          s = s\<lparr>lookahead := lookahead s - (prev_length s - 1)\<rparr>;
          s = insert_upto max_insert (prev_length s - 2) s;
          s = s\<lparr>prev_length := 0, match_available := False, match_length := MIN_MATCH - 1,
                strstart := strstart s + 1\<rparr>
      in if bflush then FLUSH_BLOCK 0 s Continue else Continue s)"

definition slow_literal :: "deflate_state \<Rightarrow> step" where
  "slow_literal s =
     (let (bflush, s) = tr_tally_lit s (window s ! (strstart s - 1));
          s = (if bflush then FLUSH_BLOCK_ONLY 0 s else s);
          s = s\<lparr>strstart := strstart s + 1, lookahead := lookahead s - 1\<rparr>
      in if strm_avail_out s = 0 then Return need_more s else Continue s)"

definition slow_body :: "deflate_state \<Rightarrow> step" where
  "slow_body s =
     (let (hash_head, s) = insert_here s;
          s = slow_search hash_head s
      in if prev_length s \<ge> MIN_MATCH \<and> match_length s \<le> prev_length s then slow_match s
         else if match_available s then slow_literal s
         else Continue (s\<lparr>match_available := True, strstart := strstart s + 1, lookahead := lookahead s - 1\<rparr>))"

definition slow_step :: "int \<Rightarrow> deflate_state \<Rightarrow> step" where
  "slow_step flush s = need_lookahead flush s slow_body"

lemma insert_upto_fields [simp]:
  "lookahead (insert_upto m n s) = lookahead s" "strm_next_in (insert_upto m n s) = strm_next_in s"
  by (induction n arbitrary: s) (simp_all add: Let_def)

lemma slow_search_fields [simp]:
  "lookahead (slow_search h s) = lookahead s" "strm_next_in (slow_search h s) = strm_next_in s"
  by (simp_all add: slow_search_def Let_def case_prod_unfold longest_match_fields)

lemma slow_match_moves:
  assumes "lookahead s \<noteq> 0" and "prev_length s \<ge> MIN_MATCH"
  shows "moves s (slow_match s)"
proof -
  have less: "lookahead s - (prev_length s - 1) < lookahead s" "Suc (lookahead s) - prev_length s < lookahead s"
    using assms by (auto simp: match_consts)
  show ?thesis
    using less by (simp add: slow_match_def Let_def case_prod_unfold unread_def)
qed

lemma bi_flush_fields:
  fixes s :: deflate_state
  shows "lookahead (bi_flush s) = lookahead s" "strm_next_in (bi_flush s) = strm_next_in s"
  by (simp_all add: block_frame_fields [OF frame_bits(3)])

lemma flush_pending_fields [simp]:
  "lookahead (flush_pending s) = lookahead s" "strm_next_in (flush_pending s) = strm_next_in s"
  by (simp_all add: flush_pending_def tr_flush_bits_def Let_def bi_flush_fields)

lemma FLUSH_BLOCK_ONLY_fields [simp]:
  "lookahead (FLUSH_BLOCK_ONLY l s) = lookahead s" "strm_next_in (FLUSH_BLOCK_ONLY l s) = strm_next_in s"
  by (simp_all add: FLUSH_BLOCK_ONLY_def Let_def block_frame_fields [OF tr_flush_block_frame])

lemma tally_lit_fields [simp]:
  "lookahead (snd (tr_tally_lit s c)) = lookahead s" "strm_next_in (snd (tr_tally_lit s c)) = strm_next_in s"
  by (simp_all add: tr_tally_lit_def Let_def)

lemma slow_literal_moves: "lookahead s \<noteq> 0 \<Longrightarrow> moves s (slow_literal s)"
  by (simp add: slow_literal_def Let_def case_prod_unfold unread_def)

lemma slow_body_moves: "lookahead s \<noteq> 0 \<Longrightarrow> moves s (slow_body s)"
proof -
  assume l: "lookahead s \<noteq> 0"
  define u where "u = slow_search (fst (insert_here s)) (snd (insert_here s))"
  have u: "lookahead u = lookahead s" "strm_next_in u = strm_next_in s" by (simp_all add: u_def)
  have "slow_body s =
     (if prev_length u \<ge> MIN_MATCH \<and> match_length u \<le> prev_length u then slow_match u
      else if match_available u then slow_literal u
      else Continue (u\<lparr>match_available := True, strstart := strstart u + 1, lookahead := lookahead u - 1\<rparr>))"
    by (simp add: slow_body_def Let_def case_prod_unfold u_def)
  then have "moves u (slow_body s)"
    using slow_match_moves [of u] slow_literal_moves [of u] l u by (simp add: unread_def)
  moreover have "unread u = unread s" using u by (simp add: unread_def)
  ultimately show ?thesis using moves_via by metis
qed

function slow_turns :: "int \<Rightarrow> deflate_state \<Rightarrow> step" where
  "slow_turns flush s =
     (case slow_step flush s of Continue t \<Rightarrow> slow_turns flush t | r \<Rightarrow> r)"
  by pat_completeness auto
termination
proof (relation "measure (\<lambda>(flush, s). unread s)", goal_cases)
  case (2 flush s t)
  then show ?case
    using need_lookahead_moves [OF slow_body_moves, of s flush] by (simp add: slow_step_def moves_def)
qed simp

declare slow_turns.simps [simp del]

text \<open>A literal may still be waiting at the end.\<close>

definition last_literal :: "deflate_state \<Rightarrow> deflate_state" where
  "last_literal s =
     (if match_available s
      then (snd (tr_tally_lit s (window s ! (strstart s - 1))))\<lparr>match_available := False\<rparr> else s)"

definition deflate_slow :: "int \<Rightarrow> deflate_state \<Rightarrow> block_state \<times> deflate_state" where
  "deflate_slow flush s =
     finish_loop flush last_strings
       (case slow_turns flush s of Break s \<Rightarrow> Break (last_literal s) | r \<Rightarrow> r)"

end
