(* ===== verification/Deflate_Window.thy ===== *)
theory Deflate_Window
  imports Deflate_Chains Deflate_Blocks Inflate_Blocks
begin

text \<open>
  The sliding window of \<open>src/src/zlib/deflate.c\<close> holds the input: \<open>stream T h s\<close> says that of the whole
  input \<open>T\<close> the first \<open>h\<close> bytes have left the window, which holds the following bytes up to \<open>strstart +
  lookahead\<close>, and that the rest is still to be read.  \<open>fill_window\<close> keeps that, and the hash chains.
\<close>

definition data_end :: "deflate_state \<Rightarrow> nat" where
  "data_end s = strstart s + lookahead s"

definition stream :: "u8 list \<Rightarrow> nat \<Rightarrow> deflate_state \<Rightarrow> bool" where
  "stream T h s \<longleftrightarrow>
     h \<le> length T \<and> drop h T = take (data_end s) (window s) @ strm_next_in s \<and> data_end s \<le> window_size s"

text \<open>The strings in the hash table, and the hash for the next one.\<close>

definition chain_ok :: "deflate_state \<Rightarrow> bool" where
  "chain_ok s \<longleftrightarrow>
     chains (min (strstart s - d_insert s) (data_end s - 2)) (data_end s) s \<and>
     d_insert s \<le> strstart s \<and> d_insert s < MIN_MATCH"

definition rolled_ok :: "deflate_state \<Rightarrow> bool" where
  "rolled_ok s \<longleftrightarrow> (MIN_MATCH \<le> lookahead s \<longrightarrow> d_insert s = 0 \<and> rolled s (strstart s))"

text \<open>What the window functions leave alone.\<close>

definition kept where
  "kept s = (l_buf s, d_buf s, lit_bufsize s, last_lit s, match_length s, match_available s, prev_length s,
     w_size s, strm_out s, pending_buf s, bi_buf s, bi_valid s, level s, strategy s)"

section \<open>Copying\<close>

lemma memcpy_simps:
  "i + length src \<le> length dst \<Longrightarrow> length (memcpy dst i src) = length dst"
  "e \<le> i \<Longrightarrow> i \<le> length dst \<Longrightarrow> take e (memcpy dst i src) = take e dst"
  "i \<le> length dst \<Longrightarrow> take (i + length src) (memcpy dst i src) = take i dst @ src"
  by (simp_all add: memcpy_def)

section \<open>The pending strings\<close>

lemma sizes_ok_update [simp]:
  "sizes_ok (s\<lparr>d_insert := x\<rparr>) = sizes_ok s" "sizes_ok (s\<lparr>ins_h := y\<rparr>) = sizes_ok s"
  "sizes_ok (s\<lparr>lookahead := x\<rparr>) = sizes_ok s" "sizes_ok (s\<lparr>strstart := x\<rparr>) = sizes_ok s"
  "sizes_ok (s\<lparr>high_water := x\<rparr>) = sizes_ok s" "sizes_ok (s\<lparr>match_length := x\<rparr>) = sizes_ok s"
  "sizes_ok (s\<lparr>match_start := y\<rparr>) = sizes_ok s" "sizes_ok (s\<lparr>block_start := z\<rparr>) = sizes_ok s"
  by (simp_all add: sizes_ok_def)

lemma rolled_update [simp]:
  "rolled (s\<lparr>d_insert := x\<rparr>) p = rolled s p" "rolled (s\<lparr>lookahead := x\<rparr>) p = rolled s p"
  "rolled (s\<lparr>strstart := x\<rparr>) p = rolled s p"
  by (simp_all add: rolled_def)

lemma chains_update [simp]:
  "chains b e (s\<lparr>d_insert := x\<rparr>) = chains b e s" "chains b e (s\<lparr>ins_h := y\<rparr>) = chains b e s"
  "chains b e (s\<lparr>lookahead := x\<rparr>) = chains b e s" "chains b e (s\<lparr>strstart := x\<rparr>) = chains b e s"
  by (auto intro: chains_cong)

lemma insert_pending_chains:
  assumes "sizes_ok s" "rolled s str" "chains (min str (data_end s - 2)) (data_end s) s"
    and "str + d_insert s = strstart s" "MIN_MATCH \<le> lookahead s + d_insert s" "data_end s \<le> 2 * w_size s"
    and "t = insert_pending str s"
  shows "sizes_ok t \<and> chains (min (strstart s - d_insert t) (data_end s - 2)) (data_end s) t \<and>
    rolled t (strstart s - d_insert t) \<and> d_insert t \<le> d_insert s \<and> (MIN_MATCH \<le> lookahead s \<longrightarrow> d_insert t = 0) \<and>
    (\<exists>a b c d. t = s\<lparr>ins_h := a, prev := b, head := c, d_insert := d\<rparr>)"
  using assms
proof (induction str s arbitrary: t rule: insert_pending.induct)
  case (1 str s)
  show ?case
  proof (cases "d_insert s = 0")
    case True
    then have "t = s" using "1.prems"(7) by (subst (asm) insert_pending.simps) simp
    moreover have "\<exists>a b c d. s = s\<lparr>ins_h := a, prev := b, head := c, d_insert := d\<rparr>"
      by (rule exI [of _ "ins_h s"], rule exI [of _ "prev s"], rule exI [of _ "head s"], rule exI [of _ "d_insert s"]) simp
    ultimately show ?thesis using "1.prems" True by simp
  next
    case False
    let ?u = "(snd (INSERT_STRING str s))\<lparr>d_insert := d_insert (snd (INSERT_STRING str s)) - 1\<rparr>"
    have eq: "snd (INSERT_STRING str s) = s\<lparr>ins_h := hash_at s str, prev := (prev s)[str mod w_size s := INSERT_head str s],
        head := (head s)[unat (hash_at s str) := word_of_nat str]\<rparr>"
      using INSERT_STRING_eq [OF "1.prems"(1,2)] by simp
    have ins: "d_insert (snd (INSERT_STRING str s)) = d_insert s" by (simp add: eq)
    have room: "str + 2 < data_end s" using "1.prems"(4,5) by (simp add: data_end_def match_consts)
    obtain u where u_eq: "u = ?u" by simp
    have u: "sizes_ok u" "rolled u (str + 1)" "chains (str + 1) (data_end s) u"
      using INSERT_STRING_rolled [OF "1.prems"(1,2)] INSERT_STRING_chains [OF "1.prems"(1,2,3) _ room "1.prems"(6)]
      by (simp_all add: u_eq)
    have mn: "min (str + 1) (data_end s - 2) = str + 1" using room by simp
    have f: "data_end u = data_end s" "strstart u = strstart s" "lookahead u = lookahead s" "w_size u = w_size s"
      "d_insert u = d_insert s - 1" by (simp_all add: u_eq data_end_def eq)
    have shape: "\<exists>a b c d. u = s\<lparr>ins_h := a, prev := b, head := c, d_insert := d\<rparr>" unfolding u_eq by (subst eq) blast
    show ?thesis
    proof (cases "lookahead s + (d_insert s - 1) < MIN_MATCH")
      case True
      then have t: "t = u" using "1.prems"(7) False by (subst (asm) insert_pending.simps) (simp add: Let_def ins u_eq)
      have "strstart s - (d_insert s - 1) = str + 1" using "1.prems"(4) False by simp
      moreover have "MIN_MATCH \<le> lookahead s \<longrightarrow> d_insert s - 1 = 0" using True by (simp add: match_consts)
      ultimately show ?thesis
        using u mn shape unfolding t f by (simp del: One_nat_def)
    next
      case go: False
      then have t: "t = insert_pending (str + 1) u"
        using "1.prems"(7) False by (subst (asm) insert_pending.simps) (simp add: Let_def ins u_eq)
      have "sizes_ok t \<and> chains (min (strstart u - d_insert t) (data_end u - 2)) (data_end u) t \<and>
          rolled t (strstart u - d_insert t) \<and> d_insert t \<le> d_insert u \<and> (MIN_MATCH \<le> lookahead u \<longrightarrow> d_insert t = 0) \<and>
          (\<exists>a b c d. t = u\<lparr>ins_h := a, prev := b, head := c, d_insert := d\<rparr>)"
      proof (rule "1.IH" [OF False refl u_eq])
        show "\<not> lookahead u + d_insert u < MIN_MATCH" using go f by simp
        show "chains (min (str + 1) (data_end u - 2)) (data_end u) u" using u(3) mn f by simp
        show "str + 1 + d_insert u = strstart u" using "1.prems"(4) False f by simp
        show "MIN_MATCH \<le> lookahead u + d_insert u" using go f by simp
        show "data_end u \<le> 2 * w_size u" using "1.prems"(6) f by simp
      qed (rule u t)+
      moreover obtain a b c d where "u = s\<lparr>ins_h := a, prev := b, head := c, d_insert := d\<rparr>" using shape by blast
      ultimately show ?thesis unfolding f by auto
    qed
  qed
qed

section \<open>Filling the window\<close>

text \<open>\<open>n\<close> bytes have left the window on the way from \<open>s\<close> to \<open>t\<close>.\<close>

definition fills :: "u8 list \<Rightarrow> nat \<Rightarrow> nat \<Rightarrow> deflate_state \<Rightarrow> deflate_state \<Rightarrow> bool" where
  "fills T h n s t \<longleftrightarrow>
     sizes_ok t \<and> stream T (h + n) t \<and> chain_ok t \<and> kept t = kept s \<and> (rolled_ok s \<longrightarrow> rolled_ok t) \<and>
     strstart s = strstart t + n \<and> (0 < strstart s \<longrightarrow> 0 < strstart t) \<and> block_start t = block_start s - int n \<and>
     match_start t = match_start s - word_of_nat n \<and> lookahead s \<le> lookahead t"

lemma fills_refl: "sizes_ok s \<Longrightarrow> stream T h s \<Longrightarrow> chain_ok s \<Longrightarrow> fills T h 0 s s"
  by (simp add: fills_def)

lemma fills_trans:
  assumes a: "fills T h n s t" and b: "fills T (h + n) m t u"
  shows "fills T h (n + m) s u"
proof -
  note a = a [unfolded fills_def] and b = b [unfolded fills_def]
  have "stream T (h + (n + m)) u" using b by (simp only: add.assoc)
  moreover have "match_start u = match_start s - word_of_nat (n + m)"
  proof -
    have "match_start u = match_start t - word_of_nat m" "match_start t = match_start s - word_of_nat n"
      using a b by blast+
    then show ?thesis by (simp only: of_nat_add diff_diff_eq)
  qed
  moreover have "block_start u = block_start s - int (n + m)"
  proof -
    have "block_start u = block_start t - int m" "block_start t = block_start s - int n" using a b by blast+
    then show ?thesis by simp
  qed
  moreover have "strstart s = strstart u + (n + m)" "0 < strstart s \<longrightarrow> 0 < strstart u"
  proof -
    have "strstart t = strstart u + m" "strstart s = strstart t + n" using a b by blast+
    then show "strstart s = strstart u + (n + m)" by simp
    show "0 < strstart s \<longrightarrow> 0 < strstart u" using a b by blast
  qed
  moreover have "lookahead s \<le> lookahead u" using a b le_trans by blast
  moreover have "sizes_ok u" "chain_ok u" "rolled_ok s \<longrightarrow> rolled_ok u" using a b by blast+
  moreover have "kept u = kept s" using a b by (blast intro: trans)
  ultimately show ?thesis unfolding fills_def by blast
qed

lemma rolled_cong:
  "rolled s p \<Longrightarrow> ins_h t = ins_h s \<Longrightarrow> hash_shift t = hash_shift s \<Longrightarrow> hash_mask t = hash_mask s \<Longrightarrow>
    window t ! q = window s ! p \<Longrightarrow> window t ! (q + 1) = window s ! (p + 1) \<Longrightarrow> rolled t q"
  by (simp add: rolled_def)

lemma slide_window_fills:
  assumes s: "sizes_ok s" "stream T h s" "chain_ok s" and far: "w_size s + MAX_DIST s \<le> strstart s"
  shows "fills T h (w_size s) s (slide_window (window_size s - lookahead s - strstart s) s)"
proof -
  let ?r = "window_size s - lookahead s - strstart s" and ?w = "w_size s" and ?e = "data_end s"
  let ?t = "slide_window ?r s"
  note sz = sizes_simps [OF s(1)]
  have e: "?w \<le> ?e" "?e \<le> 2 * ?w" "?r = 2 * ?w - ?e"
    using s(2) far sz(8) by (auto simp: stream_def data_end_def)
  have te: "data_end (slide_window r s) = ?e - ?w" for r using far by (simp add: data_end_def slide_window_fields)
  have d: "drop ?w (take ?e (window s)) = take (?e - ?w) (window ?t)"
  proof (rule nth_equalityI)
    show "length (drop ?w (take ?e (window s))) = length (take (?e - ?w) (window ?t))"
      using e sz(9) sizes_simps(9) [OF slide_window_sizes [OF s(1), of ?r]] by (simp add: slide_window_fields)
    show "drop ?w (take ?e (window s)) ! i = take (?e - ?w) (window ?t) ! i"
      if "i < length (drop ?w (take ?e (window s)))" for i
      using that slide_window_data [OF s(1) e, of i] sz(9) e by (simp add: add.commute)
  qed
  have len: "h + ?e \<le> length T"
    using s(2) sz(8,9) by (auto simp: stream_def dest!: arg_cong [of _ _ length])
  have "drop (h + ?w) T = drop ?w (drop h T)" by (simp add: add.commute)
  also have "drop h T = take ?e (window s) @ strm_next_in s" using s(2) by (simp add: stream_def)
  also have "drop ?w \<dots> = take (?e - ?w) (window ?t) @ strm_next_in s" using d e sz(9) by simp
  finally have stream: "stream T (h + ?w) ?t"
    using len e te sizes_simps(8) [OF slide_window_sizes [OF s(1), of ?r]]
    by (simp add: stream_def slide_window_fields)
  have c0: "chains (min (strstart s - d_insert s) (?e - 2) - ?w) (?e - ?w) ?t"
    using slide_window_chains [OF s(1) _ e] s(3) by (simp add: chain_ok_def)
  have c1: "min (strstart s - d_insert s) (?e - 2) - ?w \<le> min (strstart s - ?w - d_insert s) (?e - ?w - 2)" by arith
  have "d_insert s \<le> strstart s - ?w"
    using far sz(3) s(3) by (auto simp: MAX_DIST_def match_consts chain_ok_def)
  then have chain: "chain_ok ?t"
    using s(3) chains_mono [OF c0 c1 order_refl] by (simp add: chain_ok_def slide_window_fields te)
  have "rolled ?t (strstart s - ?w)" if "rolled s (strstart s)" "3 \<le> lookahead s"
  proof (rule rolled_cong [OF that(1)])
    show "ins_h ?t = ins_h s" by (simp add: slide_window_def slide_hash_def Let_def)
    show "window ?t ! (strstart s - ?w) = window s ! strstart s"
      "window ?t ! (strstart s - ?w + 1) = window s ! (strstart s + 1)"
      using slide_window_data [OF s(1) e, of "strstart s - ?w"] slide_window_data [OF s(1) e, of "strstart s - ?w + 1"]
        that(2) far by (simp_all add: data_end_def)
  qed (simp_all add: slide_window_fields)
  then have "rolled_ok s \<longrightarrow> rolled_ok ?t" by (simp add: rolled_ok_def slide_window_fields match_consts)
  moreover have near: "w_size s < strstart s" using far sz(3) by (auto simp: MAX_DIST_def match_consts)
  moreover have "kept ?t = kept s" by (simp add: kept_def slide_window_def slide_hash_def Let_def)
  ultimately show ?thesis
    using stream chain far near slide_window_sizes [OF s(1), of ?r] by (simp add: fills_def slide_window_fields)
qed

definition fill_read :: "nat \<Rightarrow> deflate_state \<Rightarrow> deflate_state" where
  "fill_read room s =
     (let (buf, s) = read_buf room s
      in s\<lparr>window := memcpy (window s) (strstart s + lookahead s) buf, lookahead := lookahead s + length buf\<rparr>)"

lemma read_buf_data:
  "read_buf room s = (take room (strm_next_in s),
     s\<lparr>strm_next_in := drop room (strm_next_in s), strm_adler := strm_adler (snd (read_buf room s)),
       strm_total_in := strm_total_in (snd (read_buf room s))\<rparr>)"
  by (auto simp: read_buf_def Let_def min_def)

lemma fill_read_fields:
  "strstart (fill_read r s) = strstart s" "d_insert (fill_read r s) = d_insert s"
  "block_start (fill_read r s) = block_start s" "match_start (fill_read r s) = match_start s"
  "ins_h (fill_read r s) = ins_h s" "head (fill_read r s) = head s" "prev (fill_read r s) = prev s"
  "w_size (fill_read r s) = w_size s" "w_bits (fill_read r s) = w_bits s" "w_mask (fill_read r s) = w_mask s"
  "window_size (fill_read r s) = window_size s" "hash_bits (fill_read r s) = hash_bits s"
  "hash_size (fill_read r s) = hash_size s" "hash_shift (fill_read r s) = hash_shift s"
  "hash_mask (fill_read r s) = hash_mask s" "kept (fill_read r s) = kept s"
  "lookahead (fill_read r s) = lookahead s + min (length (strm_next_in s)) r"
  "strm_next_in (fill_read r s) = drop r (strm_next_in s)"
  "window (fill_read r s) = memcpy (window s) (data_end s) (take r (strm_next_in s))"
  by (simp_all add: fill_read_def kept_def data_end_def,
      (subst read_buf_data, simp add: kept_def data_end_def)+)

lemma fill_read_fills:
  assumes s: "sizes_ok s" "stream T h s" "chain_ok s" and r: "data_end s + r \<le> window_size s"
  shows "sizes_ok (fill_read r s)" "stream T h (fill_read r s)" "chain_ok (fill_read r s)"
proof -
  let ?t = "fill_read r s" and ?buf = "take r (strm_next_in s)" and ?e = "data_end s"
  note sz = sizes_simps [OF s(1)]
  have fit: "?e + length ?buf \<le> length (window s)" using r sz(8,9) by simp
  show "sizes_ok ?t" using s(1) memcpy_simps(1) [OF fit] by (simp add: sizes_ok_def fill_read_fields)
  have e: "data_end ?t = ?e + length ?buf" by (simp add: data_end_def fill_read_fields)
  have w: "take (data_end ?t) (window ?t) = take ?e (window s) @ ?buf"
    using memcpy_simps(3) [of ?e "window s" ?buf] fit by (simp add: e fill_read_fields del: length_take)
  show "stream T h ?t"
    using s(2) r by (simp add: stream_def w) (simp add: e fill_read_fields)
  have "chains (min (strstart s - d_insert s) (data_end ?t - 2)) (data_end ?t) ?t"
  proof (rule chains_cong)
    show "chains (min (strstart s - d_insert s) (?e - 2)) ?e s" using s(3) by (simp add: chain_ok_def)
    show "take ?e (window ?t) = take ?e (window s)"
      using memcpy_simps(2) [of ?e ?e "window s" ?buf] fit by (simp add: fill_read_fields)
    show "min (strstart s - d_insert s) (?e - 2) \<le> min (strstart s - d_insert s) (data_end ?t - 2)"
      unfolding e by arith
  qed (simp_all add: fill_read_fields e)
  then show "chain_ok ?t" using s(3) by (simp add: chain_ok_def fill_read_fields)
qed

text \<open>The hash after reading, with the strings that were pending.\<close>

definition fill_hash :: "deflate_state \<Rightarrow> deflate_state" where
  "fill_hash s =
     (if lookahead s + d_insert s \<ge> MIN_MATCH then
        (let str = strstart s - d_insert s
         in insert_pending str (UPDATE_HASH (window s ! (str + 1)) (s\<lparr>ins_h := ucast (window s ! str)\<rparr>)))
      else s)"

lemma fill_step_eq:
  "fill_step s =
     (let room = window_size s - lookahead s - strstart s;
          (room, u) = (if strstart s \<ge> w_size s + MAX_DIST s then (room + w_size s, slide_window room s) else (room, s))
      in if strm_next_in u = [] then (False, u) else (True, fill_hash (fill_read room u)))"
  by (simp add: fill_step_def fill_hash_def fill_read_def Let_def case_prod_unfold UPDATE_HASH_def)

lemma fill_hash_fills:
  assumes s: "sizes_ok s" "stream T h s" "chain_ok s"
  shows "fills T h 0 s (fill_hash s)" "rolled_ok (fill_hash s)" "lookahead (fill_hash s) = lookahead s"
    "strm_next_in (fill_hash s) = strm_next_in s"
proof -
  have "fills T h 0 s (fill_hash s) \<and> rolled_ok (fill_hash s) \<and> lookahead (fill_hash s) = lookahead s \<and>
    strm_next_in (fill_hash s) = strm_next_in s"
  proof (cases "lookahead s + d_insert s \<ge> MIN_MATCH")
    case True
    let ?str = "strstart s - d_insert s"
    let ?u = "UPDATE_HASH (window s ! (?str + 1)) (s\<lparr>ins_h := ucast (window s ! ?str)\<rparr>)"
    let ?t = "insert_pending ?str ?u"
    have t: "fill_hash s = ?t" using True by (simp add: fill_hash_def Let_def)
    have u: "?u = s\<lparr>ins_h := ins_h ?u\<rparr>" by (simp add: UPDATE_HASH_def)
    have f: "data_end ?u = data_end s" "strstart ?u = strstart s" "lookahead ?u = lookahead s" "w_size ?u = w_size s"
      "d_insert ?u = d_insert s" by (simp_all add: data_end_def UPDATE_HASH_def)
    have "sizes_ok ?t \<and> chains (min (strstart ?u - d_insert ?t) (data_end ?u - 2)) (data_end ?u) ?t \<and>
      rolled ?t (strstart ?u - d_insert ?t) \<and> d_insert ?t \<le> d_insert ?u \<and> (MIN_MATCH \<le> lookahead ?u \<longrightarrow> d_insert ?t = 0) \<and>
      (\<exists>a b c d. ?t = ?u\<lparr>ins_h := a, prev := b, head := c, d_insert := d\<rparr>)"
    proof (rule insert_pending_chains)
      show "sizes_ok ?u" using s(1) by (subst u) simp
      show "rolled ?u ?str" by (rule rolled_init [OF s(1)])
      show "chains (min ?str (data_end ?u - 2)) (data_end ?u) ?u"
        unfolding f using s(3) by (subst u) (simp add: chain_ok_def)
      show "?str + d_insert ?u = strstart ?u" using s(3) unfolding f by (simp add: chain_ok_def)
      show "MIN_MATCH \<le> lookahead ?u + d_insert ?u" using True unfolding f .
      show "data_end ?u \<le> 2 * w_size ?u" using s(2) sizes_simps(8) [OF s(1)] unfolding f by (simp add: stream_def)
    qed simp
    then obtain a b c d where i: "sizes_ok ?t" "chains (min (strstart s - d_insert ?t) (data_end s - 2)) (data_end s) ?t"
        "rolled ?t (strstart s - d_insert ?t)" "d_insert ?t \<le> d_insert s" "MIN_MATCH \<le> lookahead s \<longrightarrow> d_insert ?t = 0"
        "?t = ?u\<lparr>ins_h := a, prev := b, head := c, d_insert := d\<rparr>" unfolding f by blast
    define v where "v = ?t"
    have e: "v = s\<lparr>ins_h := a, prev := b, head := c, d_insert := d\<rparr>"
      using i(6) unfolding v_def by (subst (asm) (2) u) simp
    have k: "strstart v = strstart s" "lookahead v = lookahead s" "data_end v = data_end s" "window v = window s"
      "window_size v = window_size s" "strm_next_in v = strm_next_in s" "block_start v = block_start s"
      "match_start v = match_start s" "kept v = kept s"
      unfolding e data_end_def kept_def by simp_all
    show ?thesis
      using i(1-5) [folded v_def] s(2,3) unfolding t v_def [symmetric]
      by (cases "MIN_MATCH \<le> lookahead s") (simp_all add: fills_def k stream_def chain_ok_def rolled_ok_def)
  next
    case False
    then show ?thesis using fills_refl [OF s] by (simp add: fill_hash_def rolled_ok_def match_consts)
  qed
  then show "fills T h 0 s (fill_hash s)" "rolled_ok (fill_hash s)" "lookahead (fill_hash s) = lookahead s"
    "strm_next_in (fill_hash s) = strm_next_in s" by simp_all
qed

lemma fill_step_fills:
  assumes s: "sizes_ok s" "stream T h s" "chain_ok s" and r: "fill_step s = (go, t)"
  shows "\<exists>n. fills T h n s t" "go \<Longrightarrow> rolled_ok t"
    "lookahead s < MIN_LOOKAHEAD \<Longrightarrow> go \<Longrightarrow> length (strm_next_in t) < length (strm_next_in s)"
proof -
  note sz = sizes_simps [OF s(1)]
  obtain room u n where u: "(if strstart s \<ge> w_size s + MAX_DIST s
        then (window_size s - lookahead s - strstart s + w_size s, slide_window (window_size s - lookahead s - strstart s) s)
        else (window_size s - lookahead s - strstart s, s)) = (room, u)"
      "fills T h n s u" "room = window_size s - data_end u" "data_end u \<le> window_size s"
      "strm_next_in u = strm_next_in s" "w_size u = w_size s" "window_size u = window_size s"
      "lookahead s < MIN_LOOKAHEAD \<Longrightarrow> 0 < room"
  proof (cases "strstart s \<ge> w_size s + MAX_DIST s")
    case True
    have "window_size s - lookahead s - strstart s + w_size s =
        window_size s - data_end (slide_window (window_size s - lookahead s - strstart s) s)"
      using True s(2) sz(8) by (auto simp: data_end_def slide_window_fields stream_def)
    moreover have "data_end s - w_size s \<le> window_size s" using s(2) by (auto simp: stream_def)
    ultimately show ?thesis
      using that [OF _ slide_window_fills [OF s True]] True sz(3)
      by (simp add: slide_window_fields data_end_def) (simp add: slide_window_def slide_hash_def Let_def)
  next
    case False
    then show ?thesis
      using that [OF _ fills_refl [OF s]] s(2) sz(3,8)
      by (simp add: data_end_def stream_def MAX_DIST_def match_consts)
  qed
  have f: "sizes_ok u" "stream T (h + n) u" "chain_ok u" using u(2) by (simp_all add: fills_def)
  have step: "(go, t) = (if strm_next_in u = [] then (False, u) else (True, fill_hash (fill_read room u)))"
    using r unfolding fill_step_eq Let_def u(1) by (auto split: if_splits)
  note rd = fill_read_fills [OF f, of room]
  have fit: "data_end u + room \<le> window_size u" using u by simp
  note h = fill_hash_fills [OF rd(1-3) [OF fit]]
  have "fills T (h + n) 0 u (fill_read room u)"
    if "rolled_ok (fill_read room u)" using rd [OF fit] that by (simp add: fills_def fill_read_fields)
  have "fills T (h + n) 0 u (fill_hash (fill_read room u))"
    using h by (simp add: fills_def fill_read_fields)
  then have "fills T h n s (fill_hash (fill_read room u))" using fills_trans [OF u(2)] by fastforce
  then show "\<exists>n. fills T h n s t" using step u(2) by (auto split: if_splits)
  show "rolled_ok t" if go using step h that by (auto split: if_splits)
  show "length (strm_next_in t) < length (strm_next_in s)" if "lookahead s < MIN_LOOKAHEAD" go
    using step h(4) u(5) u(8) [OF that(1)] that(2) by (auto simp: fill_read_fields split: if_splits)
qed

text \<open>So the loop reads in every turn, and the guard in \<open>window_loop\<close> is always met.\<close>

lemma fill_step_reads:
  "sizes_ok s \<Longrightarrow> stream T h s \<Longrightarrow> chain_ok s \<Longrightarrow> lookahead s < MIN_LOOKAHEAD \<Longrightarrow> fill_step s = (True, t) \<Longrightarrow>
    length (strm_next_in t) < length (strm_next_in s)"
  using fill_step_fills(3) by blast

lemma window_loop_fills:
  "sizes_ok s \<Longrightarrow> stream T h s \<Longrightarrow> chain_ok s \<Longrightarrow> \<exists>n. fills T h n s (window_loop s)"
proof (induction s arbitrary: h rule: window_loop.induct)
  case (1 s)
  obtain go t where f: "fill_step s = (go, t)" by fastforce
  obtain n where n: "fills T h n s t" using fill_step_fills(1) [OF "1.prems" f] by blast
  show ?case
  proof (cases "go \<and> lookahead t < MIN_LOOKAHEAD \<and> strm_next_in t \<noteq> [] \<and> length (strm_next_in t) < length (strm_next_in s)")
    case True
    have "sizes_ok t" "stream T (h + n) t" "chain_ok t" using n by (simp_all add: fills_def)
    then obtain m where "fills T (h + n) m t (window_loop t)"
      using "1.IH" [OF refl f [symmetric] True] by blast
    moreover have "window_loop s = window_loop t" by (subst window_loop.simps) (simp add: f True)
    ultimately show ?thesis using fills_trans [OF n] by auto
  next
    case False
    then have "window_loop s = t" by (subst window_loop.simps) (auto simp: f)
    then show ?thesis using n by auto
  qed
qed

lemma zero_ahead_fills:
  assumes s: "sizes_ok s" "stream T h s" "chain_ok s"
  shows "fills T h 0 s (zero_ahead s)"
proof -
  consider (ahead) i n b where "zero_ahead s = s\<lparr>window := memcpy (window s) i (replicate n 0), high_water := b\<rparr>"
      "data_end s \<le> i" "i + n \<le> window_size s" | (same) "zero_ahead s = s"
  proof -
    have e: "data_end s \<le> window_size s" using s(2) by (simp add: stream_def)
    consider "\<not> high_water s < window_size s" | "high_water s < window_size s" "high_water s < data_end s"
      | "high_water s < window_size s" "data_end s \<le> high_water s" by linarith
    then show ?thesis
    proof cases
      case 1
      then show ?thesis using that(2) by (simp add: zero_ahead_def)
    next
      case 2
      let ?n = "if window_size s - data_end s > WIN_INIT then WIN_INIT else window_size s - data_end s"
      have "zero_ahead s = s\<lparr>window := memcpy (window s) (data_end s) (replicate ?n 0), high_water := data_end s + ?n\<rparr>"
        unfolding zero_ahead_def Let_def data_end_def [symmetric] using 2 by (simp only: if_True)
      then show ?thesis by (rule that(1)) (use e in auto)
    next
      case 3
      let ?m = "data_end s + WIN_INIT - high_water s"
      let ?n = "if ?m > window_size s - high_water s then window_size s - high_water s else ?m"
      have no: "\<not> high_water s < data_end s" using 3 by simp
      show ?thesis
      proof (cases "high_water s < data_end s + WIN_INIT")
        case True
        have "zero_ahead s = s\<lparr>window := memcpy (window s) (high_water s) (replicate ?n 0), high_water := high_water s + ?n\<rparr>"
          unfolding zero_ahead_def Let_def data_end_def [symmetric] using 3(1) no True by (simp only: if_True if_False)
        then show ?thesis by (rule that(1)) (use 3 in auto)
      next
        case False
        have "zero_ahead s = s"
          unfolding zero_ahead_def Let_def data_end_def [symmetric] using 3(1) no False by (simp only: if_True if_False)
        then show ?thesis by (rule that(2))
      qed
    qed
  qed
  then show ?thesis
  proof cases
    case ahead
    note z = ahead
    let ?t = "zero_ahead s"
    have fit: "i + length (replicate n 0) \<le> length (window s)" using z(3) s(1) by (simp add: sizes_ok_def)
    have w: "take (data_end s) (window ?t) = take (data_end s) (window s)"
      using memcpy_simps(2) [OF z(2)] fit by (simp add: z(1))
    have c: "chains b' (data_end s) s \<Longrightarrow> chains b' (data_end s) ?t" for b'
      by (erule chains_cong [OF _ w]) (simp_all add: z(1))
    have "rolled ?t (strstart s)" if "rolled s (strstart s)" "3 \<le> lookahead s"
    proof (rule rolled_cong [OF that(1)])
      have "strstart s < data_end s" "strstart s + 1 < data_end s" using that(2) by (simp_all add: data_end_def)
      then show "window ?t ! strstart s = window s ! strstart s" "window ?t ! (strstart s + 1) = window s ! (strstart s + 1)"
        using w nth_take by metis+
    qed (simp_all add: z(1))
    moreover have "data_end ?t = data_end s" by (simp add: z(1) data_end_def)
    moreover have "sizes_ok ?t" using s(1) memcpy_simps(1) [OF fit] by (simp add: z(1) sizes_ok_def)
    moreover have "strstart ?t = strstart s" "lookahead ?t = lookahead s" "block_start ?t = block_start s"
      "match_start ?t = match_start s" "d_insert ?t = d_insert s" "strm_next_in ?t = strm_next_in s"
      "window_size ?t = window_size s" "kept ?t = kept s"
      by (simp_all add: z(1) kept_def)
    ultimately show ?thesis
      using s w c by (simp add: fills_def stream_def chain_ok_def rolled_ok_def match_consts)
  qed (use fills_refl [OF s] in simp)
qed

lemma fill_window_fills:
  assumes "sizes_ok s" "stream T h s" "chain_ok s"
  shows "\<exists>n. fills T h n s (fill_window s)"
proof -
  obtain n where n: "fills T h n s (window_loop s)" using window_loop_fills [OF assms] by blast
  then have "fills T (h + n) 0 (window_loop s) (zero_ahead (window_loop s))"
    by (intro zero_ahead_fills) (simp_all add: fills_def)
  from fills_trans [OF n this] show ?thesis by (auto simp: fill_window_def)
qed

text \<open>The loop ends with enough lookahead, or at the end of the input.\<close>

lemma window_loop_end:
  "sizes_ok s \<Longrightarrow> stream T h s \<Longrightarrow> chain_ok s \<Longrightarrow> lookahead s < MIN_LOOKAHEAD \<Longrightarrow>
    MIN_LOOKAHEAD \<le> lookahead (window_loop s) \<or> strm_next_in (window_loop s) = []"
proof (induction s arbitrary: h rule: window_loop.induct)
  case (1 s)
  obtain go t where f: "fill_step s = (go, t)" by fastforce
  obtain n where n: "fills T h n s t" using fill_step_fills(1) [OF "1.prems"(1-3) f] by blast
  show ?case
  proof (cases "go \<and> lookahead t < MIN_LOOKAHEAD \<and> strm_next_in t \<noteq> [] \<and> length (strm_next_in t) < length (strm_next_in s)")
    case True
    have "sizes_ok t" "stream T (h + n) t" "chain_ok t" using n by (simp_all add: fills_def)
    moreover have "window_loop s = window_loop t" by (subst window_loop.simps) (simp add: f True)
    ultimately show ?thesis using "1.IH" [OF refl f [symmetric] True] True by simp
  next
    case False
    then have "window_loop s = t" by (subst window_loop.simps) (auto simp: f)
    moreover have "strm_next_in t = []" if "\<not> go"
      using f that by (auto simp: fill_step_def Let_def slide_window_def slide_hash_def split: if_splits prod.splits)
    ultimately show ?thesis using False fill_step_reads [OF "1.prems"] f by auto
  qed
qed

lemma fill_window_end:
  assumes "sizes_ok s" "stream T h s" "chain_ok s" "lookahead s < MIN_LOOKAHEAD"
  shows "MIN_LOOKAHEAD \<le> lookahead (fill_window s) \<or> strm_next_in (fill_window s) = []"
proof -
  have "lookahead (zero_ahead u) = lookahead u" "strm_next_in (zero_ahead u) = strm_next_in u" for u
    by (simp_all add: zero_ahead_def Let_def)
  then show ?thesis using window_loop_end [OF assms] by (simp add: fill_window_def)
qed

end
