(* ===== verification/Deflate_Stored.thy ===== *)
theory Deflate_Stored
  imports Deflate_State
begin

text \<open>
  \<open>deflate_stored\<close> of \<open>src/src/zlib/deflate.c\<close>: stored blocks are copied straight from the input to the
  output while both have room, and what is left goes through the window and the pending buffer.  The
  bytes before \<open>next_in\<close>, which the code reads again to update the window, are those of the input at
  entry.
\<close>

definition header_bytes :: "deflate_state \<Rightarrow> nat" where
  "header_bytes s = (bi_valid s + 42) div 2 ^ 3"

definition bytes_left :: "deflate_state \<Rightarrow> nat" where
  "bytes_left s = nat (int (strstart s) - block_start s)"

text \<open>The dummy block, with its lengths replaced by \<open>len\<close>, and flushed.\<close>

definition stored_header :: "nat \<Rightarrow> int \<Rightarrow> deflate_state \<Rightarrow> deflate_state" where
  "stored_header len last_block s =
     (let s = tr_stored_block s [] 0 last_block;
          n = length (pending_buf s);
          p = pending_buf s;
          p = p[n - 4 := word_of_nat len];
          p = p[n - 3 := word_of_nat (len div 2 ^ 8)];
          p = p[n - 2 := ucast (NOT (word_of_nat len :: u32))];
          p = p[n - 1 := ucast (drop_bit 8 (NOT (word_of_nat len :: u32)))]
      in flush_pending (s\<lparr>pending_buf := p\<rparr>))"

text \<open>Writing to \<open>next_out\<close> past the pending buffer.\<close>

definition write_out :: "u8 list \<Rightarrow> deflate_state \<Rightarrow> deflate_state" where
  "write_out bs s =
     s\<lparr>strm_out := strm_out s @ bs, strm_avail_out := strm_avail_out s - length bs,
       strm_total_out := strm_total_out s + word_of_nat (length bs)\<rparr>"

text \<open>The two copies of a direct block: from the window, then from the input.\<close>

definition stored_copy :: "nat \<Rightarrow> nat \<Rightarrow> deflate_state \<Rightarrow> deflate_state" where
  "stored_copy left len s =
     (let (len, s) =
        (if left \<noteq> 0 then
           (let left = (if left > len then len else left);
                s = write_out (take left (drop (nat (block_start s)) (window s))) s
            in (len - left, s\<lparr>block_start := block_start s + int left\<rparr>))
         else (len, s))
      in if len \<noteq> 0 then (let (buf, s) = read_buf len s in write_out buf s) else s)"

text \<open>One turn of the first loop: \<open>None\<close> for a \<open>break\<close>, otherwise \<open>last\<close>.\<close>

definition stored_turn :: "int \<Rightarrow> nat \<Rightarrow> deflate_state \<Rightarrow> (int \<times> deflate_state) option" where
  "stored_turn flush min_block s =
     (let len = MAX_STORED;
          have = header_bytes s
      in if strm_avail_out s < have then None
         else
           (let have = strm_avail_out s - have;
                left = bytes_left s;
                avail_in = length (strm_next_in s);
                len = (if len > left + avail_in then left + avail_in else len);
                len = (if len > have then have else len)
            in if len < min_block \<and> ((len = 0 \<and> flush \<noteq> Z_FINISH) \<or> flush = Z_NO_FLUSH \<or> len \<noteq> left + avail_in)
               then None
               else
                 (let last_block = (if flush = Z_FINISH \<and> len = left + avail_in then 1 else 0)
                  in Some (last_block, stored_copy left len (stored_header len last_block s)))))"

lemma flush_pending_avail: "strm_avail_out (flush_pending s) \<le> strm_avail_out s"
  by (simp add: flush_pending_def tr_flush_bits_def bi_flush_def put_byte_def put_short_def Let_def)

lemma write_out_avail: "strm_avail_out (write_out bs s) \<le> strm_avail_out s"
  by (simp add: write_out_def)

lemma stored_copy_avail: "strm_avail_out (stored_copy left len s) \<le> strm_avail_out s"
  by (auto simp: stored_copy_def Let_def write_out_def read_buf_def split: prod.split)

lemma stored_header_avail:
  assumes "0 < strm_avail_out s"
  shows "strm_avail_out (stored_header len last_block s) < strm_avail_out s"
proof -
  have av: "strm_avail_out (tr_stored_block s [] 0 last_block) = strm_avail_out s"
    by (simp add: tr_stored_block_def send_bits_def bi_windup_def put_short_def put_byte_def Let_def)
  have n: "0 < length (pending_buf (tr_stored_block s [] 0 last_block))"
    by (simp add: tr_stored_block_def put_short_def put_byte_def Let_def)
  let ?t = "\<lambda>p. (tr_stored_block s [] 0 last_block)\<lparr>pending_buf := p\<rparr>"
  have "0 < length (pending_buf (bi_flush (?t p)))" if "0 < length p" for p
    using that by (simp add: bi_flush_def put_short_def put_byte_def Let_def)
  moreover have "strm_avail_out (bi_flush (?t p)) = strm_avail_out s" for p
    using av by (simp add: bi_flush_def put_short_def put_byte_def Let_def)
  ultimately have "strm_avail_out (flush_pending (?t p)) < strm_avail_out s" if "0 < length p" for p
    using that assms by (fastforce simp: flush_pending_def tr_flush_bits_def Let_def)
  then show ?thesis using n by (simp add: stored_header_def Let_def)
qed

lemma stored_turn_avail:
  "stored_turn flush min_block s = Some (last_block, t) \<Longrightarrow> strm_avail_out t < strm_avail_out s"
proof -
  assume a: "stored_turn flush min_block s = Some (last_block, t)"
  then have "header_bytes s \<le> strm_avail_out s" by (simp add: stored_turn_def Let_def split: if_splits)
  then have "0 < strm_avail_out s" by (simp add: header_bytes_def)
  moreover obtain left len l where "t = stored_copy left len (stored_header l last_block s)"
    using a by (auto simp: stored_turn_def Let_def split: if_splits)
  ultimately show ?thesis
    using stored_copy_avail [of left len "stored_header l last_block s"] stored_header_avail [of s l last_block] by simp
qed

function stored_loop :: "int \<Rightarrow> nat \<Rightarrow> deflate_state \<Rightarrow> int \<times> deflate_state" where
  "stored_loop flush min_block s =
     (case stored_turn flush min_block s of
        None \<Rightarrow> (0, s)
      | Some (last_block, t) \<Rightarrow> if last_block = 0 then stored_loop flush min_block t else (last_block, t))"
  by pat_completeness auto
termination
  by (relation "measure (\<lambda>(flush, min_block, s). strm_avail_out s)") (auto dest: stored_turn_avail)

declare stored_loop.simps [simp del]

text \<open>The window after \<open>used\<close> bytes of the input \<open>inp\<close> have been copied past it.\<close>

definition stored_window :: "u8 list \<Rightarrow> nat \<Rightarrow> deflate_state \<Rightarrow> deflate_state" where
  "stored_window inp used s =
     (let s =
        (if used \<noteq> 0 then
           (let s =
              (if used \<ge> w_size s then
                 s\<lparr>matches := 2,
                   window := memcpy (window s) 0 (take (w_size s) (drop (used - w_size s) inp)),
                   strstart := w_size s\<rparr>
               else
                 (let s =
                    (if window_size s - strstart s \<le> used then
                       (let s = s\<lparr>strstart := strstart s - w_size s\<rparr>;
                            s = s\<lparr>window := memcpy (window s) 0 (take (strstart s) (drop (w_size s) (window s)))\<rparr>
                        in if matches s < 2 then s\<lparr>matches := matches s + 1\<rparr> else s)
                     else s)
                  in s\<lparr>window := memcpy (window s) (strstart s) (take used inp),
                       strstart := strstart s + used\<rparr>))
            in s\<lparr>block_start := int (strstart s),
                 d_insert := d_insert s + min used (w_size s - d_insert s)\<rparr>)
         else s)
      in if high_water s < strstart s then s\<lparr>high_water := strstart s\<rparr> else s)"

definition stored_fill :: "deflate_state \<Rightarrow> deflate_state" where
  "stored_fill s =
     (let have = window_size s - strstart s - 1;
          (have, s) =
            (if length (strm_next_in s) > have \<and> block_start s \<ge> int (w_size s) then
               (let s = s\<lparr>block_start := block_start s - int (w_size s), strstart := strstart s - w_size s\<rparr>;
                    s = s\<lparr>window := memcpy (window s) 0 (take (strstart s) (drop (w_size s) (window s)))\<rparr>;
                    s = (if matches s < 2 then s\<lparr>matches := matches s + 1\<rparr> else s)
                in (have + w_size s, s))
             else (have, s));
          have = (if have > length (strm_next_in s) then length (strm_next_in s) else have);
          s = (if have \<noteq> 0 then
                 (let (buf, s) = read_buf have s
                  in s\<lparr>window := memcpy (window s) (strstart s) buf, strstart := strstart s + have\<rparr>)
               else s)
      in if high_water s < strstart s then s\<lparr>high_water := strstart s\<rparr> else s)"

definition stored_pending :: "int \<Rightarrow> deflate_state \<Rightarrow> block_state \<times> deflate_state" where
  "stored_pending flush s =
     (let have = header_bytes s;
          have = min (pending_buf_size s - have) MAX_STORED;
          min_block = min have (w_size s);
          left = bytes_left s
      in if left \<ge> min_block \<or>
            ((left \<noteq> 0 \<or> flush = Z_FINISH) \<and> flush \<noteq> Z_NO_FLUSH \<and> strm_next_in s = [] \<and> left \<le> have) then
           (let len = min left have;
                last_block = (if flush = Z_FINISH \<and> strm_next_in s = [] \<and> len = left then 1 else 0);
                s = tr_stored_block s (drop (nat (block_start s)) (window s)) len last_block;
                s = flush_pending (s\<lparr>block_start := block_start s + int len\<rparr>)
            in (if last_block \<noteq> 0 then finish_started else need_more, s))
         else (need_more, s))"

definition deflate_stored :: "int \<Rightarrow> deflate_state \<Rightarrow> block_state \<times> deflate_state" where
  "deflate_stored flush s =
     (let min_block = min (pending_buf_size s - 5) (w_size s);
          inp = strm_next_in s;
          (last_block, s) = stored_loop flush min_block s;
          s = stored_window inp (length inp - length (strm_next_in s)) s
      in if last_block \<noteq> 0 then (finish_done, s)
         else if flush \<noteq> Z_NO_FLUSH \<and> flush \<noteq> Z_FINISH \<and> strm_next_in s = [] \<and>
                 int (strstart s) = block_start s then (block_done, s)
         else stored_pending flush (stored_fill s))"

end
