(* ===== verification/Deflate.thy ===== *)
theory Deflate
  imports Deflate_Blocks Deflate_Stored
begin

text \<open>
  The stream interface of the compressor, \<open>src/src/zlib/deflate.c\<close>: \<open>deflate()\<close> with its headers and
  trailers, and the calls around it.  A call returns its value and the stream; \<open>strm_ready\<close> says that the
  stream, its allocators and its state are there.
\<close>

unbundle bit_operations_syntax

definition RANK :: "int \<Rightarrow> int" where
  "RANK f = f * 2 - (if f > 4 then 9 else 0)"

definition OS_CODE :: u8 where "OS_CODE = 3"

definition deflateStateCheck :: "deflate_state \<Rightarrow> bool" where
  "deflateStateCheck s \<longleftrightarrow>
     \<not> strm_ready s \<or>
     (status s \<noteq> INIT_STATE \<and> status s \<noteq> GZIP_STATE \<and> status s \<noteq> EXTRA_STATE \<and> status s \<noteq> NAME_STATE \<and>
      status s \<noteq> COMMENT_STATE \<and> status s \<noteq> HCRC_STATE \<and> status s \<noteq> BUSY_STATE \<and> status s \<noteq> FINISH_STATE)"

section \<open>Reset\<close>

definition lm_init :: "deflate_state \<Rightarrow> deflate_state" where
  "lm_init s =
     (let s = CLEAR_HASH (s\<lparr>window_size := 2 * w_size s\<rparr>);
          c = configuration_table ! nat (level s)
      in s\<lparr>max_lazy_match := max_lazy c, good_match := good_length c, nice_match := int (nice_length c),
           max_chain_length := word_of_nat (max_chain c), strstart := 0, block_start := 0, lookahead := 0,
           d_insert := 0, match_length := MIN_MATCH - 1, prev_length := MIN_MATCH - 1,
           match_available := False, ins_h := 0\<rparr>)"

definition deflateResetKeep :: "deflate_state \<Rightarrow> int \<times> deflate_state" where
  "deflateResetKeep s =
     (if deflateStateCheck s then (Z_STREAM_ERROR, s)
      else
        (let s = s\<lparr>strm_total_in := 0, strm_total_out := 0, strm_msg := None, tree_state.data_type := Z_UNKNOWN,
                   pending_buf := [], pending_out := 0\<rparr>;
             s = (if wrap s < 0 then s\<lparr>wrap := - wrap s\<rparr> else s);
             s = s\<lparr>status := (if wrap s = 2 then GZIP_STATE else if wrap s \<noteq> 0 then INIT_STATE else BUSY_STATE),
                   strm_adler := (if wrap s = 2 then crc32 True 0 0 None else adler32 0 None),
                   last_flush := Z_NO_FLUSH\<rparr>
         in (Z_OK, tr_init s)))"

definition deflateReset :: "deflate_state \<Rightarrow> int \<times> deflate_state" where
  "deflateReset s = (let (ret, s) = deflateResetKeep s in (ret, if ret = Z_OK then lm_init s else s))"

section \<open>Initialisation and end\<close>

definition MAX_MEM_LEVEL :: int where "MAX_MEM_LEVEL = 9"
definition DEF_MEM_LEVEL :: int where "DEF_MEM_LEVEL = 8"
definition MAX_WBITS :: int where "MAX_WBITS = 15"

text \<open>The arrays of the state, with what happens to be in the memory: the allocator of the application
  gives them for \<open>w_size\<close>, \<open>hash_size\<close> and \<open>lit_bufsize\<close>, or fails.  The state itself is what the state
  part of \<open>s\<close> holds.\<close>

record buffers =
  b_window :: "u8 list"
  b_prev :: "u16 list"
  b_head :: "u16 list"
  b_d_buf :: "u16 list"
  b_l_buf :: "u8 list"

definition deflateEnd :: "deflate_state \<Rightarrow> int \<times> deflate_state" where
  "deflateEnd s =
     (if deflateStateCheck s then (Z_STREAM_ERROR, s)
      else (if status s = BUSY_STATE then Z_DATA_ERROR else Z_OK, s\<lparr>strm_ready := False\<rparr>))"

definition init_params :: "int \<Rightarrow> int \<Rightarrow> int \<times> int \<times> int" where
  "init_params lev windowBits =
     (let lev = (if lev = Z_DEFAULT_COMPRESSION then 6 else lev);
          (wr, windowBits) =
            (if windowBits < 0 then (0, - windowBits)
             else if windowBits > 15 then (2, windowBits - 16) else (1, windowBits))
      in (lev, wr, windowBits))"

definition deflateInit2 ::
  "bool \<Rightarrow> (nat \<Rightarrow> nat \<Rightarrow> nat \<Rightarrow> buffers option) \<Rightarrow> int \<Rightarrow> int \<Rightarrow> int \<Rightarrow> int \<Rightarrow> int \<Rightarrow> string option \<Rightarrow> int \<Rightarrow>
    deflate_state \<Rightarrow> int \<times> deflate_state"
where
  "deflateInit2 alloc_state alloc lev method windowBits memLevel strat version stream_size s =
     (if \<not> version_ok version \<or> stream_size \<noteq> sizeof_z_stream then (Z_VERSION_ERROR, s)
      else
        (let s = s\<lparr>strm_msg := None\<rparr>;
             (lev, wr, windowBits) = init_params lev windowBits
         in if memLevel < 1 \<or> memLevel > MAX_MEM_LEVEL \<or> method \<noteq> int Z_DEFLATED \<or> windowBits < 8 \<or> windowBits > 15 \<or>
               lev < 0 \<or> lev > 9 \<or> strat < 0 \<or> strat > Z_FIXED \<or> (windowBits = 8 \<and> wr \<noteq> 1)
            then (Z_STREAM_ERROR, s)
            else
              (let windowBits = (if windowBits = 8 then 9 else windowBits)
               in if \<not> alloc_state then (Z_MEM_ERROR, s)
                  else
                    (let s = s\<lparr>strm_ready := True, status := INIT_STATE, wrap := wr, gzhead := None,
                               w_bits := nat windowBits, w_size := 2 ^ nat windowBits, w_mask := 2 ^ nat windowBits - 1,
                               hash_bits := nat memLevel + 7, hash_size := 2 ^ (nat memLevel + 7),
                               hash_mask := 2 ^ (nat memLevel + 7) - 1,
                               hash_shift := (nat memLevel + 7 + MIN_MATCH - 1) div MIN_MATCH,
                               high_water := 0, lit_bufsize := 2 ^ (nat memLevel + 6),
                               pending_buf_size := 2 ^ (nat memLevel + 6) * 4\<rparr>
                     in case alloc (w_size s) (hash_size s) (lit_bufsize s) of
                          None \<Rightarrow> (Z_MEM_ERROR,
                            snd (deflateEnd (s\<lparr>status := FINISH_STATE, strm_msg := Some (ERR_MSG Z_MEM_ERROR)\<rparr>)))
                        | Some b \<Rightarrow>
                            deflateReset (s\<lparr>window := b_window b, prev := b_prev b, head := b_head b,
                              d_buf := b_d_buf b, l_buf := b_l_buf b,
                              level := lev, strategy := strat, d_method := word_of_int method\<rparr>)))))"

definition deflateInit ::
  "bool \<Rightarrow> (nat \<Rightarrow> nat \<Rightarrow> nat \<Rightarrow> buffers option) \<Rightarrow> int \<Rightarrow> string option \<Rightarrow> int \<Rightarrow> deflate_state \<Rightarrow> int \<times> deflate_state"
where
  "deflateInit alloc_state alloc lev version stream_size s =
     deflateInit2 alloc_state alloc lev (int Z_DEFLATED) MAX_WBITS DEF_MEM_LEVEL Z_DEFAULT_STRATEGY version stream_size s"

text \<open>The stream of the destination when the copy succeeds.\<close>

definition deflateCopy :: "bool \<Rightarrow> bool \<Rightarrow> deflate_state \<Rightarrow> int \<times> deflate_state option" where
  "deflateCopy alloc_state alloc_buffers s =
     (if deflateStateCheck s then (Z_STREAM_ERROR, None)
      else if \<not> alloc_state \<or> \<not> alloc_buffers then (Z_MEM_ERROR, None)
      else (Z_OK, Some (s\<lparr>window := take (w_size s * 2) (window s), prev := take (w_size s) (prev s),
                          head := take (hash_size s) (head s)\<rparr>)))"

section \<open>Dictionary, header and parameters\<close>

text \<open>The strings of the dictionary, from \<open>str\<close> on, into the hash table.\<close>

fun insert_strings :: "nat \<Rightarrow> nat \<Rightarrow> deflate_state \<Rightarrow> deflate_state" where
  "insert_strings 0 str s = s"
| "insert_strings (Suc n) str s = insert_strings n (str + 1) (snd (INSERT_STRING str s))"

lemma insert_strings_fields [simp]:
  "lookahead (insert_strings n str s) = lookahead s" "strm_next_in (insert_strings n str s) = strm_next_in s"
  by (induction n arbitrary: str s) simp_all

function dictionary_loop :: "deflate_state \<Rightarrow> deflate_state" where
  "dictionary_loop s =
     (if lookahead s \<ge> MIN_MATCH then
        (let n = lookahead s - (MIN_MATCH - 1);
             str = strstart s;
             s = insert_strings n str s;
             s = s\<lparr>strstart := str + n, lookahead := MIN_MATCH - 1\<rparr>
         in dictionary_loop (fill_window s))
      else s)"
  by pat_completeness auto
termination
proof (relation "measure unread", goal_cases)
  case (2 s n str t u)
  have "unread (fill_window u) = unread u" by (rule fill_window_unread)
  then show ?case using 2 by (simp add: unread_def match_consts)
qed simp

declare dictionary_loop.simps [simp del]

definition deflateSetDictionary :: "u8 list \<Rightarrow> deflate_state \<Rightarrow> int \<times> deflate_state" where
  "deflateSetDictionary dictionary s =
     (let wr = wrap s
      in if deflateStateCheck s \<or> wr = 2 \<or> (wr = 1 \<and> status s \<noteq> INIT_STATE) \<or> lookahead s \<noteq> 0
         then (Z_STREAM_ERROR, s)
         else
           (let s = (if wr = 1 then s\<lparr>strm_adler := adler32 (strm_adler s) (Some dictionary)\<rparr> else s);
                s = s\<lparr>wrap := 0\<rparr>;
                (dict, s) =
                  (if length dictionary \<ge> w_size s then
                     (drop (length dictionary - w_size s) dictionary,
                      if wr = 0 then (CLEAR_HASH s)\<lparr>strstart := 0, block_start := 0, d_insert := 0\<rparr> else s)
                   else (dictionary, s));
                inp = strm_next_in s;
                s = dictionary_loop (fill_window (s\<lparr>strm_next_in := dict\<rparr>));
                s = s\<lparr>strstart := strstart s + lookahead s\<rparr>
            in (Z_OK, s\<lparr>block_start := int (strstart s), d_insert := lookahead s, lookahead := 0,
                        match_length := MIN_MATCH - 1, prev_length := MIN_MATCH - 1, match_available := False,
                        strm_next_in := inp, wrap := wr\<rparr>)))"

definition deflateGetDictionary :: "deflate_state \<Rightarrow> int \<times> u8 list \<times> nat" where
  "deflateGetDictionary s =
     (if deflateStateCheck s then (Z_STREAM_ERROR, [], 0)
      else
        (let len = strstart s + lookahead s;
             len = (if len > w_size s then w_size s else len)
         in (Z_OK, take len (drop (strstart s + lookahead s - len) (window s)), len)))"

definition deflateSetHeader :: "gz_head option \<Rightarrow> deflate_state \<Rightarrow> int \<times> deflate_state" where
  "deflateSetHeader hdr s =
     (if deflateStateCheck s \<or> wrap s \<noteq> 2 then (Z_STREAM_ERROR, s) else (Z_OK, s\<lparr>gzhead := hdr\<rparr>))"

definition deflatePending :: "deflate_state \<Rightarrow> int \<times> nat \<times> nat" where
  "deflatePending s =
     (if deflateStateCheck s then (Z_STREAM_ERROR, 0, 0) else (Z_OK, length (pending_buf s), bi_valid s))"

text \<open>
  The loop of \<open>deflatePrime\<close>, for a number of bits that is not negative.  \<open>pending_buf\<close> is
  appended to, which is what the code does while \<open>pending_out\<close> is 0; after an incomplete flush it
  writes over bytes that are still to go out.
\<close>

function prime_loop :: "nat \<Rightarrow> int \<Rightarrow> deflate_state \<Rightarrow> deflate_state" where
  "prime_loop n v s =
     (let put = (if Buf_size - bi_valid s > n then n else Buf_size - bi_valid s);
          s' = s\<lparr>bi_buf := bi_buf s OR word_of_int (push_bit (bi_valid s) (v mod 2 ^ put)),
                 bi_valid := bi_valid s + put\<rparr>;
          s' = tr_flush_bits s'
      in if n - put \<noteq> 0 then prime_loop (n - put) (v div 2 ^ put) s' else s')"
  by pat_completeness auto
termination
  by (relation "measures [\<lambda>(n, v, s). n, \<lambda>(n, v, s). bi_valid s]")
    (auto simp: tr_flush_bits_def bi_flush_def put_short_def put_byte_def Buf_size_def Let_def)

declare prime_loop.simps [simp del]

definition deflatePrime :: "nat \<Rightarrow> int \<Rightarrow> deflate_state \<Rightarrow> int \<times> deflate_state" where
  "deflatePrime n v s =
     (if deflateStateCheck s then (Z_STREAM_ERROR, s)
      else if lit_bufsize s < pending_out s + (Buf_size + 7) div 2 ^ 3 then (Z_BUF_ERROR, s)
      else (Z_OK, prime_loop n v s))"

definition deflateTune :: "int \<Rightarrow> int \<Rightarrow> int \<Rightarrow> int \<Rightarrow> deflate_state \<Rightarrow> int \<times> deflate_state" where
  "deflateTune gl ml nl mc s =
     (if deflateStateCheck s then (Z_STREAM_ERROR, s)
      else (Z_OK, s\<lparr>good_match := unat (word_of_int gl :: u32), max_lazy_match := unat (word_of_int ml :: u32),
                  nice_match := nl, max_chain_length := word_of_int mc\<rparr>))"

text \<open>The strings of a gzip header count with their terminators.\<close>

definition string_bytes :: "u8 list option \<Rightarrow> u64" where
  "string_bytes str = (case str of None \<Rightarrow> 0 | Some cs \<Rightarrow> word_of_nat (length cs + 1))"

definition wrap_bytes :: "deflate_state \<Rightarrow> u64" where
  "wrap_bytes s =
     (if wrap s = 0 then 0
      else if wrap s = 1 then 6 + (if strstart s \<noteq> 0 then 4 else 0)
      else if wrap s = 2 then
        18 + (case gzhead s of None \<Rightarrow> 0
              | Some h \<Rightarrow> (if g_extra h \<noteq> None then ucast (2 + g_extra_len h) else 0) +
                  string_bytes (g_name h) + string_bytes (g_comment h) + (if g_hcrc h \<noteq> 0 then 2 else 0))
      else 6)"

definition deflateBound :: "deflate_state \<Rightarrow> u64 \<Rightarrow> u64" where
  "deflateBound s sourceLen =
     (let complen = sourceLen + drop_bit 3 (sourceLen + 7) + drop_bit 6 (sourceLen + 63) + 5
      in if deflateStateCheck s then complen + 6
         else
           (let wraplen = wrap_bytes s
            in if w_bits s \<noteq> 15 \<or> hash_bits s \<noteq> 8 + 7 then complen + wraplen
               else sourceLen + drop_bit 12 sourceLen + drop_bit 14 sourceLen + drop_bit 25 sourceLen + 13 - 6 + wraplen))"

section \<open>deflate()\<close>

text \<open>Each part of \<open>deflate()\<close> either returns or goes on to the next part.\<close>

datatype phase = Go deflate_state | Ret int deflate_state

fun and_then :: "phase \<Rightarrow> (deflate_state \<Rightarrow> phase) \<Rightarrow> phase" where
  "and_then (Go s) f = f s"
| "and_then (Ret r s) f = Ret r s"

definition full_return :: "deflate_state \<Rightarrow> phase" where
  "full_return s = Ret Z_OK (s\<lparr>last_flush := -1\<rparr>)"

text \<open>\<open>flush_pending(strm); if (s->pending != 0) { s->last_flush = -1; return Z_OK; }\<close>\<close>

definition flush_all :: "deflate_state \<Rightarrow> phase" where
  "flush_all s = (let s = flush_pending s in if pending_buf s \<noteq> [] then full_return s else Go s)"

subsection \<open>The headers\<close>

definition zlib_header :: "deflate_state \<Rightarrow> nat" where
  "zlib_header s =
     (let header = (Z_DEFLATED + push_bit 4 (w_bits s - 8)) * 2 ^ 8;
          level_flags = (if strategy s \<ge> Z_HUFFMAN_ONLY \<or> level s < 2 then 0
                         else if level s < 6 then 1 else if level s = 6 then 2 else 3);
          header = header OR push_bit 6 level_flags;
          header = (if strstart s \<noteq> 0 then header OR PRESET_DICT else header)
      in header + (31 - header mod 31))"

definition put_adler :: "deflate_state \<Rightarrow> deflate_state" where
  "put_adler s = putShortMSB (unat (strm_adler s AND 0xffff)) (putShortMSB (unat (drop_bit 16 (strm_adler s))) s)"

definition write_zlib_header :: "deflate_state \<Rightarrow> phase" where
  "write_zlib_header s =
     (if status s = INIT_STATE then
        (let header = zlib_header s;
             s = putShortMSB header s;
             s = (if strstart s \<noteq> 0 then put_adler s else s)
         in flush_all (s\<lparr>strm_adler := adler32 0 None, status := BUSY_STATE\<rparr>))
      else Go s)"

definition put_bytes :: "u8 list \<Rightarrow> deflate_state \<Rightarrow> deflate_state" where
  "put_bytes bs s = foldl put_byte s bs"

text \<open>The byte \<open>XFL\<close> of the gzip header, and a word with its low byte first.\<close>

definition gzip_xfl :: "deflate_state \<Rightarrow> u8" where
  "gzip_xfl s = (if level s = 9 then 2 else if strategy s \<ge> Z_HUFFMAN_ONLY \<or> level s < 2 then 4 else 0)"

definition low_bytes :: "nat \<Rightarrow> u64 \<Rightarrow> u8 list" where
  "low_bytes n w = map (\<lambda>i. ucast (drop_bit (8 * i) w AND 0xff)) [0..<n]"

definition gzip_flags :: "gz_head \<Rightarrow> u8" where
  "gzip_flags h =
     (if g_text h \<noteq> 0 then 1 else 0) + (if g_hcrc h \<noteq> 0 then 2 else 0) + (if g_extra h = None then 0 else 4) +
     (if g_name h = None then 0 else 8) + (if g_comment h = None then 0 else 16)"

definition write_gzip_header :: "deflate_state \<Rightarrow> phase" where
  "write_gzip_header s =
     (if status s = GZIP_STATE then
        (let s = put_bytes [31, 139, 8] (s\<lparr>strm_adler := crc32 True 0 0 None\<rparr>)
         in case gzhead s of
              None \<Rightarrow>
                (let s = put_bytes [0, 0, 0, 0, 0, gzip_xfl s, OS_CODE] s in flush_all (s\<lparr>status := BUSY_STATE\<rparr>))
            | Some h \<Rightarrow>
                (let s = put_bytes ([gzip_flags h] @ low_bytes 4 (g_time h) @ [gzip_xfl s, word_of_int (g_os h)]) s;
                     s = (if g_extra h \<noteq> None then put_bytes (low_bytes 2 (ucast (g_extra_len h))) s else s);
                     s = (if g_hcrc h \<noteq> 0 then s\<lparr>strm_adler := crc_upd (strm_adler s) (pending_buf s)\<rparr> else s)
                 in Go (s\<lparr>gzindex := 0, status := EXTRA_STATE\<rparr>)))
      else Go s)"

text \<open>The parts below run with a header only: \<open>the (gzhead s)\<close> is \<open>*s->gzhead\<close>.\<close>

definition HCRC_UPDATE :: "nat \<Rightarrow> deflate_state \<Rightarrow> deflate_state" where
  "HCRC_UPDATE beg s =
     (if g_hcrc (the (gzhead s)) \<noteq> 0 \<and> length (pending_buf s) > beg
      then s\<lparr>strm_adler := crc_upd (strm_adler s) (drop beg (pending_buf s))\<rparr> else s)"

lemma flush_pending_gzip [simp]:
  "gzindex (flush_pending s) = gzindex s" "gzhead (flush_pending s) = gzhead s"
  "pending_buf_size (flush_pending s) = pending_buf_size s"
  by (simp_all add: flush_pending_def tr_flush_bits_def bi_flush_def put_short_def put_byte_def Let_def)

lemma flush_all_Go:
  "flush_all s = Go t \<Longrightarrow> t = flush_pending s \<and> pending_buf t = []"
  by (auto simp: flush_all_def full_return_def Let_def split: if_splits)

lemma HCRC_UPDATE_fields [simp]:
  "gzindex (HCRC_UPDATE beg s) = gzindex s" "gzhead (HCRC_UPDATE beg s) = gzhead s"
  "pending_buf_size (HCRC_UPDATE beg s) = pending_buf_size s"
  by (simp_all add: HCRC_UPDATE_def)

text \<open>
  The extra field, which has \<open>extra_len\<close> bytes.  The loop makes room as long as the rest does not fit.
  \<open>pending_buf_size\<close> is at least 512 (\<open>deflateInit2_\<close>); with 0 the loop of the code would not end.
\<close>

function extra_loop :: "u8 list \<Rightarrow> nat \<Rightarrow> nat \<Rightarrow> deflate_state \<Rightarrow> phase" where
  "extra_loop extra beg left s =
     (if length (pending_buf s) + left > pending_buf_size s \<and> pending_buf_size s \<noteq> 0 then
        (let copy = pending_buf_size s - length (pending_buf s);
             s' = s\<lparr>pending_buf := pending_buf s @ take copy (drop (gzindex s) extra)\<rparr>;
             s' = HCRC_UPDATE beg s';
             s' = s'\<lparr>gzindex := gzindex s' + copy\<rparr>
         in case flush_all s' of Ret r t \<Rightarrow> Ret r t | Go t \<Rightarrow> extra_loop extra 0 (left - copy) t)
      else
        (let s = s\<lparr>pending_buf := pending_buf s @ take left (drop (gzindex s) extra)\<rparr>
         in Go ((HCRC_UPDATE beg s)\<lparr>gzindex := 0\<rparr>)))"
  by pat_completeness auto
termination
  by (relation "measures [\<lambda>(extra, beg, left, s). left, \<lambda>(extra, beg, left, s). length (pending_buf s)]")
    (auto dest!: flush_all_Go)

declare extra_loop.simps [simp del]

definition write_extra :: "deflate_state \<Rightarrow> phase" where
  "write_extra s =
     (if status s = EXTRA_STATE then
        and_then
          (case g_extra (the (gzhead s)) of
             None \<Rightarrow> Go s
           | Some extra \<Rightarrow>
               extra_loop extra (length (pending_buf s))
                 (unat (g_extra_len (the (gzhead s)) AND 0xffff) - gzindex s) s)
          (\<lambda>s. Go (s\<lparr>status := NAME_STATE\<rparr>))
      else Go s)"

text \<open>The name or the comment, with its terminator.\<close>

definition string_byte :: "u8 list \<Rightarrow> nat \<Rightarrow> u8" where
  "string_byte str i = (if i < length str then str ! i else 0)"

definition string_room :: "nat \<Rightarrow> deflate_state \<Rightarrow> nat \<times> phase" where
  "string_room beg s =
     (if length (pending_buf s) = pending_buf_size s then (0, flush_all (HCRC_UPDATE beg s)) else (beg, Go s))"

lemma string_room_Go: "string_room beg s = (b, Go t) \<Longrightarrow> gzindex t = gzindex s"
  by (auto simp: string_room_def dest!: flush_all_Go split: if_splits)

function string_loop :: "u8 list \<Rightarrow> nat \<Rightarrow> deflate_state \<Rightarrow> phase" where
  "string_loop str beg s =
     (case string_room beg s of
        (b, Ret r t) \<Rightarrow> Ret r t
      | (b, Go t) \<Rightarrow>
          (let val = string_byte str (gzindex t);
               t = put_byte (t\<lparr>gzindex := gzindex t + 1\<rparr>) val
           in if val \<noteq> 0 then string_loop str b t else Go (HCRC_UPDATE b t)))"
  by pat_completeness auto
termination
  by (relation "measure (\<lambda>(str, beg, s). length str - gzindex s)")
    (auto simp: string_byte_def put_byte_def dest!: string_room_Go [OF sym] split: if_splits)

declare string_loop.simps [simp del]

definition write_name :: "deflate_state \<Rightarrow> phase" where
  "write_name s =
     (if status s = NAME_STATE then
        and_then
          (case g_name (the (gzhead s)) of
             None \<Rightarrow> Go s
           | Some str \<Rightarrow> and_then (string_loop str (length (pending_buf s)) s) (\<lambda>s. Go (s\<lparr>gzindex := 0\<rparr>)))
          (\<lambda>s. Go (s\<lparr>status := COMMENT_STATE\<rparr>))
      else Go s)"

definition write_comment :: "deflate_state \<Rightarrow> phase" where
  "write_comment s =
     (if status s = COMMENT_STATE then
        and_then
          (case g_comment (the (gzhead s)) of
             None \<Rightarrow> Go s
           | Some str \<Rightarrow> string_loop str (length (pending_buf s)) s)
          (\<lambda>s. Go (s\<lparr>status := HCRC_STATE\<rparr>))
      else Go s)"

definition write_hcrc :: "deflate_state \<Rightarrow> phase" where
  "write_hcrc s =
     (if status s = HCRC_STATE then
        and_then
          (if g_hcrc (the (gzhead s)) \<noteq> 0 then
             and_then (if length (pending_buf s) + 2 > pending_buf_size s then flush_all s else Go s)
               (\<lambda>s. Go ((put_bytes (low_bytes 2 (ucast (strm_adler s))) s)\<lparr>strm_adler := crc32 True 0 0 None\<rparr>))
           else Go s)
          (\<lambda>s. flush_all (s\<lparr>status := BUSY_STATE\<rparr>))
      else Go s)"

definition write_header :: "deflate_state \<Rightarrow> phase" where
  "write_header s =
     and_then (and_then (and_then (and_then (and_then (write_zlib_header s) write_gzip_header)
       write_extra) write_name) write_comment) write_hcrc"

subsection \<open>The body and the trailer\<close>

fun run_func :: "compress_func \<Rightarrow> int \<Rightarrow> deflate_state \<Rightarrow> block_state \<times> deflate_state" where
  "run_func Deflate_stored flush s = deflate_stored flush s"
| "run_func Deflate_fast flush s = deflate_fast flush s"
| "run_func Deflate_slow flush s = deflate_slow flush s"

definition compress_some :: "int \<Rightarrow> deflate_state \<Rightarrow> block_state \<times> deflate_state" where
  "compress_some flush s =
     (if level s = 0 then deflate_stored flush s
      else if strategy s = Z_HUFFMAN_ONLY then deflate_huff flush s
      else if strategy s = Z_RLE then deflate_rle flush s
      else run_func (func (configuration_table ! nat (level s))) flush s)"

definition flush_marker :: "int \<Rightarrow> deflate_state \<Rightarrow> deflate_state" where
  "flush_marker flush s =
     (if flush = Z_PARTIAL_FLUSH then tr_align s
      else if flush \<noteq> Z_BLOCK then
        (let s = tr_stored_block s [] 0 0
         in if flush = Z_FULL_FLUSH then
              (let s = CLEAR_HASH s
               in if lookahead s = 0 then s\<lparr>strstart := 0, block_start := 0, d_insert := 0\<rparr> else s)
            else s)
      else s)"

definition write_blocks :: "int \<Rightarrow> deflate_state \<Rightarrow> phase" where
  "write_blocks flush s =
     (if strm_next_in s \<noteq> [] \<or> lookahead s \<noteq> 0 \<or> (flush \<noteq> Z_NO_FLUSH \<and> status s \<noteq> FINISH_STATE) then
        (let (bstate, s) = compress_some flush s;
             s = (if bstate = finish_started \<or> bstate = finish_done then s\<lparr>status := FINISH_STATE\<rparr> else s)
         in if bstate = need_more \<or> bstate = finish_started then
              Ret Z_OK (if strm_avail_out s = 0 then s\<lparr>last_flush := -1\<rparr> else s)
            else if bstate = block_done then
              (let s = flush_pending (flush_marker flush s)
               in if strm_avail_out s = 0 then full_return s else Go s)
            else Go s)
      else Go s)"

definition write_trailer :: "int \<Rightarrow> deflate_state \<Rightarrow> int \<times> deflate_state" where
  "write_trailer flush s =
     (if flush \<noteq> Z_FINISH then (Z_OK, s)
      else if wrap s \<le> 0 then (Z_STREAM_END, s)
      else
        (let s = (if wrap s = 2 then put_bytes (low_bytes 4 (ucast (strm_adler s)) @ low_bytes 4 (strm_total_in s)) s
                  else put_adler s);
             s = flush_pending s;
             s = (if wrap s > 0 then s\<lparr>wrap := - wrap s\<rparr> else s)
         in (if pending_buf s \<noteq> [] then Z_OK else Z_STREAM_END, s)))"

text \<open>The output that is pending goes out first.\<close>

definition flush_before :: "int \<Rightarrow> int \<Rightarrow> deflate_state \<Rightarrow> phase" where
  "flush_before old_flush flush s =
     (if pending_buf s \<noteq> [] then
        (let s = flush_pending s in if strm_avail_out s = 0 then full_return s else Go s)
      else if strm_next_in s = [] \<and> RANK flush \<le> RANK old_flush \<and> flush \<noteq> Z_FINISH then
        (case ERR_RETURN Z_BUF_ERROR s of (r, t) \<Rightarrow> Ret r t)
      else Go s)"

definition refuse_input :: "deflate_state \<Rightarrow> phase" where
  "refuse_input s =
     (if status s = FINISH_STATE \<and> strm_next_in s \<noteq> [] then
        (case ERR_RETURN Z_BUF_ERROR s of (r, t) \<Rightarrow> Ret r t)
      else Go s)"

definition deflate :: "int \<Rightarrow> deflate_state \<Rightarrow> int \<times> deflate_state" where
  "deflate flush s =
     (if deflateStateCheck s \<or> flush > Z_BLOCK \<or> flush < 0 then (Z_STREAM_ERROR, s)
      else if status s = FINISH_STATE \<and> flush \<noteq> Z_FINISH then ERR_RETURN Z_STREAM_ERROR s
      else if strm_avail_out s = 0 then ERR_RETURN Z_BUF_ERROR s
      else
        (case and_then (and_then (and_then
                (flush_before (last_flush s) flush (s\<lparr>last_flush := flush\<rparr>)) refuse_input) write_header)
                (write_blocks flush) of
           Ret r t \<Rightarrow> (r, t)
         | Go t \<Rightarrow> write_trailer flush t))"

definition deflateParams :: "int \<Rightarrow> int \<Rightarrow> deflate_state \<Rightarrow> int \<times> deflate_state" where
  "deflateParams lev strat s =
     (let lev = (if lev = Z_DEFAULT_COMPRESSION then 6 else lev)
      in if deflateStateCheck s \<or> lev < 0 \<or> lev > 9 \<or> strat < 0 \<or> strat > Z_FIXED then (Z_STREAM_ERROR, s)
         else
           (let f = func (configuration_table ! nat (level s));
                (err, s) =
                  (if (strat \<noteq> strategy s \<or> f \<noteq> func (configuration_table ! nat lev)) \<and> high_water s \<noteq> 0 then
                     (let (err, s) = deflate Z_BLOCK s
                      in (if err = Z_STREAM_ERROR then err else if strm_avail_out s = 0 then Z_BUF_ERROR else Z_OK, s))
                   else (Z_OK, s))
            in if err \<noteq> Z_OK then (err, s)
               else
                 (let s = (if level s \<noteq> lev then
                         (let s = (if level s = 0 \<and> matches s \<noteq> 0 then
                                (if matches s = 1 then slide_hash s else CLEAR_HASH s)\<lparr>matches := 0\<rparr> else s);
                              c = configuration_table ! nat lev
                          in s\<lparr>level := lev, max_lazy_match := max_lazy c, good_match := good_length c,
                               nice_match := int (nice_length c), max_chain_length := word_of_nat (max_chain c)\<rparr>)
                       else s)
                  in (Z_OK, s\<lparr>strategy := strat\<rparr>))))"

end
