(* ===== verification/Deflate_Sound.thy ===== *)
theory Deflate_Sound
  imports Deflate_Window Deflate
begin

text \<open>
  What the compression functions of \<open>src/src/zlib/deflate.c\<close> collect: at every moment the symbols in
  \<open>l_buf\<close> and \<open>d_buf\<close>, decoded after the input before \<open>block_start\<close>, give the input up to \<open>strstart\<close>, and the
  output grows only by blocks of such symbols.
\<close>

section \<open>Symbols\<close>

definition symbols_of :: "u8 list \<Rightarrow> nat \<Rightarrow> nat \<Rightarrow> (nat \<times> nat) option list \<Rightarrow> bool" where
  "symbols_of T p n sys \<longleftrightarrow> p \<le> length T \<and> symbols_fit p sys \<and> symbols_data (take p T) sys = take n T"

lemma length_symbol_data:
  "length (symbol_data g (Some (d, l))) = length g + (if d = 0 then 1 else l + 3)"
  by simp

lemma symbols_fit_snoc:
  "symbols_fit (length g) (sys @ [Some (d, l)]) \<longleftrightarrow>
     symbols_fit (length g) sys \<and> l < 256 \<and> d \<le> 32768 \<and> d \<le> length (symbols_data g sys)"
proof (induction sys arbitrary: g)
  case (Cons sy sys)
  show ?case
  proof (cases sy)
    case (Some x)
    obtain d' l' where x: "x = (d', l')" by (cases x)
    have "length g + (if d' = 0 then 1 else l' + 3) = length (symbol_data g sy)"
      by (simp add: Some x)
    then show ?thesis using Cons.IH [of "symbol_data g sy"] by (simp add: Some x symbols_data_def)
  qed simp
qed (auto simp: symbols_data_def)

lemma symbols_data_snoc: "symbols_data g (sys @ [sy]) = symbol_data (symbols_data g sys) sy"
  by (simp add: symbols_data_def)

lemma symbols_of_Nil: "p \<le> length T \<Longrightarrow> symbols_of T p p []"
  by (simp add: symbols_of_def symbols_data_def)

lemma symbols_of_literal:
  assumes "symbols_of T p n sys" "n < length T"
  shows "symbols_of T p (n + 1) (sys @ [Some (0, unat (T ! n))])"
proof -
  have "symbols_fit (length (take p T)) (sys @ [Some (0, unat (T ! n))])"
    using assms unat_u8_lt [of "T ! n"] by (subst symbols_fit_snoc) (simp add: symbols_of_def)
  then show ?thesis
    using assms by (simp add: symbols_of_def symbols_data_snoc take_Suc_conv_app_nth)
qed

lemma lz_copy_repeats:
  "1 \<le> d \<Longrightarrow> d \<le> n \<Longrightarrow> n + len \<le> length T \<Longrightarrow> \<forall>i<len. T ! (n + i) = T ! (n + i - d) \<Longrightarrow>
    lz_copy d len (take n T) = take (n + len) T"
proof (induction len arbitrary: n)
  case (Suc len)
  have t: "take n T @ [take n T ! (length (take n T) - d)] = take (n + 1) T"
    using Suc.prems spec [OF Suc.prems(4), of 0] by (simp add: take_Suc_conv_app_nth)
  have "\<forall>i<len. T ! (n + 1 + i) = T ! (n + 1 + i - d)" using Suc.prems(4) by fastforce
  then have "lz_copy d len (take (n + 1) T) = take (n + 1 + len) T" using Suc.IH [of "n + 1"] Suc.prems by simp
  then show ?case using t by simp
qed simp

lemma symbols_of_match:
  assumes "symbols_of T p n sys" "1 \<le> d" "d \<le> n" "d \<le> 32768" "3 \<le> len" "len \<le> 258" "n + len \<le> length T"
    and "\<forall>i<len. T ! (n + i) = T ! (n + i - d)"
  shows "symbols_of T p (n + len) (sys @ [Some (d, len - 3)])"
proof -
  have "symbols_fit (length (take p T)) (sys @ [Some (d, len - 3)])"
    using assms by (subst symbols_fit_snoc) (simp add: symbols_of_def)
  then show ?thesis
    using assms lz_copy_repeats [OF assms(2,3,7,8)] by (simp add: symbols_of_def symbols_data_snoc)
qed

lemma block_symbols_snoc:
  assumes "last_lit t = Suc (last_lit s)" "d_buf t = (d_buf s)[last_lit s := x]" "l_buf t = (l_buf s)[last_lit s := y]"
    and "last_lit s < length (d_buf s)" "last_lit s < length (l_buf s)"
  shows "block_symbols t = block_symbols s @ [Some (unat x, unat y)]"
  using assms by (auto simp: block_symbols_def block_symbol_def)

section \<open>Frames\<close>

text \<open>The part of the state the invariants on window and hash table are about.\<close>

definition win_frame where
  "win_frame s = (window s, window_size s, w_size s, w_bits s, w_mask s, prev s, head s, ins_h s,
     (hash_size s, hash_bits s, hash_mask s, hash_shift s), strstart s, lookahead s, d_insert s, strm_next_in s,
     lit_bufsize s, level s, strategy s)"

definition match_frame where
  "match_frame s = (match_length s, match_available s, prev_length s, match_start s, prev_match s)"

definition written where
  "written s = (strm_out s @ pending_buf s, bi_buf s, bi_valid s)"

lemma win_frame_inv:
  assumes "win_frame t = win_frame s"
  shows "sizes_ok t = sizes_ok s" "stream T h t = stream T h s" "chain_ok t = chain_ok s" "rolled_ok t = rolled_ok s"
proof -
  note f = assms [unfolded win_frame_def prod.inject]
  show "sizes_ok t = sizes_ok s" using f by (simp add: sizes_ok_def)
  have d: "data_end t = data_end s" using f by (simp add: data_end_def)
  then show "stream T h t = stream T h s" using f by (simp add: stream_def)
  have "chains b e t = chains b e s" for b e
    using f by (intro iffI; elim chains_cong) simp_all
  then show "chain_ok t = chain_ok s" using f d by (simp add: chain_ok_def)
  show "rolled_ok t = rolled_ok s" using f by (simp add: rolled_ok_def rolled_def)
qed
section \<open>The invariant\<close>

text \<open>
  The block began at byte \<open>q\<close> of the input \<open>T\<close> and its symbols stand for the bytes up to \<open>n\<close>; \<open>h\<close> bytes have
  left the window.  Between two steps \<open>n\<close> is \<open>k\<close> bytes behind \<open>strstart\<close>.
\<close>

definition lz_mid :: "u8 list \<Rightarrow> nat \<Rightarrow> nat \<Rightarrow> nat \<Rightarrow> deflate_state \<Rightarrow> bool" where
  "lz_mid T h q n s \<longleftrightarrow>
     sizes_ok s \<and> stream T h s \<and> length (l_buf s) = lit_bufsize s \<and> length (d_buf s) = lit_bufsize s \<and>
     2 \<le> lit_bufsize s \<and> last_lit s < lit_bufsize s \<and> int q = int h + block_start s \<and>
     symbols_of T q n (block_symbols s)"

definition lz_at :: "u8 list \<Rightarrow> nat \<Rightarrow> nat \<Rightarrow> nat \<Rightarrow> deflate_state \<Rightarrow> bool" where
  "lz_at T h q k s \<longleftrightarrow>
     lz_mid T h q (h + strstart s - k) s \<and> chain_ok s \<and> last_lit s < lit_bufsize s - 1 \<and> k \<le> strstart s"

text \<open>A state whose block goes out: its symbols stand for the input from \<open>q\<close> up to \<open>r\<close>, where \<open>strstart\<close>
  is, and the bytes of a stored block are these too.\<close>

definition block_of :: "u8 list \<Rightarrow> nat \<Rightarrow> nat \<Rightarrow> deflate_state \<Rightarrow> bool" where
  "block_of T q r s \<longleftrightarrow>
     (\<exists>h. stream T h s \<and> int q = int h + block_start s \<and> r = h + strstart s \<and> symbols_of T q r (block_symbols s)) \<and>
     (0 \<le> block_start s \<longrightarrow>
       take (nat (int (strstart s) - block_start s)) (drop (nat (block_start s)) (window s)) = take (r - q) (drop q T))"

text \<open>The block of \<open>u\<close> is what has gone out in \<open>t\<close>: \<open>tr_flush_block\<close> got its symbols, the number of bytes they
  stand for, the flag \<open>l\<close> of the last block, and, where there are bytes to store, those of the input.\<close>

definition stored_bytes :: "u8 list \<Rightarrow> nat \<Rightarrow> nat \<Rightarrow> u8 list option \<Rightarrow> bool" where
  "stored_bytes T q r buf \<longleftrightarrow> (case buf of None \<Rightarrow> True | Some bs \<Rightarrow> take (r - q) bs = take (r - q) (drop q T))"

definition block_out :: "u8 list \<Rightarrow> int \<Rightarrow> nat \<Rightarrow> nat \<Rightarrow> deflate_state \<Rightarrow> deflate_state \<Rightarrow> bool" where
  "block_out T l q r u t \<longleftrightarrow> block_of T q r u \<and>
     (\<exists>buf. stored_bytes T q r buf \<and> written t = written (flush_pending (tr_flush_block u buf (r - q) l)))"

text \<open>From \<open>s\<close> to \<open>t\<close> the output grows by blocks only, none of them the last, and they stand for the input from
  \<open>p\<close> to \<open>q\<close> without a gap.\<close>

inductive emits :: "u8 list \<Rightarrow> nat \<Rightarrow> deflate_state \<Rightarrow> nat \<Rightarrow> deflate_state \<Rightarrow> bool" for T where
  emits_quiet: "written t = written s \<Longrightarrow> emits T q s q t"
| emits_block: "emits T p s q u \<Longrightarrow> block_out T 0 q r u t \<Longrightarrow> emits T p s r t"

lemma block_out_cong: "block_out T l q r u t \<Longrightarrow> written t' = written t \<Longrightarrow> block_out T l q r u t'"
  unfolding block_out_def by metis

lemma emits_trans: "emits T q t r u \<Longrightarrow> emits T p s q t \<Longrightarrow> emits T p s r u"
proof (induction q t r u rule: emits.induct)
  case (emits_quiet u t q)
  from emits_quiet(2,1) show ?case
    by (cases rule: emits.cases) (auto intro: emits.intros block_out_cong)
qed (blast intro: emits_block)

lemma emits_from: "emits T p s q t \<Longrightarrow> written s' = written s \<Longrightarrow> emits T p s' q t"
  using emits_trans emits_quiet by metis

text \<open>The same with one block more, the last of the stream; and what a call that returns \<open>b\<close> has written: the last
  block comes with the results that end the stream, and with no other.\<close>

definition last_sent :: "u8 list \<Rightarrow> nat \<Rightarrow> deflate_state \<Rightarrow> nat \<Rightarrow> deflate_state \<Rightarrow> bool" where
  "last_sent T p s r t \<longleftrightarrow> (\<exists>q u. emits T p s q u \<and> block_out T 1 q r u t)"

definition sent :: "u8 list \<Rightarrow> block_state \<Rightarrow> nat \<Rightarrow> deflate_state \<Rightarrow> nat \<Rightarrow> deflate_state \<Rightarrow> bool" where
  "sent T b p s q t \<longleftrightarrow> (if b = finish_started \<or> b = finish_done then last_sent T p s q t else emits T p s q t)"

lemma sent_trans: "sent T b q u r t \<Longrightarrow> emits T p s q u \<Longrightarrow> sent T b p s r t"
  unfolding sent_def last_sent_def using emits_trans by (metis (no_types))

lemma sent_from: "sent T b p s q t \<Longrightarrow> written s' = written s \<Longrightarrow> sent T b p s' q t"
  using sent_trans emits_quiet by metis

lemma last_sent_cong: "last_sent T p s q t \<Longrightarrow> written t' = written t \<Longrightarrow> last_sent T p s q t'"
  unfolding last_sent_def using block_out_cong by metis

lemma lz_mid_frame:
  assumes "lz_mid T h q n s" "win_frame t = win_frame s" "block_start t = block_start s"
    and "length (l_buf t) = lit_bufsize t" "length (d_buf t) = lit_bufsize t" "last_lit t < lit_bufsize t"
    and "symbols_of T q n' (block_symbols t)"
  shows "lz_mid T h q n' t"
proof -
  have "lit_bufsize t = lit_bufsize s" using assms(2) by (simp add: win_frame_def)
  then show ?thesis using assms win_frame_inv [OF assms(2)] by (simp add: lz_mid_def)
qed

text \<open>Input moves from \<open>lookahead\<close> behind \<open>strstart\<close>.\<close>

definition moved :: "nat \<Rightarrow> deflate_state \<Rightarrow> deflate_state" where
  "moved n s = s\<lparr>lookahead := lookahead s - n, strstart := strstart s + n\<rparr>"

lemma moved_chain_ok:
  assumes "chain_ok s" "n \<le> lookahead s"
  shows "chain_ok (moved n s)"
proof -
  have "data_end (moved n s) = data_end s" using assms(2) by (simp add: data_end_def moved_def)
  moreover have "min (strstart s - d_insert s) (data_end s - 2) \<le> min (strstart s + n - d_insert s) (data_end s - 2)" by arith
  then have "chains (min (strstart s + n - d_insert s) (data_end s - 2)) (data_end s) s"
    using assms(1) chains_mono by (auto simp: chain_ok_def)
  ultimately show ?thesis using assms(1) by (simp add: chain_ok_def moved_def)
qed

lemma moved_mid:
  assumes "lz_mid T h q m s" "n \<le> lookahead s"
  shows "lz_mid T h q m (moved n s)"
proof -
  have "data_end (moved n s) = data_end s" using assms(2) by (simp add: data_end_def moved_def)
  moreover have "block_symbols (moved n s) = block_symbols s"
    by (simp add: block_symbols_def block_symbol_def moved_def)
  ultimately show ?thesis
    using assms by (simp add: lz_mid_def stream_def) (simp add: moved_def)
qed

section \<open>Collecting a symbol\<close>

lemma tally_frames:
  "win_frame (snd (tr_tally_lit s c)) = win_frame s" "win_frame (snd (tr_tally_dist s d l)) = win_frame s"
  "match_frame (snd (tr_tally_lit s c)) = match_frame s" "match_frame (snd (tr_tally_dist s d l)) = match_frame s"
  "written (snd (tr_tally_lit s c)) = written s" "written (snd (tr_tally_dist s d l)) = written s"
  "block_start (snd (tr_tally_lit s c)) = block_start s" "block_start (snd (tr_tally_dist s d l)) = block_start s"
  "last_lit (snd (tr_tally_lit s c)) = Suc (last_lit s)" "last_lit (snd (tr_tally_dist s d l)) = Suc (last_lit s)"
  "l_buf (snd (tr_tally_lit s c)) = (l_buf s)[last_lit s := c]"
  "d_buf (snd (tr_tally_lit s c)) = (d_buf s)[last_lit s := 0]"
  "l_buf (snd (tr_tally_dist s d l)) = (l_buf s)[last_lit s := word_of_nat l]"
  "d_buf (snd (tr_tally_dist s d l)) = (d_buf s)[last_lit s := word_of_nat d]"
  "fst (tr_tally_lit s c) \<longleftrightarrow> Suc (last_lit s) = lit_bufsize s - 1"
  "fst (tr_tally_dist s d l) \<longleftrightarrow> Suc (last_lit s) = lit_bufsize s - 1"
  by (simp_all add: tr_tally_lit_def tr_tally_dist_def win_frame_def match_frame_def written_def Let_def)

lemma win_frame_fields:
  assumes "win_frame t = win_frame s"
  shows "strstart t = strstart s" "lookahead t = lookahead s" "window t = window s" "lit_bufsize t = lit_bufsize s"
    "w_size t = w_size s" "d_insert t = d_insert s" "strm_next_in t = strm_next_in s" "data_end t = data_end s"
  using assms by (simp_all add: win_frame_def data_end_def)

lemma stream_nth:
  assumes "stream T h s" "i < data_end s" "sizes_ok s"
  shows "T ! (h + i) = window s ! i" "h + i < length T"
proof -
  note st = assms(1) [unfolded stream_def]
  have len: "length (take (data_end s) (window s)) = data_end s"
    using st sizes_simps(8,9) [OF assms(3)] by simp
  have "length (drop h T) = data_end s + length (strm_next_in s)" using st len by simp
  then show "h + i < length T" using assms(2) by simp
  have "h \<le> length T" using st by blast
  then have "T ! (h + i) = drop h T ! i" by simp
  also have "drop h T = take (data_end s) (window s) @ strm_next_in s" using st by blast
  also have "\<dots> ! i = window s ! i" using len assms(2) by (simp add: nth_append)
  finally show "T ! (h + i) = window s ! i" .
qed

text \<open>A literal, and a match \<open>d\<close> bytes back that is \<open>len\<close> bytes long.\<close>

lemma tally_lit_mid:
  assumes s: "lz_mid T h q (h + p) s" "last_lit s < lit_bufsize s - 1" and p: "p < data_end s"
  shows "lz_mid T h q (h + p + 1) (snd (tr_tally_lit s (window s ! p)))"
proof -
  let ?c = "window s ! p" and ?t = "snd (tr_tally_lit s (window s ! p))"
  note m = s(1) [unfolded lz_mid_def]
  have nth: "T ! (h + p) = ?c" "h + p < length T" using stream_nth [of T h s p] m p by auto
  have "block_symbols ?t = block_symbols s @ [Some (0, unat ?c)]"
    using block_symbols_snoc [of ?t s 0 ?c] m by (simp add: tally_frames)
  then have "symbols_of T q (h + p + 1) (block_symbols ?t)"
    using symbols_of_literal [OF _ nth(2)] m nth(1) by simp
  moreover have "lit_bufsize ?t = lit_bufsize s" by (rule win_frame_fields(4) [OF tally_frames(1)])
  moreover have "Suc (last_lit s) < lit_bufsize s" using s by auto
  ultimately show ?thesis
    using m by (intro lz_mid_frame [OF s(1) tally_frames(1,7)]) (simp_all only: tally_frames length_list_update)
qed

definition repeats :: "u8 list \<Rightarrow> nat \<Rightarrow> nat \<Rightarrow> nat \<Rightarrow> bool" where
  "repeats T n d len \<longleftrightarrow>
     1 \<le> d \<and> d \<le> n \<and> d \<le> 32768 \<and> 3 \<le> len \<and> len \<le> 258 \<and> n + len \<le> length T \<and>
     (\<forall>i<len. T ! (n + i) = T ! (n + i - d))"

lemma tally_dist_mid:
  assumes s: "lz_mid T h q n s" "last_lit s < lit_bufsize s - 1" and r: "repeats T n d len"
  shows "lz_mid T h q (n + len) (snd (tr_tally_dist s d (len - MIN_MATCH)))"
proof -
  let ?t = "snd (tr_tally_dist s d (len - MIN_MATCH))"
  note m = s(1) [unfolded lz_mid_def] and r = r [unfolded repeats_def]
  have "unat (word_of_nat j :: u8) = j" if "j < 256" for j
    using that by (simp add: unsigned_of_nat take_bit_nat_eq_self)
  moreover have "len - 3 < 256" using r by auto
  ultimately have u: "unat (word_of_nat d :: u16) = d" "unat (word_of_nat (len - 3) :: u8) = len - 3"
    using r by (simp add: unsigned_of_nat take_bit_nat_eq_self, blast)
  have "block_symbols ?t = block_symbols s @ [Some (d, len - 3)]"
    using block_symbols_snoc [of ?t s "word_of_nat d" "word_of_nat (len - 3)"] m u
    by (simp add: tally_frames match_consts)
  then have "symbols_of T q (n + len) (block_symbols ?t)"
    using symbols_of_match [of T q n "block_symbols s" d len] m r by simp
  moreover have "lit_bufsize ?t = lit_bufsize s" by (rule win_frame_fields(4) [OF tally_frames(2)])
  moreover have "Suc (last_lit s) < lit_bufsize s" using s by auto
  ultimately show ?thesis
    using m by (intro lz_mid_frame [OF s(1) tally_frames(2,8)]) (simp_all only: tally_frames length_list_update)
qed

section \<open>Flushing a block\<close>

lemma flush_pending_frame:
  "win_frame (flush_pending s) = win_frame s" "match_frame (flush_pending s) = match_frame s"
  "block_start (flush_pending s) = block_start s" "l_buf (flush_pending s) = l_buf s"
  "d_buf (flush_pending s) = d_buf s" "last_lit (flush_pending s) = last_lit s"
  by (simp_all add: flush_pending_def tr_flush_bits_def bi_flush_def put_short_def put_byte_def Let_def
    win_frame_def match_frame_def)

lemma FLUSH_BLOCK_ONLY_frame:
  "win_frame (FLUSH_BLOCK_ONLY l s) = win_frame s" "match_frame (FLUSH_BLOCK_ONLY l s) = match_frame s"
  "block_start (FLUSH_BLOCK_ONLY l s) = int (strstart s)" "l_buf (FLUSH_BLOCK_ONLY l s) = l_buf s"
  "d_buf (FLUSH_BLOCK_ONLY l s) = d_buf s" "last_lit (FLUSH_BLOCK_ONLY l s) = 0"
proof -
  let ?u = "tr_flush_block s (if block_start s \<ge> 0 then Some (drop (nat (block_start s)) (window s)) else None)
    (nat (int (strstart s) - block_start s)) l"
  have eq: "FLUSH_BLOCK_ONLY l s = flush_pending (?u\<lparr>block_start := int (strstart ?u)\<rparr>)"
    by (simp add: FLUSH_BLOCK_ONLY_def Let_def)
  note f = block_frame_fields [OF tr_flush_block_frame, of s _ _ l]
  have "win_frame (?u\<lparr>block_start := int (strstart ?u)\<rparr>) = win_frame s"
    "match_frame (?u\<lparr>block_start := int (strstart ?u)\<rparr>) = match_frame s"
    "l_buf ?u = l_buf s" "d_buf ?u = d_buf s" "strstart ?u = strstart s" "last_lit ?u = 0"
    unfolding win_frame_def match_frame_def by (simp_all add: f)
  then show "win_frame (FLUSH_BLOCK_ONLY l s) = win_frame s" "match_frame (FLUSH_BLOCK_ONLY l s) = match_frame s"
    "block_start (FLUSH_BLOCK_ONLY l s) = int (strstart s)" "l_buf (FLUSH_BLOCK_ONLY l s) = l_buf s"
    "d_buf (FLUSH_BLOCK_ONLY l s) = d_buf s" "last_lit (FLUSH_BLOCK_ONLY l s) = 0"
    unfolding eq flush_pending_frame by simp_all
qed

lemma flush_pending_written: "written (flush_pending s) = written (tr_flush_bits s)"
  by (simp add: flush_pending_def written_def Let_def)

lemma written_start: "written (tr_flush_bits (s\<lparr>block_start := x\<rparr>)) = written (tr_flush_bits s)"
  by (simp add: tr_flush_bits_def bi_flush_def put_short_def put_byte_def written_def Let_def)

lemma flush_mid:
  assumes s: "lz_mid T h q (h + strstart s) s"
  shows "chain_ok s \<Longrightarrow> lz_at T h (h + strstart s) 0 (FLUSH_BLOCK_ONLY l s)" "block_out T l q (h + strstart s) s (FLUSH_BLOCK_ONLY l s)"
proof -
  let ?t = "FLUSH_BLOCK_ONLY l s"
  note f = FLUSH_BLOCK_ONLY_frame [of l s] and m = s [unfolded lz_mid_def]
  note w = win_frame_fields [OF f(1)] and i = win_frame_inv [OF f(1)]
  have "h + strstart s \<le> h + data_end s" by (simp add: data_end_def)
  moreover have "h + data_end s \<le> length T"
  proof -
    have "length (drop h T) = length (take (data_end s) (window s) @ strm_next_in s)" "h \<le> length T"
      "data_end s \<le> length (window s)"
      using m sizes_simps(8,9) [of s] by (auto simp: stream_def)
    then show ?thesis by simp
  qed
  ultimately have "symbols_of T (h + strstart s) (h + strstart s) []" by (intro symbols_of_Nil) simp
  moreover have "block_symbols ?t = []" by (simp add: block_symbols_def f)
  ultimately show "chain_ok s \<Longrightarrow> lz_at T h (h + strstart s) 0 ?t" using m by (simp add: lz_at_def lz_mid_def f w i)
  have "take (nat (int (strstart s) - block_start s)) (drop (nat (block_start s)) (window s)) = take (h + strstart s - q) (drop q T)"
    if b: "0 \<le> block_start s"
  proof -
    have q: "q = h + nat (block_start s)" "nat (int (strstart s) - block_start s) = strstart s - nat (block_start s)"
      using m b by auto
    have "length (take (data_end s) (window s)) = data_end s" using m sizes_simps(8,9) [of s] by (auto simp: stream_def)
    then have "take n (drop k (drop h T)) = take n (drop k (window s))" if "n + k \<le> data_end s" for n k
      using m that by (simp add: stream_def take_drop)
    from this [of "strstart s - nat (block_start s)" "nat (block_start s)"]
    show ?thesis
      using q by (cases "nat (block_start s) \<le> strstart s") (simp_all add: data_end_def add.commute)
  qed
  note b = this
  then have "block_of T q (h + strstart s) s" using m by (auto simp: block_of_def)
  moreover have n: "nat (int (strstart s) - block_start s) = h + strstart s - q" using m by linarith
  have "stored_bytes T q (h + strstart s) (if 0 \<le> block_start s then Some (drop (nat (block_start s)) (window s)) else None)"
    using b n by (simp add: stored_bytes_def)
  moreover have "written (flush_pending (u\<lparr>block_start := x\<rparr>)) = written (flush_pending u)" for u x
    by (simp add: flush_pending_written written_start)
  ultimately show "block_out T l q (h + strstart s) s ?t"
    unfolding block_out_def FLUSH_BLOCK_ONLY_def Let_def n by blast
qed

lemma flush_emits:
  assumes "lz_mid T h q (h + strstart s) s"
  shows "emits T q s (h + strstart s) (FLUSH_BLOCK_ONLY 0 s)" "last_sent T q s (h + strstart s) (FLUSH_BLOCK_ONLY 1 s)"
  unfolding last_sent_def using flush_mid(2) [OF assms] emits_quiet [OF refl] by (blast intro: emits_block)+

section \<open>Steps\<close>

text \<open>A step from \<open>s\<close> ends in a state \<open>t\<close> with \<open>P\<close>, and what it wrote are blocks; it leaves the loop at the end of
  the input only.\<close>

definition at_end :: "deflate_state \<Rightarrow> bool" where
  "at_end s \<longleftrightarrow> lookahead s = 0 \<and> strm_next_in s = []"

definition goes :: "u8 list \<Rightarrow> nat \<Rightarrow> deflate_state \<Rightarrow> step \<Rightarrow> (nat \<Rightarrow> deflate_state \<Rightarrow> bool) \<Rightarrow> bool" where
  "goes T q s r P \<longleftrightarrow>
     (\<exists>q' t. (r = Continue t \<or> r = Break t \<and> at_end t \<or> r = Return need_more t) \<and> emits T q s q' t \<and> P q' t)"

lemma goes_mono: "goes T q s r P \<Longrightarrow> (\<And>q t. P q t \<Longrightarrow> Q q t) \<Longrightarrow> goes T q s r Q"
  unfolding goes_def by blast

lemma goes_from: "goes T q s r P \<Longrightarrow> written s' = written s \<Longrightarrow> goes T q s' r P"
  unfolding goes_def using emits_from by blast

lemma goes_Continue: "P q t \<Longrightarrow> written t = written s \<Longrightarrow> goes T q s (Continue t) P"
  unfolding goes_def by (blast intro: emits_quiet)

lemma goes_Return: "P q t \<Longrightarrow> written t = written s \<Longrightarrow> goes T q s (Return need_more t) P"
  unfolding goes_def by (blast intro: emits_quiet)

lemma goes_Break: "P q t \<Longrightarrow> written t = written s \<Longrightarrow> at_end t \<Longrightarrow> goes T q s (Break t) P"
  unfolding goes_def by (blast intro: emits_quiet)

lemma FLUSH_BLOCK_goes:
  assumes s: "lz_mid T h q (h + strstart s) s" and c: "chain_ok s"
    and P: "\<And>t q'. lz_at T h q' 0 t \<Longrightarrow> win_frame t = win_frame s \<Longrightarrow> match_frame t = match_frame s \<Longrightarrow> P q' t"
  shows "goes T q s (FLUSH_BLOCK 0 s Continue) P"
proof -
  let ?t = "FLUSH_BLOCK_ONLY 0 s"
  have "P (h + strstart s) ?t" using flush_mid(1) [OF s c, of 0] FLUSH_BLOCK_ONLY_frame(1,2) by (intro P) simp_all
  moreover have "emits T q s (h + strstart s) ?t" by (rule flush_emits(1) [OF s])
  moreover have "FLUSH_BLOCK 0 s Continue = Continue ?t \<or> FLUSH_BLOCK 0 s Continue = Return need_more ?t"
    by (simp add: FLUSH_BLOCK_def Let_def)
  ultimately show ?thesis unfolding goes_def by blast
qed

lemma symbol_goes:
  assumes s: "lz_mid T h q (h + strstart s) s" and c: "chain_ok s" and b: "b \<longleftrightarrow> last_lit s = lit_bufsize s - 1"
    and P: "\<And>t q'. lz_at T h q' 0 t \<Longrightarrow> win_frame t = win_frame s \<Longrightarrow> match_frame t = match_frame s \<Longrightarrow> P q' t"
  shows "goes T q s (if b then FLUSH_BLOCK 0 s Continue else Continue s) P"
proof (cases b)
  case True
  then show ?thesis using FLUSH_BLOCK_goes [OF s c, of P] P by simp
next
  case False
  then have "lz_at T h q 0 s" using s c b by (auto simp: lz_at_def lz_mid_def)
  then show ?thesis using False P by (simp add: goes_Continue)
qed

lemma moved_simps [simp]:
  "strstart (moved n s) = strstart s + n" "lookahead (moved n s) = lookahead s - n" "last_lit (moved n s) = last_lit s"
  "lit_bufsize (moved n s) = lit_bufsize s" "block_start (moved n s) = block_start s"
  "l_buf (moved n s) = l_buf s" "d_buf (moved n s) = d_buf s" "match_frame (moved n s) = match_frame s" "written (moved n s) = written s"
  "block_symbols (moved n s) = block_symbols s"
  by (simp_all add: moved_def match_frame_def written_def block_symbols_def block_symbol_def)

text \<open>The fields of the match finder are outside the frame of window and block.\<close>

lemma match_update [simp]:
  "win_frame (s\<lparr>match_length := x\<rparr>) = win_frame s" "win_frame (s\<lparr>prev_length := x\<rparr>) = win_frame s"
  "win_frame (s\<lparr>match_start := y\<rparr>) = win_frame s" "win_frame (s\<lparr>prev_match := y\<rparr>) = win_frame s"
  "win_frame (s\<lparr>match_available := z\<rparr>) = win_frame s"
  "written (s\<lparr>match_length := x\<rparr>) = written s" "written (s\<lparr>prev_length := x\<rparr>) = written s"
  "written (s\<lparr>match_start := y\<rparr>) = written s" "written (s\<lparr>prev_match := y\<rparr>) = written s"
  "written (s\<lparr>match_available := z\<rparr>) = written s"
  by (simp_all add: win_frame_def written_def)

lemma moved_frame: "win_frame t = win_frame s \<Longrightarrow> win_frame (moved n t) = win_frame (moved n s)"
  by (simp add: win_frame_def moved_def)

lemma emit_literal_goes:
  assumes s: "lz_mid T h q (h + strstart s) s" "last_lit s < lit_bufsize s - 1" "lookahead s \<noteq> 0" "chain_ok (moved 1 s)"
    and P: "\<And>t q'. lz_at T h q' 0 t \<Longrightarrow> win_frame t = win_frame (moved 1 s) \<Longrightarrow> match_frame t = match_frame s \<Longrightarrow> P q' t"
  shows "goes T q s (emit_literal s) P"
proof -
  let ?c = "window s ! strstart s"
  let ?u = "snd (tr_tally_lit s ?c)"
  note w = win_frame_fields [OF tally_frames(1), of s ?c]
  have "lz_mid T h q (h + strstart s + 1) ?u" using tally_lit_mid [OF s(1,2)] s(3) by (simp add: data_end_def)
  then have m: "lz_mid T h q (h + strstart (moved 1 ?u)) (moved 1 ?u)"
    using moved_mid [of T h q "h + strstart s + 1" ?u 1] s(3) w by simp
  have c: "chain_ok (moved 1 ?u)" using s(4) win_frame_inv(3) [OF moved_frame [OF tally_frames(1)]] by simp
  have r: "emit_literal s = (if fst (tr_tally_lit s ?c) then FLUSH_BLOCK 0 (moved 1 ?u) Continue else Continue (moved 1 ?u))"
    by (simp add: emit_literal_def Let_def case_prod_unfold moved_def)
  have "goes T q (moved 1 ?u) (emit_literal s) P"
    unfolding r
  proof (rule symbol_goes [OF m c])
    show "fst (tr_tally_lit s ?c) \<longleftrightarrow> last_lit (moved 1 ?u) = lit_bufsize (moved 1 ?u) - 1"
      unfolding tally_frames moved_simps w ..
    show "P q' t" if "lz_at T h q' 0 t" "win_frame t = win_frame (moved 1 ?u)" "match_frame t = match_frame (moved 1 ?u)" for t q'
      by (rule P [OF that(1) trans [OF that(2) moved_frame [OF tally_frames(1)]]
            trans [OF that(3) trans [OF moved_simps(8) tally_frames(3)]]])
  qed
  moreover have "written (moved 1 ?u) = written s" unfolding moved_simps tally_frames ..
  ultimately show ?thesis using goes_from by metis
qed

section \<open>Filling the window\<close>

definition lz_inv :: "u8 list \<Rightarrow> nat \<Rightarrow> nat \<Rightarrow> deflate_state \<Rightarrow> bool" where
  "lz_inv T q k s \<longleftrightarrow> (\<exists>h. lz_at T h q k s)"

lemma fill_window_at:
  assumes s: "lz_at T h q k s" "k \<le> 1"
  obtains n where "lz_at T (h + n) q k (fill_window s)" "fills T h n s (fill_window s)" "written (fill_window s) = written s"
proof -
  let ?t = "fill_window s"
  note m = s(1) [unfolded lz_at_def lz_mid_def]
  obtain n where n: "fills T h n s ?t" using fill_window_fills m by blast
  note f = n [unfolded fills_def]
  have kt: "kept ?t = kept s" using f by blast
  then have kept: "l_buf ?t = l_buf s" "d_buf ?t = d_buf s" "lit_bufsize ?t = lit_bufsize s" "last_lit ?t = last_lit s"
    "written ?t = written s" by (simp_all add: kept_def written_def)
  have "h + n + strstart ?t - k = h + strstart s - k" "k \<le> strstart ?t" using f s m by auto
  moreover have "block_symbols ?t = block_symbols s" by (simp add: block_symbols_def block_symbol_def kept)
  moreover have "int q = int (h + n) + block_start ?t" using f m by simp
  moreover have "sizes_ok ?t" "stream T (h + n) ?t" "chain_ok ?t" using f by blast+
  ultimately have "lz_at T (h + n) q k ?t" using m by (simp add: lz_at_def lz_mid_def kept)
  then show ?thesis using that n kept by blast
qed

lemma fill_or_keep:
  assumes s: "lz_at T h q k s" "k \<le> 1"
  shows "\<exists>n. lz_at T (h + n) q k (if b then fill_window s else s) \<and> fills T h n s (if b then fill_window s else s) \<and>
    written (if b then fill_window s else s) = written s"
proof (cases b)
  case True
  then show ?thesis using fill_window_at [OF s] by auto
next
  case False
  have "fills T h 0 s s" using s by (intro fills_refl) (simp_all add: lz_at_def lz_mid_def)
  then show ?thesis using False s by (intro exI [of _ 0]) simp
qed

text \<open>After filling there is lookahead, or the input is at its end.\<close>

lemma filled_end:
  assumes "lz_at T h q k s" "lookahead s < MIN_LOOKAHEAD" "lookahead (fill_window s) = 0"
  shows "at_end (fill_window s)"
  using assms fill_window_end [of s T h] by (auto simp: at_end_def lz_at_def lz_mid_def match_consts)

lemma stream_end:
  assumes "stream T h s" "sizes_ok s" "at_end s"
  shows "h + strstart s = length T"
proof -
  have "data_end s = strstart s" using assms(3) by (simp add: at_end_def data_end_def)
  then have "length (drop h T) = strstart s" "h \<le> length T"
    using assms sizes_simps(8,9) [OF assms(2)] by (auto simp: stream_def at_end_def)
  then show ?thesis by simp
qed

section \<open>Z_HUFFMAN_ONLY and Z_RLE\<close>

lemma lz_at_update:
  assumes "lz_at T h q k s" "win_frame t = win_frame s" "block_start t = block_start s" "l_buf t = l_buf s" "d_buf t = d_buf s"
    "last_lit t = last_lit s"
  shows "lz_at T h q k t"
proof -
  note w = win_frame_fields [OF assms(2)] and i = win_frame_inv [OF assms(2)]
  have "block_symbols t = block_symbols s" using assms by (simp add: block_symbols_def block_symbol_def)
  then show ?thesis using assms(1,3-6) by (simp add: lz_at_def lz_mid_def w i)
qed

lemma lz_atD:
  assumes "lz_at T h q k s"
  shows "lz_mid T h q (h + strstart s - k) s" "chain_ok s" "last_lit s < lit_bufsize s - 1" "k \<le> strstart s"
    "sizes_ok s" "stream T h s"
  using assms by (simp_all add: lz_at_def lz_mid_def)

text \<open>No match is waiting; and the invariant of the functions that do not look back, for a level and a
  strategy.\<close>

definition idle :: "deflate_state \<Rightarrow> bool" where
  "idle s \<longleftrightarrow> \<not> match_available s \<and> match_length s < MIN_MATCH \<and> prev_length s < MIN_MATCH"

definition plain_inv :: "u8 list \<Rightarrow> int \<times> int \<Rightarrow> nat \<Rightarrow> deflate_state \<Rightarrow> bool" where
  "plain_inv T m q s \<longleftrightarrow> lz_inv T q 0 s \<and> idle s \<and> (level s, strategy s) = m"

lemma win_frame_mode: "win_frame t = win_frame s \<Longrightarrow> (level t, strategy t) = (level s, strategy s)"
  by (simp add: win_frame_def)

lemma moved_mode: "(level (moved n s), strategy (moved n s)) = (level s, strategy s)"
  by (simp add: moved_def)

lemma match_frame_idle: "match_frame t = match_frame s \<Longrightarrow> idle t = idle s"
  by (simp add: match_frame_def idle_def)

lemma plain_filled:
  assumes "plain_inv T m q s" and u: "u = (if b then fill_window s else s)"
  obtains h where "lz_at T h q 0 u" "idle u" "(level u, strategy u) = m" "written u = written s" "plain_inv T m q u"
proof -
  obtain h where h: "lz_at T h q 0 s" using assms by (auto simp: plain_inv_def lz_inv_def)
  obtain n where n: "lz_at T (h + n) q 0 u" "fills T h n s u" "written u = written s"
    using fill_or_keep [OF h, of b] u by auto
  then have "kept u = kept s" by (simp add: fills_def)
  then have "idle u" "(level u, strategy u) = m" using assms(1) by (simp_all add: kept_def plain_inv_def idle_def)
  then show ?thesis using that n by (auto simp: plain_inv_def lz_inv_def)
qed

lemma literal_plain:
  assumes s: "lz_at T h q 0 s" "idle s" "(level s, strategy s) = m" "lookahead s \<noteq> 0"
  shows "goes T q s (emit_literal s) (plain_inv T m)"
proof -
  note d = lz_atD [OF s(1)]
  show ?thesis
  proof (rule emit_literal_goes)
    show "lz_mid T h q (h + strstart s) s" "last_lit s < lit_bufsize s - 1" "chain_ok (moved 1 s)"
      using d s(4) moved_chain_ok [of s 1] by simp_all
    show "plain_inv T m q' t" if "lz_at T h q' 0 t" "win_frame t = win_frame (moved 1 s)" "match_frame t = match_frame s" for t q'
      using that s(2,3) match_frame_idle [OF that(3)] win_frame_mode [OF that(2)] moved_mode [of 1 s]
      by (auto simp: plain_inv_def lz_inv_def)
  qed (rule s(4))
qed

lemma huff_step_goes:
  assumes s: "plain_inv T m q s"
  shows "goes T q s (huff_step flush s) (plain_inv T m)"
proof -
  define u where "u = (if lookahead s = 0 then fill_window s else s)"
  obtain h where u: "lz_at T h q 0 u" "idle u" "(level u, strategy u) = m" "written u = written s" "plain_inv T m q u"
    using plain_filled [OF s u_def] .
  let ?v = "u\<lparr>match_length := 0\<rparr>"
  have v: "lz_at T h q 0 ?v" using u(1) by (rule lz_at_update) simp_all
  have "goes T q s (emit_literal ?v) (plain_inv T m)" if "lookahead u \<noteq> 0"
  proof -
    have "goes T q ?v (emit_literal ?v) (plain_inv T m)"
      by (rule literal_plain [OF v]) (use u(2,3) that in \<open>simp_all add: idle_def match_consts\<close>)
    then show ?thesis by (rule goes_from) (simp add: u(4))
  qed
  moreover have "huff_step flush s = (if lookahead u = 0 then (if flush = Z_NO_FLUSH then Return need_more u else Break u)
      else emit_literal ?v)"
    by (simp add: huff_step_def u_def)
  moreover have "at_end u" if "lookahead u = 0"
  proof -
    obtain g where "lz_at T g q 0 s" using s by (auto simp: plain_inv_def lz_inv_def)
    then show ?thesis using filled_end [of T g q 0 s] that by (auto simp: u_def match_consts split: if_splits)
  qed
  ultimately show ?thesis using u(4,5) by (simp add: goes_Return goes_Break)
qed

lemma run_bytes_equal:
  "run_bytes n w c scan = (eq, scan') \<Longrightarrow>
    scan \<le> scan' \<and> scan' \<le> scan + n \<and> (eq \<longrightarrow> scan' = scan + n) \<and> (\<not> eq \<longrightarrow> scan < scan') \<and>
    (\<forall>i. scan < i \<and> i < scan' \<longrightarrow> w ! i = c) \<and> (eq \<and> scan < scan' \<longrightarrow> w ! scan' = c)"
proof (induction n arbitrary: scan)
  case (Suc n)
  show ?case
  proof (cases "c = w ! (scan + 1)")
    case True
    then have "run_bytes n w c (scan + 1) = (eq, scan')" using Suc.prems by simp
    note IH = Suc.IH [OF this]
    have "w ! i = c" if "scan < i" "i < scan'" for i
      using IH that True by (cases "i = scan + 1") simp_all
    moreover have "w ! scan' = c" if eq
      using IH that True by (cases "scan + 1 < scan'") auto
    ultimately show ?thesis using IH by auto
  next
    case False
    then show ?thesis using Suc.prems by auto
  qed
qed auto

lemma run_loop_equal:
  assumes "8 dvd strend - scan" "scan < strend"
  shows "scan < run_loop w c strend scan \<and> run_loop w c strend scan \<le> strend \<and>
    (\<forall>i. scan < i \<and> i < run_loop w c strend scan \<longrightarrow> w ! i = c)"
  using assms
proof (induction w c strend scan rule: run_loop.induct)
  case (1 w c strend scan)
  obtain eq scan' where r: "run_bytes 8 w c scan = (eq, scan')" by fastforce
  note e = run_bytes_equal [OF r]
  have le: "scan + 8 \<le> strend" using "1.prems" by (auto dest: dvd_imp_le)
  show ?case
  proof (cases "eq \<and> scan' < strend")
    case True
    then have m: "scan' = scan + 8" using e by blast
    have "8 dvd strend - scan'" using "1.prems" m by (metis add.commute diff_diff_left dvd_diff_nat dvd_refl)
    with "1.IH" [OF r [symmetric] refl True] True
    have IH: "scan' < run_loop w c strend scan' \<and> run_loop w c strend scan' \<le> strend \<and>
        (\<forall>i. scan' < i \<and> i < run_loop w c strend scan' \<longrightarrow> w ! i = c)" by blast
    have "run_loop w c strend scan = run_loop w c strend scan'" by (subst run_loop.simps) (simp add: r True)
    moreover have "w ! i = c" if "scan < i" "i < run_loop w c strend scan'" for i
    proof -
      consider "i < scan'" | "i = scan'" | "scan' < i" by linarith
      then show ?thesis using e IH that True m by cases auto
    qed
    ultimately show ?thesis using IH e by auto
  next
    case False
    then have "run_loop w c strend scan = scan'" by (subst run_loop.simps) (auto simp: r)
    then show ?thesis using e le by (cases eq) auto
  qed
qed

lemma rle_length_run:
  assumes "MIN_MATCH \<le> rle_length s"
  shows "0 < strstart s" "rle_length s \<le> 258" "rle_length s \<le> lookahead s"
    "i < rle_length s \<Longrightarrow> window s ! (strstart s + i) = window s ! (strstart s + i - 1)"
proof -
  let ?st = "strstart s" and ?c = "window s ! (strstart s - 1)"
  let ?r = "run_loop (window s) ?c (?st + 258) (?st + 2)"
  let ?run = "MIN_MATCH \<le> lookahead s \<and> 0 < ?st \<and> ?c = window s ! (?st - 1 + 1) \<and> ?c = window s ! (?st - 1 + 2) \<and>
    ?c = window s ! (?st - 1 + 3)"
  have run: ?run using assms by (auto simp: rle_length_def Let_def match_consts split: if_splits)
  then have st: "0 < ?st" by blast
  then have "?st - 1 + 1 = ?st" "?st - 1 + 2 = ?st + 1" "?st - 1 + 3 = ?st + 2" by simp_all
  with run have c: "?c = window s ! ?st" "?c = window s ! (?st + 1)" "?c = window s ! (?st + 2)" by metis+
  have at: "?st - 1 + 3 = ?st + 2" using st by simp
  have "rle_length s = (let len = 258 - (?st + 258 - ?r) in if len > lookahead s then lookahead s else len)"
  proof -
    have A: "MIN_MATCH \<le> lookahead s \<and> 0 < ?st" and B: "?c = window s ! (?st - 1 + 1) \<and> ?c = window s ! (?st - 1 + 2) \<and>
      ?c = window s ! (?st - 1 + 3)" using run by blast+
    show ?thesis unfolding rle_length_def Let_def if_P [OF A] if_P [OF B [unfolded at]] MAX_MATCH_def at ..
  qed
  then have len: "rle_length s = min (lookahead s) (258 - (?st + 258 - ?r))" by (simp add: Let_def min_def)
  have r: "?st + 2 < ?r" "?r \<le> ?st + 258" "\<And>i. ?st + 2 < i \<Longrightarrow> i < ?r \<Longrightarrow> window s ! i = ?c"
    using run_loop_equal [of "?st + 258" "?st + 2" "window s" ?c] by auto
  show "0 < strstart s" by (rule st)
  show "rle_length s \<le> 258" "rle_length s \<le> lookahead s" unfolding len by simp_all
  have same: "window s ! j = ?c" if j: "?st - 1 \<le> j" "j < ?st + rle_length s" for j
  proof -
    consider "j = ?st - 1" | "j = ?st" | "j = ?st + 1" | "j = ?st + 2" | "?st + 2 < j" using j st by linarith
    then show ?thesis
    proof cases
      case 5
      moreover have "j < ?r" using j(2) r(1,2) unfolding len by arith
      ultimately show ?thesis by (rule r(3))
    qed (use c in simp_all)
  qed
  show "window s ! (?st + i) = window s ! (?st + i - 1)" if "i < rle_length s"
    using same [of "?st + i"] same [of "?st + i - 1"] that st by simp
qed

text \<open>A match in the window repeats input.\<close>

lemma window_repeats:
  assumes "sizes_ok s" "stream T h s" and p: "1 \<le> d" "d \<le> p" "d \<le> 32768" "3 \<le> len" "len \<le> 258" "p + len \<le> data_end s"
    and "\<And>i. i < len \<Longrightarrow> window s ! (p + i) = window s ! (p + i - d)"
  shows "repeats T (h + p) d len"
proof -
  have "T ! (h + p + i) = T ! (h + p + i - d)" if "i < len" for i
    using stream_nth(1) [OF assms(2) _ assms(1), of "p + i"] stream_nth(1) [OF assms(2) _ assms(1), of "p + i - d"] assms(9) that p
    by (simp add: add.assoc)
  moreover have "h + p + len \<le> length T"
  proof -
    have "p + len - 1 < data_end s" using p by arith
    from stream_nth(2) [OF assms(2) this assms(1)] show ?thesis using p by arith
  qed
  ultimately show ?thesis using p by (simp add: repeats_def)
qed

text \<open>A match has been found for the byte \<open>strstart\<close>: collect it, and move on.\<close>

lemma emit_match_goes:
  assumes s: "lz_mid T h q n s" "last_lit s < lit_bufsize s - 1" and r: "repeats T n d len" "n + len = h + strstart u"
    and c: "chain_ok u" and l: "m \<le> lookahead s"
    and u: "win_frame u = win_frame (moved m (snd (tr_tally_dist s d (len - MIN_MATCH))))"
      "block_start u = block_start s" "l_buf u = l_buf (snd (tr_tally_dist s d (len - MIN_MATCH)))"
      "d_buf u = d_buf (snd (tr_tally_dist s d (len - MIN_MATCH)))" "last_lit u = Suc (last_lit s)" "written u = written s"
    and P: "\<And>t q'. lz_at T h q' 0 t \<Longrightarrow> win_frame t = win_frame u \<Longrightarrow> match_frame t = match_frame u \<Longrightarrow> P q' t"
  shows "goes T q s (if fst (tr_tally_dist s d (len - MIN_MATCH)) then FLUSH_BLOCK 0 u Continue else Continue u) P"
proof -
  let ?v = "snd (tr_tally_dist s d (len - MIN_MATCH))"
  note w = win_frame_fields [OF tally_frames(2), of s d "len - MIN_MATCH"]
  note wu = win_frame_fields [OF u(1)]
  have "lz_mid T h q (n + len) ?v" by (rule tally_dist_mid [OF s r(1)])
  then have mid: "lz_mid T h q (n + len) (moved m ?v)" using moved_mid l w by simp
  have "block_symbols u = block_symbols (moved m ?v)"
    using u by (simp add: block_symbols_def block_symbol_def tally_frames)
  moreover have "lit_bufsize u = lit_bufsize s" unfolding wu moved_simps w ..
  moreover have "length (l_buf s) = lit_bufsize s" "length (d_buf s) = lit_bufsize s" "Suc (last_lit s) < lit_bufsize s"
    using s by (auto simp: lz_mid_def)
  ultimately have "lz_mid T h q (h + strstart u) u"
    using mid by (intro lz_mid_frame [OF mid u(1)])
      (auto simp only: lz_mid_def u moved_simps tally_frames length_list_update r(2))
  then have "goes T q u (if fst (tr_tally_dist s d (len - MIN_MATCH)) then FLUSH_BLOCK 0 u Continue else Continue u) P"
    using u(5) wu(4) w(4) c P by (intro symbol_goes) (simp_all add: tally_frames)
  then show ?thesis using goes_from u(6) by metis
qed

lemma rle_body_goes:
  assumes s: "lz_at T h q 0 s" "idle s" "(level s, strategy s) = m" "lookahead s \<noteq> 0"
  shows "goes T q s (rle_body s) (plain_inv T m)"
proof -
  let ?s = "s\<lparr>match_length := rle_length s\<rparr>"
  have at: "lz_at T h q 0 ?s" using s(1) by (rule lz_at_update) simp_all
  note d = lz_atD [OF at]
  have "goes T q ?s (rle_body s) (plain_inv T m)"
  proof (cases "MIN_MATCH \<le> rle_length s")
    case True
    note r = rle_length_run [OF True]
    have rep: "repeats T (h + strstart ?s) 1 (rle_length s)"
      using r True d(5,6) by (intro window_repeats [of ?s]) (auto simp: data_end_def match_consts)
    let ?v = "snd (tr_tally_dist ?s 1 (rle_length s - MIN_MATCH))"
    let ?u = "(moved (rle_length s) ?v)\<lparr>match_length := 0\<rparr>"
    note w = win_frame_fields [OF tally_frames(2), of ?s 1 "rle_length s - MIN_MATCH"]
    have body: "rle_body s = (if fst (tr_tally_dist ?s 1 (rle_length s - MIN_MATCH))
        then FLUSH_BLOCK 0 ?u Continue else Continue ?u)"
      using True by (simp add: rle_body_def Let_def case_prod_unfold moved_def)
    have f: "win_frame ?u = win_frame (moved (rle_length s) ?v)" by simp
    have "chain_ok (moved (rle_length s) ?s)" using d(2) r(3) by (intro moved_chain_ok) simp_all
    then have c: "chain_ok ?u"
      using win_frame_inv(3) [OF f] win_frame_inv(3) [OF moved_frame [OF tally_frames(2)]] by metis
    show ?thesis
      unfolding body
    proof (rule emit_match_goes)
      show "lz_mid T h q (h + strstart ?s) ?s" "last_lit ?s < lit_bufsize ?s - 1" using d by simp_all
      show "h + strstart ?s + rle_length s = h + strstart ?u" using w by simp
      show "plain_inv T m q' t" if "lz_at T h q' 0 t" "win_frame t = win_frame ?u" "match_frame t = match_frame ?u" for t q'
      proof -
        have "(level t, strategy t) = m"
          using win_frame_mode [OF that(2)] win_frame_mode [OF f] moved_mode [of "rle_length s" ?v]
            win_frame_mode [OF tally_frames(2), of ?s 1 "rle_length s - MIN_MATCH"] s(3) by simp
        moreover have "idle t"
        proof -
          have "match_frame ?v = match_frame ?s" by (rule tally_frames(4))
          then have "idle ?u" using s(2) by (simp add: idle_def match_frame_def moved_def match_consts)
          then show ?thesis using match_frame_idle [OF that(3)] by simp
        qed
        ultimately show ?thesis using that(1) by (auto simp: plain_inv_def lz_inv_def)
      qed
    qed (use rep c r(3) in \<open>simp_all add: tally_frames\<close>)
  next
    case False
    then have body: "rle_body s = emit_literal ?s" by (simp add: rle_body_def Let_def)
    show ?thesis unfolding body by (rule literal_plain [OF at]) (use s(2-4) False in \<open>simp_all add: idle_def\<close>)
  qed
  then show ?thesis by (rule goes_from) simp
qed

lemma rle_step_goes:
  assumes s: "plain_inv T m q s"
  shows "goes T q s (rle_step flush s) (plain_inv T m)"
proof -
  define u where "u = (if lookahead s \<le> MAX_MATCH then fill_window s else s)"
  obtain h where u: "lz_at T h q 0 u" "idle u" "(level u, strategy u) = m" "written u = written s" "plain_inv T m q u"
    using plain_filled [OF s u_def] .
  have "goes T q s (rle_body u) (plain_inv T m)" if "lookahead u \<noteq> 0"
    using rle_body_goes [OF u(1-3) that] u(4) goes_from by metis
  moreover have "rle_step flush s = (if lookahead u \<le> MAX_MATCH \<and> flush = Z_NO_FLUSH then Return need_more u
      else if lookahead u = 0 then Break u else rle_body u)"
    by (simp add: rle_step_def u_def Let_def)
  moreover have "at_end u" if "lookahead u = 0"
  proof -
    obtain g where "lz_at T g q 0 s" using s by (auto simp: plain_inv_def lz_inv_def)
    then show ?thesis using filled_end [of T g q 0 s] that by (auto simp: u_def match_consts split: if_splits)
  qed
  ultimately show ?thesis using u(4,5) by (simp add: goes_Return goes_Break)
qed

section \<open>The loops and their ends\<close>

lemma goes_bind:
  assumes "goes T q s (Continue t) P" "\<And>q'. P q' t \<Longrightarrow> goes T q' t r P"
  shows "goes T q s r P"
proof -
  obtain q' where q: "emits T q s q' t" "P q' t" using assms(1) by (auto simp: goes_def)
  obtain q'' u where "r = Continue u \<or> r = Break u \<and> at_end u \<or> r = Return need_more u"
      "emits T q' t q'' u" "P q'' u"
    using assms(2) [OF q(2)] by (auto simp: goes_def)
  then show ?thesis using emits_trans [OF _ q(1)] by (auto simp: goes_def)
qed

text \<open>The contract of a step, and what the loop over it does.\<close>

locale match_loop =
  fixes step turns :: "int \<Rightarrow> deflate_state \<Rightarrow> step" and T :: "u8 list" and inv :: "nat \<Rightarrow> deflate_state \<Rightarrow> bool"
  assumes turns: "turns flush s = (case step flush s of Continue t \<Rightarrow> turns flush t | r \<Rightarrow> r)"
    and moves: "moves s (step flush s)"
    and step_goes: "inv q s \<Longrightarrow> goes T q s (step flush s) inv"
begin

lemma turns_goes: "inv q s \<Longrightarrow> goes T q s (turns flush s) inv"
proof (induction s arbitrary: q rule: measure_induct_rule [of unread])
  case (less s)
  note g = step_goes [OF less.prems, of flush]
  show ?case
  proof (cases "step flush s")
    case (Continue t)
    then have "unread t < unread s" using moves [of s flush] by simp
    note IH = less.IH [OF this]
    show ?thesis using goes_bind [OF g [unfolded Continue] IH] by (subst turns) (simp add: Continue)
  qed (use g in \<open>subst turns, simp\<close>)+
qed

end

interpretation huff: match_loop huff_step huff_turns T "plain_inv T m" for T m
  by unfold_locales (rule huff_turns.simps, rule huff_step_moves, rule huff_step_goes)

interpretation rle: match_loop rle_step rle_turns T "plain_inv T m" for T m
  by unfold_locales (rule rle_turns.simps, rule rle_step_moves, rule rle_step_goes)

text \<open>At the end of the input the strings not in the table are at most the last two.\<close>

lemma end_chain_ok:
  assumes "chain_ok s" "lookahead s = 0" "ins \<le> strstart s" "ins < MIN_MATCH"
  shows "chain_ok (s\<lparr>d_insert := ins\<rparr>)"
proof -
  have e: "data_end s = strstart s" using assms(2) by (simp add: data_end_def)
  have le: "min (strstart s - d_insert s) (strstart s - 2) \<le> min (strstart s - ins) (strstart s - 2)"
    using assms(4) by (simp add: match_consts)
  have "chains (min (strstart s - d_insert s) (strstart s - 2)) (strstart s) s"
    using assms(1) by (simp add: chain_ok_def e)
  from chains_mono [OF this le order_refl] show ?thesis using assms by (simp add: chain_ok_def data_end_def)
qed

lemma end_blocks_goes:
  assumes s: "lz_mid T h q (h + strstart s) s" "chain_ok s" "at_end s" and i: "ins \<le> strstart s" "ins < MIN_MATCH"
    and r: "end_blocks flush ins s = (b, t)"
  shows "\<exists>q'. sent T b q s q' t \<and> lz_at T h q' 0 t \<and> q' = length T \<and> at_end t \<and> match_frame t = match_frame s \<and>
    (level t, strategy t) = (level s, strategy s)"
proof -
  let ?u = "s\<lparr>d_insert := ins\<rparr>"
  have "stream T h ?u" "block_symbols ?u = block_symbols s"
    using s(1) by (simp_all add: lz_mid_def stream_def data_end_def block_symbols_def block_symbol_def)
  then have mid: "lz_mid T h q (h + strstart ?u) ?u" using s(1) by (simp add: lz_mid_def)
  have c: "chain_ok ?u" using end_chain_ok [OF s(2) _ i] s(3) by (simp add: at_end_def)
  have len: "h + strstart s = length T" using s(1,3) by (intro stream_end) (simp_all add: lz_mid_def)
  have u: "written ?u = written s" "match_frame ?u = match_frame s" by (simp_all add: written_def match_frame_def)
  have flush: "lz_at T h (h + strstart s) 0 (FLUSH_BLOCK_ONLY l ?u) \<and>
      at_end (FLUSH_BLOCK_ONLY l ?u) \<and> match_frame (FLUSH_BLOCK_ONLY l ?u) = match_frame s \<and>
      (level (FLUSH_BLOCK_ONLY l ?u), strategy (FLUSH_BLOCK_ONLY l ?u)) = (level s, strategy s)" for l
  proof -
    note f = FLUSH_BLOCK_ONLY_frame [of l ?u]
    have "lz_at T h (h + strstart s) 0 (FLUSH_BLOCK_ONLY l ?u)" using flush_mid(1) [OF mid c, of l] by simp
    moreover have "at_end (FLUSH_BLOCK_ONLY l ?u)" using win_frame_fields(2,7) [OF f(1)] s(3) by (simp add: at_end_def)
    moreover have "match_frame (FLUSH_BLOCK_ONLY l ?u) = match_frame s" using f(2) u(2) by simp
    moreover have "(level (FLUSH_BLOCK_ONLY l ?u), strategy (FLUSH_BLOCK_ONLY l ?u)) = (level s, strategy s)"
      using win_frame_mode [OF f(1)] by simp
    ultimately show ?thesis by blast
  qed
  have out: "sent T finish_started q s (h + strstart s) (FLUSH_BLOCK_ONLY 1 ?u)"
    "sent T finish_done q s (h + strstart s) (FLUSH_BLOCK_ONLY 1 ?u)"
    "sent T need_more q s (h + strstart s) (FLUSH_BLOCK_ONLY 0 ?u)"
    "sent T block_done q s (h + strstart s) (FLUSH_BLOCK_ONLY 0 ?u)"
    by (rule sent_from [OF _ u(1) [symmetric]], use flush_emits [OF mid] in \<open>simp add: sent_def\<close>)+
  have "(\<exists>l. t = FLUSH_BLOCK_ONLY l ?u \<and> sent T b q s (h + strstart s) t) \<or> last_lit s = 0 \<and> t = ?u \<and> b = block_done"
    using r out by (auto simp: end_blocks_def Let_def split: if_splits)
  then show ?thesis
  proof (elim disjE exE conjE)
    assume l: "last_lit s = 0" and t: "t = ?u" and b: "b = block_done"
    have "symbols_of T q (h + strstart s) []" using s(1) l by (simp add: lz_mid_def block_symbols_def)
    then have "q = length T" unfolding len by (simp add: symbols_of_def symbols_data_def)
    moreover have "lz_at T h q 0 ?u" using mid c l by (simp add: lz_at_def lz_mid_def)
    moreover have "at_end ?u" using s(3) by (simp add: at_end_def)
    ultimately show ?thesis using t u emits_quiet [OF u(1)] b by (auto simp: sent_def)
  qed (use flush len in metis)
qed

text \<open>A result other than \<open>need_more\<close> tells that the whole input has gone out, in a finished block unless the
  flush is \<open>Z_FINISH\<close>, which ends the stream.\<close>

definition ended :: "u8 list \<Rightarrow> int \<Rightarrow> block_state \<Rightarrow> nat \<Rightarrow> bool" where
  "ended T flush b q \<longleftrightarrow> (b \<noteq> need_more \<longrightarrow> q = length T \<and> (flush = Z_FINISH \<longleftrightarrow> b \<noteq> block_done))"

lemma ended_blocks: "end_blocks flush ins s = (b, t) \<Longrightarrow> q = length T \<Longrightarrow> ended T flush b q"
  by (auto simp: ended_def end_blocks_def Let_def split: if_splits)

lemma ended_more: "ended T flush need_more q"
  by (simp add: ended_def)

lemma finish_loop_plain:
  assumes g: "goes T q s r (plain_inv T m)" and f: "finish_loop flush (\<lambda>_. 0) r = (b, t)"
  shows "\<exists>q'. sent T b q s q' t \<and> plain_inv T m q' t \<and> ended T flush b q'"
proof -
  obtain q' u where u: "r = Continue u \<or> r = Break u \<and> at_end u \<or> r = Return need_more u"
      "emits T q s q' u" "plain_inv T m q' u" using g by (auto simp: goes_def)
  show ?thesis
  proof (cases "r = Break u \<and> at_end u")
    case True
    then have e: "end_blocks flush 0 u = (b, t)" using f by (simp add: finish_loop_def)
    obtain h where h: "lz_at T h q' 0 u" using u(3) by (auto simp: plain_inv_def lz_inv_def)
    note d = lz_atD [OF h]
    have "\<exists>q''. sent T b q' u q'' t \<and> lz_at T h q'' 0 t \<and> q'' = length T \<and> at_end t \<and> match_frame t = match_frame u \<and>
        (level t, strategy t) = (level u, strategy u)"
      using d True by (intro end_blocks_goes [OF _ _ _ _ _ e]) (simp_all add: match_consts)
    then obtain q'' where q: "sent T b q' u q'' t" "lz_at T h q'' 0 t" "match_frame t = match_frame u" "q'' = length T"
      "(level t, strategy t) = (level u, strategy u)" by blast
    have "plain_inv T m q'' t" using q match_frame_idle [OF q(3)] u(3) by (auto simp: plain_inv_def lz_inv_def)
    then show ?thesis using sent_trans [OF q(1) u(2)] ended_blocks [OF e q(4)] by blast
  next
    case False
    then have "t = u" "b = need_more" using u(1) f by (auto simp: finish_loop_def)
    then show ?thesis using u ended_more by (auto simp: sent_def)
  qed
qed

lemma deflate_plain:
  assumes "plain_inv T m q s"
  shows "deflate_huff flush s = (b, t) \<Longrightarrow> \<exists>q'. sent T b q s q' t \<and> plain_inv T m q' t \<and> ended T flush b q'"
    "deflate_rle flush s = (b, t) \<Longrightarrow> \<exists>q'. sent T b q s q' t \<and> plain_inv T m q' t \<and> ended T flush b q'"
  using finish_loop_plain [OF huff.turns_goes [OF assms]] finish_loop_plain [OF rle.turns_goes [OF assms]]
  by (auto simp: deflate_huff_def deflate_rle_def)

end
