(* ===== verification/Deflate_Search.thy ===== *)
theory Deflate_Search
  imports Deflate_Sound
begin

text \<open>
  The compression functions of \<open>src/src/zlib/deflate.c\<close> that look for matches, \<open>deflate_fast\<close> and
  \<open>deflate_slow\<close>: what they collect stands for the input too, and they keep the hash chains.
\<close>

section \<open>Entering and searching\<close>

lemma chain_okD: "chain_ok s \<Longrightarrow> d_insert s = 0 \<Longrightarrow> \<exists>I. chain_set (min (strstart s) (data_end s - 2)) (data_end s) s I"
  by (simp add: chain_ok_def chains_def)

definition hashed :: "deflate_state \<Rightarrow> deflate_state \<Rightarrow> bool" where
  "hashed s u \<longleftrightarrow> (\<exists>a b c. u = s\<lparr>ins_h := a, prev := b, head := c\<rparr>)"

lemma hashed_refl: "hashed s s"
  unfolding hashed_def by (rule exI [of _ "ins_h s"], rule exI [of _ "prev s"], rule exI [of _ "head s"]) simp

lemma hashed_fields:
  assumes "hashed s u"
  shows "strstart u = strstart s" "lookahead u = lookahead s" "data_end u = data_end s" "window u = window s"
    "w_size u = w_size s" "MAX_DIST u = MAX_DIST s" "strm_next_in u = strm_next_in s" "window_size u = window_size s"
    "d_insert u = d_insert s" "block_start u = block_start s" "l_buf u = l_buf s" "d_buf u = d_buf s"
    "lit_bufsize u = lit_bufsize s" "last_lit u = last_lit s" "match_frame u = match_frame s" "written u = written s"
    "(level u, strategy u) = (level s, strategy s)" "block_symbols u = block_symbols s" "lookahead u = lookahead s"
    "max_lazy_match u = max_lazy_match s" "match_length u = match_length s" "prev_length u = prev_length s"
    "match_available u = match_available s" "match_start u = match_start s" "prev_match u = prev_match s"
  using assms by (auto simp: hashed_def data_end_def MAX_DIST_def match_frame_def written_def block_symbols_def block_symbol_def)

lemma hashed_mid: "hashed s u \<Longrightarrow> sizes_ok u \<Longrightarrow> lz_mid T h q n s \<Longrightarrow> lz_mid T h q n u"
  by (simp add: lz_mid_def stream_def hashed_fields)

lemma INSERT_STRING_hashed: "hashed s (snd (INSERT_STRING p s))"
proof -
  have "snd (INSERT_STRING p s) = s\<lparr>ins_h := ins_h (snd (INSERT_STRING p s)), prev := prev (snd (INSERT_STRING p s)),
      head := head (snd (INSERT_STRING p s))\<rparr>"
    by (simp add: INSERT_STRING_def UPDATE_HASH_def Let_def)
  then show ?thesis unfolding hashed_def by blast
qed

text \<open>After entering the string at \<open>strstart\<close>, the head of its chain may be searched from.\<close>

lemma insert_here_chain:
  assumes s: "sizes_ok s" "chain_ok s" "rolled_ok s" "data_end s \<le> window_size s" and r: "insert_here s = (hh, u)"
  shows "hashed s u" "sizes_ok u" "lookahead s < 3 \<Longrightarrow> hh = 0 \<and> u = s"
    "3 \<le> lookahead s \<Longrightarrow> rolled u (strstart s + 1) \<and> d_insert u = 0 \<and>
      (\<exists>I. chain_set (strstart s + 1) (data_end s) u I \<and>
        (hh \<noteq> 0 \<longrightarrow> hh \<in> I \<and> hash_at u hh = hash_at u (strstart s) \<and> hh < strstart s))"
proof -
  have "hashed s u \<and> sizes_ok u \<and> (lookahead s < 3 \<longrightarrow> hh = 0 \<and> u = s) \<and>
    (3 \<le> lookahead s \<longrightarrow> rolled u (strstart s + 1) \<and> d_insert u = 0 \<and>
      (\<exists>I. chain_set (strstart s + 1) (data_end s) u I \<and>
        (hh \<noteq> 0 \<longrightarrow> hh \<in> I \<and> hash_at u hh = hash_at u (strstart s) \<and> hh < strstart s)))"
  proof (cases "3 \<le> lookahead s")
    case True
    let ?p = "strstart s"
    have d: "d_insert s = 0" "rolled s ?p" using s(3) True by (simp_all add: rolled_ok_def match_consts)
    obtain I where I: "chain_set (min ?p (data_end s - 2)) (data_end s) s I" using chain_okD [OF s(2) d(1)] by blast
    have p: "min ?p (data_end s - 2) \<le> ?p" "?p + 2 < data_end s" "data_end s \<le> 2 * w_size s"
      using True s(4) sizes_simps(8) [OF s(1)] by (simp_all add: data_end_def)
    have i: "INSERT_STRING ?p s = (hh, u)" using r True by (simp add: insert_here_def match_consts)
    have c: "chain_set (?p + 1) (data_end s) u (insert ?p I)" using INSERT_STRING_chain [OF s(1) d(2) I p] i by simp
    have u: "rolled u (?p + 1)" "sizes_ok u" "hashed s u"
      using INSERT_STRING_rolled [OF s(1) d(2)] INSERT_STRING_hashed [of s ?p] i by simp_all
    have hh: "hh = unat (INSERT_head ?p s)" and hash: "hash_at u = hash_at s"
      using INSERT_STRING_eq [OF s(1) d(2)] i by (auto simp: fun_eq_iff)
    have "hh \<in> I \<and> hash_at s hh = hash_at s ?p \<and> hh < ?p" if "hh \<noteq> 0"
      using I hash_at_less [OF s(1), of ?p] that p(1)
      by (fastforce simp: chain_set_def Let_def hh INSERT_head_def word_eq_unat)
    then show ?thesis using u c hash True d(1) hashed_fields(9) [OF u(3)] by auto
  next
    case False
    then show ?thesis using r s(1) hashed_refl by (auto simp: insert_here_def match_consts)
  qed
  then show "hashed s u" "sizes_ok u" "lookahead s < 3 \<Longrightarrow> hh = 0 \<and> u = s"
    "3 \<le> lookahead s \<Longrightarrow> rolled u (strstart s + 1) \<and> d_insert u = 0 \<and>
      (\<exists>I. chain_set (strstart s + 1) (data_end s) u I \<and>
        (hh \<noteq> 0 \<longrightarrow> hh \<in> I \<and> hash_at u hh = hash_at u (strstart s) \<and> hh < strstart s))" by auto
qed

text \<open>A match in the window repeats input, and \<open>distance\<close> is how far back it is.\<close>

lemma match_repeats:
  assumes s: "sizes_ok s" "stream T h s" and m: "is_match s len c" "len \<le> lookahead s"
  shows "repeats T (h + strstart s) (strstart s - c) len" "distance s (word_of_nat c) = strstart s - c"
    "strstart s - c \<le> MAX_DIST s" "c < strstart s"
proof -
  note m' = m(1) [unfolded is_match_def]
  note sz = sizes_simps [OF s(1)]
  show "repeats T (h + strstart s) (strstart s - c) len"
    using m' m(2) sz(4)
    by (intro window_repeats [OF s]) (auto simp: data_end_def MAX_DIST_def add.commute)
  have "strstart s < 2 ^ 32" using s(2) sz(4,8) by (simp add: stream_def data_end_def)
  then show "distance s (word_of_nat c) = strstart s - c"
    using m' by (simp add: distance_def unsigned_of_nat take_bit_nat_eq_self flip: of_nat_diff)
  show "strstart s - c \<le> MAX_DIST s" "c < strstart s" using m' by auto
qed

lemma longest_match_found:
  assumes s: "sizes_ok s" "stream T h s" and c: "chain_set (strstart s + 1) e s I" and l: "3 \<le> lookahead s"
    and hh: "hh \<in> I" "hash_at s hh = hash_at s (strstart s)" "hh < strstart s" "strstart s - hh \<le> MAX_DIST s"
    and r: "longest_match hh s = (len, t)"
  shows "\<exists>m. t = s\<lparr>match_start := m\<rparr>" "len \<le> lookahead s"
    "len \<le> prev_length s \<or> distance s (match_start t) \<le> MAX_DIST s \<and> distance s (match_start t) < strstart s + 1 \<and>
      repeats T (h + strstart s) (distance s (match_start t)) len"
proof -
  have far: "strstart s \<le> hh + MAX_DIST s" using hh(4) by simp
  note m = longest_match_sound [OF s(1) c order_refl l hh(1-3) far r]
  show "\<exists>m. t = s\<lparr>match_start := m\<rparr>" "len \<le> lookahead s" using m by blast+
  show "len \<le> prev_length s \<or> distance s (match_start t) \<le> MAX_DIST s \<and> distance s (match_start t) < strstart s + 1 \<and>
      repeats T (h + strstart s) (distance s (match_start t)) len"
    using m(2)
  proof
    assume "\<exists>c. match_start t = word_of_nat c \<and> is_match s len c"
    then obtain c where c: "match_start t = word_of_nat c" "is_match s len c" by blast
    show ?thesis using match_repeats [OF s c(2) m(1)] c(1) by auto
  qed simp
qed
section \<open>deflate_fast\<close>

text \<open>The invariant: nothing waits, the hash is that of the next string.\<close>

definition fast_inv :: "u8 list \<Rightarrow> int \<times> int \<Rightarrow> nat \<Rightarrow> deflate_state \<Rightarrow> bool" where
  "fast_inv T m q s \<longleftrightarrow> plain_inv T m q s \<and> rolled_ok s"

lemma fast_invI:
  "lz_at T h q 0 s \<Longrightarrow> idle s \<Longrightarrow> (level s, strategy s) = m \<Longrightarrow> rolled_ok s \<Longrightarrow> fast_inv T m q s"
  by (auto simp: fast_inv_def plain_inv_def lz_inv_def)

text \<open>The strings of a match that has been taken, up to the byte before the new \<open>strstart\<close>.\<close>

lemma insert_run_chain:
  assumes "sizes_ok s" "rolled s (strstart s + 1)" "chains (strstart s + 1) e s" "strstart s + n + 2 < e" "e \<le> 2 * w_size s"
  shows "sizes_ok (insert_run n s) \<and> rolled (insert_run n s) (strstart s + n + 1) \<and>
    chains (strstart s + n + 1) e (insert_run n s) \<and> hashed (s\<lparr>strstart := strstart s + n\<rparr>) (insert_run n s)"
  using assms
proof (induction n arbitrary: s)
  case 0
  then show ?case using hashed_refl [of s] by simp
next
  case (Suc n)
  let ?s = "s\<lparr>strstart := strstart s + 1\<rparr>" and ?p = "strstart s + 1"
  let ?u = "snd (INSERT_STRING ?p ?s)"
  have s: "sizes_ok ?s" "rolled ?s ?p" "chains ?p e ?s" using Suc.prems by simp_all
  have h: "hashed ?s ?u" by (rule INSERT_STRING_hashed)
  note f = hashed_fields [OF h]
  have u: "sizes_ok ?u" "rolled ?u (strstart ?u + 1)" "chains (strstart ?u + 1) e ?u"
    using INSERT_STRING_rolled [OF s(1,2)] INSERT_STRING_chains [OF s order_refl] Suc.prems(4,5) f(1) by simp_all
  have st: "strstart ?u = ?p" using f(1) by simp
  have "strstart ?u + n + 2 < e" "e \<le> 2 * w_size ?u" using Suc.prems(4,5) f by simp_all
  note IH = Suc.IH [OF u this]
  have run: "insert_run (Suc n) s = insert_run n ?u" by (simp add: Let_def)
  have "hashed (s\<lparr>strstart := strstart s + Suc n\<rparr>) (insert_run n ?u)"
  proof -
    obtain a b c where "?u = ?s\<lparr>ins_h := a, prev := b, head := c\<rparr>" using h by (auto simp: hashed_def)
    then have "?u\<lparr>strstart := strstart ?u + n\<rparr> = s\<lparr>strstart := strstart s + Suc n, ins_h := a, prev := b, head := c\<rparr>"
      using st by simp
    then show ?thesis using IH by (auto simp: hashed_def)
  qed
  then show ?case using IH unfolding run st by (simp add: add.assoc)
qed

lemma chain_ok_from:
  assumes "chains b (data_end s) s" "d_insert s = 0" "b \<le> strstart s" "b + 2 \<le> data_end s"
  shows "chain_ok s"
proof -
  have "b \<le> min (strstart s) (data_end s - 2)" using assms(3,4) by arith
  from chains_mono [OF assms(1) this order_refl] show ?thesis using assms(2) by (simp add: chain_ok_def match_consts)
qed

lemma chain_ok_entered:
  assumes "chains (strstart s + 1) (data_end s) s" "d_insert s = 0" "3 \<le> lookahead s"
  shows "chain_ok (moved 1 s)"
proof -
  have "data_end (moved 1 s) = data_end s" using assms(3) by (simp add: data_end_def)
  moreover have "chains (strstart s + 1) (data_end s) (moved 1 s)" using assms(1) by (simp add: moved_def)
  moreover have "d_insert (moved 1 s) = 0" using assms(2) by (simp add: moved_def)
  ultimately show ?thesis
    using assms(3) by (intro chain_ok_from [of "strstart s + 1"]) (simp_all add: data_end_def)
qed

text \<open>What \<open>fast_match\<close> does to the window and the hash table.\<close>

definition fast_enter :: "deflate_state \<Rightarrow> deflate_state" where
  "fast_enter s =
     (if match_length s \<le> max_lazy_match s \<and> lookahead s \<ge> MIN_MATCH then
        (insert_run (match_length s - 1) s)\<lparr>match_length := 0, strstart := strstart (insert_run (match_length s - 1) s) + 1\<rparr>
      else
        (let s = s\<lparr>strstart := strstart s + match_length s, match_length := 0\<rparr>;
             s = s\<lparr>ins_h := ucast (window s ! strstart s)\<rparr>
         in UPDATE_HASH (window s ! (strstart s + 1)) s))"

lemma fast_match_eq:
  "fast_match s =
     (let r = tr_tally_dist s (distance s (match_start s)) (match_length s - MIN_MATCH);
          u = fast_enter ((snd r)\<lparr>lookahead := lookahead (snd r) - match_length (snd r)\<rparr>)
      in if fst r then FLUSH_BLOCK 0 u Continue else Continue u)"
  by (simp add: fast_match_def fast_enter_def Let_def case_prod_unfold)

lemma fast_enter_ok:
  assumes s: "sizes_ok s" "rolled s (strstart s + 1)" "chains (strstart s + 1) e s" "d_insert s = 0"
    and e: "e = strstart s + match_length s + lookahead s" "e \<le> 2 * w_size s" "3 \<le> match_length s"
  shows "sizes_ok (fast_enter s) \<and> chain_ok (fast_enter s) \<and> rolled_ok (fast_enter s) \<and> data_end (fast_enter s) = e \<and>
    hashed (s\<lparr>match_length := 0, strstart := strstart s + match_length s\<rparr>) (fast_enter s)"
proof (cases "match_length s \<le> max_lazy_match s \<and> lookahead s \<ge> MIN_MATCH")
  case True
  let ?n = "match_length s - 1"
  let ?u = "insert_run ?n s"
  let ?t = "?u\<lparr>match_length := 0, strstart := strstart ?u + 1\<rparr>"
  have "strstart s + ?n + 2 < e" using e True by (simp add: match_consts)
  note r = insert_run_chain [OF s(1-3) this e(2)]
  have n: "strstart s + ?n + 1 = strstart s + match_length s" using e(3) by simp
  have h: "hashed (s\<lparr>strstart := strstart s + ?n\<rparr>) ?u" using r by blast
  note f = hashed_fields [OF h]
  have st: "strstart ?t = strstart s + match_length s" using f(1) n by simp
  have la: "lookahead ?t = lookahead s" "d_insert ?t = 0" using f(2,9) s(4) by simp_all
  have de: "data_end ?t = e" using st la e(1) by (simp add: data_end_def)
  have sz: "sizes_ok ?t" using r by simp
  have "chains (strstart s + match_length s) e ?u" using r n by simp
  then have ch: "chains (strstart s + match_length s) e ?t" by (rule chains_cong) simp_all
  have "chain_ok ?t" using ch st la de True e(1) by (intro chain_ok_from [of "strstart s + match_length s"]) (simp_all add: match_consts)
  moreover have "rolled ?u (strstart s + match_length s)" using r n by simp
  then have "rolled_ok ?t" using st la by (simp add: rolled_ok_def rolled_def)
  moreover have "hashed (s\<lparr>match_length := 0, strstart := strstart s + match_length s\<rparr>) ?t"
  proof -
    obtain a b c where "?u = s\<lparr>strstart := strstart s + ?n, ins_h := a, prev := b, head := c\<rparr>" using h by (auto simp: hashed_def)
    then have "?t = s\<lparr>match_length := 0, strstart := strstart s + match_length s, ins_h := a, prev := b, head := c\<rparr>"
      using e(3) by simp
    then show ?thesis unfolding hashed_def by auto
  qed
  ultimately show ?thesis using True sz de by (simp add: fast_enter_def)
next
  case False
  let ?v = "s\<lparr>match_length := 0, strstart := strstart s + match_length s\<rparr>"
  let ?p = "strstart s + match_length s"
  let ?t = "UPDATE_HASH (window ?v ! (?p + 1)) (?v\<lparr>ins_h := ucast (window ?v ! ?p)\<rparr>)"
  have t: "fast_enter s = ?t" unfolding fast_enter_def if_not_P [OF False] Let_def by (simp add: UPDATE_HASH_def)
  have sv: "sizes_ok ?v" using s(1) by simp
  have ro: "rolled ?t ?p" by (rule rolled_init [OF sv])
  have h: "hashed ?v ?t"
  proof -
    have "?t = ?v\<lparr>ins_h := ins_h ?t, prev := prev ?v, head := head ?v\<rparr>" by (simp add: UPDATE_HASH_def)
    then show ?thesis unfolding hashed_def by blast
  qed
  note f = hashed_fields [OF h]
  have st: "strstart ?t = ?p" "lookahead ?t = lookahead s" "d_insert ?t = 0" using f(1,2,9) s(4) by simp_all
  have de: "data_end ?t = e" using st e(1) by (simp add: data_end_def)
  have sz: "sizes_ok ?t" using s(1) by (simp add: UPDATE_HASH_def)
  have "chains (strstart s + 1) e ?t" using s(3) by (rule chains_cong) (simp_all add: UPDATE_HASH_def)
  then have "chain_ok ?t" using st de e by (intro chain_ok_from [of "strstart s + 1"]) simp_all
  moreover have "rolled_ok ?t" using ro st by (simp add: rolled_ok_def)
  ultimately show ?thesis using h sz de unfolding t by simp
qed

lemma lz_mid_matched: "lz_mid T h q n (s\<lparr>match_length := k\<rparr>) \<longleftrightarrow> lz_mid T h q n s"
proof -
  have "block_symbols (s\<lparr>match_length := k\<rparr>) = block_symbols s" by (simp add: block_symbols_def block_symbol_def)
  then show ?thesis by (simp add: lz_mid_def stream_def data_end_def)
qed

text \<open>A match has been collected, and \<open>n\<close> bytes have been passed: the state \<open>u\<close> after entering their strings.\<close>

lemma entered_goes:
  assumes s: "lz_mid T h q (h + p) s" "last_lit s < lit_bufsize s - 1" and r: "repeats T (h + p) d len" "p + len = strstart u"
    and c: "chain_ok u" "sizes_ok u" and l: "n \<le> lookahead s"
    and u: "hashed x u" "win_frame x = win_frame (moved n (snd (tr_tally_dist s d (len - MIN_MATCH))))"
      "block_start x = block_start s" "l_buf x = l_buf (snd (tr_tally_dist s d (len - MIN_MATCH)))"
      "d_buf x = d_buf (snd (tr_tally_dist s d (len - MIN_MATCH)))" "last_lit x = Suc (last_lit s)" "written x = written s"
    and P: "\<And>t q'. lz_at T h q' 0 t \<Longrightarrow> win_frame t = win_frame u \<Longrightarrow> match_frame t = match_frame u \<Longrightarrow> P q' t"
  shows "goes T q s (if fst (tr_tally_dist s d (len - MIN_MATCH)) then FLUSH_BLOCK 0 u Continue else Continue u) P"
proof -
  define v where "v = snd (tr_tally_dist s d (len - MIN_MATCH))"
  have full: "fst (tr_tally_dist s d (len - MIN_MATCH)) \<longleftrightarrow> Suc (last_lit s) = lit_bufsize s - 1" by (rule tally_frames)
  have vf: "win_frame v = win_frame s" "lookahead v = lookahead s" "lit_bufsize v = lit_bufsize s"
    using win_frame_fields [OF tally_frames(2), of s d "len - MIN_MATCH"] tally_frames(2) by (simp_all add: v_def)
  have vl: "last_lit v = Suc (last_lit s)" "block_start v = block_start s" by (simp_all add: v_def tally_frames)
  have mid: "lz_mid T h q (h + p + len) (moved n v)"
    using moved_mid [OF tally_dist_mid [OF s r(1)], of n] l vf(2) by (simp add: v_def)
  note x = u(2-7) [folded v_def]
  have "block_symbols x = block_symbols (moved n v)"
    unfolding block_symbols_def block_symbol_def using x vl by simp
  then have "lz_mid T h q (h + p + len) x"
    using mid x vl by (intro lz_mid_frame [OF mid x(1)]) (use win_frame_fields(4) [OF x(1)] in \<open>auto simp: lz_mid_def\<close>)
  then have midu: "lz_mid T h q (h + strstart u) u" using hashed_mid [OF u(1) c(2)] r(2) by (simp add: add.assoc)
  note f = hashed_fields [OF u(1)]
  have lit: "last_lit u = Suc (last_lit s)" "lit_bufsize u = lit_bufsize s" "written u = written s"
    using f(13,14,16) x(5,6) win_frame_fields(4) [OF x(1)] vf by simp_all
  have "goes T q u (if fst (tr_tally_dist s d (len - MIN_MATCH)) then FLUSH_BLOCK 0 u Continue else Continue u) P"
    by (rule symbol_goes [OF midu c(1) _ P]) (simp_all only: full lit)
  then show ?thesis using goes_from lit(3) by metis
qed

lemma fast_match_goes:
  assumes s: "lz_mid T h q (h + strstart s) s" "last_lit s < lit_bufsize s - 1" "rolled s (strstart s + 1)"
      "chains (strstart s + 1) (data_end s) s" "d_insert s = 0"
    and rep: "repeats T (h + strstart s) (distance s (match_start s)) (match_length s)" "match_length s \<le> lookahead s"
    and i: "\<not> match_available s" "prev_length s < MIN_MATCH"
  shows "goes T q s (fast_match s) (fast_inv T (level s, strategy s))"
proof -
  let ?d = "distance s (match_start s)" and ?n = "match_length s"
  define v where "v = snd (tr_tally_dist s ?d (?n - MIN_MATCH))"
  define w where "w = v\<lparr>lookahead := lookahead v - match_length v\<rparr>"
  define x where "x = w\<lparr>match_length := 0, strstart := strstart w + match_length w\<rparr>"
  have wfr: "win_frame v = win_frame s" and mf: "match_frame v = match_frame s" by (simp_all add: v_def tally_frames)
  note wf = win_frame_fields [OF wfr]
  have n: "3 \<le> ?n" using rep(1) by (simp add: repeats_def)
  have ml: "match_length v = ?n" using mf by (simp add: match_frame_def)
  have szs: "sizes_ok s" "data_end s \<le> window_size s" using s(1) by (simp_all add: lz_mid_def stream_def)
  have sz: "sizes_ok w" using win_frame_inv(1) [OF wfr] szs by (simp add: w_def)
  have ro: "rolled w (strstart w + 1)" using s(3) wfr by (simp add: w_def rolled_def win_frame_def)
  have "chains (strstart s + 1) (data_end s) v" using s(4) wfr by (elim chains_cong) (simp_all add: win_frame_def)
  then have ch: "chains (strstart w + 1) (data_end s) w" using wf(1) by (simp add: w_def)
  have e: "data_end s = strstart w + match_length w + lookahead w" using wf ml rep(2) by (simp add: w_def data_end_def)
  have e2: "data_end s \<le> 2 * w_size w" using szs sizes_simps(8) [OF szs(1)] wf(5) by (simp add: w_def)
  have d0: "d_insert w = 0" "3 \<le> match_length w" using s(5) wf(6) n ml by (simp_all add: w_def)
  note en = fast_enter_ok [OF sz ro ch d0(1) e e2 d0(2), folded x_def]
  have hx: "hashed x (fast_enter w)" using en by blast
  note f = hashed_fields [OF hx]
  have x: "x = (moved ?n v)\<lparr>match_length := 0\<rparr>" using ml by (simp add: x_def w_def moved_def)
  have stu: "strstart s + ?n = strstart (fast_enter w)" using f(1) wf(1) ml by (simp add: x)
  have "match_frame x = match_frame (s\<lparr>match_length := 0\<rparr>)"
    using mf by (simp add: x moved_def match_frame_def)
  then have idle: "idle (fast_enter w)" using i match_frame_idle [OF f(15)] by (simp add: idle_def match_frame_def match_consts)
  have mode: "(level (fast_enter w), strategy (fast_enter w)) = (level s, strategy s)"
    using f(17) win_frame_mode [OF wfr] moved_mode [of ?n v] by (simp add: x)
  have "goes T q s (if fst (tr_tally_dist s ?d (?n - MIN_MATCH)) then FLUSH_BLOCK 0 (fast_enter w) Continue
      else Continue (fast_enter w)) (fast_inv T (level s, strategy s))"
  proof (rule entered_goes [OF s(1,2) rep(1) stu _ _ rep(2) hx])
    show "chain_ok (fast_enter w)" "sizes_ok (fast_enter w)" using en by blast+
    show "win_frame x = win_frame (moved ?n (snd (tr_tally_dist s ?d (?n - MIN_MATCH))))" by (simp add: x v_def)
    show "fast_inv T (level s, strategy s) q' t"
      if "lz_at T h q' 0 t" "win_frame t = win_frame (fast_enter w)" "match_frame t = match_frame (fast_enter w)" for t q'
    proof (rule fast_invI [OF that(1)])
      show "idle t" using match_frame_idle [OF that(3)] idle by simp
      show "(level t, strategy t) = (level s, strategy s)" using win_frame_mode [OF that(2)] mode by simp
      show "rolled_ok t" using win_frame_inv(4) [OF that(2)] en by simp
    qed
  qed (simp_all add: x v_def tally_frames)
  then show ?thesis unfolding fast_match_eq Let_def w_def v_def .
qed

text \<open>A literal is collected after the search has entered its string.\<close>

lemma entered_literal_goes:
  assumes s: "lz_mid T h q (h + strstart s) s" "last_lit s < lit_bufsize s - 1" "lookahead s \<noteq> 0" "idle s"
    and c: "if 3 \<le> lookahead s then rolled s (strstart s + 1) \<and> d_insert s = 0 \<and> chains (strstart s + 1) (data_end s) s
      else chain_ok s"
  shows "goes T q s (emit_literal s) (fast_inv T (level s, strategy s))"
proof (rule emit_literal_goes [OF s(1-3)])
  show "chain_ok (moved 1 s)"
    using c chain_ok_entered [of s] moved_chain_ok [of s 1] s(3) by (auto split: if_splits)
  show "fast_inv T (level s, strategy s) q' t"
    if "lz_at T h q' 0 t" "win_frame t = win_frame (moved 1 s)" "match_frame t = match_frame s" for t q'
  proof (rule fast_invI [OF that(1)])
    show "idle t" using match_frame_idle [OF that(3)] s(4) by simp
    show "(level t, strategy t) = (level s, strategy s)" using win_frame_mode [OF that(2)] moved_mode [of 1 s] by simp
    have "rolled_ok (moved 1 s)" using c s(3)
      by (auto simp: rolled_ok_def match_consts moved_def rolled_def split: if_splits)
    then show "rolled_ok t" using win_frame_inv(4) [OF that(2)] by simp
  qed
qed

lemma fast_body_goes:
  assumes s: "lz_at T h q 0 s" "idle s" "rolled_ok s" "lookahead s \<noteq> 0"
  shows "goes T q s (fast_body s) (fast_inv T (level s, strategy s))"
proof -
  obtain hh u where r: "insert_here s = (hh, u)" by fastforce
  note d = lz_atD [OF s(1)]
  have e: "data_end s \<le> window_size s" using d(6) by (simp add: stream_def)
  note i = insert_here_chain [OF d(5,2) s(3) e r]
  note f = hashed_fields [OF i(1)]
  define t where "t = (if hh \<noteq> NIL \<and> strstart u - hh \<le> MAX_DIST u
    then (snd (longest_match hh u))\<lparr>match_length := fst (longest_match hh u)\<rparr> else u)"
  have body: "fast_body s = (if match_length t \<ge> MIN_MATCH then fast_match t else emit_literal t)"
    by (simp add: fast_body_def r Let_def case_prod_unfold t_def)
  have mu: "lz_mid T h q (h + strstart u) u" using hashed_mid [OF i(1,2) d(1)] f(1) by simp
  have iu: "idle u" using match_frame_idle [OF f(15)] s(2) by simp
  have lu: "last_lit u < lit_bufsize u - 1" using d(3) f(13,14) by simp
  have su: "stream T h u" using mu by (simp add: lz_mid_def)
  obtain m k where t: "t = u\<lparr>match_start := m, match_length := k\<rparr>"
    and k: "3 \<le> k \<Longrightarrow> 3 \<le> lookahead s \<and> repeats T (h + strstart u) (distance u m) k \<and> k \<le> lookahead u"
  proof (cases "hh \<noteq> NIL \<and> strstart u - hh \<le> MAX_DIST u")
    case True
    then have l: "3 \<le> lookahead s" using i(3) by (cases "lookahead s < 3") (auto simp: match_consts)
    then obtain I where I: "chain_set (strstart s + 1) (data_end s) u I" "hh \<in> I" "hash_at u hh = hash_at u (strstart s)"
      "hh < strstart s" using i(4) True by (auto simp: match_consts)
    note I = I [folded f(1)]
    have "3 \<le> lookahead u" using l f(2) by simp
    note lm = longest_match_found [OF i(2) su I(1) this I(2-4) conjunct2 [OF True] surjective_pairing]
    obtain m where m: "snd (longest_match hh u) = u\<lparr>match_start := m\<rparr>" using lm(1) by blast
    have "distance (u\<lparr>match_start := m\<rparr>) = distance u" by (simp add: distance_def fun_eq_iff)
    moreover have "prev_length u < 3" using iu by (simp add: idle_def match_consts)
    ultimately show ?thesis using that [of "fst (longest_match hh u)" m] True lm l by (auto simp: t_def m)
  next
    case False
    then have "t = u" unfolding t_def by (rule if_not_P)
    then show ?thesis using that [of "match_length u" "match_start u"] iu by (simp add: idle_def match_consts)
  qed
  have w: "win_frame t = win_frame u" "written t = written u" unfolding t by simp_all
  have at: "lz_mid T h q (h + strstart u) t" 
  proof -
    have "block_symbols t = block_symbols u" unfolding t by (simp add: block_symbols_def block_symbol_def)
    then show ?thesis using mu by (intro lz_mid_frame [OF mu w(1)]) (simp_all add: t lz_mid_def)
  qed
  note wf = win_frame_fields [OF w(1)]
  have lt: "last_lit t < lit_bufsize t - 1" using lu by (simp add: t)
  have ent: "rolled t (strstart t + 1) \<and> d_insert t = 0 \<and> chains (strstart t + 1) (data_end t) t" if "3 \<le> lookahead s"
  proof -
    have "chains (strstart s + 1) (data_end s) u" using i(4) [OF that] by (auto simp: chains_def)
    then have "chains (strstart s + 1) (data_end s) t" by (rule chains_cong) (simp_all add: t)
    then show ?thesis using i(4) [OF that] f wf by (simp add: t rolled_def)
  qed
  have mode: "(level t, strategy t) = (level s, strategy s)" using f(17) by (simp add: t)
  have "goes T q t (fast_body s) (fast_inv T (level t, strategy t))"
  proof (cases "3 \<le> k")
    case True
    have "goes T q t (fast_match t) (fast_inv T (level t, strategy t))"
    proof (rule fast_match_goes)
      show "lz_mid T h q (h + strstart t) t" using at by (simp add: t)
      show "rolled t (strstart t + 1)" "d_insert t = 0" "chains (strstart t + 1) (data_end t) t" using ent k True by blast+
      show "repeats T (h + strstart t) (distance t (match_start t)) (match_length t)" "match_length t \<le> lookahead t"
        using k [OF True] by (simp_all add: t distance_def)
      show "\<not> match_available t" "prev_length t < MIN_MATCH" using iu by (simp_all add: t idle_def)
    qed (rule lt)
    then show ?thesis using body True by (simp add: t match_consts)
  next
    case False
    have "goes T q t (emit_literal t) (fast_inv T (level t, strategy t))"
    proof (rule entered_literal_goes)
      show "lz_mid T h q (h + strstart t) t" using at by (simp add: t)
      show "lookahead t \<noteq> 0" using s(4) f(2) by (simp add: t)
      show "idle t" using False iu by (simp add: t idle_def match_consts)
      have "chain_ok t" if "lookahead s < 3"
      proof -
        have "u = s" using i(3) that by simp
        then have "chain_ok u" using d(2) by simp
        then show ?thesis using win_frame_inv(3) [OF w(1)] by simp
      qed
      then show "if 3 \<le> lookahead t then rolled t (strstart t + 1) \<and> d_insert t = 0 \<and> chains (strstart t + 1) (data_end t) t
          else chain_ok t" using ent f(2) by (auto simp: t)
    qed (rule lt)
    then show ?thesis using body False by (simp add: t match_consts)
  qed
  moreover have "written t = written s" using w(2) f(16) by simp
  ultimately show ?thesis using goes_from mode by metis
qed

text \<open>The test for input at the top of the loop.\<close>

lemma filled_at:
  assumes s: "lz_at T h q k s" "k \<le> 1" and u: "u = (if lookahead s < MIN_LOOKAHEAD then fill_window s else s)"
  obtains n where "lz_at T (h + n) q k u" "fills T h n s u" "written u = written s"
  using fill_or_keep [OF s, of "lookahead s < MIN_LOOKAHEAD"] u by auto

lemma need_lookahead_goes:
  assumes at: "lz_at T h q k s" and u: "u = (if lookahead s < MIN_LOOKAHEAD then fill_window s else s)" and p: "P q u" "written u = written s"
    and b: "lookahead u \<noteq> 0 \<Longrightarrow> goes T q u (body u) P"
  shows "goes T q s (need_lookahead flush s body) P"
proof -
  have "goes T q s (Return need_more u) P" using p by (rule goes_Return)
  moreover have "goes T q s (Break u) P" if "lookahead u = 0" "lookahead s < MIN_LOOKAHEAD"
    using p filled_end [OF at] that u by (intro goes_Break) simp_all
  moreover have "goes T q s (body u) P" if "lookahead u \<noteq> 0" using goes_from [OF b [OF that]] p(2) by simp
  moreover have "lookahead u \<noteq> 0" if "\<not> lookahead s < MIN_LOOKAHEAD"
    using that u by (simp add: match_consts)
  ultimately show ?thesis using u by (auto simp: need_lookahead_def Let_def)
qed

lemma fast_step_goes:
  assumes s: "fast_inv T m q s"
  shows "goes T q s (fast_step flush s) (fast_inv T m)"
proof -
  define u where "u = (if lookahead s < MIN_LOOKAHEAD then fill_window s else s)"
  obtain h where h: "lz_at T h q 0 s" "idle s" "(level s, strategy s) = m" "rolled_ok s"
    using s by (auto simp: fast_inv_def plain_inv_def lz_inv_def)
  obtain n where n: "lz_at T (h + n) q 0 u" "fills T h n s u" "written u = written s"
    using filled_at [OF h(1) _ u_def] by auto
  have k: "kept u = kept s" "rolled_ok u" using n(2) h(4) by (simp_all add: fills_def)
  have i: "idle u" "(level u, strategy u) = m" using k(1) h(2,3) by (simp_all add: kept_def idle_def)
  show ?thesis
    unfolding fast_step_def
  proof (rule need_lookahead_goes [OF h(1) u_def _ n(3)])
    show "fast_inv T m q u" by (rule fast_invI [OF n(1) i k(2)])
    show "goes T q u (fast_body u) (fast_inv T m)" if "lookahead u \<noteq> 0"
      using fast_body_goes [OF n(1) i(1) k(2) that] i(2) by simp
  qed
qed

interpretation fast: match_loop fast_step fast_turns T "fast_inv T m" for T m
proof
  show "moves s (fast_step flush s)" for flush s
    unfolding fast_step_def by (rule need_lookahead_moves [OF fast_body_moves])
qed (rule fast_turns.simps, rule fast_step_goes)

text \<open>The end: what is left goes out, with the strings that are not in the table yet.\<close>

lemma finish_loop_last:
  assumes g: "goes T q s r P" and f: "finish_loop flush last_strings r = (b, t)"
    and P: "\<And>q u. P q u \<Longrightarrow> lz_inv T q 0 u"
    and Q: "\<And>q u. P q u \<Longrightarrow> Q q u"
      "\<And>q' q'' h u t. P q' u \<Longrightarrow> lookahead u = 0 \<Longrightarrow> lz_at T h q'' 0 t \<Longrightarrow> lookahead t = 0 \<Longrightarrow>
        match_frame t = match_frame u \<Longrightarrow> (level t, strategy t) = (level u, strategy u) \<Longrightarrow> Q q'' t"
  shows "\<exists>q'. sent T b q s q' t \<and> Q q' t \<and> ended T flush b q'"
proof -
  obtain q' u where u: "r = Continue u \<or> r = Break u \<and> at_end u \<or> r = Return need_more u"
      "emits T q s q' u" "P q' u" using g by (auto simp: goes_def)
  show ?thesis
  proof (cases "r = Break u \<and> at_end u")
    case True
    then have e: "end_blocks flush (last_strings u) u = (b, t)" using f by (simp add: finish_loop_def)
    obtain h where h: "lz_at T h q' 0 u" using P [OF u(3)] by (auto simp: lz_inv_def)
    note d = lz_atD [OF h]
    have "\<exists>q''. sent T b q' u q'' t \<and> lz_at T h q'' 0 t \<and> q'' = length T \<and> at_end t \<and> match_frame t = match_frame u \<and>
        (level t, strategy t) = (level u, strategy u)"
      using d True by (intro end_blocks_goes [OF _ _ _ _ _ e]) (simp_all add: last_strings_def match_consts)
    then obtain q'' where q: "sent T b q' u q'' t" "lz_at T h q'' 0 t" "lookahead t = 0" "match_frame t = match_frame u"
      "(level t, strategy t) = (level u, strategy u)" "q'' = length T" by (auto simp: at_end_def)
    have "Q q'' t" by (rule Q(2) [OF u(3) _ q(2-5)]) (use True in \<open>simp add: at_end_def\<close>)
    then show ?thesis using sent_trans [OF q(1) u(2)] ended_blocks [OF e q(6)] by blast
  next
    case False
    then have "t = u" "b = need_more" using u(1) f by (auto simp: finish_loop_def)
    then show ?thesis using u Q(1) ended_more by (auto simp: sent_def)
  qed
qed

lemma deflate_fast_goes:
  assumes s: "fast_inv T m q s" and r: "deflate_fast flush s = (b, t)"
  shows "\<exists>q'. sent T b q s q' t \<and> fast_inv T m q' t \<and> ended T flush b q'"
proof (rule finish_loop_last [OF fast.turns_goes [OF s] r [unfolded deflate_fast_def]])
  show "fast_inv T m q'' t"
    if "fast_inv T m q' u" "lookahead u = 0" "lz_at T h q'' 0 t" "lookahead t = 0" "match_frame t = match_frame u"
      "(level t, strategy t) = (level u, strategy u)" for q' q'' h u t
    using that match_frame_idle [OF that(5)]
    by (auto simp: fast_inv_def plain_inv_def lz_inv_def rolled_ok_def match_consts)
qed (simp_all add: fast_inv_def plain_inv_def)

section \<open>deflate_slow\<close>

text \<open>After the string at \<open>strstart\<close> has been entered, as far as there is one before the end \<open>e\<close> of the data.\<close>

definition ready :: "nat \<Rightarrow> deflate_state \<Rightarrow> bool" where
  "ready e s \<longleftrightarrow>
     chains (min (strstart s + 1 - d_insert s) (e - 2)) e s \<and> d_insert s \<le> strstart s \<and> d_insert s < MIN_MATCH \<and>
     (strstart s + MIN_MATCH \<le> e \<longrightarrow> d_insert s = 0 \<and> rolled s (strstart s + 1))"

lemma ready_cong:
  assumes "ready e s" "win_frame t = win_frame s"
  shows "ready e t"
proof -
  note f = assms(2) [unfolded win_frame_def prod.inject]
  have c: "chains b e s \<Longrightarrow> chains b e t" for b using f by (elim chains_cong) simp_all
  have "rolled t p = rolled s p" for p using f by (simp add: rolled_def)
  then show ?thesis using assms(1) c f by (simp add: ready_def)
qed

lemma ready_moved:
  assumes "ready (data_end s) s" "lookahead s \<noteq> 0"
  shows "chain_ok (moved 1 s)" "rolled_ok (moved 1 s)"
proof -
  define m where "m = moved 1 s"
  have e: "data_end m = data_end s" "d_insert m = d_insert s" "strstart m = strstart s + 1" "lookahead m < lookahead s"
    using assms(2) by (simp_all add: data_end_def m_def) (simp add: moved_def)
  have "chains b (data_end s) s \<Longrightarrow> chains b (data_end s) m" for b
    by (elim chains_cong) (simp_all add: m_def moved_def)
  then have "chain_ok m" using assms(1) by (simp add: chain_ok_def ready_def e)
  moreover have "rolled m p = rolled s p" for p by (simp add: m_def rolled_def moved_def)
  then have "rolled_ok m" using assms(1) e by (simp add: rolled_ok_def ready_def data_end_def)
  ultimately show "chain_ok (moved 1 s)" "rolled_ok (moved 1 s)" by (simp_all only: m_def)
qed

lemma insert_here_ready:
  assumes s: "sizes_ok s" "chain_ok s" "rolled_ok s" "data_end s \<le> window_size s" and r: "insert_here s = (hh, u)"
  shows "ready (data_end s) u"
proof (cases "3 \<le> lookahead s")
  case True
  note i = insert_here_chain [OF s r]
  have "chains (strstart s + 1) (data_end s) u" using i(4) [OF True] by (auto simp: chains_def)
  moreover have "min (strstart s + 1) (data_end s - 2) = strstart s + 1" using True by (simp add: data_end_def)
  ultimately show ?thesis using i(4) [OF True] hashed_fields [OF i(1)] by (simp add: ready_def match_consts)
next
  case False
  then have u: "u = s" using insert_here_chain(3) [OF s r] by simp
  let ?d = "d_insert s"
  have "chains (min (strstart s - ?d) (data_end s - 2)) (data_end s) s" using s(2) by (simp add: chain_ok_def)
  then have "chains (min (strstart s + 1 - ?d) (data_end s - 2)) (data_end s) s" by (rule chains_mono) simp_all
  then show ?thesis using s(2) False by (simp add: u ready_def chain_ok_def data_end_def match_consts)
qed

lemma insert_upto_ready:
  assumes "sizes_ok s" "ready e s" "e \<le> 2 * w_size s"
  shows "sizes_ok (insert_upto (e - MIN_MATCH) n s) \<and> ready e (insert_upto (e - MIN_MATCH) n s) \<and>
    hashed (s\<lparr>strstart := strstart s + n\<rparr>) (insert_upto (e - MIN_MATCH) n s)"
  using assms
proof (induction n arbitrary: s)
  case 0
  then show ?case using hashed_refl [of s] by simp
next
  case (Suc n)
  let ?s = "s\<lparr>strstart := strstart s + 1\<rparr>" and ?p = "strstart s + 1"
  define u where "u = (if ?p \<le> e - MIN_MATCH then snd (INSERT_STRING ?p ?s) else ?s)"
  have h: "hashed ?s u" using INSERT_STRING_hashed hashed_refl by (simp add: u_def)
  note f = hashed_fields [OF h]
  have st: "strstart u = ?p" "w_size u = w_size s" "d_insert u = d_insert s" using f(1,5,9) by simp_all
  have "sizes_ok u \<and> ready e u"
  proof (cases "?p \<le> e - MIN_MATCH")
    case True
    then have l: "?p + 2 < e" "strstart s + MIN_MATCH \<le> e" by (simp_all add: match_consts)
    then have d: "d_insert s = 0" "rolled ?s ?p" using Suc.prems(2) by (simp_all add: ready_def rolled_def)
    have "min (strstart s + 1) (e - 2) = ?p" using l by simp
    then have "chains ?p e s" using Suc.prems(2) d by (simp add: ready_def)
    then have c: "chains ?p e ?s" by (rule chains_cong) simp_all
    have sz: "sizes_ok ?s" using Suc.prems(1) by simp
    have u: "u = snd (INSERT_STRING ?p ?s)" using True by (simp add: u_def)
    have "sizes_ok u" "rolled u (?p + 1)" "chains (?p + 1) e u"
      using INSERT_STRING_rolled [OF sz d(2)] INSERT_STRING_chains [OF sz d(2) c order_refl l(1)] Suc.prems(3)
      by (simp_all add: u)
    moreover have "min (?p + 1) (e - 2) = ?p + 1" using l by simp
    ultimately show ?thesis using st d by (simp add: ready_def match_consts)
  next
    case False
    then have "\<not> ?p + MIN_MATCH \<le> e" by (simp add: match_consts)
    moreover have "chains (min (?p + 1 - d_insert s) (e - 2)) e s"
    proof (rule chains_mono)
      show "chains (min (strstart s + 1 - d_insert s) (e - 2)) e s" using Suc.prems(2) by (simp add: ready_def)
    qed simp_all
    then have "chains (min (?p + 1 - d_insert s) (e - 2)) e ?s" by (rule chains_cong) simp_all
    moreover have "u = ?s" unfolding u_def if_not_P [OF False] ..
    ultimately show ?thesis using Suc.prems(1,2) by (simp add: ready_def)
  qed
  moreover have run: "insert_upto (e - MIN_MATCH) (Suc n) s = insert_upto (e - MIN_MATCH) n u"
    by (simp add: u_def Let_def)
  ultimately have IH: "sizes_ok (insert_upto (e - MIN_MATCH) n u) \<and> ready e (insert_upto (e - MIN_MATCH) n u) \<and>
      hashed (u\<lparr>strstart := strstart u + n\<rparr>) (insert_upto (e - MIN_MATCH) n u)"
    using Suc.IH [of u] Suc.prems(3) st by simp
  obtain a b c where "u = ?s\<lparr>ins_h := a, prev := b, head := c\<rparr>" using h by (auto simp: hashed_def)
  then have "u\<lparr>strstart := strstart u + n\<rparr> = s\<lparr>strstart := strstart s + Suc n, ins_h := a, prev := b, head := c\<rparr>"
    using st by simp
  then have "hashed (s\<lparr>strstart := strstart s + Suc n\<rparr>) (insert_upto (e - MIN_MATCH) n u)"
    using IH by (auto simp: hashed_def)
  then show ?case using IH unfolding run by simp
qed

text \<open>
  A match of three bytes or more waits: it is the one of the byte before \<open>strstart\<close>, which is not collected yet.
\<close>

definition pend :: "u8 list \<Rightarrow> nat \<Rightarrow> deflate_state \<Rightarrow> bool" where
  "pend T h s \<longleftrightarrow>
     (MIN_MATCH \<le> match_length s \<longrightarrow>
       match_available s \<and> match_length s \<le> lookahead s + 1 \<and>
       repeats T (h + strstart s - 1) (distance s (match_start s + 1)) (match_length s))"

definition waiting :: "deflate_state \<Rightarrow> nat" where
  "waiting s = (if match_available s then 1 else 0)"

definition slow_inv :: "u8 list \<Rightarrow> int \<times> int \<Rightarrow> nat \<Rightarrow> deflate_state \<Rightarrow> bool" where
  "slow_inv T m q s \<longleftrightarrow>
     (\<exists>h. lz_at T h q (waiting s) s \<and> pend T h s) \<and> rolled_ok s \<and> (level s, strategy s) = m"

lemma slow_invI:
  "lz_at T h q (waiting s) s \<Longrightarrow> pend T h s \<Longrightarrow> rolled_ok s \<Longrightarrow> (level s, strategy s) = m \<Longrightarrow> slow_inv T m q s"
  by (auto simp: slow_inv_def)

lemma pend_fills: "fills T h n s t \<Longrightarrow> k \<le> 1 \<Longrightarrow> k = waiting s \<Longrightarrow> k \<le> strstart t \<Longrightarrow> pend T h s \<Longrightarrow> pend T (h + n) t"
proof -
  assume f: "fills T h n s t" and p: "pend T h s"
  note f = f [unfolded fills_def]
  have k: "match_length t = match_length s" "match_available t = match_available s" using f by (simp_all add: kept_def)
  have "word_of_nat (strstart s) = (word_of_nat (strstart t) :: u32) + word_of_nat n" using f by simp
  moreover have "match_start s = match_start t + word_of_nat n" using f by simp
  ultimately have "word_of_nat (strstart t) - (match_start t + 1) = word_of_nat (strstart s) - (match_start s + 1)" by simp
  then have "distance t (match_start t + 1) = distance s (match_start s + 1)" unfolding distance_def by (rule arg_cong)
  moreover have "h + n + strstart t - 1 = h + strstart s - 1" "lookahead s \<le> lookahead t" using f by simp_all
  ultimately show "pend T (h + n) t" using p k by (auto simp: pend_def)
qed

lemma pend_frame:
  assumes "win_frame t = win_frame s" "match_frame t = match_frame s"
  shows "pend T h t = pend T h s" "waiting t = waiting s"
  using win_frame_fields [OF assms(1)] assms(2) by (simp_all add: pend_def waiting_def match_frame_def distance_def)

text \<open>What the search leaves.\<close>

lemma slow_search_found:
  assumes s: "sizes_ok s" "stream T h s"
    and c: "hh \<noteq> NIL \<Longrightarrow> 3 \<le> lookahead s \<and>
      (\<exists>I e. chain_set (strstart s + 1) e s I \<and> hh \<in> I \<and> hash_at s hh = hash_at s (strstart s) \<and> hh < strstart s)"
  obtains m k where
    "slow_search hh s =
       s\<lparr>prev_length := match_length s, prev_match := match_start s, match_length := k, match_start := m\<rparr>"
    "3 \<le> k \<Longrightarrow> match_length s < k \<Longrightarrow> k \<le> lookahead s \<and> repeats T (h + strstart s) (distance s m) k"
proof -
  define r where "r = s\<lparr>prev_length := match_length s, prev_match := match_start s, match_length := MIN_MATCH - 1\<rparr>"
  define b where "b \<longleftrightarrow> hh \<noteq> NIL \<and> prev_length r < max_lazy_match r \<and> strstart r - hh \<le> MAX_DIST r"
  have sl: "slow_search hh s = (if b then
      (let (len, s) = longest_match hh r; s = s\<lparr>match_length := len\<rparr>
       in if match_length s \<le> 5 \<and> (strategy s = Z_FILTERED \<or> (match_length s = MIN_MATCH \<and> distance s (match_start s) > TOO_FAR))
          then s\<lparr>match_length := MIN_MATCH - 1\<rparr> else s) else r)"
    by (simp add: slow_search_def r_def b_def Let_def)
  show ?thesis
  proof (cases b)
    case False
    then show ?thesis using that [of "match_start s" "MIN_MATCH - 1"] sl by (simp add: r_def match_consts)
  next
    case True
    then have l: "3 \<le> lookahead r" using c by (simp add: b_def r_def)
    obtain I e where I: "chain_set (strstart s + 1) e s I" "hh \<in> I" "hash_at s hh = hash_at s (strstart s)" "hh < strstart s"
      using c True by (auto simp: b_def)
    have h: "hash_at r = hash_at s" by (simp add: r_def hash_at_def fun_eq_iff)
    have "win_frame r = win_frame s" by (simp add: r_def)
    then have sz: "sizes_ok r" "stream T h r" using s win_frame_inv by blast+
    have I': "chain_set (strstart r + 1) e r I" "hash_at r hh = hash_at r (strstart r)" "hh < strstart r"
      using I unfolding chain_set_def h by (simp_all add: r_def)
    have far: "strstart r - hh \<le> MAX_DIST r" using True by (simp add: b_def)
    note lm = longest_match_found [OF sz I'(1) l I(2) I'(2,3) far surjective_pairing]
    obtain m where m: "snd (longest_match hh r) = r\<lparr>match_start := m\<rparr>" using lm(1) by blast
    let ?len = "fst (longest_match hh r)"
    have d: "distance (r\<lparr>match_start := m\<rparr>) = distance s" by (simp add: r_def distance_def fun_eq_iff)
    let ?t = "r\<lparr>match_start := m, match_length := ?len\<rparr>"
    have "slow_search hh s = ?t \<or> slow_search hh s = ?t\<lparr>match_length := MIN_MATCH - 1\<rparr>"
      using True by (simp add: sl Let_def case_prod_unfold m)
    then obtain k where k: "slow_search hh s = (r\<lparr>match_start := m\<rparr>)\<lparr>match_length := k\<rparr>" "k = ?len \<or> k = MIN_MATCH - 1"
      by auto
    have "k \<le> lookahead s \<and> repeats T (h + strstart s) (distance s m) k" if "3 \<le> k" "match_length s < k"
    proof -
      have len: "k = ?len" using k(2) that(1) by (auto simp: match_consts)
      have f: "prev_length r = match_length s" "lookahead r = lookahead s" "strstart r = strstart s" by (simp_all add: r_def)
      have "distance r = distance s" by (simp add: r_def distance_def fun_eq_iff)
      then show ?thesis using lm(2,3) that(2) d by (simp add: len m f)
    qed
    then show ?thesis using that [of m k] k(1) by (simp add: r_def)
  qed
qed

lemma slow_match_goes:
  assumes s: "lz_mid T h q (h + (strstart s - 1)) s" "last_lit s < lit_bufsize s - 1" "ready (data_end s) s" "1 \<le> strstart s"
    and rep: "repeats T (h + (strstart s - 1)) (distance s (prev_match s + 1)) (prev_length s)" "prev_length s \<le> lookahead s + 1"
  shows "goes T q s (slow_match s) (slow_inv T (level s, strategy s))"
proof -
  let ?d = "distance s (prev_match s + 1)" and ?n = "prev_length s"
  define v where "v = snd (tr_tally_dist s ?d (?n - MIN_MATCH))"
  define w where "w = v\<lparr>lookahead := lookahead v - (prev_length v - 1)\<rparr>"
  define t where "t = insert_upto (data_end s - MIN_MATCH) (prev_length w - 2) w"
  define y where "y = t\<lparr>prev_length := 0, match_available := False, match_length := MIN_MATCH - 1, strstart := strstart t + 1\<rparr>"
  define x where "x = w\<lparr>prev_length := 0, match_available := False, match_length := MIN_MATCH - 1,
    strstart := strstart w + (?n - 1)\<rparr>"
  have wfr: "win_frame v = win_frame s" and mf: "match_frame v = match_frame s" by (simp_all add: v_def tally_frames)
  note wf = win_frame_fields [OF wfr]
  have n: "3 \<le> ?n" using rep(1) by (simp add: repeats_def)
  have pl: "prev_length v = ?n" "prev_length w = ?n" using mf by (simp_all add: w_def match_frame_def)
  have szs: "sizes_ok s" "data_end s \<le> window_size s" using s(1) by (simp_all add: lz_mid_def stream_def)
  have sz: "sizes_ok w" using win_frame_inv(1) [OF wfr] szs by (simp add: w_def)
  have e2: "data_end s \<le> 2 * w_size w" using szs sizes_simps(8) [OF szs(1)] wf(5) by (simp add: w_def)
  have "ready (data_end s) v" by (rule ready_cong [OF s(3) wfr])
  then have "ready (data_end s) w"
  proof -
    have "chains b (data_end s) v \<Longrightarrow> chains b (data_end s) w" for b by (elim chains_cong) (simp_all add: w_def)
    moreover have "rolled w p = rolled v p" for p by (simp add: w_def rolled_def)
    ultimately show ?thesis using \<open>ready (data_end s) v\<close> by (simp add: ready_def w_def)
  qed
  note t = insert_upto_ready [OF sz this e2, of "prev_length w - 2", folded t_def]
  have ht: "hashed (w\<lparr>strstart := strstart w + (?n - 2)\<rparr>) t" using t pl by simp
  note ft = hashed_fields [OF ht]
  have st: "strstart t + 1 = strstart s + (?n - 1)" using ft(1) wf(1) n by (simp add: w_def)
  have la: "lookahead t = lookahead s - (?n - 1)" using ft(2) wf(2) pl by (simp add: w_def)
  have hx: "hashed x y"
  proof -
    obtain a b c where "t = w\<lparr>strstart := strstart w + (?n - 2), ins_h := a, prev := b, head := c\<rparr>"
      using ht by (auto simp: hashed_def)
    then have "y = x\<lparr>ins_h := a, prev := b, head := c\<rparr>" using n by (simp add: y_def x_def)
    then show ?thesis by (auto simp: hashed_def)
  qed
  note f = hashed_fields [OF hx]
  have yf: "strstart y = strstart s + (?n - 1)" "lookahead y = lookahead s - (?n - 1)" "d_insert y = d_insert t"
    "\<not> match_available y" "match_length y = 2" using st la by (simp_all add: y_def match_consts)
  have de: "data_end y = data_end s" using yf(1,2) rep(2) by (simp add: data_end_def)
  have szy: "sizes_ok y" using t by (simp add: y_def sizes_ok_def)
  have rd: "ready (data_end s) t" using t by blast
  have cy: "chain_ok y"
  proof -
    have "chains b (data_end s) t \<Longrightarrow> chains b (data_end s) y" for b by (elim chains_cong) (simp_all add: y_def)
    moreover have "strstart y = strstart t + 1" by (simp add: y_def)
    ultimately show ?thesis using rd by (simp add: chain_ok_def ready_def de yf(3))
  qed
  have ry: "rolled_ok y"
  proof -
    have "rolled y p = rolled t p" for p by (simp add: rolled_def y_def)
    moreover have "strstart y = strstart t + 1" by (simp add: y_def)
    moreover have "strstart t + MIN_MATCH \<le> data_end s" if "MIN_MATCH \<le> lookahead y"
      using that de by (simp add: y_def data_end_def)
    ultimately show ?thesis using rd by (simp add: rolled_ok_def ready_def yf(3))
  qed
  have mode: "(level y, strategy y) = (level s, strategy s)"
    using f(17) win_frame_mode [OF wfr] by (simp add: x_def w_def)
  have xm: "win_frame x = win_frame (moved (?n - 1) v)" "block_start x = block_start v" "l_buf x = l_buf v"
    "d_buf x = d_buf v" "last_lit x = last_lit v" "written x = written v"
    using pl by (simp_all add: x_def w_def win_frame_def moved_def written_def)
  have "goes T q s (if fst (tr_tally_dist s ?d (?n - MIN_MATCH)) then FLUSH_BLOCK 0 y Continue else Continue y)
      (slow_inv T (level s, strategy s))"
  proof (rule entered_goes [OF s(1,2) rep(1) _ cy szy _ hx])
    show "strstart s - 1 + ?n = strstart y" using yf(1) s(4) n by simp
    show "?n - 1 \<le> lookahead s" using rep(2) by simp
    show "slow_inv T (level s, strategy s) q' u"
      if "lz_at T h q' 0 u" "win_frame u = win_frame y" "match_frame u = match_frame y" for u q'
    proof (rule slow_invI)
      note p = pend_frame [OF that(2,3)]
      show "lz_at T h q' (waiting u) u" using that(1) p(2) yf(4) by (simp add: waiting_def)
      show "pend T h u" using p(1) yf(5) by (simp add: pend_def match_consts)
      show "rolled_ok u" using win_frame_inv(4) [OF that(2)] ry by simp
      show "(level u, strategy u) = (level s, strategy s)" using win_frame_mode [OF that(2)] mode by simp
    qed
  qed (simp_all add: xm, simp_all add: v_def tally_frames)
  moreover have "slow_match s = (if fst (tr_tally_dist s ?d (?n - MIN_MATCH)) then FLUSH_BLOCK 0 y Continue else Continue y)"
    unfolding slow_match_def Let_def case_prod_unfold y_def t_def w_def v_def data_end_def ..
  ultimately show ?thesis by simp
qed

text \<open>Passing one byte that is now waiting.\<close>

lemma waiting_moved:
  assumes s: "lz_mid T h q (h + strstart s) s" "last_lit s < lit_bufsize s - 1" "ready (data_end s) s" "lookahead s \<noteq> 0"
    and k: "3 \<le> match_length s \<Longrightarrow>
      match_length s \<le> lookahead s \<and> repeats T (h + strstart s) (distance s (match_start s)) (match_length s)"
    and t: "t = (moved 1 s)\<lparr>match_available := True\<rparr>"
  shows "slow_inv T (level s, strategy s) q t"
proof (rule slow_invI)
  have w: "win_frame t = win_frame (moved 1 s)" by (simp add: t)
  have f: "block_start t = block_start (moved 1 s)" "l_buf t = l_buf (moved 1 s)" "d_buf t = d_buf (moved 1 s)"
    "last_lit t = last_lit (moved 1 s)" by (simp_all add: t)
  have tf: "strstart t = strstart s + 1" "match_available t" "match_length t = match_length s" "match_start t = match_start s"
    "lookahead t = lookahead s - 1"
    by (simp_all add: t) (simp_all add: moved_def)
  have wt: "waiting t = 1" using tf(2) by (simp add: waiting_def)
  note r = ready_moved [OF s(3,4)]
  have "lz_mid T h q (h + strstart s) (moved 1 s)" using s(4) by (intro moved_mid [OF s(1)]) simp
  then have "lz_at T h q 1 (moved 1 s)" using r(1) s(2) by (simp add: lz_at_def)
  then show "lz_at T h q (waiting t) t" unfolding wt by (rule lz_at_update [OF _ w f])
  have "word_of_nat (strstart s) - match_start s = word_of_nat (strstart t) - (match_start t + 1)" using tf by simp
  then have "distance t (match_start t + 1) = distance s (match_start s)" unfolding distance_def by (rule arg_cong [OF sym])
  then show "pend T h t" using k tf s(4) by (auto simp: pend_def match_consts)
  show "rolled_ok t" using r(2) win_frame_inv(4) [OF w] by simp
  show "(level t, strategy t) = (level s, strategy s)" using win_frame_mode [OF w] moved_mode [of 1 s] by simp
qed

lemma slow_literal_goes:
  assumes s: "lz_mid T h q (h + (strstart s - 1)) s" "last_lit s < lit_bufsize s - 1" "ready (data_end s) s" "1 \<le> strstart s"
      "lookahead s \<noteq> 0" "match_available s"
    and k: "3 \<le> match_length s \<Longrightarrow>
      match_length s \<le> lookahead s \<and> repeats T (h + strstart s) (distance s (match_start s)) (match_length s)"
  shows "goes T q s (slow_literal s) (slow_inv T (level s, strategy s))"
proof -
  define c where "c = window s ! (strstart s - 1)"
  define v where "v = snd (tr_tally_lit s c)"
  define u where "u = (if fst (tr_tally_lit s c) then FLUSH_BLOCK_ONLY 0 v else v)"
  note tf = tally_frames(1,3,5,9) [of s c, folded v_def]
  note wv = win_frame_fields [OF tf(1)]
  have "h + (strstart s - 1) + 1 = h + strstart s" using s(4) by simp
  moreover have "strstart s - 1 < data_end s" using s(4) by (simp add: data_end_def)
  ultimately have "lz_mid T h q (h + strstart s) v"
    using tally_lit_mid [OF s(1,2)] unfolding v_def c_def by metis
  then have mid: "lz_mid T h q (h + strstart v) v" using wv(1) by simp
  have "\<exists>q'. emits T q s q' u \<and> lz_mid T h q' (h + strstart u) u \<and> last_lit u < lit_bufsize u - 1 \<and>
      win_frame u = win_frame s \<and> match_frame u = match_frame s"
  proof (cases "fst (tr_tally_lit s c)")
    case True
    then have u: "u = FLUSH_BLOCK_ONLY 0 v" by (simp add: u_def)
    note f = FLUSH_BLOCK_ONLY_frame [of 0 v, folded u]
    note w = win_frame_fields [OF f(1)]
    have "lz_mid T h (h + strstart u) (h + strstart u) u"
    proof -
      have "stream T h v" "2 \<le> lit_bufsize v" using mid by (simp_all add: lz_mid_def)
      then have "h + strstart v \<le> length T"
        using stream_nth(2) [of T h v "strstart v - 1"] mid s(4,5) wv(1,2) by (fastforce simp: lz_mid_def data_end_def)
      then have "symbols_of T (h + strstart u) (h + strstart u) []" using w(1) by (intro symbols_of_Nil) simp
      moreover have "block_symbols u = []" by (simp add: block_symbols_def f)
      ultimately show ?thesis using mid by (simp add: lz_mid_def f w win_frame_inv [OF f(1)])
    qed
    moreover have "emits T q s (h + strstart u) u"
      using flush_emits(1) [OF mid] emits_from tf(3) w(1) u by metis
    moreover have "last_lit u < lit_bufsize u - 1" using mid f(6) w(4) by (simp add: lz_mid_def)
    ultimately show ?thesis using f(1,2) tf(1,2) by auto
  next
    case False
    then have "u = v" by (simp add: u_def)
    moreover have "emits T q s q v" using tf(3) by (rule emits_quiet)
    moreover have "last_lit v < lit_bufsize v - 1" using False s(2) tf(4) wv(4) tally_frames(15) [of s c] by simp
    ultimately show ?thesis using mid tf(1,2) by auto
  qed
  then obtain q' where q: "emits T q s q' u" "lz_mid T h q' (h + strstart u) u" "last_lit u < lit_bufsize u - 1"
    "win_frame u = win_frame s" "match_frame u = match_frame s" by blast
  note w = win_frame_fields [OF q(4)]
  have mu: "match_available u" "match_length u = match_length s" "match_start u = match_start s"
    using q(5) s(6) by (simp_all add: match_frame_def)
  have "slow_inv T (level u, strategy u) q' ((moved 1 u)\<lparr>match_available := True\<rparr>)"
  proof (rule waiting_moved [OF q(2,3) _ _ _ refl])
    show "ready (data_end u) u" using ready_cong [OF s(3) q(4)] w(8) by simp
    show "lookahead u \<noteq> 0" using w(2) s(5) by simp
    have "distance u = distance s" using w(1) by (simp add: distance_def fun_eq_iff)
    then show "match_length u \<le> lookahead u \<and> repeats T (h + strstart u) (distance u (match_start u)) (match_length u)"
      if "3 \<le> match_length u" using k that mu(2,3) w(1,2) by simp
  qed
  moreover have "(moved 1 u)\<lparr>match_available := True\<rparr> = moved 1 u" using mu(1) by (simp add: moved_def)
  ultimately have inv: "slow_inv T (level s, strategy s) q' (moved 1 u)" using win_frame_mode [OF q(4)] by simp
  have "emits T q s q' (moved 1 u)"
    using emits_trans [OF emits_quiet [of "moved 1 u" u] q(1)] by simp
  moreover have "slow_literal s = (if strm_avail_out (moved 1 u) = 0 then Return need_more (moved 1 u) else Continue (moved 1 u))"
    unfolding slow_literal_def Let_def case_prod_unfold u_def v_def c_def moved_def by simp
  ultimately show ?thesis using inv by (auto simp: goes_def)
qed

lemma slow_body_goes:
  assumes s: "lz_at T h q (waiting s) s" "pend T h s" "rolled_ok s" "lookahead s \<noteq> 0"
  shows "goes T q s (slow_body s) (slow_inv T (level s, strategy s))"
proof -
  obtain hh u where r: "insert_here s = (hh, u)" by fastforce
  note d = lz_atD [OF s(1)]
  have e: "data_end s \<le> window_size s" using d(6) by (simp add: stream_def)
  note i = insert_here_chain [OF d(5,2) s(3) e r]
  note f = hashed_fields [OF i(1)]
  have mu: "lz_mid T h q (h + strstart u - waiting s) u" using hashed_mid [OF i(1,2) d(1)] f(1) by simp
  have su: "stream T h u" using mu by (simp add: lz_mid_def)
  have rd: "ready (data_end u) u" using insert_here_ready [OF d(5,2) s(3) e r] f(3) by simp
  have c: "3 \<le> lookahead u \<and> (\<exists>I e. chain_set (strstart u + 1) e u I \<and> hh \<in> I \<and>
      hash_at u hh = hash_at u (strstart u) \<and> hh < strstart u)" if "hh \<noteq> NIL"
  proof -
    have l: "3 \<le> lookahead s" using i(3) that by (cases "lookahead s < 3") (auto simp: match_consts)
    then show ?thesis using i(4) [OF l] that f(1,2) by (auto simp: match_consts)
  qed
  obtain m k where t: "slow_search hh u =
      u\<lparr>prev_length := match_length u, prev_match := match_start u, match_length := k, match_start := m\<rparr>"
    and k: "3 \<le> k \<Longrightarrow> match_length u < k \<Longrightarrow> k \<le> lookahead u \<and> repeats T (h + strstart u) (distance u m) k"
    using slow_search_found [OF i(2) su c] by metis
  define t where "t = slow_search hh u"
  note t = t [folded t_def]
  have w: "win_frame t = win_frame u" "written t = written s" using f(16) unfolding t by simp_all
  have at: "lz_mid T h q (h + strstart u - waiting s) t"
  proof -
    have "block_symbols t = block_symbols u" unfolding t by (simp add: block_symbols_def block_symbol_def)
    then show ?thesis using mu by (intro lz_mid_frame [OF mu w(1)]) (simp_all add: t lz_mid_def)
  qed
  note wf = win_frame_fields [OF w(1)]
  have lt: "last_lit t < lit_bufsize t - 1" using d(3) f(13,14) by (simp add: t)
  have rt: "ready (data_end t) t" using ready_cong [OF rd w(1)] wf(8) by simp
  have tf: "strstart t = strstart s" "lookahead t = lookahead s" "match_available t = match_available s"
    "prev_length t = match_length s" "prev_match t = match_start s" "match_length t = k" "match_start t = m"
    using f by (simp_all add: t)
  have dist: "distance u x = distance s x" "distance t x = distance s x" for x
    using f(1) tf(1) by (simp_all add: distance_def)
  have mode: "(level t, strategy t) = (level s, strategy s)" using f(17) by (simp add: t)
  have la: "lookahead t \<noteq> 0" using s(4) tf(2) by simp
  have body: "slow_body s = (if prev_length t \<ge> MIN_MATCH \<and> match_length t \<le> prev_length t then slow_match t
      else if match_available t then slow_literal t
      else Continue (t\<lparr>match_available := True, strstart := strstart t + 1, lookahead := lookahead t - 1\<rparr>))"
    by (simp add: slow_body_def r Let_def t_def)
  have found: "match_length t \<le> lookahead t \<and> repeats T (h + strstart t) (distance t (match_start t)) (match_length t)"
    if "\<not> (prev_length t \<ge> MIN_MATCH \<and> match_length t \<le> prev_length t)" "3 \<le> match_length t"
  proof -
    have "match_length u < k" using that tf(4,6) f(21) by (auto simp: match_consts)
    then show ?thesis using k that(2) tf f(1,2) by (simp add: dist)
  qed
  have "goes T q t (slow_body s) (slow_inv T (level t, strategy t))"
  proof (cases "prev_length t \<ge> MIN_MATCH \<and> match_length t \<le> prev_length t")
    case True
    then have p: "match_available s" "match_length s \<le> lookahead s + 1"
      "repeats T (h + strstart s - 1) (distance s (match_start s + 1)) (match_length s)"
      using s(2) tf(4) by (simp_all add: pend_def)
    have st: "1 \<le> strstart t" using d(4) p(1) tf(1) by (simp add: waiting_def)
    have h: "h + strstart s - 1 = h + (strstart t - 1)" using st tf(1) by simp
    have "goes T q t (slow_match t) (slow_inv T (level t, strategy t))"
    proof (rule slow_match_goes [OF _ lt rt st])
      show "lz_mid T h q (h + (strstart t - 1)) t" using at p(1) f(1) h by (simp add: waiting_def)
      show "repeats T (h + (strstart t - 1)) (distance t (prev_match t + 1)) (prev_length t)"
        using p(3) unfolding h by (simp add: dist tf)
    qed (use p(2) tf in simp)
    then show ?thesis by (simp add: body True)
  next
    case False
    show ?thesis
    proof (cases "match_available t")
      case True
      have st: "1 \<le> strstart t" using d(4) True tf(1,3) by (simp add: waiting_def)
      have "goes T q t (slow_literal t) (slow_inv T (level t, strategy t))"
      proof (rule slow_literal_goes [OF _ lt rt st la True found [OF False]])
        show "lz_mid T h q (h + (strstart t - 1)) t" using at True tf(1,3) st f(1) by (simp add: waiting_def)
      qed
      then show ?thesis unfolding body if_not_P [OF False] by (simp only: True if_True)
    next
      case n: False
      let ?t = "(moved 1 t)\<lparr>match_available := True\<rparr>"
      have "lz_mid T h q (h + strstart t) t" using at n tf(1,3) f(1) by (simp add: waiting_def)
      then have "slow_inv T (level t, strategy t) q ?t" by (rule waiting_moved [OF _ lt rt la found [OF False] refl])
      moreover have "slow_body s = Continue ?t" unfolding body if_not_P [OF False] if_not_P [OF n] by (simp add: moved_def)
      ultimately show ?thesis by (simp add: goes_Continue)
    qed
  qed
  then show ?thesis using goes_from w(2) mode by metis
qed

lemma slow_step_goes:
  assumes s: "slow_inv T m q s"
  shows "goes T q s (slow_step flush s) (slow_inv T m)"
proof -
  define u where "u = (if lookahead s < MIN_LOOKAHEAD then fill_window s else s)"
  obtain h where h: "lz_at T h q (waiting s) s" "pend T h s" "rolled_ok s" "(level s, strategy s) = m"
    using s by (auto simp: slow_inv_def)
  have w1: "waiting s \<le> 1" by (simp add: waiting_def)
  obtain n where n: "lz_at T (h + n) q (waiting s) u" "fills T h n s u" "written u = written s"
    using filled_at [OF h(1) w1 u_def] .
  have k: "kept u = kept s" "rolled_ok u" using n(2) h(3) by (simp_all add: fills_def)
  have wt: "waiting u = waiting s" using k(1) by (simp add: kept_def waiting_def)
  have p: "pend T (h + n) u" using lz_atD(4) [OF n(1)] by (rule pend_fills [OF n(2) w1 refl _ h(2)])
  have mode: "(level u, strategy u) = m" using k(1) h(4) by (simp add: kept_def)
  note at = n(1) [folded wt]
  show ?thesis
    unfolding slow_step_def
  proof (rule need_lookahead_goes [OF h(1) u_def _ n(3)])
    show "slow_inv T m q u" by (rule slow_invI [OF at p k(2) mode])
    show "goes T q u (slow_body u) (slow_inv T m)" if "lookahead u \<noteq> 0"
      using slow_body_goes [OF at p k(2) that] mode by simp
  qed
qed

interpretation slow: match_loop slow_step slow_turns T "slow_inv T m" for T m
proof
  show "moves s (slow_step flush s)" for flush s
    unfolding slow_step_def by (rule need_lookahead_moves [OF slow_body_moves])
qed (rule slow_turns.simps, rule slow_step_goes)

text \<open>The literal that still waits at the end of the input.\<close>

lemma last_literal_mid:
  assumes s: "lz_at T h q (waiting s) s" "at_end s"
  shows "lz_mid T h q (h + strstart (last_literal s)) (last_literal s)" "chain_ok (last_literal s)"
    "at_end (last_literal s)" "written (last_literal s) = written s"
    "(level (last_literal s), strategy (last_literal s)) = (level s, strategy s)" "\<not> match_available (last_literal s)"
    "match_length (last_literal s) = match_length s"
proof -
  note d = lz_atD [OF s(1)]
  define c where "c = window s ! (strstart s - 1)"
  define v where "v = snd (tr_tally_lit s c)"
  note tf = tally_frames(1,3,5) [of s c, folded v_def]
  note w = win_frame_fields [OF tf(1)]
  have *: "lz_mid T h q (h + strstart s) t \<and> chain_ok t \<and> at_end t \<and> written t = written s \<and>
      (level t, strategy t) = (level s, strategy s) \<and> \<not> match_available t \<and> match_length t = match_length s \<and>
      strstart t = strstart s" if t: "t = last_literal s" for t
  proof (cases "match_available s")
    case True
    then have k: "waiting s = 1" "1 \<le> strstart s" using d(4) by (simp_all add: waiting_def)
    have "h + strstart s - 1 = h + (strstart s - 1)" "h + (strstart s - 1) + 1 = h + strstart s"
      "strstart s - 1 < data_end s" using k by (simp_all add: data_end_def)
    then have mid: "lz_mid T h q (h + strstart s) v"
      using tally_lit_mid [of T h q "strstart s - 1" s] d(1,3) unfolding k(1) v_def c_def by metis
    have tv: "t = v\<lparr>match_available := False\<rparr>" using True by (simp add: t last_literal_def v_def c_def)
    have "block_symbols t = block_symbols v" by (simp add: tv block_symbols_def block_symbol_def)
    then have "lz_mid T h q (h + strstart s) t"
      using mid by (intro lz_mid_frame [OF mid]) (simp_all add: tv lz_mid_def)
    moreover have wt: "win_frame t = win_frame s" "written t = written s" using tf by (simp_all add: tv)
    moreover have "match_length t = match_length s" "\<not> match_available t" using tf(2) by (simp_all add: tv match_frame_def)
    ultimately show ?thesis
      using d(2) s(2) win_frame_inv(3) [OF wt(1)] win_frame_mode [OF wt(1)] win_frame_fields [OF wt(1)] by (simp add: at_end_def)
  next
    case False
    then show ?thesis using t d(1,2) s(2) by (simp add: last_literal_def waiting_def)
  qed
  from * [OF refl] show "lz_mid T h q (h + strstart (last_literal s)) (last_literal s)" "chain_ok (last_literal s)"
    "at_end (last_literal s)" "written (last_literal s) = written s"
    "(level (last_literal s), strategy (last_literal s)) = (level s, strategy s)" "\<not> match_available (last_literal s)"
    "match_length (last_literal s) = match_length s" by simp_all
qed

lemma deflate_slow_goes:
  assumes s: "slow_inv T m q s" and r: "deflate_slow flush s = (b, t)"
  shows "\<exists>q'. sent T b q s q' t \<and> slow_inv T m q' t \<and> ended T flush b q'"
proof -
  obtain q' u where u: "slow_turns flush s = Continue u \<or> slow_turns flush s = Break u \<and> at_end u \<or>
      slow_turns flush s = Return need_more u" "emits T q s q' u" "slow_inv T m q' u"
    using slow.turns_goes [OF s, of flush] by (auto simp: goes_def)
  show ?thesis
  proof (cases "slow_turns flush s = Break u \<and> at_end u")
    case True
    let ?l = "last_literal u"
    obtain h where h: "lz_at T h q' (waiting u) u" "pend T h u" "(level u, strategy u) = m"
      using u(3) by (auto simp: slow_inv_def)
    note l = last_literal_mid [OF h(1) conjunct2 [OF True]]
    have e: "end_blocks flush (last_strings ?l) ?l = (b, t)"
      using r True by (simp add: deflate_slow_def finish_loop_def)
    have "\<exists>q''. sent T b q' ?l q'' t \<and> lz_at T h q'' 0 t \<and> q'' = length T \<and> at_end t \<and> match_frame t = match_frame ?l \<and>
        (level t, strategy t) = (level ?l, strategy ?l)"
      using l(1-3) by (intro end_blocks_goes [OF _ _ _ _ _ e]) (simp_all add: last_strings_def match_consts)
    then obtain q'' where q: "sent T b q' ?l q'' t" "lz_at T h q'' 0 t" "lookahead t = 0" "match_frame t = match_frame ?l"
      "(level t, strategy t) = (level ?l, strategy ?l)" "q'' = length T" by (auto simp: at_end_def)
    have "match_length u < MIN_MATCH" using h(2) True by (auto simp: pend_def match_consts at_end_def)
    then have "pend T h t" "waiting t = 0"
      using q(4) l(6,7) by (simp_all add: pend_def match_frame_def waiting_def)
    then have "slow_inv T m q'' t"
      using q h(3) l(5) by (intro slow_invI [of T h]) (simp_all add: rolled_ok_def match_consts)
    moreover have "sent T b q' u q'' t" by (rule sent_from [OF q(1)]) (simp add: l(4))
    ultimately show ?thesis using sent_trans [OF _ u(2)] ended_blocks [OF e q(6)] by blast
  next
    case False
    then have "t = u" "b = need_more" using u(1) r by (auto simp: deflate_slow_def finish_loop_def)
    then show ?thesis using u ended_more by (auto simp: sent_def)
  qed
qed

end
