(* ===== verification/Deflate_Correct.thy ===== *)
theory Deflate_Correct
  imports Deflate_Search
begin

text \<open>
  The properties of the compressor of \<open>src/src/zlib/deflate.c\<close>: a stream that \<open>deflateInit2\<close> has set up is ready for
  every compression function, and what these functions write stands for the whole input.
\<close>

section \<open>Readiness\<close>

text \<open>The block began at byte \<open>q\<close> of the input \<open>T\<close>, for the function that \<open>deflate()\<close> will choose.\<close>

definition compress_inv :: "u8 list \<Rightarrow> nat \<Rightarrow> deflate_state \<Rightarrow> bool" where
  "compress_inv T q s \<longleftrightarrow>
     1 \<le> level s \<and> level s \<le> 9 \<and>
     (if strategy s = Z_HUFFMAN_ONLY \<or> strategy s = Z_RLE then plain_inv T (level s, strategy s) q s
      else if level s \<le> 3 then fast_inv T (level s, strategy s) q s
      else slow_inv T (level s, strategy s) q s)"

lemma inv_mode:
  "plain_inv T m q s \<Longrightarrow> (level s, strategy s) = m" "fast_inv T m q s \<Longrightarrow> (level s, strategy s) = m"
  "slow_inv T m q s \<Longrightarrow> (level s, strategy s) = m"
  by (simp_all add: fast_inv_def plain_inv_def slow_inv_def)

lemma level_func:
  assumes "1 \<le> lev" "lev \<le> 9"
  shows "func (configuration_table ! nat lev) = (if lev \<le> 3 then Deflate_fast else Deflate_slow)"
proof -
  have "lev \<in> {1, 2, 3, 4, 5, 6, 7, 8, 9}" using assms by auto
  then show ?thesis by (auto simp: configuration_table_def)
qed

lemma compress_some_sound:
  assumes s: "compress_inv T q s" and r: "compress_some flush s = (b, t)"
  shows "\<exists>q'. sent T b q s q' t \<and> compress_inv T q' t \<and> ended T flush b q'"
proof -
  let ?m = "(level s, strategy s)"
  have l: "1 \<le> level s" "level s \<le> 9" "level s \<noteq> 0" using s by (auto simp: compress_inv_def)
  consider "strategy s = Z_HUFFMAN_ONLY \<or> strategy s = Z_RLE" |
    "\<not> (strategy s = Z_HUFFMAN_ONLY \<or> strategy s = Z_RLE)" "level s \<le> 3" |
    "\<not> (strategy s = Z_HUFFMAN_ONLY \<or> strategy s = Z_RLE)" "\<not> level s \<le> 3" by blast
  then show ?thesis
  proof cases
    case 1
    then have "plain_inv T ?m q s" using s by (simp add: compress_inv_def)
    moreover have "deflate_huff flush s = (b, t) \<or> deflate_rle flush s = (b, t)"
      using r l 1 by (simp add: compress_some_def split: if_splits)
    ultimately obtain q' where q: "sent T b q s q' t" "plain_inv T ?m q' t" "ended T flush b q'"
      using deflate_plain by blast
    then have "compress_inv T q' t" using l 1 inv_mode(1) [OF q(2)] by (simp add: compress_inv_def)
    then show ?thesis using q by blast
  next
    case 2
    then have "fast_inv T ?m q s" using s unfolding compress_inv_def by presburger
    moreover have "deflate_fast flush s = (b, t)" using r l 2 level_func [OF l(1,2)] by (simp add: compress_some_def)
    ultimately obtain q' where q: "sent T b q s q' t" "fast_inv T ?m q' t" "ended T flush b q'"
      using deflate_fast_goes by blast
    then have "compress_inv T q' t" using l 2 inv_mode(2) [OF q(2)] by (simp add: compress_inv_def)
    then show ?thesis using q by blast
  next
    case 3
    then have "slow_inv T ?m q s" using s unfolding compress_inv_def by presburger
    moreover have "deflate_slow flush s = (b, t)" using r l 3 level_func [OF l(1,2)] by (simp add: compress_some_def)
    ultimately obtain q' where q: "sent T b q s q' t" "slow_inv T ?m q' t" "ended T flush b q'"
      using deflate_slow_goes by blast
    then have "compress_inv T q' t" using l 3 inv_mode(3) [OF q(2)] by (simp add: compress_inv_def)
    then show ?thesis using q by blast
  qed
qed

section \<open>Initialisation\<close>

text \<open>What the allocator promises: arrays of the sizes it was asked for.\<close>

definition alloc_ok :: "(nat \<Rightarrow> nat \<Rightarrow> nat \<Rightarrow> buffers option) \<Rightarrow> bool" where
  "alloc_ok alloc \<longleftrightarrow>
     (\<forall>w h l b. alloc w h l = Some b \<longrightarrow> length (b_window b) = 2 * w \<and> length (b_prev b) = w \<and> length (b_head b) = h \<and>
       length (b_d_buf b) = l \<and> length (b_l_buf b) = l)"

text \<open>A state at the start of its input, with an empty hash table.\<close>

lemma start_at:
  assumes sz: "sizes_ok s" and b: "length (l_buf s) = lit_bufsize s" "length (d_buf s) = lit_bufsize s" "3 \<le> lit_bufsize s"
    and z: "last_lit s = 0" "block_start s = 0" "strstart s = 0" "lookahead s = 0" "d_insert s = 0"
      "\<forall>i<hash_size s. head s ! i = 0" "strm_next_in s = T"
  shows "lz_at T 0 0 0 s" "rolled_ok s"
proof -
  have "chain_set 0 0 s {}" using z by (simp add: chain_set_def)
  then have "chain_ok s" using z by (auto simp: chain_ok_def data_end_def chains_def match_consts)
  moreover have "symbols_of T 0 0 (block_symbols s)" using z by (simp add: block_symbols_def symbols_of_Nil)
  moreover have "stream T 0 s" using z by (simp add: stream_def data_end_def)
  ultimately show "lz_at T 0 0 0 s" using sz b z by (simp add: lz_at_def lz_mid_def)
  show "rolled_ok s" using z by (simp add: rolled_ok_def match_consts)
qed

lemma start_ready:
  assumes "lz_at T 0 0 0 s" "rolled_ok s" "\<not> match_available s" "match_length s = 2" "prev_length s = 2"
  shows "plain_inv T (level s, strategy s) 0 s" "fast_inv T (level s, strategy s) 0 s" "slow_inv T (level s, strategy s) 0 s"
proof -
  show p: "plain_inv T (level s, strategy s) 0 s" using assms by (auto simp: plain_inv_def lz_inv_def idle_def match_consts)
  show "fast_inv T (level s, strategy s) 0 s" using p assms(2) by (simp add: fast_inv_def)
  have "waiting s = 0" "pend T 0 s" using assms by (simp_all add: waiting_def pend_def match_consts)
  then show "slow_inv T (level s, strategy s) 0 s" using assms by (intro slow_invI) simp_all
qed

lemma deflateReset_start:
  assumes "deflateReset s = (Z_OK, t)" and s: "sizes_ok (s\<lparr>window_size := 2 * w_size s\<rparr>)"
    "length (l_buf s) = lit_bufsize s" "length (d_buf s) = lit_bufsize s" "3 \<le> lit_bufsize s"
  shows "lz_at T 0 0 0 (t\<lparr>strm_next_in := T\<rparr>)" "rolled_ok (t\<lparr>strm_next_in := T\<rparr>)" "\<not> match_available t" "match_length t = 2"
    "prev_length t = 2" "level t = level s" "strategy t = strategy s" "pending_buf t = []" "bi_valid t = 0"
    "\<not> deflateStateCheck t" "wrap s = 0 \<or> wrap s = 1 \<Longrightarrow> status t = INIT_STATE \<or> status t = BUSY_STATE"
proof -
  have hd: "length (head s) = hash_size s" using s(1) by (simp add: sizes_ok_def)
  obtain u where u: "t = lm_init u" "deflateResetKeep s = (Z_OK, u)"
    using assms(1) by (auto simp: deflateReset_def split: prod.splits if_splits)
  then have ok: "\<not> deflateStateCheck s" by (auto simp: deflateResetKeep_def ret_consts split: if_splits)
  have f: "head u = head s" "hash_size u = hash_size s" "w_size u = w_size s" "w_bits u = w_bits s" "w_mask u = w_mask s"
    "window u = window s" "prev u = prev s" "hash_bits u = hash_bits s" "hash_mask u = hash_mask s"
    "hash_shift u = hash_shift s" "l_buf u = l_buf s" "d_buf u = d_buf s" "lit_bufsize u = lit_bufsize s"
    "last_lit u = 0" "level u = level s" "strategy u = strategy s" "pending_buf u = []" "bi_valid u = 0"
    using u(2) ok by (auto simp: deflateResetKeep_def Let_def tr_init_def init_block_def)
  let ?t = "t\<lparr>strm_next_in := T\<rparr>"
  have g: "head t = replicate (hash_size s) 0" "l_buf t = l_buf s" "d_buf t = d_buf s" "lit_bufsize t = lit_bufsize s"
    "last_lit t = 0" "block_start t = 0" "strstart t = 0" "lookahead t = 0" "d_insert t = 0" "hash_size t = hash_size s"
    "window_size t = 2 * w_size s" "w_size t = w_size s" "w_bits t = w_bits s" "w_mask t = w_mask s"
    "window t = window s" "prev t = prev s" "hash_bits t = hash_bits s" "hash_mask t = hash_mask s" "hash_shift t = hash_shift s"
    by (simp_all add: u(1) lm_init_def CLEAR_HASH_def Let_def f hd)
  have sz: "sizes_ok ?t" using s(1) by (simp add: sizes_ok_def g)
  show "lz_at T 0 0 0 ?t" "rolled_ok ?t" using s(2-4) by (intro start_at [OF sz]; simp add: g)+
  show "\<not> match_available t" "match_length t = 2" "prev_length t = 2" "level t = level s" "strategy t = strategy s"
    "pending_buf t = []" "bi_valid t = 0"
    by (simp_all add: u(1) lm_init_def CLEAR_HASH_def Let_def f match_consts)
  define st where "st w = (if w = 2 then GZIP_STATE else if w \<noteq> 0 then INIT_STATE else BUSY_STATE)" for w :: int
  have st: "strm_ready u = strm_ready s" "status u = st (if wrap s < 0 then - wrap s else wrap s)"
    using u(2) ok
    by (cases "wrap s < 0"; auto simp: deflateResetKeep_def Let_def tr_init_def init_block_def st_def)+
  have tu: "strm_ready t = strm_ready u" "status t = status u"
    by (simp_all add: u(1) lm_init_def CLEAR_HASH_def Let_def)
  have "strm_ready s" using ok by (simp add: deflateStateCheck_def)
  then show "\<not> deflateStateCheck t" by (auto simp: deflateStateCheck_def tu st st_def)
  show "status t = INIT_STATE \<or> status t = BUSY_STATE" if "wrap s = 0 \<or> wrap s = 1"
    using that by (auto simp: tu st st_def)
qed

lemma deflateInit2_start:
  assumes r: "deflateInit2 alloc_state alloc lev method windowBits memLevel strat version stream_size s = (Z_OK, t)"
    and a: "alloc_ok alloc"
  shows "lz_at T 0 0 0 (t\<lparr>strm_next_in := T\<rparr>)" "rolled_ok (t\<lparr>strm_next_in := T\<rparr>)" "\<not> match_available t" "match_length t = 2"
    "prev_length t = 2" "level t = (if lev = Z_DEFAULT_COMPRESSION then 6 else lev)" "strategy t = strat"
    "0 \<le> level t" "level t \<le> 9" "pending_buf t = []" "bi_valid t = 0" "\<not> deflateStateCheck t"
    "windowBits \<le> 15 \<Longrightarrow> status t = INIT_STATE \<or> status t = BUSY_STATE"
proof -
  obtain lev' wr wb where p: "init_params lev windowBits = (lev', wr, wb)" by (cases "init_params lev windowBits") blast
  let ?wb = "if wb = 8 then 9 else wb"
  let ?s = "s\<lparr>strm_msg := None, strm_ready := True, status := INIT_STATE, wrap := wr, gzhead := None,
     w_bits := nat ?wb, w_size := 2 ^ nat ?wb, w_mask := 2 ^ nat ?wb - 1,
     hash_bits := nat memLevel + 7, hash_size := 2 ^ (nat memLevel + 7), hash_mask := 2 ^ (nat memLevel + 7) - 1,
     hash_shift := (nat memLevel + 7 + MIN_MATCH - 1) div MIN_MATCH, high_water := 0,
     lit_bufsize := 2 ^ (nat memLevel + 6), pending_buf_size := 2 ^ (nat memLevel + 6) * 4\<rparr>"
  let ?b = "alloc (2 ^ nat ?wb) (2 ^ (nat memLevel + 7)) (2 ^ (nat memLevel + 6))"
  have ok: "version_ok version \<and> stream_size = sizeof_z_stream" "alloc_state"
    "1 \<le> memLevel" "memLevel \<le> 9" "8 \<le> wb" "wb \<le> 15" "0 \<le> lev'" "lev' \<le> 9" "?b \<noteq> None"
    using r by (auto simp: deflateInit2_def p Let_def ret_consts MAX_MEM_LEVEL_def split: if_splits option.splits)
  then obtain b where b: "?b = Some b" by blast
  have "length (b_window b) = 2 * 2 ^ nat ?wb \<and> length (b_prev b) = 2 ^ nat ?wb \<and> length (b_head b) = 2 ^ (nat memLevel + 7) \<and>
       length (b_d_buf b) = 2 ^ (nat memLevel + 6) \<and> length (b_l_buf b) = 2 ^ (nat memLevel + 6)"
    using a b unfolding alloc_ok_def by blast
  note bl = this [THEN conjunct1] this [THEN conjunct2, THEN conjunct1] this [THEN conjunct2, THEN conjunct2, THEN conjunct1]
    this [THEN conjunct2, THEN conjunct2, THEN conjunct2, THEN conjunct1] this [THEN conjunct2, THEN conjunct2, THEN conjunct2, THEN conjunct2]
  let ?u = "?s\<lparr>window := b_window b, prev := b_prev b, head := b_head b, d_buf := b_d_buf b, l_buf := b_l_buf b,
     level := lev', strategy := strat, d_method := word_of_int method\<rparr>"
  have u: "deflateReset ?u = (Z_OK, t)"
    using r ok b by (simp add: deflateInit2_def p Let_def ret_consts MAX_MEM_LEVEL_def split: if_splits)
  have wb: "9 \<le> nat ?wb" "nat ?wb \<le> 15" using ok by auto
  have sz: "sizes_ok (?u\<lparr>window_size := 2 * w_size ?u\<rparr>)"
  proof -
    have "Suc 0 \<le> nat memLevel" "nat memLevel \<le> 9" using ok(3,4) by arith+
    then show ?thesis using wb bl by (simp add: sizes_ok_def)
  qed
  have lb: "length (l_buf ?u) = lit_bufsize ?u" "length (d_buf ?u) = lit_bufsize ?u" using bl by simp_all
  have "(2 :: nat) ^ 2 \<le> 2 ^ (nat memLevel + 6)" by (rule power_increasing) simp_all
  then have l3: "3 \<le> lit_bufsize ?u" by simp
  note st = deflateReset_start [OF u sz lb l3]
  have lev: "lev' = (if lev = Z_DEFAULT_COMPRESSION then 6 else lev)"
    using p by (auto simp: init_params_def Let_def split: if_splits)
  show "lz_at T 0 0 0 (t\<lparr>strm_next_in := T\<rparr>)" "rolled_ok (t\<lparr>strm_next_in := T\<rparr>)" by (rule st)+
  show "\<not> match_available t" "match_length t = 2"
    "prev_length t = 2" "level t = (if lev = Z_DEFAULT_COMPRESSION then 6 else lev)" "strategy t = strat"
    "0 \<le> level t" "level t \<le> 9" "pending_buf t = []" "bi_valid t = 0" "\<not> deflateStateCheck t"
    using st(3-10) ok(7,8) lev by simp_all
  show "status t = INIT_STATE \<or> status t = BUSY_STATE" if "windowBits \<le> 15"
  proof -
    have "wr = 0 \<or> wr = 1" using p that by (auto simp: init_params_def Let_def split: if_splits)
    then show ?thesis using st(11) by simp
  qed
qed

lemma compress_start:
  assumes "deflateInit2 alloc_state alloc lev method windowBits memLevel strat version stream_size s = (Z_OK, t)"
    and "alloc_ok alloc" "level t \<noteq> 0"
  shows "compress_inv T 0 (t\<lparr>strm_next_in := T\<rparr>)"
proof -
  note i = deflateInit2_start [OF assms(1,2)]
  let ?t = "t\<lparr>strm_next_in := T\<rparr>"
  have "\<not> match_available ?t" "match_length ?t = 2" "prev_length ?t = 2" using i(3-5) by simp_all
  from start_ready [OF i(1) [of T] i(2) [of T] this] show ?thesis using i(8,9) assms(3) by (simp add: compress_inv_def)
qed

section \<open>A call with Z_FINISH\<close>

lemma compress_inv_update:
  assumes "compress_inv T q s" "win_frame t = win_frame s" "match_frame t = match_frame s" "block_start t = block_start s"
    "l_buf t = l_buf s" "d_buf t = d_buf s" "last_lit t = last_lit s"
  shows "compress_inv T q t"
proof -
  have at: "lz_at T h q k t" if "lz_at T h q k s" for h k using that assms(2,4-7) by (rule lz_at_update)
  have m: "(level t, strategy t) = (level s, strategy s)" by (rule win_frame_mode [OF assms(2)])
  have pl: "plain_inv T (level s, strategy s) q s \<Longrightarrow> plain_inv T (level s, strategy s) q t"
    using at m match_frame_idle [OF assms(3)] by (auto simp: plain_inv_def lz_inv_def)
  moreover have "fast_inv T (level s, strategy s) q s \<Longrightarrow> fast_inv T (level s, strategy s) q t"
    using pl win_frame_inv(4) [OF assms(2)] by (simp add: fast_inv_def)
  moreover have "slow_inv T (level s, strategy s) q s \<Longrightarrow> slow_inv T (level s, strategy s) q t"
    using at m pend_frame [OF assms(2,3)] win_frame_inv(4) [OF assms(2)] by (auto simp: slow_inv_def)
  ultimately show ?thesis using assms(1) m by (auto simp: compress_inv_def split: if_splits)
qed

lemma header_inv:
  assumes s: "compress_inv T q s" and r: "write_zlib_header s = Go t"
  shows "compress_inv T q t" "status s = BUSY_STATE \<Longrightarrow> t = s" "status s = INIT_STATE \<Longrightarrow> status t = BUSY_STATE"
proof -
  have f: "win_frame (put_byte u c) = win_frame u" "match_frame (put_byte u c) = match_frame u" for u c
    by (simp_all add: put_byte_def win_frame_def match_frame_def)
  have "compress_inv T q t \<and> (status s = BUSY_STATE \<longrightarrow> t = s) \<and> (status s = INIT_STATE \<longrightarrow> status t = BUSY_STATE)"
  proof (cases "status s = INIT_STATE")
    case True
    define v where "v = (if strstart s \<noteq> 0 then put_adler (putShortMSB (zlib_header s) s) else putShortMSB (zlib_header s) s)"
    have vf: "win_frame v = win_frame s" "match_frame v = match_frame s" "block_start v = block_start s" "l_buf v = l_buf s"
      "d_buf v = d_buf s" "last_lit v = last_lit s"
      by (simp_all add: v_def put_adler_def putShortMSB_def f) (simp_all add: put_byte_def)
    let ?w = "v\<lparr>strm_adler := adler32 0 None, status := BUSY_STATE\<rparr>"
    have wf: "win_frame ?w = win_frame v" "match_frame ?w = match_frame v" by (simp_all add: win_frame_def match_frame_def)
    have "strstart (putShortMSB (zlib_header s) s) = strstart s" by (simp add: putShortMSB_def put_byte_def)
    then have "flush_all ?w = Go t" using r True by (simp add: write_zlib_header_def Let_def v_def)
    then have t: "t = flush_pending ?w" by (simp add: flush_all_def full_return_def Let_def split: if_splits)
    have "compress_inv T q t"
      by (rule compress_inv_update [OF s]) (simp_all only: t flush_pending_frame wf vf, simp_all add: vf)
    moreover have "status t = BUSY_STATE"
      by (simp add: t flush_pending_def tr_flush_bits_def bi_flush_def put_short_def put_byte_def Let_def)
    ultimately show ?thesis using True by (simp add: status_consts)
  next
    case False
    then have "t = s" using r by (simp add: write_zlib_header_def)
    then show ?thesis using s False by simp
  qed
  then show "compress_inv T q t" "status s = BUSY_STATE \<Longrightarrow> t = s" "status s = INIT_STATE \<Longrightarrow> status t = BUSY_STATE" by blast+
qed

text \<open>The phases of a call that returns \<open>Z_STREAM_END\<close>.\<close>

lemma deflate_finish_phases:
  assumes s: "compress_inv T q s" "status s = INIT_STATE \<or> status s = BUSY_STATE" "pending_buf s = []"
    and ok: "\<not> deflateStateCheck s" "strm_avail_out s \<noteq> 0"
    and r: "deflate Z_FINISH s = (ret, t)"
  shows "ret = Z_OK \<or> ret = Z_STREAM_END \<and>
    (\<exists>u v. write_zlib_header (s\<lparr>last_flush := Z_FINISH\<rparr>) = Go u \<and> last_sent T q u (length T) v \<and>
      write_trailer Z_FINISH v = (ret, t))"
proof -
  let ?s = "s\<lparr>last_flush := Z_FINISH\<rparr>"
  have st: "status ?s = INIT_STATE \<or> status ?s = BUSY_STATE" using s(2) by simp
  have inv: "compress_inv T q ?s"
    by (rule compress_inv_update [OF s(1)]) (simp_all add: win_frame_def match_frame_def)
  have first: "and_then (flush_before (last_flush s) Z_FINISH ?s) refuse_input = Go ?s"
    using s(2,3) by (auto simp: flush_before_def refuse_input_def status_consts)
  have r': "(case and_then (write_header ?s) (write_blocks Z_FINISH) of Ret r t \<Rightarrow> (r, t) | Go t \<Rightarrow> write_trailer Z_FINISH t)
      = (ret, t)"
  proof -
    have "Z_FINISH \<le> Z_BLOCK" "0 \<le> Z_FINISH" "status s \<noteq> FINISH_STATE"
      using s(2) by (auto simp: flush_consts status_consts)
    then show ?thesis using r ok first by (simp add: deflate_def)
  qed
  show ?thesis
  proof (cases "write_zlib_header ?s")
    case (Ret c w)
    then have "c = Z_OK" by (auto simp: write_zlib_header_def flush_all_def full_return_def Let_def split: if_splits)
    then show ?thesis using r' Ret by (simp add: write_header_def)
  next
  case u: (Go u)
  note h = header_inv [OF inv u]
  have busy: "status u = BUSY_STATE" using h(2,3) st by auto
  have "write_header ?s = Go u"
    using u busy
    by (simp add: write_header_def write_gzip_header_def write_extra_def write_name_def write_comment_def write_hcrc_def
        status_consts)
  then have b: "(case write_blocks Z_FINISH u of Ret r t \<Rightarrow> (r, t) | Go t \<Rightarrow> write_trailer Z_FINISH t) = (ret, t)"
    using r' by simp
  obtain bs w where c: "compress_some Z_FINISH u = (bs, w)" by fastforce
  obtain q' where q: "sent T bs q u q' w" "compress_inv T q' w" "ended T Z_FINISH bs q'"
    using compress_some_sound [OF h(1) c] by blast
  have wb: "write_blocks Z_FINISH u =
      (let s = (if bs = finish_started \<or> bs = finish_done then w\<lparr>status := FINISH_STATE\<rparr> else w)
       in if bs = need_more \<or> bs = finish_started then Ret Z_OK (if strm_avail_out s = 0 then s\<lparr>last_flush := -1\<rparr> else s)
          else if bs = block_done then
            (let s = flush_pending (flush_marker Z_FINISH s) in if strm_avail_out s = 0 then full_return s else Go s)
          else Go s)"
  proof -
    have "Z_FINISH \<noteq> Z_NO_FLUSH \<and> status u \<noteq> FINISH_STATE" using busy by (simp add: flush_consts status_consts)
    then show ?thesis by (simp only: write_blocks_def c HOL.simp_thms if_True prod.case Let_def)
  qed
  show ?thesis
  proof (cases bs)
    case need_more
    then show ?thesis using b wb by (simp add: Let_def)
  next
    case block_done
    then show ?thesis using q(3) by (simp add: ended_def)
  next
    case finish_started
    then show ?thesis using b wb by (simp add: Let_def)
  next
    case finish_done
    let ?v = "w\<lparr>status := FINISH_STATE\<rparr>"
    have v: "write_trailer Z_FINISH ?v = (ret, t)" using b unfolding wb by (simp add: finish_done)
    then have "ret = Z_OK \<or> ret = Z_STREAM_END" by (auto simp: write_trailer_def Let_def split: if_splits)
    moreover have "q' = length T" using q(3) by (simp add: ended_def finish_done)
    moreover have "last_sent T q u q' w" using q(1) by (simp add: sent_def finish_done)
    then have "last_sent T q u q' ?v" by (rule last_sent_cong) (simp add: written_def)
    ultimately show ?thesis using v u by blast
  qed
  qed
qed

section \<open>Properties\<close>

text \<open>C1: A call of \<open>deflate()\<close> with \<open>Z_FINISH\<close> loses nothing.  On a stream whose hash table and symbols fit its
  input \<open>T\<close> (as \<open>deflateInit2\<close> leaves it, \<open>deflateInit2_ready\<close>), with room for output, the call returns
  \<open>Z_OK\<close>, to be called again, or \<open>Z_STREAM_END\<close>.  In the second case it has written the header, then blocks that
  stand for the input from byte \<open>q\<close>, where the current block began, to its end without a gap, the final one and
  no other with the flag of the last block, and then the trailer.  The symbols collected for every block, decoded
  after the input before it, give the next piece of the input, and \<open>tr_flush_block\<close> gets its length and, for a
  stored block, these bytes; whatever the level and the strategy, through every match that
  was found, put off or dropped, and however often the window was moved.  (That the bits of a block are those of
  its symbols is \<open>compress_block_bits\<close>, where the pending bytes do not run into the symbols.)\<close>

theorem deflate_finish_sound:
  assumes "compress_inv T q s" "status s = INIT_STATE \<or> status s = BUSY_STATE" "pending_buf s = []"
    and "\<not> deflateStateCheck s" "strm_avail_out s \<noteq> 0"
  shows "fst (deflate Z_FINISH s) = Z_OK \<or> fst (deflate Z_FINISH s) = Z_STREAM_END \<and>
    (\<exists>u v. write_zlib_header (s\<lparr>last_flush := Z_FINISH\<rparr>) = Go u \<and> last_sent T q u (length T) v \<and>
      write_trailer Z_FINISH v = deflate Z_FINISH s)"
  using deflate_finish_phases [OF assms surjective_pairing] by simp

text \<open>C2: Every compression function keeps the invariant of the compressor, for every kind of flush: the symbols
  collected so far, decoded after the input before the block, give the input up to the byte the search has reached;
  the hash chains lead to strings with the same hash; a match that was put off is one.  What the call writes are
  blocks that stand for the input from the old to the new start of the block, and a result other than
  \<open>need_more\<close> means that all the input has gone out: with \<open>Z_FINISH\<close> the stream is ended, and the final block, and
  no other, is written with the flag of the last block; with another flush it is a finished block only.\<close>

theorem compression_keeps_input:
  assumes "compress_inv T q s" "compress_some flush s = (b, t)"
  shows "\<exists>q'. sent T b q s q' t \<and> compress_inv T q' t \<and> ended T flush b q'"
  using compress_some_sound [OF assms] .

text \<open>C6: After \<open>deflateInit2\<close> with a level other than 0 and an allocator that gives the arrays it is asked
  for, the stream is ready for any input: the invariant of the compressor holds at its start, nothing is pending,
  and the header of a raw or zlib stream comes first.\<close>

theorem deflateInit2_ready:
  assumes "deflateInit2 alloc_state alloc lev method windowBits memLevel strat version stream_size s = (Z_OK, t)"
    and "alloc_ok alloc" "lev \<noteq> 0" "windowBits \<le> 15"
  shows "compress_inv T 0 (t\<lparr>strm_next_in := T\<rparr>) \<and> \<not> deflateStateCheck t \<and>
    (status t = INIT_STATE \<or> status t = BUSY_STATE) \<and> pending_buf t = [] \<and> bi_valid t = 0"
proof -
  note i = deflateInit2_start [OF assms(1,2)]
  have "level t \<noteq> 0" using i(6) assms(3) by (simp split: if_splits)
  then show ?thesis using compress_start [OF assms(1,2)] i(10-13) assms(4) by blast
qed

text \<open>C5: \<open>fill_window\<close> loses no input and always ends.  It takes \<open>n\<close> bytes off the front of the window, and moves
  \<open>strstart\<close>, \<open>block_start\<close> and \<open>match_start\<close> by \<open>n\<close>; window and unread input together still hold the input
  from byte \<open>h + n\<close> on; every entry of the hash table still leads to a string with its hash, no entry to bytes that
  have left the window; and it stops only with enough lookahead for the longest match or at the end of the
  input.\<close>

theorem fill_window_keeps_input:
  assumes "sizes_ok s" "stream T h s" "chain_ok s" "lookahead s < MIN_LOOKAHEAD"
  shows "(\<exists>n. fills T h n s (fill_window s)) \<and>
    (MIN_LOOKAHEAD \<le> lookahead (fill_window s) \<or> strm_next_in (fill_window s) = [])"
  using fill_window_fills [OF assms(1-3)] fill_window_end [OF assms] by blast

section \<open>Witnesses\<close>

definition demo_alloc :: "nat \<Rightarrow> nat \<Rightarrow> nat \<Rightarrow> buffers option" where
  "demo_alloc w h l =
     Some \<lparr>b_window = replicate (2 * w) 7, b_prev = replicate w 7, b_head = replicate h 7,
       b_d_buf = replicate l 7, b_l_buf = replicate l 7\<rparr>"

definition demo_memory :: deflate_state where
  "demo_memory = \<lparr>pending_buf = [], bi_buf = 0, bi_valid = 0, dyn_ltree = replicate 573 (ct 0 0),
     dyn_dtree = replicate 61 (ct 0 0), bl_tree = replicate 39 (ct 0 0),
     l_max_code = 0, d_max_code = 0, bl_max_code = 0, bl_count = replicate 16 0, heap = replicate 573 0, heap_len = 0,
     heap_max = 0, depth = replicate 573 0, l_buf = [], lit_bufsize = 0, last_lit = 0, d_buf = [], opt_len = 0,
     static_len = 0, matches = 0, level = 0, strategy = 0, data_type = 2,
     strm_ready = False, strm_next_in = [], strm_total_in = 0, strm_out = [], strm_avail_out = 0, strm_total_out = 0,
     strm_adler = 0, strm_msg = None, status = 0, pending_buf_size = 0, pending_out = 0, wrap = 0, gzhead = None,
     gzindex = 0, d_method = 0, last_flush = 0, w_size = 0, w_bits = 0, w_mask = 0, window = [], window_size = 0,
     prev = [], head = [], ins_h = 0, hash_size = 0, hash_bits = 0, hash_mask = 0, hash_shift = 0, block_start = 0,
     match_length = 0, prev_match = 0, match_available = False, strstart = 0, match_start = 0, lookahead = 0,
     prev_length = 0, max_chain_length = 0, max_lazy_match = 0, good_match = 0, nice_match = 0, d_insert = 0,
     high_water = 0\<rparr>"

definition demo_init :: "int \<times> deflate_state" where
  "demo_init = deflateInit2 True demo_alloc 6 8 9 1 0 (Some ZLIB_VERSION) 112 demo_memory"

definition demo_stream :: deflate_state where
  "demo_stream = (snd demo_init)\<lparr>strm_next_in := [1, 2, 3, 1, 2, 3, 1, 2, 3], strm_avail_out := 100\<rparr>"

lemma demo_alloc_ok: "alloc_ok demo_alloc"
  by (simp add: alloc_ok_def demo_alloc_def)

lemma demo_init_ok: "deflateInit2 True demo_alloc 6 8 9 1 0 (Some ZLIB_VERSION) 112 demo_memory = (Z_OK, snd demo_init)"
proof -
  have "fst demo_init = Z_OK"
    by (simp add: demo_init_def deflateInit2_def version_ok_def ZLIB_VERSION_def sizeof_z_stream_def init_params_def
        Z_DEFLATED_def Z_DEFAULT_COMPRESSION_def MAX_MEM_LEVEL_def Z_FIXED_def demo_alloc_def deflateReset_def
        deflateResetKeep_def deflateStateCheck_def Let_def)
  then show ?thesis by (simp add: demo_init_def prod_eq_iff)
qed

lemma demo_stream_ok:
  "compress_inv [1, 2, 3, 1, 2, 3, 1, 2, 3] 0 demo_stream"
  "status demo_stream = INIT_STATE \<or> status demo_stream = BUSY_STATE" "pending_buf demo_stream = []"
  "\<not> deflateStateCheck demo_stream" "strm_avail_out demo_stream \<noteq> 0"
  "sizes_ok demo_stream" "stream [1, 2, 3, 1, 2, 3, 1, 2, 3] 0 demo_stream" "chain_ok demo_stream" "lookahead demo_stream = 0"
proof -
  let ?T = "[1, 2, 3, 1, 2, 3, 1, 2, 3] :: u8 list"
  let ?t = "snd demo_init" and ?s = "(snd demo_init)\<lparr>strm_next_in := [1, 2, 3, 1, 2, 3, 1, 2, 3]\<rparr>"
  note i = deflateInit2_start [OF demo_init_ok demo_alloc_ok]
  have "level ?t \<noteq> 0" using i(6) by (simp add: Z_DEFAULT_COMPRESSION_def)
  from compress_start [OF demo_init_ok demo_alloc_ok this, of ?T]
  show "compress_inv ?T 0 demo_stream"
    by (rule compress_inv_update) (simp_all add: demo_stream_def win_frame_def match_frame_def)
  show "status demo_stream = INIT_STATE \<or> status demo_stream = BUSY_STATE" "pending_buf demo_stream = []"
    "\<not> deflateStateCheck demo_stream" "strm_avail_out demo_stream \<noteq> 0"
    using i(10,12,13) by (simp_all add: demo_stream_def deflateStateCheck_def)
  have "win_frame demo_stream = win_frame ?s" by (simp add: demo_stream_def win_frame_def)
  note w = win_frame_inv [OF this] win_frame_fields [OF this]
  show "sizes_ok demo_stream" "stream ?T 0 demo_stream" "chain_ok demo_stream"
    using i(1) [of ?T] by (simp_all add: w lz_at_def lz_mid_def)
  then have "take (data_end demo_stream) (window demo_stream) = []" "length (window demo_stream) \<noteq> 0"
    using sizes_simps(3,9) [of demo_stream] by (simp_all add: stream_def demo_stream_def)
  then show "lookahead demo_stream = 0" by (simp add: data_end_def)
qed

theorem deflate_finish_sound_witness:
  "fst (deflate Z_FINISH demo_stream) = Z_OK \<or> fst (deflate Z_FINISH demo_stream) = Z_STREAM_END \<and>
    (\<exists>u v. write_zlib_header (demo_stream\<lparr>last_flush := Z_FINISH\<rparr>) = Go u \<and> last_sent [1, 2, 3, 1, 2, 3, 1, 2, 3] 0 u 9 v \<and>
      write_trailer Z_FINISH v = deflate Z_FINISH demo_stream)"
proof -
  have "length [1, 2, 3, 1, 2, 3, 1, 2, 3 :: u8] = 9" by simp
  then show ?thesis using deflate_finish_sound [OF demo_stream_ok(1-5)] by (simp only:)
qed

theorem compression_keeps_input_witness:
  "\<exists>q. sent [1, 2, 3, 1, 2, 3, 1, 2, 3] (fst (compress_some Z_FINISH demo_stream)) 0 demo_stream q (snd (compress_some Z_FINISH demo_stream)) \<and>
    ended [1, 2, 3, 1, 2, 3, 1, 2, 3] Z_FINISH (fst (compress_some Z_FINISH demo_stream)) q"
  using compression_keeps_input [OF demo_stream_ok(1) surjective_pairing, of Z_FINISH] by blast

theorem deflateInit2_ready_witness:
  "compress_inv [104, 105] 0 ((snd demo_init)\<lparr>strm_next_in := [104, 105]\<rparr>) \<and> pending_buf (snd demo_init) = []"
  using deflateInit2_ready [OF demo_init_ok demo_alloc_ok, of "[104, 105]"] by simp

theorem fill_window_keeps_input_witness:
  "\<exists>n. fills [1, 2, 3, 1, 2, 3, 1, 2, 3] 0 n demo_stream (fill_window demo_stream)"
  using fill_window_keeps_input [OF demo_stream_ok(6-8)] demo_stream_ok(9) by (simp add: match_consts)

end
