(* ===== verification/Compress.thy ===== *)
theory Compress
  imports Deflate
begin

text \<open>
  The one-call interfaces of \<open>src/src/zlib/compress.c\<close> and \<open>uncompr.c\<close>, and the strings of \<open>zutil.c\<close>.
  Sizes are \<open>uLong\<close> and stay far below \<open>2 ^ 64\<close>, so they are natural numbers.  \<open>None\<close> is a call whose loop
  never ends, or, for \<open>uncompress2\<close>, one that needs more turns of \<open>inflate()\<close> than \<open>fuel\<close>.
\<close>

definition UINT_MAX :: nat where "UINT_MAX = 2 ^ 32 - 1"

definition zlibVersion :: string where
  "zlibVersion = ZLIB_VERSION"

definition zError :: "int \<Rightarrow> string" where
  "zError err = ERR_MSG err"

section \<open>Compression\<close>

text \<open>The top of the loop: more room and more input, at most \<open>max\<close> at a time.\<close>

definition compress_refill :: "nat \<Rightarrow> u8 list \<Rightarrow> deflate_state \<Rightarrow> nat \<times> u8 list \<times> deflate_state" where
  "compress_refill left source s =
     (let (left, s) =
            (if strm_avail_out s = 0 then
               (let n = (if left > UINT_MAX then UINT_MAX else left) in (left - n, s\<lparr>strm_avail_out := n\<rparr>))
             else (left, s));
          (source, s) =
            (if strm_next_in s = [] then (drop UINT_MAX source, s\<lparr>strm_next_in := take UINT_MAX source\<rparr>)
             else (source, s))
      in (left, source, s))"

partial_function (option) compress_loop :: "nat \<Rightarrow> u8 list \<Rightarrow> deflate_state \<Rightarrow> (int \<times> deflate_state) option" where
  "compress_loop left source s =
     (let (left, source, s) = compress_refill left source s;
          (err, s) = deflate (if source \<noteq> [] then Z_NO_FLUSH else Z_FINISH) s
      in if err = Z_OK then compress_loop left source s else Some (err, s))"

text \<open>The value, \<open>*destLen\<close> and the bytes written to \<open>dest\<close>; \<open>s\<close> is the memory of the stream.\<close>

definition compress2 ::
  "bool \<Rightarrow> (nat \<Rightarrow> nat \<Rightarrow> nat \<Rightarrow> buffers option) \<Rightarrow> nat \<Rightarrow> u8 list \<Rightarrow> int \<Rightarrow> deflate_state \<Rightarrow>
    (int \<times> u64 \<times> u8 list) option"
where
  "compress2 alloc_state alloc destLen source lev s =
     (case deflateInit alloc_state alloc lev (Some ZLIB_VERSION) sizeof_z_stream s of (err, s) \<Rightarrow>
        if err \<noteq> Z_OK then Some (err, 0, [])
        else
          (case compress_loop destLen source (s\<lparr>strm_out := [], strm_avail_out := 0, strm_next_in := []\<rparr>) of
             None \<Rightarrow> None
           | Some (err, s) \<Rightarrow>
               Some (if err = Z_STREAM_END then Z_OK else err, strm_total_out s, strm_out s)))"

definition compress ::
  "bool \<Rightarrow> (nat \<Rightarrow> nat \<Rightarrow> nat \<Rightarrow> buffers option) \<Rightarrow> nat \<Rightarrow> u8 list \<Rightarrow> deflate_state \<Rightarrow> (int \<times> u64 \<times> u8 list) option"
where
  "compress alloc_state alloc destLen source s =
     compress2 alloc_state alloc destLen source Z_DEFAULT_COMPRESSION s"

definition compressBound :: "u64 \<Rightarrow> u64" where
  "compressBound sourceLen =
     sourceLen + drop_bit 12 sourceLen + drop_bit 14 sourceLen + drop_bit 25 sourceLen + 13"

section \<open>Decompression\<close>

definition uncompress_refill :: "nat \<Rightarrow> u8 list \<Rightarrow> z_inflate \<Rightarrow> nat \<times> u8 list \<times> z_inflate" where
  "uncompress_refill left source s =
     (let (left, s) =
            (if avail_out s = 0 then
               (let n = (if left > UINT_MAX then UINT_MAX else left) in (left - n, s\<lparr>avail_out := n\<rparr>))
             else (left, s));
          (source, s) =
            (if next_in s = [] then (drop UINT_MAX source, s\<lparr>next_in := take UINT_MAX source\<rparr>)
             else (source, s))
      in (left, source, s))"

text \<open>\<open>out\<close> is what the calls before have written: \<open>put\<close> of a state is the output of one call.\<close>

partial_function (option) uncompress_loop ::
  "nat \<Rightarrow> bool \<Rightarrow> nat \<Rightarrow> u8 list \<Rightarrow> u8 list \<Rightarrow> z_inflate \<Rightarrow> (int \<times> nat \<times> u8 list \<times> u8 list \<times> z_inflate) option"
where
  "uncompress_loop fuel alloc left source out s =
     (let (left, source, s) = uncompress_refill left source s
      in case inflate fuel alloc Z_NO_FLUSH s of
           None \<Rightarrow> None
         | Some (err, s) \<Rightarrow>
             if err = Z_OK then uncompress_loop fuel alloc left source (out @ put s) s
             else Some (err, left, source, out @ put s, s))"

text \<open>The value, \<open>*destLen\<close>, \<open>*sourceLen\<close> and the bytes written to \<open>dest\<close>, which is the one-byte \<open>buf\<close> when
  \<open>*destLen\<close> is 0 at entry.\<close>

definition uncompress2 ::
  "nat \<Rightarrow> bool \<Rightarrow> nat \<Rightarrow> u8 list \<Rightarrow> z_inflate \<Rightarrow> (int \<times> u64 \<times> nat \<times> u8 list) option"
where
  "uncompress2 fuel alloc destLen source s =
     (let to_buf = (destLen = 0);
          left = (if to_buf then 1 else destLen)
      in case inflateInit alloc (Some ZLIB_VERSION) sizeof_z_stream (s\<lparr>next_in := []\<rparr>) of (err, s) \<Rightarrow>
           if err \<noteq> Z_OK then Some (err, 0, length source, [])
           else
             (case uncompress_loop fuel alloc left source [] (s\<lparr>avail_out := 0\<rparr>) of
                None \<Rightarrow> None
              | Some (err, left, rest, out, s) \<Rightarrow>
                  (let left = (if to_buf \<and> total_out s \<noteq> 0 \<and> err = Z_BUF_ERROR then 1 else left)
                   in Some
                        (if err = Z_STREAM_END then Z_OK
                         else if err = Z_NEED_DICT then Z_DATA_ERROR
                         else if err = Z_BUF_ERROR \<and> left + avail_out s \<noteq> 0 then Z_DATA_ERROR
                         else err,
                         if to_buf then 0 else total_out s,
                         length source - (length rest + length (next_in s)),
                         if to_buf then [] else out))))"

definition uncompress :: "nat \<Rightarrow> bool \<Rightarrow> nat \<Rightarrow> u8 list \<Rightarrow> z_inflate \<Rightarrow> (int \<times> u64 \<times> u8 list) option" where
  "uncompress fuel alloc destLen source s =
     (case uncompress2 fuel alloc destLen source s of
        None \<Rightarrow> None
      | Some (err, destLen, sourceLen, out) \<Rightarrow> Some (err, destLen, out))"

end
