(* ===== verification/Gz_State.thy ===== *)
theory Gz_State
  imports Compress "HOL-Library.Monad_Syntax"
begin

text \<open>
  The state of a gzip file, \<open>src/src/zlib/gzguts.h\<close>, and the operations of \<open>gzlib.c\<close>: opening, seeking and the error
  state.  The operating system is a parameter: a record of answers, each of which may depend on all the calls made for
  this file before, which the state logs (oldest first).  \<open>os_memory\<close> is what the
  bytes of fresh memory are.  A read gives at most as many bytes as it is asked for, \<open>None\<close>
  for failure; the other calls give their value.  Buffers are the bytes that matter in them: \<open>x_data\<close> is what
  \<open>x.next\<close> points to, \<open>x.have\<close> bytes long, when reading.  The system is one with \<open>O_CLOEXEC\<close>, \<open>O_EXCL\<close> and
  64-bit offsets, so the functions with and without \<open>64\<close> in their names are the same.
\<close>

section \<open>The operating system\<close>

datatype oflag = O_LARGEFILE | O_CLOEXEC | O_RDONLY | O_WRONLY | O_CREAT | O_EXCL | O_TRUNC | O_APPEND

datatype whence = SEEK_SET | SEEK_CUR | SEEK_END

datatype os_call = Os_open string "oflag list" | Os_lseek int whence | Os_read nat | Os_write "u8 list" | Os_close |
  Os_malloc nat | Os_zalloc

record gz_os =
  os_open :: "os_call list \<Rightarrow> string \<Rightarrow> oflag list \<Rightarrow> int"
  os_lseek :: "os_call list \<Rightarrow> int \<Rightarrow> whence \<Rightarrow> int"
  os_read :: "os_call list \<Rightarrow> nat \<Rightarrow> u8 list option"
  os_write :: "os_call list \<Rightarrow> u8 list \<Rightarrow> int"
  os_close :: "os_call list \<Rightarrow> int"
  os_malloc :: "os_call list \<Rightarrow> nat \<Rightarrow> bool"
  os_memory :: "os_call list \<Rightarrow> nat \<Rightarrow> u8 list"
  os_zalloc :: "os_call list \<Rightarrow> bool"
  os_arrays :: "os_call list \<Rightarrow> nat \<Rightarrow> nat \<Rightarrow> nat \<Rightarrow> buffers option"
  os_strerror :: "os_call list \<Rightarrow> string"

section \<open>The state\<close>

datatype gz_mode = GZ_NONE | GZ_READ | GZ_WRITE | GZ_APPEND

datatype gz_how = LOOK | COPY_raw | GZIP

definition GZBUFSIZE :: nat where "GZBUFSIZE = 8192"
definition Z_ERRNO :: int where "Z_ERRNO = -1"

text \<open>\<open>strm\<close> is \<open>g_inf\<close> when reading and \<open>g_def\<close> when writing.  \<open>in_off\<close> is \<open>strm.next_in - in\<close> when writing,
  \<open>None\<close> while \<open>next_in\<close> points into the buffer of the caller, and \<open>x_off\<close> is \<open>x.next - out\<close>.  \<open>in_mem\<close> is what
  \<open>malloc()\<close> left in \<open>in\<close>, as far as \<open>gz_zero\<close> has not cleared it: only \<open>gz_zero\<close> reads bytes of \<open>in\<close> that no
  other function has put there.\<close>

record gz_state =
  x_data :: "u8 list"
  x_off :: nat
  x_pos :: int
  g_mode :: gz_mode
  g_fd :: int
  g_path :: string
  g_size :: nat
  g_want :: nat
  in_off :: "nat option"
  in_mem :: "u8 list"
  g_direct :: bool
  g_how :: gz_how
  g_start :: int
  g_eof :: bool
  g_past :: bool
  g_level :: int
  g_strategy :: int
  g_skip :: int
  g_seek :: bool
  g_err :: int
  g_msg :: "string option"
  g_inf :: z_inflate
  g_def :: deflate_state
  g_log :: "os_call list"

definition logged :: "os_call \<Rightarrow> gz_state \<Rightarrow> gz_state" where
  "logged c s = s\<lparr>g_log := g_log s @ [c]\<rparr>"

definition gz_malloc :: "gz_os \<Rightarrow> nat \<Rightarrow> gz_state \<Rightarrow> bool \<times> gz_state" where
  "gz_malloc os n s = (os_malloc os (g_log s) n, logged (Os_malloc n) s)"

definition gz_zalloc :: "gz_os \<Rightarrow> gz_state \<Rightarrow> bool \<times> gz_state" where
  "gz_zalloc os s = (os_zalloc os (g_log s), logged Os_zalloc s)"

definition LSEEK :: "gz_os \<Rightarrow> int \<Rightarrow> whence \<Rightarrow> gz_state \<Rightarrow> int \<times> gz_state" where
  "LSEEK os offset wh s = (os_lseek os (g_log s) offset wh, logged (Os_lseek offset wh) s)"

text \<open>\<open>strm.avail_in\<close>.\<close>

definition g_avail_in :: "gz_state \<Rightarrow> nat" where
  "g_avail_in s = (if g_mode s = GZ_READ then length (next_in (g_inf s)) else length (strm_next_in (g_def s)))"

definition no_input :: "gz_state \<Rightarrow> gz_state" where
  "no_input s =
     (if g_mode s = GZ_READ then s\<lparr>g_inf := (g_inf s)\<lparr>next_in := []\<rparr>\<rparr>
      else s\<lparr>g_def := (g_def s)\<lparr>strm_next_in := []\<rparr>\<rparr>)"

section \<open>Errors\<close>

definition gz_error :: "gz_os \<Rightarrow> int \<Rightarrow> string option \<Rightarrow> gz_state \<Rightarrow> gz_state" where
  "gz_error os err m s =
     (let s = s\<lparr>g_msg := None\<rparr>;
          s = (if err \<noteq> Z_OK \<and> err \<noteq> Z_BUF_ERROR then s\<lparr>x_data := []\<rparr> else s);
          s = s\<lparr>g_err := err\<rparr>
      in case m of
           None \<Rightarrow> s
         | Some m \<Rightarrow>
             if err = Z_MEM_ERROR then s
             else
               (let (ok, s) = gz_malloc os (length (g_path s) + length m + 3) s
                in if \<not> ok then s\<lparr>g_err := Z_MEM_ERROR\<rparr> else s\<lparr>g_msg := Some (g_path s @ '': '' @ m)\<rparr>))"

text \<open>\<open>state->err != Z_OK && state->err != Z_BUF_ERROR\<close> is False.\<close>

definition no_fatal :: "gz_state \<Rightarrow> bool" where
  "no_fatal s \<longleftrightarrow> g_err s = Z_OK \<or> g_err s = Z_BUF_ERROR"

definition gz_reset :: "gz_os \<Rightarrow> gz_state \<Rightarrow> gz_state" where
  "gz_reset os s =
     (let s = s\<lparr>x_data := []\<rparr>;
          s = (if g_mode s = GZ_READ then s\<lparr>g_eof := False, g_past := False, g_how := LOOK\<rparr> else s);
          s = gz_error os Z_OK None (s\<lparr>g_seek := False\<rparr>)
      in no_input (s\<lparr>x_pos := 0\<rparr>))"

section \<open>Opening\<close>

text \<open>The loop over the mode: \<open>None\<close> for the early return, otherwise the state, \<open>cloexec\<close> and \<open>exclusive\<close>.\<close>

definition mode_char :: "char \<Rightarrow> gz_state \<times> bool \<times> bool \<Rightarrow> (gz_state \<times> bool \<times> bool) option" where
  "mode_char c r =
     (let (s, cloexec, exclusive) = r
      in if 48 \<le> (of_char c :: nat) \<and> (of_char c :: nat) \<le> 57 then Some (s\<lparr>g_level := int (of_char c) - 48\<rparr>, cloexec, exclusive)
         else if c = CHR ''r'' then Some (s\<lparr>g_mode := GZ_READ\<rparr>, cloexec, exclusive)
         else if c = CHR ''w'' then Some (s\<lparr>g_mode := GZ_WRITE\<rparr>, cloexec, exclusive)
         else if c = CHR ''a'' then Some (s\<lparr>g_mode := GZ_APPEND\<rparr>, cloexec, exclusive)
         else if c = CHR ''+'' then None
         else if c = CHR ''e'' then Some (s, True, exclusive)
         else if c = CHR ''x'' then Some (s, cloexec, True)
         else if c = CHR ''f'' then Some (s\<lparr>g_strategy := Z_FILTERED\<rparr>, cloexec, exclusive)
         else if c = CHR ''h'' then Some (s\<lparr>g_strategy := Z_HUFFMAN_ONLY\<rparr>, cloexec, exclusive)
         else if c = CHR ''R'' then Some (s\<lparr>g_strategy := Z_RLE\<rparr>, cloexec, exclusive)
         else if c = CHR ''F'' then Some (s\<lparr>g_strategy := Z_FIXED\<rparr>, cloexec, exclusive)
         else if c = CHR ''T'' then Some (s\<lparr>g_direct := True\<rparr>, cloexec, exclusive)
         else Some (s, cloexec, exclusive))"

fun mode_loop :: "string \<Rightarrow> gz_state \<times> bool \<times> bool \<Rightarrow> (gz_state \<times> bool \<times> bool) option" where
  "mode_loop [] r = Some r"
| "mode_loop (c # cs) r = (case mode_char c r of None \<Rightarrow> None | Some r \<Rightarrow> mode_loop cs r)"

definition open_flags :: "gz_mode \<Rightarrow> bool \<Rightarrow> bool \<Rightarrow> oflag list" where
  "open_flags mode cloexec exclusive =
     [O_LARGEFILE] @ (if cloexec then [O_CLOEXEC] else []) @
     (if mode = GZ_READ then [O_RDONLY]
      else [O_WRONLY, O_CREAT] @ (if exclusive then [O_EXCL] else []) @ (if mode = GZ_WRITE then [O_TRUNC] else [O_APPEND]))"

text \<open>The part after the file is open; \<open>fd\<close> is the argument, \<open>-1\<close> to open \<open>path\<close>.  \<open>s\<close> is fresh memory, and the
  result is \<open>NULL\<close> or the new state.\<close>

definition gz_start :: "gz_os \<Rightarrow> gz_state \<Rightarrow> gz_state" where
  "gz_start os s =
     (let s = (if g_mode s = GZ_APPEND then (snd (LSEEK os 0 SEEK_END s))\<lparr>g_mode := GZ_WRITE\<rparr> else s);
          s = (if g_mode s = GZ_READ then
                 (let (start, s) = LSEEK os 0 SEEK_CUR s in s\<lparr>g_start := (if start = -1 then 0 else start)\<rparr>)
               else s)
      in gz_reset os s)"

definition gz_open :: "gz_os \<Rightarrow> string option \<Rightarrow> int \<Rightarrow> string \<Rightarrow> bool \<Rightarrow> gz_state \<Rightarrow> gz_state option" where
  "gz_open os path fd mode alloc_state s =
     (case path of
        None \<Rightarrow> None
      | Some path \<Rightarrow>
          if \<not> alloc_state then None
          else
            (case mode_loop mode (s\<lparr>g_size := 0, g_want := GZBUFSIZE, g_msg := None, g_mode := GZ_NONE,
                    g_level := Z_DEFAULT_COMPRESSION, g_strategy := Z_DEFAULT_STRATEGY, g_direct := False\<rparr>, False, False) of
               None \<Rightarrow> None
             | Some (s, cloexec, exclusive) \<Rightarrow>
                 if g_mode s = GZ_NONE \<or> g_mode s = GZ_READ \<and> g_direct s then None
                 else
                   (let s = (if g_mode s = GZ_READ then s\<lparr>g_direct := True\<rparr> else s);
                        (ok, s) = gz_malloc os (length path + 1) s
                    in if \<not> ok then None
                       else
                         (let s = s\<lparr>g_path := path\<rparr>;
                              flags = open_flags (g_mode s) cloexec exclusive;
                              (fd, s) = (if fd > -1 then (fd, s)
                                         else (os_open os (g_log s) path flags, logged (Os_open path flags) s))
                          in if fd = -1 then None else Some (gz_start os (s\<lparr>g_fd := fd\<rparr>))))))"

definition gzopen :: "gz_os \<Rightarrow> string option \<Rightarrow> string \<Rightarrow> bool \<Rightarrow> gz_state \<Rightarrow> gz_state option" where
  "gzopen os path mode alloc_state s = gz_open os path (-1) mode alloc_state s"

text \<open>The decimal digits of \<open>fd\<close> are \<open>digits\<close>.\<close>

definition gzdopen :: "gz_os \<Rightarrow> int \<Rightarrow> string \<Rightarrow> string \<Rightarrow> bool \<Rightarrow> bool \<Rightarrow> gz_state \<Rightarrow> gz_state option" where
  "gzdopen os fd digits mode alloc_path alloc_state s =
     (if fd = -1 \<or> \<not> alloc_path then None
      else gz_open os (Some (''<fd:'' @ digits @ ''>'')) fd mode alloc_state s)"

definition gzbuffer :: "nat \<Rightarrow> gz_state \<Rightarrow> int \<times> gz_state" where
  "gzbuffer n s =
     (if g_mode s \<noteq> GZ_READ \<and> g_mode s \<noteq> GZ_WRITE then (-1, s)
      else if g_size s \<noteq> 0 then (-1, s)
      else if n * 2 mod 2 ^ 32 < n then (-1, s)
      else (0, s\<lparr>g_want := (if n < 2 then 2 else n)\<rparr>))"

section \<open>Positions\<close>

definition gzrewind :: "gz_os \<Rightarrow> gz_state \<Rightarrow> int \<times> gz_state" where
  "gzrewind os s =
     (if g_mode s \<noteq> GZ_READ \<or> \<not> no_fatal s then (-1, s)
      else
        (let (r, s) = LSEEK os (g_start s) SEEK_SET s
         in if r = -1 then (-1, s) else (0, gz_reset os s)))"

text \<open>Skipping what is in the output buffer, and the request for the rest.\<close>

definition seek_request :: "int \<Rightarrow> gz_state \<Rightarrow> int \<times> gz_state" where
  "seek_request offset s =
     (let (offset, s) =
        (if g_mode s = GZ_READ then
           (let n = (if int (length (x_data s)) > offset then nat offset else length (x_data s))
            in (offset - int n, s\<lparr>x_data := drop n (x_data s), x_pos := x_pos s + int n\<rparr>))
         else (offset, s));
          s = (if offset \<noteq> 0 then s\<lparr>g_seek := True, g_skip := offset\<rparr> else s)
      in (x_pos s + offset, s))"

definition gzseek :: "gz_os \<Rightarrow> int \<Rightarrow> whence \<Rightarrow> gz_state \<Rightarrow> int \<times> gz_state" where
  "gzseek os offset wh s =
     (if g_mode s \<noteq> GZ_READ \<and> g_mode s \<noteq> GZ_WRITE then (-1, s)
      else if \<not> no_fatal s then (-1, s)
      else if wh \<noteq> SEEK_SET \<and> wh \<noteq> SEEK_CUR then (-1, s)
      else
        (let offset = (if wh = SEEK_SET then offset - x_pos s else if g_seek s then offset + g_skip s else offset);
             s = s\<lparr>g_seek := False\<rparr>
         in if g_mode s = GZ_READ \<and> g_how s = COPY_raw \<and> x_pos s + offset \<ge> 0 then
              (let (ret, s) = LSEEK os (offset - int (length (x_data s))) SEEK_CUR s
               in if ret = -1 then (-1, s)
                  else
                    (let s = gz_error os Z_OK None (s\<lparr>x_data := [], g_eof := False, g_past := False, g_seek := False\<rparr>);
                         s = no_input s;
                         s = s\<lparr>x_pos := x_pos s + offset\<rparr>
                     in (x_pos s, s)))
            else if offset < 0 then
              (if g_mode s \<noteq> GZ_READ then (-1, s)
               else if offset + x_pos s < 0 then (-1, s)
               else
                 (let target = offset + x_pos s; (r, s) = gzrewind os s
                  in if r = -1 then (-1, s) else seek_request target s))
            else seek_request offset s))"

definition gztell :: "gz_state \<Rightarrow> int" where
  "gztell s =
     (if g_mode s \<noteq> GZ_READ \<and> g_mode s \<noteq> GZ_WRITE then -1 else x_pos s + (if g_seek s then g_skip s else 0))"

definition gzoffset :: "gz_os \<Rightarrow> gz_state \<Rightarrow> int \<times> gz_state" where
  "gzoffset os s =
     (if g_mode s \<noteq> GZ_READ \<and> g_mode s \<noteq> GZ_WRITE then (-1, s)
      else
        (let (offset, s) = LSEEK os 0 SEEK_CUR s
         in if offset = -1 then (-1, s)
            else (if g_mode s = GZ_READ then offset - int (g_avail_in s) else offset, s)))"

section \<open>End of file and errors\<close>

definition gzeof :: "gz_state \<Rightarrow> bool" where
  "gzeof s = (if g_mode s \<noteq> GZ_READ \<and> g_mode s \<noteq> GZ_WRITE then False else if g_mode s = GZ_READ then g_past s else False)"

definition gzerror :: "gz_state \<Rightarrow> (string \<times> int) option" where
  "gzerror s =
     (if g_mode s \<noteq> GZ_READ \<and> g_mode s \<noteq> GZ_WRITE then None
      else Some (if g_err s = Z_MEM_ERROR then ''out of memory'' else (case g_msg s of None \<Rightarrow> '''' | Some m \<Rightarrow> m), g_err s))"

definition gzclearerr :: "gz_os \<Rightarrow> gz_state \<Rightarrow> gz_state" where
  "gzclearerr os s =
     (if g_mode s \<noteq> GZ_READ \<and> g_mode s \<noteq> GZ_WRITE then s
      else
        (let s = (if g_mode s = GZ_READ then s\<lparr>g_eof := False, g_past := False\<rparr> else s)
         in gz_error os Z_OK None s))"

section \<open>Facts\<close>

text \<open>What leaves \<open>x.pos\<close> as it is.\<close>

named_theorems gz_pos

lemma logged_pos [gz_pos]: "x_pos (logged c s) = x_pos s"
  by (simp add: logged_def)

lemma gz_error_pos [gz_pos]: "x_pos (gz_error os err m s) = x_pos s"
  by (simp add: gz_error_def gz_malloc_def logged_def Let_def split: option.splits)

text \<open>The position, the mode and the request for a seek.\<close>

definition place :: "gz_state \<Rightarrow> int \<times> gz_mode \<times> bool \<times> int" where
  "place s = (x_pos s, g_mode s, g_seek s, g_skip s)"

lemma place_update [simp]:
  "place (s\<lparr>g_def := d\<rparr>) = place s" "place (s\<lparr>in_off := n\<rparr>) = place s" "place (s\<lparr>x_off := k\<rparr>) = place s"
  "place (s\<lparr>in_mem := m\<rparr>) = place s" "place (s\<lparr>g_size := k\<rparr>) = place s"
  by (simp_all add: place_def)

lemma place_kept [gz_pos]: "place (logged c s) = place s" "place (gz_error os err m s) = place s"
  by (simp_all add: place_def gz_error_def gz_malloc_def logged_def Let_def split: option.splits)

text \<open>A fatal error empties the output buffer, and one that is not leaves it.\<close>

lemma gz_error_data:
  "x_data (gz_error os err m s) = (if err = Z_OK \<or> err = Z_BUF_ERROR then x_data s else [])"
  by (simp add: gz_error_def gz_malloc_def logged_def Let_def split: option.splits)

lemma gz_error_err:
  "g_err (gz_error os err m s) = err \<or> g_err (gz_error os err m s) = Z_MEM_ERROR \<and> m \<noteq> None"
  by (simp add: gz_error_def gz_malloc_def logged_def Let_def split: option.splits)

text \<open>After a seek that succeeds \<open>gztell()\<close> answers with the value of \<open>gzseek()\<close>.\<close>

lemma seek_request_tell:
  assumes "g_mode s = GZ_READ \<or> g_mode s = GZ_WRITE" "\<not> g_seek s" "seek_request offset s = (r, t)"
  shows "gztell t = r"
  using assms by (auto simp: seek_request_def gztell_def Let_def split: if_splits)

end
