(* ===== verification/Gz_Read.thy ===== *)
theory Gz_Read
  imports Gz_State
begin

text \<open>
  Reading gzip files, \<open>src/src/zlib/gzread.c\<close>.  \<open>None\<close> is a call that does not return, or one that needs more turns of
  \<open>inflate()\<close> than \<open>fuel\<close>.  A function that the code makes return \<open>-1\<close> or \<open>0\<close> gives that number with the new state.
  \<open>os_zalloc\<close> answers for the window that \<open>inflate()\<close> may have to allocate.
\<close>

section \<open>Loading\<close>

text \<open>The loop of \<open>gz_load\<close>: the last value of \<open>read()\<close> (1 for any positive one) and the bytes loaded.\<close>

function load_loop :: "gz_os \<Rightarrow> nat \<Rightarrow> u8 list \<Rightarrow> gz_state \<Rightarrow> int \<times> u8 list \<times> gz_state" where
  "load_loop os len got s =
     (let get = min (len - length got) (2 ^ 30);
          ans = os_read os (g_log s) get;
          s = logged (Os_read get) s
      in case ans of
           None \<Rightarrow> (-1, got, s)
         | Some bs \<Rightarrow>
             if take get bs = [] then (0, got, s)
             else if length (got @ take get bs) < len then load_loop os len (got @ take get bs) s
             else (1, got @ take get bs, s))"
  by pat_completeness auto
termination
proof (relation "measure (\<lambda>(os, len, got, s). len - length got)", goal_cases)
  case 1
  show ?case by simp
next
  case (2 os len got s get ans s' bs)
  define n where "n = length (take get bs)"
  have "0 < n" "length got + n < len" using 2 by (simp_all add: n_def)
  moreover have "length (got @ take get bs) = length got + n" by (simp add: n_def)
  ultimately show ?case by (simp del: length_append length_take)
qed

declare load_loop.simps [simp del]

definition gz_load :: "gz_os \<Rightarrow> nat \<Rightarrow> gz_state \<Rightarrow> int \<times> u8 list \<times> gz_state" where
  "gz_load os len s =
     (let (ret, got, s) = load_loop os len [] s
      in if ret < 0 then (-1, got, gz_error os Z_ERRNO (Some (os_strerror os (g_log s))) s)
         else (0, got, if ret = 0 then s\<lparr>g_eof := True\<rparr> else s))"

definition add_input :: "u8 list \<Rightarrow> gz_state \<Rightarrow> gz_state" where
  "add_input bs s = s\<lparr>g_inf := (g_inf s)\<lparr>next_in := next_in (g_inf s) @ bs\<rparr>\<rparr>"

definition gz_avail :: "gz_os \<Rightarrow> gz_state \<Rightarrow> int \<times> gz_state" where
  "gz_avail os s =
     (if \<not> no_fatal s then (-1, s)
      else if \<not> g_eof s then
        (let (r, got, s) = gz_load os (g_size s - length (next_in (g_inf s))) s
         in if r = -1 then (-1, s) else (0, add_input got s))
      else (0, s))"

section \<open>The header\<close>

definition out_of_memory :: "gz_os \<Rightarrow> gz_state \<Rightarrow> int \<times> gz_state" where
  "out_of_memory os s = (-1, gz_error os Z_MEM_ERROR (Some ''out of memory'') s)"

text \<open>\<open>gunzip\<close>: 15 bits of window and 16 for gzip decoding.\<close>

definition look_alloc :: "gz_os \<Rightarrow> gz_state \<Rightarrow> int \<times> gz_state" where
  "look_alloc os s =
     (if g_size s = 0 then
        (let (ok1, s) = gz_malloc os (g_want s) s;
             (ok2, s) = gz_malloc os (g_want s * 2) s
         in if \<not> ok1 \<or> \<not> ok2 then out_of_memory os s
            else
              (let s = s\<lparr>g_size := g_want s, g_inf := (g_inf s)\<lparr>next_in := []\<rparr>\<rparr>;
                   (ok, s) = gz_zalloc os s;
                   (ret, z) = inflateInit2 ok (15 + 16) (Some ZLIB_VERSION) sizeof_z_stream (g_inf s);
                   s = s\<lparr>g_inf := z\<rparr>
               in if ret \<noteq> Z_OK then out_of_memory os (s\<lparr>g_size := 0\<rparr>) else (0, s)))
      else (0, s))"

definition gz_look :: "gz_os \<Rightarrow> gz_state \<Rightarrow> int \<times> gz_state" where
  "gz_look os s =
     (case look_alloc os s of (r, s) \<Rightarrow>
        if r = -1 then (-1, s)
        else
          (case (if length (next_in (g_inf s)) < 2 then gz_avail os s else (0, s)) of (r, s) \<Rightarrow>
             if r = -1 then (-1, s)
             else
               (let inp = next_in (g_inf s)
                in if inp = [] then (0, s)
                   else if length inp > 1 \<and> inp ! 0 = 31 \<and> inp ! 1 = 139 then
                     (0, s\<lparr>g_inf := snd (inflateReset (g_inf s)), g_how := GZIP, g_direct := False\<rparr>)
                   else if \<not> g_direct s then
                     (0, s\<lparr>g_inf := (g_inf s)\<lparr>next_in := []\<rparr>, g_eof := True, x_data := []\<rparr>)
                   else
                     (0, s\<lparr>x_data := inp, g_inf := (g_inf s)\<lparr>next_in := []\<rparr>, g_how := COPY_raw, g_direct := True\<rparr>))))"

section \<open>Decompression\<close>

text \<open>The loop of \<open>gz_decomp\<close>: \<open>Inl\<close> for a return of \<open>-1\<close>, otherwise \<open>ret\<close> and the output.\<close>

partial_function (option) decomp_loop ::
  "gz_os \<Rightarrow> nat \<Rightarrow> int \<Rightarrow> u8 list \<Rightarrow> gz_state \<Rightarrow> (gz_state + int \<times> u8 list \<times> gz_state) option"
where
  "decomp_loop os fuel ret out s =
     (let (r, s) = (if next_in (g_inf s) = [] then gz_avail os s else (0, s))
      in if r = -1 then Some (Inl s)
         else if next_in (g_inf s) = [] then
           Some (Inr (ret, out, gz_error os Z_BUF_ERROR (Some ''unexpected end of file'') s))
         else
           (case inflate fuel (os_zalloc os (g_log s)) Z_NO_FLUSH (g_inf s) of
              None \<Rightarrow> None
            | Some (ret, z) \<Rightarrow>
                let s = s\<lparr>g_inf := z\<rparr>
                in if ret = Z_STREAM_ERROR \<or> ret = Z_NEED_DICT then
                     Some (Inl (gz_error os Z_STREAM_ERROR (Some ''internal error: inflate stream corrupt'') s))
                   else if ret = Z_MEM_ERROR then Some (Inl (snd (out_of_memory os s)))
                   else if ret = Z_DATA_ERROR then
                     Some (Inl (gz_error os Z_DATA_ERROR
                       (Some (case msg z of None \<Rightarrow> ''compressed data error'' | Some m \<Rightarrow> m)) s))
                   else if avail_out z \<noteq> 0 \<and> ret \<noteq> Z_STREAM_END then decomp_loop os fuel ret (out @ put z) s
                   else Some (Inr (ret, out @ put z, s))))"

text \<open>With room for \<open>room\<close> bytes in \<open>avail_out\<close>.\<close>

definition gz_decomp :: "gz_os \<Rightarrow> nat \<Rightarrow> nat \<Rightarrow> gz_state \<Rightarrow> (int \<times> gz_state) option" where
  "gz_decomp os fuel room s =
     do { r \<leftarrow> decomp_loop os fuel Z_OK [] (s\<lparr>g_inf := (g_inf s)\<lparr>avail_out := room\<rparr>\<rparr>);
          Some (case r of
                  Inl s \<Rightarrow> (-1, s)
                | Inr (ret, out, s) \<Rightarrow> (0, s\<lparr>x_data := out, g_how := (if ret = Z_STREAM_END then LOOK else g_how s)\<rparr>)) }"

text \<open>One turn of \<open>gz_fetch\<close>; the flag says that the condition of the loop decides.\<close>

definition fetch_turn :: "gz_os \<Rightarrow> nat \<Rightarrow> gz_state \<Rightarrow> (bool \<times> int \<times> gz_state) option" where
  "fetch_turn os fuel s =
     (case g_how s of
        LOOK \<Rightarrow>
          (let (r, s) = gz_look os s
           in Some (if r = -1 then (False, -1, s) else if g_how s = LOOK then (False, 0, s) else (True, 0, s)))
      | COPY_raw \<Rightarrow>
          (let (r, got, s) = gz_load os (g_size s * 2) s
           in Some (if r = -1 then (False, -1, s) else (False, 0, s\<lparr>x_data := got\<rparr>)))
      | GZIP \<Rightarrow>
          do { (r, s) \<leftarrow> gz_decomp os fuel (g_size s * 2) s;
               Some (if r = -1 then (False, -1, s) else (True, 0, s)) })"

partial_function (option) gz_fetch :: "gz_os \<Rightarrow> nat \<Rightarrow> gz_state \<Rightarrow> (int \<times> gz_state) option" where
  "gz_fetch os fuel s =
     do { (cond, r, s) \<leftarrow> fetch_turn os fuel s;
          if cond \<and> x_data s = [] \<and> (\<not> g_eof s \<or> next_in (g_inf s) \<noteq> []) then gz_fetch os fuel s else Some (r, s) }"

text \<open>Delivering \<open>n\<close> bytes of the output buffer.\<close>

definition take_out :: "nat \<Rightarrow> gz_state \<Rightarrow> gz_state" where
  "take_out n s = s\<lparr>x_data := drop n (x_data s), x_pos := x_pos s + int n\<rparr>"

definition at_eof :: "gz_state \<Rightarrow> bool" where
  "at_eof s \<longleftrightarrow> g_eof s \<and> next_in (g_inf s) = []"

partial_function (option) gz_skip :: "gz_os \<Rightarrow> nat \<Rightarrow> nat \<Rightarrow> gz_state \<Rightarrow> (int \<times> gz_state) option" where
  "gz_skip os fuel len s =
     (if len = 0 then Some (0, s)
      else if x_data s \<noteq> [] then
        (let n = (if length (x_data s) > len then len else length (x_data s)) in gz_skip os fuel (len - n) (take_out n s))
      else if at_eof s then Some (0, s)
      else
        do { (r, s) \<leftarrow> gz_fetch os fuel s;
             if r = -1 then Some (-1, s) else gz_skip os fuel len s })"

text \<open>\<open>if (state->seek) { state->seek = 0; if (gz_skip(state, state->skip) == -1) ... }\<close>\<close>

definition do_seek :: "gz_os \<Rightarrow> nat \<Rightarrow> gz_state \<Rightarrow> (int \<times> gz_state) option" where
  "do_seek os fuel s = (if g_seek s then gz_skip os fuel (nat (g_skip s)) (s\<lparr>g_seek := False\<rparr>) else Some (0, s))"

section \<open>Reading\<close>

text \<open>The loop of \<open>gz_read\<close>: the value, what has been put in the buffer, and the state.\<close>

partial_function (option) read_loop :: "gz_os \<Rightarrow> nat \<Rightarrow> nat \<Rightarrow> u8 list \<Rightarrow> gz_state \<Rightarrow> (nat \<times> u8 list \<times> gz_state) option" where
  "read_loop os fuel len got s =
     (let n = (if len < 2 ^ 32 - 1 then len else 2 ^ 32 - 1)
      in if x_data s \<noteq> [] then
           (let n = (if length (x_data s) < n then length (x_data s) else n);
                got = got @ take n (x_data s);
                s = take_out n s
            in if len - n \<noteq> 0 then read_loop os fuel (len - n) got s else Some (length got, got, s))
         else if at_eof s then Some (length got, got, s\<lparr>g_past := True\<rparr>)
         else if g_how s = LOOK \<or> n < g_size s * 2 then
           do { (r, s) \<leftarrow> gz_fetch os fuel s;
                if r = -1 then Some (0, got, s) else read_loop os fuel len got s }
         else if g_how s = COPY_raw then
           (let (r, bs, s) = gz_load os n s
            in if r = -1 then Some (0, got @ bs, s)
               else
                 (let s = s\<lparr>x_pos := x_pos s + int (length bs)\<rparr>
                  in if len - length bs \<noteq> 0 then read_loop os fuel (len - length bs) (got @ bs) s
                     else Some (length (got @ bs), got @ bs, s)))
         else
           do { (r, s) \<leftarrow> gz_decomp os fuel n s;
                if r = -1 then Some (0, got, s)
                else
                  (let bs = x_data s;
                       s = s\<lparr>x_data := [], x_pos := x_pos s + int (length bs)\<rparr>
                   in if len - length bs \<noteq> 0 then read_loop os fuel (len - length bs) (got @ bs) s
                      else Some (length (got @ bs), got @ bs, s)) })"

definition gz_read :: "gz_os \<Rightarrow> nat \<Rightarrow> nat \<Rightarrow> gz_state \<Rightarrow> (nat \<times> u8 list \<times> gz_state) option" where
  "gz_read os fuel len s =
     (if len = 0 then Some (0, [], s)
      else
        do { (r, s) \<leftarrow> do_seek os fuel s;
             if r = -1 then Some (0, [], s) else read_loop os fuel len [] s })"

definition may_read :: "gz_state \<Rightarrow> bool" where
  "may_read s \<longleftrightarrow> g_mode s = GZ_READ \<and> no_fatal s"

definition gzread :: "gz_os \<Rightarrow> nat \<Rightarrow> nat \<Rightarrow> gz_state \<Rightarrow> (int \<times> u8 list \<times> gz_state) option" where
  "gzread os fuel len s =
     (if \<not> may_read s then Some (-1, [], s)
      else if len \<ge> 2 ^ 31 then
        Some (-1, [], gz_error os Z_STREAM_ERROR (Some ''request does not fit in an int'') s)
      else
        do { (n, got, s) \<leftarrow> gz_read os fuel len s;
             Some (if n = 0 \<and> \<not> no_fatal s then -1 else int n, got, s) })"

definition gzfread :: "gz_os \<Rightarrow> nat \<Rightarrow> u64 \<Rightarrow> u64 \<Rightarrow> gz_state \<Rightarrow> (u64 \<times> u8 list \<times> gz_state) option" where
  "gzfread os fuel sz nitems s =
     (if \<not> may_read s then Some (0, [], s)
      else
        (let len = nitems * sz
         in if sz \<noteq> 0 \<and> len div sz \<noteq> nitems then
              Some (0, [], gz_error os Z_STREAM_ERROR (Some ''request does not fit in a size_t'') s)
            else if len \<noteq> 0 then
              do { (n, got, s) \<leftarrow> gz_read os fuel (unat len) s; Some (word_of_nat n div sz, got, s) }
            else Some (0, [], s)))"

definition gzgetc :: "gz_os \<Rightarrow> nat \<Rightarrow> gz_state \<Rightarrow> (int \<times> gz_state) option" where
  "gzgetc os fuel s =
     (if \<not> may_read s then Some (-1, s)
      else if x_data s \<noteq> [] then Some (int (unat (hd (x_data s))), take_out 1 s)
      else
        do { (n, got, s) \<leftarrow> gz_read os fuel 1 s;
             Some (if n < 1 then -1 else int (unat (got ! 0)), s) })"

text \<open>Pushing a byte back.  Right after \<open>gzopen\<close> there is no output buffer yet: the code then stores through a pointer
  that has not been set.  Where in the buffer the bytes are does not show.\<close>

datatype 'a gz_call = Value 'a gz_state | Wild_write

definition push_back :: "int \<Rightarrow> gz_state \<Rightarrow> gz_state" where
  "push_back c s = s\<lparr>x_data := word_of_int c # x_data s, x_pos := x_pos s - 1, g_past := False\<rparr>"

definition gzungetc :: "gz_os \<Rightarrow> nat \<Rightarrow> int \<Rightarrow> gz_state \<Rightarrow> int gz_call option" where
  "gzungetc os fuel c s =
     (if \<not> may_read s then Some (Value (-1) s)
      else
        do { (r, s) \<leftarrow> do_seek os fuel s;
             Some (if r = -1 then Value (-1) s
                   else if c < 0 then Value (-1) s
                   else if x_data s = [] then (if g_size s = 0 then Wild_write else Value c (push_back c s))
                   else if length (x_data s) = g_size s * 2 then
                     Value (-1) (gz_error os Z_DATA_ERROR (Some ''out of room to push characters'') s)
                   else Value c (push_back c s)) })"

text \<open>The bytes before the terminating zero; \<open>None\<close> inside is \<open>NULL\<close>.\<close>

partial_function (option) gets_loop :: "gz_os \<Rightarrow> nat \<Rightarrow> nat \<Rightarrow> u8 list \<Rightarrow> gz_state \<Rightarrow> (u8 list option \<times> gz_state) option" where
  "gets_loop os fuel left buf s =
     do { (r, s) \<leftarrow> (if x_data s = [] then gz_fetch os fuel s else Some (0, s));
          if r = -1 then Some (None, s)
          else if x_data s = [] then Some (Some buf, s\<lparr>g_past := True\<rparr>)
          else
            (let n = (if length (x_data s) > left then left else length (x_data s));
                 line = takeWhile (\<lambda>b. b \<noteq> 10) (take n (x_data s));
                 eol = (length line < n);
                 n = (if eol then length line + 1 else n);
                 buf = buf @ take n (x_data s);
                 s = take_out n s
             in if left - n \<noteq> 0 \<and> \<not> eol then gets_loop os fuel (left - n) buf s else Some (Some buf, s)) }"

definition gzgets :: "gz_os \<Rightarrow> nat \<Rightarrow> int \<Rightarrow> gz_state \<Rightarrow> (u8 list option \<times> gz_state) option" where
  "gzgets os fuel len s =
     (if len < 1 \<or> \<not> may_read s then Some (None, s)
      else
        do { (r, s) \<leftarrow> do_seek os fuel s;
             if r = -1 then Some (None, s)
             else
               do { (buf, s) \<leftarrow> (if nat (len - 1) \<noteq> 0 then gets_loop os fuel (nat (len - 1)) [] s else Some (Some [], s));
                    Some (if buf = Some [] then None else buf, s) } })"

definition gzdirect :: "gz_os \<Rightarrow> gz_state \<Rightarrow> bool \<times> gz_state" where
  "gzdirect os s =
     (let s = (if g_mode s = GZ_READ \<and> g_how s = LOOK \<and> x_data s = [] then snd (gz_look os s) else s)
      in (g_direct s, s))"

text \<open>The state is freed; what is left of it is the log.\<close>

definition gzclose_r :: "gz_os \<Rightarrow> gz_state \<Rightarrow> int \<times> gz_state" where
  "gzclose_r os s =
     (if g_mode s \<noteq> GZ_READ then (Z_STREAM_ERROR, s)
      else
        (let s = (if g_size s \<noteq> 0 then s\<lparr>g_inf := snd (inflateEnd (g_inf s))\<rparr> else s);
             err = (if g_err s = Z_BUF_ERROR then Z_BUF_ERROR else Z_OK);
             s = gz_error os Z_OK None s;
             ret = os_close os (g_log s)
         in (if ret \<noteq> 0 then Z_ERRNO else err, logged Os_close s)))"

section \<open>Lengths and the position\<close>

lemma load_loop_length:
  "load_loop os len got s = (r, got', t) \<Longrightarrow> length got \<le> len \<Longrightarrow>
     length got' \<le> len \<and> x_pos t = x_pos s \<and> (r = -1 \<or> r = 0 \<or> r = 1 \<and> length got' = len)"
proof (induction os len got s arbitrary: r got' t rule: load_loop.induct)
  case (1 os len got s)
  define get where "get = min (len - length got) (2 ^ 30)"
  define bs where "bs = (case os_read os (g_log s) get of None \<Rightarrow> [] | Some bs \<Rightarrow> take get bs)"
  let ?s = "logged (Os_read get) s"
  have len: "length (got @ bs) \<le> len" using 1(3) by (auto simp: bs_def get_def split: option.split)
  have "(if os_read os (g_log s) get = None then (-1, got, ?s) else if bs = [] then (0, got, ?s)
      else if length (got @ bs) < len then load_loop os len (got @ bs) ?s else (1, got @ bs, ?s)) = (r, got', t)"
    using 1(2) unfolding load_loop.simps [of os len got s] Let_def get_def [symmetric] bs_def
    by (cases "os_read os (g_log s) get") (auto split: if_splits)
  moreover have "load_loop os len (got @ bs) ?s = (r, got', t) \<Longrightarrow> os_read os (g_log s) get \<noteq> None \<Longrightarrow> bs \<noteq> [] \<Longrightarrow>
      length (got @ bs) < len \<Longrightarrow> ?case"
    using 1(1) [OF get_def refl refl, where r = r and got' = got' and t = t] len
    by (auto simp: bs_def gz_pos split: option.splits)
  ultimately show ?case using 1(3) len by (auto simp: gz_pos split: if_splits)
qed

text \<open>\<open>gz_load\<close> never loads more than it is asked for, and less only at the end of the file.\<close>

lemma gz_load_length:
  assumes "gz_load os len s = (r, got, t)"
  shows "length got \<le> len" "x_pos t = x_pos s" "r = 0 \<and> length got < len \<Longrightarrow> g_eof t"
proof -
  obtain x u where u: "load_loop os len [] s = (x, got, u)"
    using assms by (auto simp: gz_load_def Let_def split: prod.splits if_splits)
  note l = load_loop_length [OF u]
  show "length got \<le> len" "x_pos t = x_pos s"
    using l assms u by (auto simp: gz_load_def gz_pos split: if_splits)
  show "g_eof t" if "r = 0 \<and> length got < len"
  proof -
    have "x = 0" using l assms u that by (auto simp: gz_load_def split: if_splits)
    then show ?thesis using assms u by (auto simp: gz_load_def)
  qed
qed

text \<open>Filling the output buffer does not move the position.\<close>

lemma gz_avail_pos: "gz_avail os s = (r, t) \<Longrightarrow> x_pos t = x_pos s"
  by (auto simp: gz_avail_def add_input_def Let_def dest: gz_load_length(2) split: if_splits prod.splits)

lemma look_alloc_pos: "look_alloc os s = (r, t) \<Longrightarrow> x_pos t = x_pos s"
  by (auto simp: look_alloc_def out_of_memory_def gz_malloc_def gz_zalloc_def Let_def gz_pos
      split: if_splits prod.splits)

lemma gz_look_pos:
  assumes "gz_look os s = (r, t)"
  shows "x_pos t = x_pos s"
proof -
  obtain q u where u: "look_alloc os s = (q, u)" by fastforce
  obtain p v where v: "(if length (next_in (g_inf u)) < 2 then gz_avail os u else (0, u)) = (p, v)" by fastforce
  have "x_pos u = x_pos s" using u by (rule look_alloc_pos)
  moreover have "x_pos v = x_pos u" using v gz_avail_pos [of os u p v] by (auto split: if_splits)
  ultimately show ?thesis using assms u v by (auto simp: gz_look_def Let_def split: if_splits)
qed

definition same_pos :: "int \<Rightarrow> gz_state + int \<times> u8 list \<times> gz_state \<Rightarrow> bool" where
  "same_pos p y = (case y of Inl s \<Rightarrow> x_pos s = p | Inr (_, _, s) \<Rightarrow> x_pos s = p)"

lemma decomp_loop_pos:
  assumes "decomp_loop os fuel ret out s = Some y"
  shows "same_pos (x_pos s) y"
proof (rule decomp_loop.raw_induct [where P = "\<lambda>os fuel ret out s y. same_pos (x_pos s) y", OF _ assms], goal_cases)
  case (1 f os fuel ret out s y)
  obtain r u where u: "(if next_in (g_inf s) = [] then gz_avail os s else (0, s)) = (r, u)" by fastforce
  have pos: "x_pos u = x_pos s" using u gz_avail_pos [of os s r u] by (auto split: if_splits)
  show ?case
  proof (cases "r = -1 \<or> next_in (g_inf u) = []")
    case True
    then show ?thesis using 1(2) u pos by (auto simp: same_pos_def Let_def gz_pos split: if_splits)
  next
    case False
    then obtain q z where z: "inflate fuel (os_zalloc os (g_log u)) Z_NO_FLUSH (g_inf u) = Some (q, z)"
      using 1(2) u by (auto simp: Let_def split: option.splits)
    show ?thesis
      using 1(2) False u z pos 1(1) [of os fuel q "out @ put z" "u\<lparr>g_inf := z\<rparr>" y]
      by (auto simp: same_pos_def Let_def out_of_memory_def gz_pos split: if_splits)
  qed
qed

lemma gz_decomp_pos:
  assumes "gz_decomp os fuel room s = Some (r, t)"
  shows "x_pos t = x_pos s"
proof -
  obtain y where y: "decomp_loop os fuel Z_OK [] (s\<lparr>g_inf := (g_inf s)\<lparr>avail_out := room\<rparr>\<rparr>) = Some y"
    using assms by (auto simp: gz_decomp_def bind_eq_Some_conv)
  show ?thesis
    using assms y decomp_loop_pos [OF y] by (cases y) (auto simp: gz_decomp_def same_pos_def)
qed

lemma fetch_turn_pos: "fetch_turn os fuel s = Some (b, r, t) \<Longrightarrow> x_pos t = x_pos s"
  by (auto simp: fetch_turn_def Let_def bind_eq_Some_conv
      dest: gz_look_pos gz_load_length(2) gz_decomp_pos split: gz_how.splits prod.splits if_splits)

lemma gz_fetch_pos:
  assumes "gz_fetch os fuel s = Some y"
  shows "x_pos (snd y) = x_pos s"
proof (rule gz_fetch.raw_induct [where P = "\<lambda>os fuel s y. x_pos (snd y) = x_pos s", OF _ assms], goal_cases)
  case (1 f os fuel s y)
  then obtain b r t where t: "fetch_turn os fuel s = Some (b, r, t)" by (auto simp: bind_eq_Some_conv)
  with 1 fetch_turn_pos [OF t] show ?case by (auto split: if_splits)
qed

text \<open>What \<open>gz_read\<close> gives is counted by \<open>x.pos\<close>.\<close>

abbreviation counted :: "gz_state \<Rightarrow> u8 list \<Rightarrow> nat \<times> u8 list \<times> gz_state \<Rightarrow> bool" where
  "counted s got y \<equiv> fst y \<noteq> 0 \<longrightarrow> fst y = length (fst (snd y)) \<and>
     x_pos (snd (snd y)) + int (length got) = x_pos s + int (length (fst (snd y)))"

lemma read_loop_pos:
  assumes "read_loop os fuel len got s = Some y"
  shows "counted s got y"
proof (rule read_loop.raw_induct [where P = "\<lambda>os fuel len got s y. counted s got y", OF _ assms], goal_cases)
  case (1 f os fuel len got s y)
  note IH = 1(1) and body = 1(2)
  define n where "n = (if len < 2 ^ 32 - 1 then len else 2 ^ 32 - 1)"
  consider (out) "x_data s \<noteq> []" | (eof) "x_data s = []" "at_eof s"
    | (fetch) "x_data s = []" "\<not> at_eof s" "g_how s = LOOK \<or> n < g_size s * 2"
    | (copy) "x_data s = []" "\<not> at_eof s" "\<not> (g_how s = LOOK \<or> n < g_size s * 2)" "g_how s = COPY_raw"
    | (gzip) "x_data s = []" "\<not> at_eof s" "\<not> (g_how s = LOOK \<or> n < g_size s * 2)" "g_how s \<noteq> COPY_raw"
    by blast
  then show ?case
  proof cases
    case out
    define m where "m = (if length (x_data s) < n then length (x_data s) else n)"
    have m: "length (take m (x_data s)) = m" by (simp add: m_def)
    show ?thesis
      using body out IH [of os fuel "len - m" "got @ take m (x_data s)" "take_out m s" y] m
      unfolding n_def [symmetric] Let_def m_def [symmetric] by (auto simp: take_out_def split: if_splits)
  next
    case eof
    then show ?thesis using body by auto
  next
    case fetch
    then obtain r t where t: "gz_fetch os fuel s = Some (r, t)"
      "(if r = -1 then Some (0, got, t) else f os fuel len got t) = Some y"
      using body unfolding n_def [symmetric] by (auto simp: bind_eq_Some_conv Let_def simp del: split_paired_Ex)
    then show ?thesis using IH [of os fuel len got t y] gz_fetch_pos [OF t(1)] by (auto split: if_splits)
  next
    case copy
    obtain r bs t where t: "gz_load os n s = (r, bs, t)" by (cases "gz_load os n s")
    show ?thesis
      using body copy t gz_load_length(2) [OF t]
        IH [of os fuel "len - length bs" "got @ bs" "t\<lparr>x_pos := x_pos t + int (length bs)\<rparr>" y]
      unfolding n_def [symmetric] by (auto simp: Let_def split: if_splits)
  next
    case gzip
    then obtain r t where t: "gz_decomp os fuel n s = Some (r, t)"
      using body unfolding n_def [symmetric] by (auto simp: bind_eq_Some_conv Let_def simp del: split_paired_Ex)
    show ?thesis
      using body gzip t gz_decomp_pos [OF t]
        IH [of os fuel "len - length (x_data t)" "got @ x_data t"
          "t\<lparr>x_data := [], x_pos := x_pos t + int (length (x_data t))\<rparr>" y]
      unfolding n_def [symmetric] by (auto simp: Let_def split: if_splits)
  qed
qed

lemma gz_read_pos:
  assumes "gz_read os fuel len s = Some (n, got, t)" "n \<noteq> 0" "\<not> g_seek s"
  shows "n = length got \<and> x_pos t = x_pos s + int n"
proof -
  have "read_loop os fuel len [] s = Some (n, got, t)"
    using assms by (auto simp: gz_read_def do_seek_def split: if_splits)
  from read_loop_pos [OF this] assms(2) show ?thesis by simp
qed

end
