(* ===== verification/Gz_Write.thy ===== *)
theory Gz_Write
  imports Gz_Read
begin

text \<open>
  Writing gzip files, \<open>src/src/zlib/gzwrite.c\<close>, and \<open>gzclose.c\<close>.  \<open>None\<close> is a call that does not return, because
  \<open>write()\<close> goes on taking nothing, or one that subtracts pointers into different buffers.  \<open>strm_out\<close> of the
  compressor is what has been put in \<open>out\<close> since \<open>next_out\<close> was last set to its start.  A buffer of the caller is the
  list of its bytes.
\<close>

section \<open>The stream\<close>

text \<open>\<open>gzip\<close>: 15 bits of window and 16 for the gzip wrapper.\<close>

definition init_deflate :: "gz_os \<Rightarrow> gz_state \<Rightarrow> int \<times> gz_state" where
  "init_deflate os s =
     (let (ok, s) = gz_malloc os (g_want s) s
      in if \<not> ok then out_of_memory os s
         else
           (let arrays = os_arrays os (g_log s);
                (ok, s) = gz_zalloc os s;
                (ret, d) = deflateInit2 ok arrays (g_level s) (int Z_DEFLATED) (MAX_WBITS + 16) DEF_MEM_LEVEL (g_strategy s)
                             (Some ZLIB_VERSION) sizeof_z_stream (g_def s);
                s = s\<lparr>g_def := d\<rparr>
            in if ret \<noteq> Z_OK then out_of_memory os s else (0, s)))"

definition fresh_out :: "gz_state \<Rightarrow> gz_state" where
  "fresh_out s = s\<lparr>g_def := (g_def s)\<lparr>strm_avail_out := g_size s, strm_out := []\<rparr>, x_off := 0\<rparr>"

definition gz_init :: "gz_os \<Rightarrow> gz_state \<Rightarrow> int \<times> gz_state" where
  "gz_init os s =
     (let mem = os_memory os (g_log s) (g_want s * 2);
          (ok, s) = gz_malloc os (g_want s * 2) s
      in if \<not> ok then out_of_memory os s
         else
           (case (if \<not> g_direct s then init_deflate os s else (0, s)) of (r, s) \<Rightarrow>
              if r = -1 then (-1, s)
              else
                (let s = s\<lparr>in_mem := mem, g_size := g_want s\<rparr>
                 in (0, if \<not> g_direct s then fresh_out s else s))))"

text \<open>\<open>next_in\<close> and \<open>avail_in\<close> after \<open>n\<close> bytes.\<close>

definition advance :: "nat \<Rightarrow> gz_state \<Rightarrow> gz_state" where
  "advance n s =
     s\<lparr>g_def := (g_def s)\<lparr>strm_next_in := drop n (strm_next_in (g_def s))\<rparr>,
       in_off := map_option (\<lambda>off. off + n) (in_off s)\<rparr>"

definition write_error :: "gz_os \<Rightarrow> gz_state \<Rightarrow> int \<times> gz_state" where
  "write_error os s = (-1, gz_error os Z_ERRNO (Some (os_strerror os (g_log s))) s)"

text \<open>The two loops over \<open>write()\<close>: the input of a file that is not compressed, and the output buffer.\<close>

partial_function (option) direct_loop :: "gz_os \<Rightarrow> gz_state \<Rightarrow> (int \<times> gz_state) option" where
  "direct_loop os s =
     (let put = take (2 ^ 30) (strm_next_in (g_def s))
      in if put = [] then Some (0, s)
         else
           (let writ = os_write os (g_log s) put; s = logged (Os_write put) s
            in if writ < 0 then Some (write_error os s) else direct_loop os (advance (nat writ) s)))"

partial_function (option) out_loop :: "gz_os \<Rightarrow> gz_state \<Rightarrow> (int \<times> gz_state) option" where
  "out_loop os s =
     (let put = take (2 ^ 30) (drop (x_off s) (strm_out (g_def s)))
      in if put = [] then Some (0, s)
         else
           (let writ = os_write os (g_log s) put; s = logged (Os_write put) s
            in if writ < 0 then Some (write_error os s) else out_loop os (s\<lparr>x_off := x_off s + nat writ\<rparr>)))"

definition empty_out :: "gz_os \<Rightarrow> int \<Rightarrow> int \<Rightarrow> gz_state \<Rightarrow> (int \<times> gz_state) option" where
  "empty_out os flush ret s =
     (if strm_avail_out (g_def s) = 0 \<or> (flush \<noteq> Z_NO_FLUSH \<and> (flush \<noteq> Z_FINISH \<or> ret = Z_STREAM_END)) then
        do { (r, s) \<leftarrow> out_loop os s;
             Some (if r = -1 then (-1, s) else (0, if strm_avail_out (g_def s) = 0 then fresh_out s else s)) }
      else Some (0, s))"

partial_function (option) comp_loop :: "gz_os \<Rightarrow> int \<Rightarrow> int \<Rightarrow> gz_state \<Rightarrow> (int \<times> gz_state) option" where
  "comp_loop os flush ret s =
     do { (r, s) \<leftarrow> empty_out os flush ret s;
          if r = -1 then Some (-1, s)
          else
            (let have = strm_avail_out (g_def s);
                 avail = length (strm_next_in (g_def s));
                 (ret, d) = deflate flush (g_def s);
                 s = s\<lparr>g_def := d, in_off := map_option (\<lambda>off. off + (avail - length (strm_next_in d))) (in_off s)\<rparr>
             in if ret = Z_STREAM_ERROR then
                  Some (-1, gz_error os Z_STREAM_ERROR (Some ''internal error: deflate stream corrupt'') s)
                else if have - strm_avail_out d \<noteq> 0 then comp_loop os flush ret s
                else Some (0, s)) }"

definition gz_comp :: "gz_os \<Rightarrow> int \<Rightarrow> gz_state \<Rightarrow> (int \<times> gz_state) option" where
  "gz_comp os flush s =
     (case (if g_size s = 0 then gz_init os s else (0, s)) of (r, s) \<Rightarrow>
        if r = -1 then Some (-1, s)
        else if g_direct s then direct_loop os s
        else
          do { (r, s) \<leftarrow> comp_loop os flush Z_OK s;
               Some (if r = -1 then (-1, s)
                     else (0, if flush = Z_FINISH then s\<lparr>g_def := snd (deflateReset (g_def s))\<rparr> else s)) })"

section \<open>Zeros for a seek\<close>

text \<open>\<open>avail_in\<close> set to \<open>n\<close>, with \<open>src\<close> at \<open>next_in\<close>.\<close>

definition set_input :: "nat \<Rightarrow> u8 list \<Rightarrow> nat option \<Rightarrow> gz_state \<Rightarrow> gz_state" where
  "set_input n src off s =
     s\<lparr>g_def := (g_def s)\<lparr>strm_next_in := take n src\<rparr>, in_off := off, x_pos := x_pos s + int n\<rparr>"

text \<open>The code clears the first \<open>n\<close> bytes of \<open>in\<close> in the first turn only.  When nothing has been written yet that turn
  is one with \<open>n = 0\<close>, and it is \<open>gz_comp\<close> that then allocates \<open>in\<close>.\<close>

partial_function (option) zero_loop :: "gz_os \<Rightarrow> bool \<Rightarrow> int \<Rightarrow> gz_state \<Rightarrow> (int \<times> gz_state) option" where
  "zero_loop os first len s =
     (if len = 0 then Some (0, s)
      else
        (let n = (if int (g_size s) > len then nat len else g_size s);
             s = (if first then s\<lparr>in_mem := replicate n 0 @ drop n (in_mem s)\<rparr> else s)
         in do { (r, s) \<leftarrow> gz_comp os Z_NO_FLUSH (set_input n (in_mem s) (Some 0) s);
                 if r = -1 then Some (-1, s) else zero_loop os False (len - int n) s }))"

text \<open>\<open>if (strm->avail_in && gz_comp(state, flush) == -1)\<close>\<close>

definition use_input :: "gz_os \<Rightarrow> int \<Rightarrow> gz_state \<Rightarrow> (int \<times> gz_state) option" where
  "use_input os flush s = (if strm_next_in (g_def s) \<noteq> [] then gz_comp os flush s else Some (0, s))"

definition gz_zero :: "gz_os \<Rightarrow> int \<Rightarrow> gz_state \<Rightarrow> (int \<times> gz_state) option" where
  "gz_zero os len s =
     do { (r, s) \<leftarrow> use_input os Z_NO_FLUSH s;
          if r = -1 then Some (-1, s) else zero_loop os True len s }"

text \<open>\<open>if (state->seek) { state->seek = 0; if (gz_zero(state, state->skip) == -1) ... }\<close>\<close>

definition do_zero :: "gz_os \<Rightarrow> gz_state \<Rightarrow> (int \<times> gz_state) option" where
  "do_zero os s = (if g_seek s then gz_zero os (g_skip s) (s\<lparr>g_seek := False\<rparr>) else Some (0, s))"

section \<open>Writing\<close>

text \<open>\<open>if (avail_in == 0) next_in = in\<close>, and \<open>next_in + avail_in - in\<close>.\<close>

definition input_start :: "gz_state \<Rightarrow> gz_state" where
  "input_start s = (if strm_next_in (g_def s) = [] then s\<lparr>in_off := Some 0\<rparr> else s)"

definition input_have :: "gz_state \<Rightarrow> nat option" where
  "input_have s = map_option (\<lambda>off. off + length (strm_next_in (g_def s))) (in_off s)"

text \<open>Bytes put in \<open>in\<close> behind the others.\<close>

definition add_bytes :: "u8 list \<Rightarrow> gz_state \<Rightarrow> gz_state" where
  "add_bytes bs s =
     s\<lparr>g_def := (g_def s)\<lparr>strm_next_in := strm_next_in (g_def s) @ bs\<rparr>, x_pos := x_pos s + int (length bs)\<rparr>"

text \<open>The value is 0 for an early return and 1 otherwise.\<close>

partial_function (option) buffer_loop :: "gz_os \<Rightarrow> u8 list \<Rightarrow> gz_state \<Rightarrow> (nat \<times> gz_state) option" where
  "buffer_loop os buf s =
     do { let s = input_start s;
          have \<leftarrow> input_have s;
          let copy = (if g_size s - have > length buf then length buf else g_size s - have);
          let s = add_bytes (take copy buf) s;
          let buf = drop copy buf;
          if buf = [] then Some (1, s)
          else
            do { (r, s) \<leftarrow> gz_comp os Z_NO_FLUSH s;
                 if r = -1 then Some (0, s) else buffer_loop os buf s } }"

text \<open>\<open>src\<close> is what \<open>next_in\<close> points to, \<open>len\<close> what is left to do.\<close>

partial_function (option) large_loop :: "gz_os \<Rightarrow> u8 list \<Rightarrow> nat \<Rightarrow> gz_state \<Rightarrow> (nat \<times> gz_state) option" where
  "large_loop os src len s =
     (let n = (if 2 ^ 32 - 1 > len then len else 2 ^ 32 - 1)
      in do { (r, s) \<leftarrow> gz_comp os Z_NO_FLUSH (set_input n src None s);
              if r = -1 then Some (0, s)
              else if len - n \<noteq> 0 then large_loop os (drop (n - length (strm_next_in (g_def s))) src) (len - n) s
              else Some (1, s) })"

definition write_input :: "gz_os \<Rightarrow> u8 list \<Rightarrow> gz_state \<Rightarrow> (nat \<times> gz_state) option" where
  "write_input os buf s =
     (if length buf < g_size s then buffer_loop os buf s
      else
        do { (r, s) \<leftarrow> use_input os Z_NO_FLUSH s;
             if r = -1 then Some (0, s) else large_loop os buf (length buf) s })"

definition gz_write :: "gz_os \<Rightarrow> u8 list \<Rightarrow> gz_state \<Rightarrow> (nat \<times> gz_state) option" where
  "gz_write os buf s =
     (if buf = [] then Some (0, s)
      else
        (case (if g_size s = 0 then gz_init os s else (0, s)) of (r, s) \<Rightarrow>
           if r = -1 then Some (0, s)
           else
             do { (r, s) \<leftarrow> do_zero os s;
                  if r = -1 then Some (0, s)
                  else
                    do { (fin, s) \<leftarrow> write_input os buf s; Some (if fin = 0 then 0 else length buf, s) } }))"

definition may_write :: "gz_state \<Rightarrow> bool" where
  "may_write s \<longleftrightarrow> g_mode s = GZ_WRITE \<and> g_err s = Z_OK"

definition gzwrite :: "gz_os \<Rightarrow> u8 list \<Rightarrow> gz_state \<Rightarrow> (int \<times> gz_state) option" where
  "gzwrite os buf s =
     (if \<not> may_write s then Some (0, s)
      else if length buf \<ge> 2 ^ 31 then
        Some (0, gz_error os Z_DATA_ERROR (Some ''requested length does not fit in int'') s)
      else do { (n, s) \<leftarrow> gz_write os buf s; Some (int n, s) })"

text \<open>\<open>data\<close> is the memory at \<open>buf\<close>.\<close>

definition gzfwrite :: "gz_os \<Rightarrow> u8 list \<Rightarrow> u64 \<Rightarrow> u64 \<Rightarrow> gz_state \<Rightarrow> (u64 \<times> gz_state) option" where
  "gzfwrite os data sz nitems s =
     (if \<not> may_write s then Some (0, s)
      else
        (let len = nitems * sz
         in if sz \<noteq> 0 \<and> len div sz \<noteq> nitems then
              Some (0, gz_error os Z_STREAM_ERROR (Some ''request does not fit in a size_t'') s)
            else if len \<noteq> 0 then
              do { (n, s) \<leftarrow> gz_write os (take (unat len) data) s; Some (word_of_nat n div sz, s) }
            else Some (0, s)))"

definition gzputc :: "gz_os \<Rightarrow> int \<Rightarrow> gz_state \<Rightarrow> (int \<times> gz_state) option" where
  "gzputc os c s =
     (if \<not> may_write s then Some (-1, s)
      else
        do { (r, s) \<leftarrow> do_zero os s;
             if r = -1 then Some (-1, s)
             else
               do { let s = (if g_size s \<noteq> 0 then input_start s else s);
                    have \<leftarrow> (if g_size s \<noteq> 0 then input_have s else Some 0);
                    if g_size s \<noteq> 0 \<and> have < g_size s then Some (c mod 256, add_bytes [word_of_int c] s)
                    else
                      do { (n, s) \<leftarrow> gz_write os [word_of_int c] s;
                           Some (if n \<noteq> 1 then -1 else c mod 256, s) } } })"

text \<open>The value of \<open>gz_write()\<close> is converted to \<open>int\<close>.\<close>

definition gzputs :: "gz_os \<Rightarrow> u8 list \<Rightarrow> gz_state \<Rightarrow> (int \<times> gz_state) option" where
  "gzputs os str s =
     (if \<not> may_write s then Some (-1, s)
      else
        do { (n, s) \<leftarrow> gz_write os str s;
             let ret = sint (word_of_nat n :: u32);
             Some (if ret = 0 \<and> length str \<noteq> 0 then -1 else ret, s) })"

text \<open>\<open>text\<close> is what \<open>vsnprintf()\<close> makes of the format and its arguments, without the terminating zero, and \<open>None\<close> when
  it fails.  A text that fits leaves the last byte of its space 0.\<close>

definition gzvprintf :: "gz_os \<Rightarrow> u8 list option \<Rightarrow> gz_state \<Rightarrow> (int \<times> gz_state) option" where
  "gzvprintf os text s =
     (if \<not> may_write s then Some (Z_STREAM_ERROR, s)
      else
        (case (if g_size s = 0 then gz_init os s else (0, s)) of (r, s) \<Rightarrow>
           if r = -1 then Some (g_err s, s)
           else
             do { (r, s) \<leftarrow> do_zero os s;
                  if r = -1 then Some (g_err s, s)
                  else
                    do { let s = input_start s;
                         off \<leftarrow> in_off s;
                         case text of
                           None \<Rightarrow> Some (0, s)
                         | Some bs \<Rightarrow>
                             if bs = [] \<or> length bs \<ge> g_size s then Some (0, s)
                             else
                               (let s = add_bytes bs s; inp = strm_next_in (g_def s)
                                in if length inp \<ge> g_size s then
                                     (let left = length inp - g_size s
                                      in do { (r, s) \<leftarrow> gz_comp os Z_NO_FLUSH
                                                (s\<lparr>g_def := (g_def s)\<lparr>strm_next_in := take (g_size s) inp\<rparr>\<rparr>);
                                              Some (if r = -1 then (g_err s, s)
                                                    else (int (length bs),
                                                      s\<lparr>g_def := (g_def s)
                                                          \<lparr>strm_next_in := take left (drop (g_size s - off) inp)\<rparr>,
                                                        in_off := Some 0\<rparr>)) })
                                   else Some (int (length bs), s)) } }))"

definition gzflush :: "gz_os \<Rightarrow> int \<Rightarrow> gz_state \<Rightarrow> (int \<times> gz_state) option" where
  "gzflush os flush s =
     (if \<not> may_write s then Some (Z_STREAM_ERROR, s)
      else if flush < 0 \<or> flush > Z_FINISH then Some (Z_STREAM_ERROR, s)
      else
        do { (r, s) \<leftarrow> do_zero os s;
             if r = -1 then Some (g_err s, s)
             else do { (_, s) \<leftarrow> gz_comp os flush s; Some (g_err s, s) } })"

definition gzsetparams :: "gz_os \<Rightarrow> int \<Rightarrow> int \<Rightarrow> gz_state \<Rightarrow> (int \<times> gz_state) option" where
  "gzsetparams os lev strat s =
     (if \<not> may_write s then Some (Z_STREAM_ERROR, s)
      else if lev = g_level s \<and> strat = g_strategy s then Some (Z_OK, s)
      else
        do { (r, s) \<leftarrow> do_zero os s;
             if r = -1 then Some (g_err s, s)
             else
               do { (r, s) \<leftarrow> (if g_size s \<noteq> 0 then use_input os Z_BLOCK s else Some (0, s));
                    if r = -1 then Some (g_err s, s)
                    else
                      (let avail = length (strm_next_in (g_def s));
                           s = (if g_size s \<noteq> 0 then
                                  (let d = snd (deflateParams lev strat (g_def s))
                                   in s\<lparr>g_def := d,
                                        in_off := map_option (\<lambda>off. off + (avail - length (strm_next_in d))) (in_off s)\<rparr>)
                                else s)
                       in Some (Z_OK, s\<lparr>g_level := lev, g_strategy := strat\<rparr>)) } })"

section \<open>Closing\<close>

text \<open>The state is freed; what is left of it is the log.\<close>

definition gzclose_w :: "gz_os \<Rightarrow> gz_state \<Rightarrow> (int \<times> gz_state) option" where
  "gzclose_w os s =
     (if g_mode s \<noteq> GZ_WRITE then Some (Z_STREAM_ERROR, s)
      else
        do { (r, s) \<leftarrow> do_zero os s;
             let ret = (if r = -1 then g_err s else Z_OK);
             (r, s) \<leftarrow> gz_comp os Z_FINISH s;
             let ret = (if r = -1 then g_err s else ret);
             let s = (if g_size s \<noteq> 0 \<and> \<not> g_direct s then s\<lparr>g_def := snd (deflateEnd (g_def s))\<rparr> else s);
             let s = gz_error os Z_OK None s;
             Some (if os_close os (g_log s) = -1 then Z_ERRNO else ret, logged Os_close s) })"

definition gzclose :: "gz_os \<Rightarrow> gz_state \<Rightarrow> (int \<times> gz_state) option" where
  "gzclose os s = (if g_mode s = GZ_READ then Some (gzclose_r os s) else gzclose_w os s)"


section \<open>The position\<close>

text \<open>\<open>x.pos\<close> counts the bytes given to the file: compressing and writing them out does not move it, and a call that
  takes all of a buffer moves it by the length of the buffer.  The mode stays, and the request for a seek until it is met.\<close>

lemma step_pos [gz_pos]: "place (snd (write_error os s)) = place s" "place (advance n s) = place s" "place (fresh_out s) = place s"
  by (simp_all add: write_error_def advance_def fresh_out_def gz_pos)

lemma init_deflate_pos [gz_pos]: "place (snd (init_deflate os s)) = place s"
  by (simp add: init_deflate_def out_of_memory_def gz_malloc_def gz_zalloc_def Let_def gz_pos split: prod.split)

lemma gz_init_pos: "place (snd (gz_init os s)) = place s"
proof -
  have "place t = place s" if "init_deflate os (logged (Os_malloc (g_want s * 2)) s) = (r, t)" for r t
    using init_deflate_pos [of os "logged (Os_malloc (g_want s * 2)) s"] that by (simp add: gz_pos)
  then show ?thesis
    by (simp add: gz_init_def out_of_memory_def gz_malloc_def Let_def gz_pos split: prod.split)
qed

lemma direct_loop_pos:
  assumes "direct_loop os s = Some y"
  shows "place (snd y) = place s"
proof (rule direct_loop.raw_induct [where P = "\<lambda>os s y. place (snd y) = place s", OF _ assms], goal_cases)
  case (1 f os s y)
  then show ?case by (auto simp: Let_def gz_pos split: if_splits)
qed

lemma out_loop_pos:
  assumes "out_loop os s = Some y"
  shows "place (snd y) = place s"
proof (rule out_loop.raw_induct [where P = "\<lambda>os s y. place (snd y) = place s", OF _ assms], goal_cases)
  case (1 f os s y)
  then show ?case by (auto simp: Let_def gz_pos split: if_splits)
qed

lemma empty_out_pos:
  assumes "empty_out os flush ret s = Some y"
  shows "place (snd y) = place s"
  using assms out_loop_pos by (fastforce simp: empty_out_def gz_pos bind_eq_Some_conv split: if_splits)

lemma comp_loop_pos:
  assumes "comp_loop os flush ret s = Some y"
  shows "place (snd y) = place s"
proof (rule comp_loop.raw_induct [where P = "\<lambda>os flush ret s y. place (snd y) = place s", OF _ assms], goal_cases)
  case (1 f os flush ret s y)
  then obtain r t where e: "empty_out os flush ret s = Some (r, t)" by (auto simp: bind_eq_Some_conv)
  obtain ret' d where "deflate flush (g_def t) = (ret', d)" by (cases "deflate flush (g_def t)")
  with 1 e empty_out_pos [OF e] show ?case by (auto simp: Let_def gz_pos split: if_splits)
qed

lemma gz_comp_pos:
  assumes "gz_comp os flush s = Some y"
  shows "place (snd y) = place s"
proof -
  obtain r t where t: "(if g_size s = 0 then gz_init os s else (0, s)) = (r, t)" by fastforce
  have pos: "place t = place s" using gz_init_pos [of os s] t by (auto split: if_splits)
  consider "r = -1" | "r \<noteq> -1" "g_direct t" | "r \<noteq> -1" "\<not> g_direct t" by blast
  then show ?thesis
  proof cases
    case 1
    then show ?thesis using assms t pos by (auto simp: gz_comp_def)
  next
    case 2
    then have "direct_loop os t = Some y" using assms t by (simp add: gz_comp_def)
    then show ?thesis using direct_loop_pos pos by simp
  next
    case 3
    then obtain r' u where u: "comp_loop os flush Z_OK t = Some (r', u)" "place (snd y) = place u"
      using assms t unfolding gz_comp_def by (auto simp: bind_eq_Some_conv simp del: split_paired_Ex)
    then show ?thesis using comp_loop_pos [OF u(1)] pos by simp
  qed
qed

lemma use_input_pos:
  "use_input os flush s = Some y \<Longrightarrow> place (snd y) = place s"
  by (auto simp: use_input_def dest: gz_comp_pos split: if_splits)

lemma zero_loop_pos:
  assumes "zero_loop os first len s = Some y" "0 \<le> len" "fst y = 0"
  shows "place (snd y) = (x_pos s + len, g_mode s, g_seek s, g_skip s)"
proof -
  have "0 \<le> len \<longrightarrow> fst y = 0 \<longrightarrow>
      place (snd y) = (x_pos s + len, g_mode s, g_seek s, g_skip s)"
  proof (rule zero_loop.raw_induct [where P = "\<lambda>os first len s y. 0 \<le> len \<longrightarrow> fst y = 0 \<longrightarrow>
      place (snd y) = (x_pos s + len, g_mode s, g_seek s, g_skip s)", OF _ assms(1)], goal_cases)
    case (1 f os first len s y)
    show ?case
    proof (cases "len = 0")
      case True
      then show ?thesis using 1(2) by (auto simp: place_def)
    next
      case False
      define n where "n = (if int (g_size s) > len then nat len else g_size s)"
      define u where "u = (if first then s\<lparr>in_mem := replicate n 0 @ drop n (in_mem s)\<rparr> else s)"
      obtain r t where t: "gz_comp os Z_NO_FLUSH (set_input n (in_mem u) (Some 0) u) = Some (r, t)"
        and rest: "(if r = -1 then Some (-1, t) else f os False (len - int n) t) = Some y"
        using 1(2) False unfolding n_def [symmetric] Let_def u_def [symmetric] by (auto simp: bind_eq_Some_conv)
      have "place t = (x_pos s + int n, g_mode s, g_seek s, g_skip s)" using gz_comp_pos [OF t] by (simp add: set_input_def u_def place_def)
      moreover have "0 \<le> len \<Longrightarrow> int n \<le> len" by (simp add: n_def)
      ultimately show ?thesis using rest 1(1) [of os False "len - int n" t y] by (auto simp: place_def split: if_splits)
    qed
  qed
  then show ?thesis using assms by blast
qed

lemma zero_loop_value:
  assumes "zero_loop os first len s = Some y"
  shows "fst y = -1 \<or> fst y = 0"
proof (rule zero_loop.raw_induct [where P = "\<lambda>os first len s y. fst y = -1 \<or> fst y = 0", OF _ assms], goal_cases)
  case (1 f os first len s y)
  have IH: "\<And>first len s y. f os first len s = Some y \<Longrightarrow> fst y = -1 \<or> fst y = 0" by (rule 1(1))
  from 1(2) show ?case by (auto simp: Let_def bind_eq_Some_conv dest: IH split: if_splits)
qed

lemma do_zero_value: "do_zero os s = Some (r, t) \<Longrightarrow> r \<noteq> -1 \<Longrightarrow> r = 0"
  by (auto simp: do_zero_def gz_zero_def bind_eq_Some_conv dest: zero_loop_value split: if_splits)

lemma do_zero_pos:
  assumes "do_zero os s = Some (0, t)" "g_seek s \<Longrightarrow> 0 \<le> g_skip s"
  shows "x_pos t = x_pos s + (if g_seek s then g_skip s else 0) \<and> g_mode t = g_mode s \<and> \<not> g_seek t"
proof (cases "g_seek s")
  case True
  then obtain r u where u: "use_input os Z_NO_FLUSH (s\<lparr>g_seek := False\<rparr>) = Some (r, u)"
    and z: "zero_loop os True (g_skip s) u = Some (0, t)"
    using assms(1) by (auto simp: do_zero_def gz_zero_def bind_eq_Some_conv split: if_splits)
  then show ?thesis using use_input_pos [OF u] zero_loop_pos [OF z] assms(2) True by (simp add: place_def)
qed (use assms(1) in \<open>simp add: do_zero_def\<close>)

lemma buffer_loop_pos:
  assumes "buffer_loop os buf s = Some y" "fst y \<noteq> 0"
  shows "place (snd y) = (x_pos s + int (length buf), g_mode s, g_seek s, g_skip s)"
proof -
  have "fst y \<noteq> 0 \<longrightarrow> place (snd y) = (x_pos s + int (length buf), g_mode s, g_seek s, g_skip s)"
  proof (rule buffer_loop.raw_induct [where P = "\<lambda>os buf s y. fst y \<noteq> 0 \<longrightarrow>
      place (snd y) = (x_pos s + int (length buf), g_mode s, g_seek s, g_skip s)", OF _ assms(1)], goal_cases)
    case (1 f os buf s y)
    then obtain have' where h: "input_have (input_start s) = Some have'" by (auto simp: bind_eq_Some_conv Let_def)
    define copy where "copy = (if g_size (input_start s) - have' > length buf then length buf
      else g_size (input_start s) - have')"
    define u where "u = add_bytes (take copy buf) (input_start s)"
    have c: "copy \<le> length buf" by (simp add: copy_def)
    have u: "place u = (x_pos s + int copy, g_mode s, g_seek s, g_skip s)" using c by (simp add: u_def add_bytes_def input_start_def place_def)
    have y: "(if drop copy buf = [] then Some (1, u)
        else do { (r, t) \<leftarrow> gz_comp os Z_NO_FLUSH u; if r = -1 then Some (0, t) else f os (drop copy buf) t }) = Some y"
      using 1(2) by (simp only: Let_def h Option.bind.bind_lunit copy_def u_def)
    show ?case
    proof (cases "drop copy buf = []")
      case True
      then show ?thesis using y u c by auto
    next
      case False
      then obtain r t where t: "gz_comp os Z_NO_FLUSH u = Some (r, t)"
        and rest: "(if r = -1 then Some (0, t) else f os (drop copy buf) t) = Some y"
        using y by (auto simp: bind_eq_Some_conv)
      then show ?thesis using 1(1) [of os "drop copy buf" t y] gz_comp_pos [OF t] u c by (auto simp: place_def split: if_splits)
    qed
  qed
  then show ?thesis using assms by blast
qed

lemma large_loop_pos:
  assumes "large_loop os src len s = Some y" "fst y \<noteq> 0"
  shows "place (snd y) = (x_pos s + int len, g_mode s, g_seek s, g_skip s)"
proof -
  have "fst y \<noteq> 0 \<longrightarrow> place (snd y) = (x_pos s + int len, g_mode s, g_seek s, g_skip s)"
  proof (rule large_loop.raw_induct [where P = "\<lambda>os src len s y. fst y \<noteq> 0 \<longrightarrow>
      place (snd y) = (x_pos s + int len, g_mode s, g_seek s, g_skip s)", OF _ assms(1)], goal_cases)
    case (1 f os src len s y)
    define n where "n = (if 2 ^ 32 - 1 > len then len else 2 ^ 32 - 1)"
    have n: "n \<le> len" by (simp add: n_def)
    obtain r t where t: "gz_comp os Z_NO_FLUSH (set_input n src None s) = Some (r, t)"
      and rest: "(if r = -1 then Some (0, t)
        else if len - n \<noteq> 0 then f os (drop (n - length (strm_next_in (g_def t))) src) (len - n) t else Some (1, t)) = Some y"
      using 1(2) unfolding n_def [symmetric] Let_def by (auto simp: bind_eq_Some_conv)
    have "place t = (x_pos s + int n, g_mode s, g_seek s, g_skip s)" using gz_comp_pos [OF t] by (simp add: set_input_def place_def)
    then show ?case
      using rest n 1(1) [of os "drop (n - length (strm_next_in (g_def t))) src" "len - n" t y] by (auto simp: place_def split: if_splits)
  qed
  then show ?thesis using assms by blast
qed

lemma write_input_pos:
  assumes "write_input os buf s = Some (n, t)" "n \<noteq> 0"
  shows "place t = (x_pos s + int (length buf), g_mode s, g_seek s, g_skip s)"
proof (cases "length buf < g_size s")
  case True
  then show ?thesis using buffer_loop_pos [of os buf s "(n, t)"] assms by (simp add: write_input_def)
next
  case False
  then obtain r u where u: "use_input os Z_NO_FLUSH s = Some (r, u)" "large_loop os buf (length buf) u = Some (n, t)"
    using assms by (auto simp: write_input_def bind_eq_Some_conv split: if_splits)
  then show ?thesis using use_input_pos [OF u(1)] large_loop_pos [OF u(2)] assms(2) by (simp add: place_def)
qed

text \<open>A call of \<open>gz_write\<close> that gives the length of its buffer has also done the zeros of a pending seek.\<close>

lemma gz_write_pos:
  assumes "gz_write os buf s = Some (n, t)" "n \<noteq> 0" "g_seek s \<Longrightarrow> 0 \<le> g_skip s"
  shows "n = length buf \<and> x_pos t = x_pos s + (if g_seek s then g_skip s else 0) + int n \<and>
    g_mode t = g_mode s \<and> \<not> g_seek t"
proof -
  have buf: "buf \<noteq> []" using assms(1,2) by (auto simp: gz_write_def)
  obtain q v where v: "(if g_size s = 0 then gz_init os s else (0, s)) = (q, v)" by fastforce
  have frame: "place v = place s" using v gz_init_pos [of os s] by (auto simp: place_def split: if_splits)
  have "q \<noteq> -1" using assms(1,2) buf v by (auto simp: gz_write_def)
  then have "do { (r, u) \<leftarrow> do_zero os v;
      if r = -1 then Some (0, u)
      else do { (fin, t) \<leftarrow> write_input os buf u; Some (if fin = 0 then 0 else length buf, t) } } = Some (n, t)"
    using assms(1) buf v by (simp add: gz_write_def)
  then obtain r u fin where u: "do_zero os v = Some (r, u)" "r \<noteq> -1" "write_input os buf u = Some (fin, t)"
    "n = (if fin = 0 then 0 else length buf)"
    using assms(2) by (auto simp: bind_eq_Some_conv split: if_splits)
  moreover have "r = 0" using u(1,2) by (rule do_zero_value)
  ultimately show ?thesis
    using do_zero_pos [of os v u] write_input_pos [OF u(3)] assms(2,3) frame by (auto simp: place_def split: if_splits)
qed

section \<open>A file that is not compressed\<close>

lemma direct_loop_empty: "strm_next_in (g_def s) = [] \<Longrightarrow> direct_loop os s = Some (0, s)"
  by (subst direct_loop.simps) simp

lemma direct_loop_all:
  assumes "\<And>log bs. os_write os log bs = int (length bs)" "strm_next_in (g_def s) \<noteq> []"
    "length (strm_next_in (g_def s)) \<le> 2 ^ 30"
  shows "direct_loop os s =
    Some (0, advance (length (strm_next_in (g_def s))) (logged (Os_write (strm_next_in (g_def s))) s))"
  using assms by (subst direct_loop.simps) (simp add: direct_loop_empty advance_def logged_def Let_def)

end
