(* ===== verification/Gz_Correct.thy ===== *)
theory Gz_Correct
  imports Gz_Write Deflate_Correct Inflate_Blocks
begin

text \<open>
  What writing to a gzip file counts, and what is written for a seek that comes before the first write, with concrete files
  that are not compressed.
\<close>

text \<open>C22: A call of \<open>gzwrite\<close> that does not give 0 gives the length of its buffer and moves what \<open>gztell\<close>
  answers, which includes a pending seek, by that length, and no seek is pending then; this holds for compressed files and
  files that are not, and whatever allocations and writes the call makes.\<close>

theorem gzwrite_counts:
  assumes "gzwrite os buf s = Some (n, t)" "n \<noteq> 0" "g_seek s \<longrightarrow> 0 \<le> g_skip s"
  shows "n = int (length buf) \<and> x_pos t = gztell s + n \<and> gztell t = gztell s + n \<and> \<not> g_seek t"
proof -
  have w: "may_write s" "length buf < 2 ^ 31" using assms(1,2) by (auto simp: gzwrite_def split: if_splits)
  then obtain k where k: "gz_write os buf s = Some (k, t)" "n = int k"
    using assms(1) by (auto simp: gzwrite_def bind_eq_Some_conv)
  then show ?thesis
    using gz_write_pos [OF k(1)] assms(2,3) w(1) by (auto simp: gztell_def may_write_def)
qed

text \<open>\<open>gz_zero\<close> on a file on which nothing has been written: its first turn has size 0, and the buffer that the second
  turn takes its bytes from is allocated in the course of the first.\<close>

lemma gz_zero_unset:
  assumes "\<forall>log bs. os_write os log bs = int (length bs)" "\<forall>log n. os_malloc os log n"
    "\<forall>log n. length (os_memory os log n) = n"
    "g_size s = 0" "g_direct s" "strm_next_in (g_def s) = []" "0 < n" "n < g_want s" "n \<le> 2 ^ 30"
  shows "\<exists>t. gz_zero os (int n) s = Some (0, t) \<and>
    g_log t = g_log s @ [Os_malloc (g_want s * 2), Os_write (take n (os_memory os (g_log s) (g_want s * 2)))] \<and>
    g_size t = g_want s \<and> g_direct t \<and> strm_next_in (g_def t) = [] \<and> g_err t = g_err s \<and> g_mode t = g_mode s"
proof -
  let ?mem = "os_memory os (g_log s) (g_want s * 2)"
  define u where "u = (set_input 0 (in_mem s) (Some 0) (logged (Os_malloc (g_want s * 2)) s))
    \<lparr>in_mem := ?mem, g_size := g_want s\<rparr>"
  define v where "v = set_input n ?mem (Some 0) u"
  have first: "gz_comp os Z_NO_FLUSH (set_input 0 (in_mem s) (Some 0) s) = Some (0, u)"
    using assms(2,4,5) by (simp add: gz_comp_def gz_init_def gz_malloc_def logged_def set_input_def u_def
        direct_loop_empty)
  have u: "g_size u = g_want s" "in_mem u = ?mem" by (simp_all add: u_def)
  have v: "strm_next_in (g_def v) = take n ?mem" "g_size v \<noteq> 0" "g_direct v" "g_size v = g_want s"
    "g_err v = g_err s" "g_mode v = g_mode s" "g_log v = g_log s @ [Os_malloc (g_want s * 2)]"
    using assms(5,8) by (simp_all add: v_def set_input_def u_def logged_def)
  have "length ?mem = g_want s * 2" using assms(3) by blast
  then have "length (take n ?mem) = n" "take n ?mem \<noteq> []" using assms(7,8) by auto
  then have second: "gz_comp os Z_NO_FLUSH v = Some (0, advance n (logged (Os_write (take n ?mem)) v))"
    using assms(1,9) v direct_loop_all [of os v] by (simp add: gz_comp_def del: take_eq_Nil take_eq_Nil2 length_take)
  have "zero_loop os False (int n) u = Some (0, advance n (logged (Os_write (take n ?mem)) v))"
    using assms(7,8) u second
    by (subst zero_loop.simps) (simp add: v_def [symmetric] zero_loop.simps [of os False 0])
  then have "zero_loop os True (int n) s = Some (0, advance n (logged (Os_write (take n ?mem)) v))"
    using assms(4,7) first by (subst zero_loop.simps) simp
  then show ?thesis
    using assms(6) v by (simp add: gz_zero_def use_input_def advance_def logged_def)
qed

text \<open>With the buffer allocated before, it clears it.\<close>

lemma gz_zero_cleared:
  assumes "\<forall>log bs. os_write os log bs = int (length bs)"
    "g_size s \<noteq> 0" "g_direct s" "strm_next_in (g_def s) = []" "0 < n" "n < g_size s" "n \<le> 2 ^ 30"
  shows "\<exists>t. gz_zero os (int n) s = Some (0, t) \<and> g_log t = g_log s @ [Os_write (replicate n 0)] \<and>
    g_size t = g_size s \<and> strm_next_in (g_def t) = []"
proof -
  let ?u = "s\<lparr>in_mem := replicate n 0 @ drop n (in_mem s)\<rparr>"
  define v where "v = set_input n (replicate n 0 @ drop n (in_mem s)) (Some 0) ?u"
  have v: "strm_next_in (g_def v) = replicate n 0" "g_size v \<noteq> 0" "g_direct v" "g_log v = g_log s" "g_size v = g_size s"
    using assms(2,3) by (simp_all add: v_def set_input_def)
  let ?w = "advance n (logged (Os_write (replicate n 0)) v)"
  have "gz_comp os Z_NO_FLUSH v = Some (0, ?w)"
    using assms(1,5,7) v direct_loop_all [of os v] by (simp add: gz_comp_def)
  then have "zero_loop os True (int n) s = Some (0, ?w)"
    using assms(5,6) by (subst zero_loop.simps) (simp add: v_def [symmetric] zero_loop.simps [of os False 0])
  then show ?thesis using assms(4) v by (simp add: gz_zero_def use_input_def advance_def logged_def)
qed

text \<open>C23: A file that is not compressed, on which nothing has been written, and a seek forward by \<open>n\<close>.  When the next
  call is \<open>gzflush\<close> or \<open>gzclose\<close>, what it writes for the seek is what \<open>malloc()\<close> has left in the input buffer and not
  zeros: they leave it to \<open>gz_zero\<close>, which clears the buffer in its first turn only, to allocate it in that turn.  When
  the next call is \<open>gzwrite\<close>, which allocates the buffer before, zeros are written.\<close>

theorem seek_before_write:
  assumes "\<forall>log bs. os_write os log bs = int (length bs)" "\<forall>log n. os_malloc os log n"
    "\<forall>log n. length (os_memory os log n) = n"
    "may_write s" "g_size s = 0" "g_direct s" "strm_next_in (g_def s) = []" "g_seek s" "g_skip s = int n"
    "0 < n" "n < g_want s" "n \<le> 2 ^ 30" "0 \<le> flush" "flush \<le> Z_FINISH" "buf \<noteq> []" "length buf < g_want s"
    "length buf < 2 ^ 31"
  shows "(\<exists>t. gzflush os flush s = Some (Z_OK, t) \<and>
      g_log t = g_log s @ [Os_malloc (g_want s * 2), Os_write (take n (os_memory os (g_log s) (g_want s * 2)))]) \<and>
    (\<exists>r t. gzclose os s = Some (r, t) \<and> g_log t = g_log s @ [Os_malloc (g_want s * 2),
        Os_write (take n (os_memory os (g_log s) (g_want s * 2))), Os_close]) \<and>
    (\<exists>t. gzwrite os buf s = Some (int (length buf), t) \<and>
      g_log t = g_log s @ [Os_malloc (g_want s * 2), Os_write (replicate n 0)])"
proof -
  have w: "g_mode s = GZ_WRITE" "g_err s = Z_OK" using assms(4) by (simp_all add: may_write_def)
  let ?log = "g_log s @ [Os_malloc (g_want s * 2), Os_write (take n (os_memory os (g_log s) (g_want s * 2)))]"
  have "\<exists>t. gz_zero os (int n) (s\<lparr>g_seek := False\<rparr>) = Some (0, t) \<and> g_log t = ?log \<and>
      g_size t = g_want s \<and> g_direct t \<and> strm_next_in (g_def t) = [] \<and> g_err t = Z_OK \<and> g_mode t = GZ_WRITE"
    using gz_zero_unset [OF assms(1-3), of "s\<lparr>g_seek := False\<rparr>" n] assms(5-7,10-12) w by simp
  then obtain t where t: "do_zero os s = Some (0, t)" "g_log t = ?log" "g_size t \<noteq> 0" "g_direct t"
      "strm_next_in (g_def t) = []" "g_err t = Z_OK"
    using assms(8-11) by (auto simp: do_zero_def)
  have comp: "gz_comp os f t = Some (0, t)" for f using t(3-5) by (simp add: gz_comp_def direct_loop_empty)
  have flush: "gzflush os flush s = Some (Z_OK, t)"
    using assms(4,13,14) t(1,6) comp by (simp add: gzflush_def)
  have close: "\<exists>r u. gzclose os s = Some (r, u) \<and> g_log u = ?log @ [Os_close]"
    using w t comp by (simp add: gzclose_def gzclose_w_def gz_error_def logged_def Let_def)
  let ?i = "s\<lparr>g_log := g_log s @ [Os_malloc (g_want s * 2)], in_mem := os_memory os (g_log s) (g_want s * 2),
    g_size := g_want s\<rparr>"
  have init: "gz_init os s = (0, ?i)"
    using assms(2,6) by (simp add: gz_init_def gz_malloc_def logged_def)
  obtain u where u: "gz_zero os (int n) (?i\<lparr>g_seek := False\<rparr>) = Some (0, u)"
      "g_log u = g_log s @ [Os_malloc (g_want s * 2), Os_write (replicate n 0)]" "g_size u = g_want s"
      "strm_next_in (g_def u) = []"
    using gz_zero_cleared [OF assms(1), of "?i\<lparr>g_seek := False\<rparr>" n] assms(6,7,10-12) by auto
  have "do_zero os ?i = Some (0, u)" using u(1) assms(8,9) by (simp add: do_zero_def)
  moreover have "write_input os buf u = Some (1, add_bytes buf (u\<lparr>in_off := Some 0\<rparr>))"
    using u(3,4) assms(16) by (simp add: write_input_def buffer_loop.simps input_start_def input_have_def)
  ultimately have "\<exists>t. gzwrite os buf s = Some (int (length buf), t) \<and> g_log t = g_log u"
    using assms(4,5,15,17) init by (simp add: gzwrite_def gz_write_def add_bytes_def)
  then show ?thesis using flush close t(2) u(2) by auto
qed

section \<open>Witnesses\<close>

definition demo_os :: gz_os where
  "demo_os = \<lparr>os_open = (\<lambda>_ _ _. 3), os_lseek = (\<lambda>_ n _. n), os_read = (\<lambda>_ _. Some []),
     os_write = (\<lambda>_ bs. int (length bs)), os_close = (\<lambda>_. 0), os_malloc = (\<lambda>_ _. True),
     os_memory = (\<lambda>_ n. replicate n 7), os_zalloc = (\<lambda>_. True), os_arrays = (\<lambda>_. demo_alloc),
     os_strerror = (\<lambda>_. [])\<rparr>"

text \<open>A file just opened with \<open>wT\<close>.\<close>

definition demo_gz :: gz_state where
  "demo_gz = \<lparr>x_data = [], x_off = 0, x_pos = 0, g_mode = GZ_WRITE, g_fd = 3, g_path = ''a'', g_size = 0, g_want = 8192,
     in_off = None, in_mem = [], g_direct = True, g_how = LOOK, g_start = 0, g_eof = False, g_past = False,
     g_level = -1, g_strategy = 0, g_skip = 0, g_seek = False, g_err = Z_OK, g_msg = None, g_inf = small_stream,
     g_def = demo_memory, g_log = []\<rparr>"

lemma demo_write:
  "gzwrite demo_os [1, 2, 3] demo_gz =
    Some (3, add_bytes [1, 2, 3] (input_start (snd (gz_init demo_os demo_gz))))"
  by (simp add: gzwrite_def may_write_def gz_write_def do_zero_def write_input_def buffer_loop.simps input_have_def
      input_start_def gz_init_def gz_malloc_def logged_def add_bytes_def demo_gz_def demo_os_def demo_memory_def Let_def)

theorem gzwrite_counts_witness:
  "3 = int (length [1, 2, 3 :: u8]) \<and>
   x_pos (add_bytes [1, 2, 3] (input_start (snd (gz_init demo_os demo_gz)))) = gztell demo_gz + 3 \<and>
   gztell (add_bytes [1, 2, 3] (input_start (snd (gz_init demo_os demo_gz)))) = gztell demo_gz + 3 \<and>
   \<not> g_seek (add_bytes [1, 2, 3] (input_start (snd (gz_init demo_os demo_gz))))"
  by (rule gzwrite_counts [OF demo_write]) (simp_all add: demo_gz_def)

theorem seek_before_write_witness:
  "(\<exists>t. gzflush demo_os Z_FINISH (demo_gz\<lparr>g_seek := True, g_skip := 3\<rparr>) = Some (Z_OK, t) \<and>
      g_log t = [Os_malloc 16384, Os_write [7, 7, 7]]) \<and>
   (\<exists>t. gzwrite demo_os [1, 2] (demo_gz\<lparr>g_seek := True, g_skip := 3\<rparr>) = Some (2, t) \<and>
      g_log t = [Os_malloc 16384, Os_write [0, 0, 0]])"
proof -
  let ?s = "demo_gz\<lparr>g_seek := True, g_skip := 3\<rparr>"
  have "(\<exists>t. gzflush demo_os Z_FINISH ?s = Some (Z_OK, t) \<and>
      g_log t = g_log ?s @ [Os_malloc (g_want ?s * 2), Os_write (take 3 (os_memory demo_os (g_log ?s) (g_want ?s * 2)))]) \<and>
    (\<exists>r t. gzclose demo_os ?s = Some (r, t) \<and> g_log t = g_log ?s @ [Os_malloc (g_want ?s * 2),
        Os_write (take 3 (os_memory demo_os (g_log ?s) (g_want ?s * 2))), Os_close]) \<and>
    (\<exists>t. gzwrite demo_os [1, 2] ?s = Some (int (length [1, 2 :: u8]), t) \<and>
      g_log t = g_log ?s @ [Os_malloc (g_want ?s * 2), Os_write (replicate 3 0)])"
    by (rule seek_before_write)
      (simp_all add: demo_os_def demo_gz_def demo_memory_def may_write_def Z_FINISH_def)
  moreover have "take 3 (os_memory demo_os log 16384) = [7, 7, 7]" "replicate 3 (0 :: u8) = [0, 0, 0]" for log
    by (simp_all add: demo_os_def take_replicate numeral_3_eq_3)
  ultimately show ?thesis by (simp add: demo_gz_def)
qed

end
