(* ===== verification/Lua_Host.thy ===== *)
theory Lua_Host
  imports Main "HOL-Library.Word"
begin

text \<open>
  The Lua host as the module sees it through \<open>ILuaBase\<close>
  (\<open>src/include/GarrysMod/Lua/LuaBase.h\<close>). The interpreter itself is not in the
  repository: it is the parameter \<open>lua_host\<close>, whose answers may depend on every
  call made before. A call that changes the host is an event; a function of the
  module takes the list of the events so far and extends it. What the header's
  comments promise of the calls is stated twice here: the number of stack
  slots a call adds (\<open>stack_change\<close>), and the effect on the stack, the tables
  and the references of the calls that build tables (\<open>perform\<close>).
\<close>

section \<open>Numbers\<close>

text \<open>A finite C \<open>double\<close>: \<open>Binary m e\<close> is m * 2^e.\<close>

datatype double = Binary int int

definition whole :: "int \<Rightarrow> double" where
  "whole n = Binary n 0"

text \<open>The value that a conversion to an integer type truncates to.\<close>

fun truncated :: "double \<Rightarrow> int" where
  "truncated (Binary m e) =
    (if 0 \<le> e then m * 2 ^ nat e else sgn m * (\<bar>m\<bar> div 2 ^ nat (- e)))"

text \<open>
  The conversion of an unsigned 64-bit integer to \<open>double\<close>: 53 bits of the
  number are kept, rounding to nearest, ties to even.
\<close>

definition round_to_even :: "nat \<Rightarrow> nat \<Rightarrow> nat" where
  "round_to_even k n =
    (let q = n div 2 ^ k; r = n mod 2 ^ k; h = 2 ^ k div 2 in
     if r > h \<or> (r = h \<and> odd q) then q + 1 else q)"

fun excess_bits :: "nat \<Rightarrow> nat \<Rightarrow> nat" where
  "excess_bits 0 n = 0"
| "excess_bits (Suc f) n = (if n < 2 ^ 53 then 0 else Suc (excess_bits f (n div 2)))"

definition u64_to_double :: "64 word \<Rightarrow> double" where
  "u64_to_double w =
    (let n = unat w; k = excess_bits 11 n in
     if k = 0 then whole (int n) else whole (int (round_to_even k n * 2 ^ k)))"

text \<open>
  The numbers handed to Lua: a double, the value of \<open>atof\<close> on a text, a number of
  nanoseconds divided by 1e9, or a member that was never set.
\<close>

datatype number = Num double | Atof string | Nanoseconds int | Unset_number

section \<open>Calls\<close>

text \<open>The types of \<open>Types.h\<close> that the module tests for.\<close>

definition T_Nil :: int where "T_Nil = 0"
definition T_Bool :: int where "T_Bool = 1"
definition T_Number :: int where "T_Number = 3"
definition T_String :: int where "T_String = 4"
definition T_Table :: int where "T_Table = 5"
definition T_Function :: int where "T_Function = 6"

lemmas lua_types = T_Nil_def T_Bool_def T_Number_def T_String_def T_Table_def T_Function_def

datatype lua_event =
    Push int
  | Pop nat
  | GetField int string
  | SetField int string
  | CreateTable
  | SetTable int
  | Call nat nat
  | PCall nat nat int int  \<comment> \<open>arguments, results, error function, and the answer\<close>
  | ThrowError string
  | PushNil
  | PushString string
  | PushNumber number
  | PushBool bool
  | PushCFunction string
  | PushSpecial_Glob
  | ReferenceCreate int  \<comment> \<open>the answer\<close>
  | ReferenceFree int
  | ReferencePush int
  | CreateMetaTable string int  \<comment> \<open>the name and the answer\<close>
  | PushUserType nat int
  | SetUserType int "nat option"

type_synonym lua_log = "lua_event list"

record lua_host =
  l_Top :: "lua_log \<Rightarrow> int"
  l_GetType :: "lua_log \<Rightarrow> int \<Rightarrow> int"
  l_IsType :: "lua_log \<Rightarrow> int \<Rightarrow> int \<Rightarrow> bool"
  l_GetString :: "lua_log \<Rightarrow> int \<Rightarrow> string"
  l_GetNumber :: "lua_log \<Rightarrow> int \<Rightarrow> double"
  l_GetBool :: "lua_log \<Rightarrow> int \<Rightarrow> bool"
  l_CheckString :: "lua_log \<Rightarrow> int \<Rightarrow> string option"  \<comment> \<open>\<open>None\<close>: throws\<close>
  l_CheckNumber :: "lua_log \<Rightarrow> int \<Rightarrow> double option"
  l_GetUserType :: "lua_log \<Rightarrow> int \<Rightarrow> int \<Rightarrow> nat option"
  l_ReferenceCreate :: "lua_log \<Rightarrow> int"
  l_PCall :: "lua_log \<Rightarrow> nat \<Rightarrow> nat \<Rightarrow> int \<Rightarrow> int"
  l_CreateMetaTable :: "lua_log \<Rightarrow> string \<Rightarrow> int"
  l_GetTypeName :: "int \<Rightarrow> string"

text \<open>A call without an answer, and the two calls whose answer the module keeps.\<close>

definition lua :: "lua_event \<Rightarrow> lua_log \<Rightarrow> lua_log" where
  "lua e l = l @ [e]"

definition lua_ref :: "lua_host \<Rightarrow> lua_log \<Rightarrow> int \<times> lua_log" where
  "lua_ref L l = (let r = l_ReferenceCreate L l in (r, lua (ReferenceCreate r) l))"

definition lua_pcall :: "lua_host \<Rightarrow> nat \<Rightarrow> nat \<Rightarrow> int \<Rightarrow> lua_log \<Rightarrow> int \<times> lua_log" where
  "lua_pcall L args results errfunc l =
    (let st = l_PCall L l args results errfunc in (st, lua (PCall args results errfunc st) l))"

section \<open>What the calls do to the depth of the stack\<close>

text \<open>A failing \<open>PCall\<close> leaves the error message in place of the results.\<close>

fun stack_change :: "lua_event \<Rightarrow> int" where
  "stack_change (Push i) = 1"
| "stack_change (Pop n) = - int n"
| "stack_change (GetField i k) = 1"
| "stack_change (SetField i k) = -1"
| "stack_change CreateTable = 1"
| "stack_change (SetTable i) = -2"
| "stack_change (Call args results) = int results - int args - 1"
| "stack_change (PCall args results h st) = (if st = 0 then int results else 1) - int args - 1"
| "stack_change (ThrowError s) = 0"
| "stack_change PushNil = 1"
| "stack_change (PushString s) = 1"
| "stack_change (PushNumber d) = 1"
| "stack_change (PushBool b) = 1"
| "stack_change (PushCFunction f) = 1"
| "stack_change PushSpecial_Glob = 1"
| "stack_change (ReferenceCreate r) = -1"
| "stack_change (ReferenceFree r) = 0"
| "stack_change (ReferencePush r) = 1"
| "stack_change (CreateMetaTable s t) = 1"
| "stack_change (PushUserType p t) = 1"
| "stack_change (SetUserType i p) = 0"

definition stack_depth :: "lua_log \<Rightarrow> int" where
  "stack_depth l = sum_list (map stack_change l)"

lemma stack_depth_Nil [simp]: "stack_depth [] = 0"
  by (simp add: stack_depth_def)

lemma stack_depth_append [simp]: "stack_depth (a @ b) = stack_depth a + stack_depth b"
  by (simp add: stack_depth_def)

lemma stack_depth_Cons [simp]: "stack_depth (e # l) = stack_change e + stack_depth l"
  by (simp add: stack_depth_def)

lemma stack_depth_lua [simp]: "stack_depth (lua e l) = stack_depth l + stack_change e"
  by (simp add: lua_def)

text \<open>How often a log takes a reference more than it frees it.\<close>

fun reference_change :: "int \<Rightarrow> lua_event \<Rightarrow> int" where
  "reference_change r (ReferenceCreate i) = (if i = r then 1 else 0)"
| "reference_change r (ReferenceFree i) = (if i = r then -1 else 0)"
| "reference_change r _ = 0"

definition held :: "int \<Rightarrow> lua_log \<Rightarrow> int" where
  "held r l = sum_list (map (reference_change r) l)"

lemma held_Nil [simp]: "held r [] = 0"
  by (simp add: held_def)

lemma held_append [simp]: "held r (a @ b) = held r a + held r b"
  by (simp add: held_def)

lemma held_Cons [simp]: "held r (e # l) = reference_change r e + held r l"
  by (simp add: held_def)

lemma held_lua [simp]: "held r (lua e l) = held r l + reference_change r e"
  by (simp add: lua_def)

text \<open>Where every turn of a loop keeps the depth and the references, so does the loop.\<close>

lemma fold_log_change:
  assumes "\<And>x l. x \<in> set xs \<Longrightarrow> stack_depth (f x l) = stack_depth l \<and> held r (f x l) = held r l"
  shows "stack_depth (fold f xs l) = stack_depth l \<and> held r (fold f xs l) = held r l"
  using assms by (induction xs arbitrary: l) simp_all

section \<open>What the calls do to tables\<close>

datatype lua_value =
    V_nil
  | V_bool bool
  | V_number number
  | V_string string
  | V_table nat
  | V_other

record lua_machine =
  stack :: "lua_value list"  \<comment> \<open>top first\<close>
  tables :: "nat \<Rightarrow> lua_value \<Rightarrow> lua_value"
  new_table :: nat  \<comment> \<open>this and the greater numbers are not tables yet\<close>
  refs :: "int \<Rightarrow> lua_value option"

definition set_key :: "nat \<Rightarrow> lua_value \<Rightarrow> lua_value \<Rightarrow> lua_machine \<Rightarrow> lua_machine" where
  "set_key t k v s = s\<lparr>tables := (tables s)(t := (tables s t)(k := v))\<rparr>"

text \<open>
  The calls that build tables, as the comments of \<open>LuaBase.h\<close> describe them;
  \<open>None\<close> is a call outside of that description (a missing value, a field of
  something that is not a table, a reference in use or not in use).
\<close>

fun perform :: "lua_event \<Rightarrow> lua_machine \<Rightarrow> lua_machine option" where
  "perform PushNil s = Some (s\<lparr>stack := V_nil # stack s\<rparr>)"
| "perform (PushString v) s = Some (s\<lparr>stack := V_string v # stack s\<rparr>)"
| "perform (PushNumber v) s = Some (s\<lparr>stack := V_number v # stack s\<rparr>)"
| "perform (PushBool v) s = Some (s\<lparr>stack := V_bool v # stack s\<rparr>)"
| "perform CreateTable s =
    Some (s\<lparr>stack := V_table (new_table s) # stack s,
            tables := (tables s)(new_table s := \<lambda>_. V_nil), new_table := new_table s + 1\<rparr>)"
| "perform (SetField i k) s =
    (case stack s of
       v # V_table t # rest \<Rightarrow>
         if i = -2 then Some (set_key t (V_string k) v (s\<lparr>stack := V_table t # rest\<rparr>)) else None
     | _ \<Rightarrow> None)"
| "perform (SetTable i) s =
    (case stack s of
       v # k # V_table t # rest \<Rightarrow>
         if i = -3 \<and> k \<noteq> V_nil then Some (set_key t k v (s\<lparr>stack := V_table t # rest\<rparr>)) else None
     | _ \<Rightarrow> None)"
| "perform (ReferenceCreate r) s =
    (case stack s of
       v # rest \<Rightarrow>
         if refs s r = None then Some (s\<lparr>stack := rest, refs := (refs s)(r := Some v)\<rparr>) else None
     | [] \<Rightarrow> None)"
| "perform (ReferencePush r) s = map_option (\<lambda>v. s\<lparr>stack := v # stack s\<rparr>) (refs s r)"
| "perform (ReferenceFree r) s =
    map_option (\<lambda>_. s\<lparr>refs := (refs s)(r := None)\<rparr>) (refs s r)"
| "perform _ s = None"

primrec perform_all :: "lua_log \<Rightarrow> lua_machine \<Rightarrow> lua_machine option" where
  "perform_all [] s = Some s"
| "perform_all (e # l) s = Option.bind (perform e s) (perform_all l)"

lemma perform_all_append:
  "perform_all (a @ b) s = Option.bind (perform_all a s) (perform_all b)"
  by (induction a arbitrary: s) (simp_all split: bind_split)

lemma perform_all_lua:
  "perform_all (lua e l) s = Option.bind (perform_all l s) (perform e)"
  by (simp add: lua_def perform_all_append split: bind_split)

text \<open>After the calls \<open>past\<close>, which led to the state \<open>s\<close>, the host never answers
  \<open>ReferenceCreate\<close> with a reference that is in use.\<close>

definition fresh_references :: "lua_host \<Rightarrow> lua_log \<Rightarrow> lua_machine \<Rightarrow> bool" where
  "fresh_references L past s \<longleftrightarrow>
    (\<forall>l s'. perform_all l s = Some s' \<longrightarrow> refs s' (l_ReferenceCreate L (past @ l)) = None)"

lemma fresh_references_step:
  assumes "fresh_references L past s" "perform_all ev s = Some s'"
  shows "fresh_references L (past @ ev) s'"
  using assms by (auto simp: fresh_references_def perform_all_append)

section \<open>A host for examples\<close>

text \<open>It answers \<open>ReferenceCreate\<close> with a number above all its earlier answers.\<close>

fun reference_size :: "lua_event \<Rightarrow> int" where
  "reference_size (ReferenceCreate r) = \<bar>r\<bar>"
| "reference_size _ = 0"

definition sample_host :: lua_host where
  "sample_host =
    \<lparr>l_Top = \<lambda>_. 0, l_GetType = \<lambda>_ _. 0, l_IsType = \<lambda>_ _ _. True, l_GetString = \<lambda>_ _. '''',
     l_GetNumber = \<lambda>_ _. whole 0, l_GetBool = \<lambda>_ _. False, l_CheckString = \<lambda>_ _. Some '''',
     l_CheckNumber = \<lambda>_ _. Some (whole 0), l_GetUserType = \<lambda>_ _ _. None,
     l_ReferenceCreate = (\<lambda>l. 1 + sum_list (map reference_size l)),
     l_PCall = \<lambda>_ _ _ _. 0, l_CreateMetaTable = \<lambda>_ _. 1, l_GetTypeName = \<lambda>_. ''''\<rparr>"

lemma perform_refs:
  assumes "perform e s = Some s'" "refs s' r \<noteq> None" "refs s r = None"
  shows "e = ReferenceCreate r"
  using assms
  by (cases e) (auto simp: set_key_def split: list.splits lua_value.splits if_splits)

lemma perform_all_refs:
  "perform_all l s = Some s' \<Longrightarrow> refs s' r \<noteq> None \<Longrightarrow> refs s r = None \<Longrightarrow> ReferenceCreate r \<in> set l"
proof (induction l arbitrary: s)
  case (Cons e l)
  then obtain s1 where s1: "perform e s = Some s1" "perform_all l s1 = Some s'"
    by (auto simp: bind_eq_Some_conv)
  show ?case
  proof (cases "refs s1 r = None")
    case True
    with Cons.IH [OF s1(2) Cons.prems(2)] show ?thesis by simp
  next
    case False
    with perform_refs [OF s1(1) _ Cons.prems(3)] show ?thesis by simp
  qed
qed simp

lemma reference_size_nonneg: "0 \<le> sum_list (map reference_size l)"
proof (induction l)
  case (Cons e l)
  then show ?case by (cases e) auto
qed simp

lemma reference_size_bound: "ReferenceCreate r \<in> set l \<Longrightarrow> r \<le> sum_list (map reference_size l)"
proof (induction l)
  case (Cons e l)
  then show ?case
  proof (cases "e = ReferenceCreate r")
    case True
    then show ?thesis using reference_size_nonneg [of l] by simp
  next
    case False
    have "0 \<le> reference_size e" by (cases e) auto
    then show ?thesis using Cons False by auto
  qed
qed simp

lemma sample_host_fresh:
  assumes "refs s = (\<lambda>_. None)"
  shows "fresh_references sample_host [] s"
  unfolding fresh_references_def
proof (intro allI impI)
  fix l s'
  assume p: "perform_all l s = Some s'"
  show "refs s' (l_ReferenceCreate sample_host ([] @ l)) = None"
  proof (rule ccontr)
    assume "refs s' (l_ReferenceCreate sample_host ([] @ l)) \<noteq> None"
    then have "ReferenceCreate (1 + sum_list (map reference_size l)) \<in> set l"
      using perform_all_refs [OF p] assms by (simp add: sample_host_def)
    from reference_size_bound [OF this] show False by simp
  qed
qed

end
