(* ===== verification/Mysql_Client.thy ===== *)
theory Mysql_Client
  imports Lua_Host
begin

text \<open>
  The MariaDB client as the module calls it (\<open>src/include/connector/mysql.h\<close>).
  The client library is not in the repository: it is the parameter
  \<open>mysql_client\<close>, whose answers may depend on every call made before, on this
  connection or another. The calls with an effect are events, tagged with the
  connection they are made on. A connection is the number of its \<open>MYSQL\<close> object,
  a statement handle is the number of its \<open>MYSQL_STMT\<close> object.
\<close>

unbundle bit_operations_syntax

type_synonym conn = nat
type_synonym stmt_handle = nat

section \<open>Constants and types\<close>

definition CR_SERVER_GONE_ERROR :: "32 word" where "CR_SERVER_GONE_ERROR = 2006"
definition CR_SERVER_LOST :: "32 word" where "CR_SERVER_LOST = 2013"
definition CLIENT_MULTI_RESULTS :: "32 word" where "CLIENT_MULTI_RESULTS = push_bit 17 1"

definition MYSQL_TYPE_DOUBLE :: int where "MYSQL_TYPE_DOUBLE = 5"
definition MYSQL_TYPE_NULL :: int where "MYSQL_TYPE_NULL = 6"
definition MYSQL_TYPE_TIMESTAMP :: int where "MYSQL_TYPE_TIMESTAMP = 7"
definition MYSQL_TYPE_LONGLONG :: int where "MYSQL_TYPE_LONGLONG = 8"
definition MYSQL_TYPE_INT24 :: int where "MYSQL_TYPE_INT24 = 9"
definition MYSQL_TYPE_YEAR :: int where "MYSQL_TYPE_YEAR = 13"
definition MYSQL_TYPE_BIT :: int where "MYSQL_TYPE_BIT = 16"
definition MYSQL_TYPE_NEWDECIMAL :: int where "MYSQL_TYPE_NEWDECIMAL = 246"
definition MYSQL_TYPE_BLOB :: int where "MYSQL_TYPE_BLOB = 252"
definition MYSQL_TYPE_STRING :: int where "MYSQL_TYPE_STRING = 254"

lemmas mysql_types = MYSQL_TYPE_DOUBLE_def MYSQL_TYPE_NULL_def MYSQL_TYPE_TIMESTAMP_def
  MYSQL_TYPE_LONGLONG_def MYSQL_TYPE_INT24_def MYSQL_TYPE_YEAR_def MYSQL_TYPE_BIT_def
  MYSQL_TYPE_NEWDECIMAL_def MYSQL_TYPE_BLOB_def MYSQL_TYPE_STRING_def

definition IS_NUM :: "int \<Rightarrow> bool" where
  "IS_NUM t \<longleftrightarrow> (t \<le> MYSQL_TYPE_INT24 \<and> t \<noteq> MYSQL_TYPE_TIMESTAMP) \<or>
     t = MYSQL_TYPE_YEAR \<or> t = MYSQL_TYPE_NEWDECIMAL"

text \<open>The members of \<open>MYSQL_FIELD\<close> that the module reads.\<close>

record my_field =
  f_name :: string
  f_type :: int
  f_max_length :: nat

text \<open>
  A stored result set, by what its accessor functions answer: the counts, the
  field of a column, and the value in a row and a column, \<open>None\<close> for NULL.
\<close>

record my_res =
  num_fields :: "32 word"
  num_rows :: "64 word"
  field_direct :: "nat \<Rightarrow> my_field"
  fetch_row :: "nat \<Rightarrow> nat \<Rightarrow> string option"

text \<open>
  The members of a \<open>MYSQL_BIND\<close> for a parameter: the type, the length, and the
  buffer, which is null or holds a string, a boolean or a double.
\<close>

datatype bind_buffer = No_buffer | Chars string | Bool_buffer bool | Double_buffer double

record my_bind =
  buffer_type :: int
  buffer_length :: nat
  buffer :: "bind_buffer"

section \<open>Calls\<close>

datatype my_option = Opt_reconnect bool | Opt_plugin_dir string | Opt_other int string

record connect_args =
  ca_host :: string
  ca_user :: string
  ca_pass :: string
  ca_db :: string
  ca_port :: "32 word"
  ca_socket :: "string option"
  ca_flags :: "32 word"

datatype my_event =
    My_init
  | My_options my_option
  | My_real_connect connect_args
  | My_set_character_set string
  | My_real_query string
  | My_store_result
  | My_free_result
  | My_next_result
  | My_escape string
  | My_forget_stmts  \<comment> \<open>the list of statements of the connection is dropped\<close>
  | My_close
  | Stmt_init
  | Stmt_close stmt_handle
  | Stmt_attr_set stmt_handle
  | Stmt_prepare stmt_handle string
  | Stmt_bind_param stmt_handle "my_bind list"
  | Stmt_execute stmt_handle
  | Stmt_store_result stmt_handle
  | Stmt_metadata stmt_handle
  | Stmt_bind_result stmt_handle "nat list"
  | Stmt_fetch stmt_handle
  | Stmt_next_result stmt_handle

type_synonym my_log = "(conn \<times> my_event) list"

text \<open>
  The answers of the library. The answer to a call with an effect is asked with
  the log that ends with the call.
\<close>

record mysql_client =
  m_init :: "my_log \<Rightarrow> conn \<Rightarrow> bool"  \<comment> \<open>not NULL\<close>
  m_options :: "my_log \<Rightarrow> conn \<Rightarrow> int"
  m_real_connect :: "my_log \<Rightarrow> conn \<Rightarrow> bool"  \<comment> \<open>the handle, not NULL\<close>
  m_errno :: "my_log \<Rightarrow> conn \<Rightarrow> 32 word"
  m_error :: "my_log \<Rightarrow> conn \<Rightarrow> string"
  m_real_query :: "my_log \<Rightarrow> conn \<Rightarrow> int"
  m_store_result :: "my_log \<Rightarrow> conn \<Rightarrow> my_res option"
  m_insert_id :: "my_log \<Rightarrow> conn \<Rightarrow> 64 word"
  m_affected_rows :: "my_log \<Rightarrow> conn \<Rightarrow> 64 word"
  m_next_result :: "my_log \<Rightarrow> conn \<Rightarrow> int"
  m_set_character_set :: "my_log \<Rightarrow> conn \<Rightarrow> int"
  m_escape :: "my_log \<Rightarrow> conn \<Rightarrow> string \<Rightarrow> string"
  m_server_info :: "my_log \<Rightarrow> conn \<Rightarrow> string"
  m_host_info :: "my_log \<Rightarrow> conn \<Rightarrow> string"
  m_server_version :: "my_log \<Rightarrow> conn \<Rightarrow> 32 word"
  s_init :: "my_log \<Rightarrow> conn \<Rightarrow> stmt_handle option"
  s_prepare :: "my_log \<Rightarrow> stmt_handle \<Rightarrow> int"
  s_param_count :: "my_log \<Rightarrow> stmt_handle \<Rightarrow> 64 word"
  s_execute :: "my_log \<Rightarrow> stmt_handle \<Rightarrow> int"
  s_errno :: "my_log \<Rightarrow> stmt_handle \<Rightarrow> 32 word"
  s_error :: "my_log \<Rightarrow> stmt_handle \<Rightarrow> string"
  s_insert_id :: "my_log \<Rightarrow> stmt_handle \<Rightarrow> 64 word"
  s_affected_rows :: "my_log \<Rightarrow> stmt_handle \<Rightarrow> 64 word"
  s_metadata :: "my_log \<Rightarrow> stmt_handle \<Rightarrow> my_res option"
  s_field_count :: "my_log \<Rightarrow> stmt_handle \<Rightarrow> 32 word"
  s_num_rows :: "my_log \<Rightarrow> stmt_handle \<Rightarrow> 64 word"
  s_fetch :: "my_log \<Rightarrow> stmt_handle \<Rightarrow> int"
  s_column :: "my_log \<Rightarrow> stmt_handle \<Rightarrow> nat \<Rightarrow> string option"
  s_next_result :: "my_log \<Rightarrow> stmt_handle \<Rightarrow> int"

definition my :: "conn \<Rightarrow> my_event \<Rightarrow> my_log \<Rightarrow> my_log" where
  "my c e l = l @ [(c, e)]"

section \<open>Faults\<close>

text \<open>
  How a function of the module ends when it does not return: an error thrown
  into Lua, the module's own exception, or behaviour the language leaves
  undefined, with what was done.
\<close>

datatype misuse = Null_pointer | Freed_object | Unset_member | Negative_size | Out_of_range | No_end

datatype fault = Lua_error string | My_exception "32 word" string | Undefined misuse

text \<open>How often an event occurs.\<close>

definition occurs :: "(conn \<times> my_event) \<Rightarrow> my_log \<Rightarrow> nat" where
  "occurs e l = count_list l e"

lemma occurs_Nil [simp]: "occurs e [] = 0"
  by (simp add: occurs_def)

lemma occurs_append [simp]: "occurs e (a @ b) = occurs e a + occurs e b"
  by (induction a) (simp_all add: occurs_def)

lemma occurs_Cons [simp]: "occurs e (x # l) = (if x = e then 1 else 0) + occurs e l"
  by (simp add: occurs_def)

lemma occurs_my [simp]: "occurs e (my c x l) = occurs e l + (if (c, x) = e then 1 else 0)"
  by (simp add: my_def)

text \<open>A client whose calls all succeed and whose queries give no result set, for examples.\<close>

definition quiet_client :: mysql_client where
  "quiet_client =
    \<lparr>m_init = \<lambda>_ _. True, m_options = \<lambda>_ _. 0, m_real_connect = \<lambda>_ _. True,
     m_errno = \<lambda>_ _. 0, m_error = \<lambda>_ _. '''', m_real_query = \<lambda>_ _. 0,
     m_store_result = \<lambda>_ _. None, m_insert_id = \<lambda>_ _. 0, m_affected_rows = \<lambda>_ _. 0,
     m_next_result = \<lambda>_ _. -1, m_set_character_set = \<lambda>_ _. 0, m_escape = \<lambda>_ _ s. s,
     m_server_info = \<lambda>_ _. '''', m_host_info = \<lambda>_ _. '''', m_server_version = \<lambda>_ _. 0,
     s_init = \<lambda>_ _. Some 0, s_prepare = \<lambda>_ _. 0, s_param_count = \<lambda>_ _. 0,
     s_execute = \<lambda>_ _. 0, s_errno = \<lambda>_ _. 0, s_error = \<lambda>_ _. '''',
     s_insert_id = \<lambda>_ _. 0, s_affected_rows = \<lambda>_ _. 0, s_metadata = \<lambda>_ _. None,
     s_field_count = \<lambda>_ _. 0, s_num_rows = \<lambda>_ _. 0, s_fetch = \<lambda>_ _. 0,
     s_column = \<lambda>_ _ _. None, s_next_result = \<lambda>_ _. -1\<rparr>"

end
