(* ===== verification/Query_Result.thy ===== *)
theory Query_Result
  imports Mysql_Client
begin

text \<open>
  \<open>src/src/result.h\<close> and \<open>src/src/result.cpp\<close>: the copy of a result set that an action
  keeps, its construction from a connection or from a statement, and the Lua
  table it becomes. A member that the constructor may leave unset is an
  option; an array is the list of its elements.
\<close>

section \<open>The object\<close>

text \<open>
  Where \<open>m_strError\<close> points: to the message buffer of a connection or of a statement,
  whose contents are read when the pointer is, or to the characters of a
  string that has been destroyed.
\<close>

datatype error_text = Conn_text conn | Stmt_text stmt_handle | Dead_text

record result =
  m_strError :: error_text
  m_iError :: "32 word"
  m_iLastID :: "double option"
  m_iAffected :: "double option"
  m_rowCount :: int
  m_colCount :: int
  m_columnNames :: "string list option"
  m_columnTypes :: "int list option"
  m_rows :: "string list list option"
  m_nullRowValues :: "bool list list option"

definition Result_error :: "32 word \<Rightarrow> error_text \<Rightarrow> result" where
  "Result_error errNo errStr =
    \<lparr>m_strError = errStr, m_iError = errNo, m_iLastID = None, m_iAffected = None,
     m_rowCount = 0, m_colCount = 0, m_columnNames = None, m_columnTypes = None,
     m_rows = None, m_nullRowValues = None\<rparr>"

text \<open>\<open>new T[n]\<close> with a negative \<open>n\<close> does not return.\<close>

definition Resize :: "int \<Rightarrow> int \<Rightarrow> result \<Rightarrow> fault + result" where
  "Resize colCount rowCount r =
    (if colCount < 0 then Inl (Undefined Negative_size) else
     let r = r\<lparr>m_colCount := colCount, m_rowCount := rowCount,
               m_columnNames := Some (replicate (nat colCount) ''''),
               m_columnTypes := Some (replicate (nat colCount) 0)\<rparr> in
     if rowCount = 0 then Inr r
     else if rowCount < 0 then Inl (Undefined Negative_size)
     else Inr (r\<lparr>m_rows := Some (replicate (nat rowCount) (replicate (nat colCount) '''')),
                 m_nullRowValues := Some (replicate (nat rowCount) (replicate (nat colCount) False))\<rparr>))"

text \<open>A loop whose body may fault.\<close>

fun each :: "('i \<Rightarrow> 'r \<Rightarrow> fault + 'r) \<Rightarrow> 'i list \<Rightarrow> 'r \<Rightarrow> fault + 'r" where
  "each f [] r = Inr r"
| "each f (i # is) r = (case f i r of Inl e \<Rightarrow> Inl e | Inr r \<Rightarrow> each f is r)"

text \<open>\<open>a[i] = x\<close> and \<open>a[i][n] = x\<close> for an array that may not have been allocated.\<close>

definition store_at :: "nat \<Rightarrow> 'a \<Rightarrow> 'a list option \<Rightarrow> fault + 'a list" where
  "store_at i x a =
    (case a of
       None \<Rightarrow> Inl (Undefined Unset_member)
     | Some xs \<Rightarrow> if i < length xs then Inr (xs[i := x]) else Inl (Undefined Out_of_range))"

definition store_cell :: "nat \<Rightarrow> nat \<Rightarrow> 'a \<Rightarrow> 'a list list option \<Rightarrow> fault + 'a list list" where
  "store_cell i n x a =
    (case a of
       None \<Rightarrow> Inl (Undefined Unset_member)
     | Some xs \<Rightarrow>
         if i < length xs \<and> n < length (xs ! i) then Inr (xs[i := (xs ! i)[n := x]])
         else Inl (Undefined Out_of_range))"

definition set_column :: "(nat \<Rightarrow> my_field) \<Rightarrow> nat \<Rightarrow> result \<Rightarrow> fault + result" where
  "set_column field i r =
    (case store_at i (f_name (field i)) (m_columnNames r) of
       Inl f \<Rightarrow> Inl f
     | Inr names \<Rightarrow>
         case store_at i (f_type (field i)) (m_columnTypes r) of
           Inl f \<Rightarrow> Inl f
         | Inr types \<Rightarrow> Inr (r\<lparr>m_columnNames := Some names, m_columnTypes := Some types\<rparr>))"

definition set_cell :: "nat \<Rightarrow> (nat \<Rightarrow> string option) \<Rightarrow> nat \<Rightarrow> result \<Rightarrow> fault + result" where
  "set_cell i row n r =
    (case row n of
       Some s \<Rightarrow>
         (case store_cell i n s (m_rows r) of Inl f \<Rightarrow> Inl f | Inr a \<Rightarrow> Inr (r\<lparr>m_rows := Some a\<rparr>))
     | None \<Rightarrow>
         (case store_cell i n True (m_nullRowValues r) of
            Inl f \<Rightarrow> Inl f | Inr a \<Rightarrow> Inr (r\<lparr>m_nullRowValues := Some a\<rparr>)))"

definition set_row :: "nat \<Rightarrow> nat \<Rightarrow> (nat \<Rightarrow> string option) \<Rightarrow> result \<Rightarrow> fault + result" where
  "set_row colCount i row r = each (set_cell i row) [0..<colCount] r"

section \<open>Construction from a connection\<close>

definition Result_mysql :: "mysql_client \<Rightarrow> conn \<Rightarrow> my_log \<Rightarrow> (fault + result) \<times> my_log" where
  "Result_mysql M c l =
    (let r = Result_error (m_errno M l c) (Conn_text c);
         l = my c My_store_result l;
         pResult = m_store_result M l c;
         r = r\<lparr>m_iLastID := Some (u64_to_double (m_insert_id M l c)),
               m_iAffected := Some (u64_to_double (m_affected_rows M l c))\<rparr> in
     case pResult of
       None \<Rightarrow> (Inr r, my c My_free_result l)
     | Some p \<Rightarrow>
         let colCount = sint (num_fields p);
             rowCount = sint (ucast (num_rows p) :: 32 word) in
         if colCount = 0 \<and> rowCount = 0 then (Inr r, my c My_free_result l) else
         case Resize colCount rowCount r of
           Inl f \<Rightarrow> (Inl f, l)
         | Inr r \<Rightarrow>
             case each (set_column (field_direct p)) [0..<nat colCount] r of
               Inl f \<Rightarrow> (Inl f, l)
             | Inr r \<Rightarrow>
                 case each (\<lambda>i. set_row (nat colCount) i (fetch_row p i)) [0..<nat rowCount] r of
                   Inl f \<Rightarrow> (Inl f, l)
                 | Inr r \<Rightarrow> (Inr r, my c My_free_result l))"

section \<open>Construction from a statement\<close>

text \<open>
  The loop over the rows: a row that cannot be fetched sets the error and ends
  the loop. The buffers bound to the columns are as long as the longest
  value of the column, and never null.
\<close>

fun fetch_rows ::
  "mysql_client \<Rightarrow> conn \<Rightarrow> stmt_handle \<Rightarrow> nat \<Rightarrow> nat list \<Rightarrow> result \<Rightarrow> my_log \<Rightarrow>
    (fault + result) \<times> my_log"
where
  "fetch_rows M c h colCount [] r l = (Inr r, l)"
| "fetch_rows M c h colCount (i # is) r l =
    (let l = my c (Stmt_fetch h) l in
     if s_fetch M l h = 0
     then (case set_row colCount i (s_column M l h) r of
             Inl f \<Rightarrow> (Inl f, l)
           | Inr r \<Rightarrow> fetch_rows M c h colCount is r l)
     else (Inr (r\<lparr>m_iError := s_errno M l h, m_strError := Stmt_text h\<rparr>), l))"

definition Result_stmt ::
  "mysql_client \<Rightarrow> conn \<Rightarrow> stmt_handle \<Rightarrow> my_log \<Rightarrow> (fault + result) \<times> my_log"
where
  "Result_stmt M c h l =
    (let r = (Result_error (s_errno M l h) (Stmt_text h))
           \<lparr>m_iLastID := Some (u64_to_double (s_insert_id M l h)),
            m_iAffected := Some (u64_to_double (s_affected_rows M l h))\<rparr>;
         l = my c (Stmt_store_result h) l;
         l = my c (Stmt_metadata h) l in
     case s_metadata M l h of
       None \<Rightarrow> (Inr r, my c My_free_result l)
     | Some p \<Rightarrow>
         let colCount = sint (s_field_count M l h);
             rowCount = sint (ucast (s_num_rows M l h) :: 32 word) in
         if colCount = 0 \<and> rowCount = 0 then (Inr r, my c My_free_result l) else
         case Resize colCount rowCount r of
           Inl f \<Rightarrow> (Inl f, l)
         | Inr r \<Rightarrow>
             case each (set_column (field_direct p)) [0..<nat colCount] r of
               Inl f \<Rightarrow> (Inl f, l)
             | Inr r \<Rightarrow>
                 let l = my c (Stmt_bind_result h
                           (map (\<lambda>i. f_max_length (field_direct p i)) [0..<nat colCount])) l in
                 case fetch_rows M c h (nat colCount) [0..<nat rowCount] r l of
                   (Inl f, l) \<Rightarrow> (Inl f, l)
                 | (Inr r, l) \<Rightarrow> (Inr r, my c My_free_result l))"

section \<open>Destruction\<close>

text \<open>The arrays that \<open>Resize\<close> allocates and those that the destructor deletes.\<close>

datatype result_array = Names | Types | Rows | Nulls | Row nat | Null_row nat

definition allocated_arrays :: "int \<Rightarrow> int \<Rightarrow> result_array list" where
  "allocated_arrays colCount rowCount =
    [Names, Types] @
    (if rowCount = 0 then []
     else [Rows, Nulls] @ concat (map (\<lambda>i. [Row i, Null_row i]) [0..<nat rowCount]))"

definition Result_delete :: "result \<Rightarrow> result_array list" where
  "Result_delete r =
    (if m_colCount r = 0 then [] else
     [Names, Types] @
     (if m_rowCount r = 0 then []
      else concat (map (\<lambda>i. [Row i, Null_row i]) [0..<nat (m_rowCount r)]) @ [Rows, Nulls]))"

section \<open>The Lua table of a result\<close>

text \<open>
  What reading \<open>m_strError\<close> gives at the time of the log \<open>l\<close>; \<open>dead\<close> is what the
  memory of a destroyed string holds.
\<close>

fun read_error :: "mysql_client \<Rightarrow> string \<Rightarrow> my_log \<Rightarrow> error_text \<Rightarrow> string" where
  "read_error M dead l (Conn_text c) = m_error M l c"
| "read_error M dead l (Stmt_text h) = s_error M l h"
| "read_error M dead l Dead_text = dead"

text \<open>\<open>m_iAffected == (uint64_t)-1 ? -1.0 : m_iAffected\<close>, where the integer is converted to double.\<close>

definition affected_number :: "result \<Rightarrow> number" where
  "affected_number r =
    (case m_iAffected r of
       None \<Rightarrow> Unset_number
     | Some d \<Rightarrow> Num (if d = u64_to_double (- 1) then whole (- 1) else d))"

definition lastid_number :: "result \<Rightarrow> number" where
  "lastid_number r = (case m_iLastID r of None \<Rightarrow> Unset_number | Some d \<Rightarrow> Num d)"

definition push_cell :: "result \<Rightarrow> nat \<Rightarrow> nat \<Rightarrow> lua_log \<Rightarrow> lua_log" where
  "push_cell r row c l =
    (if the (m_nullRowValues r) ! row ! c then lua PushNil l
     else if IS_NUM (the (m_columnTypes r) ! c) \<and> the (m_columnTypes r) ! c \<noteq> MYSQL_TYPE_LONGLONG
     then lua (PushNumber (Atof (the (m_rows r) ! row ! c))) l
     else lua (PushString (the (m_rows r) ! row ! c)) l)"

definition populate_column :: "result \<Rightarrow> bool \<Rightarrow> nat \<Rightarrow> nat \<Rightarrow> lua_log \<Rightarrow> lua_log" where
  "populate_column r useNumbers row c l =
    (let l = (if useNumbers then lua (PushNumber (Num (whole (int c + 1)))) l else l);
         l = push_cell r row c l in
     if useNumbers then lua (SetTable (- 3)) l
     else lua (SetField (- 2) (the (m_columnNames r) ! c)) l)"

definition populate_row :: "lua_host \<Rightarrow> result \<Rightarrow> bool \<Rightarrow> nat \<Rightarrow> lua_log \<Rightarrow> lua_log" where
  "populate_row L r useNumbers row l =
    (let l = lua CreateTable l;
         (resultrow, l) = lua_ref L l;
         l = lua (PushNumber (Num (whole (int row + 1)))) l;
         l = lua (ReferencePush resultrow) l;
         l = lua (ReferenceFree resultrow) l;
         l = fold (populate_column r useNumbers row) [0..<nat (m_colCount r)] l in
     lua (SetTable (- 3)) l)"

text \<open>
  \<open>err\<close> is what reading \<open>m_strError\<close> gives. When \<open>m_rows\<close> was never set its test
  against the null pointer may go either way: \<open>junk_null\<close> says which.
\<close>

definition PopulateLuaTable ::
  "lua_host \<Rightarrow> bool \<Rightarrow> string \<Rightarrow> result \<Rightarrow> bool \<Rightarrow> lua_log \<Rightarrow> lua_log"
where
  "PopulateLuaTable L junk_null err r useNumbers l =
    (let status = (m_iError r = 0);
         l = lua (PushBool status) l;
         l = lua (SetField (- 2) ''status'') l in
     if \<not> status then
       (let l = lua (PushString err) l;
            l = lua (SetField (- 2) ''error'') l;
            l = lua (PushNumber (Num (whole (sint (m_iError r))))) l in
        lua (SetField (- 2) ''errorid'') l)
     else
       (let l = lua (PushNumber (affected_number r)) l;
            l = lua (SetField (- 2) ''affected'') l;
            l = lua (PushNumber (lastid_number r)) l;
            l = lua (SetField (- 2) ''lastid'') l;
            l = lua CreateTable l in
        if m_rows r = None \<and> junk_null then lua (SetField (- 2) ''data'') l
        else lua (SetField (- 2) ''data'')
               (fold (populate_row L r useNumbers) [0..<nat (m_rowCount r)] l)))"

end
