(* ===== verification/Result_Lua.thy ===== *)
theory Result_Lua
  imports Result_Table
begin

text \<open>
  What \<open>PopulateLuaTable\<close> does to the Lua host: the stack and the references are as
  before, and under the documented meaning of the calls the table on top of
  the stack becomes the results structure of the README.
\<close>

section \<open>Stack and references\<close>

lemma populate_column_change:
  "stack_depth (populate_column r un row c l) = stack_depth l \<and>
   held i (populate_column r un row c l) = held i l"
  by (simp add: populate_column_def push_cell_def Let_def)

lemma populate_row_change:
  "stack_depth (populate_row L r un row l) = stack_depth l \<and>
   held i (populate_row L r un row l) = held i l"
  using fold_log_change [where f = "populate_column r un row" and r = i,
      OF populate_column_change]
  by (simp add: populate_row_def lua_ref_def Let_def)

text \<open>For every result and every host the depth of the stack stays, and every reference made is freed.\<close>

lemma populate_change:
  "stack_depth (PopulateLuaTable L j err r un l) = stack_depth l"
  "held i (PopulateLuaTable L j err r un l) = held i l"
  using fold_log_change [where f = "populate_row L r un" and r = i,
      OF populate_row_change]
  by (simp_all add: PopulateLuaTable_def Let_def)

section \<open>The rows\<close>

definition lua_cell :: "result \<Rightarrow> nat \<Rightarrow> nat \<Rightarrow> lua_value" where
  "lua_cell r row c =
    (case cell r row c of
       None \<Rightarrow> V_nil
     | Some s \<Rightarrow>
         if IS_NUM (the (m_columnTypes r) ! c) \<and> the (m_columnTypes r) ! c \<noteq> MYSQL_TYPE_LONGLONG
         then V_number (Atof s) else V_string s)"

definition column_key :: "result \<Rightarrow> bool \<Rightarrow> nat \<Rightarrow> lua_value" where
  "column_key r un c =
    (if un then V_number (Num (whole (int c + 1))) else V_string (the (m_columnNames r) ! c))"

text \<open>The table of a row: later columns of the same name win.\<close>

definition row_table :: "result \<Rightarrow> bool \<Rightarrow> nat \<Rightarrow> lua_value \<Rightarrow> lua_value" where
  "row_table r un row =
    fold (\<lambda>c t. t(column_key r un c := lua_cell r row c)) [0..<nat (m_colCount r)] (\<lambda>_. V_nil)"

definition row_key :: "nat \<Rightarrow> lua_value" where
  "row_key i = V_number (Num (whole (int i + 1)))"

lemma row_key_inj [simp]: "row_key i = row_key j \<longleftrightarrow> i = j"
  by (simp add: row_key_def whole_def)

lemma log_append:
  "populate_column r un row c l = l @ populate_column r un row c []"
  by (simp add: populate_column_def push_cell_def lua_def Let_def)

lemma fold_log_append:
  assumes "\<And>x l. f x l = l @ f x []"
  shows "fold f xs l = l @ fold f xs []"
proof (induction xs arbitrary: l)
  case (Cons x xs)
  show ?case
    by (simp add: Cons [of "f x l"] Cons [of "f x []"]) (simp add: assms [of x l])
qed simp

lemmas columns_append = fold_log_append [where f = "populate_column r un row" for r un row, OF log_append]

lemma perform_column:
  assumes "stack s = V_table t # rest"
  shows "perform_all (populate_column r un row c []) s =
    Some (set_key t (column_key r un c) (lua_cell r row c) s)"
  using assms
  by (auto simp: populate_column_def push_cell_def lua_def lua_cell_def cell_def column_key_def
      set_key_def Let_def)

lemma perform_columns:
  assumes "stack s = V_table t # rest"
  shows "perform_all (fold (populate_column r un row) cs []) s =
    Some (s\<lparr>tables := (tables s)(t :=
      fold (\<lambda>c f. f(column_key r un c := lua_cell r row c)) cs (tables s t))\<rparr>)"
  using assms
proof (induction cs arbitrary: s)
  case Nil
  then show ?case by simp
next
  case (Cons c cs)
  have "fold (populate_column r un row) (c # cs) [] =
      populate_column r un row c [] @ fold (populate_column r un row) cs []"
    by (simp add: columns_append [of _ _ _ cs "populate_column r un row c []"])
  note split = this
  let ?g = "\<lambda>c f. f(column_key r un c := lua_cell r row c)"
  let ?s = "set_key t (column_key r un c) (lua_cell r row c) s"
  have st: "stack ?s = V_table t # rest" using Cons.prems by (simp add: set_key_def)
  have "perform_all (fold (populate_column r un row) (c # cs) []) s =
      Some (?s\<lparr>tables := (tables ?s)(t := fold ?g cs (tables ?s t))\<rparr>)"
    by (simp only: split perform_all_append perform_column [OF Cons.prems] bind.bind_lunit
        Cons.IH [OF st])
  also have "(tables ?s)(t := fold ?g cs (tables ?s t)) =
      (tables s)(t := fold ?g (c # cs) (tables s t))"
    by (simp add: set_key_def)
  also have "?s\<lparr>tables := y\<rparr> = s\<lparr>tables := y\<rparr>" for y by (simp add: set_key_def)
  finally show ?case .
qed

definition row_events :: "int \<Rightarrow> result \<Rightarrow> bool \<Rightarrow> nat \<Rightarrow> lua_log" where
  "row_events ref r un row =
    [CreateTable, ReferenceCreate ref, PushNumber (Num (whole (int row + 1))),
     ReferencePush ref, ReferenceFree ref] @
    fold (populate_column r un row) [0..<nat (m_colCount r)] [] @ [SetTable (- 3)]"

lemma populate_row_events:
  "populate_row L r un row l = l @ row_events (l_ReferenceCreate L (l @ [CreateTable])) r un row"
  by (simp add: populate_row_def lua_ref_def lua_def row_events_def Let_def
      columns_append [of _ _ _ _ "_ @ _"])

lemma perform_row:
  assumes "stack s = V_table d # rest" "d < new_table s" "refs s ref = None"
  shows "perform_all (row_events ref r un row) s =
    Some (s\<lparr>tables := (tables s)(new_table s := row_table r un row,
              d := (tables s d)(row_key row := V_table (new_table s))),
            new_table := new_table s + 1\<rparr>)"
proof -
  let ?n = "new_table s"
  let ?s1 = "s\<lparr>stack := V_table ?n # row_key row # stack s,
    tables := (tables s)(?n := \<lambda>_. V_nil), new_table := ?n + 1\<rparr>"
  have r: "(refs s)(ref := None) = refs s" using assms(3) by auto
  have calls: "perform_all [CreateTable, ReferenceCreate ref, PushNumber (Num (whole (int row + 1))),
      ReferencePush ref, ReferenceFree ref] s = Some ?s1"
    using assms(3) r by (simp add: row_key_def)
  have columns: "perform_all (fold (populate_column r un row) [0..<nat (m_colCount r)] []) ?s1 =
    Some (?s1\<lparr>tables := (tables s)(?n := row_table r un row)\<rparr>)"
    by (subst perform_columns [of _ ?n]) (simp_all add: row_table_def)
  have "perform_all [SetTable (- 3)] (?s1\<lparr>tables := (tables s)(?n := row_table r un row)\<rparr>) =
    Some (s\<lparr>tables := (tables s)(?n := row_table r un row, d := (tables s d)(row_key row := V_table ?n)),
            new_table := ?n + 1\<rparr>)"
    using assms(1,2) by (simp add: set_key_def row_key_def)
  then show ?thesis
    by (simp only: row_events_def perform_all_append calls columns bind.bind_lunit)
qed

text \<open>The loop over the rows \<open>j\<close> to \<open>j + m - 1\<close>: each becomes a new table under its number.\<close>

lemma perform_rows_new:
  assumes "stack s = V_table d # rest" "d < new_table s" "fresh_references L past s"
  shows "\<exists>ev s'. fold (populate_row L r un) [j..<j + m] past = past @ ev \<and>
    perform_all ev s = Some s' \<and> stack s' = stack s \<and> refs s' = refs s \<and>
    (\<forall>i. j \<le> i \<and> i < j + m \<longrightarrow>
      (\<exists>t. tables s' d (row_key i) = V_table t \<and> tables s' t = row_table r un i)) \<and>
    (\<forall>k. (\<forall>i. j \<le> i \<and> i < j + m \<longrightarrow> k \<noteq> row_key i) \<longrightarrow> tables s' d k = tables s d k) \<and>
    (\<forall>u < new_table s. u \<noteq> d \<longrightarrow> tables s' u = tables s u) \<and> new_table s \<le> new_table s' \<and>
    (\<forall>i. j \<le> i \<and> i < j + m \<longrightarrow> (\<forall>u. tables s' d (row_key i) = V_table u \<longrightarrow> new_table s \<le> u \<and> u < new_table s'))"
  using assms
proof (induction m arbitrary: j s past)
  case 0
  then show ?case by auto
next
  case (Suc m)
  let ?n = "new_table s"
  define ref where "ref = l_ReferenceCreate L (past @ [CreateTable])"
  have "refs s ref = None"
    using Suc.prems(3) [unfolded fresh_references_def, rule_format, of "[CreateTable]"]
    by (simp add: ref_def)
  note row = perform_row [OF Suc.prems(1,2) this, of r un j]
  define s1 where "s1 = s\<lparr>tables := (tables s)(?n := row_table r un j,
      d := (tables s d)(row_key j := V_table ?n)), new_table := ?n + 1\<rparr>"
  have s1: "stack s1 = V_table d # rest" "d < new_table s1" "new_table s1 = ?n + 1"
    "refs s1 = refs s" "tables s1 ?n = row_table r un j" "tables s1 d (row_key j) = V_table ?n"
    using Suc.prems(1,2) by (simp_all add: s1_def)
  have s1_other: "tables s1 d k = tables s d k" if "k \<noteq> row_key j" for k
    using that by (simp add: s1_def)
  have s1_tables: "tables s1 u = tables s u" if "u < ?n" "u \<noteq> d" for u
    using that by (simp add: s1_def)
  have p1: "perform_all (row_events ref r un j) s = Some s1" using row by (simp add: s1_def)
  have f1: "fresh_references L (past @ row_events ref r un j) s1"
    by (rule fresh_references_step [OF Suc.prems(3) p1])
  obtain ev s' where IH:
    "fold (populate_row L r un) [Suc j..<Suc j + m] (past @ row_events ref r un j) =
      (past @ row_events ref r un j) @ ev"
    "perform_all ev s1 = Some s'" "stack s' = stack s1" "refs s' = refs s1"
    "\<forall>i. Suc j \<le> i \<and> i < Suc j + m \<longrightarrow>
      (\<exists>t. tables s' d (row_key i) = V_table t \<and> tables s' t = row_table r un i)"
    "\<forall>k. (\<forall>i. Suc j \<le> i \<and> i < Suc j + m \<longrightarrow> k \<noteq> row_key i) \<longrightarrow> tables s' d k = tables s1 d k"
    "\<forall>u < new_table s1. u \<noteq> d \<longrightarrow> tables s' u = tables s1 u" "new_table s1 \<le> new_table s'"
    "\<forall>i. Suc j \<le> i \<and> i < Suc j + m \<longrightarrow>
      (\<forall>u. tables s' d (row_key i) = V_table u \<longrightarrow> new_table s1 \<le> u \<and> u < new_table s')"
    using Suc.IH [OF s1(1,2) f1, of "Suc j"] by blast
  have log: "fold (populate_row L r un) [j..<j + Suc m] past =
      past @ (row_events ref r un j @ ev)"
    using IH(1) by (simp add: upt_rec populate_row_events ref_def)
  have jth: "tables s' d (row_key j) = V_table ?n"
  proof -
    have "\<forall>i. Suc j \<le> i \<and> i < Suc j + m \<longrightarrow> row_key j \<noteq> row_key i" by auto
    then show ?thesis using IH(6) s1(6) by metis
  qed
  moreover have "tables s' ?n = row_table r un j"
    using IH(7) s1(3,5) Suc.prems(2) by simp
  ultimately have rows: "\<forall>i. j \<le> i \<and> i < j + Suc m \<longrightarrow>
      (\<exists>t. tables s' d (row_key i) = V_table t \<and> tables s' t = row_table r un i)"
    using IH(5) by (metis Suc_leI add_Suc_right add_Suc_shift le_neq_implies_less)
  have others: "\<forall>k. (\<forall>i. j \<le> i \<and> i < j + Suc m \<longrightarrow> k \<noteq> row_key i) \<longrightarrow> tables s' d k = tables s d k"
  proof (intro allI impI)
    fix k
    assume k: "\<forall>i. j \<le> i \<and> i < j + Suc m \<longrightarrow> k \<noteq> row_key i"
    then have "k \<noteq> row_key j" by simp
    moreover have "\<forall>i. Suc j \<le> i \<and> i < Suc j + m \<longrightarrow> k \<noteq> row_key i" using k by simp
    ultimately show "tables s' d k = tables s d k" using IH(6) s1_other by simp
  qed
  have news: "\<forall>i. j \<le> i \<and> i < j + Suc m \<longrightarrow> (\<forall>u. tables s' d (row_key i) = V_table u \<longrightarrow> ?n \<le> u \<and> u < new_table s')"
  proof (intro allI impI)
    fix i u
    assume i: "j \<le> i \<and> i < j + Suc m" and u: "tables s' d (row_key i) = V_table u"
    show "?n \<le> u \<and> u < new_table s'"
    proof (cases "i = j")
      case True
      with u jth have "u = ?n" by simp
      with IH(8) s1(3) show ?thesis by simp
    next
      case False
      with i have "Suc j \<le> i" "i < Suc j + m" by simp_all
      with u have "new_table s1 \<le> u" "u < new_table s'" using IH(9) by blast+
      then show ?thesis using s1(3) by simp
    qed
  qed
  have keep: "\<forall>u < ?n. u \<noteq> d \<longrightarrow> tables s' u = tables s u"
    using IH(7) s1(3) s1_tables by simp
  show ?case
    by (rule exI [of _ "row_events ref r un j @ ev"], rule exI [of _ s'])
      (use log p1 IH(2,3,4,8) s1 rows others keep news Suc.prems(1) in
        \<open>simp add: perform_all_append\<close>)
qed

section \<open>The whole table\<close>

text \<open>
  The table \<open>f\<close> shows the result \<open>r\<close>: for a successful result \<open>status\<close>, \<open>affected\<close>, \<open>lastid\<close>
  and under \<open>data\<close> a table that holds, under the row numbers from 1 and nothing
  else, one table per row with the columns under their names or numbers; for a
  failed one \<open>status\<close>, \<open>error\<close> and \<open>errorid\<close>. The tables below it have the numbers
  from \<open>lo\<close> to \<open>hi\<close>.
\<close>

definition table_shows ::
  "(nat \<Rightarrow> lua_value \<Rightarrow> lua_value) \<Rightarrow> nat \<Rightarrow> nat \<Rightarrow> (lua_value \<Rightarrow> lua_value) \<Rightarrow>
    result \<Rightarrow> bool \<Rightarrow> string \<Rightarrow> bool"
where
  "table_shows T lo hi f r un err \<longleftrightarrow>
    f (V_string ''status'') = V_bool (m_iError r = 0) \<and>
    (if m_iError r = 0 then
       f (V_string ''affected'') = V_number (affected_number r) \<and>
       f (V_string ''lastid'') = V_number (lastid_number r) \<and>
       (\<exists>d. f (V_string ''data'') = V_table d \<and> lo \<le> d \<and> d < hi \<and>
         (\<forall>i < nat (m_rowCount r). \<exists>u. T d (row_key i) = V_table u \<and> lo \<le> u \<and> u < hi \<and>
           T u = row_table r un i) \<and>
         (\<forall>k. (\<forall>i < nat (m_rowCount r). k \<noteq> row_key i) \<longrightarrow> T d k = V_nil))
     else
       f (V_string ''error'') = V_string err \<and>
       f (V_string ''errorid'') = V_number (Num (whole (sint (m_iError r)))))"

lemma table_shows_mono:
  assumes "table_shows T lo hi f r un err" "\<And>u. lo \<le> u \<Longrightarrow> u < hi \<Longrightarrow> T' u = T u"
    and "lo' \<le> lo" "hi \<le> hi'"
  shows "table_shows T' lo' hi' f r un err"
proof (cases "m_iError r = 0")
  case True
  then obtain d where d: "f (V_string ''data'') = V_table d" "lo \<le> d" "d < hi"
    "\<forall>i < nat (m_rowCount r). \<exists>u. T d (row_key i) = V_table u \<and> lo \<le> u \<and> u < hi \<and> T u = row_table r un i"
    "\<forall>k. (\<forall>i < nat (m_rowCount r). k \<noteq> row_key i) \<longrightarrow> T d k = V_nil"
    using assms(1) by (auto simp: table_shows_def)
  have "T' d = T d" using assms(2) d(2,3) by simp
  moreover have "\<forall>i < nat (m_rowCount r). \<exists>u. T d (row_key i) = V_table u \<and> lo' \<le> u \<and> u < hi' \<and>
      T' u = row_table r un i"
  proof (intro allI impI)
    fix i
    assume "i < nat (m_rowCount r)"
    then obtain u where u: "T d (row_key i) = V_table u" "lo \<le> u" "u < hi" "T u = row_table r un i"
      using d(4) by blast
    then have "lo' \<le> u" "u < hi'" "T' u = row_table r un i" using assms(2-4) by simp_all
    with u show "\<exists>u. T d (row_key i) = V_table u \<and> lo' \<le> u \<and> u < hi' \<and> T' u = row_table r un i"
      by blast
  qed
  moreover have "lo' \<le> d" "d < hi'" using d(2,3) assms(3,4) by simp_all
  ultimately show ?thesis
    using assms(1) d True by (auto simp: table_shows_def)
next
  case False
  then show ?thesis using assms(1) by (simp add: table_shows_def)
qed

lemma table_shows_upd:
  assumes "table_shows T lo hi f r un err"
    and "k \<notin> {V_string ''status'', V_string ''affected'', V_string ''lastid'', V_string ''data'',
      V_string ''error'', V_string ''errorid''}"
  shows "table_shows T lo hi (f(k := v)) r un err"
  using assms by (auto simp: table_shows_def)

lemma populate_failure:
  assumes "stack s = V_table t # rest" "m_iError r \<noteq> 0"
  shows "\<exists>ev. PopulateLuaTable L j err r un past = past @ ev \<and>
    perform_all ev s = Some (s\<lparr>tables := (tables s)(t := (tables s t)
      (V_string ''status'' := V_bool False, V_string ''error'' := V_string err,
       V_string ''errorid'' := V_number (Num (whole (sint (m_iError r))))))\<rparr>)"
  using assms by (simp add: PopulateLuaTable_def lua_def set_key_def Let_def)

lemma populate_success:
  assumes "stack s = V_table t # rest" "t < new_table s" "fresh_references L past s"
    and "result_ok r" "m_iError r = 0"
  shows "\<exists>ev s'. PopulateLuaTable L j err r un past = past @ ev \<and>
    perform_all ev s = Some s' \<and> stack s' = stack s \<and> refs s' = refs s \<and>
    new_table s \<le> new_table s' \<and> (\<forall>u < new_table s. u \<noteq> t \<longrightarrow> tables s' u = tables s u) \<and>
    table_shows (tables s') (new_table s) (new_table s') (tables s' t) r un err"
proof -
  let ?n = "new_table s"
  define T where "T = (tables s t)(V_string ''status'' := V_bool True,
      V_string ''affected'' := V_number (affected_number r),
      V_string ''lastid'' := V_number (lastid_number r))"
  define H where "H = [PushBool True, SetField (- 2) ''status'', PushNumber (affected_number r),
    SetField (- 2) ''affected'', PushNumber (lastid_number r), SetField (- 2) ''lastid'', CreateTable]"
  define s1 where "s1 = s\<lparr>stack := V_table ?n # V_table t # rest,
    tables := (tables s)(t := T, ?n := \<lambda>_. V_nil), new_table := ?n + 1\<rparr>"
  have p1: "perform_all H s = Some s1"
    using assms(1,2) by (simp add: H_def s1_def T_def set_key_def)
  have s1: "stack s1 = V_table ?n # V_table t # rest" "?n < new_table s1" "refs s1 = refs s"
    "tables s1 ?n = (\<lambda>_. V_nil)" "tables s1 t = T" "new_table s1 = ?n + 1"
    using assms(2) by (simp_all add: s1_def)
  have s1_tables: "tables s1 u = tables s u" if "u < ?n" "u \<noteq> t" for u
    using that by (simp add: s1_def)
  have f1: "fresh_references L (past @ H) s1" by (rule fresh_references_step [OF assms(3) p1])
  obtain ev s2 where rows:
    "fold (populate_row L r un) [0..<nat (m_rowCount r)] (past @ H) = (past @ H) @ ev"
    "perform_all ev s1 = Some s2" "stack s2 = stack s1" "refs s2 = refs s1"
    "\<forall>i < nat (m_rowCount r).
      (\<exists>u. tables s2 ?n (row_key i) = V_table u \<and> tables s2 u = row_table r un i)"
    "\<forall>k. (\<forall>i < nat (m_rowCount r). k \<noteq> row_key i) \<longrightarrow> tables s2 ?n k = tables s1 ?n k"
    "\<forall>u < new_table s1. u \<noteq> ?n \<longrightarrow> tables s2 u = tables s1 u" "new_table s1 \<le> new_table s2"
    "\<forall>i < nat (m_rowCount r). \<forall>u. tables s2 ?n (row_key i) = V_table u \<longrightarrow>
      ?n \<le> u \<and> u < new_table s2"
    using perform_rows_new [OF s1(1,2) f1, of r un 0 "nat (m_rowCount r)"] s1(6)
    by fastforce
  have "m_rows r = None \<Longrightarrow> nat (m_rowCount r) = 0"
    using assms(4) by (auto simp: result_ok_def split: if_splits)
  then have log: "PopulateLuaTable L j err r un past = past @ (H @ ev @ [SetField (- 2) ''data''])"
    using rows(1) assms(5) by (auto simp: PopulateLuaTable_def lua_def H_def Let_def)
  define s' where "s' = s2\<lparr>stack := V_table t # rest,
    tables := (tables s2)(t := T(V_string ''data'' := V_table ?n))\<rparr>"
  have "tables s2 t = T" using rows(7) assms(2) s1(5,6) by simp
  then have "perform_all [SetField (- 2) ''data''] s2 = Some s'"
    using rows(3) s1(1) by (simp add: set_key_def s'_def)
  with p1 rows(2) have p: "perform_all (H @ ev @ [SetField (- 2) ''data'']) s = Some s'"
    by (simp only: perform_all_append bind.bind_lunit)
  have hi: "new_table s' = new_table s2" "?n < new_table s'" using rows(8) s1(6) by (simp_all add: s'_def)
  have "?n \<noteq> t" using assms(2) by simp
  have d: "\<forall>i < nat (m_rowCount r). \<exists>u. tables s' ?n (row_key i) = V_table u \<and>
      ?n \<le> u \<and> u < new_table s' \<and> tables s' u = row_table r un i"
  proof (intro allI impI)
    fix i
    assume i: "i < nat (m_rowCount r)"
    then obtain u where u: "tables s2 ?n (row_key i) = V_table u" "tables s2 u = row_table r un i"
      using rows(5) by blast
    with i have lo: "?n \<le> u" "u < new_table s2" using rows(9) by auto
    then have "u \<noteq> t" using assms(2) by simp
    with u lo \<open>?n \<noteq> t\<close> hi(1) show "\<exists>u. tables s' ?n (row_key i) = V_table u \<and>
        ?n \<le> u \<and> u < new_table s' \<and> tables s' u = row_table r un i"
      by (simp add: s'_def)
  qed
  have nil: "\<forall>k. (\<forall>i < nat (m_rowCount r). k \<noteq> row_key i) \<longrightarrow> tables s' ?n k = V_nil"
    using rows(6) s1(4) \<open>?n \<noteq> t\<close> by (simp add: s'_def)
  have keep: "\<forall>u < ?n. u \<noteq> t \<longrightarrow> tables s' u = tables s u"
    using rows(7) s1(6) s1_tables by (simp add: s'_def)
  have top: "tables s' t = T(V_string ''data'' := V_table ?n)" by (simp add: s'_def)
  have "tables s' t (V_string ''status'') = V_bool True"
    "tables s' t (V_string ''affected'') = V_number (affected_number r)"
    "tables s' t (V_string ''lastid'') = V_number (lastid_number r)"
    "tables s' t (V_string ''data'') = V_table ?n"
    unfolding top T_def by simp_all
  then have "table_shows (tables s') ?n (new_table s') (tables s' t) r un err"
    using d nil hi assms(5) by (auto simp: table_shows_def)
  moreover have "stack s' = stack s" "refs s' = refs s"
    using assms(1) rows(4) s1(3) by (simp_all add: s'_def)
  ultimately show ?thesis using log p keep hi by (metis less_imp_le)
qed

text \<open>Both cases together.\<close>

lemma populate_shows:
  assumes "stack s = V_table t # rest" "t < new_table s" "fresh_references L past s" "result_ok r"
  shows "\<exists>ev s'. PopulateLuaTable L j err r un past = past @ ev \<and>
    perform_all ev s = Some s' \<and> stack s' = stack s \<and> refs s' = refs s \<and>
    new_table s \<le> new_table s' \<and> (\<forall>u < new_table s. u \<noteq> t \<longrightarrow> tables s' u = tables s u) \<and>
    table_shows (tables s') (new_table s) (new_table s') (tables s' t) r un err"
proof (cases "m_iError r = 0")
  case True
  then show ?thesis by (rule populate_success [OF assms])
next
  case False
  define s' where "s' = s\<lparr>tables := (tables s)(t := (tables s t)
      (V_string ''status'' := V_bool False, V_string ''error'' := V_string err,
       V_string ''errorid'' := V_number (Num (whole (sint (m_iError r))))))\<rparr>"
  obtain ev where "PopulateLuaTable L j err r un past = past @ ev" "perform_all ev s = Some s'"
    using populate_failure [OF assms(1) False] unfolding s'_def by blast
  moreover have "table_shows (tables s') (new_table s) (new_table s') (tables s' t) r un err"
    using False by (simp add: table_shows_def s'_def)
  moreover have "stack s' = stack s" "refs s' = refs s" "new_table s' = new_table s"
    "\<forall>u < new_table s. u \<noteq> t \<longrightarrow> tables s' u = tables s u"
    by (simp_all add: s'_def)
  ultimately show ?thesis by (metis order_refl)
qed

text \<open>C30: PopulateLuaTable makes the table on top of the stack show the result, with
  new tables below it; other tables, the stack and the references stay, and
  the outcome of the test of an unset m_rows does not matter.\<close>

theorem populate_builds_results:
  assumes "stack s = V_table t # rest" "t < new_table s" "fresh_references L past s" "result_ok r"
  shows "\<exists>ev s'. PopulateLuaTable L j err r un past = past @ ev \<and>
    perform_all ev s = Some s' \<and> stack s' = stack s \<and> refs s' = refs s \<and>
    (\<forall>u < new_table s. u \<noteq> t \<longrightarrow> tables s' u = tables s u) \<and>
    table_shows (tables s') (new_table s) (new_table s') (tables s' t) r un err"
  using populate_shows [OF assms] by blast

text \<open>C31: for a failed result PopulateLuaTable sets status to false, error to what the
  error pointer shows, errorid to the error number, and nothing else, so that
  data, affected and lastid stay nil.\<close>

theorem populate_reports_error:
  assumes "stack s = V_table t # rest" "m_iError r \<noteq> 0"
  shows "\<exists>ev. PopulateLuaTable L j err r un past = past @ ev \<and>
    perform_all ev s = Some (s\<lparr>tables := (tables s)(t := (tables s t)
      (V_string ''status'' := V_bool False, V_string ''error'' := V_string err,
       V_string ''errorid'' := V_number (Num (whole (sint (m_iError r))))))\<rparr>)"
  by (rule populate_failure [OF assms])

text \<open>A result of one row with a number and a NULL, and a machine with an empty table on its stack.\<close>

definition sample_result :: result where
  "sample_result = \<lparr>m_strError = Dead_text, m_iError = 0, m_iLastID = Some (whole 4),
     m_iAffected = Some (whole 1), m_rowCount = 1, m_colCount = 2,
     m_columnNames = Some [''id'', ''who''], m_columnTypes = Some [3, 253],
     m_rows = Some [[''42'', '''']], m_nullRowValues = Some [[False, True]]\<rparr>"

definition sample_machine :: lua_machine where
  "sample_machine = \<lparr>stack = [V_table 0], tables = (\<lambda>_ _. V_nil), new_table = 1,
     refs = (\<lambda>_. None)\<rparr>"

lemma sample_result_ok: "result_ok sample_result" "m_iError sample_result = 0"
  by (simp_all add: sample_result_def result_ok_def rectangle_def)

theorem populate_builds_results_witness:
  "\<exists>s' d u. perform_all (PopulateLuaTable sample_host True '''' sample_result False []) sample_machine = Some s' \<and>
     tables s' 0 (V_string ''status'') = V_bool True \<and>
     tables s' 0 (V_string ''data'') = V_table d \<and>
     tables s' d (row_key 0) = V_table u \<and>
     tables s' u (V_string ''id'') = V_number (Atof ''42'') \<and>
     tables s' u (V_string ''who'') = V_nil"
proof -
  have m: "stack sample_machine = V_table 0 # []" "0 < new_table sample_machine"
    "fresh_references sample_host [] sample_machine"
    by (simp_all add: sample_machine_def sample_host_fresh)
  obtain ev s' where r:
    "PopulateLuaTable sample_host True '''' sample_result False [] = [] @ ev"
    "perform_all ev sample_machine = Some s'"
    "table_shows (tables s') 1 (new_table s') (tables s' 0) sample_result False ''''"
    using populate_builds_results [OF m sample_result_ok(1), of True "''''" False]
    by (auto simp: sample_machine_def)
  then obtain d u where top: "tables s' 0 (V_string ''status'') = V_bool True"
    "tables s' 0 (V_string ''data'') = V_table d" "tables s' d (row_key 0) = V_table u"
    and u: "tables s' u = row_table sample_result False 0"
    by (auto simp: table_shows_def sample_result_ok(2)) (auto simp: sample_result_def)
  have two: "[0..<2] = [0, 1 :: nat]" by (simp add: upt_rec)
  have "tables s' u (V_string ''id'') = V_number (Atof ''42'')" "tables s' u (V_string ''who'') = V_nil"
    unfolding u
    by (simp_all add: row_table_def sample_result_def two column_key_def lua_cell_def cell_def
        IS_NUM_def mysql_types)
  with r top show ?thesis by auto
qed

theorem populate_reports_error_witness:
  "\<exists>ev. PopulateLuaTable sample_host True ''gone'' (Result_error 2006 Dead_text) False [] = [] @ ev \<and>
    perform_all ev sample_machine = Some (sample_machine\<lparr>tables := (tables sample_machine)(0 :=
      (tables sample_machine 0)
      (V_string ''status'' := V_bool False, V_string ''error'' := V_string ''gone'',
       V_string ''errorid'' := V_number (Num (whole (sint (m_iError (Result_error 2006 Dead_text)))))))\<rparr>)"
  by (rule populate_reports_error [of _ _ "[]"])
    (simp_all add: sample_machine_def Result_error_def)

end
