(* ===== verification/Db_Action.thy ===== *)
theory Db_Action
  imports Result_Lua
begin

text \<open>
  \<open>src/src/databaseaction.cpp\<close>, \<open>databaseaction.h\<close>, \<open>query.h\<close> and \<open>timer.h\<close>: an action
  that the thread of a database has finished, with its results and the Lua
  references of its callback, and the call of that callback on the Lua thread.
  The module is built with \<open>ENABLE_QUERY_TIMERS\<close>.
\<close>

section \<open>Timers\<close>

text \<open>The time points of \<open>steady_clock\<close>, in nanoseconds.\<close>

record timer =
  startTime :: int
  endTime :: int

definition new_timer :: timer where
  "new_timer = \<lparr>startTime = 0, endTime = 0\<rparr>"

definition Timer_Start :: "int \<Rightarrow> timer \<Rightarrow> timer" where
  "Timer_Start now t = t\<lparr>startTime := now\<rparr>"

definition Timer_Stop :: "int \<Rightarrow> timer \<Rightarrow> timer" where
  "Timer_Stop now t = t\<lparr>endTime := now\<rparr>"

definition GetElapsedSeconds :: "timer \<Rightarrow> number" where
  "GetElapsedSeconds t = Nanoseconds (endTime t - startTime t)"

section \<open>Actions\<close>

text \<open>\<open>Query\<close> adds the text of the query, which a statement's action does not have.\<close>

record action =
  a_iCallback :: int
  a_iCallbackRef :: int
  m_bUseNumbers :: bool
  m_pResults :: "result list"
  m_queryTimer :: timer
  m_strQuery :: string

definition new_action :: "int \<Rightarrow> int \<Rightarrow> bool \<Rightarrow> action" where
  "new_action callback callbackref usenumbers =
    \<lparr>a_iCallback = callback, a_iCallbackRef = callbackref, m_bUseNumbers = usenumbers,
     m_pResults = [], m_queryTimer = new_timer, m_strQuery = ''''\<rparr>"

definition new_query :: "string \<Rightarrow> int \<Rightarrow> int \<Rightarrow> bool \<Rightarrow> action" where
  "new_query query callback callbackref usenumbers =
    (new_action callback callbackref usenumbers)\<lparr>m_strQuery := query\<rparr>"

definition AddResult :: "result \<Rightarrow> action \<Rightarrow> action" where
  "AddResult r a = a\<lparr>m_pResults := m_pResults a @ [r]\<rparr>"

definition StartQueryTimer :: "int \<Rightarrow> action \<Rightarrow> action" where
  "StartQueryTimer now a = a\<lparr>m_queryTimer := Timer_Start now (m_queryTimer a)\<rparr>"

definition EndQueryTimer :: "int \<Rightarrow> action \<Rightarrow> action" where
  "EndQueryTimer now a = a\<lparr>m_queryTimer := Timer_Stop now (m_queryTimer a)\<rparr>"

section \<open>Errors of callbacks\<close>

text \<open>\<open>iRefDebugTraceBack\<close> and \<open>iRefErrorNoHalt\<close> of \<open>tmysql.cpp\<close>.\<close>

record module_refs =
  iRefDebugTraceBack :: int
  iRefErrorNoHalt :: int

definition ThrowErrorNoHalt :: "module_refs \<Rightarrow> string \<Rightarrow> lua_log \<Rightarrow> lua_log" where
  "ThrowErrorNoHalt g error l =
    (let l = lua (ReferencePush (iRefErrorNoHalt g)) l;
         l = lua (PushString (error @ [CHR 0x0A])) l in
     lua (Call 1 0) l)"

definition callback_error :: string where
  "callback_error = ''[tmysql callback error]'' @ [CHR 0x0A]"

section \<open>The callback of an action\<close>

text \<open>
  What a function of the Lua thread is given: the host, how an error pointer
  reads, the outcome of the test of an unset \<open>m_rows\<close>, and the references of
  the module.
\<close>

record lua_env =
  e_host :: lua_host
  e_text :: "error_text \<Rightarrow> string"
  e_junk :: bool
  e_refs :: module_refs

text \<open>One turn of the loop over the results, with its number.\<close>

definition push_result :: "lua_env \<Rightarrow> action \<Rightarrow> nat \<times> result \<Rightarrow> lua_log \<Rightarrow> lua_log" where
  "push_result E a ir l =
    (let (i, result) = ir;
         l = lua (PushNumber (Num (whole (int i + 1)))) l;
         l = lua CreateTable l;
         l = PopulateLuaTable (e_host E) (e_junk E) (e_text E (m_strError result)) result
               (m_bUseNumbers a) l;
         l = lua (PushNumber (GetElapsedSeconds (m_queryTimer a))) l;
         l = lua (SetField (- 2) ''time'') l in
     lua (SetTable (- 3)) l)"

definition push_results :: "lua_env \<Rightarrow> action \<Rightarrow> lua_log \<Rightarrow> lua_log" where
  "push_results E a l =
    fold (push_result E a) (List.enumerate 0 (m_pResults a)) (lua CreateTable l)"

definition TriggerCallback :: "lua_env \<Rightarrow> action \<Rightarrow> lua_log \<Rightarrow> lua_log" where
  "TriggerCallback E a l =
    (if a_iCallback a \<le> 0 then l else
     let l = lua (ReferencePush (iRefDebugTraceBack (e_refs E))) l;
         l = lua (ReferencePush (a_iCallback a)) l;
         l = lua (ReferenceFree (a_iCallback a)) l in
     if \<not> l_IsType (e_host E) l (- 1) T_Function then
       (let l = lua (Pop 2) l in
        if a_iCallbackRef a > 0 then lua (ReferenceFree (a_iCallbackRef a)) l else l)
     else
       let (args, l) =
             (if a_iCallbackRef a > 0
              then (2, lua (ReferenceFree (a_iCallbackRef a)) (lua (ReferencePush (a_iCallbackRef a)) l))
              else (1, l));
           l = push_results E a l;
           (st, l) = lua_pcall (e_host E) args 0 (- int args - 2) l in
       if st \<noteq> 0
       then lua (Pop 1) (ThrowErrorNoHalt (e_refs E)
              (callback_error @ l_GetString (e_host E) l (- 1)) l)
       else l)"

section \<open>Stack and references\<close>

lemma push_result_change:
  "stack_depth (push_result E a ir l) = stack_depth l \<and> held i (push_result E a ir l) = held i l"
  by (cases ir) (simp add: push_result_def Let_def populate_change)

lemma push_results_change [simp]:
  "stack_depth (push_results E a l) = stack_depth l + 1"
  "held i (push_results E a l) = held i l"
  using fold_log_change [where f = "push_result E a" and r = i, OF push_result_change]
  by (simp_all add: push_results_def)

lemma ThrowErrorNoHalt_change [simp]:
  "stack_depth (ThrowErrorNoHalt g e l) = stack_depth l"
  "held i (ThrowErrorNoHalt g e l) = held i l"
  by (simp_all add: ThrowErrorNoHalt_def Let_def)

text \<open>Whether the callback of an action is a function when its turn comes.\<close>

definition callback_runs :: "lua_env \<Rightarrow> action \<Rightarrow> lua_log \<Rightarrow> bool" where
  "callback_runs E a l \<longleftrightarrow> 0 < a_iCallback a \<and>
     l_IsType (e_host E) (l @ [ReferencePush (iRefDebugTraceBack (e_refs E)),
       ReferencePush (a_iCallback a), ReferenceFree (a_iCallback a)]) (- 1) T_Function"

lemma TriggerCallback_depth:
  "stack_depth (TriggerCallback E a l) =
     stack_depth l + (if callback_runs E a l then 1 else 0)"
  by (auto simp: TriggerCallback_def callback_runs_def Let_def lua_pcall_def lua_def)

lemma TriggerCallback_held:
  "held i (TriggerCallback E a l) = held i l -
     (if 0 < a_iCallback a
      then (if i = a_iCallback a then 1 else 0) +
           (if 0 < a_iCallbackRef a \<and> i = a_iCallbackRef a then 1 else 0)
      else 0)"
  by (auto simp: TriggerCallback_def Let_def lua_pcall_def lua_def)

definition pcalls :: "lua_log \<Rightarrow> nat" where
  "pcalls l = length (filter (\<lambda>e. case e of PCall a r h s \<Rightarrow> True | _ \<Rightarrow> False) l)"

lemma pcalls_append [simp]: "pcalls (a @ b) = pcalls a + pcalls b"
  by (simp add: pcalls_def)

lemma pcalls_Cons [simp]:
  "pcalls (e # l) = (case e of PCall a r h s \<Rightarrow> 1 | _ \<Rightarrow> 0) + pcalls l"
  by (simp add: pcalls_def split: lua_event.split)

lemma pcalls_Nil [simp]: "pcalls [] = 0"
  by (simp add: pcalls_def)

lemma pcalls_lua [simp]:
  "pcalls (lua e l) = pcalls l + (case e of PCall a r h s \<Rightarrow> 1 | _ \<Rightarrow> 0)"
  by (simp add: lua_def)

lemma fold_pcalls:
  assumes "\<And>x l. x \<in> set xs \<Longrightarrow> pcalls (f x l) = pcalls l"
  shows "pcalls (fold f xs l) = pcalls l"
  using assms by (induction xs arbitrary: l) simp_all

lemma populate_pcalls [simp]: "pcalls (PopulateLuaTable L j err r un l) = pcalls l"
proof -
  have col: "pcalls (populate_column r un row c l) = pcalls l" for row c l
    by (simp add: populate_column_def push_cell_def Let_def)
  have "pcalls (populate_row L r un row l) = pcalls l" for row l
    by (simp add: populate_row_def lua_ref_def Let_def fold_pcalls [OF col])
  then show ?thesis by (simp add: PopulateLuaTable_def Let_def fold_pcalls)
qed

lemma push_results_pcalls [simp]: "pcalls (push_results E a l) = pcalls l"
proof -
  have "pcalls (push_result E a ir l) = pcalls l" for ir l
    by (cases ir) (simp add: push_result_def Let_def)
  then show ?thesis by (simp add: push_results_def fold_pcalls)
qed

lemma TriggerCallback_pcalls:
  "pcalls (TriggerCallback E a l) = pcalls l + (if callback_runs E a l then 1 else 0)"
  by (auto simp: TriggerCallback_def callback_runs_def Let_def lua_pcall_def lua_def ThrowErrorNoHalt_def)

text \<open>C27: TriggerCallback makes one protected call when the callback is a function and
  none otherwise; it frees the callback and its object once each when there is
  a callback, and then only; and each call leaves one value, the traceback
  function it was protected with, behind on the stack.\<close>

theorem action_callback_effects:
  "pcalls (TriggerCallback E a l) = pcalls l + (if callback_runs E a l then 1 else 0) \<and>
   stack_depth (TriggerCallback E a l) = stack_depth l + (if callback_runs E a l then 1 else 0) \<and>
   held i (TriggerCallback E a l) = held i l -
     (if 0 < a_iCallback a
      then (if i = a_iCallback a then 1 else 0) +
           (if 0 < a_iCallbackRef a \<and> i = a_iCallbackRef a then 1 else 0)
      else 0)"
  by (simp only: TriggerCallback_pcalls TriggerCallback_depth TriggerCallback_held)

end
