(* ===== verification/Action_Callback.thy ===== *)
theory Action_Callback
  imports Db_Action
begin

text \<open>
  What the callback of an action receives: under the documented meaning of the
  calls, \<open>TriggerCallback\<close> calls the function with the object it was queued with,
  if any, and a new table that shows every result of the action.
\<close>

section \<open>One result\<close>

lemma push_result_shows:
  assumes "stack s = V_table t # rest" "t < new_table s" "fresh_references (e_host E) past s"
    and "result_ok r"
  shows "\<exists>ev s'. push_result E a (i, r) past = past @ ev \<and> perform_all ev s = Some s' \<and>
    stack s' = stack s \<and> refs s' = refs s \<and> new_table s < new_table s' \<and>
    (\<forall>u < new_table s. u \<noteq> t \<longrightarrow> tables s' u = tables s u) \<and>
    tables s' t = (tables s t)(row_key i := V_table (new_table s)) \<and>
    table_shows (tables s') (Suc (new_table s)) (new_table s') (tables s' (new_table s)) r
      (m_bUseNumbers a) (e_text E (m_strError r)) \<and>
    tables s' (new_table s) (V_string ''time'') = V_number (GetElapsedSeconds (m_queryTimer a))"
proof -
  let ?n = "new_table s" and ?un = "m_bUseNumbers a" and ?err = "e_text E (m_strError r)"
  define H where "H = [PushNumber (Num (whole (int i + 1))), CreateTable]"
  define s1 where "s1 = s\<lparr>stack := V_table ?n # row_key i # stack s,
    tables := (tables s)(?n := \<lambda>_. V_nil), new_table := ?n + 1\<rparr>"
  have p1: "perform_all H s = Some s1" by (simp add: H_def s1_def row_key_def)
  have s1: "stack s1 = V_table ?n # row_key i # stack s" "?n < new_table s1" "refs s1 = refs s"
    "new_table s1 = Suc ?n"
    by (simp_all add: s1_def)
  have f1: "fresh_references (e_host E) (past @ H) s1" by (rule fresh_references_step [OF assms(3) p1])
  obtain ev s2 where e:
    "PopulateLuaTable (e_host E) (e_junk E) ?err r ?un (past @ H) = (past @ H) @ ev"
    "perform_all ev s1 = Some s2" "stack s2 = stack s1" "refs s2 = refs s1"
    "new_table s1 \<le> new_table s2" "\<forall>u < new_table s1. u \<noteq> ?n \<longrightarrow> tables s2 u = tables s1 u"
    "table_shows (tables s2) (new_table s1) (new_table s2) (tables s2 ?n) r ?un ?err"
    using populate_shows [OF s1(1,2) f1 assms(4)] by blast
  define F where "F = [PushNumber (GetElapsedSeconds (m_queryTimer a)), SetField (- 2) ''time'', SetTable (- 3)]"
  define f where "f = (tables s2 ?n)(V_string ''time'' := V_number (GetElapsedSeconds (m_queryTimer a)))"
  define s' where "s' = s2\<lparr>stack := stack s,
    tables := (tables s2)(?n := f, t := (tables s t)(row_key i := V_table ?n))\<rparr>"
  have nt: "?n \<noteq> t" using assms(2) by simp
  have t2: "tables s2 t = tables s t" using e(6) assms(2) s1(4) nt by (simp add: s1_def)
  have p3: "perform_all F s2 = Some s'"
    using e(3) s1(1) assms(1) nt t2
    by (simp add: F_def s'_def f_def set_key_def row_key_def)
  have log: "push_result E a (i, r) past = past @ (H @ ev @ F)"
    using e(1) by (simp add: push_result_def Let_def H_def F_def lua_def)
  have p: "perform_all (H @ ev @ F) s = Some s'"
    by (simp only: perform_all_append p1 e(2) p3 bind.bind_lunit)
  have tn: "tables s' ?n = f" using nt by (simp add: s'_def)
  have keep: "\<forall>u < ?n. u \<noteq> t \<longrightarrow> tables s' u = tables s u"
    using e(6) s1(4) by (simp add: s'_def s1_def)
  have up: "tables s' u = tables s2 u" if "Suc ?n \<le> u" for u
    using that assms(2) by (simp add: s'_def)
  have "table_shows (tables s2) (Suc ?n) (new_table s2) f r ?un ?err"
    using e(7) s1(4) unfolding f_def by (intro table_shows_upd) simp_all
  then have "table_shows (tables s') (Suc ?n) (new_table s') f r ?un ?err"
    by (rule table_shows_mono) (simp_all add: up, simp add: s'_def)
  moreover have "new_table s' = new_table s2" "stack s' = stack s" "refs s' = refs s"
    "tables s' t = (tables s t)(row_key i := V_table ?n)"
    "f (V_string ''time'') = V_number (GetElapsedSeconds (m_queryTimer a))"
    using e(4) s1(3) by (simp_all add: s'_def f_def)
  moreover have "?n < new_table s2" using e(5) s1(4) by simp
  ultimately show ?thesis using log p keep tn by metis
qed

section \<open>All results\<close>

definition results_shown :: "lua_machine \<Rightarrow> nat \<Rightarrow> nat \<Rightarrow> lua_env \<Rightarrow> action \<Rightarrow> nat \<Rightarrow> result list \<Rightarrow> bool" where
  "results_shown s t lo E a j rs \<longleftrightarrow>
    (\<forall>i < length rs. \<exists>u. tables s t (row_key (j + i)) = V_table u \<and> lo \<le> u \<and> u < new_table s \<and>
      table_shows (tables s) lo (new_table s) (tables s u) (rs ! i)
        (m_bUseNumbers a) (e_text E (m_strError (rs ! i))) \<and>
      tables s u (V_string ''time'') = V_number (GetElapsedSeconds (m_queryTimer a)))"

lemma results_shown_lower:
  assumes "results_shown s t lo E a j rs" "lo' \<le> lo"
  shows "results_shown s t lo' E a j rs"
  unfolding results_shown_def
proof (intro allI impI)
  fix i
  assume "i < length rs"
  then obtain u where u: "tables s t (row_key (j + i)) = V_table u" "lo \<le> u" "u < new_table s"
    "table_shows (tables s) lo (new_table s) (tables s u) (rs ! i)
      (m_bUseNumbers a) (e_text E (m_strError (rs ! i)))"
    "tables s u (V_string ''time'') = V_number (GetElapsedSeconds (m_queryTimer a))"
    using assms(1) unfolding results_shown_def by blast
  have "table_shows (tables s) lo' (new_table s) (tables s u) (rs ! i)
      (m_bUseNumbers a) (e_text E (m_strError (rs ! i)))"
    using u(4) by (rule table_shows_mono) (use assms(2) in simp_all)
  with u assms(2) show "\<exists>u. tables s t (row_key (j + i)) = V_table u \<and> lo' \<le> u \<and> u < new_table s \<and>
      table_shows (tables s) lo' (new_table s) (tables s u) (rs ! i)
        (m_bUseNumbers a) (e_text E (m_strError (rs ! i))) \<and>
      tables s u (V_string ''time'') = V_number (GetElapsedSeconds (m_queryTimer a))"
    by (intro exI [of _ u]) simp
qed

lemma push_results_shows:
  assumes "stack s = V_table t # rest" "t < new_table s" "fresh_references (e_host E) past s"
    and "\<forall>r \<in> set rs. result_ok r"
  shows "\<exists>ev s'. fold (push_result E a) (List.enumerate j rs) past = past @ ev \<and>
    perform_all ev s = Some s' \<and> stack s' = stack s \<and> refs s' = refs s \<and>
    new_table s \<le> new_table s' \<and> (\<forall>u < new_table s. u \<noteq> t \<longrightarrow> tables s' u = tables s u) \<and>
    results_shown s' t (new_table s) E a j rs \<and>
    (\<forall>k. (\<forall>i < length rs. k \<noteq> row_key (j + i)) \<longrightarrow> tables s' t k = tables s t k)"
  using assms
proof (induction rs arbitrary: j s past)
  case Nil
  then show ?case by (auto simp: results_shown_def)
next
  case (Cons r rs)
  let ?n = "new_table s"
  obtain ev s1 where e:
    "push_result E a (j, r) past = past @ ev" "perform_all ev s = Some s1"
    "stack s1 = stack s" "refs s1 = refs s" "?n < new_table s1"
    "\<forall>u < ?n. u \<noteq> t \<longrightarrow> tables s1 u = tables s u"
    "tables s1 t = (tables s t)(row_key j := V_table ?n)"
    "table_shows (tables s1) (Suc ?n) (new_table s1) (tables s1 ?n) r
      (m_bUseNumbers a) (e_text E (m_strError r))"
    "tables s1 ?n (V_string ''time'') = V_number (GetElapsedSeconds (m_queryTimer a))"
    using push_result_shows [OF Cons.prems(1-3), of r a j] Cons.prems(4) by auto
  have "stack s1 = V_table t # rest" "t < new_table s1"
    using Cons.prems(1,2) e(3,5) by simp_all
  from Cons.IH [OF this fresh_references_step [OF Cons.prems(3) e(2)], of "Suc j"] Cons.prems(4)
  obtain ev' s' where IH:
    "fold (push_result E a) (List.enumerate (Suc j) rs) (past @ ev) = (past @ ev) @ ev'"
    "perform_all ev' s1 = Some s'" "stack s' = stack s1" "refs s' = refs s1"
    "new_table s1 \<le> new_table s'" "\<forall>u < new_table s1. u \<noteq> t \<longrightarrow> tables s' u = tables s1 u"
    "results_shown s' t (new_table s1) E a (Suc j) rs"
    "\<forall>k. (\<forall>i < length rs. k \<noteq> row_key (Suc j + i)) \<longrightarrow> tables s' t k = tables s1 t k"
    by auto
  have nt: "?n \<noteq> t" using Cons.prems(2) by simp
  have n1: "tables s' ?n = tables s1 ?n" using IH(6) e(5) nt by simp
  have key: "tables s' t (row_key j) = V_table ?n" using IH(8) e(7) by simp
  have "table_shows (tables s') ?n (new_table s') (tables s' ?n) r
      (m_bUseNumbers a) (e_text E (m_strError r))"
    unfolding n1 using e(8)
    by (rule table_shows_mono) (use IH(5,6) e(5) Cons.prems(2) in auto)
  then have first: "\<exists>u. tables s' t (row_key j) = V_table u \<and> ?n \<le> u \<and> u < new_table s' \<and>
      table_shows (tables s') ?n (new_table s') (tables s' u) r
        (m_bUseNumbers a) (e_text E (m_strError r)) \<and>
      tables s' u (V_string ''time'') = V_number (GetElapsedSeconds (m_queryTimer a))"
    using key n1 e(5,9) IH(5) by (intro exI [of _ ?n]) simp
  have others: "\<exists>u. tables s' t (row_key (Suc j + i)) = V_table u \<and> ?n \<le> u \<and> u < new_table s' \<and>
      table_shows (tables s') ?n (new_table s') (tables s' u) (rs ! i)
        (m_bUseNumbers a) (e_text E (m_strError (rs ! i))) \<and>
      tables s' u (V_string ''time'') = V_number (GetElapsedSeconds (m_queryTimer a))"
    if i: "i < length rs" for i
  proof -
    obtain u where u: "tables s' t (row_key (Suc j + i)) = V_table u" "new_table s1 \<le> u"
      "u < new_table s'"
      "table_shows (tables s') (new_table s1) (new_table s') (tables s' u) (rs ! i)
        (m_bUseNumbers a) (e_text E (m_strError (rs ! i)))"
      "tables s' u (V_string ''time'') = V_number (GetElapsedSeconds (m_queryTimer a))"
      using IH(7) i unfolding results_shown_def by blast
    have "table_shows (tables s') ?n (new_table s') (tables s' u) (rs ! i)
        (m_bUseNumbers a) (e_text E (m_strError (rs ! i)))"
      using u(4) by (rule table_shows_mono) (use e(5) in simp_all)
    with u e(5) show ?thesis by (intro exI [of _ u]) simp
  qed
  have shown: "results_shown s' t ?n E a j (r # rs)"
    unfolding results_shown_def
  proof (intro allI impI)
    fix i
    assume "i < length (r # rs)"
    then show "\<exists>u. tables s' t (row_key (j + i)) = V_table u \<and> ?n \<le> u \<and> u < new_table s' \<and>
      table_shows (tables s') ?n (new_table s') (tables s' u) ((r # rs) ! i)
        (m_bUseNumbers a) (e_text E (m_strError ((r # rs) ! i))) \<and>
      tables s' u (V_string ''time'') = V_number (GetElapsedSeconds (m_queryTimer a))"
      using first others [of "i - 1"] by (cases i) simp_all
  qed
  have rest: "\<forall>k. (\<forall>i < length (r # rs). k \<noteq> row_key (j + i)) \<longrightarrow> tables s' t k = tables s t k"
  proof (intro allI impI)
    fix k
    assume k: "\<forall>i < length (r # rs). k \<noteq> row_key (j + i)"
    then have "k \<noteq> row_key j" by (metis add_0_right length_Cons zero_less_Suc)
    moreover have "\<forall>i < length rs. k \<noteq> row_key (Suc j + i)"
      using k by (metis add_Suc_right add_Suc length_Cons Suc_less_eq)
    ultimately show "tables s' t k = tables s t k" using IH(8) e(7) by simp
  qed
  have keep: "\<forall>u < ?n. u \<noteq> t \<longrightarrow> tables s' u = tables s u" using IH(6) e(5,6) by simp
  have log: "fold (push_result E a) (List.enumerate j (r # rs)) past = past @ (ev @ ev')"
    using e(1) IH(1) by simp
  have p: "perform_all (ev @ ev') s = Some s'"
    by (simp only: perform_all_append e(2) IH(2) bind.bind_lunit)
  show ?case
    using log p IH(3,4,5) e(3,4,5) keep shown rest by (intro exI [of _ "ev @ ev'"] exI [of _ s']) simp
qed

section \<open>The call\<close>

text \<open>C26: when the callback is a function, TriggerCallback calls it, protected by the
  traceback function below it, with the object of the action if there is one
  and a new table that shows, under the numbers from 1 and nothing else, every
  result of the action in order with the time it took.\<close>

theorem callback_arguments:
  assumes "callback_runs E a past" "fresh_references (e_host E) past s"
    and "refs s (iRefDebugTraceBack (e_refs E)) = Some tb"
    and "refs s (a_iCallback a) = Some cb"
    and "0 < a_iCallbackRef a \<longrightarrow> refs s (a_iCallbackRef a) = Some object \<and> a_iCallbackRef a \<noteq> a_iCallback a"
    and "\<forall>r \<in> set (m_pResults a). result_ok r"
  shows "\<exists>ev s' args st t more. TriggerCallback E a past = past @ ev @ [PCall args 0 (- int args - 2) st] @ more \<and>
    perform_all ev s = Some s' \<and>
    stack s' = V_table t # (if 0 < a_iCallbackRef a then [object] else []) @ cb # tb # stack s \<and>
    args = (if 0 < a_iCallbackRef a then 2 else 1) \<and> new_table s \<le> t \<and>
    results_shown s' t (new_table s) E a 0 (m_pResults a) \<and>
    (\<forall>k. (\<forall>i < length (m_pResults a). k \<noteq> row_key i) \<longrightarrow> tables s' t k = V_nil)"
proof -
  let ?n = "new_table s" and ?ob = "0 < a_iCallbackRef a"
  define args :: nat where "args = (if ?ob then 2 else 1)"
  define H where "H = [ReferencePush (iRefDebugTraceBack (e_refs E)), ReferencePush (a_iCallback a),
      ReferenceFree (a_iCallback a)] @
    (if ?ob then [ReferencePush (a_iCallbackRef a), ReferenceFree (a_iCallbackRef a)] else []) @ [CreateTable]"
  define R where "R = (if ?ob then (refs s)(a_iCallback a := None, a_iCallbackRef a := None)
      else (refs s)(a_iCallback a := None))"
  define s1 where "s1 = s\<lparr>stack := V_table ?n # (if ?ob then [object] else []) @ cb # tb # stack s,
    tables := (tables s)(?n := \<lambda>_. V_nil), new_table := ?n + 1, refs := R\<rparr>"
  have p1: "perform_all H s = Some s1"
    using assms(3-5) by (auto simp: H_def s1_def R_def)
  have s1: "stack s1 = V_table ?n # (if ?ob then [object] else []) @ cb # tb # stack s"
    "?n < new_table s1" "new_table s1 = Suc ?n" "tables s1 ?n = (\<lambda>_. V_nil)"
    by (simp_all add: s1_def)
  have f1: "fresh_references (e_host E) (past @ H) s1" by (rule fresh_references_step [OF assms(2) p1])
  obtain ev s' where e:
    "fold (push_result E a) (List.enumerate 0 (m_pResults a)) (past @ H) = (past @ H) @ ev"
    "perform_all ev s1 = Some s'" "stack s' = stack s1"
    "results_shown s' ?n (new_table s1) E a 0 (m_pResults a)"
    "\<forall>k. (\<forall>i < length (m_pResults a). k \<noteq> row_key i) \<longrightarrow> tables s' ?n k = tables s1 ?n k"
    using push_results_shows [OF s1(1,2) f1 assms(6), of a 0] by auto
  define l where "l = past @ H @ ev"
  define st where "st = l_PCall (e_host E) l args 0 (- int args - 2)"
  have "TriggerCallback E a past = (let l' = l @ [PCall args 0 (- int args - 2) st] in
      if st \<noteq> 0 then lua (Pop 1) (ThrowErrorNoHalt (e_refs E)
        (callback_error @ l_GetString (e_host E) l' (- 1)) l') else l')"
    using assms(1) e(1)
    by (auto simp: TriggerCallback_def callback_runs_def Let_def lua_pcall_def lua_def
        push_results_def H_def l_def st_def args_def)
  then have "\<exists>more. TriggerCallback E a past =
      past @ (H @ ev) @ [PCall args 0 (- int args - 2) st] @ more"
    by (auto simp: Let_def ThrowErrorNoHalt_def lua_def l_def split: if_splits)
  then obtain more where "TriggerCallback E a past =
      past @ (H @ ev) @ [PCall args 0 (- int args - 2) st] @ more" ..
  moreover have "perform_all (H @ ev) s = Some s'"
    by (simp only: perform_all_append p1 e(2) bind.bind_lunit)
  moreover have "results_shown s' ?n ?n E a 0 (m_pResults a)"
    by (rule results_shown_lower [OF e(4)]) (simp add: s1(3))
  ultimately show ?thesis
    using e(3,5) s1(1,4)
    by (intro exI [of _ "H @ ev"] exI [of _ s'] exI [of _ args] exI [of _ st] exI [of _ ?n]
        exI [of _ more]) (simp add: args_def)
qed

text \<open>An action with a callback, an object and one result, and a machine that holds their references.\<close>

definition sample_action :: action where
  "sample_action = AddResult sample_result (new_query ''SELECT 1'' 5 6 True)"

definition sample_env :: lua_env where
  "sample_env = \<lparr>e_host = sample_host, e_text = (\<lambda>_. ''''), e_junk = False,
     e_refs = \<lparr>iRefDebugTraceBack = 1, iRefErrorNoHalt = 2\<rparr>\<rparr>"

text \<open>The references that the machine holds were created by earlier calls.\<close>

definition sample_past :: lua_log where
  "sample_past = map ReferenceCreate [1, 5, 6]"

definition holding_machine :: lua_machine where
  "holding_machine = \<lparr>stack = [], tables = (\<lambda>_ _. V_nil), new_table = 0,
     refs = (\<lambda>_. None)(1 \<mapsto> V_other, 5 \<mapsto> V_other, 6 \<mapsto> V_table 0)\<rparr>"

lemma sample_env_fresh: "fresh_references (e_host sample_env) sample_past holding_machine"
  unfolding fresh_references_def
proof (intro allI impI)
  fix l s'
  assume p: "perform_all l holding_machine = Some s'"
  let ?r = "1 + sum_list (map reference_size (sample_past @ l))"
  have big: "13 \<le> ?r"
    using reference_size_nonneg [of l] by (simp add: sample_past_def)
  have "refs s' ?r = None"
  proof (rule ccontr)
    assume "refs s' ?r \<noteq> None"
    moreover have "refs holding_machine ?r = None" using big by (simp add: holding_machine_def)
    ultimately have "ReferenceCreate ?r \<in> set l" using perform_all_refs [OF p] by blast
    from reference_size_bound [OF this] show False by (simp add: sample_past_def)
  qed
  then show "refs s' (l_ReferenceCreate (e_host sample_env) (sample_past @ l)) = None"
    by (simp add: sample_env_def sample_host_def)
qed

theorem callback_arguments_witness:
  "\<exists>ev s' args st t more. TriggerCallback sample_env sample_action sample_past =
      sample_past @ ev @ [PCall args 0 (- int args - 2) st] @ more \<and>
    perform_all ev holding_machine = Some s' \<and>
    stack s' = [V_table t, V_table 0, V_other, V_other] \<and> args = 2 \<and>
    results_shown s' t 0 sample_env sample_action 0 [sample_result]"
proof -
  have runs: "callback_runs sample_env sample_action sample_past"
    by (simp add: callback_runs_def sample_env_def sample_host_def sample_action_def AddResult_def
        new_query_def new_action_def)
  have refs: "refs holding_machine (iRefDebugTraceBack (e_refs sample_env)) = Some V_other"
    "refs holding_machine (a_iCallback sample_action) = Some V_other"
    "0 < a_iCallbackRef sample_action \<longrightarrow>
      refs holding_machine (a_iCallbackRef sample_action) = Some (V_table 0) \<and>
      a_iCallbackRef sample_action \<noteq> a_iCallback sample_action"
    and results: "m_pResults sample_action = [sample_result]"
    and object: "(0 < a_iCallbackRef sample_action) = True" "stack holding_machine = []" "new_table holding_machine = 0"
    by (simp_all add: holding_machine_def sample_env_def sample_action_def AddResult_def
        new_query_def new_action_def)
  have ok: "\<forall>r \<in> set (m_pResults sample_action). result_ok r"
    by (simp add: results sample_result_ok)
  show ?thesis
    using callback_arguments [OF runs sample_env_fresh refs ok]
    unfolding object if_True results append_Cons append_Nil by blast
qed

end
