(* ===== verification/Action_Queue.thy ===== *)
theory Action_Queue
  imports Main
begin

text \<open>
  The lock-free queue of finished actions, \<open>waitfree_action_queue\<close> of
  \<open>src/src/database.h\<close>. A node is the address of an action, the null pointer
  is \<open>None\<close>, and the memory is the function from a node to its \<open>next\<close> field.
  The theory holds the two operations as the code of one thread runs them, the
  steps of any number of pushing threads and one popping thread interleaved
  at their atomic accesses, the contract of the queue as a locale and its
  interpretation on the operations, and the invariant that makes every
  execution a first-in first-out queue that loses and duplicates nothing.
\<close>

type_synonym node = nat
type_synonym ptr = "node option"
type_synonym links = "node \<Rightarrow> ptr"

record queue =
  q_head :: ptr
  next_of :: links

definition empty_queue :: "links \<Rightarrow> queue" where
  "empty_queue m = \<lparr>q_head = None, next_of = m\<rparr>"

section \<open>The operations of one thread\<close>

text \<open>
  One turn of the loop of \<open>push\<close>: \<open>data->next\<close> is set to the head last seen, and
  the head is exchanged if it is still that one. The turn answers whether
  \<open>compare_exchange_weak\<close> succeeded, and otherwise the head it read.
\<close>

definition push_turn :: "node \<Rightarrow> ptr \<Rightarrow> queue \<Rightarrow> ptr option \<times> queue" where
  "push_turn data stale_head q =
    (let q = q\<lparr>next_of := (next_of q)(data := stale_head)\<rparr> in
     if q_head q = stale_head then (None, q\<lparr>q_head := Some data\<rparr>)
     else (Some (q_head q), q))"

text \<open>Alone, a thread leaves the loop in its first turn, because nobody moves the head.\<close>

definition push :: "node \<Rightarrow> queue \<Rightarrow> queue" where
  "push data q = snd (push_turn data (q_head q) q)"

definition pop_all_reverse :: "queue \<Rightarrow> ptr \<times> queue" where
  "pop_all_reverse q = (q_head q, q\<lparr>q_head := None\<rparr>)"

text \<open>The loop of \<open>pop_all\<close>, which would not end on a cyclic list.\<close>

partial_function (option) pop_loop :: "links \<Rightarrow> ptr \<Rightarrow> ptr \<Rightarrow> (ptr \<times> links) option" where
  "pop_loop m l first =
    (case l of
       None \<Rightarrow> Some (first, m)
     | Some tmp \<Rightarrow> pop_loop (m(tmp := first)) (m tmp) (Some tmp))"

definition pop_all :: "queue \<Rightarrow> (ptr \<times> queue) option" where
  "pop_all q =
    (let (l, q) = pop_all_reverse q in
     case pop_loop (next_of q) l None of
       None \<Rightarrow> None
     | Some (first, m) \<Rightarrow> Some (first, q\<lparr>next_of := m\<rparr>))"

section \<open>Lists in memory\<close>

primrec chain :: "links \<Rightarrow> ptr \<Rightarrow> node list \<Rightarrow> bool" where
  "chain m p [] \<longleftrightarrow> p = None"
| "chain m p (a # as) \<longleftrightarrow> p = Some a \<and> chain m (m a) as"

lemma chain_None [simp]: "chain m None as \<longleftrightarrow> as = []"
  by (cases as) auto

lemma chain_Some: "chain m (Some a) as \<longleftrightarrow> (\<exists>bs. as = a # bs \<and> chain m (m a) bs)"
  by (cases as) auto

lemma chain_fun_upd [simp]: "a \<notin> set as \<Longrightarrow> chain (m(a := x)) p as = chain m p as"
  by (induction as arbitrary: p) auto

lemma chain_unique: "chain m p as \<Longrightarrow> chain m p bs \<Longrightarrow> as = bs"
proof (induction as arbitrary: p bs)
  case Nil
  then show ?case by simp
next
  case (Cons a as)
  then show ?case by (auto simp: chain_Some)
qed

text \<open>The loop of \<open>pop_all\<close> reverses the list it is given in front of the one it has.\<close>

lemma pop_loop_reverses:
  assumes "chain m l ls" "chain m f fs" "distinct ls" "set ls \<inter> set fs = {}"
  shows "\<exists>first m'. pop_loop m l f = Some (first, m') \<and> chain m' first (rev ls @ fs) \<and>
    (\<forall>n. n \<notin> set ls \<longrightarrow> m' n = m n)"
  using assms
proof (induction ls arbitrary: m l f fs)
  case Nil
  then show ?case by (simp add: pop_loop.simps)
next
  case (Cons a ls)
  have l: "l = Some a" and rest: "chain m (m a) ls" using Cons.prems(1) by simp_all
  let ?m = "m(a := f)"
  have "chain ?m (m a) ls" using rest Cons.prems(3) by simp
  moreover have "chain ?m (Some a) (a # fs)" using Cons.prems(2,4) by simp
  moreover have "distinct ls" "set ls \<inter> set (a # fs) = {}" using Cons.prems(3,4) by auto
  ultimately obtain first m' where
    r: "pop_loop ?m (m a) (Some a) = Some (first, m')" "chain m' first (rev ls @ a # fs)"
      "\<forall>n. n \<notin> set ls \<longrightarrow> m' n = ?m n"
    using Cons.IH by blast
  have "pop_loop m l f = Some (first, m')"
    using r(1) l by (simp add: pop_loop.simps [of m])
  with r show ?case by auto
qed

section \<open>The contract of the queue\<close>

text \<open>
  What the users of the queue rely on: \<open>holds q xs\<close> says that the queue stores the
  nodes \<open>xs\<close>, oldest first.
\<close>

locale fifo_queue =
  fixes enq :: "'a \<Rightarrow> 'q \<Rightarrow> 'q"
    and deq_all :: "'q \<Rightarrow> ('p \<times> 'q) option"
    and holds :: "'q \<Rightarrow> 'a list \<Rightarrow> bool"
    and traverses :: "'q \<Rightarrow> 'p \<Rightarrow> 'a list \<Rightarrow> bool"
  assumes enq_holds: "holds q xs \<Longrightarrow> a \<notin> set xs \<Longrightarrow> holds (enq a q) (xs @ [a])"
    and deq_holds: "holds q xs \<Longrightarrow>
      \<exists>p q'. deq_all q = Some (p, q') \<and> holds q' [] \<and> traverses q' p xs"
    and holds_distinct: "holds q xs \<Longrightarrow> distinct xs"
begin

lemma enq_all:
  "holds q xs \<Longrightarrow> distinct (xs @ ys) \<Longrightarrow> holds (fold enq ys q) (xs @ ys)"
proof (induction ys arbitrary: q xs)
  case Nil
  then show ?case by simp
next
  case (Cons y ys)
  then have "holds (enq y q) (xs @ [y])" by (intro enq_holds) auto
  from Cons.IH [OF this] Cons.prems(2) show ?case by simp
qed

lemma enq_all_deq:
  assumes "holds q xs" "distinct (xs @ ys)"
  shows "\<exists>p q'. deq_all (fold enq ys q) = Some (p, q') \<and> holds q' [] \<and> traverses q' p (xs @ ys)"
  by (rule deq_holds [OF enq_all [OF assms]])

end

definition queue_holds :: "queue \<Rightarrow> node list \<Rightarrow> bool" where
  "queue_holds q xs \<longleftrightarrow> chain (next_of q) (q_head q) (rev xs) \<and> distinct xs"

lemma push_holds: "queue_holds q xs \<Longrightarrow> a \<notin> set xs \<Longrightarrow> queue_holds (push a q) (xs @ [a])"
  by (simp add: queue_holds_def push_def push_turn_def)

lemma pop_all_holds:
  assumes "queue_holds q xs"
  shows "\<exists>p q'. pop_all q = Some (p, q') \<and> queue_holds q' [] \<and> chain (next_of q') p xs"
proof -
  obtain p m' where "pop_loop (next_of q) (q_head q) None = Some (p, m')" "chain m' p xs"
    using pop_loop_reverses [of "next_of q" "q_head q" "rev xs" None "[]"] assms
    by (auto simp: queue_holds_def)
  then show ?thesis
    by (simp add: pop_all_def pop_all_reverse_def queue_holds_def)
qed

interpretation aq: fifo_queue push pop_all queue_holds "\<lambda>q p xs. chain (next_of q) p xs"
proof (unfold_locales, goal_cases)
  case (1 q xs a)
  then show ?case by (rule push_holds)
next
  case (2 q xs)
  then show ?case by (rule pop_all_holds)
next
  case (3 q xs)
  then show ?case by (simp add: queue_holds_def)
qed

lemma empty_queue_holds [simp]: "queue_holds (empty_queue m) []"
  by (simp add: queue_holds_def empty_queue_def)

text \<open>A run of pushes followed by pop_all hands out exactly the pushed
  actions, oldest first, and leaves the queue empty.\<close>

theorem push_pop_all_fifo:
  assumes "distinct as"
  shows "\<exists>p q. pop_all (fold push as (empty_queue m)) = Some (p, q) \<and>
    queue_holds q [] \<and> chain (next_of q) p as"
  using aq.enq_all_deq [OF empty_queue_holds, of "as" m] assms by simp

theorem push_pop_all_fifo_witness:
  "\<exists>p q. pop_all (fold push [7, 3, 5] (empty_queue (\<lambda>_. Some 3))) = Some (p, q) \<and>
    queue_holds q [] \<and> chain (next_of q) p [7, 3, 5]"
  by (rule push_pop_all_fifo) simp

section \<open>Interleaved threads\<close>

text \<open>
  Where a call of \<open>push\<close> stands: before the first load of the head, before the
  store to \<open>data->next\<close>, or before the compare-exchange; \<open>stale_head\<close> is the local
  variable. A call of \<open>pop_all\<close> is idle or in its loop with \<open>last\<close> and \<open>first\<close>.
\<close>

datatype push_pc = At_load | At_store ptr | At_exchange ptr

datatype pop_pc = Idle | In_loop ptr ptr

text \<open>
  The shared queue, the running calls of \<open>push\<close> (by the node they insert), the
  popping thread, the nodes that the queue owns, and the history: the nodes in
  the order of the successful exchanges and in the order in which \<open>pop_all\<close>
  handed them out.
\<close>

record threads =
  shared :: queue
  pushing :: "node \<Rightarrow> push_pc option"
  popping :: pop_pc
  owned :: "node set"
  pushed :: "node list"
  popped :: "node list"

definition set_links :: "(links \<Rightarrow> links) \<Rightarrow> threads \<Rightarrow> threads" where
  "set_links f s = s\<lparr>shared := (shared s)\<lparr>next_of := f (next_of (shared s))\<rparr>\<rparr>"

definition set_head :: "ptr \<Rightarrow> threads \<Rightarrow> threads" where
  "set_head p s = s\<lparr>shared := (shared s)\<lparr>q_head := p\<rparr>\<rparr>"

definition set_pc :: "node \<Rightarrow> push_pc option \<Rightarrow> threads \<Rightarrow> threads" where
  "set_pc a pc s = s\<lparr>pushing := (pushing s)(a := pc)\<rparr>"

lemmas thread_defs = set_links_def set_head_def set_pc_def

text \<open>
  The steps. A thread may start to push a node that the queue does not own; the
  weak exchange may fail even when the head has not moved; the popping
  thread empties the queue with one exchange and then reverses what it took,
  one turn of its loop a step.
\<close>

inductive thread_step :: "threads \<Rightarrow> threads \<Rightarrow> bool" where
  start: "a \<notin> owned s \<Longrightarrow>
    thread_step s (set_pc a (Some At_load) (s\<lparr>owned := insert a (owned s)\<rparr>))"
| load: "pushing s a = Some At_load \<Longrightarrow>
    thread_step s (set_pc a (Some (At_store (q_head (shared s)))) s)"
| store: "pushing s a = Some (At_store h) \<Longrightarrow>
    thread_step s (set_pc a (Some (At_exchange h)) (set_links (\<lambda>m. m(a := h)) s))"
| exchange_ok: "pushing s a = Some (At_exchange h) \<Longrightarrow> q_head (shared s) = h \<Longrightarrow>
    thread_step s (set_pc a None (set_head (Some a) (s\<lparr>pushed := pushed s @ [a]\<rparr>)))"
| exchange_fail: "pushing s a = Some (At_exchange h) \<Longrightarrow>
    thread_step s (set_pc a (Some (At_store (q_head (shared s)))) s)"
| take: "popping s = Idle \<Longrightarrow>
    thread_step s (set_head None (s\<lparr>popping := In_loop (q_head (shared s)) None\<rparr>))"
| turn: "popping s = In_loop (Some tmp) f \<Longrightarrow>
    thread_step s (set_links (\<lambda>m. m(tmp := f))
      (s\<lparr>popping := In_loop (next_of (shared s) tmp) (Some tmp)\<rparr>))"
| return: "popping s = In_loop None f \<Longrightarrow> chain (next_of (shared s)) f fs \<Longrightarrow>
    thread_step s (s\<lparr>popping := Idle, owned := owned s - set fs, popped := popped s @ fs\<rparr>)"

definition idle_threads :: "links \<Rightarrow> threads" where
  "idle_threads m = \<lparr>shared = empty_queue m, pushing = (\<lambda>_. None), popping = Idle,
     owned = {}, pushed = [], popped = []\<rparr>"

inductive reachable_threads :: "links \<Rightarrow> threads \<Rightarrow> bool" for m where
  init: "reachable_threads m (idle_threads m)"
| step: "reachable_threads m s \<Longrightarrow> thread_step s t \<Longrightarrow> reachable_threads m t"

text \<open>The nodes the popping thread has in hand: those still to reverse and those reversed.\<close>

definition in_hand :: "threads \<Rightarrow> node list \<Rightarrow> node list \<Rightarrow> bool" where
  "in_hand s ls fs \<longleftrightarrow>
    (case popping s of
       Idle \<Rightarrow> ls = [] \<and> fs = []
     | In_loop l f \<Rightarrow> chain (next_of (shared s)) l ls \<and> chain (next_of (shared s)) f fs)"

text \<open>
  The invariant: the head leads to the queued nodes \<open>qs\<close>, newest first; the
  queued nodes, those in hand and those being pushed are different nodes that
  the queue owns; a node about to be exchanged already points to the head it
  has seen; and what was pushed is what was popped, what is in hand and what is queued.
\<close>

definition threads_ok :: "threads \<Rightarrow> node list \<Rightarrow> node list \<Rightarrow> node list \<Rightarrow> bool" where
  "threads_ok s qs ls fs \<longleftrightarrow>
     chain (next_of (shared s)) (q_head (shared s)) qs \<and>
     in_hand s ls fs \<and>
     distinct (qs @ ls @ fs) \<and>
     set (qs @ ls @ fs) \<subseteq> owned s \<and>
     dom (pushing s) \<subseteq> owned s \<and>
     dom (pushing s) \<inter> set (qs @ ls @ fs) = {} \<and>
     (\<forall>a h. pushing s a = Some (At_exchange h) \<longrightarrow> next_of (shared s) a = h) \<and>
     pushed s = popped s @ rev ls @ fs @ rev qs"

lemma threads_ok_init: "threads_ok (idle_threads m) [] [] []"
  by (simp add: threads_ok_def idle_threads_def empty_queue_def in_hand_def)

lemma in_hand_cong:
  "popping t = popping s \<Longrightarrow> (\<forall>n \<in> set (ls @ fs). next_of (shared t) n = next_of (shared s) n) \<Longrightarrow>
    in_hand s ls fs \<Longrightarrow> in_hand t ls fs"
proof -
  have c: "\<forall>n \<in> set ys. m' n = m n \<Longrightarrow> chain m p ys \<Longrightarrow> chain m' p ys" for m m' p ys
    by (induction ys arbitrary: p) auto
  assume "popping t = popping s" "\<forall>n \<in> set (ls @ fs). next_of (shared t) n = next_of (shared s) n"
    "in_hand s ls fs"
  then show ?thesis
    by (cases "popping s") (auto simp: in_hand_def intro: c)
qed

lemma threads_ok_pushing:
  assumes ok: "threads_ok s qs ls fs" and p: "pushing s a = Some pc"
  shows "a \<in> owned s" "a \<notin> set qs" "a \<notin> set ls" "a \<notin> set fs"
  using ok p unfolding threads_ok_def by auto

lemma threads_ok_step:
  assumes "thread_step s t" "threads_ok s qs ls fs"
  shows "\<exists>qs' ls' fs'. threads_ok t qs' ls' fs'"
  using assms
proof (induction arbitrary: qs ls fs rule: thread_step.induct)
  case (start a s)
  then have "threads_ok (set_pc a (Some At_load) (s\<lparr>owned := insert a (owned s)\<rparr>)) qs ls fs"
    by (auto simp: threads_ok_def thread_defs in_hand_def split: if_splits pop_pc.splits)
  then show ?case by blast
next
  case (load s a)
  then have "threads_ok (set_pc a (Some (At_store (q_head (shared s)))) s) qs ls fs"
    using threads_ok_pushing [OF load.prems load.hyps]
    by (auto simp: threads_ok_def thread_defs in_hand_def split: if_splits pop_pc.splits)
  then show ?case by blast
next
  case (store s a h)
  note n = threads_ok_pushing [OF store.prems store.hyps]
  have "in_hand (set_pc a (Some (At_exchange h)) (set_links (\<lambda>m. m(a := h)) s)) ls fs"
    by (rule in_hand_cong [of _ s]) (use store.prems n in \<open>auto simp: thread_defs threads_ok_def\<close>)
  then have "threads_ok (set_pc a (Some (At_exchange h)) (set_links (\<lambda>m. m(a := h)) s)) qs ls fs"
    using store.prems n by (auto simp: threads_ok_def thread_defs split: if_splits)
  then show ?case by blast
next
  case (exchange_ok s a h)
  note n = threads_ok_pushing [OF exchange_ok.prems exchange_ok.hyps(1)]
  have "threads_ok (set_pc a None (set_head (Some a) (s\<lparr>pushed := pushed s @ [a]\<rparr>))) (a # qs) ls fs"
    using exchange_ok n
    by (auto simp: threads_ok_def thread_defs in_hand_def split: pop_pc.splits)
  then show ?case by blast
next
  case (exchange_fail s a h)
  then have "threads_ok (set_pc a (Some (At_store (q_head (shared s)))) s) qs ls fs"
    using threads_ok_pushing [OF exchange_fail.prems exchange_fail.hyps]
    by (auto simp: threads_ok_def thread_defs in_hand_def split: if_splits pop_pc.splits)
  then show ?case by blast
next
  case (take s)
  then have "threads_ok (set_head None (s\<lparr>popping := In_loop (q_head (shared s)) None\<rparr>)) [] qs []"
    by (auto simp: threads_ok_def thread_defs in_hand_def)
  then show ?case by blast
next
  case (turn s tmp f)
  from turn obtain ls' where ls: "ls = tmp # ls'"
    by (auto simp: threads_ok_def in_hand_def chain_Some)
  have "threads_ok (set_links (\<lambda>m. m(tmp := f))
      (s\<lparr>popping := In_loop (next_of (shared s) tmp) (Some tmp)\<rparr>)) qs ls' (tmp # fs)"
    using turn ls by (auto simp: threads_ok_def thread_defs in_hand_def)
  then show ?case by blast
next
  case (return s f fs')
  then have "ls = []" "fs = fs'"
    by (auto simp: threads_ok_def in_hand_def dest: chain_unique)
  then have "threads_ok (s\<lparr>popping := Idle, owned := owned s - set fs', popped := popped s @ fs'\<rparr>) qs [] []"
    using return by (auto simp: threads_ok_def in_hand_def)
  then show ?case by blast
qed

lemma reachable_threads_ok:
  "reachable_threads m s \<Longrightarrow> \<exists>qs ls fs. threads_ok s qs ls fs"
proof (induction rule: reachable_threads.induct)
  case init
  then show ?case using threads_ok_init by blast
next
  case (step s t)
  then show ?case using threads_ok_step by blast
qed

text \<open>C25: however the calls of push and pop_all interleave, the actions handed out
  are an initial part of the actions in the order in which their push
  succeeded, and whenever the popping thread is idle the rest is in the queue.\<close>

theorem interleaved_queue_fifo:
  assumes "reachable_threads m s"
  shows "\<exists>rest. pushed s = popped s @ rest \<and>
    (popping s = Idle \<longrightarrow> queue_holds (shared s) rest)"
proof -
  obtain qs ls fs where ok: "threads_ok s qs ls fs"
    using reachable_threads_ok [OF assms] by blast
  have "pushed s = popped s @ (rev ls @ fs @ rev qs)"
    using ok by (simp add: threads_ok_def)
  moreover have "popping s = Idle \<Longrightarrow> queue_holds (shared s) (rev ls @ fs @ rev qs)"
    using ok by (simp add: threads_ok_def in_hand_def queue_holds_def)
  ultimately show ?thesis by blast
qed

text \<open>The state after one call of \<open>push\<close> on an empty queue, and the call that leads there.\<close>

definition pushed_once :: "links \<Rightarrow> node \<Rightarrow> threads" where
  "pushed_once m a = \<lparr>shared = \<lparr>q_head = Some a, next_of = m(a := None)\<rparr>, pushing = (\<lambda>_. None),
     popping = Idle, owned = {a}, pushed = [a], popped = []\<rparr>"

lemma pushed_once_reachable: "reachable_threads m (pushed_once m a)"
proof -
  let ?s0 = "idle_threads m"
  let ?s1 = "set_pc a (Some At_load) (?s0\<lparr>owned := insert a (owned ?s0)\<rparr>)"
  let ?s2 = "set_pc a (Some (At_store (q_head (shared ?s1)))) ?s1"
  let ?s3 = "set_pc a (Some (At_exchange None)) (set_links (\<lambda>m. m(a := None)) ?s2)"
  let ?s4 = "set_pc a None (set_head (Some a) (?s3\<lparr>pushed := pushed ?s3 @ [a]\<rparr>))"
  note state = thread_defs idle_threads_def empty_queue_def pushed_once_def
  have "thread_step ?s0 ?s1" by (rule thread_step.start) (simp add: state)
  moreover have "thread_step ?s1 ?s2" by (rule thread_step.load) (simp add: state)
  moreover have "thread_step ?s2 ?s3" by (rule thread_step.store) (simp add: state)
  moreover have "thread_step ?s3 ?s4" by (rule thread_step.exchange_ok) (simp_all add: state)
  ultimately have "reachable_threads m ?s4"
    by (meson reachable_threads.intros)
  moreover have "?s4 = pushed_once m a" by (simp add: state fun_eq_iff)
  ultimately show ?thesis by simp
qed

theorem interleaved_queue_fifo_witness:
  "\<exists>rest. pushed (pushed_once (\<lambda>_. Some 9) 4) = popped (pushed_once (\<lambda>_. Some 9) 4) @ rest \<and>
     queue_holds (shared (pushed_once (\<lambda>_. Some 9) 4)) rest"
  using interleaved_queue_fifo [OF pushed_once_reachable [of "\<lambda>_. Some 9" 4]]
  by (auto simp: pushed_once_def)

end
