(* ===== verification/Db_World.thy ===== *)
theory Db_World
  imports Db_Action Action_Queue
begin

text \<open>
  The objects of the module and their connection to the server: prepared
  statements (\<open>src/src/statement.h\<close>), databases (\<open>src/src/database.h\<close>), the memory they
  live in, and the operations that talk to the server without queueing,
  \<open>PStatement::Prepare\<close>, \<open>Database::Connect\<close> and the small calls around them.
\<close>

section \<open>Strings\<close>

text \<open>What a C function sees of a string, and what \<open>strncpy\<close> leaves in a zeroed buffer.\<close>

definition c_str :: "string \<Rightarrow> string" where
  "c_str s = takeWhile (\<lambda>c. c \<noteq> CHR 0x00) s"

definition strncpy :: "string \<Rightarrow> nat \<Rightarrow> string" where
  "strncpy s n = take n (c_str s)"

lemma strncpy_length: "length (strncpy s n) \<le> n"
  by (simp add: strncpy_def)

text \<open>\<open>std::to_string\<close> of an unsigned number.\<close>

fun to_string :: "nat \<Rightarrow> string" where
  "to_string n =
    (if n < 10 then [char_of (48 + n)] else to_string (n div 10) @ [char_of (48 + n mod 10)])"

declare to_string.simps [simp del]

lemma to_string_length: "n < 10 ^ Suc k \<Longrightarrow> length (to_string n) \<le> Suc k"
proof (induction k arbitrary: n)
  case 0
  then show ?case by (subst to_string.simps) simp
next
  case (Suc k)
  then have "n div 10 < 10 ^ Suc k" by (simp add: less_mult_imp_div_less)
  with Suc.IH [of "n div 10"] show ?case by (subst to_string.simps) simp
qed

section \<open>Objects\<close>

record pstatement =
  s_database :: nat
  m_stmt :: "stmt_handle option"
  m_query :: string
  m_numArgs :: int
  s_iLuaRef :: int

text \<open>
  A request that \<open>asio::post\<close> has queued for the thread of a database: a query, a
  statement with its parameters, or the creation of a statement.
\<close>

datatype task = Run_query nat | Run_statement nat "my_bind list" nat | Create_statement string

text \<open>
  \<open>m_bIsPendingCallback\<close> is not set by the constructor. \<open>io_thread\<close> says whether the
  thread runs, \<open>io_work\<close> whether the work guard is held, \<open>tasks\<close> is what
  \<open>io_context\<close> has queued. The \<open>MYSQL\<close> object of a database has its address.
\<close>

record database =
  m_strHost :: string
  m_strUser :: string
  m_strPass :: string
  m_strDB :: string
  m_strCharSet :: string
  m_iPort :: "32 word"
  m_strSocket :: string
  m_iClientFlags :: "64 word"
  m_bIsConnected :: bool
  m_bIsInGC :: bool
  m_iLuaRef :: int
  m_bIsPendingCallback :: "bool option"
  m_iCallback :: int
  m_preparedStatements :: "(string \<times> nat) list"
  m_completedActions :: queue
  io_thread :: bool
  io_work :: bool
  tasks :: "task list"

definition new_database ::
  "string \<Rightarrow> string \<Rightarrow> string \<Rightarrow> string \<Rightarrow> 32 word \<Rightarrow> string \<Rightarrow> 64 word \<Rightarrow> int \<Rightarrow> database"
where
  "new_database host user pass db port socket flags callback =
    \<lparr>m_strHost = strncpy host 253, m_strUser = strncpy user 32, m_strPass = strncpy pass 32,
     m_strDB = strncpy db 64, m_strCharSet = '''', m_iPort = port,
     m_strSocket = strncpy socket 107, m_iClientFlags = flags, m_bIsConnected = False,
     m_bIsInGC = False, m_iLuaRef = 0, m_bIsPendingCallback = None, m_iCallback = callback,
     m_preparedStatements = [], m_completedActions = empty_queue (\<lambda>_. None),
     io_thread = False, io_work = True, tasks = []\<rparr>"

text \<open>What \<open>lua_Prepare\<close> waits for; the error members are not set before there is an error.\<close>

record statementCreateWaiter =
  w_stmt :: "nat option"
  w_completed :: bool
  w_error :: "(32 word \<times> string) option"

definition new_waiter :: statementCreateWaiter where
  "new_waiter = \<lparr>w_stmt = None, w_completed = False, w_error = None\<rparr>"

text \<open>
  The memory: the objects at their addresses, the first address never used, the
  databases the module knows (\<open>tmysql::m_databases\<close>), the waiter of the running
  \<open>lua_Prepare\<close>, and the calls made so far.
\<close>

record world =
  statements :: "nat \<Rightarrow> pstatement option"
  databases :: "nat \<Rightarrow> database option"
  actions :: "nat \<Rightarrow> action option"
  m_databases :: "nat list"
  heap_end :: nat
  waiter :: statementCreateWaiter
  my_calls :: my_log
  lua_calls :: lua_log

definition upd_db :: "nat \<Rightarrow> (database \<Rightarrow> database) \<Rightarrow> world \<Rightarrow> world" where
  "upd_db this f w = w\<lparr>databases := (databases w)(this := map_option f (databases w this))\<rparr>"

definition call_my :: "conn \<Rightarrow> my_event \<Rightarrow> world \<Rightarrow> world" where
  "call_my c e w = w\<lparr>my_calls := my c e (my_calls w)\<rparr>"

definition call_lua :: "lua_event \<Rightarrow> world \<Rightarrow> world" where
  "call_lua e w = w\<lparr>lua_calls := lua e (lua_calls w)\<rparr>"

text \<open>An operation on an object that has been freed has no defined behaviour.\<close>

definition on_db :: "nat \<Rightarrow> world \<Rightarrow> (database \<Rightarrow> (fault + 'a) \<times> world) \<Rightarrow> (fault + 'a) \<times> world" where
  "on_db this w f = (case databases w this of None \<Rightarrow> (Inl (Undefined Freed_object), w) | Some d \<Rightarrow> f d)"

definition on_stmt :: "nat \<Rightarrow> world \<Rightarrow> (pstatement \<Rightarrow> (fault + 'a) \<times> world) \<Rightarrow> (fault + 'a) \<times> world" where
  "on_stmt this w f = (case statements w this of None \<Rightarrow> (Inl (Undefined Freed_object), w) | Some d \<Rightarrow> f d)"

text \<open>Running one operation after another; a fault ends both.\<close>

definition and_then :: "(fault + 'a) \<times> 'w \<Rightarrow> ('a \<Rightarrow> 'w \<Rightarrow> (fault + 'b) \<times> 'w) \<Rightarrow> (fault + 'b) \<times> 'w" where
  "and_then m f = (case m of (Inl e, w) \<Rightarrow> (Inl e, w) | (Inr x, w) \<Rightarrow> f x w)"

lemma and_then_simps [simp]:
  "and_then (Inl e, w) f = (Inl e, w)" "and_then (Inr x, w) f = f x w"
  by (simp_all add: and_then_def)

lemma and_then_Inr:
  "and_then m f = (Inr y, w) \<longleftrightarrow> (\<exists>x v. m = (Inr x, v) \<and> f x v = (Inr y, w))"
  by (auto simp: and_then_def split: prod.splits sum.splits)

section \<open>Prepared statements\<close>

definition new_statement :: "nat \<Rightarrow> string \<Rightarrow> pstatement" where
  "new_statement parent query =
    \<lparr>s_database = parent, m_stmt = None, m_query = query, m_numArgs = 0, s_iLuaRef = 0\<rparr>"

text \<open>\<open>ThrowException\<close> with the error of the connection.\<close>

definition conn_exception :: "mysql_client \<Rightarrow> conn \<Rightarrow> my_log \<Rightarrow> fault" where
  "conn_exception M c l = My_exception (m_errno M l c) (m_error M l c)"

definition Prepare ::
  "mysql_client \<Rightarrow> conn \<Rightarrow> pstatement \<Rightarrow> my_log \<Rightarrow> (fault + unit) \<times> pstatement \<times> my_log"
where
  "Prepare M c p l =
    (let l = (case m_stmt p of None \<Rightarrow> l | Some h \<Rightarrow> my c (Stmt_close h) l);
         l = my c Stmt_init l;
         p = p\<lparr>m_stmt := s_init M l c\<rparr> in
     case m_stmt p of
       None \<Rightarrow> (Inl (conn_exception M c l), p, l)
     | Some h \<Rightarrow>
         let l = my c (Stmt_attr_set h) l;
             l = my c (Stmt_prepare h (m_query p)) l in
         if s_prepare M l h \<noteq> 0 then (Inl (conn_exception M c l), p, l)
         else (Inr (), p\<lparr>m_numArgs := sint (ucast (s_param_count M l h) :: 32 word)\<rparr>, l))"

definition prepare_stmt :: "mysql_client \<Rightarrow> conn \<Rightarrow> nat \<Rightarrow> world \<Rightarrow> (fault + unit) \<times> world" where
  "prepare_stmt M c this w =
    on_stmt this w (\<lambda>p.
      let (r, p, l) = Prepare M c p (my_calls w) in
      (r, w\<lparr>statements := (statements w)(this := Some p), my_calls := l\<rparr>))"

text \<open>The destructor closes the handle.\<close>

definition delete_stmt :: "nat \<Rightarrow> world \<Rightarrow> (fault + unit) \<times> world" where
  "delete_stmt this w =
    on_stmt this w (\<lambda>p.
      let w = (case m_stmt p of None \<Rightarrow> w | Some h \<Rightarrow> call_my (s_database p) (Stmt_close h) w) in
      (Inr (), w\<lparr>statements := (statements w)(this := None)\<rparr>))"

section \<open>Connecting\<close>

text \<open>\<open>[number] message\<close>.\<close>

definition error_line :: "32 word \<Rightarrow> string \<Rightarrow> string" where
  "error_line n s = ''['' @ to_string (unat n) @ ''] '' @ s"

definition SetCharacterSet :: "mysql_client \<Rightarrow> nat \<Rightarrow> string \<Rightarrow> world \<Rightarrow> (bool \<times> string) \<times> world" where
  "SetCharacterSet M this charset w =
    (let w = call_my this (My_set_character_set charset) w in
     if m_set_character_set M (my_calls w) this > 0
     then ((False, m_error M (my_calls w) this), w)
     else ((True, ''''), upd_db this (\<lambda>d. d\<lparr>m_strCharSet := strncpy charset 64\<rparr>) w))"

text \<open>Every statement of the database is prepared again, in the order of the map.\<close>

fun prepare_all :: "mysql_client \<Rightarrow> conn \<Rightarrow> nat list \<Rightarrow> world \<Rightarrow> (fault + unit) \<times> world" where
  "prepare_all M c [] w = (Inr (), w)"
| "prepare_all M c (s # ss) w = and_then (prepare_stmt M c s w) (\<lambda>_. prepare_all M c ss)"

definition connect_arguments :: "database \<Rightarrow> connect_args" where
  "connect_arguments d =
    \<lparr>ca_host = m_strHost d, ca_user = m_strUser d, ca_pass = m_strPass d, ca_db = m_strDB d,
     ca_port = m_iPort d, ca_socket = (if m_strSocket d = '''' then None else Some (m_strSocket d)),
     ca_flags = ucast (m_iClientFlags d) OR CLIENT_MULTI_RESULTS\<rparr>"

text \<open>
  The three calls of the condition, each made only if the ones before went well;
  \<open>wkdir\<close> is the directory of the server with the path of its plugins.
\<close>

definition try_connect :: "mysql_client \<Rightarrow> string \<Rightarrow> conn \<Rightarrow> database \<Rightarrow> my_log \<Rightarrow> bool \<times> my_log" where
  "try_connect M wkdir c d l =
    (let l = my c (My_options (Opt_reconnect False)) l in
     if m_options M l c > 0 then (False, l) else
     let l = my c (My_options (Opt_plugin_dir wkdir)) l in
     if m_options M l c > 0 then (False, l) else
     let l = my c (My_real_connect (connect_arguments d)) l in
     (m_real_connect M l c, l))"

definition Connect ::
  "mysql_client \<Rightarrow> string \<Rightarrow> nat \<Rightarrow> bool \<Rightarrow> world \<Rightarrow> (fault + bool \<times> string) \<times> world"
where
  "Connect M wkdir this isReconnect w =
    on_db this w (\<lambda>d.
      let (connected, l) = try_connect M wkdir this d (my_calls w);
          w = w\<lparr>my_calls := l\<rparr> in
      if \<not> connected then (Inr (False, error_line (m_errno M l this) (m_error M l this)), w) else
      let ((ok, error), w) =
            (if m_strCharSet d \<noteq> '''' then SetCharacterSet M this (m_strCharSet d) w
             else ((True, ''''), w)) in
      if \<not> ok then (Inr (False, error), w) else
      and_then (prepare_all M this (map snd (m_preparedStatements d)) w)
        (\<lambda>_ w. (Inr (True, ''''),
           upd_db this (\<lambda>d. d\<lparr>m_bIsPendingCallback := Some (\<not> isReconnect)\<rparr>) w)))"

definition Initialize :: "mysql_client \<Rightarrow> string \<Rightarrow> nat \<Rightarrow> world \<Rightarrow> (fault + bool \<times> string) \<times> world" where
  "Initialize M wkdir this w =
    (let w = call_my this My_init w in
     if \<not> m_init M (my_calls w) this then (Inr (False, ''Out of memory!''), w) else
     and_then (Connect M wkdir this False w) (\<lambda>(ok, error) w.
       if \<not> ok then (Inr (False, error), w)
       else (Inr (True, error), upd_db this (\<lambda>d. d\<lparr>io_thread := True, m_bIsConnected := True\<rparr>) w)))"

section \<open>Small calls\<close>

definition Escape :: "mysql_client \<Rightarrow> nat \<Rightarrow> string \<Rightarrow> world \<Rightarrow> string \<times> world" where
  "Escape M this query w =
    (m_escape M (my_calls w) this query, call_my this (My_escape query) w)"

definition Option_set :: "mysql_client \<Rightarrow> nat \<Rightarrow> int \<Rightarrow> string \<Rightarrow> world \<Rightarrow> (bool \<times> string) \<times> world" where
  "Option_set M this opt arg w =
    (let w = call_my this (My_options (Opt_other opt arg)) w in
     if m_options M (my_calls w) this > 0 then ((False, m_error M (my_calls w) this), w)
     else ((True, ''''), w))"

end
