(* ===== verification/Db_Thread.thy ===== *)
theory Db_Thread
  imports Db_World
begin

text \<open>
  The work of the thread of a database (\<open>src/src/database.cpp\<close>, \<open>src/src/statement.cpp\<close>):
  a queued query is run with at most one reconnection, a queued statement is
  executed with at most one reconnection and one new preparation, all its
  results are collected, and the action is pushed on the queue of completed
  actions. A loop that asks the server whether there are more results may not
  end: such an operation has an option as its result, \<open>None\<close> when it runs for ever.
\<close>

lemma and_then_cong [fundef_cong]:
  "m = m' \<Longrightarrow> (\<And>x w. m' = (Inr x, w) \<Longrightarrow> f x w = g x w) \<Longrightarrow> and_then m f = and_then m' g"
  by (auto simp: and_then_def split: prod.splits sum.splits)

section \<open>Errors after which the connection is made again\<close>

definition lost_connection :: "32 word \<Rightarrow> bool" where
  "lost_connection errorno \<longleftrightarrow>
    errorno = CR_SERVER_LOST \<or> errorno = CR_SERVER_GONE_ERROR \<or> errorno = 1053"

text \<open>What a task is given: the client, the clock (read at a point of the log), the plugin directory.\<close>

record thread_env =
  t_client :: mysql_client
  t_clock :: "my_log \<Rightarrow> int"
  t_wkdir :: string

section \<open>Queries\<close>

text \<open>The part of \<open>RunQuery\<close> from \<open>retry\<close> to the stop of the timer, with \<open>hasRetried\<close>; it gives \<open>errorno\<close>.\<close>

function query_attempt ::
  "thread_env \<Rightarrow> nat \<Rightarrow> string \<Rightarrow> bool \<Rightarrow> world \<Rightarrow> (fault + 32 word) \<times> world"
where
  "query_attempt T this query hasRetried w =
    (let M = t_client T; w = call_my this (My_real_query query) w in
     if m_real_query M (my_calls w) this \<noteq> 0 then
       let errorno = m_errno M (my_calls w) this in
       if \<not> hasRetried \<and> lost_connection errorno then
         and_then (Connect M (t_wkdir T) this True w)
           (\<lambda>(ok, _) w. if ok then query_attempt T this query True w else (Inr errorno, w))
       else (Inr errorno, w)
     else (Inr 0, w))"
  by pat_completeness auto
termination
  by (relation "measure (\<lambda>(_, _, _, r, _). if r then 0 else 1)") auto

declare query_attempt.simps [simp del]

partial_function (option) query_results ::
  "mysql_client \<Rightarrow> nat \<Rightarrow> action \<Rightarrow> world \<Rightarrow> ((fault + action) \<times> world) option"
where
  "query_results M this a w =
    (case Result_mysql M this (my_calls w) of
       (Inl f, l) \<Rightarrow> Some (Inl f, w\<lparr>my_calls := l\<rparr>)
     | (Inr r, l) \<Rightarrow>
         let a = AddResult r a;
             w = call_my this My_next_result (w\<lparr>my_calls := l\<rparr>);
             status = m_next_result M (my_calls w) this in
         if status = - 1 then Some (Inr a, w) else query_results M this a w)"

text \<open>\<open>m_completedActions.push\<close>.\<close>

definition complete :: "nat \<Rightarrow> nat \<Rightarrow> world \<Rightarrow> world" where
  "complete this act w =
    upd_db this (\<lambda>d. d\<lparr>m_completedActions := push act (m_completedActions d)\<rparr>) w"

definition set_action :: "nat \<Rightarrow> action \<Rightarrow> world \<Rightarrow> world" where
  "set_action act a w = w\<lparr>actions := (actions w)(act := Some a)\<rparr>"

text \<open>The error text of a failed query is a local string that is destroyed when \<open>RunQuery\<close> returns.\<close>

definition RunQuery :: "thread_env \<Rightarrow> nat \<Rightarrow> nat \<Rightarrow> world \<Rightarrow> ((fault + unit) \<times> world) option" where
  "RunQuery T this act w =
    (case actions w act of
       None \<Rightarrow> Some (Inl (Undefined Freed_object), w)
     | Some q \<Rightarrow>
         let q = StartQueryTimer (t_clock T (my_calls w)) q in
         case query_attempt T this (m_strQuery q) False w of
           (Inl f, w) \<Rightarrow> Some (Inl f, w)
         | (Inr errorno, w) \<Rightarrow>
             let q = EndQueryTimer (t_clock T (my_calls w)) q in
             if errorno \<noteq> 0
             then Some (Inr (), complete this act (set_action act (AddResult (Result_error errorno Dead_text) q) w))
             else
               (case query_results (t_client T) this q w of
                  None \<Rightarrow> None
                | Some (Inl f, w) \<Rightarrow> Some (Inl f, w)
                | Some (Inr q, w) \<Rightarrow> Some (Inr (), complete this act (set_action act q w))))"

section \<open>Parameters of statements\<close>

text \<open>
  \<open>strlen\<close> of a buffer that was copied without a terminator: it stops at a NUL in
  the buffer or reads on, over \<open>beyond\<close> more characters.
\<close>

definition buffer_strlen :: "nat \<Rightarrow> string \<Rightarrow> nat" where
  "buffer_strlen beyond s = (if CHR 0x00 \<in> set s then length (c_str s) else length s + beyond)"

definition retype_bind :: "nat \<Rightarrow> my_bind \<Rightarrow> my_bind" where
  "retype_bind beyond b =
    (if buffer_type b = MYSQL_TYPE_STRING then
       case buffer b of
         Chars s \<Rightarrow>
           if buffer_strlen beyond s \<noteq> buffer_length b then b\<lparr>buffer_type := MYSQL_TYPE_BLOB\<rparr> else b
       | _ \<Rightarrow> b
     else b)"

text \<open>How \<open>deleteBinds\<close> frees the buffers, and how they have to be freed.\<close>

datatype delete_form = Delete_array | Delete_single

definition delete_bind :: "my_bind \<Rightarrow> delete_form option" where
  "delete_bind b =
    (if buffer_type b = MYSQL_TYPE_NULL then None
     else if buffer_type b = MYSQL_TYPE_STRING then Some Delete_array
     else Some Delete_single)"

definition deleteBinds :: "my_bind list \<Rightarrow> nat \<Rightarrow> delete_form option list" where
  "deleteBinds binds count = map delete_bind (take count binds)"

fun matching_delete :: "bind_buffer \<Rightarrow> delete_form option" where
  "matching_delete No_buffer = None"
| "matching_delete (Chars s) = Some Delete_array"
| "matching_delete (Bool_buffer b) = Some Delete_single"
| "matching_delete (Double_buffer d) = Some Delete_single"

section \<open>Statements\<close>

text \<open>
  The part of \<open>Execute\<close> from \<open>retry\<close> to the stop of the timer, with its two flags.
\<close>

function execute_attempt ::
  "thread_env \<Rightarrow> nat \<Rightarrow> my_bind list \<Rightarrow> bool \<Rightarrow> bool \<Rightarrow> world \<Rightarrow> (fault + 32 word) \<times> world"
where
  "execute_attempt T stmt binds hasRetried hasRetriedStatement w =
    on_stmt stmt w (\<lambda>p.
      case m_stmt p of
        None \<Rightarrow> (Inl (Undefined Null_pointer), w)
      | Some h \<Rightarrow>
          let M = t_client T; db = s_database p;
              w = call_my db (Stmt_bind_param h binds) w;
              w = call_my db (Stmt_execute h) w in
          if s_execute M (my_calls w) h \<noteq> 0 then
            let errorno = s_errno M (my_calls w) h in
            if \<not> hasRetried \<and> lost_connection errorno then
              and_then (Connect M (t_wkdir T) db True w)
                (\<lambda>(ok, _) w.
                  if ok then execute_attempt T stmt binds True hasRetriedStatement w
                  else if \<not> hasRetriedStatement \<and> errorno = 1243 then
                    and_then (prepare_stmt M db stmt w)
                      (\<lambda>_ w. execute_attempt T stmt binds True True w)
                  else (Inr errorno, w))
            else if \<not> hasRetriedStatement \<and> errorno = 1243 then
              and_then (prepare_stmt M db stmt w)
                (\<lambda>_ w. execute_attempt T stmt binds hasRetried True w)
            else (Inr errorno, w)
          else (Inr 0, w))"
  by pat_completeness auto
termination
  by (relation "measure (\<lambda>(_, _, _, r, s, _). (if r then 0 else 1) + (if s then 0 else 1))") auto

declare execute_attempt.simps [simp del]

partial_function (option) statement_results ::
  "mysql_client \<Rightarrow> conn \<Rightarrow> stmt_handle \<Rightarrow> action \<Rightarrow> world \<Rightarrow> ((fault + action) \<times> world) option"
where
  "statement_results M c h a w =
    (let w = call_my c (Stmt_store_result h) w in
     case Result_stmt M c h (my_calls w) of
       (Inl f, l) \<Rightarrow> Some (Inl f, w\<lparr>my_calls := l\<rparr>)
     | (Inr r, l) \<Rightarrow>
         let a = AddResult r a;
             w = call_my c (Stmt_next_result h) (w\<lparr>my_calls := l\<rparr>);
             status = s_next_result M (my_calls w) h in
         if status = - 1 then Some (Inr a, w) else statement_results M c h a w)"

text \<open>
  The action changes before a fault as well: its timer has started when
  \<open>Prepare\<close> throws. The result is how the buffers of the parameters have been
  freed; an exception leaves before \<open>deleteBinds\<close>, so they are not freed then.
\<close>

definition Execute ::
  "thread_env \<Rightarrow> nat \<Rightarrow> nat \<Rightarrow> my_bind list \<Rightarrow> action \<Rightarrow> world \<Rightarrow>
    ((fault + delete_form option list) \<times> action \<times> world) option"
where
  "Execute T beyond stmt binds a w =
    (let binds = map (retype_bind beyond) binds;
         a = StartQueryTimer (t_clock T (my_calls w)) a in
     case execute_attempt T stmt binds False False w of
       (Inl f, w) \<Rightarrow> Some (Inl f, a, w)
     | (Inr errorno, w) \<Rightarrow>
         let a = EndQueryTimer (t_clock T (my_calls w)) a in
         case statements w stmt of
           None \<Rightarrow> Some (Inl (Undefined Freed_object), a, w)
         | Some p \<Rightarrow>
             (case m_stmt p of
                None \<Rightarrow> Some (Inl (Undefined Null_pointer), a, w)
              | Some h \<Rightarrow>
                  let freed = deleteBinds binds (nat (m_numArgs p)) in
                  if errorno \<noteq> 0 then Some (Inr freed, AddResult (Result_error errorno (Stmt_text h)) a, w)
                  else
                    (case statement_results (t_client T) (s_database p) h a w of
                       None \<Rightarrow> None
                     | Some (Inl f, w) \<Rightarrow> Some (Inl f, a, w)
                     | Some (Inr a, w) \<Rightarrow> Some (Inr freed, a, w))))"

text \<open>The text of the exception dies with the handler that catches it.\<close>

definition RunStatement ::
  "thread_env \<Rightarrow> nat \<Rightarrow> nat \<Rightarrow> nat \<Rightarrow> my_bind list \<Rightarrow> nat \<Rightarrow> world \<Rightarrow> ((fault + unit) \<times> world) option"
where
  "RunStatement T beyond this stmt binds act w =
    (case actions w act of
       None \<Rightarrow> Some (Inl (Undefined Freed_object), w)
     | Some a \<Rightarrow>
         (case Execute T beyond stmt binds a w of
            None \<Rightarrow> None
          | Some (Inr _, a, w) \<Rightarrow> Some (Inr (), complete this act (set_action act a w))
          | Some (Inl (My_exception n s), a, w) \<Rightarrow>
              Some (Inr (), complete this act (set_action act (AddResult (Result_error n Dead_text) a) w))
          | Some (Inl f, a, w) \<Rightarrow> Some (Inl f, w)))"

definition CreateStatement :: "thread_env \<Rightarrow> nat \<Rightarrow> string \<Rightarrow> world \<Rightarrow> (fault + unit) \<times> world" where
  "CreateStatement T this query w =
    (let (r, p, l) = Prepare (t_client T) this (new_statement this query) (my_calls w);
         w = w\<lparr>my_calls := l\<rparr>; addr = heap_end w in
     case r of
       Inr _ \<Rightarrow> (Inr (), w\<lparr>statements := (statements w)(addr := Some p), heap_end := addr + 1,
                          waiter := (waiter w)\<lparr>w_stmt := Some addr, w_completed := True\<rparr>\<rparr>)
     | Inl (My_exception n s) \<Rightarrow>
         (Inr (), w\<lparr>waiter := (waiter w)\<lparr>w_error := Some (n, s), w_completed := True\<rparr>\<rparr>)
     | Inl f \<Rightarrow> (Inl f, w))"

section \<open>The queue of tasks\<close>

definition run_task :: "thread_env \<Rightarrow> nat \<Rightarrow> nat \<Rightarrow> task \<Rightarrow> world \<Rightarrow> ((fault + unit) \<times> world) option" where
  "run_task T beyond this t w =
    (case t of
       Run_query act \<Rightarrow> RunQuery T this act w
     | Run_statement stmt binds act \<Rightarrow> RunStatement T beyond this stmt binds act w
     | Create_statement query \<Rightarrow> Some (CreateStatement T this query w))"

text \<open>\<open>io_context.run()\<close> with one thread: the tasks in the order in which they were posted.\<close>

partial_function (option) run_tasks ::
  "thread_env \<Rightarrow> nat \<Rightarrow> nat \<Rightarrow> world \<Rightarrow> ((fault + unit) \<times> world) option"
where
  "run_tasks T beyond this w =
    (case databases w this of
       None \<Rightarrow> Some (Inl (Undefined Freed_object), w)
     | Some d \<Rightarrow>
         (case tasks d of
            [] \<Rightarrow> Some (Inr (), w)
          | t # ts \<Rightarrow>
              (case run_task T beyond this t (upd_db this (\<lambda>d. d\<lparr>tasks := ts\<rparr>) w) of
                 None \<Rightarrow> None
               | Some (Inl f, w) \<Rightarrow> Some (Inl f, w)
               | Some (Inr _, w) \<Rightarrow> run_tasks T beyond this w)))"

end
