(* ===== verification/Db_Queries.thy ===== *)
theory Db_Queries
  imports Db_Thread Result_Table
begin

text \<open>
  What the thread of a database guarantees: a query is sent at most twice and
  the connection made again at most once, a statement is executed at most three
  times; when the server answers that there are no more results after finitely
  many, \<open>RunQuery\<close> ends, hands the query over to the queue of completed actions
  with at least one result, and disturbs nothing else.
\<close>

section \<open>Counting calls\<close>

definition count_calls :: "(my_event \<Rightarrow> bool) \<Rightarrow> my_log \<Rightarrow> nat" where
  "count_calls P l = length (filter (\<lambda>(c, e). P e) l)"

lemma count_calls_my [simp]: "count_calls P (my c e l) = count_calls P l + (if P e then 1 else 0)"
  by (simp add: count_calls_def my_def)

fun connecting :: "my_event \<Rightarrow> bool" where
  "connecting (My_options opt) = True"
| "connecting (My_set_character_set cs) = True"
| "connecting Stmt_init = True"
| "connecting (Stmt_close h) = True"
| "connecting (Stmt_attr_set h) = True"
| "connecting (Stmt_prepare h q) = True"
| "connecting _ = False"

fun is_connect :: "my_event \<Rightarrow> bool" where
  "is_connect (My_real_connect a) = True"
| "is_connect _ = False"

fun is_query :: "my_event \<Rightarrow> bool" where
  "is_query (My_real_query q) = True"
| "is_query _ = False"

fun is_execute :: "my_event \<Rightarrow> bool" where
  "is_execute (Stmt_execute h) = True"
| "is_execute _ = False"

text \<open>A property of calls that no call of \<open>Connect\<close> but \<open>mysql_real_connect\<close> has.\<close>

definition not_connecting :: "(my_event \<Rightarrow> bool) \<Rightarrow> bool" where
  "not_connecting P \<longleftrightarrow> (\<forall>e. connecting e \<longrightarrow> \<not> P e)"

lemma not_connecting_simps:
  assumes "not_connecting P"
  shows "\<not> P (My_options x)" "\<not> P (My_set_character_set s)" "\<not> P Stmt_init" "\<not> P (Stmt_close h)"
    "\<not> P (Stmt_attr_set h)" "\<not> P (Stmt_prepare h q)"
  using assms by (simp_all add: not_connecting_def)

lemma not_connecting_kinds:
  "not_connecting is_connect" "not_connecting is_query" "not_connecting is_execute"
  "not_connecting (\<lambda>e. e = My_next_result)" "not_connecting (\<lambda>e. \<exists>h. e = Stmt_next_result h)"
  by (auto simp: not_connecting_def elim: connecting.elims is_connect.elims is_query.elims
      is_execute.elims)

lemma Prepare_count:
  assumes "not_connecting P"
  shows "count_calls P (snd (snd (Prepare M c p l))) = count_calls P l"
  using not_connecting_simps [OF assms]
  by (auto simp: Prepare_def Let_def split: option.split)

lemma prepare_stmt_count:
  assumes "not_connecting P"
  shows "count_calls P (my_calls (snd (prepare_stmt M c s w))) = count_calls P (my_calls w)"
  using Prepare_count [OF assms, of M c _ "my_calls w"]
  by (auto simp: prepare_stmt_def on_stmt_def case_prod_unfold Let_def split: option.split)

lemma and_then_snd:
  "snd (and_then m f) = (case m of (Inl e, w) \<Rightarrow> w | (Inr x, w) \<Rightarrow> snd (f x w))"
  by (simp add: and_then_def split: prod.split sum.split)

lemma prepare_all_count:
  assumes "not_connecting P"
  shows "count_calls P (my_calls (snd (prepare_all M c ss w))) = count_calls P (my_calls w)"
proof (induction ss arbitrary: w)
  case (Cons s ss)
  obtain r w1 where "prepare_stmt M c s w = (r, w1)" by (cases "prepare_stmt M c s w")
  with prepare_stmt_count [OF assms, of M c s w] Cons [of w1] show ?case
    by (cases r) simp_all
qed simp

lemma SetCharacterSet_count:
  assumes "not_connecting P"
  shows "count_calls P (my_calls (snd (SetCharacterSet M this cs w))) = count_calls P (my_calls w)"
  using not_connecting_simps [OF assms]
  by (simp add: SetCharacterSet_def Let_def call_my_def upd_db_def)

lemma try_connect_count:
  assumes "not_connecting P"
  shows "count_calls P (snd (try_connect M d c db l)) \<le>
    count_calls P l + (if P (My_real_connect (connect_arguments db)) then 1 else 0)"
  using not_connecting_simps [OF assms] by (simp add: try_connect_def Let_def)

definition connect_calls :: "(my_event \<Rightarrow> bool) \<Rightarrow> nat" where
  "connect_calls P = (if \<exists>a. P (My_real_connect a) then 1 else 0)"

lemma connect_calls_kinds [simp]:
  "connect_calls is_query = 0" "connect_calls is_execute = 0" "connect_calls is_connect = 1"
  "connect_calls (\<lambda>e. e = My_next_result) = 0" "connect_calls (\<lambda>e. \<exists>h. e = Stmt_next_result h) = 0"
  by (auto simp: connect_calls_def)

lemma Connect_count:
  assumes "not_connecting P"
  shows "count_calls P (my_calls (snd (Connect M wkdir this re w))) \<le>
    count_calls P (my_calls w) + connect_calls P"
proof (cases "databases w this")
  case None
  then show ?thesis by (simp add: Connect_def on_db_def)
next
  case (Some d)
  obtain ok l where tc: "try_connect M wkdir this d (my_calls w) = (ok, l)"
    by (cases "try_connect M wkdir this d (my_calls w)")
  have l: "count_calls P l \<le> count_calls P (my_calls w) + connect_calls P"
    using try_connect_count [OF assms, of M wkdir this d "my_calls w"] tc
    by (auto simp: connect_calls_def split: if_splits)
  let ?w = "w\<lparr>my_calls := l\<rparr>"
  have rest: "count_calls P (my_calls (snd (and_then (prepare_all M this ss v)
      (\<lambda>_ w. (Inr (True, '''' :: string), upd_db this g w))))) = count_calls P (my_calls v)" for ss v g
    using prepare_all_count [OF assms, of M this ss v]
    by (cases "prepare_all M this ss v"; cases "fst (prepare_all M this ss v)")
      (auto simp: upd_db_def)
  show ?thesis
  proof (cases "ok \<and> m_strCharSet d \<noteq> ''''")
    case True
    obtain b e v where cs: "SetCharacterSet M this (m_strCharSet d) ?w = ((b, e), v)"
      by (cases "SetCharacterSet M this (m_strCharSet d) ?w"; auto)
    then have "count_calls P (my_calls v) = count_calls P l"
      using SetCharacterSet_count [OF assms, of M this "m_strCharSet d" ?w] by simp
    with True Some tc cs l rest show ?thesis by (simp add: Connect_def on_db_def)
  next
    case False
    with Some tc l rest show ?thesis by (auto simp: Connect_def on_db_def Let_def)
  qed
qed

section \<open>At most one reconnection\<close>

lemma query_attempt_bound:
  "count_calls is_query (my_calls (snd (query_attempt T this q r w))) \<le>
     count_calls is_query (my_calls w) + (if r then 1 else 2) \<and>
   count_calls is_connect (my_calls (snd (query_attempt T this q r w))) \<le>
     count_calls is_connect (my_calls w) + (if r then 0 else 1)"
proof (induction T this q r w rule: query_attempt.induct)
  case (1 T this q r w)
  let ?M = "t_client T" and ?w = "call_my this (My_real_query q) w"
  let ?n = "m_errno ?M (my_calls ?w) this"
  have w: "count_calls is_query (my_calls ?w) = count_calls is_query (my_calls w) + 1"
    "count_calls is_connect (my_calls ?w) = count_calls is_connect (my_calls w)"
    by (simp_all add: call_my_def)
  show ?case
  proof (cases "m_real_query ?M (my_calls ?w) this \<noteq> 0 \<and> \<not> r \<and> lost_connection ?n")
    case False
    then show ?thesis using w by (subst (1 2) query_attempt.simps) (auto simp: Let_def)
  next
    case True
    obtain c v where con: "Connect ?M (t_wkdir T) this True ?w = (c, v)"
      by (cases "Connect ?M (t_wkdir T) this True ?w")
    have v: "count_calls is_query (my_calls v) \<le> count_calls is_query (my_calls w) + 1"
      "count_calls is_connect (my_calls v) \<le> count_calls is_connect (my_calls w) + 1"
      using Connect_count [OF not_connecting_kinds(2), of ?M "t_wkdir T" this True ?w]
        Connect_count [OF not_connecting_kinds(1), of ?M "t_wkdir T" this True ?w] con w
      by simp_all
    have eq: "query_attempt T this q r w = and_then (c, v)
        (\<lambda>(ok, _) w. if ok then query_attempt T this q True w else (Inr ?n, w))"
      using True con by (subst query_attempt.simps) (simp add: Let_def)
    show ?thesis
    proof (cases c)
      case (Inl f)
      then show ?thesis using eq v True by simp
    next
      case (Inr ok)
      obtain b e where ok: "ok = (b, e)" by (cases ok)
      show ?thesis
      proof (cases b)
        case b: True
        have "count_calls is_query (my_calls (snd (query_attempt T this q True v))) \<le>
            count_calls is_query (my_calls v) + 1 \<and>
          count_calls is_connect (my_calls (snd (query_attempt T this q True v))) \<le>
            count_calls is_connect (my_calls v)"
          using "1.IH" [OF refl refl _ refl, of ok v b e v] True con Inr ok b by simp
        with v True show ?thesis using eq Inr ok b by simp
      next
        case False
        then show ?thesis using eq Inr ok v True by simp
      qed
    qed
  qed
qed

lemma execute_attempt_bound:
  "count_calls is_execute (my_calls (snd (execute_attempt T s binds r rs w))) \<le>
     count_calls is_execute (my_calls w) + 1 + (if r then 0 else 1) + (if rs then 0 else 1) \<and>
   count_calls is_connect (my_calls (snd (execute_attempt T s binds r rs w))) \<le>
     count_calls is_connect (my_calls w) + (if r then 0 else 1)"
proof (induction T s binds r rs w rule: execute_attempt.induct)
  case (1 T s binds r rs w)
  show ?case
  proof (cases "\<exists>p h. statements w s = Some p \<and> m_stmt p = Some h")
    case False
    then show ?thesis
      by (subst (1 2) execute_attempt.simps) (auto simp: on_stmt_def split: option.splits)
  next
    case True
    then obtain p h where p: "statements w s = Some p" "m_stmt p = Some h" by blast
    let ?M = "t_client T" and ?db = "s_database p"
    let ?w = "call_my ?db (Stmt_execute h) (call_my ?db (Stmt_bind_param h binds) w)"
    let ?n = "s_errno ?M (my_calls ?w) h"
    have w: "count_calls is_execute (my_calls ?w) = count_calls is_execute (my_calls w) + 1"
      "count_calls is_connect (my_calls ?w) = count_calls is_connect (my_calls w)"
      by (simp_all add: call_my_def)
    note IH1 = "1.IH"(1) and IH2 = "1.IH"(2) and IH3 = "1.IH"(3)
    consider (ok) "s_execute ?M (my_calls ?w) h = 0"
      | (reconnect) "s_execute ?M (my_calls ?w) h \<noteq> 0" "\<not> r" "lost_connection ?n"
      | (prepare) "s_execute ?M (my_calls ?w) h \<noteq> 0" "\<not> (\<not> r \<and> lost_connection ?n)" "\<not> rs" "?n = 1243"
      | (fail) "s_execute ?M (my_calls ?w) h \<noteq> 0" "\<not> (\<not> r \<and> lost_connection ?n)" "\<not> (\<not> rs \<and> ?n = 1243)"
      by blast
    then show ?thesis
    proof cases
      case ok
      then show ?thesis using p w
        by (subst (1 2) execute_attempt.simps) (simp add: on_stmt_def Let_def)
    next
      case fail
      then have "execute_attempt T s binds r rs w = (Inr ?n, ?w)"
        using p by (subst execute_attempt.simps) (auto simp: on_stmt_def Let_def)
      then show ?thesis using w by simp
    next
      case prepare
      obtain c v where pr: "prepare_stmt ?M ?db s ?w = (c, v)" by (cases "prepare_stmt ?M ?db s ?w")
      have v: "count_calls is_execute (my_calls v) = count_calls is_execute (my_calls w) + 1"
        "count_calls is_connect (my_calls v) = count_calls is_connect (my_calls w)"
        using prepare_stmt_count [OF not_connecting_kinds(3), of ?M ?db s ?w]
          prepare_stmt_count [OF not_connecting_kinds(1), of ?M ?db s ?w] pr w by simp_all
      have eq: "execute_attempt T s binds r rs w =
          and_then (c, v) (\<lambda>_ w. execute_attempt T s binds r True w)"
        using prepare p pr by (subst execute_attempt.simps) (auto simp: on_stmt_def Let_def)
      show ?thesis
      proof (cases c)
        case (Inl f)
        then show ?thesis using eq v by simp
      next
        case (Inr u)
        have "count_calls is_execute (my_calls (snd (execute_attempt T s binds r True v))) \<le>
            count_calls is_execute (my_calls v) + 1 + (if r then 0 else 1) + 0 \<and>
          count_calls is_connect (my_calls (snd (execute_attempt T s binds r True v))) \<le>
            count_calls is_connect (my_calls v) + (if r then 0 else 1)"
          using IH3 [OF p(2) refl refl refl refl _ refl, of u v] prepare pr Inr by simp
        then show ?thesis using eq Inr v prepare(3) by simp
      qed
    next
      case reconnect
      obtain c v where con: "Connect ?M (t_wkdir T) ?db True ?w = (c, v)"
        by (cases "Connect ?M (t_wkdir T) ?db True ?w")
      have v: "count_calls is_execute (my_calls v) \<le> count_calls is_execute (my_calls w) + 1"
        "count_calls is_connect (my_calls v) \<le> count_calls is_connect (my_calls w) + 1"
        using Connect_count [OF not_connecting_kinds(3), of ?M "t_wkdir T" ?db True ?w]
          Connect_count [OF not_connecting_kinds(1), of ?M "t_wkdir T" ?db True ?w] con w
        by simp_all
      have n: "?n \<noteq> 1243" using reconnect(3)
        by (auto simp: lost_connection_def CR_SERVER_LOST_def CR_SERVER_GONE_ERROR_def)
      have eq: "execute_attempt T s binds r rs w = and_then (c, v)
          (\<lambda>(ok, _) w. if ok then execute_attempt T s binds True rs w else (Inr ?n, w))"
        using reconnect p con n
        by (subst execute_attempt.simps) (simp add: on_stmt_def Let_def case_prod_unfold cong: if_cong)
      show ?thesis
      proof (cases c)
        case (Inl f)
        then show ?thesis using eq v reconnect(2) by simp
      next
        case (Inr ok)
        obtain b e where ok: "ok = (b, e)" by (cases ok)
        show ?thesis
        proof (cases b)
          case b: True
          have "count_calls is_execute (my_calls (snd (execute_attempt T s binds True rs v))) \<le>
              count_calls is_execute (my_calls v) + 1 + 0 + (if rs then 0 else 1) \<and>
            count_calls is_connect (my_calls (snd (execute_attempt T s binds True rs v))) \<le>
              count_calls is_connect (my_calls v)"
            using IH1 [OF p(2) refl refl refl refl _ refl, of ok v b e v] reconnect con Inr ok b by simp
          then show ?thesis using eq Inr ok b v reconnect(2) by simp
        next
          case False
          then show ?thesis using eq Inr ok v reconnect(2) by simp
        qed
      qed
    qed
  qed
qed

text \<open>The results loops send no query and do not connect.\<close>

lemma Result_mysql_count:
  "P My_store_result = False \<Longrightarrow> P My_free_result = False \<Longrightarrow>
    count_calls P (snd (Result_mysql M c l)) = count_calls P l"
  by (auto simp: Result_mysql_def Let_def split: option.split sum.split)

lemma query_results_count:
  assumes "P My_store_result = False" "P My_free_result = False" "P My_next_result = False"
    and "query_results M this a w = Some y"
  shows "count_calls P (my_calls (snd y)) = count_calls P (my_calls w)"
proof (rule query_results.raw_induct [where P = "\<lambda>M this a w y.
    count_calls P (my_calls (snd y)) = count_calls P (my_calls w)", OF _ assms(4)], goal_cases)
  case (1 f M this a w y)
  obtain x l where R: "Result_mysql M this (my_calls w) = (x, l)"
    by (cases "Result_mysql M this (my_calls w)")
  have l: "count_calls P l = count_calls P (my_calls w)"
    using Result_mysql_count [OF assms(1,2), of M this "my_calls w"] R by simp
  let ?w = "call_my this My_next_result (w\<lparr>my_calls := l\<rparr>)"
  have w: "count_calls P (my_calls ?w) = count_calls P (my_calls w)"
    using l by (simp add: call_my_def assms(3))
  show ?case
  proof (cases x)
    case (Inl e)
    then show ?thesis using 1(2) R l by auto
  next
    case (Inr r)
    then show ?thesis using 1(2) 1(1) [of M this "AddResult r a" ?w y] R w
      by (auto simp: Let_def split: if_splits)
  qed
qed

section \<open>What the thread leaves alone\<close>

text \<open>The members of a database that belong to its queues and to the Lua thread.\<close>

definition db_frame where
  "db_frame d = (m_completedActions d, tasks d, io_thread d, m_iLuaRef d, m_iCallback d,
     m_preparedStatements d, m_bIsConnected d, m_bIsInGC d)"

definition keeps :: "world \<Rightarrow> world \<Rightarrow> bool" where
  "keeps w w' \<longleftrightarrow> actions w' = actions w \<and> m_databases w' = m_databases w \<and>
     lua_calls w' = lua_calls w \<and> heap_end w' = heap_end w \<and> waiter w' = waiter w \<and>
     dom (statements w) \<subseteq> dom (statements w') \<and>
     (\<forall>a. map_option db_frame (databases w' a) = map_option db_frame (databases w a))"

lemma keeps_refl [simp]: "keeps w w"
  by (simp add: keeps_def)

lemma keeps_trans: "keeps u v \<Longrightarrow> keeps v w \<Longrightarrow> keeps u w"
  unfolding keeps_def by (metis subset_trans)

lemma keeps_call_my [simp]: "keeps u (call_my c e w) \<longleftrightarrow> keeps u w"
  by (simp add: keeps_def call_my_def)

lemma keeps_log [simp]: "keeps u (w\<lparr>my_calls := l\<rparr>) \<longleftrightarrow> keeps u w"
  by (simp add: keeps_def)

lemma keeps_from_call_my [simp]: "keeps (call_my c e w) u \<longleftrightarrow> keeps w u"
  by (simp add: keeps_def call_my_def)

lemma keeps_from_log [simp]: "keeps (w\<lparr>my_calls := l\<rparr>) u \<longleftrightarrow> keeps w u"
  by (simp add: keeps_def)

lemma keeps_statements [simp]:
  "keeps w (w\<lparr>statements := s, my_calls := l\<rparr>) \<longleftrightarrow> dom (statements w) \<subseteq> dom s"
  by (simp add: keeps_def)

lemma keeps_upd_db:
  "(\<And>d. db_frame (f d) = db_frame d) \<Longrightarrow> keeps u w \<Longrightarrow> keeps u (upd_db this f w)"
  by (simp add: keeps_def upd_db_def option.map_comp comp_def)

lemma prepare_stmt_keeps: "keeps w (snd (prepare_stmt M c s w))"
  by (auto simp: prepare_stmt_def on_stmt_def Let_def case_prod_unfold keeps_def split: option.split)

lemma prepare_all_keeps: "keeps w (snd (prepare_all M c ss w))"
proof (induction ss arbitrary: w)
  case (Cons s ss)
  obtain r w1 where "prepare_stmt M c s w = (r, w1)" by (cases "prepare_stmt M c s w")
  with prepare_stmt_keeps [of w M c s] Cons [of w1] show ?case
    by (cases r) (auto intro: keeps_trans)
qed simp

lemma SetCharacterSet_keeps: "keeps w (snd (SetCharacterSet M this cs w))"
  by (simp add: SetCharacterSet_def Let_def keeps_upd_db db_frame_def)

lemma Connect_keeps: "keeps w (snd (Connect M wkdir this re w))"
proof (cases "databases w this")
  case None
  then show ?thesis by (simp add: Connect_def on_db_def)
next
  case (Some d)
  obtain ok l where tc: "try_connect M wkdir this d (my_calls w) = (ok, l)"
    by (cases "try_connect M wkdir this d (my_calls w)")
  let ?w = "w\<lparr>my_calls := l\<rparr>"
  have rest: "keeps u (snd (and_then (prepare_all M this ss v)
      (\<lambda>_ w. (Inr (True, '''' :: string), upd_db this (\<lambda>d. d\<lparr>m_bIsPendingCallback := x\<rparr>) w))))"
    if "keeps u v" for u v ss x
    using prepare_all_keeps [of v M this ss] that
    by (cases "prepare_all M this ss v"; cases "fst (prepare_all M this ss v)")
      (auto intro!: keeps_upd_db intro: keeps_trans simp: db_frame_def)
  show ?thesis
  proof (cases "ok \<and> m_strCharSet d \<noteq> ''''")
    case True
    obtain b e v where cs: "SetCharacterSet M this (m_strCharSet d) ?w = ((b, e), v)"
      by (cases "SetCharacterSet M this (m_strCharSet d) ?w"; auto)
    then have "keeps w v"
      using SetCharacterSet_keeps [of ?w M this "m_strCharSet d"] by (simp add: keeps_def)
    with True Some tc cs rest show ?thesis by (simp add: Connect_def on_db_def)
  next
    case False
    with Some tc rest show ?thesis by (auto simp: Connect_def on_db_def Let_def)
  qed
qed

lemma query_attempt_keeps: "keeps w (snd (query_attempt T this q r w))"
proof (induction T this q r w rule: query_attempt.induct)
  case (1 T this q r w)
  let ?M = "t_client T" and ?w = "call_my this (My_real_query q) w"
  let ?n = "m_errno ?M (my_calls ?w) this"
  show ?case
  proof (cases "m_real_query ?M (my_calls ?w) this \<noteq> 0 \<and> \<not> r \<and> lost_connection ?n")
    case False
    then show ?thesis by (subst query_attempt.simps) (auto simp: Let_def)
  next
    case True
    obtain c v where con: "Connect ?M (t_wkdir T) this True ?w = (c, v)"
      by (cases "Connect ?M (t_wkdir T) this True ?w")
    have v: "keeps w v"
      using Connect_keeps [of ?w ?M "t_wkdir T" this True] con
      by (metis keeps_call_my keeps_refl keeps_trans snd_conv)
    have eq: "query_attempt T this q r w = and_then (c, v)
        (\<lambda>(ok, _) w. if ok then query_attempt T this q True w else (Inr ?n, w))"
      using True con by (subst query_attempt.simps) (simp add: Let_def)
    show ?thesis
    proof (cases c)
      case (Inl f)
      then show ?thesis using eq v by simp
    next
      case (Inr ok)
      obtain b e where ok: "ok = (b, e)" by (cases ok)
      have "b \<Longrightarrow> keeps v (snd (query_attempt T this q True v))"
        using "1.IH" [OF refl refl _ refl, of ok v b e v] True con Inr ok by simp
      then show ?thesis using eq Inr ok v by (auto intro: keeps_trans)
    qed
  qed
qed

section \<open>All results are collected\<close>

text \<open>From the log \<open>l\<close> on, the connection has at most \<open>k\<close> more results.\<close>

definition results_within :: "mysql_client \<Rightarrow> conn \<Rightarrow> my_log \<Rightarrow> nat \<Rightarrow> bool" where
  "results_within M this l k \<longleftrightarrow>
    (\<forall>ev. k \<le> count_calls (\<lambda>e. e = My_next_result) ev \<longrightarrow> m_next_result M (l @ ev) this = - 1)"

text \<open>The counts of every result set fit an \<open>int\<close>.\<close>

definition small_results :: "mysql_client \<Rightarrow> conn \<Rightarrow> bool" where
  "small_results M this \<longleftrightarrow>
    (\<forall>l p. m_store_result M l this = Some p \<longrightarrow> countable_res p)"

lemma Result_mysql_small:
  assumes "small_results M this"
  shows "\<exists>r ev. Result_mysql M this l = (Inr r, l @ ev) \<and> result_ok r"
proof -
  obtain x l' where R: "Result_mysql M this l = (x, l')" by (cases "Result_mysql M this l")
  have ev: "\<exists>ev. l' = l @ ev"
    using R by (auto simp: Result_mysql_def Let_def my_def split: option.splits sum.splits if_splits)
  have "\<exists>r. x = Inr r"
  proof (cases "m_store_result M (my this My_store_result l) this")
    case None
    then show ?thesis using R by (auto simp: Result_mysql_def Let_def)
  next
    case (Some p)
    then have "countable_res p" using assms by (auto simp: small_results_def)
    note c = countable_res_counts [OF this]
    let ?r = "Result_error (m_errno M l this) (Conn_text this)
      \<lparr>m_iLastID := Some (u64_to_double (m_insert_id M (my this My_store_result l) this)),
       m_iAffected := Some (u64_to_double (m_affected_rows M (my this My_store_result l) this))\<rparr>"
    have "\<exists>r'. Resize (sint (num_fields p)) (sint (ucast (num_rows p) :: 32 word)) ?r = Inr r'"
      unfolding c by (simp add: Resize_def Let_def)
    then obtain r' where r': "Resize (sint (num_fields p)) (sint (ucast (num_rows p) :: 32 word)) ?r = Inr r'" ..
    note inside = loops_inside(1) [OF r' base_result(2,3), of "field_direct p"]
      loops_inside(2) [OF r' base_result(2,3), of "fetch_row p" "field_direct p"]
    from R Some r' show ?thesis
      by (auto simp: Result_mysql_def Let_def inside split: if_splits)
  qed
  then obtain r where "x = Inr r" ..
  with R ev show ?thesis using Result_mysql_ok [of M this l r l'] by auto
qed

text \<open>\<open>rs\<close> are all the results that the connection has from the log \<open>l\<close> on: each is what the constructor makes
  at its log, \<open>mysql_next_result\<close> does not answer -1 after any but the last, and it answers -1 after the last.\<close>

inductive all_results :: "mysql_client \<Rightarrow> conn \<Rightarrow> my_log \<Rightarrow> result list \<Rightarrow> bool" for M c where
  last_result: "Result_mysql M c l = (Inr r, l') \<Longrightarrow> m_next_result M (my c My_next_result l') c = - 1 \<Longrightarrow>
    all_results M c l [r]"
| next_result: "Result_mysql M c l = (Inr r, l') \<Longrightarrow> m_next_result M (my c My_next_result l') c \<noteq> - 1 \<Longrightarrow>
    all_results M c (my c My_next_result l') rs \<Longrightarrow> all_results M c l (r # rs)"

inductive_cases all_resultsE: "all_results M c l rs"

lemma all_results_nonempty: "all_results M c l rs \<Longrightarrow> rs \<noteq> []"
  by (auto elim: all_resultsE)

lemma all_results_ok: "all_results M c l rs \<Longrightarrow> r \<in> set rs \<Longrightarrow> result_ok r"
  by (induction rule: all_results.induct) (auto dest: Result_mysql_ok)

text \<open>There is only one such list.\<close>

lemma all_results_unique: "all_results M c l rs \<Longrightarrow> all_results M c l rs' \<Longrightarrow> rs = rs'"
  by (induction arbitrary: rs' rule: all_results.induct) (erule all_resultsE; auto)+

lemma query_results_end:
  assumes "small_results M this"
  shows "results_within M this (my_calls w) k \<Longrightarrow>
    \<exists>a' w' rs. query_results M this a w = Some (Inr a', w') \<and>
      a' = a\<lparr>m_pResults := m_pResults a @ rs\<rparr> \<and> all_results M this (my_calls w) rs \<and>
      (\<exists>l. w' = w\<lparr>my_calls := l\<rparr>)"
proof (induction k arbitrary: a w)
  case 0
  obtain r ev where R: "Result_mysql M this (my_calls w) = (Inr r, my_calls w @ ev)" "result_ok r"
    using Result_mysql_small [OF assms] by blast
  have "m_next_result M (my_calls w @ (ev @ [(this, My_next_result)])) this = - 1"
    using 0 unfolding results_within_def by blast
  then have last: "m_next_result M (my this My_next_result (my_calls w @ ev)) this = - 1" by (simp add: my_def)
  show ?case
    using R last last_result [OF R(1) last]
    by (subst query_results.simps) (auto simp: call_my_def AddResult_def Let_def)
next
  case (Suc k)
  obtain r ev where R: "Result_mysql M this (my_calls w) = (Inr r, my_calls w @ ev)" "result_ok r"
    using Result_mysql_small [OF assms] by blast
  let ?w = "call_my this My_next_result (w\<lparr>my_calls := my_calls w @ ev\<rparr>)"
  show ?case
  proof (cases "m_next_result M (my_calls ?w) this = - 1")
    case True
    then have last: "m_next_result M (my this My_next_result (my_calls w @ ev)) this = - 1"
      by (simp add: call_my_def)
    show ?thesis
      using R last last_result [OF R(1) last]
      by (subst query_results.simps) (auto simp: call_my_def AddResult_def Let_def)
  next
    case False
    have "results_within M this (my_calls ?w) k"
      unfolding results_within_def
    proof (intro allI impI)
      fix ev'
      assume "k \<le> count_calls (\<lambda>e. e = My_next_result) ev'"
      then have "Suc k \<le> count_calls (\<lambda>e. e = My_next_result) (ev @ [(this, My_next_result)] @ ev')"
        by (simp add: count_calls_def)
      then have "m_next_result M (my_calls w @ ev @ [(this, My_next_result)] @ ev') this = - 1"
        using Suc.prems unfolding results_within_def by blast
      then show "m_next_result M (my_calls ?w @ ev') this = - 1"
        by (simp add: call_my_def my_def)
    qed
    from Suc.IH [OF this, of "AddResult r a"] obtain a' w' rs l where IH:
      "query_results M this (AddResult r a) ?w = Some (Inr a', w')"
      "a' = (AddResult r a)\<lparr>m_pResults := m_pResults (AddResult r a) @ rs\<rparr>"
      "all_results M this (my_calls ?w) rs" "w' = ?w\<lparr>my_calls := l\<rparr>"
      by blast
    have "query_results M this a w = Some (Inr a', w')"
      using R False IH(1) by (subst query_results.simps) (simp add: Let_def)
    moreover have "a' = a\<lparr>m_pResults := m_pResults a @ r # rs\<rparr>" by (simp add: IH(2) AddResult_def)
    moreover have "w' = w\<lparr>my_calls := l\<rparr>" by (simp add: IH(4) call_my_def)
    moreover have "all_results M this (my_calls w) (r # rs)"
      using next_result [OF R(1)] False IH(3) by (simp add: call_my_def)
    ultimately show ?thesis by blast
  qed
qed

section \<open>Completed queries\<close>

text \<open>The action with the results \<open>rs\<close> and some times, handed to the queue.\<close>

definition completes_with :: "nat \<Rightarrow> nat \<Rightarrow> action \<Rightarrow> result list \<Rightarrow> world \<Rightarrow> world \<Rightarrow> bool" where
  "completes_with this act a rs w w' \<longleftrightarrow>
    (\<exists>v times. keeps w v \<and>
       w' = complete this act (set_action act
         (a\<lparr>m_queryTimer := times, m_pResults := m_pResults a @ rs\<rparr>) v))"

lemma RunQuery_error:
  assumes "actions w act = Some q"
    and "query_attempt T this (m_strQuery q) False w = (Inr e, v)" "e \<noteq> 0"
  shows "\<exists>w'. RunQuery T this act w = Some (Inr (), w') \<and>
    completes_with this act q [Result_error e Dead_text] w w'"
proof -
  have "keeps w v" using query_attempt_keeps [of w T this "m_strQuery q" False] assms(2) by simp
  moreover have "m_strQuery (StartQueryTimer n q) = m_strQuery q" for n
    by (simp add: StartQueryTimer_def)
  ultimately show ?thesis
    using assms
    by (auto simp: RunQuery_def Let_def completes_with_def AddResult_def EndQueryTimer_def
        StartQueryTimer_def)
qed

lemma RunQuery_results:
  assumes "actions w act = Some q"
    and "query_attempt T this (m_strQuery q) False w = (Inr 0, v)"
    and "small_results (t_client T) this" "results_within (t_client T) this (my_calls v) k"
  shows "\<exists>w' rs. RunQuery T this act w = Some (Inr (), w') \<and>
    all_results (t_client T) this (my_calls v) rs \<and> completes_with this act q rs w w'"
proof -
  have kv: "keeps w v" using query_attempt_keeps [of w T this "m_strQuery q" False] assms(2) by simp
  let ?q = "EndQueryTimer (t_clock T (my_calls v)) (StartQueryTimer (t_clock T (my_calls w)) q)"
  obtain a' w' rs l where e: "query_results (t_client T) this ?q v = Some (Inr a', w')"
    "a' = ?q\<lparr>m_pResults := m_pResults ?q @ rs\<rparr>" "all_results (t_client T) this (my_calls v) rs"
    "w' = v\<lparr>my_calls := l\<rparr>"
    using query_results_end [OF assms(3,4), of ?q] by blast
  have "RunQuery T this act w = Some (Inr (), complete this act (set_action act a' w'))"
    using assms(1,2) e(1) by (simp add: RunQuery_def Let_def StartQueryTimer_def)
  moreover have "keeps w w'" using kv e(4) by simp
  moreover have "a' = q\<lparr>m_queryTimer := m_queryTimer ?q, m_pResults := m_pResults q @ rs\<rparr>"
    by (simp add: e(2) EndQueryTimer_def StartQueryTimer_def)
  ultimately show ?thesis using e(3) unfolding completes_with_def by metis
qed

text \<open>C35: a query ends when the server has finitely many results for it.  If it failed it is handed over with one
  error, and if it did not, with all its results: those that the constructor makes one after the other until
  \<open>mysql_next_result\<close> answers that there is none, each well-formed.  The queues and the other actions are as
  before.\<close>

theorem query_completes:
  assumes "actions w act = Some q"
    and "query_attempt T this (m_strQuery q) False w = (Inr e, v)"
    and "small_results (t_client T) this" "results_within (t_client T) this (my_calls v) k"
  shows "\<exists>w' rs. RunQuery T this act w = Some (Inr (), w') \<and> completes_with this act q rs w w' \<and>
    rs \<noteq> [] \<and> (\<forall>r \<in> set rs. result_ok r) \<and> (e \<noteq> 0 \<longrightarrow> rs = [Result_error e Dead_text]) \<and>
    (e = 0 \<longrightarrow> all_results (t_client T) this (my_calls v) rs)"
proof (cases "e = 0")
  case True
  then obtain w' rs where "RunQuery T this act w = Some (Inr (), w')" "completes_with this act q rs w w'"
      "all_results (t_client T) this (my_calls v) rs"
    using RunQuery_results [OF assms(1) _ assms(3,4)] assms(2) by blast
  with True show ?thesis using all_results_nonempty all_results_ok by blast
next
  case False
  then show ?thesis using RunQuery_error [OF assms(1,2)] by fastforce
qed

lemma RunQuery_count:
  assumes "P My_store_result = False" "P My_free_result = False" "P My_next_result = False"
    and "actions w act = Some q" "RunQuery T this act w = Some (r, w')"
  shows "count_calls P (my_calls w') =
    count_calls P (my_calls (snd (query_attempt T this (m_strQuery q) False w)))"
proof -
  obtain x v where A: "query_attempt T this (m_strQuery q) False w = (x, v)"
    by (cases "query_attempt T this (m_strQuery q) False w")
  have q: "m_strQuery (StartQueryTimer n q) = m_strQuery q" for n by (simp add: StartQueryTimer_def)
  have R: "query_results M d a u = Some (z, b) \<Longrightarrow> count_calls P (my_calls b) = count_calls P (my_calls u)"
    for M d a u z b
    using query_results_count [OF assms(1-3), of M d a u "(z, b)"] by simp
  have C: "my_calls (complete this act u) = my_calls u" "my_calls (set_action act a u) = my_calls u" for u a
    by (simp_all add: complete_def set_action_def upd_db_def)
  show ?thesis
    using assms(4,5) A
    by (auto simp: RunQuery_def q C Let_def split: sum.splits if_splits option.splits)
      (rule R, assumption)+
qed

text \<open>C36: however often the server drops the connection, running a query sends it at
  most twice and connects at most once again, and executing a statement
  executes it at most three times and connects at most once again.\<close>

theorem bounded_retries:
  assumes "actions w act = Some q" "RunQuery T this act w = Some (r, w')"
  shows "count_calls is_query (my_calls w') \<le> count_calls is_query (my_calls w) + 2 \<and>
    count_calls is_connect (my_calls w') \<le> count_calls is_connect (my_calls w) + 1 \<and>
    count_calls is_execute (my_calls (snd (execute_attempt T s binds False False v))) \<le>
      count_calls is_execute (my_calls v) + 3 \<and>
    count_calls is_connect (my_calls (snd (execute_attempt T s binds False False v))) \<le>
      count_calls is_connect (my_calls v) + 1"
  using query_attempt_bound [of T this "m_strQuery q" False w]
    execute_attempt_bound [of T s binds False False v]
    RunQuery_count [of is_query, OF _ _ _ assms] RunQuery_count [of is_connect, OF _ _ _ assms]
  by simp

text \<open>A connected database and one query, for a client that answers every query.\<close>

definition sample_database :: database where
  "sample_database = (new_database ''localhost'' ''root'' '''' ''test'' 3306 '''' 0 (- 1))
     \<lparr>m_bIsConnected := True, m_bIsPendingCallback := Some False, io_thread := True\<rparr>"

definition sample_world :: world where
  "sample_world = \<lparr>statements = (\<lambda>_. None), databases = (\<lambda>_. None)(1 \<mapsto> sample_database),
     actions = (\<lambda>_. None)(2 \<mapsto> new_query ''SELECT 1'' 5 6 True), m_databases = [1],
     heap_end = 3, waiter = new_waiter, my_calls = [], lua_calls = []\<rparr>"

definition sample_thread :: thread_env where
  "sample_thread = \<lparr>t_client = quiet_client, t_clock = (\<lambda>_. 0), t_wkdir = ''''\<rparr>"

lemma sample_small_results: "small_results quiet_client c"
  by (simp add: small_results_def quiet_client_def)

lemma sample_results_within: "results_within quiet_client c l 0"
  by (simp add: results_within_def quiet_client_def)

lemma sample_query_attempt:
  "query_attempt sample_thread 1 q r w = (Inr 0, call_my 1 (My_real_query q) w)"
  by (subst query_attempt.simps) (simp add: sample_thread_def quiet_client_def Let_def)

text \<open>A client that answers every query with two results, the first of them with rows.\<close>

definition two_results :: mysql_client where
  "two_results = quiet_client
     \<lparr>m_store_result := \<lambda>l _. if count_calls (\<lambda>e. e = My_next_result) l = 0 then Some sample_res else None,
      m_next_result := \<lambda>l _. if count_calls (\<lambda>e. e = My_next_result) l < 2 then 0 else - 1\<rparr>"

definition two_thread :: thread_env where
  "two_thread = sample_thread\<lparr>t_client := two_results\<rparr>"

lemma two_results_first:
  "\<exists>r. Result_mysql two_results 1 [(1, My_real_query q)] =
     (Inr r, [(1, My_real_query q), (1, My_store_result), (1, My_free_result)]) \<and>
     m_rowCount r = 2 \<and> cell r 1 0 = Some ''2'' \<and> cell r 1 1 = None"
  by (simp add: Result_mysql_def two_results_def count_calls_def my_def sample_res_def Resize_def Result_error_def
      set_column_def set_row_def set_cell_def store_at_def store_cell_def cell_def upt_rec Let_def)

lemma two_results_second:
  "\<exists>r. Result_mysql two_results 1 ([(1, My_real_query q), (1, My_store_result), (1, My_free_result), (1, My_next_result)]) =
     (Inr r, [(1, My_real_query q), (1, My_store_result), (1, My_free_result), (1, My_next_result),
       (1, My_store_result), (1, My_free_result)]) \<and> m_rowCount r = 0"
  by (simp add: Result_mysql_def two_results_def count_calls_def my_def Result_error_def Let_def)

theorem query_completes_witness:
  "\<exists>w' r r'. RunQuery two_thread 1 2 sample_world = Some (Inr (), w') \<and>
     completes_with 1 2 (new_query ''SELECT 1'' 5 6 True) [r, r'] sample_world w' \<and>
     m_rowCount r = 2 \<and> cell r 1 0 = Some ''2'' \<and> cell r 1 1 = None \<and> m_rowCount r' = 0"
proof -
  have a: "actions sample_world 2 = Some (new_query ''SELECT 1'' 5 6 True)"
    by (simp add: sample_world_def)
  let ?q = "''SELECT 1''"
  let ?v = "call_my 1 (My_real_query ?q) sample_world"
  have t: "t_client two_thread = two_results" by (simp add: two_thread_def)
  have v: "query_attempt two_thread 1 (m_strQuery (new_query ?q 5 6 True)) False sample_world = (Inr 0, ?v)"
    by (subst query_attempt.simps) (simp add: t two_results_def quiet_client_def new_query_def Let_def)
  have l: "my_calls ?v = [(1, My_real_query ?q)]" by (simp add: call_my_def my_def sample_world_def)
  have "small_results two_results 1"
    by (simp add: small_results_def two_results_def quiet_client_def countable_res_def)
  moreover have "results_within two_results 1 (my_calls ?v) 2"
    by (auto simp: results_within_def two_results_def count_calls_def)
  ultimately obtain w' rs where r: "RunQuery two_thread 1 2 sample_world = Some (Inr (), w')"
    "completes_with 1 2 (new_query ?q 5 6 True) rs sample_world w'"
    "all_results two_results 1 [(1, My_real_query ?q)] rs"
    using query_completes [OF a v] unfolding t l by blast
  obtain f where f: "Result_mysql two_results 1 [(1, My_real_query ?q)] =
      (Inr f, [(1, My_real_query ?q), (1, My_store_result), (1, My_free_result)])"
    "m_rowCount f = 2" "cell f 1 0 = Some ''2''" "cell f 1 1 = None"
    using two_results_first by blast
  obtain g where g: "Result_mysql two_results 1
      ([(1, My_real_query ?q), (1, My_store_result), (1, My_free_result), (1, My_next_result)]) =
      (Inr g, [(1, My_real_query ?q), (1, My_store_result), (1, My_free_result), (1, My_next_result),
        (1, My_store_result), (1, My_free_result)])" "m_rowCount g = 0"
    using two_results_second by blast
  have "all_results two_results 1 [(1, My_real_query ?q)] [f, g]"
    using f(1) g(1)
    by (auto intro!: all_results.intros simp: my_def) (simp_all add: two_results_def count_calls_def)
  then have "rs = [f, g]" using all_results_unique r(3) by blast
  then show ?thesis using r f g by blast
qed

theorem bounded_retries_witness:
  "\<exists>w'. RunQuery sample_thread 1 2 sample_world = Some (Inr (), w') \<and>
     count_calls is_query (my_calls w') \<le> 2 \<and> count_calls is_connect (my_calls w') \<le> 1"
proof -
  have a: "actions sample_world 2 = Some (new_query ''SELECT 1'' 5 6 True)"
    by (simp add: sample_world_def)
  have c: "t_client sample_thread = quiet_client" by (simp add: sample_thread_def)
  obtain w' where r: "RunQuery sample_thread 1 2 sample_world = Some (Inr (), w')"
    using RunQuery_results [OF a sample_query_attempt [of _ False]] sample_small_results
      sample_results_within unfolding c by blast
  from bounded_retries [OF a r] have
    "count_calls is_query (my_calls w') \<le> count_calls is_query (my_calls sample_world) + 2"
    "count_calls is_connect (my_calls w') \<le> count_calls is_connect (my_calls sample_world) + 1"
    by simp_all
  then have "count_calls is_query (my_calls w') \<le> 2" "count_calls is_connect (my_calls w') \<le> 1"
    by (simp_all add: sample_world_def count_calls_def)
  with r show ?thesis by blast
qed

end
