(* ===== verification/Db_Lua.thy ===== *)
theory Db_Lua
  imports Db_Thread
begin

text \<open>
  The functions that Lua calls on a database and on a prepared statement
  (\<open>src/src/database.cpp\<close>, \<open>src/src/statement.cpp\<close>). They run on the Lua thread; each gives
  the number of values it returns to Lua. A callback is one protected call: what
  it calls in the module in turn is not nested into the operation.
\<close>

section \<open>Handles\<close>

text \<open>The environment of the Lua thread, with the metatable numbers of the two classes.\<close>

record lua_thread =
  h_host :: lua_host
  h_dead :: string
  h_junk :: bool
  h_refs :: module_refs
  iDatabaseMTID :: int
  iStatementMTID :: int

definition env_of :: "lua_thread \<Rightarrow> mysql_client \<Rightarrow> world \<Rightarrow> lua_env" where
  "env_of H M w =
    \<lparr>e_host = h_host H, e_text = read_error M (h_dead H) (my_calls w), e_junk = h_junk H,
     e_refs = h_refs H\<rparr>"

definition create_ref :: "lua_thread \<Rightarrow> world \<Rightarrow> int \<times> world" where
  "create_ref H w = (let (r, l) = lua_ref (h_host H) (lua_calls w) in (r, w\<lparr>lua_calls := l\<rparr>))"

definition upd_stmt :: "nat \<Rightarrow> (pstatement \<Rightarrow> pstatement) \<Rightarrow> world \<Rightarrow> world" where
  "upd_stmt this f w = w\<lparr>statements := (statements w)(this := map_option f (statements w this))\<rparr>"

definition stmt_PushHandle :: "lua_thread \<Rightarrow> nat \<Rightarrow> world \<Rightarrow> (fault + unit) \<times> world" where
  "stmt_PushHandle H this w =
    on_stmt this w (\<lambda>p.
      let (ref, w) =
            (if s_iLuaRef p = 0 then
               let w = call_lua (PushUserType this (iStatementMTID H)) w;
                   (r, w) = create_ref H w in
               (r, upd_stmt this (\<lambda>p. p\<lparr>s_iLuaRef := r\<rparr>) w)
             else (s_iLuaRef p, w)) in
      (Inr (), call_lua (ReferencePush ref) w))"

definition stmt_Release :: "lua_thread \<Rightarrow> nat \<Rightarrow> world \<Rightarrow> (fault + unit) \<times> world" where
  "stmt_Release H this w =
    and_then (stmt_PushHandle H this w) (\<lambda>_ w.
      on_stmt this w (\<lambda>p.
        let w = call_lua (SetUserType (- 1) None) w;
            w = call_lua (Pop 1) w;
            w = call_lua (ReferenceFree (s_iLuaRef p)) w in
        delete_stmt this w))"

definition db_PushHandle :: "lua_thread \<Rightarrow> nat \<Rightarrow> world \<Rightarrow> (fault + unit) \<times> world" where
  "db_PushHandle H this w =
    on_db this w (\<lambda>d.
      let (ref, w) =
            (if m_iLuaRef d = 0 then
               let w = call_lua (PushUserType this (iDatabaseMTID H)) w;
                   (r, w) = create_ref H w in
               (r, upd_db this (\<lambda>d. d\<lparr>m_iLuaRef := r\<rparr>) w)
             else (m_iLuaRef d, w)) in
      (Inr (), call_lua (ReferencePush ref) w))"

definition NullifyReference :: "lua_thread \<Rightarrow> nat \<Rightarrow> world \<Rightarrow> (fault + unit) \<times> world" where
  "NullifyReference H this w =
    and_then (db_PushHandle H this w) (\<lambda>_ w.
      on_db this w (\<lambda>d.
        let w = call_lua (SetUserType (- 1) None) w;
            w = call_lua (Pop 1) w in
        (Inr (), call_lua (ReferenceFree (m_iLuaRef d)) w)))"

section \<open>The callback of the connection\<close>

definition db_TriggerCallback :: "lua_thread \<Rightarrow> nat \<Rightarrow> world \<Rightarrow> (fault + unit) \<times> world" where
  "db_TriggerCallback H this w =
    on_db this w (\<lambda>d.
      let w = upd_db this (\<lambda>d. d\<lparr>m_bIsPendingCallback := Some False\<rparr>) w in
      if m_iCallback d \<ge> 0 then
        let w = call_lua (ReferencePush (iRefDebugTraceBack (h_refs H))) w;
            w = call_lua (ReferencePush (m_iCallback d)) w;
            w = call_lua (ReferenceFree (m_iCallback d)) w;
            w = upd_db this (\<lambda>d. d\<lparr>m_iCallback := 0\<rparr>) w in
        if \<not> l_IsType (h_host H) (lua_calls w) (- 1) T_Function
        then (Inr (), call_lua (Pop 2) w)
        else and_then (db_PushHandle H this w) (\<lambda>_ w.
          let (st, l) = lua_pcall (h_host H) 1 0 (- 3) (lua_calls w);
              w = w\<lparr>lua_calls := l\<rparr> in
          if st \<noteq> 0 then
            (Inr (), w\<lparr>lua_calls := lua (Pop 1) (ThrowErrorNoHalt (h_refs H)
               (callback_error @ l_GetString (h_host H) l (- 1)) l)\<rparr>)
          else (Inr (), w))
      else (Inr (), w))"

section \<open>Completed actions\<close>

text \<open>The loop over the completed actions; the links are those of the queue of the database.\<close>

partial_function (option) dispatch_loop ::
  "lua_thread \<Rightarrow> mysql_client \<Rightarrow> nat \<Rightarrow> ptr \<Rightarrow> world \<Rightarrow> ((fault + unit) \<times> world) option"
where
  "dispatch_loop H M this completed w =
    (case completed of
       None \<Rightarrow> Some (Inr (), w)
     | Some act \<Rightarrow>
         (case (databases w this, actions w act) of
            (Some d, Some a) \<Rightarrow>
              let w = (if \<not> m_bIsInGC d
                       then w\<lparr>lua_calls := TriggerCallback (env_of H M w) a (lua_calls w)\<rparr> else w);
                  w = w\<lparr>actions := (actions w)(act := None)\<rparr> in
              dispatch_loop H M this (next_of (m_completedActions d) act) w
          | _ \<Rightarrow> Some (Inl (Undefined Freed_object), w)))"

definition DispatchCompletedActions ::
  "lua_thread \<Rightarrow> mysql_client \<Rightarrow> nat \<Rightarrow> world \<Rightarrow> ((fault + unit) \<times> world) option"
where
  "DispatchCompletedActions H M this w =
    (case databases w this of
       None \<Rightarrow> Some (Inl (Undefined Freed_object), w)
     | Some d \<Rightarrow>
         (case pop_all (m_completedActions d) of
            None \<Rightarrow> None
          | Some (first, q) \<Rightarrow>
              dispatch_loop H M this first (upd_db this (\<lambda>d. d\<lparr>m_completedActions := q\<rparr>) w)))"

section \<open>The end of a database\<close>

fun release_all :: "lua_thread \<Rightarrow> nat list \<Rightarrow> world \<Rightarrow> (fault + unit) \<times> world" where
  "release_all H [] w = (Inr (), w)"
| "release_all H (s # ss) w = and_then (stmt_Release H s w) (\<lambda>_. release_all H ss)"

text \<open>\<open>io_thread->join()\<close> on a thread that was never made dereferences a null pointer.\<close>

definition Release :: "lua_thread \<Rightarrow> nat \<Rightarrow> world \<Rightarrow> (fault + unit) \<times> world" where
  "Release H this w =
    on_db this w (\<lambda>d.
      if \<not> io_thread d then (Inl (Undefined Null_pointer), w) else
      let w = upd_db this (\<lambda>d. d\<lparr>io_thread := False\<rparr>) w in
      and_then (release_all H (map snd (m_preparedStatements d)) w) (\<lambda>_ w.
        let w = call_my this My_forget_stmts w;
            w = call_my this My_close w;
            w = upd_db this (\<lambda>d. d\<lparr>m_bIsConnected := False\<rparr>) w in
        NullifyReference H this w))"

definition delete_db :: "nat \<Rightarrow> world \<Rightarrow> world" where
  "delete_db this w = w\<lparr>databases := (databases w)(this := None)\<rparr>"

definition RegisterDatabase :: "nat \<Rightarrow> world \<Rightarrow> world" where
  "RegisterDatabase db w = w\<lparr>m_databases := insort db (remove1 db (m_databases w))\<rparr>"

definition DeregisterDatabase :: "nat \<Rightarrow> world \<Rightarrow> world" where
  "DeregisterDatabase db w = w\<lparr>m_databases := remove1 db (m_databases w)\<rparr>"

text \<open>
  \<open>Disconnect\<close> gives the work guard back and waits until the context has stopped,
  which it does when it runs out of work: the thread runs the tasks that are
  left. Tasks without a thread would be waited for for ever.
\<close>

definition Disconnect ::
  "lua_thread \<Rightarrow> thread_env \<Rightarrow> nat \<Rightarrow> nat \<Rightarrow> world \<Rightarrow> ((fault + unit) \<times> world) option"
where
  "Disconnect H T beyond this w =
    (case databases w this of
       None \<Rightarrow> Some (Inl (Undefined Freed_object), w)
     | Some d \<Rightarrow>
         if \<not> io_thread d \<and> tasks d \<noteq> [] then None else
         (case run_tasks T beyond this (upd_db this (\<lambda>d. d\<lparr>io_work := False\<rparr>) w) of
            None \<Rightarrow> None
          | Some (Inl f, w) \<Rightarrow> Some (Inl f, w)
          | Some (Inr _, w) \<Rightarrow>
              (case DispatchCompletedActions H (t_client T) this w of
                 None \<Rightarrow> None
               | Some (Inl f, w) \<Rightarrow> Some (Inl f, w)
               | Some (Inr _, w) \<Rightarrow>
                   Some (and_then (Release H this w) (\<lambda>_ w.
                     (Inr (), delete_db this (DeregisterDatabase this w)))))))"

end
