(* ===== verification/Db_Exports.thy ===== *)
theory Db_Exports
  imports Db_Lua "HOL-Library.List_Lexorder" "HOL-Library.Char_ord"
begin

text \<open>
  The functions of the two Lua classes, \<open>Database\<close> and \<open>PreparedStatement\<close>
  (\<open>src/src/database.cpp\<close> from line 299, \<open>src/src/statement.cpp\<close> from line 128). A
  function gives the number of values it returns to Lua; \<open>None\<close> is a call that
  does not return.
\<close>

type_synonym lua_result = "((fault + nat) \<times> world) option"

definition returns :: "nat \<Rightarrow> world \<Rightarrow> lua_result" where
  "returns n w = Some (Inr n, w)"

definition throws :: "string \<Rightarrow> world \<Rightarrow> lua_result" where
  "throws s w = Some (Inl (Lua_error s), call_lua (ThrowError s) w)"

text \<open>Going on after an operation that may fail, or may fail or not return.\<close>

definition continue :: "(fault + 'a) \<times> world \<Rightarrow> ('a \<Rightarrow> world \<Rightarrow> lua_result) \<Rightarrow> lua_result" where
  "continue m f = (case m of (Inl e, w) \<Rightarrow> Some (Inl e, w) | (Inr x, w) \<Rightarrow> f x w)"

definition continue_opt :: "((fault + 'a) \<times> world) option \<Rightarrow> ('a \<Rightarrow> world \<Rightarrow> lua_result) \<Rightarrow> lua_result" where
  "continue_opt m f = (case m of None \<Rightarrow> None | Some r \<Rightarrow> continue r f)"

lemma continue_simps [simp]:
  "continue (Inl e, w) f = Some (Inl e, w)" "continue (Inr x, w) f = f x w"
  "continue_opt None f = None" "continue_opt (Some r) f = continue r f"
  by (simp_all add: continue_def continue_opt_def)

text \<open>A host function of the \<open>Check\<close> kind throws when the argument has another type.\<close>

definition checked :: "'a option \<Rightarrow> ('a \<Rightarrow> lua_result) \<Rightarrow> world \<Rightarrow> lua_result" where
  "checked x f w = (case x of None \<Rightarrow> Some (Inl (Lua_error ''bad argument''), w) | Some v \<Rightarrow> f v)"

definition CheckType :: "lua_thread \<Rightarrow> int \<Rightarrow> int \<Rightarrow> world \<Rightarrow> unit option" where
  "CheckType H i t w = (if l_IsType (h_host H) (lua_calls w) i t then Some () else None)"

definition CheckString :: "lua_thread \<Rightarrow> int \<Rightarrow> world \<Rightarrow> string option" where
  "CheckString H i w = map_option c_str (l_CheckString (h_host H) (lua_calls w) i)"

section \<open>Databases\<close>

definition getDatabaseFromStack ::
  "lua_thread \<Rightarrow> bool \<Rightarrow> bool \<Rightarrow> world \<Rightarrow> (nat option \<Rightarrow> lua_result) \<Rightarrow> lua_result"
where
  "getDatabaseFromStack H throwNullError throwDisconnectedError w f =
    checked (CheckType H 1 (iDatabaseMTID H) w) (\<lambda>_.
      let mysqldb = l_GetUserType (h_host H) (lua_calls w) 1 (iDatabaseMTID H) in
      if throwNullError \<and> mysqldb = None
      then throws ''Tried to use a NULL tmysql database!'' w
      else if throwDisconnectedError then
        (case mysqldb of
           None \<Rightarrow> Some (Inl (Undefined Null_pointer), w)
         | Some db \<Rightarrow>
             (case databases w db of
                None \<Rightarrow> Some (Inl (Undefined Freed_object), w)
              | Some d \<Rightarrow>
                  if \<not> m_bIsConnected d then throws ''Tried to use a disconnected tmysql database!'' w
                  else f mysqldb))
      else f mysqldb) w"

text \<open>The database a function runs on, once the pointer is known not to be null.\<close>

definition with_db :: "nat option \<Rightarrow> world \<Rightarrow> (nat \<Rightarrow> database \<Rightarrow> lua_result) \<Rightarrow> lua_result" where
  "with_db db w f =
    (case db of
       None \<Rightarrow> Some (Inl (Undefined Null_pointer), w)
     | Some this \<Rightarrow>
         (case databases w this of
            None \<Rightarrow> Some (Inl (Undefined Freed_object), w)
          | Some d \<Rightarrow> f this d))"

definition db_gc :: "lua_thread \<Rightarrow> thread_env \<Rightarrow> nat \<Rightarrow> world \<Rightarrow> lua_result" where
  "db_gc H T beyond w =
    getDatabaseFromStack H False False w (\<lambda>mysqldb.
      case mysqldb of
        None \<Rightarrow> returns 0 w
      | Some this \<Rightarrow>
          continue_opt (Disconnect H T beyond this (upd_db this (\<lambda>d. d\<lparr>m_bIsInGC := True\<rparr>) w))
            (\<lambda>_ w. returns 0 w))"

text \<open>The text that \<open>sprintf\<close> writes into \<open>buff[378]\<close>.\<close>

definition database_text :: "database \<Rightarrow> string" where
  "database_text d =
    ''[tmysql] '' @ m_strUser d @ '':'' @ m_strDB d @ ''@:'' @ m_strHost d @ '':'' @
    to_string (unat (m_iPort d))"

definition db_tostring :: "lua_thread \<Rightarrow> world \<Rightarrow> lua_result" where
  "db_tostring H w =
    getDatabaseFromStack H False False w (\<lambda>mysqldb.
      case mysqldb of
        None \<Rightarrow> returns 1 (call_lua (PushString ''[NULL tmysql database]'') w)
      | Some _ \<Rightarrow> with_db mysqldb w (\<lambda>_ d. returns 1 (call_lua (PushString (database_text d)) w)))"

definition db_IsValid :: "lua_thread \<Rightarrow> world \<Rightarrow> lua_result" where
  "db_IsValid H w =
    getDatabaseFromStack H False False w (\<lambda>mysqldb.
      returns 1 (call_lua (PushBool (mysqldb \<noteq> None)) w))"

text \<open>A callback and its object from two arguments.\<close>

definition take_callback :: "lua_thread \<Rightarrow> int \<Rightarrow> world \<Rightarrow> int \<times> world" where
  "take_callback H i w =
    (if l_GetType (h_host H) (lua_calls w) i = T_Function
     then create_ref H (call_lua (Push i) w) else (- 1, w))"

definition take_object :: "lua_thread \<Rightarrow> int \<Rightarrow> world \<Rightarrow> int \<times> world" where
  "take_object H i w =
    (if l_GetType (h_host H) (lua_calls w) i \<noteq> T_Nil
     then create_ref H (call_lua (Push i) w) else (- 1, w))"

definition post :: "nat \<Rightarrow> task \<Rightarrow> world \<Rightarrow> world" where
  "post this t w = upd_db this (\<lambda>d. d\<lparr>tasks := tasks d @ [t]\<rparr>) w"

text \<open>\<open>new\<close>: the action gets the next address.\<close>

definition alloc_action :: "action \<Rightarrow> world \<Rightarrow> nat \<times> world" where
  "alloc_action a w =
    (heap_end w, w\<lparr>actions := (actions w)(heap_end w := Some a), heap_end := heap_end w + 1\<rparr>)"

definition QueueQuery :: "nat \<Rightarrow> string \<Rightarrow> int \<Rightarrow> int \<Rightarrow> bool \<Rightarrow> world \<Rightarrow> world" where
  "QueueQuery this query callback callbackref usenumbers w =
    (let (act, w) = alloc_action (new_query query callback callbackref usenumbers) w in
     post this (Run_query act) w)"

definition QueueStatement ::
  "nat \<Rightarrow> nat \<Rightarrow> my_bind list \<Rightarrow> int \<Rightarrow> int \<Rightarrow> bool \<Rightarrow> world \<Rightarrow> world"
where
  "QueueStatement this stmt binds callback callbackref usenumbers w =
    (let (act, w) = alloc_action (new_action callback callbackref usenumbers) w in
     post this (Run_statement stmt binds act) w)"

definition db_Query :: "lua_thread \<Rightarrow> world \<Rightarrow> lua_result" where
  "db_Query H w =
    getDatabaseFromStack H True True w (\<lambda>mysqldb.
      with_db mysqldb w (\<lambda>this d.
        checked (CheckString H 2 w) (\<lambda>query.
          let (callbackfunc, w) = take_callback H 3 w;
              (callbackref, w) = take_object H 4 w in
          returns 0 (QueueQuery this query callbackfunc callbackref
            (l_GetBool (h_host H) (lua_calls w) 5) w)) w))"

text \<open>\<open>std::map::emplace\<close> on the map of the statements, which is sorted by its keys.\<close>

fun emplace :: "string \<Rightarrow> nat \<Rightarrow> (string \<times> nat) list \<Rightarrow> (string \<times> nat) list" where
  "emplace k v [] = [(k, v)]"
| "emplace k v ((k', v') # m) =
    (if k = k' then (k', v') # m
     else if k < k' then (k, v) # (k', v') # m
     else (k', v') # emplace k v m)"

definition prepare_error :: "statementCreateWaiter \<Rightarrow> string" where
  "prepare_error t = (case w_error t of None \<Rightarrow> error_line 0 '''' | Some (n, s) \<Rightarrow> error_line n s)"

definition db_Prepare :: "lua_thread \<Rightarrow> thread_env \<Rightarrow> nat \<Rightarrow> world \<Rightarrow> lua_result" where
  "db_Prepare H T beyond w =
    getDatabaseFromStack H True True w (\<lambda>mysqldb.
      with_db mysqldb w (\<lambda>this d.
        checked (CheckString H 2 w) (\<lambda>query.
          case map_of (m_preparedStatements d) query of
            Some stmt \<Rightarrow> continue (stmt_PushHandle H stmt w) (\<lambda>_ w. returns 1 w)
          | None \<Rightarrow>
              if \<not> io_thread d then None else
              continue_opt (run_tasks T beyond this (post this (Create_statement query) (w\<lparr>waiter := new_waiter\<rparr>)))
                (\<lambda>_ w.
                  case w_stmt (waiter w) of
                    None \<Rightarrow> returns 2 (call_lua (PushString (prepare_error (waiter w))) (call_lua PushNil w))
                  | Some stmt \<Rightarrow>
                      continue (on_stmt stmt w (\<lambda>p. (Inr (m_query p), w))) (\<lambda>key w.
                        let w = upd_db this (\<lambda>d. d\<lparr>m_preparedStatements :=
                                  emplace key stmt (m_preparedStatements d)\<rparr>) w in
                        continue (stmt_PushHandle H stmt w) (\<lambda>_ w. returns 1 w)))) w))"

definition db_Escape :: "lua_thread \<Rightarrow> mysql_client \<Rightarrow> world \<Rightarrow> lua_result" where
  "db_Escape H M w =
    getDatabaseFromStack H True True w (\<lambda>mysqldb.
      with_db mysqldb w (\<lambda>this d.
        checked (CheckType H 2 T_String w) (\<lambda>_.
          let (escaped, w) = Escape M this (l_GetString (h_host H) (lua_calls w) 2) w in
          returns 1 (call_lua (PushString escaped) w)) w))"

definition db_SetOption :: "lua_thread \<Rightarrow> mysql_client \<Rightarrow> world \<Rightarrow> lua_result" where
  "db_SetOption H M w =
    getDatabaseFromStack H True False w (\<lambda>mysqldb.
      with_db mysqldb w (\<lambda>this d.
        checked (l_CheckNumber (h_host H) (lua_calls w) 2) (\<lambda>opt.
          checked (CheckString H 3 w) (\<lambda>arg.
            let ((ok, error), w) = Option_set M this (truncated opt) arg w;
                w = call_lua (PushBool ok) w in
            returns 2 (call_lua (PushString error) w)) w) w))"

definition db_GetServerInfo :: "lua_thread \<Rightarrow> mysql_client \<Rightarrow> world \<Rightarrow> lua_result" where
  "db_GetServerInfo H M w =
    getDatabaseFromStack H True True w (\<lambda>mysqldb.
      with_db mysqldb w (\<lambda>this d. returns 1 (call_lua (PushString (m_server_info M (my_calls w) this)) w)))"

definition db_GetDatabase :: "lua_thread \<Rightarrow> world \<Rightarrow> lua_result" where
  "db_GetDatabase H w =
    getDatabaseFromStack H True False w (\<lambda>mysqldb.
      with_db mysqldb w (\<lambda>this d. returns 1 (call_lua (PushString (m_strDB d)) w)))"

definition db_GetHostInfo :: "lua_thread \<Rightarrow> mysql_client \<Rightarrow> world \<Rightarrow> lua_result" where
  "db_GetHostInfo H M w =
    getDatabaseFromStack H True True w (\<lambda>mysqldb.
      with_db mysqldb w (\<lambda>this d. returns 1 (call_lua (PushString (m_host_info M (my_calls w) this)) w)))"

definition db_GetServerVersion :: "lua_thread \<Rightarrow> mysql_client \<Rightarrow> world \<Rightarrow> lua_result" where
  "db_GetServerVersion H M w =
    getDatabaseFromStack H True True w (\<lambda>mysqldb.
      with_db mysqldb w (\<lambda>this d.
        returns 1 (call_lua (PushNumber (Num (whole (sint (m_server_version M (my_calls w) this))))) w)))"

text \<open>\<open>Database:Connect()\<close>; a database that cannot connect is released and deleted.\<close>

definition db_Connect :: "lua_thread \<Rightarrow> thread_env \<Rightarrow> world \<Rightarrow> lua_result" where
  "db_Connect H T w =
    getDatabaseFromStack H True False w (\<lambda>mysqldb.
      with_db mysqldb w (\<lambda>this d.
        if m_bIsConnected d then throws ''Tried to use an already connected tmysql database!'' w else
        continue (Initialize (t_client T) (t_wkdir T) this w) (\<lambda>(success, error) w.
          let w = call_lua (PushBool success) w in
          if \<not> success then
            continue (Release H this (call_lua (PushString error) w))
              (\<lambda>_ w. returns 2 (delete_db this w))
          else returns 1 w)))"

definition db_IsConnected :: "lua_thread \<Rightarrow> world \<Rightarrow> lua_result" where
  "db_IsConnected H w =
    getDatabaseFromStack H True False w (\<lambda>mysqldb.
      with_db mysqldb w (\<lambda>this d. returns 1 (call_lua (PushBool (m_bIsConnected d)) w)))"

definition db_Disconnect :: "lua_thread \<Rightarrow> thread_env \<Rightarrow> nat \<Rightarrow> world \<Rightarrow> lua_result" where
  "db_Disconnect H T beyond w =
    getDatabaseFromStack H True True w (\<lambda>mysqldb.
      with_db mysqldb w (\<lambda>this d.
        continue_opt (Disconnect H T beyond this w) (\<lambda>_ w. returns 0 w)))"

definition db_SetCharacterSet :: "lua_thread \<Rightarrow> mysql_client \<Rightarrow> world \<Rightarrow> lua_result" where
  "db_SetCharacterSet H M w =
    getDatabaseFromStack H True True w (\<lambda>mysqldb.
      with_db mysqldb w (\<lambda>this d.
        checked (CheckString H 2 w) (\<lambda>set.
          let ((success, error), w) = SetCharacterSet M this set w;
              w = call_lua (PushBool success) w in
          returns 2 (call_lua (PushString error) w)) w))"

text \<open>Before the database has connected \<open>m_bIsPendingCallback\<close> is not set.\<close>

definition db_Poll :: "lua_thread \<Rightarrow> mysql_client \<Rightarrow> world \<Rightarrow> lua_result" where
  "db_Poll H M w =
    getDatabaseFromStack H True False w (\<lambda>mysqldb.
      with_db mysqldb w (\<lambda>this d.
        case m_bIsPendingCallback d of
          None \<Rightarrow> Some (Inl (Undefined Unset_member), w)
        | Some pending \<Rightarrow>
            continue (if pending then db_TriggerCallback H this w else (Inr (), w)) (\<lambda>_ w.
              continue_opt (DispatchCompletedActions H M this w) (\<lambda>_ w. returns 0 w))))"

section \<open>Statements\<close>

definition getPStatementFromStack ::
  "lua_thread \<Rightarrow> bool \<Rightarrow> world \<Rightarrow> (nat option \<Rightarrow> lua_result) \<Rightarrow> lua_result"
where
  "getPStatementFromStack H throwNullError w f =
    checked (CheckType H 1 (iStatementMTID H) w) (\<lambda>_.
      let pstmt = l_GetUserType (h_host H) (lua_calls w) 1 (iStatementMTID H) in
      if throwNullError \<and> pstmt = None
      then throws ''Tried to use a NULL tmysql prepared statement!'' w
      else f pstmt) w"

definition with_stmt :: "nat option \<Rightarrow> world \<Rightarrow> (nat \<Rightarrow> pstatement \<Rightarrow> lua_result) \<Rightarrow> lua_result" where
  "with_stmt p w f =
    (case p of
       None \<Rightarrow> Some (Inl (Undefined Null_pointer), w)
     | Some this \<Rightarrow>
         (case statements w this of
            None \<Rightarrow> Some (Inl (Undefined Freed_object), w)
          | Some s \<Rightarrow> f this s))"

definition DeregisterStatement :: "nat \<Rightarrow> string \<Rightarrow> world \<Rightarrow> world" where
  "DeregisterStatement db query w =
    upd_db db (\<lambda>d. d\<lparr>m_preparedStatements :=
      filter (\<lambda>(k, _). k \<noteq> query) (m_preparedStatements d)\<rparr>) w"

definition stmt_gc :: "lua_thread \<Rightarrow> world \<Rightarrow> lua_result" where
  "stmt_gc H w =
    getPStatementFromStack H False w (\<lambda>pstmt.
      case pstmt of
        None \<Rightarrow> returns 0 w
      | Some _ \<Rightarrow> with_stmt pstmt w (\<lambda>this p.
          if databases w (s_database p) = None then Some (Inl (Undefined Freed_object), w) else
          continue (stmt_Release H this (DeregisterStatement (s_database p) (m_query p) w))
            (\<lambda>_ w. returns 0 w)))"

definition stmt_tostring :: "lua_thread \<Rightarrow> world \<Rightarrow> lua_result" where
  "stmt_tostring H w =
    getPStatementFromStack H False w (\<lambda>pstmt.
      returns 1 (call_lua (PushString (if pstmt \<noteq> None then ''[tmysql prepared statement]''
        else ''[NULL tmysql prepared statement]'')) w))"

definition stmt_IsValid :: "lua_thread \<Rightarrow> world \<Rightarrow> lua_result" where
  "stmt_IsValid H w =
    getPStatementFromStack H False w (\<lambda>pstmt. returns 1 (call_lua (PushBool (pstmt \<noteq> None)) w))"

definition stmt_GetArgCount :: "lua_thread \<Rightarrow> mysql_client \<Rightarrow> world \<Rightarrow> lua_result" where
  "stmt_GetArgCount H M w =
    getPStatementFromStack H True w (\<lambda>pstmt.
      with_stmt pstmt w (\<lambda>this p.
        case m_stmt p of
          None \<Rightarrow> Some (Inl (Undefined Null_pointer), w)
        | Some h \<Rightarrow>
            returns 1 (call_lua (PushNumber (Num (whole (int (unat (s_param_count M (my_calls w) h)))))) w)))"

text \<open>The parameter in a stack position, by its Lua type; another type has no parameter.\<close>

definition make_bind :: "lua_host \<Rightarrow> lua_log \<Rightarrow> int \<Rightarrow> my_bind option" where
  "make_bind L l pos =
    (let type = l_GetType L l pos in
     if type = T_String then
       let str = l_GetString L l pos in
       Some \<lparr>buffer_type = MYSQL_TYPE_STRING, buffer_length = length str, buffer = Chars str\<rparr>
     else if type = T_Bool then
       Some \<lparr>buffer_type = MYSQL_TYPE_BIT, buffer_length = 0, buffer = Bool_buffer (l_GetBool L l pos)\<rparr>
     else if type = T_Number then
       Some \<lparr>buffer_type = MYSQL_TYPE_DOUBLE, buffer_length = 0, buffer = Double_buffer (l_GetNumber L l pos)\<rparr>
     else if type = T_Nil then
       Some \<lparr>buffer_type = MYSQL_TYPE_NULL, buffer_length = 0, buffer = No_buffer\<rparr>
     else None)"

text \<open>The loop over the parameters: the binds, or those before the first parameter of another type.\<close>

fun make_binds :: "lua_host \<Rightarrow> lua_log \<Rightarrow> nat list \<Rightarrow> my_bind list \<Rightarrow> (nat \<times> my_bind list) + my_bind list" where
  "make_binds L l [] binds = Inr binds"
| "make_binds L l (i # is) binds =
    (case make_bind L l (int i + 2) of
       None \<Rightarrow> Inl (i, binds)
     | Some b \<Rightarrow> make_binds L l is (binds @ [b]))"

definition type_error :: "lua_host \<Rightarrow> lua_log \<Rightarrow> nat \<Rightarrow> string" where
  "type_error L l i =
    ''Unexpected type '' @ [CHR 0x27] @ l_GetTypeName L (l_GetType L l (int i + 2)) @ [CHR 0x27] @
    '' in prepared parameter #'' @ to_string (i + 1) @
    '': expected string, number, boolean, or nil''"

definition stmt_Run :: "lua_thread \<Rightarrow> world \<Rightarrow> lua_result" where
  "stmt_Run H w =
    getPStatementFromStack H True w (\<lambda>pstmt.
      with_stmt pstmt w (\<lambda>this p.
        let L = h_host H; n = m_numArgs p in
        if l_Top L (lua_calls w) < n + 1
        then throws ''Attempting to call Run without enough arguments for prepared statement'' w
        else if n < 0 then Some (Inl (Undefined Negative_size), w)
        else if databases w (s_database p) = None then Some (Inl (Undefined Freed_object), w) else
        case make_binds L (lua_calls w) [0..<nat n] [] of
          Inl (i, binds) \<Rightarrow> throws (type_error L (lua_calls w) i) w
        | Inr binds \<Rightarrow>
            let (callbackfunc, w) = take_callback H (n + 2) w;
                (callbackref, w) = take_object H (n + 3) w in
            returns 0 (QueueStatement (s_database p) this binds callbackfunc callbackref
              (l_GetBool L (lua_calls w) (n + 4)) w)))"

end
