(* ===== verification/Db_Delivery.thy ===== *)
theory Db_Delivery
  imports Db_Queries Db_Exports
begin

text \<open>
  The way of an action from the Lua function that queues it to its callback: the
  thread of the database runs the tasks in their order and hands every action
  to the queue of completed actions, and the Lua thread takes them from there.
  Whatever the two threads do in turn, the callbacks come in the order of the
  requests, and every action is delivered once, as long as no callback polls its database itself.
\<close>

section \<open>What a task changes\<close>

text \<open>The members of an action that its task does not touch.\<close>

definition action_core :: "action \<Rightarrow> int \<times> int \<times> bool" where
  "action_core a = (a_iCallback a, a_iCallbackRef a, m_bUseNumbers a)"

lemma action_core_simps [simp]:
  "action_core (AddResult r a) = action_core a" "action_core (StartQueryTimer n a) = action_core a"
  "action_core (EndQueryTimer n a) = action_core a"
  by (simp_all add: action_core_def AddResult_def StartQueryTimer_def EndQueryTimer_def)

definition same_action :: "action \<Rightarrow> fault + action \<Rightarrow> bool" where
  "same_action a r \<longleftrightarrow> (case r of Inl f \<Rightarrow> True | Inr a' \<Rightarrow> action_core a' = action_core a)"

lemma same_action_simps [simp]:
  "same_action a (Inl f)" "same_action a (Inr a') \<longleftrightarrow> action_core a' = action_core a"
  "same_action (AddResult r a) = same_action a"
  by (auto simp: same_action_def fun_eq_iff split: sum.split)

lemma query_results_keeps:
  assumes "query_results M this a w = Some (r, w')"
  shows "keeps w w'" "same_action a r"
proof -
  have "keeps w (snd (r, w')) \<and> same_action a (fst (r, w'))"
  proof (rule query_results.raw_induct [where P = "\<lambda>M this a w y. keeps w (snd y) \<and>
      same_action a (fst y)", OF _ assms], goal_cases)
    case (1 f M this a w y)
    obtain x l where R: "Result_mysql M this (my_calls w) = (x, l)"
      by (cases "Result_mysql M this (my_calls w)")
    let ?w = "call_my this My_next_result (w\<lparr>my_calls := l\<rparr>)"
    show ?case
    proof (cases x)
      case (Inl e)
      then show ?thesis using 1(2) R by auto
    next
      case (Inr r)
      then show ?thesis using 1(2) 1(1) [of M this "AddResult r a" ?w y] R
        by (auto simp: Let_def split: if_splits)
    qed
  qed
  then show "keeps w w'" "same_action a r" by simp_all
qed

lemma statement_results_keeps:
  assumes "statement_results M c h a w = Some (r, w')"
  shows "keeps w w'" "same_action a r"
proof -
  have "keeps w (snd (r, w')) \<and> same_action a (fst (r, w'))"
  proof (rule statement_results.raw_induct [where P = "\<lambda>M c h a w y. keeps w (snd y) \<and>
      same_action a (fst y)", OF _ assms], goal_cases)
    case (1 f M c h a w y)
    let ?u = "call_my c (Stmt_store_result h) w"
    obtain x l where R: "Result_stmt M c h (my_calls ?u) = (x, l)"
      by (cases "Result_stmt M c h (my_calls ?u)")
    let ?w = "call_my c (Stmt_next_result h) (?u\<lparr>my_calls := l\<rparr>)"
    show ?case
    proof (cases x)
      case (Inl e)
      then show ?thesis using 1(2) R by (auto simp: Let_def)
    next
      case (Inr r)
      then show ?thesis using 1(2) 1(1) [of M c h "AddResult r a" ?w y] R
        by (auto simp: Let_def split: if_splits)
    qed
  qed
  then show "keeps w w'" "same_action a r" by simp_all
qed

lemma keeps_and_then:
  assumes "keeps u (snd m)" "\<And>x v. m = (Inr x, v) \<Longrightarrow> keeps u v \<Longrightarrow> keeps u (snd (f x v))"
  shows "keeps u (snd (and_then m f))"
proof (cases m)
  case (Pair r v)
  with assms show ?thesis by (cases r) simp_all
qed

lemma execute_attempt_keeps: "keeps w (snd (execute_attempt T s binds r rs w))"
proof (induction T s binds r rs w rule: execute_attempt.induct)
  case (1 T s binds r rs w)
  show ?case
  proof (cases "\<exists>p h. statements w s = Some p \<and> m_stmt p = Some h")
    case False
    then show ?thesis
      by (subst execute_attempt.simps) (auto simp: on_stmt_def split: option.splits)
  next
    case True
    then obtain p h where p: "statements w s = Some p" "m_stmt p = Some h" by blast
    let ?M = "t_client T" and ?db = "s_database p"
    let ?w = "call_my ?db (Stmt_execute h) (call_my ?db (Stmt_bind_param h binds) w)"
    let ?n = "s_errno ?M (my_calls ?w) h"
    have con: "keeps w (snd (Connect ?M (t_wkdir T) ?db True ?w))"
      by (rule keeps_trans [OF _ Connect_keeps]) simp
    have prep: "keeps u (snd (prepare_stmt ?M ?db s v))" if "keeps u v" for u v
      using that prepare_stmt_keeps by (rule keeps_trans)
    note IH1 = "1.IH"(1) [OF p(2) refl refl refl refl _ refl]
      and IH2 = "1.IH"(2) [OF p(2) refl refl refl refl _ refl]
      and IH3 = "1.IH"(3) [OF p(2) refl refl refl refl _ refl]
    show ?thesis
    proof (cases "s_execute ?M (my_calls ?w) h \<noteq> 0")
      case False
      then show ?thesis using p by (subst execute_attempt.simps) (simp add: on_stmt_def Let_def)
    next
      case fails: True
      consider (reconnect) "\<not> r" "lost_connection ?n"
        | (prepare) "\<not> (\<not> r \<and> lost_connection ?n)" "\<not> rs \<and> ?n = 1243"
        | (fail) "\<not> (\<not> r \<and> lost_connection ?n)" "\<not> (\<not> rs \<and> ?n = 1243)"
        by blast
      then show ?thesis
      proof cases
        case fail
        then have "execute_attempt T s binds r rs w = (Inr ?n, ?w)"
          using p fails by (subst execute_attempt.simps) (auto simp: on_stmt_def Let_def)
        then show ?thesis by simp
      next
        case prepare
        have eq: "execute_attempt T s binds r rs w =
            and_then (prepare_stmt ?M ?db s ?w) (\<lambda>_ w. execute_attempt T s binds r True w)"
          using prepare p fails by (subst execute_attempt.simps) (auto simp: on_stmt_def Let_def)
        show ?thesis unfolding eq
          by (rule keeps_and_then [OF prep]) (auto intro: keeps_trans IH3 [OF fails prepare])
      next
        case reconnect
        have eq: "execute_attempt T s binds r rs w =
            and_then (Connect ?M (t_wkdir T) ?db True ?w)
              (\<lambda>(ok, _) w.
                if ok then execute_attempt T s binds True rs w
                else if \<not> rs \<and> ?n = 1243 then
                  and_then (prepare_stmt ?M ?db s w) (\<lambda>_ w. execute_attempt T s binds True True w)
                else (Inr ?n, w))"
          using reconnect p fails by (subst execute_attempt.simps) (simp add: on_stmt_def Let_def)
        have rc: "\<not> r \<and> lost_connection ?n" using reconnect by simp
        show ?thesis unfolding eq
        proof (rule keeps_and_then [OF con])
          fix x v
          assume c: "Connect ?M (t_wkdir T) ?db True ?w = (Inr x, v)" and v: "keeps w v"
          obtain ok e where x: "x = (ok, e)" by (cases x)
          have again: "keeps w (snd (execute_attempt T s binds True rs v))" if ok
            using keeps_trans [OF v IH1 [OF fails rc c _ that, of e v]] x by simp
          have anew: "keeps w (snd (and_then (prepare_stmt ?M ?db s v)
              (\<lambda>_ w. execute_attempt T s binds True True w)))" if "\<not> ok" "\<not> rs \<and> ?n = 1243"
          proof (rule keeps_and_then [OF prep [OF v]])
            fix y u
            assume pr: "prepare_stmt ?M ?db s v = (Inr y, u)" and u: "keeps w u"
            show "keeps w (snd (execute_attempt T s binds True True u))"
              using keeps_trans [OF u IH2 [OF fails rc c _ that pr, of e]] x by simp
          qed
          show "keeps w (snd ((case x of (ok, _) \<Rightarrow> \<lambda>w.
                if ok then execute_attempt T s binds True rs w
                else if \<not> rs \<and> ?n = 1243 then
                  and_then (prepare_stmt ?M ?db s w) (\<lambda>_ w. execute_attempt T s binds True True w)
                else (Inr ?n, w)) v))"
            using again anew v by (simp add: x)
        qed
      qed
    qed
  qed
qed

lemma Execute_keeps:
  assumes "Execute T beyond s binds a w = Some (r, a', w')"
  shows "keeps w w' \<and> action_core a' = action_core a"
proof -
  let ?b = "map (retype_bind beyond) binds"
  obtain x v where A: "execute_attempt T s ?b False False w = (x, v)"
    by (cases "execute_attempt T s ?b False False w")
  have v: "keeps w v" using execute_attempt_keeps [of w T s ?b False False] A by simp
  let ?a = "StartQueryTimer (t_clock T (my_calls w)) a"
  let ?e = "EndQueryTimer (t_clock T (my_calls v)) ?a"
  have R: "keeps w w' \<and> action_core a' = action_core a"
    if "statement_results (t_client T) c h ?e v = Some (Inr a', w')" for c h
    using statement_results_keeps [OF that] v by (auto intro: keeps_trans)
  have F: "keeps w w'" if "statement_results (t_client T) c h ?e v = Some (Inl f, w')" for c h f
    using statement_results_keeps [OF that] v by (auto intro: keeps_trans)
  show ?thesis
    using assms A v
    by (auto simp: Execute_def Let_def split: sum.splits option.splits if_splits dest: R F)
qed

text \<open>The action that a task works on, if any.\<close>

fun task_action :: "task \<Rightarrow> nat list" where
  "task_action (Run_query act) = [act]"
| "task_action (Run_statement s binds act) = [act]"
| "task_action (Create_statement query) = []"

text \<open>
  What running tasks with the actions \<open>acts\<close> does to the world: the actions are
  pushed on the queue of the database in their order; nothing else changes of
  the databases and the actions but what \<open>db_frame\<close> and \<open>action_core\<close> leave out.
\<close>

definition tasks_effect :: "nat \<Rightarrow> nat list \<Rightarrow> world \<Rightarrow> world \<Rightarrow> bool" where
  "tasks_effect this acts w w' \<longleftrightarrow>
     (\<forall>a. map_option db_frame (databases w' a) = map_option db_frame
        (databases (upd_db this (\<lambda>d. d\<lparr>m_completedActions := fold push acts (m_completedActions d)\<rparr>) w) a)) \<and>
     (\<forall>a. map_option action_core (actions w' a) = map_option action_core (actions w a)) \<and>
     (\<forall>a \<in> set acts. actions w a \<noteq> None) \<and>
     dom (statements w) \<subseteq> dom (statements w') \<and>
     m_databases w' = m_databases w \<and> lua_calls w' = lua_calls w \<and> heap_end w \<le> heap_end w'"

lemma db_frame_push:
  "db_frame d = db_frame d' \<Longrightarrow>
    db_frame (d\<lparr>m_completedActions := fold push acts (m_completedActions d)\<rparr>) =
    db_frame (d'\<lparr>m_completedActions := fold push acts (m_completedActions d')\<rparr>)"
  by (simp add: db_frame_def)

lemma frame_upd_db:
  assumes "\<forall>a. map_option db_frame (databases v a) = map_option db_frame (databases w a)"
    and "\<And>d d'. db_frame d = db_frame d' \<Longrightarrow> db_frame (f d) = db_frame (f d')"
  shows "map_option db_frame (databases (upd_db this f v) a) =
    map_option db_frame (databases (upd_db this f w) a)"
proof (cases "a = this")
  case True
  have "map_option db_frame (databases v this) = map_option db_frame (databases w this)"
    using assms(1) by simp
  then have "map_option db_frame (map_option f (databases v this)) =
      map_option db_frame (map_option f (databases w this))"
    by (cases "databases v this"; cases "databases w this") (simp_all, rule assms(2))
  with True show ?thesis by (simp add: upd_db_def)
next
  case False
  with assms(1) show ?thesis by (simp add: upd_db_def)
qed

lemma tasks_effect_complete:
  assumes "keeps w v" "actions w act = Some a" "action_core a' = action_core a"
  shows "tasks_effect this [act] w (complete this act (set_action act a' v))"
proof -
  let ?f = "\<lambda>d. d\<lparr>m_completedActions := fold push [act] (m_completedActions d)\<rparr>"
  have "\<forall>x. map_option db_frame (databases v x) = map_option db_frame (databases w x)"
    using assms(1) by (simp add: keeps_def)
  from frame_upd_db [OF this db_frame_push]
  have "map_option db_frame (databases (upd_db this ?f v) x) =
      map_option db_frame (databases (upd_db this ?f w) x)" for x .
  moreover have "databases (complete this act (set_action act a' v)) = databases (upd_db this ?f v)"
    by (simp add: complete_def set_action_def upd_db_def)
  ultimately show ?thesis
    using assms by (simp add: tasks_effect_def keeps_def complete_def set_action_def upd_db_def)
qed

lemma RunQuery_effect:
  assumes "RunQuery T this act w = Some (Inr u, w')"
  shows "tasks_effect this [act] w w'"
proof -
  obtain q where q: "actions w act = Some q"
    using assms by (cases "actions w act") (auto simp: RunQuery_def)
  obtain x v where A: "query_attempt T this (m_strQuery q) False w = (x, v)"
    by (cases "query_attempt T this (m_strQuery q) False w")
  have v: "keeps w v" using query_attempt_keeps [of w T this "m_strQuery q" False] A by simp
  have s: "m_strQuery (StartQueryTimer n q) = m_strQuery q" for n by (simp add: StartQueryTimer_def)
  obtain e where x: "x = Inr e" using assms A q by (cases x) (auto simp: RunQuery_def Let_def s)
  let ?q = "EndQueryTimer (t_clock T (my_calls v)) (StartQueryTimer (t_clock T (my_calls w)) q)"
  show ?thesis
  proof (cases "e = 0")
    case False
    then have "w' = complete this act (set_action act (AddResult (Result_error e Dead_text) ?q) v)"
      using assms A q x by (simp add: RunQuery_def Let_def s)
    then show ?thesis using tasks_effect_complete [OF v q] by simp
  next
    case True
    then obtain q' v' where R: "query_results (t_client T) this ?q v = Some (Inr q', v')"
      "w' = complete this act (set_action act q' v')"
      using assms A q x by (auto simp: RunQuery_def Let_def s split: option.splits sum.splits)
    have "keeps w v'" "action_core q' = action_core q"
      using query_results_keeps [OF R(1)] v by (auto intro: keeps_trans)
    then show ?thesis unfolding R(2) by (rule tasks_effect_complete [OF _ q])
  qed
qed

lemma RunStatement_effect:
  assumes "RunStatement T beyond this s binds act w = Some (Inr u, w')"
  shows "tasks_effect this [act] w w'"
proof -
  obtain a where a: "actions w act = Some a"
    using assms by (cases "actions w act") (auto simp: RunStatement_def)
  obtain r a' v where E: "Execute T beyond s binds a w = Some (r, a', v)"
    using assms a by (auto simp: RunStatement_def split: option.splits)
  note k = Execute_keeps [OF E]
  show ?thesis
    using assms a E k
    by (auto simp: RunStatement_def split: sum.splits fault.splits intro!: tasks_effect_complete)
qed

lemma CreateStatement_effect:
  assumes "CreateStatement T this query w = (Inr u, w')"
  shows "tasks_effect this [] w w'"
  using assms
  by (auto simp: CreateStatement_def Let_def tasks_effect_def upd_db_def option.map_comp comp_def
      split: prod.splits sum.splits fault.splits option.splits)

lemma run_task_effect:
  "run_task T beyond this t w = Some (Inr u, w') \<Longrightarrow> tasks_effect this (task_action t) w w'"
  by (cases t) (auto simp: run_task_def intro: RunQuery_effect RunStatement_effect CreateStatement_effect)

section \<open>All tasks of a database\<close>

lemma upd_db_upd_db [simp]: "upd_db this f (upd_db this g w) = upd_db this (\<lambda>d. f (g d)) w"
  by (simp add: upd_db_def option.map_comp comp_def)

lemma upd_db_same [simp]:
  "actions (upd_db this f w) = actions w" "m_databases (upd_db this f w) = m_databases w"
  "lua_calls (upd_db this f w) = lua_calls w" "heap_end (upd_db this f w) = heap_end w"
  "my_calls (upd_db this f w) = my_calls w" "statements (upd_db this f w) = statements w"
  "databases (upd_db this f w) this = map_option f (databases w this)"
  by (simp_all add: upd_db_def)

lemma tasks_effect_trans:
  assumes "tasks_effect this as u v" "tasks_effect this bs v w"
  shows "tasks_effect this (as @ bs) u w"
proof -
  let ?f = "\<lambda>xs d. d\<lparr>m_completedActions := fold push xs (m_completedActions d)\<rparr>"
  have "map_option db_frame (databases (upd_db this (?f bs) v) a) =
      map_option db_frame (databases (upd_db this (?f bs) (upd_db this (?f as) u)) a)" for a
    using assms(1) by (intro frame_upd_db db_frame_push) (simp_all add: tasks_effect_def)
  moreover have "upd_db this (?f bs) (upd_db this (?f as) u) = upd_db this (?f (as @ bs)) u"
    by simp
  moreover have "actions v a = None \<longleftrightarrow> actions u a = None" for a
    using assms(1) unfolding tasks_effect_def by (metis option.map_disc_iff)
  moreover have "dom (statements u) \<subseteq> dom (statements w)"
    using assms unfolding tasks_effect_def by (blast intro: subset_trans)
  ultimately show ?thesis
    using assms unfolding tasks_effect_def by auto
qed

definition clear_tasks :: "nat \<Rightarrow> world \<Rightarrow> world" where
  "clear_tasks this w = upd_db this (\<lambda>d. d\<lparr>tasks := []\<rparr>) w"

lemma tasks_effect_clear:
  assumes "tasks_effect this as (upd_db this (\<lambda>d. d\<lparr>tasks := ts\<rparr>) w) v"
  shows "tasks_effect this as (clear_tasks this w) (clear_tasks this v)"
proof -
  let ?f = "\<lambda>d. d\<lparr>m_completedActions := fold push as (m_completedActions d)\<rparr>"
  let ?c = "\<lambda>d. d\<lparr>tasks := []\<rparr>"
  have "map_option db_frame (databases (upd_db this ?c v) a) =
      map_option db_frame (databases (upd_db this ?c
        (upd_db this ?f (upd_db this (\<lambda>d. d\<lparr>tasks := ts\<rparr>) w))) a)" for a
    using assms by (intro frame_upd_db) (simp_all add: tasks_effect_def db_frame_def)
  moreover have "upd_db this ?c (upd_db this ?f (upd_db this (\<lambda>d. d\<lparr>tasks := ts\<rparr>) w)) =
      upd_db this ?f (upd_db this ?c w)"
    by (simp only: upd_db_upd_db) (rule arg_cong [where f = "\<lambda>f. upd_db this f w"], rule ext, simp)
  ultimately have "map_option db_frame (databases (upd_db this ?c v) a) =
      map_option db_frame (databases (upd_db this ?f (upd_db this ?c w)) a)" for a
    by (simp only:)
  then show ?thesis
    using assms unfolding tasks_effect_def clear_tasks_def by simp
qed

lemma run_tasks_effect:
  "databases w this = Some d \<Longrightarrow> tasks d = ts \<Longrightarrow> run_tasks T beyond this w = Some (Inr u, w') \<Longrightarrow>
    tasks_effect this (concat (map task_action ts)) (clear_tasks this w) w'"
proof (induction ts arbitrary: w d)
  case Nil
  have "w' = w" using Nil by (simp add: run_tasks.simps [of T beyond this w])
  moreover have "databases w = databases (clear_tasks this w)"
    using Nil(1,2) by (auto simp: clear_tasks_def upd_db_def)
  ultimately show ?case
    by (simp add: tasks_effect_def clear_tasks_def)
next
  case (Cons t ts)
  let ?w = "upd_db this (\<lambda>d. d\<lparr>tasks := ts\<rparr>) w"
  obtain x v where R: "run_task T beyond this t ?w = Some (Inr x, v)"
    and rest: "run_tasks T beyond this v = Some (Inr u, w')"
    using Cons.prems
    by (auto simp: run_tasks.simps [of T beyond this w] split: option.splits sum.splits)
  have e: "tasks_effect this (task_action t) ?w v" by (rule run_task_effect [OF R])
  then have "map_option db_frame (databases v this) =
      map_option db_frame (databases (upd_db this
        (\<lambda>d. d\<lparr>m_completedActions := fold push (task_action t) (m_completedActions d)\<rparr>) ?w) this)"
    unfolding tasks_effect_def by blast
  then obtain d' where d': "databases v this = Some d'" "tasks d' = ts"
    using Cons.prems(1) by (auto simp: db_frame_def)
  have "tasks_effect this (concat (map task_action ts)) (clear_tasks this v) w'"
    by (rule Cons.IH [OF d' rest])
  with tasks_effect_clear [OF e] show ?case
    by (auto intro: tasks_effect_trans)
qed

section \<open>Dispatching\<close>

text \<open>The callbacks of the actions \<open>xs\<close> one after another, and the actions deleted.\<close>

definition callbacks :: "lua_env \<Rightarrow> (nat \<Rightarrow> action option) \<Rightarrow> nat list \<Rightarrow> lua_log \<Rightarrow> lua_log" where
  "callbacks E acts xs l = fold (\<lambda>a. TriggerCallback E (the (acts a))) xs l"

definition delete_actions :: "nat list \<Rightarrow> world \<Rightarrow> world" where
  "delete_actions xs w = w\<lparr>actions := (\<lambda>a. if a \<in> set xs then None else actions w a)\<rparr>"

lemma dispatch_loop_calls:
  assumes "databases w this = Some d" "chain (next_of (m_completedActions d)) p xs" "distinct xs"
    and "\<forall>a \<in> set xs. actions w a \<noteq> None"
  shows "dispatch_loop H M this p w = Some (Inr (), delete_actions xs
    (w\<lparr>lua_calls := (if m_bIsInGC d then lua_calls w
       else callbacks (env_of H M w) (actions w) xs (lua_calls w))\<rparr>))"
  using assms
proof (induction xs arbitrary: p w)
  case Nil
  then show ?case
    by (simp add: dispatch_loop.simps delete_actions_def callbacks_def)
next
  case (Cons x xs)
  obtain a where a: "actions w x = Some a" using Cons.prems(4) by auto
  have p: "p = Some x" using Cons.prems(2) by simp
  define w1 where "w1 = w\<lparr>lua_calls := (if m_bIsInGC d then lua_calls w
    else TriggerCallback (env_of H M w) a (lua_calls w)), actions := (actions w)(x := None)\<rparr>"
  have step: "dispatch_loop H M this p w =
      dispatch_loop H M this (next_of (m_completedActions d) x) w1"
    using Cons.prems(1) a by (subst dispatch_loop.simps) (simp add: p w1_def Let_def)
  have env: "env_of H M w1 = env_of H M w" by (simp add: env_of_def w1_def)
  have acts: "callbacks E (actions w1) xs l = callbacks E (actions w) xs l" for E l
    unfolding callbacks_def using Cons.prems(3)
    by (intro fold_cong) (auto simp: w1_def)
  have IH: "dispatch_loop H M this (next_of (m_completedActions d) x) w1 =
      Some (Inr (), delete_actions xs (w1\<lparr>lua_calls := (if m_bIsInGC d then lua_calls w1
        else callbacks (env_of H M w1) (actions w1) xs (lua_calls w1))\<rparr>))"
    by (rule Cons.IH) (use Cons.prems in \<open>auto simp: w1_def\<close>)
  have calls: "(if m_bIsInGC d then lua_calls w1
      else callbacks (env_of H M w1) (actions w1) xs (lua_calls w1)) =
    (if m_bIsInGC d then lua_calls w
      else callbacks (env_of H M w) (actions w) (x # xs) (lua_calls w))"
    unfolding env acts by (simp add: callbacks_def a) (simp add: w1_def)
  have gone: "delete_actions xs (w1\<lparr>lua_calls := l\<rparr>) = delete_actions (x # xs) (w\<lparr>lua_calls := l\<rparr>)" for l
    by (auto simp: delete_actions_def w1_def fun_eq_iff)
  show ?case unfolding step IH calls gone ..
qed

lemma Dispatch_calls:
  assumes "databases w this = Some d" "queue_holds (m_completedActions d) xs"
    and "\<forall>a \<in> set xs. actions w a \<noteq> None"
  shows "\<exists>q. queue_holds q [] \<and>
    DispatchCompletedActions H M this w = Some (Inr (), delete_actions xs
      ((upd_db this (\<lambda>d. d\<lparr>m_completedActions := q\<rparr>) w)\<lparr>lua_calls :=
        (if m_bIsInGC d then lua_calls w
         else callbacks (env_of H M w) (actions w) xs (lua_calls w))\<rparr>))"
proof -
  obtain p q where q: "pop_all (m_completedActions d) = Some (p, q)" "queue_holds q []"
    "chain (next_of q) p xs"
    using aq.deq_holds [OF assms(2)] by blast
  let ?w = "upd_db this (\<lambda>d. d\<lparr>m_completedActions := q\<rparr>) w"
  have d: "databases ?w this = Some (d\<lparr>m_completedActions := q\<rparr>)" using assms(1) by simp
  have "distinct xs" by (rule aq.holds_distinct [OF assms(2)])
  have env: "env_of H M ?w = env_of H M w" by (simp add: env_of_def)
  have "dispatch_loop H M this p ?w = Some (Inr (), delete_actions xs
    (?w\<lparr>lua_calls := (if m_bIsInGC (d\<lparr>m_completedActions := q\<rparr>) then lua_calls ?w
       else callbacks (env_of H M ?w) (actions ?w) xs (lua_calls ?w))\<rparr>))"
    by (rule dispatch_loop_calls [OF d]) (use q assms(3) \<open>distinct xs\<close> in simp_all)
  then have "dispatch_loop H M this p ?w = Some (Inr (), delete_actions xs
    (?w\<lparr>lua_calls := (if m_bIsInGC d then lua_calls w
       else callbacks (env_of H M w) (actions w) xs (lua_calls w))\<rparr>))"
    by (simp add: env)
  moreover have "DispatchCompletedActions H M this w = dispatch_loop H M this p ?w"
    using assms(1) q(1) by (simp add: DispatchCompletedActions_def)
  ultimately show ?thesis using q(2) by auto
qed

section \<open>The two threads\<close>

text \<open>
  What the Lua thread does with the log of its calls: the callback of an action, with the environment
  and the action it is called with, or anything else. In the collector no callback is called.
\<close>

datatype lua_turn = Other lua_log | Callback lua_env action

fun turn :: "bool \<Rightarrow> lua_turn \<Rightarrow> lua_log \<Rightarrow> lua_log" where
  "turn gc (Other es) l = l @ es"
| "turn gc (Callback E a) l = (if gc then l else TriggerCallback E a l)"

fun turn_cores :: "lua_turn \<Rightarrow> (int \<times> int \<times> bool) list" where
  "turn_cores (Other es) = []"
| "turn_cores (Callback E a) = [action_core a]"

text \<open>
  The world with the history of one database: the actions in the order in which
  they were queued, with the callback, its reference and the use of numbers that were asked for, the actions
  in the order in which \<open>Poll\<close> took them, what the Lua thread did, and the log of its calls at the start.
\<close>

record history =
  world_of :: world
  queued :: "nat list"
  delivered :: "nat list"
  wanted :: "(int \<times> int \<times> bool) list"
  turns :: "lua_turn list"
  first_calls :: lua_log

text \<open>
  The steps: Lua queues a query, runs a statement or prepares one, the thread runs its next
  task to its end, Lua polls, and the rest of the program does anything that leaves this
  database and its actions alone. Steps of the thread and of Lua alternate
  freely. \<open>Disconnect\<close> ends the history. A callback that polls the same database again
  would be a poll inside a poll, which is not among the steps.
\<close>

inductive db_step :: "lua_thread \<Rightarrow> thread_env \<Rightarrow> nat \<Rightarrow> nat \<Rightarrow> history \<Rightarrow> history \<Rightarrow> bool"
  for H T beyond this where
  query: "databases (world_of s) this \<noteq> None \<Longrightarrow>
    db_step H T beyond this s
      (s\<lparr>world_of := QueueQuery this q cb ref un (world_of s),
         queued := queued s @ [heap_end (world_of s)], wanted := wanted s @ [(cb, ref, un)]\<rparr>)"
| statement: "databases (world_of s) this \<noteq> None \<Longrightarrow>
    db_step H T beyond this s
      (s\<lparr>world_of := QueueStatement this stmt binds cb ref un (world_of s),
         queued := queued s @ [heap_end (world_of s)], wanted := wanted s @ [(cb, ref, un)]\<rparr>)"
| prepare: "databases (world_of s) this \<noteq> None \<Longrightarrow>
    db_step H T beyond this s
      (s\<lparr>world_of := post this (Create_statement q) ((world_of s)\<lparr>waiter := new_waiter\<rparr>)\<rparr>)"
| task: "databases (world_of s) this = Some d \<Longrightarrow> tasks d = t # ts \<Longrightarrow>
    run_task T beyond this t (upd_db this (\<lambda>d. d\<lparr>tasks := ts\<rparr>) (world_of s)) = Some (Inr u, w) \<Longrightarrow>
    db_step H T beyond this s (s\<lparr>world_of := w\<rparr>)"
| poll: "databases (world_of s) this = Some d \<Longrightarrow> queue_holds (m_completedActions d) xs \<Longrightarrow>
    DispatchCompletedActions H (t_client T) this (world_of s) = Some (Inr u, w) \<Longrightarrow>
    db_step H T beyond this s (s\<lparr>world_of := w, delivered := delivered s @ xs,
      turns := turns s @ map (\<lambda>x. Callback (env_of H (t_client T) (world_of s)) (the (actions (world_of s) x))) xs\<rparr>)"
| elsewhere: "databases w this = databases (world_of s) this \<Longrightarrow>
    \<forall>a \<in> set (queued s). actions w a = actions (world_of s) a \<Longrightarrow>
    heap_end (world_of s) \<le> heap_end w \<Longrightarrow> lua_calls w = lua_calls (world_of s) @ es \<Longrightarrow>
    db_step H T beyond this s (s\<lparr>world_of := w, turns := turns s @ [Other es]\<rparr>)"

definition new_history :: "world \<Rightarrow> history" where
  "new_history w =
    \<lparr>world_of = w, queued = [], delivered = [], wanted = [], turns = [], first_calls = lua_calls w\<rparr>"

inductive reachable_db :: "lua_thread \<Rightarrow> thread_env \<Rightarrow> nat \<Rightarrow> nat \<Rightarrow> history \<Rightarrow> bool"
  for H T beyond this where
  start: "databases w this = Some d \<Longrightarrow> tasks d = [] \<Longrightarrow> queue_holds (m_completedActions d) [] \<Longrightarrow>
    reachable_db H T beyond this (new_history w)"
| step: "reachable_db H T beyond this s \<Longrightarrow> db_step H T beyond this s t \<Longrightarrow>
    reachable_db H T beyond this t"

text \<open>
  The invariant: what was queued is what was delivered, what waits in the queue of
  completed actions and what waits as a task, in this order; these actions are
  different, and those not delivered are alive.
\<close>

definition task_actions :: "task list \<Rightarrow> nat list" where
  "task_actions ts = concat (map task_action ts)"

lemma task_actions_simps [simp]:
  "task_actions [] = []" "task_actions (t # ts) = task_action t @ task_actions ts"
  "task_actions (ts @ us) = task_actions ts @ task_actions us"
  by (simp_all add: task_actions_def)

definition cores :: "world \<Rightarrow> nat list \<Rightarrow> (int \<times> int \<times> bool) list" where
  "cores w as = map (\<lambda>a. action_core (the (actions w a))) as"

lemma cores_append: "cores w (as @ bs) = cores w as @ cores w bs"
  by (simp add: cores_def)

lemma cores_eq:
  assumes "\<forall>a \<in> set as. map_option action_core (actions w a) = map_option action_core (actions v a)"
    "\<forall>a \<in> set as. actions v a \<noteq> None"
  shows "cores w as = cores v as"
proof -
  have "action_core (the (actions w a)) = action_core (the (actions v a))" if "a \<in> set as" for a
    using assms that by (cases "actions w a"; cases "actions v a") (metis option.map(2) option.simps(3), force+)
  then show ?thesis by (simp add: cores_def)
qed

definition called_cores :: "history \<Rightarrow> (int \<times> int \<times> bool) list" where
  "called_cores s = concat (map turn_cores (turns s))"

text \<open>The state of the database: \<open>xs\<close> are the completed actions.\<close>

definition history_at :: "nat \<Rightarrow> database \<Rightarrow> nat list \<Rightarrow> history \<Rightarrow> bool" where
  "history_at this d xs s \<longleftrightarrow>
     databases (world_of s) this = Some d \<and> queue_holds (m_completedActions d) xs \<and>
     queued s = delivered s @ xs @ task_actions (tasks d) \<and> distinct (queued s) \<and>
     (\<forall>a \<in> set (xs @ task_actions (tasks d)). actions (world_of s) a \<noteq> None) \<and>
     (\<forall>a \<in> set (queued s). a < heap_end (world_of s)) \<and>
     wanted s = called_cores s @ cores (world_of s) (xs @ task_actions (tasks d)) \<and>
     length (called_cores s) = length (delivered s) \<and>
     lua_calls (world_of s) = fold (turn (m_bIsInGC d)) (turns s) (first_calls s)"

definition history_ok :: "nat \<Rightarrow> history \<Rightarrow> bool" where
  "history_ok this s \<longleftrightarrow> (\<exists>d xs. history_at this d xs s)"

lemma history_ok_start:
  assumes "databases w this = Some d" "tasks d = []" "queue_holds (m_completedActions d) []"
  shows "history_at this d [] (new_history w)"
  using assms by (simp add: history_at_def new_history_def called_cores_def cores_def)

lemma history_ok_post:
  assumes "history_at this d xs s" "task_action t = [heap_end (world_of s)]"
  shows "history_at this (d\<lparr>tasks := tasks d @ [t]\<rparr>) xs
    (s\<lparr>world_of := post this t (snd (alloc_action a (world_of s))),
       queued := queued s @ [heap_end (world_of s)], wanted := wanted s @ [action_core a]\<rparr>)"
proof -
  let ?s = "s\<lparr>world_of := post this t (snd (alloc_action a (world_of s))),
    queued := queued s @ [heap_end (world_of s)], wanted := wanted s @ [action_core a]\<rparr>"
  let ?n = "heap_end (world_of s)" and ?as = "xs @ task_actions (tasks d)"
  have h: "?n \<notin> set (queued s)" "\<forall>a \<in> set (queued s). a < ?n" using assms(1) by (auto simp: history_at_def)
  let ?w = "post this t (snd (alloc_action a (world_of s)))"
  have w: "actions ?w = (actions (world_of s))(?n \<mapsto> a)" "lua_calls ?w = lua_calls (world_of s)"
    "heap_end ?w = Suc ?n"
    by (simp_all add: post_def alloc_action_def)
  have "?n \<notin> set ?as" using h(1) assms(1) by (auto simp: history_at_def)
  then have "cores ?w ?as = cores (world_of s) ?as" unfolding cores_def w by (auto intro!: map_cong)
  then have "cores ?w (?as @ [?n]) = cores (world_of s) ?as @ [action_core a]"
    unfolding cores_append by (simp add: cores_def w)
  moreover have "databases ?w this = Some (d\<lparr>tasks := tasks d @ [t]\<rparr>)"
    using assms(1) by (simp add: history_at_def post_def alloc_action_def)
  moreover have "called_cores ?s = called_cores s" by (simp add: called_cores_def)
  ultimately show ?thesis
    using assms h w unfolding history_at_def by (auto simp: less_SucI)
qed

lemma history_ok_prepare:
  assumes "history_at this d xs s"
  shows "history_at this (d\<lparr>tasks := tasks d @ [Create_statement q]\<rparr>) xs
    (s\<lparr>world_of := post this (Create_statement q) ((world_of s)\<lparr>waiter := new_waiter\<rparr>)\<rparr>)"
  using assms unfolding history_at_def
  by (auto simp: post_def upd_db_def called_cores_def cores_def)

lemma history_ok_task:
  assumes "history_at this d xs s" "tasks d = t # ts"
    and "tasks_effect this (task_action t) (upd_db this (\<lambda>d. d\<lparr>tasks := ts\<rparr>) (world_of s)) w"
  shows "\<exists>d'. history_at this d' (xs @ task_action t) (s\<lparr>world_of := w\<rparr>)"
proof -
  let ?as = "xs @ task_action t @ task_actions ts"
  have d: "databases (world_of s) this = Some d" "queue_holds (m_completedActions d) xs"
    "queued s = delivered s @ ?as" "distinct (queued s)"
    "\<forall>a \<in> set ?as. actions (world_of s) a \<noteq> None" "\<forall>a \<in> set (queued s). a < heap_end (world_of s)"
    "wanted s = called_cores s @ cores (world_of s) ?as" "length (called_cores s) = length (delivered s)"
    "lua_calls (world_of s) = fold (turn (m_bIsInGC d)) (turns s) (first_calls s)"
    using assms(1) unfolding history_at_def assms(2) task_actions_simps by blast+
  have "map_option db_frame (databases w this) = Some (db_frame
      (d\<lparr>m_completedActions := fold push (task_action t) (m_completedActions d), tasks := ts\<rparr>))"
    using d(1) assms(3) by (simp add: tasks_effect_def db_frame_def)
  then obtain d' where d': "databases w this = Some d'" "tasks d' = ts"
    "m_completedActions d' = fold push (task_action t) (m_completedActions d)" "m_bIsInGC d' = m_bIsInGC d"
    by (auto simp: db_frame_def)
  have q: "queue_holds (m_completedActions d') (xs @ task_action t)"
    unfolding d'(3) by (rule aq.enq_all [OF d(2)]) (use d(3,4) in auto)
  have c: "map_option action_core (actions w a) = map_option action_core (actions (world_of s) a)" for a
    using assms(3) by (simp add: tasks_effect_def)
  then have n: "actions w a = None \<longleftrightarrow> actions (world_of s) a = None" for a
    by (metis option.map_disc_iff)
  have "cores w ?as = cores (world_of s) ?as" by (rule cores_eq) (use c d(5) in auto)
  moreover have "heap_end (world_of s) \<le> heap_end w" "lua_calls w = lua_calls (world_of s)"
    using assms(3) by (simp_all add: tasks_effect_def)
  moreover have "\<forall>a \<in> set (queued s). a < heap_end w"
    using d(6) \<open>heap_end (world_of s) \<le> heap_end w\<close> by (meson less_le_trans)
  ultimately have "history_at this d' (xs @ task_action t) (s\<lparr>world_of := w\<rparr>)"
    using d(3-5,7-9) d' q n by (simp add: history_at_def called_cores_def)
  then show ?thesis ..
qed

lemma queue_holds_unique: "queue_holds q xs \<Longrightarrow> queue_holds q ys \<Longrightarrow> xs = ys"
  by (metis chain_unique queue_holds_def rev_rev_ident)

text \<open>What a poll adds to the log.\<close>

lemma fold_turn_callbacks:
  "fold (turn gc) (map (\<lambda>x. Callback E (the (acts x))) xs) l = (if gc then l else callbacks E acts xs l)"
  unfolding callbacks_def by (induction xs arbitrary: l) simp_all

lemma history_ok_poll:
  assumes "history_at this d xs s"
    and "DispatchCompletedActions H M this (world_of s) = Some (Inr u, w)"
  shows "\<exists>d'. history_at this d' [] (s\<lparr>world_of := w, delivered := delivered s @ xs,
    turns := turns s @ map (\<lambda>x. Callback (env_of H M (world_of s)) (the (actions (world_of s) x))) xs\<rparr>)"
proof -
  let ?ts = "task_actions (tasks d)"
  have d: "databases (world_of s) this = Some d" "queue_holds (m_completedActions d) xs"
    "queued s = delivered s @ xs @ ?ts" "distinct (queued s)"
    "\<forall>a \<in> set (xs @ ?ts). actions (world_of s) a \<noteq> None" "\<forall>a \<in> set (queued s). a < heap_end (world_of s)"
    "wanted s = called_cores s @ cores (world_of s) (xs @ ?ts)" "length (called_cores s) = length (delivered s)"
    "lua_calls (world_of s) = fold (turn (m_bIsInGC d)) (turns s) (first_calls s)"
    using assms(1) unfolding history_at_def by blast+
  obtain q where q: "queue_holds q []" "w = delete_actions xs
      ((upd_db this (\<lambda>d. d\<lparr>m_completedActions := q\<rparr>) (world_of s))\<lparr>lua_calls :=
        (if m_bIsInGC d then lua_calls (world_of s)
         else callbacks (env_of H M (world_of s)) (actions (world_of s)) xs (lua_calls (world_of s)))\<rparr>)"
    using Dispatch_calls [OF d(1,2), of H M] d(5) assms(2) by auto
  let ?t = "s\<lparr>world_of := w, delivered := delivered s @ xs,
    turns := turns s @ map (\<lambda>x. Callback (env_of H M (world_of s)) (the (actions (world_of s) x))) xs\<rparr>"
  have off: "set xs \<inter> set ?ts = {}" using d(3,4) by auto
  have "called_cores ?t = called_cores s @ cores (world_of s) xs"
    by (simp add: called_cores_def cores_def comp_def)
  moreover have "cores w ?ts = cores (world_of s) ?ts"
    using off by (auto simp: cores_def q(2) delete_actions_def)
  moreover have "lua_calls w = fold (turn (m_bIsInGC d)) (turns ?t) (first_calls s)"
    by (simp add: fold_turn_callbacks d(9) q(2) delete_actions_def)
  moreover have "databases w this = Some (d\<lparr>m_completedActions := q\<rparr>)" "heap_end w = heap_end (world_of s)"
    using d(1) by (simp_all add: q(2) delete_actions_def)
  moreover have "\<forall>a \<in> set ?ts. actions w a \<noteq> None" using off d(5) by (auto simp: q(2) delete_actions_def)
  ultimately have "history_at this (d\<lparr>m_completedActions := q\<rparr>) [] ?t"
    using q(1) d(3,4,6-8) by (simp add: history_at_def cores_append) (simp add: cores_def)
  then show ?thesis ..
qed

lemma history_ok_elsewhere:
  assumes "history_at this d xs s" "databases w this = databases (world_of s) this"
    "\<forall>a \<in> set (queued s). actions w a = actions (world_of s) a"
    "heap_end (world_of s) \<le> heap_end w" "lua_calls w = lua_calls (world_of s) @ es"
  shows "history_at this d xs (s\<lparr>world_of := w, turns := turns s @ [Other es]\<rparr>)"
proof -
  have "cores w (xs @ task_actions (tasks d)) = cores (world_of s) (xs @ task_actions (tasks d))"
    using assms(1,3) by (auto simp: history_at_def cores_def)
  moreover have "\<forall>a \<in> set (queued s). a < heap_end w"
    using assms(1,4) unfolding history_at_def by (meson less_le_trans)
  ultimately show ?thesis
    using assms by (auto simp: history_at_def called_cores_def)
qed

lemma db_step_ok: "db_step H T beyond this s t \<Longrightarrow> history_ok this s \<Longrightarrow> history_ok this t"
proof (induction rule: db_step.induct)
  case (query s cb ref un q)
  then obtain d xs where "history_at this d xs s" by (auto simp: history_ok_def)
  from history_ok_post [OF this, of "Run_query (heap_end (world_of s))" "new_query q cb ref un"] show ?case
    by (auto simp: history_ok_def QueueQuery_def alloc_action_def action_core_def new_query_def new_action_def)
next
  case (statement s cb ref un stmt binds)
  then obtain d xs where "history_at this d xs s" by (auto simp: history_ok_def)
  from history_ok_post [OF this, of "Run_statement stmt binds (heap_end (world_of s))" "new_action cb ref un"]
  show ?case
    by (auto simp: history_ok_def QueueStatement_def alloc_action_def action_core_def new_action_def)
next
  case (prepare s q)
  then show ?case using history_ok_prepare unfolding history_ok_def by blast
next
  case (task s d t ts u w)
  then obtain xs where "history_at this d xs s" by (auto simp: history_ok_def history_at_def)
  from history_ok_task [OF this task(2) run_task_effect [OF task(3)]] show ?case
    unfolding history_ok_def by blast
next
  case (poll s d xs u w)
  then obtain ys where y: "history_at this d ys s" by (auto simp: history_ok_def history_at_def)
  then have "ys = xs" using poll(2) queue_holds_unique by (auto simp: history_at_def)
  with history_ok_poll [OF y poll(3)] show ?case unfolding history_ok_def by blast
next
  case (elsewhere w s es)
  then show ?case using history_ok_elsewhere unfolding history_ok_def by blast
qed

lemma reachable_db_ok: "reachable_db H T beyond this s \<Longrightarrow> history_ok this s"
proof (induction rule: reachable_db.induct)
  case (start w d)
  then show ?case using history_ok_start unfolding history_ok_def by blast
next
  case (step s t)
  then show ?case by (blast intro: db_step_ok)
qed


text \<open>C33: in every reachable state a poll of the completed actions returns: it calls the
  callback of exactly the completed actions, oldest first, unless the database
  is being collected, and deletes them; it never touches a deleted action.\<close>

theorem poll_returns:
  assumes "reachable_db H T beyond this s"
  shows "\<exists>d xs q. databases (world_of s) this = Some d \<and> queue_holds (m_completedActions d) xs \<and>
    queue_holds q [] \<and>
    DispatchCompletedActions H M this (world_of s) = Some (Inr (), delete_actions xs
      ((upd_db this (\<lambda>d. d\<lparr>m_completedActions := q\<rparr>) (world_of s))\<lparr>lua_calls :=
        (if m_bIsInGC d then lua_calls (world_of s)
         else callbacks (env_of H M (world_of s)) (actions (world_of s)) xs (lua_calls (world_of s)))\<rparr>))"
proof -
  obtain d xs where d: "databases (world_of s) this = Some d" "queue_holds (m_completedActions d) xs"
    "\<forall>a \<in> set xs. actions (world_of s) a \<noteq> None"
    using reachable_db_ok [OF assms] by (auto simp: history_ok_def history_at_def)
  from Dispatch_calls [OF this, of H M] d show ?thesis by blast
qed

text \<open>Two queries queued on the database of the example.\<close>

definition sample_lua :: lua_thread where
  "sample_lua = \<lparr>h_host = sample_host, h_dead = '''', h_junk = False,
     h_refs = \<lparr>iRefDebugTraceBack = 1, iRefErrorNoHalt = 2\<rparr>, iDatabaseMTID = 1, iStatementMTID = 2\<rparr>"

definition two_queries :: history where
  "two_queries =
    (let w = QueueQuery 1 ''SELECT 1'' 5 (- 1) False sample_world in
     \<lparr>world_of = QueueQuery 1 ''SELECT 2'' 6 (- 1) False w, queued = [3, 4], delivered = [],
      wanted = [(5, - 1, False), (6, - 1, False)], turns = [], first_calls = []\<rparr>)"

lemma two_queries_reachable: "reachable_db H T beyond 1 two_queries"
proof -
  let ?s0 = "new_history sample_world"
  let ?w1 = "QueueQuery 1 ''SELECT 1'' 5 (- 1) False sample_world"
  let ?s1 = "?s0\<lparr>world_of := ?w1, queued := [3], wanted := [(5, - 1, False)]\<rparr>"
  note defs = sample_world_def sample_database_def new_database_def QueueQuery_def alloc_action_def
    post_def upd_db_def new_history_def
  have "reachable_db H T beyond 1 ?s0"
    by (rule reachable_db.start [of _ _ sample_database]) (simp_all add: defs)
  moreover have "db_step H T beyond 1 ?s0 ?s1"
    using db_step.query [of ?s0 1 H T beyond 5 "- 1" False "''SELECT 1''"] by (simp add: defs)
  moreover have "db_step H T beyond 1 ?s1 two_queries"
    using db_step.query [of ?s1 1 H T beyond 6 "- 1" False "''SELECT 2''"]
    by (simp add: two_queries_def defs)
  ultimately show ?thesis by (meson reachable_db.step)
qed



theorem poll_returns_witness:
  "\<exists>w. DispatchCompletedActions sample_lua quiet_client 1 (world_of two_queries) = Some (Inr (), w)"
  using poll_returns [OF two_queries_reachable, of sample_lua quiet_client] by blast

end
