(* ===== verification/Db_Module.thy ===== *)
theory Db_Module
  imports Db_Exports
begin

text \<open>
  The table \<open>tmysql\<close> of the module (\<open>src/src/tmysql.cpp\<close>), which creates databases and
  keeps the set of them, and the entry points of the module (\<open>src/src/main.cpp\<close>).
\<close>

section \<open>Creating databases\<close>

text \<open>\<open>(unsigned int)\<close> of a double whose value fits.\<close>

definition unsigned_of :: "double \<Rightarrow> 32 word" where
  "unsigned_of d = word_of_int (truncated d)"

definition unsigned_long_of :: "double \<Rightarrow> 64 word" where
  "unsigned_long_of d = word_of_int (truncated d)"

definition createDatabase :: "lua_thread \<Rightarrow> world \<Rightarrow> (nat \<Rightarrow> world \<Rightarrow> lua_result) \<Rightarrow> lua_result" where
  "createDatabase H w f =
    checked (CheckString H 1 w) (\<lambda>host.
    checked (CheckString H 2 w) (\<lambda>user.
    checked (CheckString H 3 w) (\<lambda>pass.
    checked (CheckString H 4 w) (\<lambda>db.
      let L = h_host H; l = lua_calls w;
          port = (if l_IsType L l 5 T_Number then unsigned_of (l_GetNumber L l 5) else 3306);
          unixSocket = (if l_IsType L l 6 T_String then c_str (l_GetString L l 6) else '''');
          flags = (if l_IsType L l 7 T_Number then unsigned_long_of (l_GetNumber L l 7) else 0);
          (callbackfunc, w) = take_callback H 8 w;
          this = heap_end w;
          w = w\<lparr>databases := (databases w)(this \<mapsto>
                  new_database host user pass db port unixSocket flags callbackfunc),
                heap_end := this + 1\<rparr> in
      f this (RegisterDatabase this w)) w) w) w) w"

definition tmysql_Create :: "lua_thread \<Rightarrow> world \<Rightarrow> lua_result" where
  "tmysql_Create H w =
    createDatabase H w (\<lambda>this w. continue (db_PushHandle H this w) (\<lambda>_ w. returns 1 w))"

text \<open>A database that cannot connect is deleted; it stays in the set.\<close>

definition connect_created :: "lua_thread \<Rightarrow> thread_env \<Rightarrow> nat \<Rightarrow> world \<Rightarrow> lua_result" where
  "connect_created H T this w =
    continue (Initialize (t_client T) (t_wkdir T) this w) (\<lambda>(ok, error) w.
      if \<not> ok then
        returns 2 (delete_db this (call_lua (PushString error) (call_lua (PushBool False) w)))
      else
        (case databases w this of
           None \<Rightarrow> Some (Inl (Undefined Freed_object), w)
         | Some d \<Rightarrow>
             (case m_bIsPendingCallback d of
                None \<Rightarrow> Some (Inl (Undefined Unset_member), w)
              | Some pending \<Rightarrow>
                  continue (if pending then db_TriggerCallback H this w else (Inr (), w)) (\<lambda>_ w.
                    continue (db_PushHandle H this w) (\<lambda>_ w. returns 1 w)))))"

definition tmysql_Connect :: "lua_thread \<Rightarrow> thread_env \<Rightarrow> world \<Rightarrow> lua_result" where
  "tmysql_Connect H T w = createDatabase H w (connect_created H T)"

text \<open>The loop over the set, with the number of the next entry.\<close>

fun push_databases :: "lua_thread \<Rightarrow> nat \<Rightarrow> nat list \<Rightarrow> world \<Rightarrow> (fault + unit) \<times> world" where
  "push_databases H i [] w = (Inr (), w)"
| "push_databases H i (db # dbs) w =
    and_then (db_PushHandle H db (call_lua (PushNumber (Num (whole (int i)))) w)) (\<lambda>_ w.
      push_databases H (i + 1) dbs (call_lua (SetTable (- 3)) w))"

definition tmysql_GetTable :: "lua_thread \<Rightarrow> world \<Rightarrow> lua_result" where
  "tmysql_GetTable H w =
    continue (push_databases H 1 (m_databases w) (call_lua CreateTable w)) (\<lambda>_ w. returns 1 w)"

section \<open>Loading and unloading the module\<close>

text \<open>The constants that \<open>main.cpp\<close> publishes, with their values in the client's headers.\<close>

definition flag_constants :: "(string \<times> nat) list" where
  "flag_constants =
    [(''CLIENT_FOUND_ROWS'', 2), (''CLIENT_LONG_FLAG'', 4), (''CLIENT_CONNECT_WITH_DB'', 8),
     (''CLIENT_NO_SCHEMA'', 16), (''CLIENT_COMPRESS'', 32), (''CLIENT_ODBC'', 64),
     (''CLIENT_LOCAL_FILES'', 128), (''CLIENT_IGNORE_SPACE'', 256),
     (''CLIENT_TRANSACTIONS'', 8192), (''CLIENT_RESERVED'', 16384),
     (''CLIENT_MULTI_STATEMENTS'', 65536), (''CLIENT_MULTI_RESULTS'', 131072),
     (''CLIENT_PS_MULTI_RESULTS'', 262144)]"

definition option_constants :: "(string \<times> nat) list" where
  "option_constants =
    [(''MYSQL_OPT_CONNECT_TIMEOUT'', 0), (''MYSQL_OPT_COMPRESS'', 1),
     (''MYSQL_OPT_NAMED_PIPE'', 2), (''MYSQL_INIT_COMMAND'', 3),
     (''MYSQL_READ_DEFAULT_FILE'', 4), (''MYSQL_READ_DEFAULT_GROUP'', 5),
     (''MYSQL_SET_CHARSET_DIR'', 6), (''MYSQL_SET_CHARSET_NAME'', 7),
     (''MYSQL_OPT_LOCAL_INFILE'', 8), (''MYSQL_OPT_PROTOCOL'', 9),
     (''MYSQL_SHARED_MEMORY_BASE_NAME'', 10), (''MYSQL_OPT_READ_TIMEOUT'', 11),
     (''MYSQL_OPT_WRITE_TIMEOUT'', 12), (''MYSQL_OPT_USE_RESULT'', 13),
     (''MYSQL_OPT_USE_REMOTE_CONNECTION'', 14), (''MYSQL_OPT_USE_EMBEDDED_CONNECTION'', 15),
     (''MYSQL_OPT_GUESS_CONNECTION'', 16), (''MYSQL_SET_CLIENT_IP'', 17),
     (''MYSQL_SECURE_AUTH'', 18), (''MYSQL_REPORT_DATA_TRUNCATION'', 19),
     (''MYSQL_OPT_RECONNECT'', 20), (''MYSQL_OPT_SSL_VERIFY_SERVER_CERT'', 21),
     (''MYSQL_PLUGIN_DIR'', 22), (''MYSQL_DEFAULT_AUTH'', 23), (''MYSQL_OPT_BIND'', 24),
     (''MYSQL_OPT_SSL_KEY'', 25), (''MYSQL_OPT_SSL_CERT'', 26), (''MYSQL_OPT_SSL_CA'', 27),
     (''MYSQL_OPT_SSL_CAPATH'', 28), (''MYSQL_OPT_SSL_CIPHER'', 29),
     (''MYSQL_OPT_SSL_CRL'', 30), (''MYSQL_OPT_SSL_CRLPATH'', 31),
     (''MYSQL_OPT_CONNECT_ATTR_RESET'', 32), (''MYSQL_OPT_CONNECT_ATTR_ADD'', 33),
     (''MYSQL_OPT_CONNECT_ATTR_DELETE'', 34), (''MYSQL_SERVER_PUBLIC_KEY'', 35),
     (''MYSQL_ENABLE_CLEARTEXT_PLUGIN'', 36), (''MYSQL_OPT_CAN_HANDLE_EXPIRED_PASSWORDS'', 37),
     (''MYSQL_OPT_SSL_ENFORCE'', 38)]"

definition database_methods :: "(string \<times> string) list" where
  "database_methods =
    [(''__gc'', ''Database::lua___gc''), (''__tostring'', ''Database::lua__tostring''),
     (''IsValid'', ''Database::lua_IsValid''), (''Query'', ''Database::lua_Query''),
     (''Prepare'', ''Database::lua_Prepare''), (''Escape'', ''Database::lua_Escape''),
     (''SetOption'', ''Database::lua_SetOption''),
     (''GetServerInfo'', ''Database::lua_GetServerInfo''),
     (''GetDatabase'', ''Database::lua_GetDatabase''),
     (''GetHostInfo'', ''Database::lua_GetHostInfo''),
     (''GetServerVersion'', ''Database::lua_GetServerVersion''),
     (''Connect'', ''Database::lua_Connect''),
     (''IsConnected'', ''Database::lua_IsConnected''),
     (''Disconnect'', ''Database::lua_Disconnect''),
     (''SetCharacterSet'', ''Database::lua_SetCharacterSet''),
     (''Poll'', ''Database::lua_Poll'')]"

definition statement_methods :: "(string \<times> string) list" where
  "statement_methods =
    [(''__gc'', ''PStatement::lua___gc''), (''__tostring'', ''PStatement::lua__tostring''),
     (''__call'', ''PStatement::lua_Run''), (''IsValid'', ''PStatement::lua_IsValid''),
     (''GetArgCount'', ''PStatement::lua_GetArgCount''), (''Run'', ''PStatement::lua_Run'')]"

text \<open>The enumeration \<open>mysql_option\<close> of \<open>mysql.h\<close>, up to the options of MySQL.\<close>

definition mysql_option :: "string list" where
  "mysql_option =
    [''MYSQL_OPT_CONNECT_TIMEOUT'', ''MYSQL_OPT_COMPRESS'', ''MYSQL_OPT_NAMED_PIPE'',
     ''MYSQL_INIT_COMMAND'', ''MYSQL_READ_DEFAULT_FILE'', ''MYSQL_READ_DEFAULT_GROUP'',
     ''MYSQL_SET_CHARSET_DIR'', ''MYSQL_SET_CHARSET_NAME'', ''MYSQL_OPT_LOCAL_INFILE'',
     ''MYSQL_OPT_PROTOCOL'', ''MYSQL_SHARED_MEMORY_BASE_NAME'', ''MYSQL_OPT_READ_TIMEOUT'',
     ''MYSQL_OPT_WRITE_TIMEOUT'', ''MYSQL_OPT_USE_RESULT'',
     ''MYSQL_OPT_USE_REMOTE_CONNECTION'', ''MYSQL_OPT_USE_EMBEDDED_CONNECTION'',
     ''MYSQL_OPT_GUESS_CONNECTION'', ''MYSQL_SET_CLIENT_IP'', ''MYSQL_SECURE_AUTH'',
     ''MYSQL_REPORT_DATA_TRUNCATION'', ''MYSQL_OPT_RECONNECT'',
     ''MYSQL_OPT_SSL_VERIFY_SERVER_CERT'', ''MYSQL_PLUGIN_DIR'', ''MYSQL_DEFAULT_AUTH'',
     ''MYSQL_OPT_BIND'', ''MYSQL_OPT_SSL_KEY'', ''MYSQL_OPT_SSL_CERT'', ''MYSQL_OPT_SSL_CA'',
     ''MYSQL_OPT_SSL_CAPATH'', ''MYSQL_OPT_SSL_CIPHER'', ''MYSQL_OPT_SSL_CRL'',
     ''MYSQL_OPT_SSL_CRLPATH'', ''MYSQL_OPT_CONNECT_ATTR_RESET'',
     ''MYSQL_OPT_CONNECT_ATTR_ADD'', ''MYSQL_OPT_CONNECT_ATTR_DELETE'',
     ''MYSQL_SERVER_PUBLIC_KEY'', ''MYSQL_ENABLE_CLEARTEXT_PLUGIN'',
     ''MYSQL_OPT_CAN_HANDLE_EXPIRED_PASSWORDS'', ''MYSQL_OPT_SSL_ENFORCE'',
     ''MYSQL_OPT_MAX_ALLOWED_PACKET'', ''MYSQL_OPT_NET_BUFFER_LENGTH'',
     ''MYSQL_OPT_TLS_VERSION'']"

definition push_constant :: "string \<times> nat \<Rightarrow> world \<Rightarrow> world" where
  "push_constant c w =
    call_lua (SetField (- 2) (fst c)) (call_lua (PushNumber (Num (whole (int (snd c))))) w)"

definition push_method :: "string \<times> string \<Rightarrow> world \<Rightarrow> world" where
  "push_method m w = call_lua (SetField (- 2) (fst m)) (call_lua (PushCFunction (snd m)) w)"

text \<open>A metatable that indexes itself.\<close>

definition open_class :: "lua_thread \<Rightarrow> string \<Rightarrow> (string \<times> string) list \<Rightarrow> world \<Rightarrow> int \<times> world" where
  "open_class H name methods w =
    (let t = l_CreateMetaTable (h_host H) (lua_calls w) name;
         w = call_lua (CreateMetaTable name t) w;
         w = call_lua (Push (- 1)) w;
         w = call_lua (SetField (- 2) ''__index'') w;
         w = fold push_method methods w in
     (t, call_lua (Pop 1) w))"

text \<open>
  \<open>GMOD_MODULE_OPEN\<close>: the version is 4.5, \<open>version\<close> and \<open>info\<close> are what the client
  library says of itself, \<open>commit\<close> is the text generated by the build. It gives
  the references and the metatable numbers.
\<close>

definition module_open ::
  "lua_thread \<Rightarrow> string \<Rightarrow> nat \<Rightarrow> string \<Rightarrow> world \<Rightarrow> (module_refs \<times> int \<times> int) \<times> world"
where
  "module_open H commit version info w =
    (let w = call_lua PushSpecial_Glob w;
         w = call_lua (GetField (- 1) ''debug'') w;
         w = call_lua (GetField (- 1) ''traceback'') w;
         (r1, w) = create_ref H w;
         w = call_lua (Pop 1) w;
         w = call_lua (GetField (- 1) ''ErrorNoHalt'') w;
         (r2, w) = create_ref H w;
         w = call_lua CreateTable w;
         w = call_lua (PushNumber (Num (Binary 9 (- 1)))) w;
         w = call_lua (SetField (- 2) ''Version'') w;
         w = call_lua (PushString commit) w;
         w = call_lua (SetField (- 2) ''Commit'') w;
         w = push_method (''Create'', ''tmysql::lua_Create'') w;
         w = push_method (''Connect'', ''tmysql::lua_Connect'') w;
         w = push_method (''GetTable'', ''tmysql::lua_GetTable'') w;
         w = call_lua CreateTable w;
         w = push_constant (''MYSQL_VERSION'', version) w;
         w = call_lua (PushString info) w;
         w = call_lua (SetField (- 2) ''MYSQL_INFO'') w;
         w = call_lua (SetField (- 2) ''info'') w;
         w = call_lua CreateTable w;
         w = fold push_constant flag_constants w;
         w = call_lua (SetField (- 2) ''flags'') w;
         w = call_lua CreateTable w;
         w = fold push_constant option_constants w;
         w = call_lua (SetField (- 2) ''opts'') w;
         w = call_lua (SetField (- 2) ''tmysql'') w;
         w = call_lua (Pop 1) w;
         (t1, w) = open_class H ''Database'' database_methods w;
         (t2, w) = open_class H ''PreparedStatement'' statement_methods w in
     ((\<lparr>iRefDebugTraceBack = r1, iRefErrorNoHalt = r2\<rparr>, t1, t2), w))"

definition module_close :: "lua_thread \<Rightarrow> world \<Rightarrow> world" where
  "module_close H w =
    (let w = call_lua (ReferenceFree (iRefDebugTraceBack (h_refs H))) w in
     call_lua (ReferenceFree (iRefErrorNoHalt (h_refs H))) w)"

lemma option_constants_enumerated:
  "\<forall>(n, v) \<in> set option_constants. v < length mysql_option \<and> mysql_option ! v = n"
  by code_simp

lemma stack_depth_call [simp]:
  "stack_depth (lua_calls (call_lua e w)) = stack_depth (lua_calls w) + stack_change e"
  by (simp add: call_lua_def)

lemma push_entry_depth [simp]:
  "stack_depth (lua_calls (push_constant c w)) = stack_depth (lua_calls w)"
  "stack_depth (lua_calls (push_method m w)) = stack_depth (lua_calls w)"
  by (simp_all add: push_constant_def push_method_def)

lemma fold_push_depth [simp]:
  "stack_depth (lua_calls (fold push_constant cs w)) = stack_depth (lua_calls w)"
  "stack_depth (lua_calls (fold push_method ms w)) = stack_depth (lua_calls w)"
  by (induction cs arbitrary: w, simp_all) (induction ms arbitrary: w, simp_all)

lemma create_ref_depth [simp]:
  "stack_depth (lua_calls (snd (create_ref H w))) = stack_depth (lua_calls w) - 1"
  by (simp add: create_ref_def lua_ref_def Let_def)

text \<open>Loading the module leaves the stack as it was.\<close>

lemma module_open_balanced:
  "stack_depth (lua_calls (snd (module_open H commit version info w))) = stack_depth (lua_calls w)"
  by (simp add: module_open_def open_class_def case_prod_unfold Let_def)

end
