(* ===== verification/Db_Lifecycle.thy ===== *)
theory Db_Lifecycle
  imports Db_Delivery Db_Module
begin

text \<open>
  The life of a database object: the fixed-size buffers it copies its strings
  into, what a failed connection leaves behind, what \<open>Disconnect\<close> delivers before
  the object is deleted, and the memory of the parameters of a statement.
\<close>

section \<open>Buffers\<close>

text \<open>C37: whatever strings and port a database is created with, the text that its
  __tostring writes with sprintf fits the buffer of 378 characters.\<close>

theorem tostring_fits:
  "length (database_text (new_database host user pass db port socket flags callback)) + 1 \<le> 378"
proof -
  have "unat port < 2 ^ 32"
    using unsigned_less [of port, where ?'a = nat] by simp
  then have "length (to_string (unat port)) \<le> Suc 9"
    by (intro to_string_length) simp
  moreover have "length (strncpy host 253) \<le> 253" "length (strncpy user 32) \<le> 32"
    "length (strncpy db 64) \<le> 64"
    by (rule strncpy_length)+
  ultimately show ?thesis by (simp add: database_text_def new_database_def)
qed

section \<open>Failed connections\<close>

lemma upd_db_None: "databases (upd_db this f w) a = None \<longleftrightarrow> databases w a = None"
  by (simp add: upd_db_def)

lemma db_PushHandle_None:
  assumes "db_PushHandle H db w = (Inr u, w')"
  shows "databases w' a = None \<longleftrightarrow> databases w a = None"
  using assms
  by (auto simp: db_PushHandle_def on_db_def Let_def call_lua_def create_ref_def upd_db_None
      split: option.splits prod.splits if_splits)

lemma push_databases_freed:
  "db \<in> set dbs \<Longrightarrow> databases w db = None \<Longrightarrow> \<exists>f v. push_databases H i dbs w = (Inl f, v)"
proof (induction dbs arbitrary: i w)
  case (Cons x dbs)
  let ?w = "call_lua (PushNumber (Num (whole (int i)))) w"
  obtain r v where P: "db_PushHandle H x ?w = (r, v)" by (cases "db_PushHandle H x ?w")
  show ?case
  proof (cases r)
    case (Inl f)
    with P show ?thesis by simp
  next
    case (Inr u)
    have none: "databases (call_lua (SetTable (- 3)) v) db = None"
      using db_PushHandle_None [OF P [unfolded Inr], of db] Cons.prems(2)
      by (simp add: call_lua_def)
    have "x \<noteq> db"
      using P Inr Cons.prems(2) by (auto simp: db_PushHandle_def on_db_def call_lua_def)
    with Cons.prems(1) have "db \<in> set dbs" by simp
    from Cons.IH [OF this none, of "i + 1"] P Inr show ?thesis by simp
  qed
qed simp


text \<open>A database that \<open>tmysql.Connect\<close> could not connect.\<close>

lemma freed_in_table:
  assumes "db \<in> set (m_databases w)" "databases w db = None"
  shows "\<exists>f v. tmysql_GetTable H w = Some (Inl f, v)"
  using push_databases_freed [of db "m_databases w" "call_lua CreateTable w" H 1] assms
  by (auto simp: tmysql_GetTable_def call_lua_def)

section \<open>The end of a database\<close>

text \<open>What the Lua thread adds to its calls.\<close>

definition extends :: "world \<Rightarrow> world \<Rightarrow> bool" where
  "extends w w' \<longleftrightarrow> (\<exists>more. lua_calls w' = lua_calls w @ more)"

lemma extends_refl [simp]: "extends w w"
  by (simp add: extends_def)

lemma extends_trans: "extends u v \<Longrightarrow> extends v w \<Longrightarrow> extends u w"
  by (auto simp: extends_def)

lemma extends_call_lua [simp]: "extends u w \<Longrightarrow> extends u (call_lua e w)"
  by (auto simp: extends_def call_lua_def lua_def)

lemma extends_create_ref [simp]: "extends u w \<Longrightarrow> extends u (snd (create_ref H w))"
  by (auto simp: extends_def create_ref_def lua_ref_def lua_def Let_def)

lemma call_same [simp]:
  "statements (call_lua e w) = statements w" "databases (call_lua e w) = databases w"
  "actions (call_lua e w) = actions w" "m_databases (call_lua e w) = m_databases w"
  "statements (call_my c m w) = statements w" "databases (call_my c m w) = databases w"
  "actions (call_my c m w) = actions w" "m_databases (call_my c m w) = m_databases w"
  "statements (snd (create_ref H w)) = statements w"
  "databases (snd (create_ref H w)) = databases w"
  "actions (snd (create_ref H w)) = actions w"
  "m_databases (snd (create_ref H w)) = m_databases w"
  by (simp_all add: call_lua_def call_my_def create_ref_def lua_ref_def Let_def)

text \<open>The objects the Lua thread sees other than the statements \<open>ss\<close> and the database \<open>dbs\<close>.\<close>

definition releases :: "nat set \<Rightarrow> nat set \<Rightarrow> world \<Rightarrow> world \<Rightarrow> bool" where
  "releases ss dbs w w' \<longleftrightarrow>
    (\<forall>s. s \<notin> ss \<longrightarrow> (statements w' s = None \<longleftrightarrow> statements w s = None)) \<and>
    (\<forall>s \<in> ss. statements w' s = None) \<and> (\<forall>a. a \<notin> dbs \<longrightarrow> databases w' a = databases w a) \<and>
    actions w' = actions w \<and> m_databases w' = m_databases w \<and> extends w w'"

lemma releases_trans:
  "releases ss dbs u v \<Longrightarrow> releases ss' dbs v w \<Longrightarrow> releases (ss \<union> ss') dbs u w"
  unfolding releases_def by (auto intro: extends_trans)

lemma stmt_PushHandle_ok:
  assumes "statements w s = Some p"
  shows "\<exists>w'. stmt_PushHandle H s w = (Inr (), w') \<and> releases {} {} w w' \<and> statements w' s \<noteq> None"
  using assms
  by (auto simp: stmt_PushHandle_def on_stmt_def upd_stmt_def releases_def case_prod_unfold Let_def
      extends_def call_lua_def create_ref_def lua_ref_def lua_def)

lemma stmt_Release_ok:
  assumes "statements w s \<noteq> None"
  shows "\<exists>w'. stmt_Release H s w = (Inr (), w') \<and> releases {s} {} w w'"
proof -
  obtain p where "statements w s = Some p" using assms by auto
  from stmt_PushHandle_ok [OF this, of H] obtain v p' where
    v: "stmt_PushHandle H s w = (Inr (), v)" "releases {} {} w v" "statements v s = Some p'"
    by auto
  have "\<exists>w'. stmt_Release H s w = (Inr (), w') \<and> releases {s} {} v w'"
    using v(1,3)
    by (auto simp: stmt_Release_def on_stmt_def delete_stmt_def releases_def Let_def
        extends_def call_lua_def call_my_def lua_def split: option.split)
  with releases_trans [OF v(2)] show ?thesis by fastforce
qed

lemma release_all_ok:
  assumes "distinct ss" "\<forall>s \<in> set ss. statements w s \<noteq> None"
  shows "\<exists>w'. release_all H ss w = (Inr (), w') \<and> releases (set ss) {} w w'"
  using assms
proof (induction ss arbitrary: w)
  case Nil
  then show ?case by (simp add: releases_def)
next
  case (Cons s ss)
  obtain v where v: "stmt_Release H s w = (Inr (), v)" "releases {s} {} w v"
    using stmt_Release_ok [of w s H] Cons.prems(2) by auto
  have "\<forall>t \<in> set ss. statements v t \<noteq> None"
    using Cons.prems v(2) unfolding releases_def by (metis distinct.simps(2) list.set_intros(2) singletonD)
  with Cons obtain w' where "release_all H ss v = (Inr (), w')" "releases (set ss) {} v w'"
    by fastforce
  with v releases_trans [OF v(2)] show ?case by fastforce
qed

lemma db_PushHandle_ok:
  assumes "databases w db = Some d"
  shows "\<exists>w' d'. db_PushHandle H db w = (Inr (), w') \<and> databases w' db = Some d' \<and>
    releases {} {db} w w'"
  using assms
  by (auto simp: db_PushHandle_def on_db_def upd_db_def releases_def case_prod_unfold Let_def
      extends_def call_lua_def create_ref_def lua_ref_def lua_def)

lemma NullifyReference_ok:
  assumes "databases w db = Some d"
  shows "\<exists>w'. NullifyReference H db w = (Inr (), w') \<and> releases {} {db} w w'"
proof -
  from db_PushHandle_ok [OF assms, of H] obtain v d' where
    v: "db_PushHandle H db w = (Inr (), v)" "databases v db = Some d'" "releases {} {db} w v"
    by auto
  have "\<exists>w'. NullifyReference H db w = (Inr (), w') \<and> releases {} {db} v w'"
    using v(1,2)
    by (auto simp: NullifyReference_def on_db_def releases_def Let_def extends_def call_lua_def lua_def)
  with releases_trans [OF v(3)] show ?thesis by fastforce
qed

lemma Release_ok:
  assumes "databases w this = Some d" "io_thread d" "distinct (map snd (m_preparedStatements d))"
    and "\<forall>s \<in> snd ` set (m_preparedStatements d). statements w s \<noteq> None"
  shows "\<exists>w'. Release H this w = (Inr (), w') \<and>
    releases (snd ` set (m_preparedStatements d)) {this} w w'"
proof -
  let ?ss = "map snd (m_preparedStatements d)"
  let ?u = "upd_db this (\<lambda>d. d\<lparr>io_thread := False\<rparr>) w"
  obtain v where v: "release_all H ?ss ?u = (Inr (), v)" "releases (set ?ss) {} ?u v"
    using release_all_ok [of ?ss ?u H] assms(3,4) by auto
  let ?v = "upd_db this (\<lambda>d. d\<lparr>m_bIsConnected := False\<rparr>)
    (call_my this My_close (call_my this My_forget_stmts v))"
  have "databases v this = Some (d\<lparr>io_thread := False\<rparr>)"
    using v(2) assms(1) by (simp add: releases_def)
  then obtain w' where w': "NullifyReference H this ?v = (Inr (), w')" "releases {} {this} ?v w'"
    using NullifyReference_ok [of ?v this] by auto
  have "Release H this w = (Inr (), w')"
    using assms(1,2) v(1) w'(1) by (simp add: Release_def on_db_def Let_def)
  moreover have "releases (set ?ss) {this} w ?v"
    using v(2) by (auto simp: releases_def extends_def upd_db_def call_my_def)
  ultimately show ?thesis using releases_trans [OF _ w'(2)] by fastforce
qed

text \<open>What the Lua thread finds when the thread of the database has run out of tasks.\<close>

lemma tasks_leave:
  assumes "databases w this = Some d" "queue_holds (m_completedActions d) xs"
    and "distinct (xs @ task_actions (tasks d))" "\<forall>a \<in> set xs. actions w a \<noteq> None"
    and "run_tasks T beyond this (upd_db this (\<lambda>d. d\<lparr>io_work := False\<rparr>) w) = Some (Inr (), v)"
  shows "tasks_effect this (task_actions (tasks d)) (clear_tasks this w) v \<and>
    (\<exists>d'. databases v this = Some d' \<and> io_thread d' = io_thread d \<and>
      m_preparedStatements d' = m_preparedStatements d \<and> m_bIsInGC d' = m_bIsInGC d \<and>
      queue_holds (m_completedActions d') (xs @ task_actions (tasks d))) \<and>
    (\<forall>a \<in> set (xs @ task_actions (tasks d)). actions v a \<noteq> None)"
proof -
  let ?u = "upd_db this (\<lambda>d. d\<lparr>io_work := False\<rparr>) w"
  let ?T = "task_actions (tasks d)"
  have "tasks_effect this ?T (clear_tasks this ?u) v"
    using run_tasks_effect [OF _ _ assms(5), of "d\<lparr>io_work := False\<rparr>" "tasks d"] assms(1)
    by (simp add: task_actions_def)
  moreover have "map_option db_frame (databases (upd_db this f (clear_tasks this ?u)) a) =
      map_option db_frame (databases (upd_db this f (clear_tasks this w)) a)"
    if "f = (\<lambda>d. d\<lparr>m_completedActions := fold push ?T (m_completedActions d)\<rparr>)" for f a
    by (auto simp: that clear_tasks_def upd_db_def db_frame_def option.map_comp comp_def)
  ultimately have eff: "tasks_effect this ?T (clear_tasks this w) v"
    by (simp add: tasks_effect_def clear_tasks_def)
  then have "map_option db_frame (databases v this) = Some (db_frame
      (d\<lparr>tasks := [], m_completedActions := fold push ?T (m_completedActions d)\<rparr>))"
    using assms(1) by (simp add: tasks_effect_def clear_tasks_def)
  then obtain d' where d': "databases v this = Some d'"
    "m_completedActions d' = fold push ?T (m_completedActions d)" "io_thread d' = io_thread d"
    "m_preparedStatements d' = m_preparedStatements d" "m_bIsInGC d' = m_bIsInGC d"
    by (auto simp: db_frame_def)
  have "queue_holds (m_completedActions d') (xs @ ?T)"
    unfolding d'(2) by (rule aq.enq_all [OF assms(2)]) (use assms(3) in auto)
  moreover have "actions v a \<noteq> None" if "a \<in> set (xs @ ?T)" for a
  proof -
    have "actions w a \<noteq> None"
      using that assms(4) eff by (auto simp: tasks_effect_def clear_tasks_def)
    moreover have "map_option action_core (actions v a) = map_option action_core (actions w a)"
      using eff by (simp add: tasks_effect_def clear_tasks_def)
    ultimately show ?thesis by auto
  qed
  ultimately show ?thesis using eff d' by blast
qed

text \<open>
  A database whose thread runs, whose tasks end, and whose statements are alive
  and different: \<open>Disconnect\<close> returns.
\<close>

lemma Disconnect_ok:
  assumes "databases w this = Some d" "queue_holds (m_completedActions d) xs"
    and "distinct (xs @ task_actions (tasks d))" "\<forall>a \<in> set xs. actions w a \<noteq> None"
    and "run_tasks T beyond this (upd_db this (\<lambda>d. d\<lparr>io_work := False\<rparr>) w) = Some (Inr (), v)"
    and "io_thread d" "distinct (map snd (m_preparedStatements d))"
    and "\<forall>s \<in> snd ` set (m_preparedStatements d). statements w s \<noteq> None"
  defines "all \<equiv> xs @ task_actions (tasks d)"
  shows "\<exists>w' more. Disconnect H T beyond this w = Some (Inr (), w') \<and>
    tasks_effect this (task_actions (tasks d)) (clear_tasks this w) v \<and>
    lua_calls w' = (if m_bIsInGC d then lua_calls w
       else callbacks (env_of H (t_client T) v) (actions v) all (lua_calls w)) @ more \<and>
    (\<forall>a. actions w' a = (if a \<in> set all then None else actions v a)) \<and>
    databases w' this = None \<and>
    (\<forall>s \<in> snd ` set (m_preparedStatements d). statements w' s = None) \<and>
    m_databases w' = remove1 this (m_databases w)"
proof -
  let ?SS = "snd ` set (m_preparedStatements d)"
  let ?calls = "if m_bIsInGC d then lua_calls v
    else callbacks (env_of H (t_client T) v) (actions v) all (lua_calls v)"
  obtain d' where eff: "tasks_effect this (task_actions (tasks d)) (clear_tasks this w) v"
    and d': "databases v this = Some d'" "io_thread d' = io_thread d"
      "m_preparedStatements d' = m_preparedStatements d" "m_bIsInGC d' = m_bIsInGC d"
    and q: "queue_holds (m_completedActions d') all" and alive: "\<forall>a \<in> set all. actions v a \<noteq> None"
    using tasks_leave [OF assms(1-5)] unfolding all_def by blast
  obtain c where c: "DispatchCompletedActions H (t_client T) this v = Some (Inr (), delete_actions all
      ((upd_db this (\<lambda>d. d\<lparr>m_completedActions := c\<rparr>) v)\<lparr>lua_calls := ?calls\<rparr>))"
    using Dispatch_calls [OF d'(1) q alive, of H "t_client T"] unfolding d'(4) by blast
  define x where "x = delete_actions all
      ((upd_db this (\<lambda>d. d\<lparr>m_completedActions := c\<rparr>) v)\<lparr>lua_calls := ?calls\<rparr>)"
  have x: "databases x this = Some (d'\<lparr>m_completedActions := c\<rparr>)" "lua_calls x = ?calls"
    "m_databases x = m_databases v" "actions x = (\<lambda>a. if a \<in> set all then None else actions v a)"
    "statements x = statements v"
    using d'(1) by (simp_all add: delete_actions_def x_def cong: if_cong)
  have v: "lua_calls v = lua_calls w" "m_databases v = m_databases w"
    "dom (statements w) \<subseteq> dom (statements v)"
    using eff by (simp_all add: tasks_effect_def clear_tasks_def)
  have "\<forall>s \<in> ?SS. statements x s \<noteq> None" using assms(8) v(3) by (auto simp: x(5))
  then obtain w' where w': "Release H this x = (Inr (), w')" "releases ?SS {this} x w'"
    using Release_ok [OF x(1), of H] assms(6,7) d'(2,3) by auto
  let ?e = "delete_db this (DeregisterDatabase this w')"
  have D: "Disconnect H T beyond this w = Some (Inr (), ?e)"
    using assms(1,5,6) c w'(1) by (simp add: Disconnect_def x_def)
  obtain more where more: "lua_calls w' = ?calls @ more"
    using w'(2) x(2) by (auto simp: releases_def extends_def)
  have "\<forall>s \<in> ?SS. statements w' s = None" "actions w' = actions x" "m_databases w' = m_databases x"
    using w'(2) by (simp_all add: releases_def)
  then show ?thesis
    by (intro exI [of _ ?e] exI [of _ more])
      (simp add: D eff more v x delete_db_def DeregisterDatabase_def)
qed

text \<open>C34: Disconnect returns when the pending tasks end: it calls the callback of every
  action that was queued and not yet delivered, in the order of the requests,
  unless it runs in the collector, deletes these actions, the statements and the
  database, and takes the database off the list of the module.\<close>

theorem disconnect_delivers:
  assumes "reachable_db H T beyond this s" "databases (world_of s) this = Some d" "io_thread d"
    and "run_tasks T beyond this (upd_db this (\<lambda>d. d\<lparr>io_work := False\<rparr>) (world_of s)) = Some (Inr (), v)"
    and "distinct (map snd (m_preparedStatements d))"
    and "\<forall>p \<in> snd ` set (m_preparedStatements d). statements (world_of s) p \<noteq> None"
  shows "\<exists>w' more. Disconnect H T beyond this (world_of s) = Some (Inr (), w') \<and>
    lua_calls w' = (if m_bIsInGC d then lua_calls (world_of s)
       else callbacks (env_of H (t_client T) v) (actions v)
         (drop (length (delivered s)) (queued s)) (lua_calls (world_of s))) @ more \<and>
    (\<forall>a. actions w' a = (if a \<in> set (drop (length (delivered s)) (queued s)) then None else actions v a)) \<and>
    (\<forall>p \<in> snd ` set (m_preparedStatements d). statements w' p = None) \<and>
    databases w' this = None \<and> m_databases w' = remove1 this (m_databases (world_of s))"
proof -
  obtain xs where x: "queue_holds (m_completedActions d) xs"
    "queued s = delivered s @ xs @ task_actions (tasks d)" "distinct (queued s)"
    "\<forall>a \<in> set xs. actions (world_of s) a \<noteq> None"
    using reachable_db_ok [OF assms(1)] assms(2) by (auto simp: history_ok_def history_at_def)
  have "drop (length (delivered s)) (queued s) = xs @ task_actions (tasks d)" using x(2) by simp
  moreover have "distinct (xs @ task_actions (tasks d))" using x(2,3) by simp
  ultimately show ?thesis
    using Disconnect_ok [OF assms(2) x(1) _ x(4) assms(4) assms(3,5,6), of H] by auto
qed

text \<open>The two queries of the example, with the client that answers every query.\<close>

lemma sample_run_tasks:
  assumes "databases w 1 = Some d" "tasks d = map Run_query acts" "\<forall>a \<in> set acts. actions w a \<noteq> None"
  shows "\<exists>v. run_tasks sample_thread beyond 1 w = Some (Inr (), v)"
  using assms
proof (induction acts arbitrary: w d)
  case Nil
  then show ?case by (simp add: run_tasks.simps)
next
  case (Cons x xs)
  let ?u = "upd_db 1 (\<lambda>d. d\<lparr>tasks := map Run_query xs\<rparr>) w"
  have c: "t_client sample_thread = quiet_client" by (simp add: sample_thread_def)
  obtain q where q: "actions ?u x = Some q" using Cons.prems(3) by auto
  obtain v where v: "RunQuery sample_thread 1 x ?u = Some (Inr (), v)"
    using RunQuery_results [OF q sample_query_attempt] sample_small_results sample_results_within
    unfolding c by blast
  have e: "tasks_effect 1 [x] ?u v" by (rule RunQuery_effect [OF v])
  then have "map_option db_frame (databases v 1) = Some (db_frame
      (d\<lparr>tasks := map Run_query xs, m_completedActions := push x (m_completedActions d)\<rparr>))"
    using Cons.prems(1) by (simp add: tasks_effect_def)
  then obtain d' where d': "databases v 1 = Some d'" "tasks d' = map Run_query xs"
    by (auto simp: db_frame_def)
  have "actions v a \<noteq> None" if "a \<in> set xs" for a
  proof -
    have "map_option action_core (actions v a) = map_option action_core (actions ?u a)"
      using e by (simp add: tasks_effect_def)
    moreover have "actions ?u a \<noteq> None" using that Cons.prems(3) by simp
    ultimately show ?thesis by auto
  qed
  with Cons.IH [OF d'] obtain z where "run_tasks sample_thread beyond 1 v = Some (Inr (), z)" by blast
  then show ?case
    using Cons.prems(1,2) v by (subst run_tasks.simps) (simp add: run_task_def)
qed

theorem disconnect_delivers_witness:
  "\<exists>v w' more. Disconnect sample_lua sample_thread 0 1 (world_of two_queries) = Some (Inr (), w') \<and>
     lua_calls w' = callbacks (env_of sample_lua quiet_client v) (actions v) [3, 4] [] @ more \<and>
     actions w' 3 = None \<and> actions w' 4 = None \<and> databases w' 1 = None \<and> m_databases w' = []"
proof -
  let ?w = "world_of two_queries"
  note defs = two_queries_def sample_world_def sample_database_def new_database_def QueueQuery_def
    alloc_action_def post_def upd_db_def
  obtain d where d: "databases ?w 1 = Some d" "io_thread d" "tasks d = map Run_query [3, 4]"
    "m_preparedStatements d = []" "m_bIsInGC d = False"
    by (simp add: defs)
  have w: "lua_calls ?w = []" "m_databases ?w = [1]" "queued two_queries = [3, 4]"
    "delivered two_queries = []" "actions ?w 3 \<noteq> None" "actions ?w 4 \<noteq> None"
    by (simp_all add: defs)
  obtain v where v: "run_tasks sample_thread 0 1 (upd_db 1 (\<lambda>d. d\<lparr>io_work := False\<rparr>) ?w) = Some (Inr (), v)"
    using sample_run_tasks [of "upd_db 1 (\<lambda>d. d\<lparr>io_work := False\<rparr>) ?w" "d\<lparr>io_work := False\<rparr>" "[3, 4]" 0]
      d(1,3) w(5,6) by auto
  have c: "t_client sample_thread = quiet_client" by (simp add: sample_thread_def)
  obtain w' more where "Disconnect sample_lua sample_thread 0 1 ?w = Some (Inr (), w')"
    "lua_calls w' = callbacks (env_of sample_lua quiet_client v) (actions v) [3, 4] [] @ more"
    "\<forall>a. actions w' a = (if a \<in> set [3, 4] then None else actions v a)"
    "databases w' 1 = None" "m_databases w' = []"
    using disconnect_delivers [OF two_queries_reachable d(1,2) v, of sample_lua] d(4,5) w(1-4)
    unfolding c by auto
  then show ?thesis by auto
qed

section \<open>Connections that fail\<close>

lemma SetCharacterSet_db:
  "databases w this = Some d \<Longrightarrow> \<exists>d'. databases (snd (SetCharacterSet M this cs w)) this = Some d'"
  using SetCharacterSet_keeps [of w M this cs] unfolding keeps_def
  by (metis map_option_is_None not_None_eq)

text \<open>A connection that fails leaves the threads and the registry as they were.\<close>

lemma Initialize_fails:
  assumes "Initialize M wkdir this w = (Inr (False, e), w')"
  shows "keeps w w'"
proof -
  let ?w = "call_my this My_init w"
  show ?thesis
  proof (cases "m_init M (my_calls ?w) this")
    case False
    then show ?thesis using assms by (simp add: Initialize_def Let_def) (metis keeps_call_my keeps_refl)
  next
    case True
    then have "\<exists>x. Connect M wkdir this False ?w = (Inr x, w')"
      using assms by (auto simp: Initialize_def Let_def and_then_Inr split: if_splits)
    with Connect_keeps [of ?w M wkdir this False] show ?thesis by auto
  qed
qed

lemma create_ref_call [simp]: "m_databases (snd (take_callback H i w)) = m_databases w"
  by (simp add: take_callback_def create_ref_def lua_ref_def call_lua_def Let_def)

lemma createDatabase_ok:
  assumes "\<forall>i \<in> {1, 2, 3, 4}. CheckString H i w \<noteq> None"
  shows "\<exists>this u d. createDatabase H w f = f this u \<and> databases u this = Some d \<and>
    this \<in> set (m_databases u)"
proof -
  obtain h us pw db where c: "CheckString H 1 w = Some h" "CheckString H 2 w = Some us"
    "CheckString H 3 w = Some pw" "CheckString H 4 w = Some db"
    using assms by auto
  obtain cb v where v: "take_callback H 8 w = (cb, v)" by (cases "take_callback H 8 w")
  let ?u = "\<lambda>d. RegisterDatabase (heap_end v)
    (v\<lparr>databases := (databases v)(heap_end v := Some d), heap_end := heap_end v + 1\<rparr>)"
  have "\<exists>d. createDatabase H w f = f (heap_end v) (?u d)"
    by (simp add: createDatabase_def checked_def c v Let_def split del: if_split) (rule exI, rule refl)
  then obtain d where "createDatabase H w f = f (heap_end v) (?u d)" by blast
  moreover have "databases (?u d) (heap_end v) = Some d" "heap_end v \<in> set (m_databases (?u d))"
    by (simp_all add: RegisterDatabase_def set_insort_key)
  ultimately show ?thesis by blast
qed

lemma createDatabase_returns:
  assumes "createDatabase H w f = Some (Inr n, w')"
  shows "\<exists>this u. f this u = Some (Inr n, w') \<and> this \<in> set (m_databases u)"
proof (cases "\<forall>i \<in> {1, 2, 3, 4}. CheckString H i w \<noteq> None")
  case True
  from createDatabase_ok [OF this, of f] assms show ?thesis by metis
next
  case False
  then show ?thesis using assms by (auto simp: createDatabase_def checked_def split: option.splits)
qed

text \<open>C38: tmysql.Connect deletes a database it could not connect and leaves it in the
  list of the module: the next call of tmysql.GetTable uses a freed object.\<close>

theorem failed_connect_dangles:
  assumes "tmysql_Connect H T w = Some (Inr 2, w')"
  shows "\<exists>this f v. this \<in> set (m_databases w') \<and> databases w' this = None \<and>
    tmysql_GetTable H' w' = Some (Inl f, v)"
proof -
  obtain this u where u: "this \<in> set (m_databases u)"
    "connect_created H T this u = Some (Inr 2, w')"
    using createDatabase_returns [OF assms [unfolded tmysql_Connect_def]] by blast
  then obtain e v where v: "Initialize (t_client T) (t_wkdir T) this u = (Inr (False, e), v)"
    and w': "w' = delete_db this (call_lua (PushString e) (call_lua (PushBool False) v))"
    by (auto simp: connect_created_def continue_def returns_def split: prod.splits sum.splits if_splits option.splits)
  have "m_databases v = m_databases u" using Initialize_fails [OF v] by (simp add: keeps_def)
  then have "this \<in> set (m_databases w')" "databases w' this = None"
    using u(1) by (simp_all add: w' delete_db_def)
  with freed_in_table [of this w' H'] show ?thesis by blast
qed

text \<open>C39: Database:Connect on a database that was created and never connected waits for
  a thread that does not exist when the connection fails.\<close>

theorem failed_reconnect_faults:
  assumes "l_IsType (h_host H) (lua_calls w) 1 (iDatabaseMTID H)"
    and "l_GetUserType (h_host H) (lua_calls w) 1 (iDatabaseMTID H) = Some this"
    and "databases w this = Some d" "\<not> m_bIsConnected d" "\<not> io_thread d"
    and "Initialize (t_client T) (t_wkdir T) this w = (Inr (False, e), w')"
  shows "\<exists>v. db_Connect H T w = Some (Inl (Undefined Null_pointer), v)"
proof -
  have "map_option db_frame (databases w' this) = Some (db_frame d)"
    using Initialize_fails [OF assms(6)] assms(3) by (simp add: keeps_def)
  then obtain d' where "databases w' this = Some d'" "\<not> io_thread d'"
    using assms(5) by (auto simp: db_frame_def)
  with assms show ?thesis
    by (auto simp: db_Connect_def getDatabaseFromStack_def CheckType_def checked_def with_db_def
        Release_def on_db_def continue_def Let_def)
qed

text \<open>A client that refuses every connection.\<close>

definition refusing_thread :: thread_env where
  "refusing_thread = sample_thread\<lparr>t_client := quiet_client\<lparr>m_real_connect := \<lambda>_ _. False\<rparr>\<rparr>"

definition created_world :: world where
  "created_world = sample_world\<lparr>databases :=
     (\<lambda>_. None)(1 \<mapsto> new_database ''localhost'' ''root'' '''' ''test'' 3306 '''' 0 (- 1))\<rparr>"

definition handle_lua :: lua_thread where
  "handle_lua = sample_lua\<lparr>h_host := sample_host\<lparr>l_GetUserType := \<lambda>_ _ _. Some 1\<rparr>\<rparr>"

lemma refused:
  "databases w this = Some d \<Longrightarrow>
    \<exists>w'. Initialize (t_client refusing_thread) (t_wkdir refusing_thread) this w =
      (Inr (False, error_line 0 ''''), w')"
  by (simp add: refusing_thread_def sample_thread_def quiet_client_def Initialize_def Connect_def
      on_db_def try_connect_def call_my_def Let_def case_prod_unfold)

theorem failed_connect_dangles_witness:
  "\<exists>w' f v. tmysql_Connect sample_lua refusing_thread sample_world = Some (Inr 2, w') \<and>
     tmysql_GetTable sample_lua w' = Some (Inl f, v)"
proof -
  have "\<forall>i \<in> {1, 2, 3, 4}. CheckString sample_lua i sample_world \<noteq> None"
    by (simp add: CheckString_def sample_lua_def sample_host_def)
  from createDatabase_ok [OF this, of "connect_created sample_lua refusing_thread"] have
    "\<exists>w'. tmysql_Connect sample_lua refusing_thread sample_world = Some (Inr 2, w')"
    by (auto simp: tmysql_Connect_def connect_created_def returns_def dest!: refused)
  with failed_connect_dangles [of sample_lua refusing_thread sample_world _ sample_lua]
  show ?thesis by blast
qed

theorem failed_reconnect_faults_witness:
  "\<exists>v. db_Connect handle_lua refusing_thread created_world = Some (Inl (Undefined Null_pointer), v)"
proof -
  let ?d = "new_database ''localhost'' ''root'' '''' ''test'' 3306 '''' 0 (- 1)"
  have d: "databases created_world 1 = Some ?d" by (simp add: created_world_def)
  obtain w' where i: "Initialize (t_client refusing_thread) (t_wkdir refusing_thread) 1 created_world =
      (Inr (False, error_line 0 ''''), w')"
    using refused [OF d] by blast
  show ?thesis
    by (rule failed_reconnect_faults [OF _ _ d _ _ i])
      (simp_all add: handle_lua_def sample_lua_def sample_host_def new_database_def)
qed

section \<open>The memory of parameters\<close>










end
