(* ===== verification/Spec2Isabelle.thy ===== *)
theory Spec2Isabelle
  imports Checksum Inflate_Blocks Inflate_Back Deflate_Correct Gz_Correct Action_Callback Db_Lifecycle
begin

text \<open>
  Verification library of \<open>gm_tmysql4\<close>: a MySQL module for Garry's Mod, and the copy of zlib that its
  client library is built with.

  \<^bold>\<open>The program.\<close>  \<open>src/src/*.cpp\<close> is the module.  Lua makes a \<open>Database\<close> (\<open>tmysql.cpp\<close>), queues
  queries and prepared statements on it (\<open>database.cpp\<close>, \<open>statement.cpp\<close>), the thread of the database
  runs them against the server, copies every result set (\<open>result.cpp\<close>) into the action
  (\<open>databaseaction.cpp\<close>) and pushes the action on a lock-free queue (\<open>database.h\<close>); \<open>Poll\<close> takes the
  actions from there and calls their callbacks.  \<open>src/src/zlib\<close> is zlib 1.2.11: checksums, the
  compressor (\<open>deflate.c\<close> collects symbols, \<open>trees.c\<close> encodes blocks) and the decompressor (\<open>inflate.c\<close>
  with \<open>inftrees.c\<close> and \<open>inffast.c\<close>, \<open>infback.c\<close> the same over callbacks), and gzip files (\<open>gzlib.c\<close>,
  \<open>gzread.c\<close>, \<open>gzwrite.c\<close>).

  \<^bold>\<open>Theories, zlib.\<close>  \<open>Prelude\<close>: words, lists and bits that everything shares.
  \<open>Adler32\<close>, \<open>Crc32_Tables\<close>, \<open>Crc32\<close>: the two checksums against their definitions, with the
  combination of checksums; \<open>Checksum\<close> is the contract (locale \<open>checksum\<close>) both meet.
  \<open>Bit_Output\<close>: \<open>send_bits\<close> and the bit buffer.  \<open>Tree_Tables\<close>, \<open>Huffman_Codes\<close>, \<open>Tree_Build\<close>,
  \<open>Tree_Send\<close>: \<open>trees.c\<close>, with the generated headers, prefix-free codes, the heap, the run-length coding
  of trees and the blocks.  \<open>Inflate_Table\<close> models \<open>inftrees.c\<close>; \<open>Bit_Lists\<close>, \<open>Sorted_Codes\<close>,
  \<open>Decode_Table\<close>, \<open>Sort_Symbols\<close> and \<open>Table_Correct\<close> prove that its tables decode and what space they take.  \<open>Inflate_State\<close>,
  \<open>Inflate_Fast\<close>, \<open>Inflate\<close> and \<open>Inflate_Api\<close> model \<open>inflate.c\<close> and \<open>inffast.c\<close>; \<open>Symbol_Table\<close>
  (locale \<open>symbol_table\<close>, the contract between tables and decoders), \<open>Decoder_Tables\<close>, \<open>Inflate_Bits\<close>,
  \<open>Inflate_Tokens\<close>, \<open>Fast_Tokens\<close> and \<open>Inflate_Blocks\<close> prove that both decoding loops read exactly the
  symbols of a block, and that what \<open>compress_block\<close> sends comes back.
  \<open>Deflate_State\<close> (the state, the hash table, the window and the output), \<open>Deflate_Match\<close> (\<open>longest_match\<close>),
  \<open>Deflate_Stored\<close>, \<open>Deflate_Blocks\<close> (the compression functions, with what keeps their loops going) and
  \<open>Deflate\<close> (the headers, \<open>deflate()\<close> and the calls around it) model \<open>deflate.c\<close>; \<open>Compress\<close> models
  \<open>compress.c\<close>, \<open>uncompr.c\<close> and the strings of \<open>zutil.c\<close>.  \<open>Block_Frame\<close> says what writing a block leaves
  alone.  \<open>Deflate_Chains\<close>: the rolling hash, the chains of strings with one hash, and that
  \<open>longest_match\<close> finds matches; \<open>Deflate_Window\<close>: that filling and sliding the window keep the input and
  the chains; \<open>Deflate_Sound\<close> (locale \<open>match_loop\<close>, the contract of a step of the four loops) and
  \<open>Deflate_Search\<close>: that the symbols collected stand for the input, without matches and with them;
  \<open>Deflate_Correct\<close>: initialisation, and a call of \<open>deflate()\<close> that ends the stream.
  \<open>Inflate_Back\<close> models \<open>infback.c\<close>, with lemmas on its input and its window.  \<open>Gz_State\<close> models
  \<open>gzguts.h\<close> and \<open>gzlib.c\<close>, \<open>Gz_Read\<close> \<open>gzread.c\<close> and \<open>Gz_Write\<close> \<open>gzwrite.c\<close> and \<open>gzclose.c\<close>; their
  lemmas are about the bytes loaded and the position in the file; \<open>Gz_Correct\<close> shows what \<open>gzwrite\<close> counts, and
  what a seek before the first write puts into the file, with the function that follows it.

  \<^bold>\<open>Theories, tmysql.\<close>  \<open>Lua_Host\<close> and \<open>Mysql_Client\<close> are the two neighbours, as parameters: records of
  answers that may depend on all earlier calls, and logs of the calls with an effect.
  \<open>Action_Queue\<close>: \<open>waitfree_action_queue\<close>, its operations and their atomic steps (locale
  \<open>fifo_queue\<close>).  \<open>Query_Result\<close>, \<open>Result_Table\<close>, \<open>Result_Lua\<close>: \<open>Result\<close>, that it copies the result
  set, and the table it becomes.  \<open>Db_Action\<close>, \<open>Action_Callback\<close>: \<open>DatabaseAction\<close>, \<open>Query\<close>,
  \<open>Timer\<close> and what the callback is called with.  \<open>Db_World\<close>: the objects in their memory and the
  connection; \<open>Db_Thread\<close>: the work of the thread; \<open>Db_Lua\<close>: handles, dispatching and disconnecting;
  \<open>Db_Exports\<close>: every Lua function of the two classes; \<open>Db_Module\<close>: the table \<open>tmysql\<close> and the entry
  points of \<open>main.cpp\<close>.  \<open>Db_Queries\<close>, \<open>Db_Delivery\<close>, \<open>Db_Lifecycle\<close>: that queries end with bounded
  retries, that callbacks come in order and none is lost in any interleaving, what \<open>Disconnect\<close>
  delivers, what a failed connection leaves behind, and the memory of parameters.

  \<^bold>\<open>State and errors.\<close>  A struct or class is a record with its members' names, memory is a map from
  addresses, a member or array that may be unset or null is an option.  A zlib integer is a word of its
  width; where the values stay far below it the theory says so and uses a number.  A function of the
  module gives a fault (\<open>Lua_error\<close>, \<open>My_exception\<close>, or \<open>Undefined\<close> behaviour with its cause, a store outside an array among
  them) or a value.
  \<open>None\<close> is a call that never returns: the loops that ask the server for more results, the loops over the
  list of the queue, and the wait of \<open>Disconnect\<close>.

  \<^bold>\<open>Fuel and bounds.\<close>  There is no fuel in the tmysql theories.  \<open>inflate_loop\<close> counts turns; the theorems
  on blocks give a number that is enough; \<open>inflateBack\<close> and the reading of gzip files take such a number too, and
  the loops of gzip files may not end (\<open>None\<close>).  The other loops of zlib are structural or have a measure, or, in
  \<open>compress2\<close> and \<open>uncompress2\<close>, may not end (\<open>None\<close>).  The loops of \<open>deflate.c\<close> end because each turn takes
  a byte of the input or of the lookahead; that \<open>fill_window\<close> reads in every turn is a theorem, and the guard
  that makes the model of its loop total never stops it (\<open>fill_step_reads\<close>).

  \<^bold>\<open>Assumptions.\<close>  \<open>asio\<close> runs the posted tasks of a database one at a time in their order, as its
  documentation says of one thread; a context that has run out of work stops.  A callback is one protected
  call: what it does to the module in turn is not nested into it.  A task runs to its end between two
  operations of the Lua thread, except for the queue, whose atomic steps interleave freely; races on the
  \<open>MYSQL\<close> handle itself (\<open>Escape\<close> or \<open>SetCharacterSet\<close> while a query runs) are outside the model.
  Numbers of Lua are finite doubles; \<open>atof\<close> is symbolic.

  \<^bold>\<open>Not modelled.\<close>  \<open>mysql_library_init\<close> and \<open>mysql_library_end\<close> (calls into the client library without
  a result the module uses).  Of the \<open>gz*\<close> files the variants for wide characters, for Windows CE and for
  compilers without \<open>stdarg.h\<close>, and of \<open>zutil.c\<close> the flags of the build and the allocation wrappers.  \<open>deflatePrime\<close> is as in
  the code only while nothing of a flush is left over (\<open>pending_out\<close> is 0), and the buffers given to a stream are
  not null.  A block is written while \<open>pending_out\<close> is 0; then \<open>compress_block\<close> reads the symbol buffers through the
  pending bytes that overlay them, on a machine that stores the low byte first.  The theorems on what it sends have
  the assertion of its loop (\<open>overlay_ok\<close>) as a hypothesis, which the fixed codes can break (CVE-2018-25032).
  The theorems on the compressor are about levels 1 to 9; \<open>deflate_stored\<close> is modelled, with the end of
  its loops, and its output is not related to the input.
  The headers of the
  connector and of the Lua host are interfaces; only the constants the module uses are taken from them.
\<close>

end
